(* ===== verification/Prelude.thy ===== *)
theory Prelude
  imports Main "HOL-Library.Sublist" "HOL-Library.List_Lexorder" "HOL-Library.Char_ord"
    "HOL-Library.Word"
begin

text \<open>
  The vocabulary every component of the development shares: Go's error values and the
  result type that carries them, the functions of Go's \<^verbatim>\<open>strings\<close>, \<^verbatim>\<open>strconv\<close> and
  \<^verbatim>\<open>encoding/hex\<close> packages that the sources call, time values, and the generic lemmas
  on lists and strings the component proofs rest on. A Go string is its sequence of bytes,
  so it is a \<^typ>\<open>string\<close> here (a list of 8-bit characters) and \<^const>\<open>length\<close> is Go's
  \<^verbatim>\<open>len\<close>. The linear order on strings (List\_Lexorder over Char\_ord) is Go's
  bytewise string order.
\<close>

section \<open>Collections of facts\<close>

named_theorems go_string_simps \<open>rewriting rules for the Go string functions\<close>
named_theorems result_simps \<open>rewriting rules for the error and result types\<close>

section \<open>Errors and results\<close>

text \<open>
  Go's error values. \<open>Errorf\<close> is \<^verbatim>\<open>errors.New\<close> and \<^verbatim>\<open>fmt.Errorf\<close> without a
  wrapped cause, \<open>Sentinel\<close> a package-level error variable that callers compare with
  \<^verbatim>\<open>errors.Is\<close>, \<open>Wrap\<close> the \<^verbatim>\<open>%w\<close> verb, \<open>JoinErr\<close> \<^verbatim>\<open>errors.Join\<close>,
  \<open>RateLimit\<close> the rate-limit error with its delay, \<open>InvalidRecord\<close> the record stores'
  \<^verbatim>\<open>invalidRecordError\<close>.
\<close>

datatype goerror =
    Errorf string
  | Sentinel string
  | ErrNotExist
  | ErrIO
  | Wrap string goerror
  | JoinErr goerror goerror
  | RateLimit int
  | InvalidRecord goerror

type_synonym 'a result = "goerror + 'a"

text \<open>\<^verbatim>\<open>errors.Is\<close>: the error itself or one it wraps.\<close>

fun errors_is :: "goerror \<Rightarrow> goerror \<Rightarrow> bool" where
  "errors_is (Wrap m e) t = (Wrap m e = t \<or> errors_is e t)"
| "errors_is (JoinErr a b) t = (JoinErr a b = t \<or> errors_is a t \<or> errors_is b t)"
| "errors_is (InvalidRecord e) t = (InvalidRecord e = t \<or> errors_is e t)"
| "errors_is (RateLimit d) t = (RateLimit d = t \<or> Sentinel ''authentication rate limit exceeded'' = t)"
| "errors_is e t = (e = t)"

text \<open>\<^verbatim>\<open>errors.As\<close> against the record stores' invalid-record error.\<close>

fun as_invalid_record :: "goerror \<Rightarrow> bool" where
  "as_invalid_record (InvalidRecord _) = True"
| "as_invalid_record (Wrap _ e) = as_invalid_record e"
| "as_invalid_record (JoinErr a b) = (as_invalid_record a \<or> as_invalid_record b)"
| "as_invalid_record _ = False"

text \<open>Sequencing: \<^verbatim>\<open>if err != nil { return err }\<close>.\<close>

definition bindr :: "'a result \<Rightarrow> ('a \<Rightarrow> 'b result) \<Rightarrow> 'b result" where
  "bindr r f = (case r of Inl e \<Rightarrow> Inl e | Inr x \<Rightarrow> f x)"

lemma bindr_simps [simp, result_simps]:
  "bindr (Inl e) f = Inl e"
  "bindr (Inr x) f = f x"
  by (simp_all add: bindr_def)

lemma bindr_Inr_iff [result_simps]:
  "bindr r f = Inr y \<longleftrightarrow> (\<exists>x. r = Inr x \<and> f x = Inr y)"
  by (cases r) simp_all

lemma bindr_Inl_iff [result_simps]:
  "bindr r f = Inl e \<longleftrightarrow> r = Inl e \<or> (\<exists>x. r = Inr x \<and> f x = Inl e)"
  by (cases r) auto

text \<open>A guard that returns an error when its condition holds.\<close>

definition fail_if :: "bool \<Rightarrow> goerror \<Rightarrow> unit result" where
  "fail_if c e = (if c then Inl e else Inr ())"

lemma fail_if_Inr [simp, result_simps]: "fail_if c e = Inr u \<longleftrightarrow> \<not> c"
  by (simp add: fail_if_def)

lemma fail_if_Inl [simp, result_simps]: "fail_if c e = Inl e' \<longleftrightarrow> c \<and> e' = e"
  by (auto simp: fail_if_def)

text \<open>The checks of a validator, in source order: the first that fails decides the error.\<close>

fun checks :: "unit result list \<Rightarrow> unit result" where
  "checks [] = Inr ()"
| "checks (c # cs) = (case c of Inl e \<Rightarrow> Inl e | Inr _ \<Rightarrow> checks cs)"

lemma checks_Inr [result_simps]: "checks cs = Inr u \<longleftrightarrow> (\<forall>c\<in>set cs. c = Inr ())"
  by (induction cs) (auto split: sum.splits)

text \<open>A loop body that may return an error, over a slice with its index.\<close>

fun check_each :: "(nat \<Rightarrow> 'a \<Rightarrow> unit result) \<Rightarrow> nat \<Rightarrow> 'a list \<Rightarrow> unit result" where
  "check_each f i [] = Inr ()"
| "check_each f i (x # xs) = (case f i x of Inl e \<Rightarrow> Inl e | Inr _ \<Rightarrow> check_each f (Suc i) xs)"

lemma check_each_Inr:
  "check_each f i xs = Inr u \<longleftrightarrow> (\<forall>j < length xs. f (i + j) (xs ! j) = Inr ())"
proof (induction xs arbitrary: i)
  case Nil
  then show ?case by simp
next
  case (Cons x xs)
  have "(\<forall>j < length (x # xs). f (i + j) ((x # xs) ! j) = Inr ())
      \<longleftrightarrow> f i x = Inr () \<and> (\<forall>j < length xs. f (Suc i + j) (xs ! j) = Inr ())"
    by (auto simp: All_less_Suc2 less_Suc_eq_0_disj)
  then show ?case using Cons.IH [of "Suc i"] by (auto split: sum.splits)
qed

section \<open>Go strings\<close>

definition HasPrefix :: "string \<Rightarrow> string \<Rightarrow> bool" where
  "HasPrefix s p = prefix p s"

definition HasSuffix :: "string \<Rightarrow> string \<Rightarrow> bool" where
  "HasSuffix s p = suffix p s"

definition Contains :: "string \<Rightarrow> string \<Rightarrow> bool" where
  "Contains s p = sublist p s"

definition TrimPrefix :: "string \<Rightarrow> string \<Rightarrow> string" where
  "TrimPrefix s p = (if HasPrefix s p then drop (length p) s else s)"

definition TrimSuffix :: "string \<Rightarrow> string \<Rightarrow> string" where
  "TrimSuffix s p = (if HasSuffix s p then take (length s - length p) s else s)"

text \<open>\<^verbatim>\<open>strings.Trim\<close> with a one-character cutset.\<close>

definition TrimChar :: "string \<Rightarrow> char \<Rightarrow> string" where
  "TrimChar s c = rev (dropWhile (\<lambda>x. x = c) (rev (dropWhile (\<lambda>x. x = c) s)))"

text \<open>\<^verbatim>\<open>strings.LastIndex\<close>: \<^const>\<open>None\<close> stands for -1.\<close>

definition LastIndex :: "string \<Rightarrow> string \<Rightarrow> nat option" where
  "LastIndex s p =
     (let hits = filter (\<lambda>i. prefix p (drop i s)) [0..<Suc (length s)]
      in if hits = [] then None else Some (last hits))"

text \<open>\<^verbatim>\<open>strings.Split\<close> with a one-character separator, and \<^verbatim>\<open>strings.Join\<close>.\<close>

fun Split :: "char \<Rightarrow> string \<Rightarrow> string list" where
  "Split c [] = [[]]"
| "Split c (x # xs) =
     (if x = c then [] # Split c xs
      else (case Split c xs of [] \<Rightarrow> [[x]] | p # ps \<Rightarrow> (x # p) # ps))"

fun Join :: "string list \<Rightarrow> string \<Rightarrow> string" where
  "Join [] sep = []"
| "Join [p] sep = p"
| "Join (p # q # ps) sep = p @ sep @ Join (q # ps) sep"

text \<open>\<^verbatim>\<open>strings.Cut\<close> with a one-character separator.\<close>

definition Cut :: "string \<Rightarrow> char \<Rightarrow> string \<times> string \<times> bool" where
  "Cut s c =
     (if c \<in> set s
      then (takeWhile (\<lambda>x. x \<noteq> c) s, tl (dropWhile (\<lambda>x. x \<noteq> c) s), True)
      else (s, [], False))"

lemma HasPrefix_append [simp, go_string_simps]: "HasPrefix (p @ s) p"
  by (simp add: HasPrefix_def)

lemma HasSuffix_append [simp, go_string_simps]: "HasSuffix (s @ p) p"
  by (simp add: HasSuffix_def suffix_def)

lemma HasPrefixE [elim?]:
  assumes "HasPrefix s p" obtains t where "s = p @ t"
  using assms by (auto simp: HasPrefix_def prefix_def)

lemma HasSuffixE [elim?]:
  assumes "HasSuffix s p" obtains t where "s = t @ p"
  using assms by (auto simp: HasSuffix_def suffix_def)

lemma TrimPrefix_append [simp, go_string_simps]: "TrimPrefix (p @ s) p = s"
  by (simp add: TrimPrefix_def)

lemma TrimSuffix_append [simp, go_string_simps]: "TrimSuffix (s @ p) p = s"
  by (simp add: TrimSuffix_def)

lemma Split_ne_Nil [simp]: "Split c s \<noteq> []"
  by (induction s) (auto split: list.splits)

lemma Join_Cons: "ps \<noteq> [] \<Longrightarrow> Join (p # ps) sep = p @ sep @ Join ps sep"
  by (cases ps) simp_all

lemma Join_Cons_char: "ps \<noteq> [] \<Longrightarrow> Join ((x # p) # ps) sep = x # Join (p # ps) sep"
  by (cases ps) simp_all

text \<open>Splitting loses nothing: joining the parts with the separator gives the string back.\<close>

lemma Join_Split [simp]: "Join (Split c s) [c] = s"
proof (induction s)
  case Nil
  then show ?case by simp
next
  case (Cons x xs)
  obtain p ps where sp: "Split c xs = p # ps" by (cases "Split c xs") auto
  show ?case
  proof (cases "x = c")
    case True
    with Cons sp show ?thesis by (simp add: Join_Cons)
  next
    case False
    with Cons sp show ?thesis by (cases ps) simp_all
  qed
qed

lemma Split_no_sep: "c \<notin> set s \<Longrightarrow> Split c s = [s]"
  by (induction s) auto

lemma Split_append_sep: "c \<notin> set p \<Longrightarrow> Split c (p @ c # s) = p # Split c s"
  by (induction p) auto

text \<open>Parts without the separator come back from the joined string.\<close>

lemma Split_Join:
  "ps \<noteq> [] \<Longrightarrow> \<forall>p\<in>set ps. c \<notin> set p \<Longrightarrow> Split c (Join ps [c]) = ps"
proof (induction ps)
  case Nil
  then show ?case by simp
next
  case (Cons p ps)
  show ?case
  proof (cases ps)
    case Nil
    with Cons.prems show ?thesis by (simp add: Split_no_sep)
  next
    case (Cons q qs)
    with Cons.prems Cons.IH show ?thesis
      by (simp add: Join_Cons Split_append_sep)
  qed
qed

lemma Split_parts_no_sep: "p \<in> set (Split c s) \<Longrightarrow> c \<notin> set p"
proof (induction s arbitrary: p)
  case Nil
  then show ?case by simp
next
  case (Cons x xs)
  obtain q qs where "Split c xs = q # qs" by (cases "Split c xs") auto
  with Cons show ?case by (auto split: if_splits)
qed

lemma set_Join_subset: "set (Join ps sep) \<subseteq> \<Union> (set ` set ps) \<union> set sep"
proof (induction ps)
  case (Cons p ps)
  then show ?case by (cases ps) auto
qed simp

lemma Join_eq_Nil: "ps \<noteq> [] \<Longrightarrow> \<forall>p\<in>set ps. p \<noteq> [] \<Longrightarrow> Join ps sep \<noteq> []"
  by (cases ps; cases "tl ps") auto

lemma Join_append:
  "ps \<noteq> [] \<Longrightarrow> qs \<noteq> [] \<Longrightarrow> Join (ps @ qs) sep = Join ps sep @ sep @ Join qs sep"
proof (induction ps)
  case (Cons p ps)
  then show ?case by (cases ps) (simp_all add: Join_Cons)
qed simp

lemma Cut_found: "c \<notin> set p \<Longrightarrow> Cut (p @ c # s) c = (p, s, True)"
  by (induction p) (auto simp: Cut_def split: if_splits)

section \<open>Machine integers and time\<close>

text \<open>
  Go's \<^verbatim>\<open>int\<close>, \<^verbatim>\<open>int64\<close> and \<^verbatim>\<open>time.Duration\<close> have 64 bits: an \<^typ>\<open>int\<close> here, with
  \<open>wrap64\<close> around every sum and product that could leave the range. An instant is the number
  of nanoseconds since the zero time, so the zero \<^verbatim>\<open>time.Time\<close> is 0, and \<^verbatim>\<open>Sub\<close> saturates.
\<close>

definition wrap64 :: "int \<Rightarrow> int" where
  "wrap64 x = (x + 2 ^ 63) mod 2 ^ 64 - 2 ^ 63"

definition in_int64 :: "int \<Rightarrow> bool" where
  "in_int64 x \<longleftrightarrow> - (2 ^ 63) \<le> x \<and> x < 2 ^ 63"

definition Time_Sub :: "int \<Rightarrow> int \<Rightarrow> int" where
  "Time_Sub t u = max (- (2 ^ 63)) (min (2 ^ 63 - 1) (t - u))"

lemma wrap64_id [simp]: "in_int64 x \<Longrightarrow> wrap64 x = x"
  by (simp add: in_int64_def wrap64_def)

lemma wrap64_in [simp]: "in_int64 (wrap64 x)"
  using pos_mod_bound [of "2 ^ 64" "x + 2 ^ 63"] pos_mod_sign [of "2 ^ 64" "x + 2 ^ 63"]
  by (simp add: in_int64_def wrap64_def)

abbreviation second :: int where "second \<equiv> 1000000000"

section \<open>White space and case\<close>

text \<open>
  \<^verbatim>\<open>strings.TrimSpace\<close> removes the runes for which \<^verbatim>\<open>unicode.IsSpace\<close> holds: the six ASCII
  white-space characters and, as UTF-8 sequences, U+0085, U+00A0, U+1680, U+2000 to U+200A,
  U+2028, U+2029, U+202F, U+205F and U+3000. A byte string starts (ends) with such a rune
  exactly when it starts (ends) with its encoding.
\<close>

definition byte_string :: "nat list \<Rightarrow> string" where
  "byte_string ns = map (char_of :: nat \<Rightarrow> char) ns"

definition space_runes :: "string list" where
  "space_runes =
     map byte_string
       ([[9], [10], [11], [12], [13], [32], [194, 133], [194, 160], [225, 154, 128],
         [226, 128, 168], [226, 128, 169], [226, 128, 175], [226, 129, 159], [227, 128, 128]] @
        map (\<lambda>n. [226, 128, n]) [128..<139])"

definition strip_one :: "string list \<Rightarrow> string \<Rightarrow> string option" where
  "strip_one runes s =
     (case find (\<lambda>r. r \<noteq> [] \<and> prefix r s) runes of None \<Rightarrow> None | Some r \<Rightarrow> Some (drop (length r) s))"

lemma strip_one_shorter: "strip_one runes s = Some t \<Longrightarrow> length t < length s"
  by (auto simp: strip_one_def find_Some_iff prefix_def split: option.splits)

function trim_runes :: "string list \<Rightarrow> string \<Rightarrow> string" where
  "trim_runes runes s = (case strip_one runes s of None \<Rightarrow> s | Some t \<Rightarrow> trim_runes runes t)"
  by pat_completeness auto
termination
  by (relation "measure (\<lambda>(runes, s). length s)") (auto dest: strip_one_shorter)

declare trim_runes.simps [simp del]

definition TrimSpace :: "string \<Rightarrow> string" where
  "TrimSpace s =
     (let left = trim_runes space_runes s
      in rev (trim_runes (map rev space_runes) (rev left)))"

lemma trim_runes_Nil [simp]: "trim_runes runes [] = []"
  by (subst trim_runes.simps)
    (auto simp: strip_one_def find_Some_iff split: option.splits)

lemma TrimSpace_Nil [simp]: "TrimSpace [] = []"
  by (simp add: TrimSpace_def)

lemma TrimSpace_nonempty: "TrimSpace s \<noteq> [] \<Longrightarrow> s \<noteq> []"
  by auto

lemma trim_runes_fixed: "strip_one runes (trim_runes runes s) = None"
proof (induction runes s rule: trim_runes.induct)
  case (1 runes s)
  then show ?case by (subst trim_runes.simps) (simp split: option.split)
qed

lemma trim_runes_id: "strip_one runes s = None \<Longrightarrow> trim_runes runes s = s"
  by (subst trim_runes.simps) simp

text \<open>A string whose ends are plain printable ASCII is already trimmed.\<close>

definition plain_char :: "char \<Rightarrow> bool" where
  "plain_char c \<longleftrightarrow> (of_char c :: nat) > 32 \<and> (of_char c :: nat) < 128"

lemma strip_one_plain:
  assumes "s = [] \<or> plain_char (hd s)" "\<forall>r\<in>set runes. r \<noteq> [] \<longrightarrow> \<not> plain_char (hd r)"
  shows "strip_one runes s = None"
proof -
  have "\<not> (r \<noteq> [] \<and> prefix r s)" if "r \<in> set runes" for r
    using assms that by (cases r; cases s) auto
  then show ?thesis
    by (auto simp: strip_one_def find_None_iff split: option.splits dest: find_Some_iff [THEN iffD1])
qed

lemma space_runes_not_plain:
  "\<forall>r\<in>set space_runes. r \<noteq> [] \<longrightarrow> \<not> plain_char (hd r)"
  "\<forall>r\<in>set (map rev space_runes). r \<noteq> [] \<longrightarrow> \<not> plain_char (hd r)"
  by (auto simp: space_runes_def byte_string_def plain_char_def upt_rec)

lemma TrimSpace_plain:
  assumes "s = [] \<or> plain_char (hd s) \<and> plain_char (last s)"
  shows "TrimSpace s = s"
proof -
  have "strip_one space_runes s = None"
    using assms space_runes_not_plain(1) by (intro strip_one_plain) auto
  moreover have "strip_one (map rev space_runes) (rev s) = None"
    using assms space_runes_not_plain(2) by (intro strip_one_plain) (auto simp: hd_rev)
  ultimately show ?thesis by (simp add: TrimSpace_def trim_runes_id)
qed

text \<open>
  \<^verbatim>\<open>strings.ToLower\<close>: on ASCII strings the letters A to Z; the Unicode case tables, used
  when a byte is 128 or more, are the parameter \<open>unicode_lower\<close>.
\<close>

definition ascii_lower :: "char \<Rightarrow> char" where
  "ascii_lower c = (if c \<ge> CHR ''A'' \<and> c \<le> CHR ''Z'' then char_of ((of_char c :: nat) + 32) else c)"

definition ToLower :: "(string \<Rightarrow> string) \<Rightarrow> string \<Rightarrow> string" where
  "ToLower unicode_lower s =
     (if list_all (\<lambda>c. (of_char c :: nat) < 128) s then map ascii_lower s else unicode_lower s)"

text \<open>
  The text of an error, for records that store it. A wrapping message stands before the cause.
\<close>

fun error_text :: "goerror \<Rightarrow> string" where
  "error_text (Errorf m) = m"
| "error_text (Sentinel m) = m"
| "error_text ErrNotExist = ''file does not exist''"
| "error_text ErrIO = ''input/output error''"
| "error_text (Wrap m e) = m @ '': '' @ error_text e"
| "error_text (JoinErr a b) = error_text a @ [CHR 0x0A] @ error_text b"
| "error_text (RateLimit d) = ''authentication rate limit exceeded''"
| "error_text (InvalidRecord e) = error_text e"

lemma unit_result_bind: "bindr m (\<lambda>_. n) = Inr u \<longleftrightarrow> m = Inr () \<and> n = Inr u"
  by (cases m) auto

lemma option_ext:
  assumes "\<And>x. m = Some x \<longleftrightarrow> n = Some x"
  shows "m = n"
proof (cases m)
  case None
  with assms have "n \<noteq> Some x" for x by simp
  then show ?thesis using None not_None_eq [of n] by metis
qed (use assms in simp)

end
