(* ===== verification/RepoPath.thy ===== *)
theory RepoPath
  imports Prelude
begin

text \<open>
  Repository and group paths, \<^verbatim>\<open>src/internal/repopath/repopath.go\<close>: the syntax of
  path segments, the parser of Git and LFS request paths, and \<^verbatim>\<open>SafeJoin\<close>, which joins
  segments below the storage root. The lemmas show that the request parser accepts exactly
  the printed paths of well-formed repositories, and that \<^verbatim>\<open>SafeJoin\<close> never leaves the
  root and is the plain concatenation on valid segments.
\<close>

section \<open>Data and operations\<close>

record repository =
  Groups :: "string list"
  Name :: string

definition Group :: "repository \<Rightarrow> string" where
  "Group r = Join (Groups r) ''/''"

definition Full :: "repository \<Rightarrow> string" where
  "Full r = Group r @ ''/'' @ Name r"

definition Repository_RootGroup :: "repository \<Rightarrow> string" where
  "Repository_RootGroup r = (if length (Groups r) = 0 then [] else Groups r ! 0)"

text \<open>
  The loop of \<^verbatim>\<open>valid\<close> ranges over runes; every byte of a non-ASCII rune is at least 128,
  so testing the bytes one by one accepts the same strings.
\<close>

definition valid_char :: "char \<Rightarrow> bool" where
  "valid_char r \<longleftrightarrow>
     (r \<ge> CHR ''a'' \<and> r \<le> CHR ''z'') \<or> (r \<ge> CHR ''A'' \<and> r \<le> CHR ''Z'') \<or>
     (r \<ge> CHR ''0'' \<and> r \<le> CHR ''9'') \<or> r = CHR ''-'' \<or> r = CHR ''_'' \<or> r = CHR ''.''"

definition valid :: "string \<Rightarrow> bool" where
  "valid s =
     (if s = [] \<or> length s > 100 \<or> s = ''.'' \<or> s = ''..'' \<or> HasPrefix s ''.'' then False
      else list_all valid_char s)"

definition ParseGroup :: "string \<Rightarrow> string list result" where
  "ParseGroup p0 =
     (let p = TrimChar p0 (CHR ''/'') in
      if p = [] \<or> Contains p ''//'' then Inl (Errorf ''invalid group'')
      else let parts = Split (CHR ''/'') p in
        if list_all valid parts then Inr parts else Inl (Errorf ''invalid group segment''))"

definition RootGroup :: "string \<Rightarrow> string result" where
  "RootGroup grp = bindr (ParseGroup grp) (\<lambda>parts. Inr (parts ! 0))"

definition routes :: "string list" where
  "routes =
     [''/info/lfs/objects/batch'', ''/info/lfs/objects/verify'', ''/git-upload-pack'',
      ''/git-receive-pack'', ''/info/refs'']"

definition objectRoute :: string where
  "objectRoute = ''/info/lfs/objects/''"

text \<open>The first loop of the parser: strip the first service suffix that matches.\<close>

fun strip_route :: "string list \<Rightarrow> string \<Rightarrow> string \<times> string" where
  "strip_route [] p = (p, [])"
| "strip_route (s # ss) p = (if HasSuffix p s then (TrimSuffix p s, s) else strip_route ss p)"

text \<open>The LFS object route, tried when no service suffix matched.\<close>

definition strip_object :: "string \<times> string \<Rightarrow> string \<times> string" where
  "strip_object ps = (case ps of (p, sfx) \<Rightarrow>
     if sfx = [] \<and> \<not> HasSuffix p ''.git'' then
       (case LastIndex p objectRoute of
          None \<Rightarrow> (p, sfx)
        | Some i \<Rightarrow>
            let repositoryPath = take i p; object = drop (i + length objectRoute) p in
            if HasSuffix repositoryPath ''.git'' \<and> object \<noteq> [] \<and> \<not> Contains object ''/''
            then (repositoryPath, drop i p) else (p, sfx))
     else (p, sfx))"

definition ParseGitRequestPath :: "string \<Rightarrow> (repository \<times> string) result" where
  "ParseGitRequestPath p0 =
     (case strip_object (strip_route routes (TrimPrefix p0 ''/'')) of (p1, sfx) \<Rightarrow>
      if \<not> HasSuffix p1 ''.git'' then Inl (Errorf ''repository path must end in .git'')
      else let p = TrimSuffix p1 ''.git'' in
        if Contains p ''//'' \<or> HasPrefix p ''/'' \<or> HasSuffix p ''/''
        then Inl (Errorf ''invalid repository path'')
        else let parts = Split (CHR ''/'') p in
          if length parts < 2 then Inl (Errorf ''repository must belong to a group'')
          else if \<not> list_all valid parts then Inl (Errorf ''invalid path segment'')
          else Inr (\<lparr>Groups = butlast parts, Name = last parts\<rparr>, sfx))"

section \<open>Well-formed repositories\<close>

text \<open>What the parser promises of a repository: at least one group, every segment valid.\<close>

definition wf_repository :: "repository \<Rightarrow> bool" where
  "wf_repository r \<longleftrightarrow> Groups r \<noteq> [] \<and> list_all valid (Groups r) \<and> valid (Name r)"

text \<open>
  The object names the LFS object route can carry: one non-empty segment that is not one of
  the service names the first loop takes for itself and does not end in \<^verbatim>\<open>.git\<close>.
\<close>

definition object_name :: "string \<Rightarrow> bool" where
  "object_name ob \<longleftrightarrow>
     ob \<noteq> [] \<and> CHR ''/'' \<notin> set ob \<and> \<not> HasSuffix ob ''.git'' \<and>
     ob \<notin> {''batch'', ''verify'', ''git-upload-pack'', ''git-receive-pack''}"

definition request_suffix :: "string \<Rightarrow> bool" where
  "request_suffix s \<longleftrightarrow>
     s = [] \<or> s \<in> set routes \<or>
     (HasPrefix s objectRoute \<and> object_name (drop (length objectRoute) s))"

lemma valid_no_slash: "valid s \<Longrightarrow> CHR ''/'' \<notin> set s"
  by (auto simp: valid_def valid_char_def list_all_iff split: if_splits)

lemma valid_nonempty: "valid s \<Longrightarrow> s \<noteq> []"
  by (auto simp: valid_def)

lemma valid_no_dot_first: "valid s \<Longrightarrow> hd s \<noteq> CHR ''.''"
  by (cases s) (auto simp: valid_def HasPrefix_def split: if_splits)

lemma Contains_char: "Contains s [c] \<longleftrightarrow> c \<in> set s"
  by (auto simp: Contains_def sublist_def in_set_conv_decomp)

lemma Full_Join: "Groups r \<noteq> [] \<Longrightarrow> Full r = Join (Groups r @ [Name r]) ''/''"
  by (simp add: Full_def Group_def Join_append)

lemma wf_parts_no_slash:
  "wf_repository r \<Longrightarrow> \<forall>p\<in>set (Groups r @ [Name r]). CHR ''/'' \<notin> set p"
  by (auto simp: wf_repository_def list_all_iff valid_no_slash)

lemma wf_Split_Full: "wf_repository r \<Longrightarrow> Split (CHR ''/'') (Full r) = Groups r @ [Name r]"
  using wf_parts_no_slash [of r] by (simp add: Full_Join Split_Join wf_repository_def)

text \<open>A joined path whose parts are non-empty has no empty segment.\<close>

lemma sublist_double_sep:
  "sublist [c, c] (p @ c # s) \<Longrightarrow> c \<notin> set p \<Longrightarrow> sublist [c, c] (c # s)"
  by (induction p) (auto simp: sublist_Cons_right)

lemma Join_no_double:
  assumes "\<forall>p\<in>set ps. c \<notin> set p \<and> p \<noteq> []"
  shows "\<not> sublist [c, c] (Join ps [c]) \<and> \<not> prefix [c] (Join ps [c])"
  using assms
proof (induction ps)
  case Nil
  then show ?case by simp
next
  case (Cons p ps)
  have p: "c \<notin> set p" "p \<noteq> []" using Cons.prems by auto
  have IH: "\<not> sublist [c, c] (Join ps [c])" "\<not> prefix [c] (Join ps [c])"
    using Cons by auto
  show ?case
  proof (cases ps)
    case Nil
    with p show ?thesis
      by (cases p) (auto dest!: set_mono_sublist)
  next
    case (Cons q qs)
    then have J: "Join (p # ps) [c] = p @ c # Join ps [c]" by (simp add: Join_Cons)
    have "\<not> sublist [c, c] (c # Join ps [c])"
      using IH by (auto simp: sublist_Cons_right)
    with sublist_double_sep [OF _ p(1)] J p show ?thesis by (cases p) auto
  qed
qed

lemma Join_suffix_sep:
  assumes "ps \<noteq> []" "\<forall>p\<in>set ps. c \<notin> set p \<and> p \<noteq> []"
  shows "\<not> suffix [c] (Join ps [c])"
  using assms
proof (induction ps)
  case (Cons p ps)
  show ?case
  proof (cases ps)
    case Nil
    with Cons.prems show ?thesis by (auto simp: suffix_def)
  next
    case (Cons q qs)
    with Cons.IH Cons.prems have IH: "\<not> suffix [c] (Join ps [c])" by auto
    have ne: "Join ps [c] \<noteq> []" using Cons Cons.prems by (intro Join_eq_Nil) auto
    have "Join (p # ps) [c] = (p @ [c]) @ Join ps [c]" using Cons by (simp add: Join_Cons)
    with IH ne show ?thesis
      by (metis append_is_Nil_conv last_appendR last_snoc not_Cons_self2 snoc_eq_iff_butlast
          suffix_def)
  qed
qed simp

lemma wf_Full_shape:
  assumes "wf_repository r"
  shows "\<not> Contains (Full r) ''//''" "\<not> HasPrefix (Full r) ''/''" "\<not> HasSuffix (Full r) ''/''"
proof -
  have parts: "\<forall>p\<in>set (Groups r @ [Name r]). CHR ''/'' \<notin> set p \<and> p \<noteq> []"
    using assms wf_parts_no_slash [OF assms]
    by (auto simp: wf_repository_def list_all_iff dest: valid_nonempty)
  have F: "Full r = Join (Groups r @ [Name r]) [CHR ''/'']"
    using assms by (simp add: Full_Join wf_repository_def)
  show "\<not> Contains (Full r) ''//''" "\<not> HasPrefix (Full r) ''/''"
    using Join_no_double [OF parts] by (simp_all add: F Contains_def HasPrefix_def)
  show "\<not> HasSuffix (Full r) ''/''"
    using Join_suffix_sep [OF _ parts] by (simp add: F HasSuffix_def)
qed

section \<open>The request parser\<close>

lemma strip_route_sound:
  "strip_route ss p = (q, s) \<Longrightarrow> p = q @ s \<and> (s = [] \<or> s \<in> set ss)"
proof (induction ss)
  case (Cons t ss)
  show ?case
  proof (cases "HasSuffix p t")
    case True
    then obtain u where "p = u @ t" by (rule HasSuffixE)
    with Cons.prems show ?thesis by simp
  next
    case False
    with Cons show ?thesis by auto
  qed
qed simp

lemma strip_route_none:
  "strip_route ss p = (q, []) \<Longrightarrow> [] \<notin> set ss \<Longrightarrow> \<forall>t\<in>set ss. \<not> HasSuffix p t"
  by (induction ss) (auto split: if_splits)

lemma strip_route_miss: "\<forall>t\<in>set ss. \<not> HasSuffix p t \<Longrightarrow> strip_route ss p = (p, [])"
  by (induction ss) auto

text \<open>Two paths cut at their last separator: a suffix aligns with the last segment.\<close>

lemma suffix_last_segment:
  assumes "suffix (a @ c # b) (p @ c # q)" "c \<notin> set b" "c \<notin> set q"
  shows "b = q \<and> suffix a p"
proof -
  obtain u where u: "p @ c # q = u @ a @ c # b"
    using assms(1) by (auto simp: suffix_def)
  then have eq: "p @ c # q = (u @ a) @ c # b" by simp
  have "q = b \<and> p = u @ a"
    using assms(2,3) eq by (auto simp: append_eq_append_conv2 Cons_eq_append_conv append_eq_Cons_conv)
  then show ?thesis by (auto simp: suffix_def)
qed

lemma LastIndex_Some:
  assumes "LastIndex p t = Some i"
  shows "p = take i p @ t @ drop (i + length t) p"
proof -
  let ?hits = "filter (\<lambda>i. prefix t (drop i p)) [0..<Suc (length p)]"
  have "?hits \<noteq> []" "i = last ?hits"
    using assms by (auto simp: LastIndex_def Let_def simp del: upt_Suc split: if_splits)
  then have "i \<in> set ?hits" using last_in_set by blast
  then have "prefix t (drop i p)" by (simp del: upt_Suc)
  then obtain u where u: "drop i p = t @ u" by (auto simp: prefix_def)
  then have "drop (i + length t) p = u"
    by (metis append_eq_conv_conj drop_drop add.commute)
  with u show ?thesis by (metis append_take_drop_id)
qed

lemma last_filter_upt:
  assumes "i < n" "P i" "\<And>j. i < j \<Longrightarrow> j < n \<Longrightarrow> \<not> P j"
  shows "last (filter P [0..<n]) = i \<and> filter P [0..<n] \<noteq> []"
proof -
  have "[0..<n] = [0..<i] @ i # [Suc i..<n]"
    using assms(1) by (metis le_add1 less_imp_add_positive upt_add_eq_append upt_conv_Cons
        add_0 zero_le)
  moreover have "filter P [Suc i..<n] = []"
    using assms(3) by (auto simp: filter_empty_conv)
  ultimately show ?thesis using assms(2) by simp
qed

text \<open>A separator-terminated pattern followed by one segment occurs last right before it.\<close>

lemma LastIndex_segment:
  assumes "t = t' @ [c]" "c \<notin> set ob"
  shows "LastIndex (q @ t @ ob) t = Some (length q)"
proof -
  let ?s = "q @ t @ ob"
  have "\<not> prefix t (drop j ?s)" if "length q < j" for j
  proof
    assume "prefix t (drop j ?s)"
    then obtain v where v: "drop j ?s = t' @ c # v" using assms(1) by (auto simp: prefix_def)
    have "drop j ?s = drop (j - length q) (t @ ob)" using that by simp
    also have "\<dots> = drop (j - length q) t @ drop (j - length q - length t) ob" by simp
    finally have d: "drop (j - length q) t @ drop (j - length q - length t) ob = t' @ c # v"
      using v by simp
    have le: "length (drop (j - length q) t) \<le> length t'" using assms(1) that by simp
    from d obtain us where "drop (j - length q - length t) ob = us @ c # v"
    proof (cases rule: append_eq_append_conv2 [THEN iffD1, OF d, THEN exE])
      case (1 us)
      with le show ?thesis using that by (auto simp: append_eq_Cons_conv dest: arg_cong [where f = length])
    qed
    then have "c \<in> set (drop (j - length q - length t) ob)" by simp
    with assms(2) show False by (auto dest: in_set_dropD)
  qed
  then have "last (filter (\<lambda>i. prefix t (drop i ?s)) [0..<Suc (length ?s)]) = length q \<and>
      filter (\<lambda>i. prefix t (drop i ?s)) [0..<Suc (length ?s)] \<noteq> []"
    by (intro last_filter_upt) auto
  then show ?thesis by (simp add: LastIndex_def Let_def del: upt_Suc)
qed

text \<open>The service routes cut at their last separator: the last segments are distinct.\<close>

definition route_cuts :: "(string \<times> string) list" where
  "route_cuts =
     [(''/info/lfs/objects'', ''batch''), (''/info/lfs/objects'', ''verify''),
      ([], ''git-upload-pack''), ([], ''git-receive-pack''), (''/info'', ''refs'')]"

lemma routes_cut: "routes = map (\<lambda>(a, b). a @ CHR ''/'' # b) route_cuts"
  by (simp add: routes_def route_cuts_def)

lemma route_cuts_seg: "(a, b) \<in> set route_cuts \<Longrightarrow> CHR ''/'' \<notin> set b"
  by (auto simp: route_cuts_def)

lemma route_cuts_inj: "(a, b) \<in> set route_cuts \<Longrightarrow> (a', b) \<in> set route_cuts \<Longrightarrow> a' = a"
  by (auto simp: route_cuts_def)

lemma routes_ne: "[] \<notin> set routes"
  by (simp add: routes_def)

text \<open>No service route ends a path that ends in \<^verbatim>\<open>.git\<close>.\<close>

lemma git_no_route: "t \<in> set routes \<Longrightarrow> \<not> HasSuffix (q @ ''.git'') t"
  by (auto simp: routes_def HasSuffix_def suffix_to_prefix)

text \<open>A path that ends in a service route ends in no other, so the loop strips that one.\<close>

lemma route_unique:
  assumes "t \<in> set routes" "u \<in> set routes" "HasSuffix (q @ t) u"
  shows "u = t"
proof -
  obtain a b a' b' where c: "(a, b) \<in> set route_cuts" "t = a @ CHR ''/'' # b"
    "(a', b') \<in> set route_cuts" "u = a' @ CHR ''/'' # b'"
    using assms(1,2) by (auto simp: routes_cut)
  have "suffix (a' @ CHR ''/'' # b') ((q @ a) @ CHR ''/'' # b)"
    using assms(3) c by (simp add: HasSuffix_def)
  then have "b' = b"
    using suffix_last_segment route_cuts_seg [OF c(1)] route_cuts_seg [OF c(3)] by metis
  then show ?thesis using c route_cuts_inj by blast
qed

lemma strip_route_first:
  "t \<in> set ss \<Longrightarrow> \<forall>u\<in>set ss. HasSuffix (q @ t) u \<longrightarrow> u = t \<Longrightarrow> strip_route ss (q @ t) = (q, t)"
  by (induction ss) auto

lemma strip_route_hit: "t \<in> set routes \<Longrightarrow> strip_route routes (q @ t) = (q, t)"
  using strip_route_first [of t routes q] route_unique [of t _ q] by blast

lemma object_no_route:
  assumes "object_name ob" "t \<in> set routes"
  shows "\<not> HasSuffix (q @ objectRoute @ ob) t"
proof
  assume h: "HasSuffix (q @ objectRoute @ ob) t"
  obtain a b where c: "(a, b) \<in> set route_cuts" "t = a @ CHR ''/'' # b"
    using assms(2) by (auto simp: routes_cut)
  have "suffix (a @ CHR ''/'' # b) ((q @ ''/info/lfs/objects'') @ CHR ''/'' # ob)"
    using h c by (simp add: HasSuffix_def objectRoute_def)
  then have "b = ob" "suffix a (q @ ''/info/lfs/objects'')"
    using route_cuts_seg [OF c(1)] suffix_last_segment assms(1)
    by (metis object_name_def)+
  with c(1) assms(1) have "suffix ''/info'' (q @ ''/info/lfs/objects'')"
    by (auto simp: route_cuts_def object_name_def)
  then show False by (simp add: suffix_to_prefix)
qed

lemma strip_object_sound:
  assumes "strip_object (p, s0) = (q, s)" "s0 = [] \<Longrightarrow> \<forall>t\<in>set routes. \<not> HasSuffix p t"
    "s0 = [] \<or> s0 \<in> set routes" "HasSuffix q ''.git''"
  shows "p @ s0 = q @ s \<and> request_suffix s"
proof (cases "(q, s) = (p, s0)")
  case True
  with assms(3) show ?thesis by (auto simp: request_suffix_def)
next
  case False
  have c: "s0 = []" "\<not> HasSuffix p ''.git''"
    using False assms(1) by (simp_all add: strip_object_def split: if_splits)
  then obtain i where li: "LastIndex p objectRoute = Some i"
    using False assms(1) by (cases "LastIndex p objectRoute") (simp_all add: strip_object_def)
  have i: "s0 = []" "\<not> HasSuffix p ''.git''" "LastIndex p objectRoute = Some i"
    "q = take i p" "s = drop i p" "drop (i + length objectRoute) p \<noteq> []"
    "\<not> Contains (drop (i + length objectRoute) p) ''/''"
    using False assms(1) c li
    by (simp_all add: strip_object_def Let_def split: if_splits)
  let ?ob = "drop (i + length objectRoute) p"
  have p: "p = q @ objectRoute @ ?ob" using LastIndex_Some [OF i(3)] i(4) by simp
  have "\<not> HasSuffix ?ob ''.git''"
  proof
    assume "HasSuffix ?ob ''.git''"
    then obtain u where "?ob = u @ ''.git''" by (rule HasSuffixE)
    then have "p = (q @ objectRoute @ u) @ ''.git''" using p by simp
    then have "HasSuffix p ''.git''" by (metis HasSuffix_append)
    with i(2) show False by simp
  qed
  moreover have "?ob \<notin> {''batch'', ''verify'', ''git-upload-pack'', ''git-receive-pack''}"
  proof
    assume "?ob \<in> {''batch'', ''verify'', ''git-upload-pack'', ''git-receive-pack''}"
    then have "objectRoute @ ?ob \<in> set routes \<or> CHR ''/'' # ?ob \<in> set routes"
      by (elim insertE emptyE) (simp_all add: routes_def objectRoute_def)
    moreover have "p = (q @ ''/info/lfs/objects'') @ CHR ''/'' # ?ob"
      using p by (simp add: objectRoute_def)
    moreover have "HasSuffix p (objectRoute @ ?ob)"
      using HasSuffix_append [of q "objectRoute @ ?ob"] p by simp
    moreover have "HasSuffix p (CHR ''/'' # ?ob)"
      using HasSuffix_append [of "q @ ''/info/lfs/objects''" "CHR ''/'' # ?ob"] calculation(2)
      by simp
    ultimately have "\<exists>t\<in>set routes. HasSuffix p t" by blast
    with assms(2) i(1) show False by blast
  qed
  ultimately have "object_name ?ob"
    using i(6,7) by (simp add: object_name_def Contains_char)
  moreover have "s = objectRoute @ ?ob"
  proof -
    have "q @ s = p" using i(4,5) by simp
    then have "q @ s = q @ objectRoute @ ?ob" using p by simp
    then show ?thesis by simp
  qed
  ultimately show ?thesis
    using i(1) p i(4,5) by (auto simp: request_suffix_def)
qed

lemma strip_object_other: "sfx \<noteq> [] \<or> HasSuffix p ''.git'' \<Longrightarrow> strip_object (p, sfx) = (p, sfx)"
  by (auto simp: strip_object_def)

lemma suffix_after_sep: "suffix t (p @ c # q) \<Longrightarrow> c \<notin> set t \<Longrightarrow> suffix t q"
  by (auto simp: suffix_def append_eq_append_conv2 append_eq_Cons_conv Cons_eq_append_conv)

lemma strip_object_hit:
  assumes "object_name ob" "HasSuffix g ''.git''"
  shows "strip_object (g @ objectRoute @ ob, []) = (g, objectRoute @ ob)"
proof -
  have ob: "ob \<noteq> []" "CHR ''/'' \<notin> set ob" "\<not> HasSuffix ob ''.git''"
    using assms(1) by (auto simp: object_name_def)
  have li: "LastIndex (g @ objectRoute @ ob) objectRoute = Some (length g)"
    by (rule LastIndex_segment [where t' = "''/info/lfs/objects''" and c = "CHR ''/''"])
      (simp_all add: objectRoute_def ob(2))
  have nogit: "\<not> HasSuffix (g @ objectRoute @ ob) ''.git''"
    using suffix_after_sep [of "''.git''" "g @ ''/info/lfs/objects''" "CHR ''/''" ob] ob(3)
    by (auto simp: HasSuffix_def objectRoute_def)
  from li nogit ob assms(2) show ?thesis
    by (simp add: strip_object_def Let_def Contains_char)
qed

text \<open>The two stripping steps together, on a path that ends in a request suffix.\<close>

lemma strip_request:
  assumes "request_suffix s"
  shows "strip_object (strip_route routes ((q @ ''.git'') @ s)) = (q @ ''.git'', s)"
proof -
  consider "s = []" | "s \<in> set routes" | ob where "s = objectRoute @ ob" "object_name ob"
    using assms by (auto simp: request_suffix_def HasPrefix_def prefix_def)
  then show ?thesis
  proof cases
    case 1
    then have "strip_route routes ((q @ ''.git'') @ s) = (q @ ''.git'', [])"
      using git_no_route [of _ q] by (simp add: strip_route_miss)
    with 1 show ?thesis
      using HasSuffix_append [of q "''.git''"] by (simp add: strip_object_other)
  next
    case 2
    then have "s \<noteq> []" using routes_ne by blast
    with 2 strip_route_hit [of s "q @ ''.git''"] show ?thesis
      using strip_object_other [of s "q @ ''.git''"] by simp
  next
    case (3 ob)
    then have "strip_route routes ((q @ ''.git'') @ s) = ((q @ ''.git'') @ s, [])"
      using object_no_route [OF 3(2), of _ "q @ ''.git''"] 3(1)
      by (intro strip_route_miss ballI) simp
    with 3 strip_object_hit [OF 3(2), of "q @ ''.git''"] show ?thesis by simp
  qed
qed

text \<open>
  The parser is exact: it accepts precisely the printed path of a well-formed repository,
  with an optional leading slash, followed by a request suffix, and returns the two.
\<close>

lemma parse_complete:
  assumes "wf_repository r" "request_suffix s" "TrimPrefix p ''/'' = Full r @ ''.git'' @ s"
  shows "ParseGitRequestPath p = Inr (r, s)"
proof -
  have "2 \<le> length (Groups r @ [Name r])"
    using assms(1) by (cases "Groups r") (auto simp: wf_repository_def)
  then show ?thesis
    using assms(1) strip_request [OF assms(2), of "Full r"] wf_Full_shape [OF assms(1)]
      wf_Split_Full [OF assms(1)]
    by (simp add: ParseGitRequestPath_def assms(3) Let_def wf_repository_def)
qed

lemma parse_sound:
  assumes "ParseGitRequestPath p = Inr (r, s)"
  shows "wf_repository r \<and> request_suffix s \<and> TrimPrefix p ''/'' = Full r @ ''.git'' @ s"
proof -
  let ?p = "TrimPrefix p ''/''"
  obtain p1 s1 where sr: "strip_route routes ?p = (p1, s1)" by fastforce
  obtain p2 s2 where so: "strip_object (p1, s1) = (p2, s2)" by fastforce
  let ?q = "TrimSuffix p2 ''.git''"
  let ?parts = "Split (CHR ''/'') ?q"
  have h: "HasSuffix p2 ''.git''" "\<not> length ?parts < 2" "list_all valid ?parts" "s = s2"
    "r = \<lparr>Groups = butlast ?parts, Name = last ?parts\<rparr>"
    using assms by (auto simp: ParseGitRequestPath_def sr so Let_def split: if_splits)
  from h(1) obtain q where q: "p2 = q @ ''.git''" by (rule HasSuffixE)
  have r: "Groups r @ [Name r] = ?parts" using h(5) by simp
  have wf: "wf_repository r"
  proof -
    have "butlast ?parts \<noteq> []" using h(2) by (cases ?parts rule: rev_cases) auto
    then have "Groups r \<noteq> []" using h(5) by simp
    moreover have "list_all valid (Groups r @ [Name r])" using r h(3) by simp
    ultimately show ?thesis by (simp add: wf_repository_def)
  qed
  have "Full r = q"
    using wf r q by (metis Full_Join Join_Split TrimSuffix_append wf_repository_def)
  moreover have "?p @ [] = p2 @ s2 \<and> request_suffix s2"
  proof -
    have "?p = p1 @ s1" "s1 = [] \<or> s1 \<in> set routes"
      using strip_route_sound [OF sr] by auto
    moreover have "\<forall>t\<in>set routes. \<not> HasSuffix p1 t" if "s1 = []"
      using strip_route_none [of routes ?p p1] sr that routes_ne calculation(1) by simp
    ultimately show ?thesis using strip_object_sound [OF so _ _ h(1)] by auto
  qed
  ultimately show ?thesis using wf h(4) q by simp
qed

lemma parse_iff:
  "ParseGitRequestPath p = Inr (r, s) \<longleftrightarrow>
     wf_repository r \<and> request_suffix s \<and> TrimPrefix p ''/'' = Full r @ ''.git'' @ s"
  using parse_complete parse_sound by blast

section \<open>Groups\<close>

lemma TrimChar_id: "s \<noteq> [] \<Longrightarrow> hd s \<noteq> c \<Longrightarrow> last s \<noteq> c \<Longrightarrow> TrimChar s c = s"
  using dropWhile_eq_self_iff [of "\<lambda>x. x = c" s] dropWhile_eq_self_iff [of "\<lambda>x. x = c" "rev s"]
  by (simp add: TrimChar_def hd_rev)

lemma Join_ends:
  assumes "ps \<noteq> []" "\<forall>p\<in>set ps. c \<notin> set p \<and> p \<noteq> []"
  shows "hd (Join ps [c]) \<noteq> c \<and> last (Join ps [c]) \<noteq> c"
proof -
  have ne: "Join ps [c] \<noteq> []" using assms by (intro Join_eq_Nil) auto
  have "hd (Join ps [c]) \<noteq> c"
    using Join_no_double [OF assms(2)] ne by (cases "Join ps [c]") auto
  moreover have "last (Join ps [c]) \<noteq> c"
    using Join_suffix_sep [OF assms] append_butlast_last_id [OF ne] by (metis suffixI)
  ultimately show ?thesis by simp
qed

lemma ParseGroup_iff:
  "ParseGroup p = Inr parts \<longleftrightarrow>
     parts \<noteq> [] \<and> list_all valid parts \<and> TrimChar p (CHR ''/'') = Join parts ''/''"
  (is "_ \<longleftrightarrow> ?R")
proof
  assume "ParseGroup p = Inr parts"
  then show ?R by (auto simp: ParseGroup_def Let_def split: if_splits)
next
  assume R: ?R
  then have parts: "\<forall>p\<in>set parts. CHR ''/'' \<notin> set p \<and> p \<noteq> []"
    by (auto simp: list_all_iff valid_no_slash dest: valid_nonempty)
  have "Join parts ''/'' \<noteq> []" using R parts by (intro Join_eq_Nil) auto
  moreover have "Split (CHR ''/'') (Join parts ''/'') = parts"
    using R parts by (intro Split_Join) auto
  ultimately show "ParseGroup p = Inr parts"
    using R Join_no_double [OF parts] by (simp add: ParseGroup_def Let_def Contains_def)
qed

lemma ParseGroup_Join:
  assumes "parts \<noteq> []" "list_all valid parts"
  shows "ParseGroup (Join parts ''/'') = Inr parts"
proof -
  have parts: "\<forall>p\<in>set parts. CHR ''/'' \<notin> set p \<and> p \<noteq> []"
    using assms(2) by (auto simp: list_all_iff valid_no_slash dest: valid_nonempty)
  have "TrimChar (Join parts ''/'') (CHR ''/'') = Join parts ''/''"
    using Join_ends [OF assms(1) parts] Join_eq_Nil [OF assms(1), of "''/''"] parts
    by (intro TrimChar_id) auto
  then show ?thesis using assms by (simp add: ParseGroup_iff)
qed

lemma ParseGroup_nonempty: "ParseGroup p = Inr parts \<Longrightarrow> parts \<noteq> []"
  by (simp add: ParseGroup_iff)

text \<open>The root group of a repository's group path is its first segment.\<close>

lemma RootGroup_Group:
  assumes "wf_repository r"
  shows "RootGroup (Group r) = Inr (Repository_RootGroup r)"
  using assms by (simp add: RootGroup_def Group_def ParseGroup_Join wf_repository_def
      Repository_RootGroup_def)

text \<open>A root group is its own root group.\<close>

lemma RootGroup_idem: "RootGroup g = Inr rg \<Longrightarrow> RootGroup rg = Inr rg"
proof -
  assume "RootGroup g = Inr rg"
  then obtain parts where parts: "ParseGroup g = Inr parts" "rg = parts ! 0"
    by (auto simp: RootGroup_def bindr_Inr_iff)
  then have "valid rg" by (cases parts) (auto simp: ParseGroup_iff)
  then show ?thesis using ParseGroup_Join [of "[rg]"] by (simp add: RootGroup_def)
qed

lemma RootGroup_valid: "RootGroup g = Inr rg \<Longrightarrow> valid rg"
  by (auto simp: RootGroup_def bindr_Inr_iff ParseGroup_iff list_all_iff)

section \<open>Properties\<close>

text \<open>
  Property C13. The request parser is exact. It accepts a path precisely when, after one optional
  leading slash, the path is the full name of a well-formed repository, \<^verbatim>\<open>.git\<close> and a
  request suffix (nothing, one of the five service routes, or an LFS object route with one
  object name), and it then returns that repository and that suffix. Printing and parsing are
  therefore inverse to each other.
\<close>

theorem ParseGitRequestPath_exact:
  "ParseGitRequestPath p = Inr (r, s) \<longleftrightarrow>
     wf_repository r \<and> request_suffix s \<and> TrimPrefix p ''/'' = Full r @ ''.git'' @ s"
  by (rule parse_iff)

text \<open>
  Further property. Every group path of a well-formed repository is owned by the repository's first
  group segment, and that root group is its own root group: the settings of a whole group
  tree are looked up under one name.
\<close>

theorem RootGroup_of_repository:
  assumes "wf_repository r"
  shows "RootGroup (Group r) = Inr (Repository_RootGroup r) \<and>
    RootGroup (Repository_RootGroup r) = Inr (Repository_RootGroup r)"
  using RootGroup_Group [OF assms] RootGroup_idem by blast

theorem RootGroup_of_repository_witness:
  "wf_repository \<lparr>Groups = [''a'', ''b''], Name = ''c''\<rparr> \<and>
   RootGroup (Group \<lparr>Groups = [''a'', ''b''], Name = ''c''\<rparr>) = Inr ''a''"
proof -
  have wf: "wf_repository \<lparr>Groups = [''a'', ''b''], Name = ''c''\<rparr>"
    by (simp add: wf_repository_def valid_def valid_char_def HasPrefix_def)
  show ?thesis using wf RootGroup_of_repository [OF wf] by (simp add: Repository_RootGroup_def)
qed

end
