(* ===== verification/SafePath.thy ===== *)
theory SafePath
  imports RepoPath
begin

text \<open>
  \<^verbatim>\<open>SafeJoin\<close> of \<^verbatim>\<open>src/internal/repopath/repopath.go\<close>, over a model of the Unix
  \<^verbatim>\<open>path/filepath\<close> functions it calls (\<^verbatim>\<open>Clean\<close>, \<^verbatim>\<open>Join\<close>, \<^verbatim>\<open>Abs\<close>, \<^verbatim>\<open>Rel\<close>).
  The working directory that \<^verbatim>\<open>os.Getwd\<close> reports is a parameter. The lemmas show that a
  joined path always lies below the root, and that joining valid segments appends exactly
  those segments to the absolute root.
\<close>

section \<open>Unix file paths\<close>

text \<open>The component loop of \<^verbatim>\<open>filepath.Clean\<close>; the second argument is the output, reversed.\<close>

fun clean_parts :: "bool \<Rightarrow> string list \<Rightarrow> string list \<Rightarrow> string list" where
  "clean_parts rooted st [] = rev st"
| "clean_parts rooted st (p # ps) =
     (if p = [] \<or> p = ''.'' then clean_parts rooted st ps
      else if p = ''..'' then
        (case st of
           [] \<Rightarrow> clean_parts rooted (if rooted then [] else [''..'']) ps
         | t # st' \<Rightarrow> clean_parts rooted (if t = ''..'' then ''..'' # st else st') ps)
      else clean_parts rooted (p # st) ps)"

definition Clean :: "string \<Rightarrow> string" where
  "Clean path =
     (if path = [] then ''.''
      else let rooted = HasPrefix path ''/'';
               parts = clean_parts rooted [] (Split (CHR ''/'') path)
           in if rooted then ''/'' @ Join parts ''/''
              else if parts = [] then ''.'' else Join parts ''/'')"

definition path_join :: "string list \<Rightarrow> string" where
  "path_join elems =
     (case dropWhile (\<lambda>e. e = []) elems of [] \<Rightarrow> [] | es \<Rightarrow> Clean (Join es ''/''))"

definition path_abs :: "string result \<Rightarrow> string \<Rightarrow> string result" where
  "path_abs getwd path =
     (if HasPrefix path ''/'' then Inr (Clean path)
      else bindr getwd (\<lambda>wd. Inr (path_join [wd, path])))"

definition path_parts :: "string \<Rightarrow> string list" where
  "path_parts s = filter (\<lambda>p. p \<noteq> []) (Split (CHR ''/'') s)"

fun strip_common :: "string list \<Rightarrow> string list \<Rightarrow> string list \<times> string list" where
  "strip_common (x # xs) (y # ys) = (if x = y then strip_common xs ys else (x # xs, y # ys))"
| "strip_common xs ys = (xs, ys)"

definition path_rel :: "string \<Rightarrow> string \<Rightarrow> string result" where
  "path_rel basepath targpath =
     (let base = Clean basepath; targ = Clean targpath in
      if targ = base then Inr ''.''
      else let base' = (if base = ''.'' then [] else base) in
        if HasPrefix base' ''/'' \<noteq> HasPrefix targ ''/'' then Inl (Errorf ''Rel: cannot make relative'')
        else case strip_common (path_parts base') (path_parts targ) of (b, t) \<Rightarrow>
          (case b of
             [] \<Rightarrow> Inr (Join t ''/'')
           | x # _ \<Rightarrow>
               if x = ''..'' then Inl (Errorf ''Rel: cannot make relative'')
               else Inr (Join (map (\<lambda>_. ''..'') b @ t) ''/'')))"

definition SafeJoin :: "string result \<Rightarrow> string \<Rightarrow> string list \<Rightarrow> string result" where
  "SafeJoin getwd root parts =
     (let target = path_join (root # parts) in
      bindr (path_abs getwd root) (\<lambda>ar.
      bindr (path_abs getwd target) (\<lambda>at.
      bindr (path_rel ar at) (\<lambda>rel.
        if rel = ''..'' \<or> HasPrefix rel ''../'' then Inl (Errorf ''path escapes root'')
        else Inr at))))"

section \<open>Normal components\<close>

definition normal :: "string \<Rightarrow> bool" where
  "normal p \<longleftrightarrow> p \<noteq> [] \<and> p \<noteq> ''.'' \<and> p \<noteq> ''..'' \<and> CHR ''/'' \<notin> set p"

definition rooted_path :: "string list \<Rightarrow> string" where
  "rooted_path parts = ''/'' @ Join parts ''/''"

lemma normalI: "p \<noteq> [] \<Longrightarrow> p \<noteq> ''.'' \<Longrightarrow> p \<noteq> ''..'' \<Longrightarrow> CHR ''/'' \<notin> set p \<Longrightarrow> normal p"
  by (simp add: normal_def)

lemma valid_normal: "valid s \<Longrightarrow> normal s"
  using valid_no_slash by (auto simp: normal_def valid_def split: if_splits)

lemma clean_parts_append:
  "clean_parts True st (xs @ ys) = clean_parts True (rev (clean_parts True st xs)) ys"
  by (induction xs arbitrary: st) (simp_all split: list.split)

lemma clean_parts_normal: "list_all normal ps \<Longrightarrow> clean_parts r st ps = rev st @ ps"
  by (induction ps arbitrary: st) (auto simp: normal_def)

lemma clean_parts_rooted_normal:
  "list_all normal st \<Longrightarrow> \<forall>p\<in>set ps. CHR ''/'' \<notin> set p \<Longrightarrow>
   list_all normal (clean_parts True st ps)"
proof (induction ps arbitrary: st)
  case Nil
  then show ?case by simp
next
  case (Cons p ps)
  have ps: "\<forall>p\<in>set ps. CHR ''/'' \<notin> set p" using Cons.prems by simp
  have IH: "list_all normal s \<Longrightarrow> list_all normal (clean_parts True s ps)" for s
    using Cons.IH ps by blast
  show ?case
  proof (cases st)
    case Nil
    with Cons.prems show ?thesis by (auto intro!: IH intro: normalI)
  next
    case (Cons t st')
    with Cons.prems show ?thesis by (auto intro!: IH intro: normalI)
  qed
qed

lemma clean_parts_cancel:
  "t \<noteq> [] \<Longrightarrow> t \<noteq> ''.'' \<Longrightarrow> t \<noteq> ''..'' \<Longrightarrow>
   clean_parts True st (xs @ t # ''..'' # ps) = clean_parts True st (xs @ ps)"
  by (simp add: clean_parts_append [of st xs])

text \<open>
  Cleaning a relative path before it is appended to a rooted one changes nothing: the
  stack of the relative run, replayed, has the same effect as the parts it stands for.
\<close>

lemma clean_parts_replay:
  "\<forall>p\<in>set st'. p \<noteq> [] \<and> p \<noteq> ''.'' \<Longrightarrow>
   clean_parts True st (clean_parts False st' ps) = clean_parts True st (rev st' @ ps)"
proof (induction "False" st' ps rule: clean_parts.induct)
  case (1 st')
  then show ?case by simp
next
  case (2 st' p ps)
  show ?case
  proof (cases "p = [] \<or> p = ''.''")
    case True
    with 2(1) [OF True] 2(5) show ?thesis
      by (simp add: clean_parts_append [of st "rev st'" ps]
          clean_parts_append [of st "rev st'" "p # ps"])
  next
    case False
    show ?thesis
    proof (cases "p = ''..''")
      case True
      show ?thesis
      proof (cases st')
        case Nil
        with 2(2) [OF False True] True show ?thesis by simp
      next
        case (Cons t st'')
        then show ?thesis
          using 2(3) [OF False True Cons] 2(5) True clean_parts_cancel [of t st "rev st''" ps]
          by (cases "t = ''..''") auto
      qed
    next
      case normal: False
      with 2(4) [OF False normal] 2(5) False show ?thesis by simp
    qed
  qed
qed

lemma clean_parts_members:
  "p \<in> set (clean_parts r st ps) \<Longrightarrow> p \<in> set st \<or> p = ''..'' \<or> p \<in> set ps \<and> p \<noteq> []"
proof (induction ps arbitrary: st)
  case (Cons q ps)
  then show ?case by (cases st) (force split: if_splits)+
qed simp

section \<open>Rooted paths\<close>

text \<open>A rooted path and its components determine each other.\<close>

lemma normal_parts: "list_all normal ps \<Longrightarrow> \<forall>p\<in>set ps. CHR ''/'' \<notin> set p \<and> p \<noteq> []"
  by (auto simp: list_all_iff normal_def)

lemma path_parts_rooted:
  assumes "list_all normal ps"
  shows "path_parts (rooted_path ps) = ps"
proof (cases "ps = []")
  case False
  then have "Split (CHR ''/'') (Join ps ''/'') = ps"
    using normal_parts [OF assms] by (intro Split_Join) auto
  with assms show ?thesis
    by (simp add: path_parts_def rooted_path_def filter_id_conv list_all_iff normal_def)
qed (simp add: path_parts_def rooted_path_def)

lemma Clean_rooted_path:
  assumes "list_all normal ps"
  shows "Clean (rooted_path ps) = rooted_path ps"
proof (cases "ps = []")
  case False
  then have "Split (CHR ''/'') (Join ps ''/'') = ps"
    using normal_parts [OF assms] by (intro Split_Join) auto
  with assms show ?thesis
    by (simp add: Clean_def rooted_path_def HasPrefix_def clean_parts_normal)
qed (simp add: Clean_def rooted_path_def HasPrefix_def)

definition rooted_clean :: "string \<Rightarrow> string list" where
  "rooted_clean s = clean_parts True [] (Split (CHR ''/'') s)"

lemma rooted_clean_normal: "list_all normal (rooted_clean s)"
  unfolding rooted_clean_def
  by (rule clean_parts_rooted_normal) (auto dest: Split_parts_no_sep)

lemma Clean_rooted: "HasPrefix s ''/'' \<Longrightarrow> Clean s = rooted_path (rooted_clean s)"
  by (cases s) (auto simp: Clean_def rooted_path_def rooted_clean_def HasPrefix_def Let_def)

lemma Split_append_Join:
  "Split c (a @ c # b) = Split c a @ Split c b"
proof (induction a)
  case (Cons x a)
  obtain p ps where "Split c a = p # ps" by (cases "Split c a") auto
  with Cons show ?case by simp
qed simp

text \<open>The components of an absolute path: the root's, then the relative path's, cleaned.\<close>

definition abs_parts :: "string \<Rightarrow> string \<Rightarrow> string list" where
  "abs_parts wd path =
     (if HasPrefix path ''/'' then rooted_clean path
      else clean_parts True (rev (rooted_clean wd)) (Split (CHR ''/'') path))"

lemma abs_parts_normal: "list_all normal (abs_parts wd path)"
proof (cases "HasPrefix path ''/''")
  case True
  then show ?thesis using rooted_clean_normal by (simp add: abs_parts_def)
next
  case False
  have "list_all normal (rev (rooted_clean wd))"
    using rooted_clean_normal [of wd] by (simp add: list_all_iff)
  then have "list_all normal (clean_parts True (rev (rooted_clean wd)) (Split (CHR ''/'') path))"
    by (rule clean_parts_rooted_normal) (auto dest: Split_parts_no_sep)
  with False show ?thesis by (simp add: abs_parts_def)
qed

lemma path_abs_parts:
  assumes "HasPrefix wd ''/''"
  shows "path_abs (Inr wd) path = Inr (rooted_path (abs_parts wd path))"
proof (cases "HasPrefix path ''/''")
  case True
  then show ?thesis by (simp add: path_abs_def Clean_rooted abs_parts_def)
next
  case False
  have wd: "wd \<noteq> []" "HasPrefix (Join [wd, path] ''/'') ''/''"
    using assms by (auto simp: HasPrefix_def)
  have "rooted_clean (wd @ CHR ''/'' # path) = abs_parts wd path"
    using False by (simp add: rooted_clean_def abs_parts_def Split_append_Join clean_parts_append)
  with False wd show ?thesis by (simp add: path_abs_def path_join_def Clean_rooted)
qed

text \<open>
  The absolute form of the joined path is the absolute root with the further elements
  cleaned on top of it, whether the root is absolute, relative or empty.
\<close>

lemma abs_parts_Clean:
  assumes "path \<noteq> []"
  shows "abs_parts wd (Clean path) = abs_parts wd path"
proof (cases "HasPrefix path ''/''")
  case True
  then have "Clean path = rooted_path (rooted_clean path)" by (rule Clean_rooted)
  moreover have "Split (CHR ''/'') (rooted_path ps) = [] # Split (CHR ''/'') (Join ps ''/'')" for ps
    by (simp add: rooted_path_def)
  moreover have "clean_parts True [] (Split (CHR ''/'') (Join ps ''/'')) = ps"
    if "list_all normal ps" for ps
    using normal_parts [OF that] that by (cases "ps = []") (simp_all add: Split_Join clean_parts_normal)
  ultimately show ?thesis
    using True rooted_clean_normal [of path]
    by (simp add: abs_parts_def rooted_clean_def HasPrefix_def rooted_path_def)
next
  case False
  let ?ps = "clean_parts False [] (Split (CHR ''/'') path)"
  have mem: "p = ''..'' \<or> p \<in> set (Split (CHR ''/'') path) \<and> p \<noteq> []" if "p \<in> set ?ps" for p
    using clean_parts_members [OF that] by simp
  have slash: "\<forall>p\<in>set ?ps. CHR ''/'' \<notin> set p" and ne: "\<forall>p\<in>set ?ps. p \<noteq> []"
    using mem Split_parts_no_sep by fastforce+
  have C: "Clean path = (if ?ps = [] then ''.'' else Join ?ps ''/'')"
    using False assms by (simp add: Clean_def Let_def)
  have nopre: "\<not> HasPrefix (Clean path) ''/''"
    using C Join_no_double [of ?ps "CHR ''/''"] slash ne by (auto simp: HasPrefix_def)
  have split: "clean_parts True st (Split (CHR ''/'') (Clean path)) = clean_parts True st ?ps" for st
    using C slash by (cases "?ps = []") (simp_all add: Split_Join)
  show ?thesis
    using False nopre split clean_parts_replay [of "[]" _ "Split (CHR ''/'') path"]
    by (simp add: abs_parts_def)
qed

lemma abs_parts_join:
  assumes "es \<noteq> []" "list_all normal es"
  shows "abs_parts wd (path_join (root # es)) = abs_parts wd root @ es"
proof -
  have J: "Join es ''/'' \<noteq> []" "Split (CHR ''/'') (Join es ''/'') = es"
    "\<not> HasPrefix (Join es ''/'') ''/''"
    using assms normal_parts [OF assms(2)] Join_eq_Nil [of es "''/''"]
      Join_no_double [of es "CHR ''/''"]
    by (auto simp: Split_Join HasPrefix_def)
  show ?thesis
  proof (cases "root = []")
    case True
    have "path_join (root # es) = Clean (Join es ''/'')"
      using assms True by (cases es) (auto simp: path_join_def normal_def)
    then have "abs_parts wd (path_join (root # es)) = abs_parts wd (Join es ''/'')"
      using abs_parts_Clean [OF J(1)] by simp
    then show ?thesis
      using True J assms(2) by (simp add: abs_parts_def clean_parts_normal HasPrefix_def)
  next
    case False
    then have "path_join (root # es) = Clean (root @ CHR ''/'' # Join es ''/'')"
      using assms(1) by (simp add: path_join_def Join_Cons)
    moreover have "HasPrefix (root @ CHR ''/'' # Join es ''/'') ''/'' = HasPrefix root ''/''"
      using False by (cases root) (auto simp: HasPrefix_def)
    moreover have "abs_parts wd (Clean (root @ CHR ''/'' # Join es ''/'')) =
        abs_parts wd (root @ CHR ''/'' # Join es ''/'')"
      by (rule abs_parts_Clean) simp
    ultimately show ?thesis
      using assms(2) J
      by (simp add: abs_parts_def rooted_clean_def Split_append_Join
          clean_parts_append [of _ "Split (CHR ''/'') root"] clean_parts_normal)
  qed
qed

section \<open>SafeJoin\<close>

lemma strip_common_prefix: "strip_common b (b @ t) = ([], t)"
  by (induction b) simp_all

lemma strip_common_Nil: "strip_common b t = ([], u) \<Longrightarrow> t = b @ u"
  by (induction b t rule: strip_common.induct) (auto split: if_splits)

lemma strip_common_subset: "strip_common b t = (b', u) \<Longrightarrow> set b' \<subseteq> set b"
  by (induction b t rule: strip_common.induct) (auto split: if_splits)

lemma rooted_path_inj:
  "list_all normal ps \<Longrightarrow> list_all normal qs \<Longrightarrow> rooted_path ps = rooted_path qs \<longleftrightarrow> ps = qs"
  by (metis path_parts_rooted)

lemma rel_up: "b \<noteq> [] \<Longrightarrow> Join (map (\<lambda>_. ''..'') b @ t) ''/'' = ''..'' \<or>
    HasPrefix (Join (map (\<lambda>_. ''..'') b @ t) ''/'') ''../''"
  by (cases b; cases "map (\<lambda>_. ''..'') (tl b) @ t") (auto simp: HasPrefix_def)

lemma rel_down:
  assumes "list_all normal t"
  shows "Join t ''/'' \<noteq> ''..'' \<and> \<not> HasPrefix (Join t ''/'') ''../''"
proof (cases t)
  case (Cons x xs)
  have x: "x \<noteq> ''..''" "CHR ''/'' \<notin> set x" using assms Cons by (auto simp: normal_def)
  show ?thesis
  proof (cases xs)
    case Nil
    with Cons x show ?thesis by (auto simp: HasPrefix_def dest!: set_mono_prefix)
  next
    case (Cons y ys)
    have "Split (CHR ''/'') (Join t ''/'') = t"
      using \<open>t = x # xs\<close> normal_parts [OF assms] by (intro Split_Join) auto
    moreover have "length t > 1" using Cons \<open>t = x # xs\<close> by simp
    moreover have "hd (Split (CHR ''/'') s) = ''..''" if "HasPrefix s ''../''" for s
      using that by (auto simp: HasPrefix_def prefix_def)
    ultimately show ?thesis using \<open>t = x # xs\<close> x by fastforce
  qed
qed (simp add: HasPrefix_def)

text \<open>\<^verbatim>\<open>SafeJoin\<close> succeeds exactly when the root's components are a prefix of the target's.\<close>

lemma SafeJoin_parts:
  assumes "HasPrefix wd ''/''"
  shows "SafeJoin (Inr wd) root es =
    (let t = abs_parts wd (path_join (root # es)) in
     if prefix (abs_parts wd root) t then Inr (rooted_path t)
     else Inl (Errorf ''path escapes root''))"
proof -
  let ?r = "abs_parts wd root" and ?t = "abs_parts wd (path_join (root # es))"
  have n: "list_all normal ?r" "list_all normal ?t" by (rule abs_parts_normal)+
  obtain b u where sc: "strip_common ?r ?t = (b, u)" by fastforce
  have rooted: "HasPrefix (rooted_path ps) ''/''" "rooted_path ps \<noteq> ''.''" for ps
    by (simp_all add: rooted_path_def HasPrefix_def)
  have rel: "path_rel (rooted_path ?r) (rooted_path ?t) =
      (if ?t = ?r then Inr ''.''
       else case b of [] \<Rightarrow> Inr (Join u ''/'')
         | x # _ \<Rightarrow> if x = ''..'' then Inl (Errorf ''Rel: cannot make relative'')
             else Inr (Join (map (\<lambda>_. ''..'') b @ u) ''/''))"
    using n sc rooted
    by (simp add: path_rel_def Let_def Clean_rooted_path rooted_path_inj path_parts_rooted)
  show ?thesis
  proof (cases b)
    case Nil
    then have t: "?t = ?r @ u" using sc strip_common_Nil by simp
    then have "list_all normal u" using n(2) by simp
    with rel_down [of u] t Nil rel show ?thesis
      using assms
      by (auto simp: SafeJoin_def Let_def path_abs_parts HasPrefix_def)
  next
    case (Cons x xs)
    have "\<not> prefix ?r ?t"
    proof
      assume "prefix ?r ?t"
      then obtain v where "?t = ?r @ v" by (auto simp: prefix_def)
      then show False using sc Cons by (simp add: strip_common_prefix)
    qed
    moreover have "x \<noteq> ''..''"
      using strip_common_subset [OF sc] Cons n(1) by (auto simp: list_all_iff normal_def)
    ultimately show ?thesis
      using rel rel_up [of b u] Cons assms
      by (auto simp: SafeJoin_def Let_def path_abs_parts)
  qed
qed

lemma SafeJoin_normal:
  assumes "HasPrefix wd ''/''" "es \<noteq> []" "list_all normal es"
  shows "SafeJoin (Inr wd) root es = Inr (rooted_path (abs_parts wd root @ es))"
  using assms by (simp add: SafeJoin_parts abs_parts_join Let_def)

section \<open>Properties\<close>

text \<open>
  Property C7. \<^verbatim>\<open>SafeJoin\<close> never leaves the root: with a rooted working directory, every path it
  returns has the components of the absolute root followed by further components, none of
  which is empty, a dot or a double dot. This holds for arbitrary elements, also hostile ones.
\<close>

theorem SafeJoin_confined:
  assumes "HasPrefix wd ''/''" "SafeJoin (Inr wd) root es = Inr at"
  shows "\<exists>rp rest. path_abs (Inr wd) root = Inr (rooted_path rp) \<and>
    at = rooted_path (rp @ rest) \<and> list_all normal (rp @ rest)"
proof -
  let ?t = "abs_parts wd (path_join (root # es))"
  have "prefix (abs_parts wd root) ?t" "at = rooted_path ?t"
    using assms by (auto simp: SafeJoin_parts Let_def split: if_splits)
  then obtain rest where t: "?t = abs_parts wd root @ rest" "at = rooted_path ?t"
    by (auto simp: prefix_def)
  then have "list_all normal (abs_parts wd root @ rest)"
    using abs_parts_normal [of wd "path_join (root # es)"] by simp
  then show ?thesis using path_abs_parts [OF assms(1)] t by metis
qed

theorem SafeJoin_confined_witness:
  "HasPrefix ''/srv'' ''/'' \<and> SafeJoin (Inr ''/srv'') ''data'' [''a'', ''..'', ''b''] = Inr ''/srv/data/b'' \<and>
   (\<exists>rp rest. path_abs (Inr ''/srv'') ''data'' = Inr (rooted_path rp) \<and>
     ''/srv/data/b'' = rooted_path (rp @ rest) \<and> list_all normal (rp @ rest))"
proof -
  have wd: "HasPrefix ''/srv'' ''/''" by (simp add: HasPrefix_def)
  have j: "SafeJoin (Inr ''/srv'') ''data'' [''a'', ''..'', ''b''] = Inr ''/srv/data/b''"
    by code_simp
  show ?thesis using wd j SafeJoin_confined [OF wd j] by blast
qed

text \<open>
  Further property. Joining valid path segments below the root appends exactly those segments to the
  absolute root, so two lists of valid segments name the same file only if they are equal.
\<close>

theorem SafeJoin_valid_segments:
  assumes "HasPrefix wd ''/''" "es \<noteq> []" "list_all valid es" "es' \<noteq> []" "list_all valid es'"
  shows "(\<exists>rp. path_abs (Inr wd) root = Inr (rooted_path rp) \<and>
      SafeJoin (Inr wd) root es = Inr (rooted_path (rp @ es))) \<and>
    (SafeJoin (Inr wd) root es = SafeJoin (Inr wd) root es' \<longleftrightarrow> es = es')"
proof -
  have n: "list_all normal es" "list_all normal es'"
    using assms(3,5) valid_normal by (auto simp: list_all_iff)
  have "rooted_path (abs_parts wd root @ es) = rooted_path (abs_parts wd root @ es') \<longleftrightarrow> es = es'"
    using rooted_path_inj n abs_parts_normal [of wd root] by simp
  then show ?thesis
    using SafeJoin_normal [OF assms(1,2) n(1)] SafeJoin_normal [OF assms(1,4) n(2)]
      path_abs_parts [OF assms(1)] by auto
qed

theorem SafeJoin_valid_segments_witness:
  "HasPrefix ''/'' ''/'' \<and> list_all valid [''a''] \<and> list_all valid [''b''] \<and>
   SafeJoin (Inr ''/'') ''r'' [''a''] \<noteq> SafeJoin (Inr ''/'') ''r'' [''b'']"
proof -
  have h: "HasPrefix ''/'' ''/''" "list_all valid [''a'']" "list_all valid [''b'']"
    by (simp_all add: HasPrefix_def valid_def valid_char_def)
  show ?thesis using h SafeJoin_valid_segments [OF h(1) _ h(2) _ h(3), of "''r''"] by simp
qed

end
