(* ===== verification/Control.thy ===== *)
theory Control
  imports RepoPath
begin

text \<open>
  Group settings, \<^verbatim>\<open>src/internal/control/model.go\<close> and \<^verbatim>\<open>store.go\<close>: the control document
  of a root group, its validation, and the store that caches the document of each root group
  under the commit it was read from. What go-git reads from \<^verbatim>\<open>control.git\<close> is a parameter:
  the commit of the main branch of a root group, and the document decoded from the
  \<^verbatim>\<open>control.json\<close> of a commit. The lemmas give the exact set of documents the validator
  accepts and show that the cache is transparent.
\<close>

section \<open>The document\<close>

type_synonym role = string

abbreviation RoleRead :: role where "RoleRead \<equiv> ''read''"
abbreviation RoleDeveloper :: role where "RoleDeveloper \<equiv> ''developer''"
abbreviation RoleMaintainer :: role where "RoleMaintainer \<equiv> ''maintainer''"
abbreviation RoleOwner :: role where "RoleOwner \<equiv> ''owner''"

record token =
  TokenName :: string
  Key :: string
  Hash :: string
  TokenRole :: role
  ExpiresAt :: "int option"
  Disabled :: bool

record lfs_policy =
  Enabled :: bool
  MaximumObjectBytes :: int
  MaximumStorageBytes :: int

text \<open>
  \<open>Members\<close> lists the entries of the Go map in the order one iteration over it visits them;
  a map has at most one entry per key. The order is arbitrary, so no lemma depends on it.
\<close>

record document =
  Version :: int
  DocGroup :: string
  Description :: string
  Inherit :: bool
  Visibility :: string
  LFS :: lfs_policy
  Members :: "(string \<times> role) list"
  Tokens :: "token list"

definition CurrentVersion :: int where
  "CurrentVersion = 4"

section \<open>Roles\<close>

definition role_rank :: "role \<Rightarrow> int" where
  "role_rank r =
     (if r = RoleRead then 1 else if r = RoleDeveloper then 2
      else if r = RoleMaintainer then 3 else if r = RoleOwner then 4 else 0)"

definition Allows :: "role \<Rightarrow> role \<Rightarrow> bool" where
  "Allows r need \<longleftrightarrow> role_rank r \<ge> role_rank need"

definition validRole :: "role \<Rightarrow> bool" where
  "validRole r \<longleftrightarrow> r = RoleRead \<or> r = RoleDeveloper \<or> r = RoleMaintainer \<or> r = RoleOwner"

section \<open>Validation\<close>

fun check_members :: "(string \<times> role) list \<Rightarrow> unit result" where
  "check_members [] = Inr ()"
| "check_members ((name, role) # ms) =
     (if TrimSpace name = [] then Inl (Errorf ''member name is required'')
      else if \<not> validRole role then Inl (Errorf (''invalid role for member '' @ name))
      else check_members ms)"

text \<open>The token loop, with the names and keys seen so far.\<close>

fun check_tokens :: "string list \<Rightarrow> string list \<Rightarrow> token list \<Rightarrow> unit result" where
  "check_tokens names keys [] = Inr ()"
| "check_tokens names keys (t # ts) =
     (if TrimSpace (TokenName t) = [] then Inl (Errorf ''token name is required'')
      else if TrimSpace (Key t) = [] then Inl (Errorf (''token key is required for '' @ TokenName t))
      else if TrimSpace (Hash t) = [] then Inl (Errorf (''token hash is required for '' @ TokenName t))
      else if \<not> validRole (TokenRole t) then Inl (Errorf (''invalid role for token '' @ TokenName t))
      else if TokenName t \<in> set names then Inl (Errorf (''duplicate token name '' @ TokenName t))
      else if Key t \<in> set keys then Inl (Errorf (''duplicate token key '' @ Key t))
      else check_tokens (TokenName t # names) (Key t # keys) ts)"

definition ValidateSettings :: "document \<Rightarrow> unit result" where
  "ValidateSettings d =
     bindr (check_members (Members d)) (\<lambda>_.
     bindr (check_tokens [] [] (Tokens d)) (\<lambda>_.
       if \<not> (Visibility d = ''private'' \<or> Visibility d = ''internal'' \<or> Visibility d = ''public'')
       then Inl (Errorf (''invalid group visibility '' @ Visibility d))
       else if MaximumObjectBytes (LFS d) < 0 \<or> MaximumStorageBytes (LFS d) < 0
       then Inl (Errorf ''group LFS limits cannot be negative'')
       else Inr ()))"

text \<open>The owner count of \<^verbatim>\<open>Validate\<close>, which stops at the first invalid role.\<close>

fun count_owners :: "int \<Rightarrow> (string \<times> role) list \<Rightarrow> int result" where
  "count_owners owners [] = Inr owners"
| "count_owners owners ((_, r) # ms) =
     (let owners' = (if r = RoleOwner then owners + 1 else owners) in
      if \<not> validRole r then Inl (Errorf ''invalid role'') else count_owners owners' ms)"

definition Validate :: "string \<Rightarrow> document \<Rightarrow> unit result" where
  "Validate grp d =
     bindr (RootGroup grp) (\<lambda>rootGroup.
       if rootGroup \<noteq> grp then Inl (Errorf ''control settings belong to root groups only'')
       else if Version d \<noteq> CurrentVersion then Inl (Errorf ''unsupported version'')
       else if DocGroup d \<noteq> grp then Inl (Errorf ''group mismatch'')
       else bindr (count_owners 0 (Members d)) (\<lambda>owners.
         if owners = 0 then Inl (Errorf ''at least one owner required'')
         else ValidateSettings d))"

section \<open>The store\<close>

text \<open>
  What go-git answers: \<open>head_of g\<close> opens \<^verbatim>\<open>g/control.git\<close> and resolves its main branch,
  \<open>decode g h\<close> reads the one JSON document of \<^verbatim>\<open>control.json\<close> in commit \<open>h\<close>.
\<close>

record git_view =
  head_of :: "string \<Rightarrow> string result"
  decode :: "string \<Rightarrow> string \<Rightarrow> document result"

type_synonym control_cache = "string \<rightharpoonup> string \<times> document"

definition ReadDocument :: "git_view \<Rightarrow> string \<Rightarrow> string \<Rightarrow> document result" where
  "ReadDocument git hash grp =
     bindr (decode git grp hash) (\<lambda>d. bindr (Validate grp d) (\<lambda>_. Inr d))"

definition Load :: "git_view \<Rightarrow> control_cache \<Rightarrow> string \<Rightarrow> document result \<times> control_cache" where
  "Load git cache grp =
     (case RootGroup grp of
        Inl e \<Rightarrow> (Inl e, cache)
      | Inr rootGroup \<Rightarrow>
          (case head_of git rootGroup of
             Inl e \<Rightarrow> (Inl e, cache)
           | Inr hash \<Rightarrow>
               let fresh = (case ReadDocument git hash rootGroup of
                     Inl e \<Rightarrow> (Inl e, cache)
                   | Inr d \<Rightarrow> (Inr d, cache(rootGroup \<mapsto> (hash, d))))
               in (case cache rootGroup of
                     Some (h, d) \<Rightarrow> if h = hash then (Inr d, cache) else fresh
                   | None \<Rightarrow> fresh)))"

definition Invalidate :: "control_cache \<Rightarrow> string \<Rightarrow> control_cache" where
  "Invalidate cache grp =
     (let rootGroup = (case RootGroup grp of Inl _ \<Rightarrow> grp | Inr g \<Rightarrow> g)
      in cache(rootGroup := None))"

text \<open>What \<^verbatim>\<open>Load\<close> computes without a cache.\<close>

definition Load_uncached :: "git_view \<Rightarrow> string \<Rightarrow> document result" where
  "Load_uncached git grp =
     bindr (RootGroup grp) (\<lambda>g. bindr (head_of git g) (\<lambda>h. ReadDocument git h g))"

section \<open>What a valid document is\<close>

definition wf_token :: "token \<Rightarrow> bool" where
  "wf_token t \<longleftrightarrow>
     TrimSpace (TokenName t) \<noteq> [] \<and> TrimSpace (Key t) \<noteq> [] \<and> TrimSpace (Hash t) \<noteq> [] \<and>
     validRole (TokenRole t)"

definition wf_document :: "string \<Rightarrow> document \<Rightarrow> bool" where
  "wf_document g d \<longleftrightarrow>
     valid g \<and> Version d = 4 \<and> DocGroup d = g \<and>
     (\<exists>name. (name, RoleOwner) \<in> set (Members d)) \<and>
     (\<forall>(name, role)\<in>set (Members d). TrimSpace name \<noteq> [] \<and> validRole role) \<and>
     list_all wf_token (Tokens d) \<and>
     distinct (map TokenName (Tokens d)) \<and> distinct (map Key (Tokens d)) \<and>
     Visibility d \<in> {''private'', ''internal'', ''public''} \<and>
     0 \<le> MaximumObjectBytes (LFS d) \<and> 0 \<le> MaximumStorageBytes (LFS d)"

lemma check_members_Inr:
  "check_members ms = Inr u \<longleftrightarrow>
     (\<forall>(name, role)\<in>set ms. TrimSpace name \<noteq> [] \<and> validRole role)"
  by (induction ms rule: check_members.induct) auto

lemma check_tokens_Inr:
  "check_tokens names keys ts = Inr u \<longleftrightarrow>
     list_all wf_token ts \<and> distinct (map TokenName ts) \<and> distinct (map Key ts) \<and>
     set names \<inter> TokenName ` set ts = {} \<and> set keys \<inter> Key ` set ts = {}"
  by (induction names keys ts rule: check_tokens.induct) (auto simp: wf_token_def)

lemma ValidateSettings_Inr:
  "ValidateSettings d = Inr u \<longleftrightarrow>
     (\<forall>(name, role)\<in>set (Members d). TrimSpace name \<noteq> [] \<and> validRole role) \<and>
     list_all wf_token (Tokens d) \<and>
     distinct (map TokenName (Tokens d)) \<and> distinct (map Key (Tokens d)) \<and>
     Visibility d \<in> {''private'', ''internal'', ''public''} \<and>
     0 \<le> MaximumObjectBytes (LFS d) \<and> 0 \<le> MaximumStorageBytes (LFS d)"
  by (auto simp add: ValidateSettings_def bindr_Inr_iff check_members_Inr check_tokens_Inr not_less)

lemma count_owners_Inr:
  "count_owners n ms = Inr m \<longleftrightarrow>
     (\<forall>(_, r)\<in>set ms. validRole r) \<and> m = n + int (length (filter (\<lambda>(_, r). r = RoleOwner) ms))"
  by (induction n ms rule: count_owners.induct) (auto simp: Let_def validRole_def)

lemma RootGroup_self: "RootGroup g = Inr g \<longleftrightarrow> valid g"
proof
  assume "valid g"
  then show "RootGroup g = Inr g" using ParseGroup_Join [of "[g]"] by (simp add: RootGroup_def)
qed (rule RootGroup_valid)

lemma no_owner_iff:
  "filter (\<lambda>(_, r). r = RoleOwner) ms = [] \<longleftrightarrow> \<not> (\<exists>name. (name, RoleOwner) \<in> set ms)"
  by (auto simp: filter_empty_conv)

lemma Validate_Inr: "Validate g d = Inr u \<longleftrightarrow> wf_document g d"
proof (cases "valid g \<and> Version d = 4 \<and> DocGroup d = g")
  case True
  then have "Validate g d = bindr (count_owners 0 (Members d)) (\<lambda>owners.
      if owners = 0 then Inl (Errorf ''at least one owner required'') else ValidateSettings d)"
    using RootGroup_self [of g] by (simp add: Validate_def CurrentVersion_def)
  with True show ?thesis
    unfolding wf_document_def
    by (auto simp: bindr_Inr_iff count_owners_Inr ValidateSettings_Inr no_owner_iff)
next
  case False
  then show ?thesis
    using RootGroup_self [of g]
    by (auto simp: Validate_def bindr_Inr_iff wf_document_def CurrentVersion_def split: if_splits)
qed

section \<open>The cache\<close>

text \<open>
  The invariant of the cache: every entry holds the validated document of its commit. It is
  what makes the hash comparison of \<^verbatim>\<open>Load\<close> sound; commits are immutable, so \<open>decode\<close> is a
  function of the root group and the commit, whatever the branch points to.
\<close>

definition cache_ok :: "git_view \<Rightarrow> control_cache \<Rightarrow> bool" where
  "cache_ok git cache \<longleftrightarrow>
     (\<forall>g h d. cache g = Some (h, d) \<longrightarrow> ReadDocument git h g = Inr d)"

lemma cache_ok_empty: "cache_ok git Map.empty"
  by (simp add: cache_ok_def)

lemma Load_correct:
  assumes "cache_ok git cache"
  shows "fst (Load git cache grp) = Load_uncached git grp \<and> cache_ok git (snd (Load git cache grp))"
  using assms
  by (auto simp: Load_def Load_uncached_def cache_ok_def Let_def split: sum.splits option.splits prod.splits)

lemma Invalidate_ok: "cache_ok git cache \<Longrightarrow> cache_ok git (Invalidate cache grp)"
  by (auto simp: Invalidate_def cache_ok_def Let_def)

text \<open>A push moves a branch but keeps every commit readable as before.\<close>

lemma cache_ok_push: "cache_ok git cache \<Longrightarrow> cache_ok (git\<lparr>head_of := hd'\<rparr>) cache"
  by (simp add: cache_ok_def ReadDocument_def)

lemma ReadDocument_wf: "ReadDocument git h g = Inr d \<Longrightarrow> wf_document g d"
  by (auto simp: ReadDocument_def bindr_Inr_iff Validate_Inr)

lemma Load_uncached_wf: "Load_uncached git grp = Inr d \<Longrightarrow> \<exists>g. RootGroup grp = Inr g \<and> wf_document g d"
  by (auto simp: Load_uncached_def bindr_Inr_iff dest: ReadDocument_wf)

text \<open>Runs of the store: loads, invalidations and pushes by other requests, in any order.\<close>

datatype control_event = ELoad string | EInvalidate string | EPush "string \<Rightarrow> string result"

fun control_run ::
  "git_view \<Rightarrow> control_cache \<Rightarrow> control_event list \<Rightarrow> git_view \<times> control_cache" where
  "control_run git cache [] = (git, cache)"
| "control_run git cache (ELoad g # es) = control_run git (snd (Load git cache g)) es"
| "control_run git cache (EInvalidate g # es) = control_run git (Invalidate cache g) es"
| "control_run git cache (EPush heads # es) = control_run (git\<lparr>head_of := heads\<rparr>) cache es"

lemma control_run_ok:
  "cache_ok git cache \<Longrightarrow> control_run git cache es = (git', cache') \<Longrightarrow> cache_ok git' cache'"
  by (induction git cache es rule: control_run.induct)
    (auto simp: Load_correct Invalidate_ok cache_ok_push)

section \<open>The store as an interface\<close>

text \<open>
  What clients rely on (\<^verbatim>\<open>auth.ControlStore\<close>): a state with an invariant, a \<open>load\<close> that keeps
  it, returns only well-formed documents of the root group asked for, and gives the same answer
  when asked twice.
\<close>

locale control_store =
  fixes load :: "'c \<Rightarrow> string \<Rightarrow> document result \<times> 'c" and inv :: "'c \<Rightarrow> bool"
  assumes load_inv: "inv c \<Longrightarrow> inv (snd (load c g))"
    and load_wf: "inv c \<Longrightarrow> fst (load c g) = Inr d \<Longrightarrow> \<exists>r. RootGroup g = Inr r \<and> wf_document r d"
    and load_again: "inv c \<Longrightarrow> fst (load (snd (load c g)) g') = fst (load c g')"
begin

lemma load_root_wf:
  assumes "inv c" "RootGroup g = Inr r" "load c r = (Inr d, c')"
  shows "wf_document r d" "inv c'"
proof -
  have "RootGroup r = Inr r" using RootGroup_idem assms(2) by blast
  then show "wf_document r d" using load_wf [OF assms(1), of r d] assms(3) by auto
  show "inv c'" using load_inv [OF assms(1), of r] assms(3) by simp
qed

lemma load_members_valid:
  assumes "inv c" "RootGroup g = Inr r" "load c r = (Inr d, c')" "(name, role) \<in> set (Members d)"
  shows "validRole role"
  using load_root_wf(1) [OF assms(1-3)] assms(4) by (auto simp: wf_document_def)

lemma load_tokens_valid:
  assumes "inv c" "RootGroup g = Inr r" "load c r = (Inr d, c')"
  shows "\<forall>t\<in>set (Tokens d). validRole (TokenRole t)" "distinct (map Key (Tokens d))"
  using load_root_wf(1) [OF assms(1-3)] by (auto simp: wf_document_def wf_token_def list_all_iff)

end

interpretation cached: control_store "Load git" "cache_ok git" for git
proof
  fix c g d g'
  assume ok: "cache_ok git c"
  show "cache_ok git (snd (Load git c g))" using Load_correct [OF ok] by simp
  show "\<exists>r. RootGroup g = Inr r \<and> wf_document r d" if "fst (Load git c g) = Inr d"
    using that Load_correct [OF ok, of g] Load_uncached_wf by simp
  show "fst (Load git (snd (Load git c g)) g') = fst (Load git c g')"
    using Load_correct [OF ok, of g] Load_correct [OF ok, of g']
      Load_correct [of git "snd (Load git c g)" g'] by simp
qed

section \<open>Properties\<close>

text \<open>
  Property C22. \<^verbatim>\<open>Validate\<close> accepts exactly the well-formed documents of a root group: version
  4, the group's own name, at least one owner, named members and named, keyed, hashed tokens
  with known roles, no two tokens with one name or one key, a known visibility and no
  negative LFS limit.
\<close>

theorem Validate_exact: "Validate g d = Inr () \<longleftrightarrow> wf_document g d"
  by (rule Validate_Inr)

text \<open>
  Property C9. The document cache is transparent: after any sequence of loads, invalidations and
  pushes that starts from the empty cache of \<^verbatim>\<open>NewStore\<close>, \<^verbatim>\<open>Load\<close> returns what reading the
  current head of the root group's control repository would return, error or document.
\<close>

theorem Load_cache_transparent:
  assumes "control_run git Map.empty es = (git', cache)"
  shows "fst (Load git' cache grp) = Load_uncached git' grp"
  using Load_correct [OF control_run_ok [OF cache_ok_empty assms]] by simp

theorem Load_cache_transparent_witness:
  "let git = \<lparr>head_of = (\<lambda>_. Inr ''c1''), decode = (\<lambda>_ _. Inl ErrNotExist)\<rparr> in
   control_run git Map.empty [EInvalidate ''a''] = (git, Map.empty) \<and>
   fst (Load git Map.empty ''a/b'') = Load_uncached git ''a/b''"
proof -
  let ?git = "\<lparr>head_of = (\<lambda>_. Inr ''c1''), decode = (\<lambda>_ _. Inl ErrNotExist)\<rparr>"
  have run: "control_run ?git Map.empty [EInvalidate ''a''] = (?git, Map.empty)"
    by (simp add: Invalidate_def Let_def)
  show ?thesis using run Load_cache_transparent [OF run, of "''a/b''"] by (simp add: Let_def)
qed

text \<open>
  Further property. On the four roles a document can hold, \<^verbatim>\<open>Allows\<close> is the order read, developer,
  maintainer, owner; a role outside the four allows none of them, so an unknown role never
  grants access.
\<close>

theorem Allows_role_order:
  "Allows r need \<and> validRole need \<longleftrightarrow>
     (r, need) \<in> {(RoleRead, RoleRead), (RoleDeveloper, RoleRead), (RoleDeveloper, RoleDeveloper),
       (RoleMaintainer, RoleRead), (RoleMaintainer, RoleDeveloper), (RoleMaintainer, RoleMaintainer),
       (RoleOwner, RoleRead), (RoleOwner, RoleDeveloper), (RoleOwner, RoleMaintainer),
       (RoleOwner, RoleOwner)}"
  by (auto simp: Allows_def role_rank_def validRole_def split: if_splits)

end
