(* ===== verification/LockMgr.thy ===== *)
theory LockMgr
  imports SafePath "HOL-Library.AList"
begin

text \<open>
  The lock manager, \<^verbatim>\<open>src/internal/lockmgr/lockmgr.go\<close>: the normalisation of lock requests,
  the requests each kind of operation makes and their keys. The manager's concurrent
  behaviour (registration, the per-key readers-writer locks, release) is in the theory
  LockSystem. The lemmas show what normalisation keeps and how the keys of the different
  resource kinds are ordered.
\<close>

section \<open>Requests\<close>

type_synonym lock_mode = "8 word"

abbreviation Shared :: lock_mode where "Shared \<equiv> 0"
abbreviation Exclusive :: lock_mode where "Exclusive \<equiv> 1"

record request =
  LockKey :: string
  LockMode :: lock_mode

text \<open>The loop that merges the requests by key, keeping the stronger mode.\<close>

fun merge_requests :: "(string \<times> lock_mode) list \<Rightarrow> request list \<Rightarrow> (string \<times> lock_mode) list result" where
  "merge_requests byKey [] = Inr byKey"
| "merge_requests byKey (r # rs) =
     (if LockKey r = [] then Inl (Errorf ''lock key is required'')
      else if LockMode r \<noteq> Shared \<and> LockMode r \<noteq> Exclusive
      then Inl (Errorf (''invalid lock mode for '' @ LockKey r))
      else merge_requests
        (case map_of byKey (LockKey r) of
           None \<Rightarrow> AList.update (LockKey r) (LockMode r) byKey
         | Some existing \<Rightarrow>
             if LockMode r > existing then AList.update (LockKey r) (LockMode r) byKey else byKey)
        rs)"

definition normalizeRequests :: "request list \<Rightarrow> request list result" where
  "normalizeRequests requests =
     bindr (merge_requests [] requests) (\<lambda>byKey.
       Inr (sort_key LockKey (map (\<lambda>(k, m). \<lparr>LockKey = k, LockMode = m\<rparr>) byKey)))"

section \<open>Resource keys\<close>

text \<open>
  The environment of \<^verbatim>\<open>resourceKey\<close>: the working directory, symbolic-link resolution and
  the hexadecimal SHA-256 digest of the standard library.
\<close>

record lock_env =
  getwd :: "string result"
  eval_symlinks :: "string \<Rightarrow> string result"
  sha256_hex :: "string \<Rightarrow> string"

definition resourceKey :: "lock_env \<Rightarrow> string \<Rightarrow> string \<Rightarrow> string \<Rightarrow> string" where
  "resourceKey env kind root val =
     (let canonical = (case path_abs (getwd env) root of
            Inl _ \<Rightarrow> Clean root
          | Inr absolute \<Rightarrow> (case eval_symlinks env absolute of Inr resolved \<Rightarrow> resolved | Inl _ \<Rightarrow> absolute))
      in kind @ '':'' @ sha256_hex env canonical @ '':'' @ val)"

definition CatalogRequest :: "lock_env \<Rightarrow> string \<Rightarrow> lock_mode \<Rightarrow> request" where
  "CatalogRequest env root mode =
     \<lparr>LockKey = resourceKey env ''00-catalog'' root ''catalog'', LockMode = mode\<rparr>"

definition groupAncestryRequests :: "lock_env \<Rightarrow> string \<Rightarrow> string \<Rightarrow> lock_mode \<Rightarrow> request list" where
  "groupAncestryRequests env root grp terminal =
     (let parts = Split (CHR ''/'') grp in
      map (\<lambda>index.
        \<lparr>LockKey = resourceKey env ''10-group'' root (Join (take (index + 1) parts) ''/''),
         LockMode = (if index = length parts - 1 then terminal else Shared)\<rparr>) [0..<length parts])"

definition reviewGroupAncestryRequests :: "lock_env \<Rightarrow> string \<Rightarrow> string \<Rightarrow> lock_mode \<Rightarrow> request list" where
  "reviewGroupAncestryRequests env root grp terminal =
     (let parts = Split (CHR ''/'') grp in
      map (\<lambda>index.
        \<lparr>LockKey = resourceKey env ''50-review-group'' root (Join (take (index + 1) parts) ''/''),
         LockMode = (if index = length parts - 1 then terminal else Shared)\<rparr>) [0..<length parts])"

definition issueGroupAncestryRequests :: "lock_env \<Rightarrow> string \<Rightarrow> string \<Rightarrow> lock_mode \<Rightarrow> request list" where
  "issueGroupAncestryRequests env root grp terminal =
     (let parts = Split (CHR ''/'') grp in
      map (\<lambda>index.
        \<lparr>LockKey = resourceKey env ''53-issue-group'' root (Join (take (index + 1) parts) ''/''),
         LockMode = (if index = length parts - 1 then terminal else Shared)\<rparr>) [0..<length parts])"

definition RepositoryRequests :: "lock_env \<Rightarrow> string \<Rightarrow> repository list \<Rightarrow> lock_mode \<Rightarrow> request list" where
  "RepositoryRequests env root repositories mode =
     CatalogRequest env root Shared #
     concat (map (\<lambda>r. groupAncestryRequests env root (Group r) Shared @
       [\<lparr>LockKey = resourceKey env ''20-repository'' root (Full r), LockMode = mode\<rparr>]) repositories)"

definition GroupRequests :: "lock_env \<Rightarrow> string \<Rightarrow> string list \<Rightarrow> lock_mode \<Rightarrow> request list" where
  "GroupRequests env root grps mode =
     CatalogRequest env root Shared #
     concat (map (\<lambda>g. groupAncestryRequests env root g mode) grps)"

definition LFSRequests :: "lock_env \<Rightarrow> string \<Rightarrow> string \<Rightarrow> request list" where
  "LFSRequests env root grp =
     CatalogRequest env root Shared # groupAncestryRequests env root grp Shared @
     [\<lparr>LockKey = resourceKey env ''30-lfs'' root grp, LockMode = Exclusive\<rparr>]"

definition QueueRequest :: "lock_env \<Rightarrow> string \<Rightarrow> request" where
  "QueueRequest env root =
     \<lparr>LockKey = resourceKey env ''40-runner-queue'' root ''queue'', LockMode = Exclusive\<rparr>"

definition JobRequest :: "lock_env \<Rightarrow> string \<Rightarrow> repository \<Rightarrow> string \<Rightarrow> request" where
  "JobRequest env root r jid =
     \<lparr>LockKey = resourceKey env ''41-runner-job'' root (Full r @ ''/'' @ jid), LockMode = Exclusive\<rparr>"

definition ReviewCatalogRequest :: "lock_env \<Rightarrow> string \<Rightarrow> lock_mode \<Rightarrow> request" where
  "ReviewCatalogRequest env root mode =
     \<lparr>LockKey = resourceKey env ''49-review-catalog'' root ''reviews'', LockMode = mode\<rparr>"

definition ReviewRepositoryRequests :: "lock_env \<Rightarrow> string \<Rightarrow> repository list \<Rightarrow> request list" where
  "ReviewRepositoryRequests env root repositories =
     ReviewCatalogRequest env root Shared #
     concat (map (\<lambda>r. reviewGroupAncestryRequests env root (Group r) Shared @
       [\<lparr>LockKey = resourceKey env ''51-review-repository'' root (Full r), LockMode = Exclusive\<rparr>])
       repositories)"

definition ReviewGroupRequests :: "lock_env \<Rightarrow> string \<Rightarrow> string list \<Rightarrow> request list" where
  "ReviewGroupRequests env root grps =
     ReviewCatalogRequest env root Shared #
     concat (map (\<lambda>g. reviewGroupAncestryRequests env root g Exclusive) grps)"

definition IssueCatalogRequest :: "lock_env \<Rightarrow> string \<Rightarrow> lock_mode \<Rightarrow> request" where
  "IssueCatalogRequest env root mode =
     \<lparr>LockKey = resourceKey env ''52-issue-catalog'' root ''issues'', LockMode = mode\<rparr>"

definition IssueRepositoryRequests :: "lock_env \<Rightarrow> string \<Rightarrow> repository list \<Rightarrow> request list" where
  "IssueRepositoryRequests env root repositories =
     IssueCatalogRequest env root Shared #
     concat (map (\<lambda>r. issueGroupAncestryRequests env root (Group r) Shared @
       [\<lparr>LockKey = resourceKey env ''54-issue-repository'' root (Full r), LockMode = Exclusive\<rparr>])
       repositories)"

definition IssueGroupRequests :: "lock_env \<Rightarrow> string \<Rightarrow> string list \<Rightarrow> request list" where
  "IssueGroupRequests env root grps =
     IssueCatalogRequest env root Shared #
     concat (map (\<lambda>g. issueGroupAncestryRequests env root g Exclusive) grps)"

definition MergeRequest :: "lock_env \<Rightarrow> string \<Rightarrow> repository \<Rightarrow> request" where
  "MergeRequest env root r =
     \<lparr>LockKey = resourceKey env ''60-merge'' root (Full r), LockMode = Exclusive\<rparr>"

section \<open>Normalisation\<close>

definition wf_request :: "request \<Rightarrow> bool" where
  "wf_request r \<longleftrightarrow> LockKey r \<noteq> [] \<and> (LockMode r = Shared \<or> LockMode r = Exclusive)"

lemma mode_less: "m = Shared \<or> m = Exclusive \<Longrightarrow> n = Shared \<or> n = Exclusive \<Longrightarrow>
    (m > n \<longleftrightarrow> m = Exclusive \<and> n = Shared)"
  by (elim disjE) simp_all

text \<open>
  The merged table: distinct keys; a key is exclusive exactly when the table or a request
  asks for it exclusively.
\<close>

definition modes_ok :: "(string \<times> lock_mode) list \<Rightarrow> bool" where
  "modes_ok t \<longleftrightarrow> distinct (map fst t) \<and> (\<forall>(k, m)\<in>set t. k \<noteq> [] \<and> (m = Shared \<or> m = Exclusive))"

definition merged_mode :: "(string \<times> lock_mode) list \<Rightarrow> request list \<Rightarrow> string \<Rightarrow> lock_mode option" where
  "merged_mode t rs k =
     (if map_of t k = Some Exclusive \<or> (\<exists>r\<in>set rs. LockKey r = k \<and> LockMode r = Exclusive)
      then Some Exclusive
      else if map_of t k = Some Shared \<or> (\<exists>r\<in>set rs. LockKey r = k) then Some Shared else None)"

lemma modes_ok_update:
  "modes_ok t \<Longrightarrow> k \<noteq> [] \<Longrightarrow> m = Shared \<or> m = Exclusive \<Longrightarrow> modes_ok (AList.update k m t)"
proof -
  assume "modes_ok t" "k \<noteq> []" "m = Shared \<or> m = Exclusive"
  moreover from this have "distinct (map fst (AList.update k m t))"
    by (simp add: modes_ok_def distinct_update)
  moreover have "set (AList.update k m t) \<subseteq> insert (k, m) (set t)"
    by (induction t) auto
  ultimately show ?thesis by (auto simp: modes_ok_def)
qed

lemma modes_ok_mode: "modes_ok t \<Longrightarrow> map_of t k = Some m \<Longrightarrow> m = Shared \<or> m = Exclusive"
  by (auto simp: modes_ok_def dest!: map_of_SomeD)

lemma merge_requests_Inr:
  "modes_ok t \<Longrightarrow> merge_requests t rs = Inr t' \<Longrightarrow>
   modes_ok t' \<and> (\<forall>r\<in>set rs. wf_request r) \<and> map_of t' = merged_mode t rs"
proof (induction t rs rule: merge_requests.induct)
  case (1 t)
  then show ?case
    by (auto simp: merged_mode_def fun_eq_iff dest: modes_ok_mode) (metis modes_ok_mode not_None_eq)
next
  case (2 t r rs)
  let ?t = "case map_of t (LockKey r) of
           None \<Rightarrow> AList.update (LockKey r) (LockMode r) t
         | Some existing \<Rightarrow>
             if LockMode r > existing then AList.update (LockKey r) (LockMode r) t else t"
  have r: "LockKey r \<noteq> []" "LockMode r = Shared \<or> LockMode r = Exclusive"
    and rec: "merge_requests ?t rs = Inr t'"
    using 2(3) by (auto split: if_splits)
  have ok: "modes_ok ?t" using 2(2) r by (auto simp: modes_ok_update split: option.split)
  have "map_of ?t = (map_of t)(LockKey r \<mapsto>
      (if map_of t (LockKey r) = Some Exclusive then Exclusive else LockMode r))"
    using r(2) modes_ok_mode [OF 2(2), of "LockKey r"]
    by (auto simp: update_conv fun_eq_iff split: option.split)
  then have "merged_mode ?t rs = merged_mode t (r # rs)"
    using r(2) by (auto simp: merged_mode_def fun_eq_iff)
  with 2(1) [OF _ _ ok rec] r show ?case by (auto simp: wf_request_def)
qed

lemma merge_requests_total:
  "\<forall>r\<in>set rs. wf_request r \<Longrightarrow> \<exists>t'. merge_requests t rs = Inr t'"
  by (induction rs arbitrary: t) (auto simp: wf_request_def)

lemma merge_requests_fails: "r \<in> set rs \<Longrightarrow> \<not> wf_request r \<Longrightarrow> \<exists>e. merge_requests t rs = Inl e"
  by (induction rs arbitrary: t) (auto simp: wf_request_def)

lemma sort_key_strict:
  assumes "distinct (map f xs)"
  shows "sorted_wrt (<) (map f (sort_key f xs))"
proof -
  have "distinct (map f (sort_key f xs))"
    using assms by (simp add: distinct_map)
  then show ?thesis by (simp add: strict_sorted_iff)
qed

text \<open>What a normalised list promises.\<close>

definition normalized_of :: "request list \<Rightarrow> request list \<Rightarrow> bool" where
  "normalized_of rs ns \<longleftrightarrow>
     sorted_wrt (<) (map LockKey ns) \<and> LockKey ` set ns = LockKey ` set rs \<and>
     (\<forall>n\<in>set ns. LockMode n =
        (if \<exists>r\<in>set rs. LockKey r = LockKey n \<and> LockMode r = Exclusive then Exclusive else Shared))"

lemma normalize_spec:
  assumes "normalizeRequests rs = Inr ns"
  shows "(\<forall>r\<in>set rs. wf_request r) \<and> normalized_of rs ns"
proof -
  obtain t where t: "merge_requests [] rs = Inr t"
    and ns: "ns = sort_key LockKey (map (\<lambda>(k, m). \<lparr>LockKey = k, LockMode = m\<rparr>) t)"
    using assms by (auto simp: normalizeRequests_def bindr_Inr_iff)
  have spec: "modes_ok t" "\<forall>r\<in>set rs. wf_request r" "map_of t = merged_mode [] rs"
    using merge_requests_Inr [OF _ t] by (auto simp: modes_ok_def)
  have keys: "map LockKey (map (\<lambda>(k, m). \<lparr>LockKey = k, LockMode = m\<rparr>) t) = map fst t"
    by auto
  have "sorted_wrt (<) (map LockKey ns)"
    unfolding ns using spec(1) keys by (intro sort_key_strict) (simp only: modes_ok_def)
  moreover have "LockKey ` set ns = dom (map_of t)"
    by (auto simp: ns dom_map_of_conv_image_fst image_image case_prod_beta)
  moreover have "dom (map_of t) = LockKey ` set rs"
    unfolding spec(3) by (auto simp: merged_mode_def split: if_splits)
  moreover have "merged_mode [] rs (LockKey n) = Some (LockMode n)" if "n \<in> set ns" for n
    using that spec(1) by (auto simp: ns modes_ok_def spec(3) [symmetric])
  then have "\<forall>n\<in>set ns. LockMode n =
      (if \<exists>r\<in>set rs. LockKey r = LockKey n \<and> LockMode r = Exclusive then Exclusive else Shared)"
    by (fastforce simp: merged_mode_def split: if_splits)
  ultimately show ?thesis using spec(2) by (simp add: normalized_of_def)
qed

lemma normalize_total: "(\<exists>ns. normalizeRequests rs = Inr ns) \<longleftrightarrow> (\<forall>r\<in>set rs. wf_request r)"
  using merge_requests_total [of rs "[]"] normalize_spec [of rs]
  by (auto simp: normalizeRequests_def)

lemma sorted_map_unique:
  fixes f :: "'a \<Rightarrow> string"
  assumes "sorted_wrt (<) (map f xs)" "sorted_wrt (<) (map f ys)" "set xs = set ys"
  shows "xs = ys"
proof -
  have "inj_on f (set xs)"
    using assms(1) by (metis distinct_map strict_sorted_iff)
  moreover have "map f xs = map f ys"
    using assms by (metis sorted_distinct_set_unique strict_sorted_iff list.set_map)
  ultimately show ?thesis using assms(3) by (metis map_inj_on inf_sup_aci(5) sup.idem)
qed

text \<open>The specification determines the normalised list.\<close>

lemma normalized_keys: "normalized_of rs ns \<Longrightarrow> LockKey ` set ns = LockKey ` set rs"
  by (simp add: normalized_of_def)

lemma normalized_mode:
  "normalized_of rs ns \<Longrightarrow> n \<in> set ns \<Longrightarrow> LockMode n =
     (if \<exists>r\<in>set rs. LockKey r = LockKey n \<and> LockMode r = Exclusive then Exclusive else Shared)"
  by (simp add: normalized_of_def)

lemma normalized_subset:
  assumes "normalized_of rs ns" "normalized_of rs ms"
  shows "set ns \<subseteq> set ms"
proof
  fix n assume n: "n \<in> set ns"
  then have "LockKey n \<in> LockKey ` set ms"
    using normalized_keys [OF assms(1)] normalized_keys [OF assms(2)] by (metis imageI)
  then obtain m where m: "m \<in> set ms" "LockKey m = LockKey n" by auto
  have "LockMode m = LockMode n"
    by (simp only: normalized_mode [OF assms(1) n] normalized_mode [OF assms(2) m(1)] m(2))
  with m(2) have "m = n" by simp
  with m show "n \<in> set ms" by simp
qed

lemma normalized_unique:
  assumes "normalized_of rs ns" "normalized_of rs ms"
  shows "ns = ms"
proof (rule sorted_map_unique [of LockKey])
  show "sorted_wrt (<) (map LockKey ns)" "sorted_wrt (<) (map LockKey ms)"
    using assms by (simp_all add: normalized_of_def)
  show "set ns = set ms" using normalized_subset assms by blast
qed

section \<open>The order of resource keys\<close>

text \<open>The kinds of keys an operation's requests use.\<close>

definition of_kinds :: "lock_env \<Rightarrow> string list \<Rightarrow> request list \<Rightarrow> bool" where
  "of_kinds env kinds rs \<longleftrightarrow>
     (\<forall>r\<in>set rs. \<exists>kind\<in>set kinds. \<exists>root v. LockKey r = resourceKey env kind root v)"

lemma resourceKey_prefix: "\<exists>t. resourceKey env kind root v = kind @ t"
  by (auto simp: resourceKey_def Let_def)

lemma of_kinds_less:
  assumes "of_kinds env ks rs" "of_kinds env ks' rs'" "r \<in> set rs" "r' \<in> set rs'"
    "\<forall>k\<in>set ks. \<forall>k'\<in>set ks'. take 2 k < take 2 k' \<and> 2 \<le> length k \<and> 2 \<le> length k'"
  shows "LockKey r < LockKey r'"
proof -
  obtain k k' t t' where k: "k \<in> set ks" "LockKey r = k @ t" "k' \<in> set ks'" "LockKey r' = k' @ t'"
    using assms(1-4) resourceKey_prefix unfolding of_kinds_def by metis
  with assms(5) have "take 2 k < take 2 k'" "2 \<le> length k" "2 \<le> length k'" by auto
  then obtain a b c d x y where "k = a # b # x" "k' = c # d # y"
    by (metis Suc_le_length_iff numeral_2_eq_2)
  with k \<open>take 2 k < take 2 k'\<close> show ?thesis by (auto simp: numeral_2_eq_2)
qed

lemma of_kinds_ancestry:
  "of_kinds env [''10-group''] (groupAncestryRequests env root g m)"
  "of_kinds env [''50-review-group''] (reviewGroupAncestryRequests env root g m)"
  "of_kinds env [''53-issue-group''] (issueGroupAncestryRequests env root g m)"
  by (auto simp: of_kinds_def groupAncestryRequests_def reviewGroupAncestryRequests_def
      issueGroupAncestryRequests_def Let_def)

lemma resourceKey_nonempty: "kind \<noteq> [] \<Longrightarrow> resourceKey env kind root v \<noteq> []"
  by (simp add: resourceKey_def Let_def)

abbreviation operation_kinds :: "string list" where
  "operation_kinds \<equiv> [''00-catalog'', ''10-group'', ''20-repository'', ''30-lfs'',
     ''40-runner-queue'', ''41-runner-job'']"

abbreviation review_kinds :: "string list" where
  "review_kinds \<equiv> [''49-review-catalog'', ''50-review-group'', ''51-review-repository'']"

abbreviation issue_kinds :: "string list" where
  "issue_kinds \<equiv> [''52-issue-catalog'', ''53-issue-group'', ''54-issue-repository'']"

lemma operation_of_kinds:
  "of_kinds env operation_kinds (RepositoryRequests env root repos m)"
  "of_kinds env operation_kinds (GroupRequests env root gs m)"
  "of_kinds env operation_kinds (LFSRequests env root g)"
  "of_kinds env operation_kinds [QueueRequest env root, CatalogRequest env root m, JobRequest env root r j]"
  using of_kinds_ancestry(1)
  by (fastforce simp: of_kinds_def RepositoryRequests_def GroupRequests_def LFSRequests_def
      QueueRequest_def CatalogRequest_def JobRequest_def)+

lemma review_of_kinds:
  "of_kinds env review_kinds (ReviewRepositoryRequests env root repos)"
  "of_kinds env review_kinds (ReviewGroupRequests env root gs)"
  "of_kinds env review_kinds [ReviewCatalogRequest env root m]"
  using of_kinds_ancestry(2)
  by (fastforce simp: of_kinds_def ReviewRepositoryRequests_def ReviewGroupRequests_def
      ReviewCatalogRequest_def)+

lemma issue_of_kinds:
  "of_kinds env issue_kinds (IssueRepositoryRequests env root repos)"
  "of_kinds env issue_kinds (IssueGroupRequests env root gs)"
  "of_kinds env issue_kinds [IssueCatalogRequest env root m]"
  using of_kinds_ancestry(3)
  by (fastforce simp: of_kinds_def IssueRepositoryRequests_def IssueGroupRequests_def
      IssueCatalogRequest_def)+

lemma merge_of_kinds: "of_kinds env [''60-merge''] [MergeRequest env root r]"
  by (auto simp: of_kinds_def MergeRequest_def)

lemma char_digit_less [simp]:
  "CHR ''0'' < CHR ''4''" "CHR ''0'' < CHR ''5''" "CHR ''1'' < CHR ''4''" "CHR ''1'' < CHR ''5''"
  "CHR ''2'' < CHR ''4''" "CHR ''2'' < CHR ''5''" "CHR ''3'' < CHR ''4''" "CHR ''3'' < CHR ''5''"
  "CHR ''4'' < CHR ''5''" "CHR ''4'' < CHR ''6''" "CHR ''5'' < CHR ''6''" "CHR ''0'' < CHR ''6''"
  "CHR ''0'' < CHR ''9''" "CHR ''1'' < CHR ''9''" "CHR ''1'' < CHR ''2''" "CHR ''1'' < CHR ''3''"
  "CHR ''0'' < CHR ''2''" "CHR ''0'' < CHR ''3''"
  by (simp_all add: less_char_def)

lemma kind_order:
  "of_kinds env operation_kinds os \<Longrightarrow> of_kinds env review_kinds rs \<Longrightarrow> a \<in> set os \<Longrightarrow> b \<in> set rs \<Longrightarrow>
    LockKey a < LockKey b"
  "of_kinds env review_kinds rs \<Longrightarrow> of_kinds env issue_kinds is \<Longrightarrow> b \<in> set rs \<Longrightarrow> c \<in> set is \<Longrightarrow>
    LockKey b < LockKey c"
  "of_kinds env issue_kinds is \<Longrightarrow> of_kinds env [''60-merge''] ms \<Longrightarrow> c \<in> set is \<Longrightarrow> d \<in> set ms \<Longrightarrow>
    LockKey c < LockKey d"
  by (erule (1) of_kinds_less, assumption, assumption, simp)+

section \<open>Properties\<close>

text \<open>
  Further property. Lock requests are normalised exactly: the call fails if and only if a request has
  an empty key or an unknown mode; otherwise the result has each requested key once, in
  strictly increasing order, and asks for a key exclusively precisely when some request did.
  This determines the result, so it does not depend on the order of the requests.
\<close>

theorem normalizeRequests_exact:
  "normalizeRequests rs = Inr ns \<longleftrightarrow> (\<forall>r\<in>set rs. wf_request r) \<and> normalized_of rs ns"
  using normalize_spec [of rs] normalize_total [of rs] normalized_unique [of rs] by blast

theorem normalizeRequests_exact_witness:
  "normalizeRequests [\<lparr>LockKey = ''b'', LockMode = Shared\<rparr>, \<lparr>LockKey = ''a'', LockMode = Shared\<rparr>,
      \<lparr>LockKey = ''b'', LockMode = Exclusive\<rparr>] =
    Inr [\<lparr>LockKey = ''a'', LockMode = Shared\<rparr>, \<lparr>LockKey = ''b'', LockMode = Exclusive\<rparr>]"
  unfolding normalizeRequests_exact
  by (simp add: wf_request_def normalized_of_def less_char_def) blast

text \<open>
  Further property. The keys of the resource kinds are ordered as the lock discipline of the program
  needs and the comments promise: every key of a repository, group, LFS or build operation is
  below every review key, every review key below every issue key, every issue key below every
  merge key, for any storage roots. Acquiring operation, review, issue and merge locks in that
  order therefore never goes back in the key order.
\<close>

theorem resource_lock_order:
  assumes "a \<in> set (RepositoryRequests env root1 repos1 m @ GroupRequests env root1 gs1 m' @
      LFSRequests env root1 g @ [QueueRequest env root1, CatalogRequest env root1 m, JobRequest env root1 r j])"
    and "b \<in> set (ReviewRepositoryRequests env root2 repos2 @ ReviewGroupRequests env root2 gs2)"
    and "c \<in> set (IssueRepositoryRequests env root3 repos3 @ IssueGroupRequests env root3 gs3)"
  shows "LockKey a < LockKey b \<and> LockKey b < LockKey c \<and> LockKey c < LockKey (MergeRequest env root4 r')"
proof -
  have append: "of_kinds env ks xs \<Longrightarrow> of_kinds env ks ys \<Longrightarrow> of_kinds env ks (xs @ ys)" for ks xs ys
    by (auto simp: of_kinds_def)
  have a: "of_kinds env operation_kinds (RepositoryRequests env root1 repos1 m @ GroupRequests env root1 gs1 m' @
      LFSRequests env root1 g @ [QueueRequest env root1, CatalogRequest env root1 m, JobRequest env root1 r j])"
    by (intro append operation_of_kinds)
  have b: "of_kinds env review_kinds (ReviewRepositoryRequests env root2 repos2 @ ReviewGroupRequests env root2 gs2)"
    by (intro append review_of_kinds)
  have c: "of_kinds env issue_kinds (IssueRepositoryRequests env root3 repos3 @ IssueGroupRequests env root3 gs3)"
    by (intro append issue_of_kinds)
  have d: "MergeRequest env root4 r' \<in> set [MergeRequest env root4 r']" by simp
  show ?thesis
    using kind_order(1) [OF a b assms(1,2)] kind_order(2) [OF b c assms(2,3)]
      kind_order(3) [OF c merge_of_kinds assms(3) d] by blast
qed

theorem resource_lock_order_witness:
  "let env = \<lparr>getwd = Inr ''/'', eval_symlinks = Inr, sha256_hex = id\<rparr>;
       repo = \<lparr>Groups = [''g''], Name = ''n''\<rparr> in
   LockKey (CatalogRequest env ''/d'' Shared) < LockKey (ReviewCatalogRequest env ''/d'' Shared) \<and>
   LockKey (IssueCatalogRequest env ''/d'' Shared) < LockKey (MergeRequest env ''/d'' repo)"
proof -
  let ?env = "\<lparr>getwd = Inr ''/'', eval_symlinks = Inr, sha256_hex = id\<rparr>"
  have "LockKey (CatalogRequest ?env ''/d'' Shared) < LockKey (ReviewCatalogRequest ?env ''/d'' Shared) \<and>
      LockKey (ReviewCatalogRequest ?env ''/d'' Shared) < LockKey (IssueCatalogRequest ?env ''/d'' Shared) \<and>
      LockKey (IssueCatalogRequest ?env ''/d'' Shared) <
        LockKey (MergeRequest ?env ''/d'' \<lparr>Groups = [''g''], Name = ''n''\<rparr>)"
    by (rule resource_lock_order [where ?root1.0 = "''/d''" and ?repos1.0 = "[]" and ?gs1.0 = "[]"
          and ?root2.0 = "''/d''" and ?repos2.0 = "[]" and ?gs2.0 = "[]" and ?root3.0 = "''/d''"
          and ?repos3.0 = "[]" and ?gs3.0 = "[]" and m = Shared])
      (simp_all add: RepositoryRequests_def ReviewRepositoryRequests_def IssueRepositoryRequests_def)
  then show ?thesis by (simp add: Let_def)
qed

end
