(* ===== verification/LockSystem.thy ===== *)
theory LockSystem
  imports LockMgr
begin

text \<open>
  The concurrent behaviour of the lock manager of \<^verbatim>\<open>src/internal/lockmgr/lockmgr.go\<close>:
  \<^verbatim>\<open>Acquire\<close> and the release function it returns, run by any number of goroutines. Lock
  entries are heap objects; the manager's map points to them; each acquisition keeps the
  pointers it got when it registered. The readers-writer mutex of the standard library is
  modelled by its documented contract: one writer or any number of readers, and while readers
  hold it a waiting writer blocks further readers. The lemmas show that the map and the
  pointers never diverge, that conflicting acquisitions never hold a key together, and that
  goroutines that nest acquisitions in key order cannot deadlock.
\<close>

section \<open>State\<close>

record entry =
  writer :: "nat option"
  readers :: "nat set"
  refs :: int

datatype phase = Calling nat | Waiting nat | Held | Unlocking nat

text \<open>
  One call of \<^verbatim>\<open>Acquire\<close>: its normalised requests, the entries it registered with, the
  acquisition of the same goroutine it is nested in, and how far it has come. \<open>Calling i\<close> is
  before the \<open>i\<close>-th mutex call, \<open>Waiting i\<close> inside it, \<open>Held\<close> the caller's critical
  section, \<open>Unlocking i\<close> the release loop with \<open>i\<close> locks left.
\<close>

record acquisition =
  normalized :: "request list"
  entries :: "nat list"
  parent :: "nat option"
  phase :: phase

record manager =
  locks :: "string \<rightharpoonup> nat"
  heap :: "nat \<Rightarrow> entry"
  next_entry :: nat

record lock_system = manager +
  acquisitions :: "nat \<rightharpoonup> acquisition"
  next_acquisition :: nat

section \<open>Registration\<close>

definition register :: "manager \<Rightarrow> request \<Rightarrow> manager \<times> nat" where
  "register m r =
     (case locks m (LockKey r) of
        Some e \<Rightarrow> (m\<lparr>heap := (heap m)(e := (heap m e)\<lparr>refs := refs (heap m e) + 1\<rparr>)\<rparr>, e)
      | None \<Rightarrow>
          let e = next_entry m in
          (m\<lparr>locks := (locks m)(LockKey r \<mapsto> e),
             heap := (heap m)(e := \<lparr>writer = None, readers = {}, refs = 1\<rparr>),
             next_entry := Suc e\<rparr>, e))"

fun register_all :: "manager \<Rightarrow> request list \<Rightarrow> manager \<times> nat list" where
  "register_all m [] = (m, [])"
| "register_all m (r # rs) =
     (case register m r of (m', e) \<Rightarrow> (case register_all m' rs of (m'', es) \<Rightarrow> (m'', e # es)))"

text \<open>The bookkeeping loop at the end of a release.\<close>

fun deregister_all :: "manager \<Rightarrow> request list \<Rightarrow> nat list \<Rightarrow> manager" where
  "deregister_all m (r # rs) (e # es) =
     (let n = refs (heap m e) - 1;
          m' = m\<lparr>heap := (heap m)(e := (heap m e)\<lparr>refs := n\<rparr>)\<rparr>
      in deregister_all (if n = 0 then m'\<lparr>locks := (locks m')(LockKey r := None)\<rparr> else m') rs es)"
| "deregister_all m _ _ = m"

section \<open>Steps\<close>

definition set_phase :: "lock_system \<Rightarrow> nat \<Rightarrow> phase \<Rightarrow> lock_system" where
  "set_phase s a p =
     (case acquisitions s a of
        None \<Rightarrow> s
      | Some q \<Rightarrow> s\<lparr>acquisitions := (acquisitions s)(a \<mapsto> q\<lparr>phase := p\<rparr>)\<rparr>)"

definition set_entry :: "lock_system \<Rightarrow> nat \<Rightarrow> entry \<Rightarrow> lock_system" where
  "set_entry s e v = s\<lparr>heap := (heap s)(e := v)\<rparr>"

text \<open>The phase after the \<open>i\<close>-th lock was granted.\<close>

definition after_grant :: "acquisition \<Rightarrow> nat \<Rightarrow> phase" where
  "after_grant q i = (if Suc i = length (normalized q) then Held else Calling (Suc i))"

definition live_child :: "lock_system \<Rightarrow> nat \<Rightarrow> bool" where
  "live_child s a \<longleftrightarrow> (\<exists>b q. acquisitions s b = Some q \<and> parent q = Some a)"

definition writer_waiting :: "lock_system \<Rightarrow> nat \<Rightarrow> bool" where
  "writer_waiting s e \<longleftrightarrow> (\<exists>a q i. acquisitions s a = Some q \<and> phase q = Waiting i \<and>
     entries q ! i = e \<and> LockMode (normalized q ! i) = Exclusive)"

definition truncated :: "lock_system \<Rightarrow> manager" where
  "truncated s = \<lparr>locks = locks s, heap = heap s, next_entry = next_entry s\<rparr>"

definition with_manager :: "manager \<Rightarrow> (nat \<rightharpoonup> acquisition) \<Rightarrow> nat \<Rightarrow> lock_system" where
  "with_manager m acqs n =
     \<lparr>locks = locks m, heap = heap m, next_entry = next_entry m,
      acquisitions = acqs, next_acquisition = n\<rparr>"

text \<open>
  \<^verbatim>\<open>Acquire\<close> up to the end of the section guarded by the manager's mutex: normalise, return
  at once when nothing is requested, register with every entry.
\<close>

definition begin_acquire :: "lock_system \<Rightarrow> nat option \<Rightarrow> request list \<Rightarrow> lock_system result" where
  "begin_acquire s p requests =
     bindr (normalizeRequests requests) (\<lambda>ns.
       if length ns = 0 then Inr s
       else case register_all (truncated s) ns of (m, es) \<Rightarrow>
         Inr (with_manager m
           ((acquisitions s)(next_acquisition s \<mapsto>
              \<lparr>normalized = ns, entries = es, parent = p, phase = Calling 0\<rparr>))
           (Suc (next_acquisition s))))"

text \<open>
  One step of the system. A goroutine starts a nested acquisition only while it runs inside
  its innermost one (\<open>Held\<close>, no live child), and releases acquisitions innermost first.
\<close>

inductive lock_step :: "lock_system \<Rightarrow> lock_system \<Rightarrow> bool" where
  acquire: "begin_acquire s p requests = Inr t \<Longrightarrow>
     (case p of None \<Rightarrow> True
      | Some a \<Rightarrow> \<not> live_child s a \<and> (\<exists>q. acquisitions s a = Some q \<and> phase q = Held)) \<Longrightarrow>
     lock_step s t"
| call: "acquisitions s a = Some q \<Longrightarrow> phase q = Calling i \<Longrightarrow> lock_step s (set_phase s a (Waiting i))"
| lock: "acquisitions s a = Some q \<Longrightarrow> phase q = Waiting i \<Longrightarrow>
     LockMode (normalized q ! i) = Exclusive \<Longrightarrow> e = entries q ! i \<Longrightarrow>
     writer (heap s e) = None \<Longrightarrow> readers (heap s e) = {} \<Longrightarrow>
     lock_step s (set_phase (set_entry s e ((heap s e)\<lparr>writer := Some a\<rparr>)) a (after_grant q i))"
| rlock: "acquisitions s a = Some q \<Longrightarrow> phase q = Waiting i \<Longrightarrow>
     LockMode (normalized q ! i) \<noteq> Exclusive \<Longrightarrow> e = entries q ! i \<Longrightarrow>
     writer (heap s e) = None \<Longrightarrow> readers (heap s e) = {} \<or> \<not> writer_waiting s e \<Longrightarrow>
     lock_step s (set_phase (set_entry s e
       ((heap s e)\<lparr>readers := insert a (readers (heap s e))\<rparr>)) a (after_grant q i))"
| release: "acquisitions s a = Some q \<Longrightarrow> phase q = Held \<Longrightarrow> \<not> live_child s a \<Longrightarrow>
     lock_step s (set_phase s a (Unlocking (length (normalized q))))"
| unlock: "acquisitions s a = Some q \<Longrightarrow> phase q = Unlocking (Suc i) \<Longrightarrow>
     LockMode (normalized q ! i) = Exclusive \<Longrightarrow> e = entries q ! i \<Longrightarrow>
     lock_step s (set_phase (set_entry s e ((heap s e)\<lparr>writer := None\<rparr>)) a (Unlocking i))"
| runlock: "acquisitions s a = Some q \<Longrightarrow> phase q = Unlocking (Suc i) \<Longrightarrow>
     LockMode (normalized q ! i) \<noteq> Exclusive \<Longrightarrow> e = entries q ! i \<Longrightarrow>
     lock_step s (set_phase (set_entry s e
       ((heap s e)\<lparr>readers := readers (heap s e) - {a}\<rparr>)) a (Unlocking i))"
| finish: "acquisitions s a = Some q \<Longrightarrow> phase q = Unlocking 0 \<Longrightarrow>
     lock_step s (with_manager (deregister_all (truncated s) (normalized q) (entries q))
       ((acquisitions s)(a := None)) (next_acquisition s))"

definition New :: lock_system where
  "New = \<lparr>locks = Map.empty, heap = (\<lambda>_. \<lparr>writer = None, readers = {}, refs = 0\<rparr>), next_entry = 0,
     acquisitions = Map.empty, next_acquisition = 0\<rparr>"

inductive lock_reachable :: "lock_system \<Rightarrow> bool" where
  start: "lock_reachable New"
| step: "lock_reachable s \<Longrightarrow> lock_step s t \<Longrightarrow> lock_reachable t"

section \<open>The registration loops\<close>

text \<open>What the manager's map and heap keep between operations.\<close>

definition manager_ok :: "manager \<Rightarrow> bool" where
  "manager_ok m \<longleftrightarrow>
     (\<forall>k e. locks m k = Some e \<longrightarrow> e < next_entry m) \<and>
     (\<forall>k k' e. locks m k = Some e \<longrightarrow> locks m k' = Some e \<longrightarrow> k = k')"

definition fresh_entry :: entry where
  "fresh_entry = \<lparr>writer = None, readers = {}, refs = 1\<rparr>"

text \<open>The effect of registering a list of requests with distinct keys.\<close>

definition registered :: "manager \<Rightarrow> request list \<Rightarrow> manager \<Rightarrow> nat list \<Rightarrow> bool" where
  "registered m rs m' es \<longleftrightarrow>
     manager_ok m' \<and> length es = length rs \<and> next_entry m \<le> next_entry m' \<and>
     (\<forall>i < length rs. locks m' (LockKey (rs ! i)) = Some (es ! i)) \<and>
     (\<forall>k. k \<notin> LockKey ` set rs \<longrightarrow> locks m' k = locks m k) \<and>
     (\<forall>k e. locks m k = Some e \<longrightarrow> locks m' k = Some e) \<and>
     (\<forall>k e. locks m' k = Some e \<longrightarrow> locks m k = Some e \<or> next_entry m \<le> e) \<and>
     (\<forall>e < next_entry m. heap m' e =
        (heap m e)\<lparr>refs := refs (heap m e) + (if e \<in> set es then 1 else 0)\<rparr>) \<and>
     (\<forall>e. next_entry m \<le> e \<and> e < next_entry m' \<longrightarrow> heap m' e = fresh_entry \<and> e \<in> set es)"

lemma registered_bound:
  assumes "registered m rs m' es" "e \<in> set es"
  shows "e < next_entry m'"
proof -
  from assms(2) obtain i where "i < length es" "es ! i = e" by (auto simp: in_set_conv_nth)
  with assms(1) have "locks m' (LockKey (rs ! i)) = Some e" by (simp add: registered_def)
  with assms(1) show ?thesis unfolding registered_def manager_ok_def by blast
qed

lemma manager_ok_insert:
  assumes "manager_ok m" "locks m k = None"
  shows "manager_ok (m\<lparr>locks := (locks m)(k \<mapsto> next_entry m), heap := h, next_entry := Suc (next_entry m)\<rparr>)"
proof -
  have less: "locks m k' = Some e \<Longrightarrow> e < next_entry m" for k' e
    using assms(1) by (simp add: manager_ok_def)
  have "locks m k' \<noteq> Some (next_entry m)" for k' using less [of k' "next_entry m"] by auto
  then show ?thesis
    using assms by (auto simp: manager_ok_def less_Suc_eq intro: less split: if_splits)
qed

lemma register_spec:
  assumes "register m r = (m', e)" "manager_ok m"
  shows "registered m [r] m' [e]"
proof (cases "locks m (LockKey r)")
  case None
  have "manager_ok m'"
    using manager_ok_insert [OF assms(2) None] assms(1) None by (auto simp: register_def Let_def)
  with None assms show ?thesis
    by (auto simp: register_def registered_def fresh_entry_def Let_def less_Suc_eq
        split: if_splits)
next
  case (Some e')
  with assms show ?thesis
    by (auto simp: register_def registered_def manager_ok_def)
qed

lemma registered_Cons:
  assumes "registered m [r] m1 [e]" "registered m1 rs m' es" "LockKey r \<notin> LockKey ` set rs"
  shows "registered m (r # rs) m' (e # es)"
proof -
  note h = assms(1,2) [unfolded registered_def]
  have e: "locks m1 (LockKey r) = Some e" "locks m' (LockKey r) = Some e"
    using h by auto
  have notin: "e \<notin> set es"
  proof
    assume "e \<in> set es"
    then obtain i where i: "i < length rs" "locks m' (LockKey (rs ! i)) = Some e"
      using h by (auto simp: in_set_conv_nth)
    with e h have "LockKey (rs ! i) = LockKey r" unfolding manager_ok_def by metis
    with i assms(3) show False by (metis imageI nth_mem)
  qed
  have "\<forall>i < length (r # rs). locks m' (LockKey ((r # rs) ! i)) = Some ((e # es) ! i)"
    using h e by (auto simp: less_Suc_eq_0_disj)
  moreover have "heap m' x = (heap m x)\<lparr>refs := refs (heap m x) + (if x \<in> set (e # es) then 1 else 0)\<rparr>"
    if "x < next_entry m" for x
  proof -
    have "x < next_entry m1" using that h by auto
    then show ?thesis using that h notin by auto
  qed
  moreover have "heap m' x = fresh_entry \<and> x \<in> set (e # es)"
    if "next_entry m \<le> x" "x < next_entry m'" for x
  proof (cases "x < next_entry m1")
    case True
    then have "heap m1 x = fresh_entry" "x = e" using h that by auto
    then show ?thesis using h notin True by auto
  next
    case False
    then show ?thesis using h that by auto
  qed
  moreover have "locks m k = Some x \<or> next_entry m \<le> x" if "locks m' k = Some x" for k x
    using that h by (meson order_trans)
  ultimately show ?thesis using h by (simp add: registered_def)
qed

lemma register_all_spec:
  "register_all m rs = (m', es) \<Longrightarrow> distinct (map LockKey rs) \<Longrightarrow> manager_ok m \<Longrightarrow>
   registered m rs m' es"
proof (induction rs arbitrary: m es)
  case Nil
  then show ?case by (auto simp: registered_def)
next
  case (Cons r rs)
  obtain m1 e where r: "register m r = (m1, e)" by fastforce
  obtain es' where rs: "register_all m1 rs = (m', es')" "es = e # es'"
    using Cons.prems(1) r by (auto split: prod.splits)
  have "registered m [r] m1 [e]" by (rule register_spec [OF r Cons.prems(3)])
  moreover from this have "registered m1 rs m' es'"
    using Cons.IH [OF rs(1)] Cons.prems(2) by (simp add: registered_def)
  ultimately show ?case using registered_Cons rs(2) Cons.prems(2) by simp
qed

text \<open>The effect of deregistering: one reference less, and a key unmapped at the last one.\<close>

definition deregistered :: "manager \<Rightarrow> request list \<Rightarrow> nat list \<Rightarrow> manager \<Rightarrow> bool" where
  "deregistered m rs es m' \<longleftrightarrow>
     next_entry m' = next_entry m \<and>
     (\<forall>e. heap m' e = (heap m e)\<lparr>refs := refs (heap m e) - (if e \<in> set es then 1 else 0)\<rparr>) \<and>
     (\<forall>k. locks m' k =
        (if \<exists>i < length rs. LockKey (rs ! i) = k \<and> refs (heap m (es ! i)) = 1 then None else locks m k))"

lemma deregister_all_spec:
  "length es = length rs \<Longrightarrow> distinct es \<Longrightarrow> deregistered m rs es (deregister_all m rs es)"
proof (induction m rs es rule: deregister_all.induct)
  case (1 m r rs e es)
  let ?n = "refs (heap m e) - 1"
  let ?m' = "m\<lparr>heap := (heap m)(e := (heap m e)\<lparr>refs := ?n\<rparr>)\<rparr>"
  define m1 where "m1 = (if ?n = 0 then ?m'\<lparr>locks := (locks ?m')(LockKey r := None)\<rparr> else ?m')"
  define m2 where "m2 = deregister_all m1 rs es"
  have IH: "deregistered m1 rs es m2"
    using "1.IH" [OF refl refl] "1.prems" unfolding m1_def m2_def by simp
  have e: "e \<notin> set es" using "1.prems" by simp
  have h: "heap m1 = (heap m)(e := (heap m e)\<lparr>refs := ?n\<rparr>)" "next_entry m1 = next_entry m"
    "locks m1 = (if ?n = 0 then (locks m)(LockKey r := None) else locks m)"
    by (simp_all add: m1_def)
  have "i < length rs \<Longrightarrow> heap m1 (es ! i) = heap m (es ! i)" for i
    using e "1.prems"(1) h(1) by (auto simp: in_set_conv_nth)
  then have "locks m2 k = (if \<exists>i < length rs. LockKey (rs ! i) = k \<and> refs (heap m (es ! i)) = 1
      then None else locks m1 k)" for k
    using IH unfolding deregistered_def by (auto cong: conj_cong)
  then have "locks m2 k = (if \<exists>i < length (r # rs). LockKey ((r # rs) ! i) = k \<and>
      refs (heap m ((e # es) ! i)) = 1 then None else locks m k)" for k
    using h(3) unfolding length_Cons Ex_less_Suc2 nth_Cons_0 nth_Cons_Suc by auto
  moreover have "heap m2 x = (heap m x)\<lparr>refs := refs (heap m x) - (if x \<in> set (e # es) then 1 else 0)\<rparr>" for x
    using IH e h(1) by (auto simp: deregistered_def)
  ultimately have "deregistered m (r # rs) (e # es) m2"
    using IH h(2) by (simp add: deregistered_def)
  then show ?case by (simp add: m2_def m1_def Let_def)
qed (auto simp: deregistered_def)

section \<open>The invariant\<close>

definition held_upto :: "acquisition \<Rightarrow> nat" where
  "held_upto q = (case phase q of Calling i \<Rightarrow> i | Waiting i \<Rightarrow> i
     | Held \<Rightarrow> length (normalized q) | Unlocking i \<Rightarrow> i)"

text \<open>\<open>holds s a e x\<close>: acquisition \<open>a\<close> holds the mutex of entry \<open>e\<close>, exclusively iff \<open>x\<close>.\<close>

definition holds :: "lock_system \<Rightarrow> nat \<Rightarrow> nat \<Rightarrow> bool \<Rightarrow> bool" where
  "holds s a e x \<longleftrightarrow> (\<exists>q i. acquisitions s a = Some q \<and> i < held_upto q \<and> entries q ! i = e \<and>
     (LockMode (normalized q ! i) = Exclusive) = x)"

definition users :: "lock_system \<Rightarrow> nat \<Rightarrow> nat set" where
  "users s e = {a. \<exists>q. acquisitions s a = Some q \<and> e \<in> set (entries q)}"

definition phase_ok :: "acquisition \<Rightarrow> bool" where
  "phase_ok q = (case phase q of Calling i \<Rightarrow> i < length (normalized q)
     | Waiting i \<Rightarrow> i < length (normalized q) | Held \<Rightarrow> True
     | Unlocking i \<Rightarrow> i \<le> length (normalized q))"

definition shape_ok :: "acquisition \<Rightarrow> bool" where
  "shape_ok q \<longleftrightarrow> normalized q \<noteq> [] \<and> length (entries q) = length (normalized q) \<and>
     sorted_wrt (<) (map LockKey (normalized q)) \<and> phase_ok q"

definition linked :: "(string \<rightharpoonup> nat) \<Rightarrow> acquisition \<Rightarrow> bool" where
  "linked lm q \<longleftrightarrow> (\<forall>i < length (normalized q). lm (LockKey (normalized q ! i)) = Some (entries q ! i))"

definition structure_ok :: "lock_system \<Rightarrow> bool" where
  "structure_ok s \<longleftrightarrow> manager_ok (truncated s) \<and> finite (dom (acquisitions s)) \<and>
     (\<forall>a q. acquisitions s a = Some q \<longrightarrow> shape_ok q \<and> linked (locks s) q \<and> a < next_acquisition s)"

definition refs_ok :: "lock_system \<Rightarrow> bool" where
  "refs_ok s \<longleftrightarrow> (\<forall>k e. locks s k = Some e \<longrightarrow>
     refs (heap s e) = int (card (users s e)) \<and> users s e \<noteq> {})"

definition holders_ok :: "lock_system \<Rightarrow> bool" where
  "holders_ok s \<longleftrightarrow> (\<forall>e < next_entry s.
     (\<forall>a. writer (heap s e) = Some a \<longleftrightarrow> holds s a e True) \<and>
     (\<forall>a. a \<in> readers (heap s e) \<longleftrightarrow> holds s a e False) \<and>
     (writer (heap s e) \<noteq> None \<longrightarrow> readers (heap s e) = {}))"

definition lock_inv :: "lock_system \<Rightarrow> bool" where
  "lock_inv s \<longleftrightarrow> structure_ok s \<and> refs_ok s \<and> holders_ok s"

lemmas lock_state_defs = set_phase_def set_entry_def truncated_def with_manager_def

lemma structure_acq:
  assumes "structure_ok s" "acquisitions s a = Some q"
  shows "shape_ok q" "linked (locks s) q" "a < next_acquisition s"
  using assms by (auto simp: structure_ok_def)

lemma shape_distinct: "shape_ok q \<Longrightarrow> distinct (map LockKey (normalized q))"
  by (simp add: shape_ok_def strict_sorted_iff)

lemma linked_entry_less:
  assumes "structure_ok s" "acquisitions s a = Some q" "i < length (normalized q)"
  shows "entries q ! i < next_entry s"
proof -
  have "locks s (LockKey (normalized q ! i)) = Some (entries q ! i)"
    using structure_acq(2) [OF assms(1,2)] assms(3) by (simp add: linked_def)
  then show ?thesis using assms(1) by (auto simp: structure_ok_def manager_ok_def truncated_def)
qed

lemma manager_inj:
  "structure_ok s \<Longrightarrow> locks s k = Some e \<Longrightarrow> locks s k' = Some e \<Longrightarrow> k = k'"
  unfolding structure_ok_def manager_ok_def truncated_def by auto

lemma entries_distinct:
  assumes "structure_ok s" "acquisitions s a = Some q"
    "i < length (normalized q)" "j < length (normalized q)" "entries q ! i = entries q ! j"
  shows "i = j"
proof -
  have "LockKey (normalized q ! i) = LockKey (normalized q ! j)"
    using structure_acq(2) [OF assms(1,2)] assms manager_inj unfolding linked_def by metis
  then show ?thesis
    using shape_distinct [OF structure_acq(1) [OF assms(1,2)]] assms(3,4)
    by (simp add: distinct_conv_nth) (metis nth_map)
qed

lemma held_upto_le: "phase_ok q \<Longrightarrow> held_upto q \<le> length (normalized q)"
  by (auto simp: phase_ok_def held_upto_def split: phase.splits)

lemma holds_entry_less: "structure_ok s \<Longrightarrow> holds s a e x \<Longrightarrow> e < next_entry s"
  using held_upto_le linked_entry_less structure_acq(1)
  by (fastforce simp: holds_def shape_ok_def)

subsection \<open>Steps that move one acquisition\<close>

text \<open>
  A step that changes the phase of one acquisition and the holders of at most one entry keeps
  the map, the pointers and the reference counts.
\<close>

definition moved :: "lock_system \<Rightarrow> nat \<Rightarrow> acquisition \<Rightarrow> phase \<Rightarrow> (nat \<Rightarrow> entry) \<Rightarrow> lock_system" where
  "moved s a q p h = s\<lparr>acquisitions := (acquisitions s)(a \<mapsto> q\<lparr>phase := p\<rparr>), heap := h\<rparr>"

lemma set_phase_moved:
  assumes "acquisitions s a = Some q"
  shows "set_phase s a p = moved s a q p (heap s)"
    "set_phase (set_entry s e v) a p = moved s a q p ((heap s)(e := v))"
  using assms by (simp_all add: set_phase_def set_entry_def moved_def)

lemma moved_sel [simp]:
  "locks (moved s a q p h) = locks s" "next_entry (moved s a q p h) = next_entry s"
  "heap (moved s a q p h) = h" "next_acquisition (moved s a q p h) = next_acquisition s"
  "acquisitions (moved s a q p h) = (acquisitions s)(a \<mapsto> q\<lparr>phase := p\<rparr>)"
  by (simp_all add: moved_def)

lemma moved_structure:
  assumes "structure_ok s" "acquisitions s a = Some q" "phase_ok (q\<lparr>phase := p\<rparr>)"
  shows "structure_ok (moved s a q p h)"
proof -
  have "shape_ok (q\<lparr>phase := p\<rparr>)" "linked (locks s) (q\<lparr>phase := p\<rparr>)"
    using structure_acq [OF assms(1,2)] assms(3) by (simp_all add: shape_ok_def linked_def)
  then show ?thesis
    using assms by (auto simp: structure_ok_def truncated_def manager_ok_def)
qed

lemma moved_users: "acquisitions s a = Some q \<Longrightarrow> users (moved s a q p h) e = users s e"
  by (auto simp: users_def)

lemma moved_refs:
  assumes "refs_ok s" "acquisitions s a = Some q" "\<forall>e. refs (h e) = refs (heap s e)"
  shows "refs_ok (moved s a q p h)"
  using assms by (simp add: refs_ok_def moved_users)

lemma holds_moved:
  "holds (moved s a q p h) b e x \<longleftrightarrow>
     (if b = a then (\<exists>i < held_upto (q\<lparr>phase := p\<rparr>). entries q ! i = e \<and>
        (LockMode (normalized q ! i) = Exclusive) = x)
      else holds s b e x)"
  by (auto simp: holds_def)

lemma holds_self:
  "acquisitions s a = Some q \<Longrightarrow> holds s a e x \<longleftrightarrow>
     (\<exists>i < held_upto q. entries q ! i = e \<and> (LockMode (normalized q ! i) = Exclusive) = x)"
  by (auto simp: holds_def)

text \<open>Waiting for, and giving back, a lock without touching an entry.\<close>

lemma moved_same:
  assumes "lock_inv s" "acquisitions s a = Some q" "phase_ok (q\<lparr>phase := p\<rparr>)"
    "held_upto (q\<lparr>phase := p\<rparr>) = held_upto q"
  shows "lock_inv (moved s a q p (heap s))"
proof -
  have "holds (moved s a q p (heap s)) = holds s"
    using assms(2,4) by (auto simp: fun_eq_iff holds_moved holds_self)
  then have "holders_ok (moved s a q p (heap s))"
    using assms(1) by (simp add: holders_ok_def lock_inv_def)
  then show ?thesis
    using assms moved_structure moved_refs by (auto simp: lock_inv_def)
qed

text \<open>A granted lock adds one holder, an unlock removes one.\<close>

lemma grant_phase:
  assumes "shape_ok q" "phase q = Waiting i"
  shows "phase_ok (q\<lparr>phase := after_grant q i\<rparr>)" "held_upto (q\<lparr>phase := after_grant q i\<rparr>) = Suc i"
    "held_upto q = i" "i < length (normalized q)"
  using assms by (auto simp: shape_ok_def phase_ok_def after_grant_def held_upto_def)

lemma unlock_phase:
  assumes "shape_ok q" "phase q = Unlocking (Suc i)"
  shows "phase_ok (q\<lparr>phase := Unlocking i\<rparr>)" "held_upto (q\<lparr>phase := Unlocking i\<rparr>) = i"
    "held_upto q = Suc i" "i < length (normalized q)"
  using assms by (auto simp: shape_ok_def phase_ok_def held_upto_def)

lemma holds_grant:
  assumes "structure_ok s" "acquisitions s a = Some q" "phase q = Waiting i"
  shows "holds (moved s a q (after_grant q i) h) b e x \<longleftrightarrow>
    holds s b e x \<or> b = a \<and> e = entries q ! i \<and> x = (LockMode (normalized q ! i) = Exclusive)"
  using grant_phase [OF structure_acq(1) [OF assms(1,2)] assms(3)] assms(2)
  by (auto simp: holds_moved holds_self less_Suc_eq)

lemma holds_unlock:
  assumes "structure_ok s" "acquisitions s a = Some q" "phase q = Unlocking (Suc i)"
  shows "holds (moved s a q (Unlocking i) h) b e x \<longleftrightarrow>
    holds s b e x \<and> \<not> (b = a \<and> e = entries q ! i)"
proof -
  note p = unlock_phase [OF structure_acq(1) [OF assms(1,2)] assms(3)]
  have "j < i \<Longrightarrow> entries q ! j \<noteq> entries q ! i" for j
    using entries_distinct [OF assms(1,2), of j i] p(4) by auto
  then show ?thesis
    using p assms(2) by (auto simp: holds_moved holds_self less_Suc_eq)
qed

lemma holders_okI:
  assumes "\<And>e a. e < next_entry t \<Longrightarrow> writer (heap t e) = Some a \<longleftrightarrow> holds t a e True"
    "\<And>e a. e < next_entry t \<Longrightarrow> a \<in> readers (heap t e) \<longleftrightarrow> holds t a e False"
    "\<And>e. e < next_entry t \<Longrightarrow> writer (heap t e) \<noteq> None \<Longrightarrow> readers (heap t e) = {}"
  shows "holders_ok t"
  using assms by (auto simp: holders_ok_def)

lemma holders_okD:
  assumes "holders_ok s" "e < next_entry s"
  shows "writer (heap s e) = Some a \<longleftrightarrow> holds s a e True"
    "a \<in> readers (heap s e) \<longleftrightarrow> holds s a e False"
    "writer (heap s e) \<noteq> None \<Longrightarrow> readers (heap s e) = {}"
  using assms by (simp_all add: holders_ok_def)

lemma grant_inv:
  assumes "lock_inv s" "acquisitions s a = Some q" "phase q = Waiting i" "e = entries q ! i"
    "writer (heap s e) = None"
    "v = (if LockMode (normalized q ! i) = Exclusive then (heap s e)\<lparr>writer := Some a\<rparr>
       else (heap s e)\<lparr>readers := insert a (readers (heap s e))\<rparr>)"
    "LockMode (normalized q ! i) = Exclusive \<Longrightarrow> readers (heap s e) = {}"
  shows "lock_inv (moved s a q (after_grant q i) ((heap s)(e := v)))"
proof -
  have ok: "structure_ok s" "refs_ok s" "holders_ok s" using assms(1) by (auto simp: lock_inv_def)
  note p = grant_phase [OF structure_acq(1) [OF ok(1) assms(2)] assms(3)]
  note H = holds_grant [OF ok(1) assms(2,3)]
  have e: "e < next_entry s" using linked_entry_less [OF ok(1) assms(2) p(4)] assms(4) by simp
  note D = holders_okD [OF ok(3)]
  have "holders_ok (moved s a q (after_grant q i) ((heap s)(e := v)))"
    by (rule holders_okI; cases "LockMode (normalized q ! i) = Exclusive")
      (use assms(4-7) D(3) in \<open>auto simp: H D(1,2) [symmetric] split: if_splits\<close>)
  moreover have "refs v = refs (heap s e)" using assms(6) by simp
  ultimately show ?thesis
    using moved_structure [OF ok(1) assms(2) p(1)] moved_refs [OF ok(2) assms(2)]
    by (simp add: lock_inv_def)
qed

lemma unlock_inv:
  assumes "lock_inv s" "acquisitions s a = Some q" "phase q = Unlocking (Suc i)" "e = entries q ! i"
    "v = (if LockMode (normalized q ! i) = Exclusive then (heap s e)\<lparr>writer := None\<rparr>
       else (heap s e)\<lparr>readers := readers (heap s e) - {a}\<rparr>)"
  shows "lock_inv (moved s a q (Unlocking i) ((heap s)(e := v)))"
proof -
  have ok: "structure_ok s" "refs_ok s" "holders_ok s" using assms(1) by (auto simp: lock_inv_def)
  note p = unlock_phase [OF structure_acq(1) [OF ok(1) assms(2)] assms(3)]
  note H = holds_unlock [OF ok(1) assms(2,3)]
  have e: "e < next_entry s" using linked_entry_less [OF ok(1) assms(2) p(4)] assms(4) by simp
  note D = holders_okD [OF ok(3)]
  have held: "holds s a e (LockMode (normalized q ! i) = Exclusive)"
    using p(3) assms(2,4) by (auto simp: holds_self)
  have "holders_ok (moved s a q (Unlocking i) ((heap s)(e := v)))"
  proof (cases "LockMode (normalized q ! i) = Exclusive")
    case True
    then have w: "writer (heap s e) = Some a" "readers (heap s e) = {}"
      using held D [OF e] by auto
    show ?thesis
      by (rule holders_okI) (use True w assms(4,5) D(3) in \<open>auto simp: H D(1,2) [symmetric] split: if_splits\<close>)
  next
    case False
    then have w: "a \<in> readers (heap s e)" "writer (heap s e) = None"
      using held D(2) [OF e, of a] D(3) [OF e] by (auto simp del: not_None_eq)
    show ?thesis
      by (rule holders_okI) (use False w assms(4,5) D(3) in \<open>auto simp: H D(1,2) [symmetric] split: if_splits\<close>)
  qed
  moreover have "refs v = refs (heap s e)" using assms(5) by simp
  ultimately show ?thesis
    using moved_structure [OF ok(1) assms(2) p(1)] moved_refs [OF ok(2) assms(2)]
    by (simp add: lock_inv_def)
qed

subsection \<open>Registration and deregistration\<close>

lemma users_finite: "structure_ok s \<Longrightarrow> finite (users s e)"
  by (rule finite_subset [of _ "dom (acquisitions s)"]) (auto simp: users_def structure_ok_def)

lemma linked_entries:
  assumes "linked lm q" "length (entries q) = length (normalized q)" "e \<in> set (entries q)"
  shows "\<exists>i < length (normalized q). entries q ! i = e \<and> lm (LockKey (normalized q ! i)) = Some e"
  using assms by (auto simp: linked_def in_set_conv_nth)

lemma acquire_inv:
  assumes inv: "lock_inv s" and b: "begin_acquire s p requests = Inr t"
  shows "lock_inv t"
proof -
  have ok: "structure_ok s" "refs_ok s" "holders_ok s" using inv by (auto simp: lock_inv_def)
  obtain ns where ns: "normalizeRequests requests = Inr ns"
    using b by (auto simp: begin_acquire_def bindr_Inr_iff)
  show ?thesis
  proof (cases "length ns = 0")
    case True
    with b ns inv show ?thesis by (simp add: begin_acquire_def)
  next
    case False
    obtain m es where reg: "register_all (truncated s) ns = (m, es)" by fastforce
    define q where "q = \<lparr>normalized = ns, entries = es, parent = p, phase = Calling 0\<rparr>"
    let ?a = "next_acquisition s"
    have t: "t = with_manager m ((acquisitions s)(?a \<mapsto> q)) (Suc ?a)"
      using b ns False reg by (simp add: begin_acquire_def q_def)
    have sorted: "sorted_wrt (<) (map LockKey ns)"
      using normalize_spec [OF ns] by (simp add: normalized_of_def)
    have m: "registered (truncated s) ns m es"
      using register_all_spec [OF reg] sorted ok(1) by (simp add: strict_sorted_iff structure_ok_def)
    note r = m [unfolded registered_def truncated_def, simplified]
    have new: "acquisitions s ?a = None" using structure_acq(3) [OF ok(1), of ?a] by fastforce
    have sel: "locks t = locks m" "heap t = heap m" "next_entry t = next_entry m"
      "acquisitions t = (acquisitions s)(?a \<mapsto> q)" "next_acquisition t = Suc ?a"
      by (simp_all add: t with_manager_def)
    have struct: "structure_ok t"
    proof -
      have "linked (locks t) q" "shape_ok q"
        using r False sorted by (auto simp: linked_def shape_ok_def phase_ok_def q_def sel)
      moreover have "linked (locks t) q'" if "acquisitions s b = Some q'" for b q'
        using structure_acq(2) [OF ok(1) that] r by (simp add: linked_def sel)
      ultimately show ?thesis
        using ok(1) r unfolding structure_ok_def
        by (auto simp: sel truncated_def manager_ok_def less_Suc_eq)
    qed
    have users: "users t e = users s e \<union> (if e \<in> set es then {?a} else {})" for e
      using new by (auto simp: users_def sel q_def)
    have "refs_ok t"
      unfolding refs_ok_def
    proof (intro allI impI)
      fix k e assume k: "locks t k = Some e"
      then have less: "e < next_entry m" using r by (auto simp: sel manager_ok_def)
      have na: "?a \<notin> users s e" using new by (simp add: users_def)
      show "refs (heap t e) = int (card (users t e)) \<and> users t e \<noteq> {}"
      proof (cases "e < next_entry s")
        case True
        then have "locks s k = Some e" using k r by (metis leD sel(1))
        then have "refs (heap s e) = int (card (users s e))" "users s e \<noteq> {}"
          using ok(2) by (auto simp: refs_ok_def)
        with True r na users_finite [OF ok(1)] show ?thesis by (auto simp: users sel)
      next
        case False
        then have "heap m e = fresh_entry" "e \<in> set es" using r less by auto
        moreover have "users s e = {}"
        proof -
          have "e' < next_entry s" if "acquisitions s b = Some q'" "e' \<in> set (entries q')" for b q' e'
            using linked_entry_less [OF ok(1) that(1)] structure_acq(1) [OF ok(1) that(1)] that(2)
            by (auto simp: in_set_conv_nth shape_ok_def)
          then show ?thesis using False by (auto simp: users_def)
        qed
        ultimately show ?thesis by (simp add: users sel fresh_entry_def)
      qed
    qed
    moreover have "holders_ok t"
    proof -
      have H: "holds t a e x = holds s a e x" for a e x
        using new by (auto simp: holds_def sel q_def held_upto_def)
      have "e < next_entry s \<Longrightarrow> writer (heap t e) = writer (heap s e) \<and> readers (heap t e) = readers (heap s e)" for e
        using r by (simp add: sel)
      moreover have "\<not> e < next_entry s \<Longrightarrow> \<not> holds s a e x" for a e x
        using holds_entry_less [OF ok(1)] by blast
      moreover have "\<not> e < next_entry s \<Longrightarrow> e < next_entry t \<Longrightarrow> heap t e = fresh_entry" for e
        using r by (simp add: sel)
      ultimately show ?thesis
        using holders_okD [OF ok(3)] unfolding holders_ok_def H
        by (metis empty_iff entry.select_convs(1,2) fresh_entry_def option.distinct(1))
    qed
    ultimately show ?thesis using struct by (simp add: lock_inv_def)
  qed
qed

lemma finish_inv:
  assumes inv: "lock_inv s" and q: "acquisitions s a = Some q" "phase q = Unlocking 0"
  shows "lock_inv (with_manager (deregister_all (truncated s) (normalized q) (entries q))
       ((acquisitions s)(a := None)) (next_acquisition s))" (is "lock_inv ?t")
proof -
  have ok: "structure_ok s" "refs_ok s" "holders_ok s" using inv by (auto simp: lock_inv_def)
  note sq = structure_acq [OF ok(1) q(1)]
  have len: "length (entries q) = length (normalized q)" using sq(1) by (simp add: shape_ok_def)
  have dist: "distinct (entries q)"
    using entries_distinct [OF ok(1) q(1)] len unfolding distinct_conv_nth by metis
  define m where "m = deregister_all (truncated s) (normalized q) (entries q)"
  have "deregistered (truncated s) (normalized q) (entries q) m"
    unfolding m_def by (rule deregister_all_spec [OF len dist])
  then have d: "next_entry m = next_entry s"
    "heap m e = (heap s e)\<lparr>refs := refs (heap s e) - (if e \<in> set (entries q) then 1 else 0)\<rparr>"
    "locks m k = (if \<exists>i < length (normalized q). LockKey (normalized q ! i) = k \<and>
        refs (heap s (entries q ! i)) = 1 then None else locks s k)" for e k
    by (auto simp: deregistered_def truncated_def)
  have sel: "locks ?t = locks m" "heap ?t = heap m" "next_entry ?t = next_entry s"
    "acquisitions ?t = (acquisitions s)(a := None)" "next_acquisition ?t = next_acquisition s"
    by (simp_all add: with_manager_def m_def [symmetric] d)
  have users: "users ?t e = users s e - {a}" for e
    by (auto simp: users_def sel)
  have sub: "locks m k = Some e \<Longrightarrow> locks s k = Some e" for k e by (auto simp: d split: if_splits)
  have keep: "locks m (LockKey (normalized q' ! j)) = Some (entries q' ! j)"
    if q': "acquisitions s b = Some q'" "b \<noteq> a" "j < length (normalized q')" for b q' j
  proof -
    let ?k = "LockKey (normalized q' ! j)" and ?e = "entries q' ! j"
    have k: "locks s ?k = Some ?e"
      using structure_acq(2) [OF ok(1) q'(1)] q'(3) by (simp add: linked_def)
    have "\<not> (LockKey (normalized q ! i) = ?k \<and> refs (heap s (entries q ! i)) = 1)"
      if i: "i < length (normalized q)" for i
    proof
      assume h: "LockKey (normalized q ! i) = ?k \<and> refs (heap s (entries q ! i)) = 1"
      have "locks s (LockKey (normalized q ! i)) = Some (entries q ! i)"
        using sq(2) i by (simp add: linked_def)
      then have "entries q ! i = ?e" using h k by simp
      then have "?e \<in> set (entries q)" using i len by (metis nth_mem)
      then have "a \<in> users s ?e" using q by (auto simp: users_def)
      moreover have "b \<in> users s ?e"
        using q' structure_acq(1) [OF ok(1) q'(1)] by (auto simp: users_def shape_ok_def)
      moreover have "card (users s ?e) = 1"
        using ok(2) k h \<open>entries q ! i = ?e\<close> by (auto simp: refs_ok_def)
      ultimately have False if "b \<noteq> a" using that by (metis card_1_singletonE singletonD)
      with q'(2) show False by blast
    qed
    with k show ?thesis by (auto simp: d)
  qed
  have "manager_ok (truncated ?t)"
  proof -
    have tr: "locks (truncated ?t) = locks m" "next_entry (truncated ?t) = next_entry s"
      using sel by (simp_all add: truncated_def)
    have less: "locks s k = Some e \<Longrightarrow> e < next_entry s" for k e
      using ok(1) by (auto simp: structure_ok_def manager_ok_def truncated_def)
    show ?thesis
      unfolding manager_ok_def tr using less [OF sub] manager_inj [OF ok(1) sub sub] by blast
  qed
  then have "structure_ok ?t"
    using ok(1) keep unfolding structure_ok_def sel linked_def by auto
  moreover have "refs_ok ?t"
    unfolding refs_ok_def sel users
  proof (intro allI impI)
    fix k e assume k: "locks m k = Some e"
    then have ks: "locks s k = Some e" by (rule sub)
    then have r: "refs (heap s e) = int (card (users s e))" "users s e \<noteq> {}"
      using ok(2) by (auto simp: refs_ok_def)
    show "refs (heap m e) = int (card (users s e - {a})) \<and> users s e - {a} \<noteq> {}"
    proof (cases "e \<in> set (entries q)")
      case True
      then have au: "a \<in> users s e" using q by (auto simp: users_def)
      obtain i where i: "i < length (normalized q)" "entries q ! i = e"
          "locks s (LockKey (normalized q ! i)) = Some e"
        using linked_entries [OF sq(2) len True] by auto
      have "LockKey (normalized q ! i) = k" using manager_inj [OF ok(1) i(3) ks] .
      then have "refs (heap s e) \<noteq> 1" using k i by (auto simp: d split: if_splits)
      then have "card (users s e) \<noteq> 1" using r by simp
      moreover have c: "card (users s e) = Suc (card (users s e - {a}))"
        by (rule card.remove [OF users_finite [OF ok(1)] au])
      ultimately have "users s e - {a} \<noteq> {}" by fastforce
      moreover have "refs (heap m e) = refs (heap s e) - 1" using True by (simp add: d(2))
      ultimately show ?thesis using r(1) c by simp
    next
      case False
      then have "a \<notin> users s e" using q by (auto simp: users_def)
      with r False show ?thesis by (simp add: d(2))
    qed
  qed
  moreover have "holders_ok ?t"
  proof -
    have "\<not> holds s a e x" for e x using q by (simp add: holds_self held_upto_def)
    then have H: "holds ?t b e x = holds s b e x" for b e x
      by (auto simp: holds_def sel)
    show ?thesis
      using ok(3) unfolding holders_ok_def H sel by (simp add: d(2))
  qed
  ultimately show ?thesis by (simp add: lock_inv_def)
qed

text \<open>Every step keeps the invariant, so every reachable system satisfies it.\<close>

lemma lock_step_inv: "lock_step s t \<Longrightarrow> lock_inv s \<Longrightarrow> lock_inv t"
proof (induction rule: lock_step.induct)
  case (acquire s p requests t)
  then show ?case using acquire_inv by blast
next
  case (call s a q i)
  then show ?case
    using structure_acq(1) [of s a q]
    by (simp add: set_phase_moved, intro moved_same)
      (auto simp: lock_inv_def shape_ok_def phase_ok_def held_upto_def)
next
  case (lock s a q i e)
  then show ?case by (simp add: set_phase_moved) (rule grant_inv; simp)
next
  case (rlock s a q i e)
  then show ?case by (simp add: set_phase_moved) (rule grant_inv; simp)
next
  case (release s a q)
  then show ?case
    by (simp add: set_phase_moved, intro moved_same) (auto simp: phase_ok_def held_upto_def)
next
  case (unlock s a q i e)
  then show ?case by (simp add: set_phase_moved) (rule unlock_inv; simp)
next
  case (runlock s a q i e)
  then show ?case by (simp add: set_phase_moved) (rule unlock_inv; simp)
next
  case (finish s a q)
  then show ?case using finish_inv by blast
qed

lemma lock_inv_New: "lock_inv New"
  by (simp add: lock_inv_def structure_ok_def refs_ok_def holders_ok_def New_def manager_ok_def
      truncated_def)

lemma reachable_inv: "lock_reachable s \<Longrightarrow> lock_inv s"
  by (induction rule: lock_reachable.induct) (auto simp: lock_inv_New lock_step_inv)


section \<open>Nesting and progress\<close>

definition keys :: "acquisition \<Rightarrow> string set" where
  "keys q = LockKey ` set (normalized q)"

text \<open>
  A nested acquisition starts after its parent, while the parent runs its critical section,
  and is the only one nested directly in it.
\<close>

definition nest_ok :: "lock_system \<Rightarrow> bool" where
  "nest_ok s \<longleftrightarrow> (\<forall>a q b. acquisitions s a = Some q \<longrightarrow> parent q = Some b \<longrightarrow>
     b < a \<and> (\<exists>p. acquisitions s b = Some p \<and> phase p = Held) \<and>
     (\<forall>a' q'. acquisitions s a' = Some q' \<longrightarrow> parent q' = Some b \<longrightarrow> a' = a))"

text \<open>The discipline of the callers: nested requests come later in the key order.\<close>

definition ordered_nesting :: "lock_system \<Rightarrow> bool" where
  "ordered_nesting s \<longleftrightarrow> (\<forall>a q b p. acquisitions s a = Some q \<longrightarrow> parent q = Some b \<longrightarrow>
     acquisitions s b = Some p \<longrightarrow> (\<forall>k\<in>keys p. \<forall>k'\<in>keys q. k < k'))"

lemma nest_okD:
  assumes "nest_ok s" "acquisitions s a = Some q" "parent q = Some b"
  shows "b < a" "\<exists>p. acquisitions s b = Some p \<and> phase p = Held"
    "acquisitions s a' = Some q' \<Longrightarrow> parent q' = Some b \<Longrightarrow> a' = a"
  using assms unfolding nest_ok_def by meson+

lemma not_held_no_child:
  "nest_ok s \<Longrightarrow> acquisitions s a = Some q \<Longrightarrow> phase q \<noteq> Held \<Longrightarrow> \<not> live_child s a"
  using nest_okD(2) unfolding live_child_def by fastforce

lemma nest_okI:
  assumes "\<And>a q b. acquisitions s a = Some q \<Longrightarrow> parent q = Some b \<Longrightarrow> b < a"
    "\<And>a q b. acquisitions s a = Some q \<Longrightarrow> parent q = Some b \<Longrightarrow>
       \<exists>p. acquisitions s b = Some p \<and> phase p = Held"
    "\<And>a q b a' q'. acquisitions s a = Some q \<Longrightarrow> parent q = Some b \<Longrightarrow>
       acquisitions s a' = Some q' \<Longrightarrow> parent q' = Some b \<Longrightarrow> a' = a"
  shows "nest_ok s"
  unfolding nest_ok_def using assms by meson

text \<open>Steps that add no acquisition and leave every parent as it is.\<close>

lemma nest_ok_mono:
  assumes "nest_ok s"
    "\<And>b r. acquisitions t b = Some r \<Longrightarrow> \<exists>r0. acquisitions s b = Some r0 \<and> parent r0 = parent r"
    "\<And>b r c. acquisitions t b = Some r \<Longrightarrow> parent r = Some c \<Longrightarrow> acquisitions t c = acquisitions s c"
  shows "nest_ok t"
proof (rule nest_okI)
  fix a q b assume h: "acquisitions t a = Some q" "parent q = Some b"
  then obtain q0 where q0: "acquisitions s a = Some q0" "parent q0 = Some b" using assms(2) by metis
  show "b < a" using nest_okD(1) [OF assms(1) q0] .
  show "\<exists>p. acquisitions t b = Some p \<and> phase p = Held"
    using nest_okD(2) [OF assms(1) q0] assms(3) [OF h] by simp
  fix a' q' assume h': "acquisitions t a' = Some q'" "parent q' = Some b"
  then obtain q1 where q1: "acquisitions s a' = Some q1" "parent q1 = Some b" using assms(2) by metis
  show "a' = a" using nest_okD(3) [OF assms(1) q0 q1] .
qed

lemma no_child_parent:
  "\<not> live_child s a \<Longrightarrow> acquisitions s b = Some r \<Longrightarrow> parent r \<noteq> Some a"
  by (auto simp: live_child_def)

lemma nest_ok_moved:
  assumes "nest_ok s" "acquisitions s a = Some q" "\<not> live_child s a"
  shows "nest_ok (moved s a q p h)"
proof (rule nest_ok_mono [OF assms(1)])
  fix b r assume h: "acquisitions (moved s a q p h) b = Some r"
  show ex: "\<exists>r0. acquisitions s b = Some r0 \<and> parent r0 = parent r"
    using h assms(2) by (cases "b = a") auto
  fix c assume "parent r = Some c"
  with ex have "c \<noteq> a" using no_child_parent [OF assms(3)] by metis
  then show "acquisitions (moved s a q p h) c = acquisitions s c" by simp
qed

lemma nest_ok_remove:
  assumes "nest_ok s" "\<not> live_child s a" "acquisitions t = (acquisitions s)(a := None)"
  shows "nest_ok t"
proof (rule nest_ok_mono [OF assms(1)])
  fix b r assume h: "acquisitions t b = Some r"
  then have r: "acquisitions s b = Some r" using assms(3) by (simp split: if_splits)
  then show "\<exists>r0. acquisitions s b = Some r0 \<and> parent r0 = parent r" by blast
  fix c assume "parent r = Some c"
  then have "c \<noteq> a" using no_child_parent [OF assms(2) r] by metis
  then show "acquisitions t c = acquisitions s c" using assms(3) by simp
qed

lemma nest_ok_acquire:
  assumes "nest_ok s" "structure_ok s" "begin_acquire s p requests = Inr t"
    "case p of None \<Rightarrow> True
      | Some a \<Rightarrow> \<not> live_child s a \<and> (\<exists>q. acquisitions s a = Some q \<and> phase q = Held)"
  shows "nest_ok t"
proof (cases "t = s")
  case False
  let ?n = "next_acquisition s"
  obtain q where t: "acquisitions t = (acquisitions s)(?n \<mapsto> q)" "parent q = p"
    using assms(3) False
    by (auto simp: begin_acquire_def bindr_Inr_iff with_manager_def split: if_splits prod.splits)
  have fresh: "acquisitions s b = Some r \<Longrightarrow> b < ?n" for b r
    using structure_acq(3) [OF assms(2)] .
  have other: "parent r \<noteq> p" if "acquisitions s b = Some r" "p = Some a" for b r a
    using assms(4) that by (auto simp: live_child_def)
  have held: "\<exists>r. acquisitions s b = Some r \<and> phase r = Held" if "p = Some b" for b
    using assms(4) that by simp
  have up: "(a = ?n \<and> r = q) \<or> (a \<noteq> ?n \<and> acquisitions s a = Some r)" if "acquisitions t a = Some r" for a r
    using that t(1) by (simp split: if_splits)
  show ?thesis
  proof (rule nest_okI)
    fix a r b assume h: "acquisitions t a = Some r" "parent r = Some b"
    have ph: "\<exists>p. acquisitions s b = Some p \<and> phase p = Held"
      using up [OF h(1)] h(2) t(2) held nest_okD(2) [OF assms(1)] by metis
    then have bn: "b < ?n" using fresh by blast
    then show "b < a"
      using up [OF h(1)] nest_okD(1) [OF assms(1) _ h(2)] by metis
    show "\<exists>p. acquisitions t b = Some p \<and> phase p = Held" using ph bn t(1) by simp
    fix a' r' assume h': "acquisitions t a' = Some r'" "parent r' = Some b"
    show "a' = a"
      using up [OF h(1)] up [OF h'(1)] h(2) h'(2) t(2) other nest_okD(3) [OF assms(1)] by metis
  qed
qed (use assms in simp)

lemma nest_ok_running:
  assumes "nest_ok s" "acquisitions s a = Some q" "phase q \<noteq> Held"
  shows "nest_ok (moved s a q p h)"
  by (rule nest_ok_moved [OF assms(1,2) not_held_no_child [OF assms]])

lemma lock_step_nest:
  assumes "lock_step s t" "lock_inv s" "nest_ok s"
  shows "nest_ok t"
  using assms(1)
proof cases
  case (acquire p requests)
  then show ?thesis using nest_ok_acquire [OF assms(3)] assms(2) unfolding lock_inv_def by blast
next
  case (call a q i)
  show ?thesis
    unfolding call(1) set_phase_moved [OF call(2)]
    by (rule nest_ok_running [OF assms(3) call(2)]) (simp add: call(3))
next
  case (lock a q i e)
  show ?thesis
    unfolding lock(1) set_phase_moved [OF lock(2)]
    by (rule nest_ok_running [OF assms(3) lock(2)]) (simp add: lock(3))
next
  case (rlock a q i e)
  show ?thesis
    unfolding rlock(1) set_phase_moved [OF rlock(2)]
    by (rule nest_ok_running [OF assms(3) rlock(2)]) (simp add: rlock(3))
next
  case (unlock a q i e)
  show ?thesis
    unfolding unlock(1) set_phase_moved [OF unlock(2)]
    by (rule nest_ok_running [OF assms(3) unlock(2)]) (simp add: unlock(3))
next
  case (runlock a q i e)
  show ?thesis
    unfolding runlock(1) set_phase_moved [OF runlock(2)]
    by (rule nest_ok_running [OF assms(3) runlock(2)]) (simp add: runlock(3))
next
  case (release a q)
  show ?thesis
    unfolding release(1) set_phase_moved [OF release(2)]
    by (rule nest_ok_moved [OF assms(3) release(2) release(4)])
next
  case (finish a q)
  have "\<not> live_child s a" using not_held_no_child [OF assms(3) finish(2)] finish(3) by simp
  then show ?thesis
    unfolding finish(1) by (rule nest_ok_remove [OF assms(3)]) (simp add: with_manager_def)
qed

lemma reachable_nest: "lock_reachable s \<Longrightarrow> nest_ok s"
proof (induction rule: lock_reachable.induct)
  case start
  then show ?case by (simp add: nest_ok_def New_def)
next
  case (step s t)
  then show ?case using lock_step_nest reachable_inv by blast
qed


text \<open>
  What is left to do for an acquisition whose critical section is over: the lock calls still
  to make, the unlocks, and leaving the table.
\<close>

definition remaining :: "acquisition \<Rightarrow> nat" where
  "remaining q = (let n = length (normalized q) in
     case phase q of Calling i \<Rightarrow> n + 3 + 2 * (n - i) | Waiting i \<Rightarrow> n + 2 + 2 * (n - i)
     | Held \<Rightarrow> n + 2 | Unlocking i \<Rightarrow> i + 1)"

definition work :: "lock_system \<Rightarrow> nat" where
  "work s = (\<Sum>a\<in>dom (acquisitions s). remaining (the (acquisitions s a)))"

text \<open>A step that starts nothing new and leaves less work.\<close>

definition advances :: "lock_system \<Rightarrow> lock_system \<Rightarrow> bool" where
  "advances s t \<longleftrightarrow> lock_step s t \<and> work t < work s \<and>
     (\<forall>a q'. acquisitions t a = Some q' \<longrightarrow>
       (\<exists>q. acquisitions s a = Some q \<and> normalized q = normalized q' \<and> parent q = parent q'))"

lemma work_remove:
  assumes "structure_ok s" "acquisitions s a = Some q"
  shows "work s = remaining q + (\<Sum>b\<in>dom (acquisitions s) - {a}. remaining (the (acquisitions s b)))"
  using assms sum.remove [of "dom (acquisitions s)" a "\<lambda>b. remaining (the (acquisitions s b))"]
  by (auto simp: work_def structure_ok_def)

lemma work_moved:
  assumes "structure_ok s" "acquisitions s a = Some q" "remaining (q\<lparr>phase := p\<rparr>) < remaining q"
  shows "work (moved s a q p h) < work s"
proof -
  let ?t = "moved s a q p h"
  have dom: "dom (acquisitions ?t) = dom (acquisitions s)" using assms(2) by auto
  have "work ?t = remaining (q\<lparr>phase := p\<rparr>)
      + (\<Sum>b\<in>dom (acquisitions s) - {a}. remaining (the (acquisitions ?t b)))"
    using sum.remove [of "dom (acquisitions s)" a "\<lambda>b. remaining (the (acquisitions ?t b))"] assms(1,2)
    unfolding work_def dom by (auto simp: structure_ok_def)
  moreover have "(\<Sum>b\<in>dom (acquisitions s) - {a}. remaining (the (acquisitions ?t b)))
      = (\<Sum>b\<in>dom (acquisitions s) - {a}. remaining (the (acquisitions s b)))"
    by (rule sum.cong) auto
  ultimately show ?thesis using work_remove [OF assms(1,2)] assms(3) by simp
qed

lemma advances_moved:
  assumes "lock_inv s" "acquisitions s a = Some q" "lock_step s (moved s a q p h)"
    "remaining (q\<lparr>phase := p\<rparr>) < remaining q"
  shows "advances s (moved s a q p h)"
  using assms work_moved [of s a q p h] by (simp add: advances_def lock_inv_def)

lemma advances_finish:
  assumes "lock_inv s" "acquisitions s a = Some q" "phase q = Unlocking 0"
  shows "\<exists>t. advances s t"
proof -
  have ok: "structure_ok s" using assms(1) by (simp add: lock_inv_def)
  define t where "t = with_manager (deregister_all (truncated s) (normalized q) (entries q))
       ((acquisitions s)(a := None)) (next_acquisition s)"
  have t: "acquisitions t = (acquisitions s)(a := None)" by (simp add: t_def with_manager_def)
  have "work t = (\<Sum>b\<in>dom (acquisitions s) - {a}. remaining (the (acquisitions s b)))"
    unfolding work_def t by (rule sum.cong) auto
  moreover have "0 < remaining q" using assms(3) by (simp add: remaining_def)
  ultimately have "work t < work s" using work_remove [OF ok assms(2)] by simp
  moreover have "lock_step s t" unfolding t_def by (rule lock_step.finish [OF assms(2,3)])
  ultimately show ?thesis unfolding advances_def t by (intro exI [of _ t]) (auto simp: t split: if_splits)
qed

text \<open>An acquisition that is not waiting, and has nothing nested in it, can take its next step.\<close>

lemma can_advance:
  assumes inv: "lock_inv s" and a: "acquisitions s a = Some q"
    and w: "\<And>i. phase q \<noteq> Waiting i" and c: "phase q = Held \<Longrightarrow> \<not> live_child s a"
  shows "\<exists>t. advances s t"
proof (cases "phase q")
  case (Calling i)
  show ?thesis
    using advances_moved [OF inv a, of "Waiting i" "heap s"] lock_step.call [OF a Calling]
    by (auto simp: set_phase_moved [OF a] remaining_def Calling Let_def)
next
  case Held
  show ?thesis
    using advances_moved [OF inv a, of "Unlocking (length (normalized q))" "heap s"]
      lock_step.release [OF a Held c [OF Held]]
    by (auto simp: set_phase_moved [OF a] remaining_def Held)
next
  case (Unlocking i)
  show ?thesis
  proof (cases i)
    case 0
    with Unlocking show ?thesis using advances_finish [OF inv a] by simp
  next
    case (Suc j)
    note ph = Unlocking [unfolded Suc]
    define e where "e = entries q ! j"
    define v where "v = (if LockMode (normalized q ! j) = Exclusive then (heap s e)\<lparr>writer := None\<rparr>
       else (heap s e)\<lparr>readers := readers (heap s e) - {a}\<rparr>)"
    have "lock_step s (moved s a q (Unlocking j) ((heap s)(e := v)))"
      using lock_step.unlock [OF a ph _ e_def] lock_step.runlock [OF a ph _ e_def]
      by (cases "LockMode (normalized q ! j) = Exclusive") (simp_all add: set_phase_moved [OF a] v_def)
    moreover have "remaining (q\<lparr>phase := Unlocking j\<rparr>) < remaining q" by (simp add: remaining_def ph)
    ultimately show ?thesis using advances_moved [OF inv a] by blast
  qed
qed (use w in blast)


text \<open>A waiting acquisition can take its lock once nobody holds it.\<close>

lemma free_advance:
  assumes inv: "lock_inv s" and a: "acquisitions s a = Some q" and ph: "phase q = Waiting i"
    and free: "\<And>b x. \<not> holds s b (entries q ! i) x"
  shows "\<exists>t. advances s t"
proof -
  have ok: "structure_ok s" "holders_ok s" using inv by (auto simp: lock_inv_def)
  note g = grant_phase [OF structure_acq(1) [OF ok(1) a] ph]
  define e where "e = entries q ! i"
  have e: "e < next_entry s" unfolding e_def by (rule linked_entry_less [OF ok(1) a g(4)])
  have n: "writer (heap s e) = None" "readers (heap s e) = {}"
    using holders_okD(1,2) [OF ok(2) e] free unfolding e_def by auto
  define v where "v = (if LockMode (normalized q ! i) = Exclusive then (heap s e)\<lparr>writer := Some a\<rparr>
     else (heap s e)\<lparr>readers := insert a (readers (heap s e))\<rparr>)"
  have "lock_step s (moved s a q (after_grant q i) ((heap s)(e := v)))"
    using lock_step.lock [OF a ph _ e_def n] lock_step.rlock [OF a ph _ e_def n(1)] n(2)
    by (cases "LockMode (normalized q ! i) = Exclusive") (simp_all add: set_phase_moved [OF a] v_def)
  moreover have "remaining (q\<lparr>phase := after_grant q i\<rparr>) < remaining q"
    using g(4) by (auto simp: remaining_def after_grant_def ph Let_def)
  ultimately show ?thesis using advances_moved [OF inv a] by blast
qed

text \<open>The innermost acquisition of a goroutine: its keys come after those of the outer ones.\<close>

lemma innermost:
  assumes "lock_inv s" "nest_ok s" "ordered_nesting s"
  shows "acquisitions s b = Some p \<Longrightarrow>
    \<exists>c r. acquisitions s c = Some r \<and> \<not> live_child s c \<and>
      (c = b \<or> (\<forall>k\<in>keys p. \<forall>k'\<in>keys r. k < k'))"
proof (induction "next_acquisition s - b" arbitrary: b p rule: less_induct)
  case less
  have ok: "structure_ok s" using assms(1) by (simp add: lock_inv_def)
  show ?case
  proof (cases "live_child s b")
    case False
    with less.prems show ?thesis by blast
  next
    case True
    then obtain a q where a: "acquisitions s a = Some q" "parent q = Some b"
      by (auto simp: live_child_def)
    have ab: "b < a" "a < next_acquisition s"
      using nest_okD(1) [OF assms(2) a] structure_acq(3) [OF ok a(1)] by auto
    then have smaller: "next_acquisition s - a < next_acquisition s - b" by simp
    have lt: "k < k'" if "k \<in> keys p" "k' \<in> keys q" for k k'
      using assms(3) a less.prems that unfolding ordered_nesting_def by blast
    obtain c r where c: "acquisitions s c = Some r" "\<not> live_child s c"
      "c = a \<or> (\<forall>k\<in>keys q. \<forall>k'\<in>keys r. k < k')"
      using less.hyps [OF _ a(1)] smaller by blast
    have "normalized q \<noteq> []" using structure_acq(1) [OF ok a(1)] by (simp add: shape_ok_def)
    then obtain m where m: "m \<in> keys q" unfolding keys_def by (cases "normalized q") auto
    have "k < k'" if h: "k \<in> keys p" "k' \<in> keys r" for k k'
    proof (cases "c = a")
      case True
      then show ?thesis using c(1) a(1) lt h by simp
    next
      case False
      then have "m < k'" using c(3) m h(2) by blast
      with lt [OF h(1) m] show ?thesis by (rule order_less_trans)
    qed
    with c(1,2) show ?thesis by blast
  qed
qed

text \<open>
  Whoever holds the lock a waiting acquisition needs is not itself waiting further down the
  key order, or else that one waits for a later key.
\<close>

lemma holder_advance:
  assumes inv: "lock_inv s" and nest: "nest_ok s" "ordered_nesting s"
    and a: "acquisitions s a = Some q" "phase q = Waiting i"
    and max: "\<And>c r j. acquisitions s c = Some r \<Longrightarrow> phase r = Waiting j \<Longrightarrow>
       LockKey (normalized r ! j) \<le> LockKey (normalized q ! i)"
    and b: "holds s b (entries q ! i) x"
  shows "\<exists>t. advances s t"
proof -
  have ok: "structure_ok s" using inv by (simp add: lock_inv_def)
  note ga = grant_phase [OF structure_acq(1) [OF ok a(1)] a(2)]
  let ?k = "LockKey (normalized q ! i)"
  obtain p j where p: "acquisitions s b = Some p" "j < held_upto p" "entries p ! j = entries q ! i"
    using b by (auto simp: holds_def)
  note sp = structure_acq [OF ok p(1)]
  have j: "j < length (normalized p)"
    using p(2) held_upto_le sp(1) unfolding shape_ok_def by (metis order_less_le_trans)
  have "locks s (LockKey (normalized p ! j)) = Some (entries q ! i)"
    using sp(2) j p(3) by (simp add: linked_def)
  moreover have "locks s ?k = Some (entries q ! i)"
    using structure_acq(2) [OF ok a(1)] ga(4) by (simp add: linked_def)
  ultimately have kj: "LockKey (normalized p ! j) = ?k" using manager_inj [OF ok] by blast
  then have kp: "?k \<in> keys p" using j unfolding keys_def by (metis imageI nth_mem)
  obtain c r where c: "acquisitions s c = Some r" "\<not> live_child s c"
    "c = b \<or> (\<forall>k\<in>keys p. \<forall>k'\<in>keys r. k < k')"
    using innermost [OF inv nest p(1)] by blast
  have "phase r \<noteq> Waiting l" for l
  proof
    assume ph: "phase r = Waiting l"
    note gr = grant_phase [OF structure_acq(1) [OF ok c(1)] ph]
    have "?k < LockKey (normalized r ! l)"
    proof (cases "c = b")
      case True
      then have r: "r = p" using c(1) p(1) by simp
      then have "j < l" using p(2) gr(3) by simp
      moreover have "sorted_wrt (<) (map LockKey (normalized p))" using sp(1) by (simp add: shape_ok_def)
      ultimately have "LockKey (normalized p ! j) < LockKey (normalized p ! l)"
        using gr(4) r sorted_wrt_nth_less [of "(<)" "map LockKey (normalized p)" j l] by simp
      with kj r show ?thesis by simp
    next
      case False
      moreover have "LockKey (normalized r ! l) \<in> keys r"
        unfolding keys_def using gr(4) by (metis imageI nth_mem)
      ultimately show ?thesis using c(3) kp by blast
    qed
    with max [OF c(1) ph] show False by simp
  qed
  then show ?thesis using can_advance [OF inv c(1) _ c(2)] by blast
qed

lemma some_advance:
  assumes inv: "lock_inv s" and nest: "nest_ok s" "ordered_nesting s" and "acquisitions s \<noteq> Map.empty"
  shows "\<exists>t. advances s t"
proof -
  have ok: "structure_ok s" using inv by (simp add: lock_inv_def)
  define W where "W = {a \<in> dom (acquisitions s). \<exists>i. phase (the (acquisitions s a)) = Waiting i}"
  define wk where "wk a = (case acquisitions s a of Some q \<Rightarrow>
     (case phase q of Waiting i \<Rightarrow> LockKey (normalized q ! i) | _ \<Rightarrow> []) | None \<Rightarrow> [])" for a
  have fin: "finite W" using ok by (simp add: W_def structure_ok_def)
  show ?thesis
  proof (cases "W = {}")
    case True
    obtain b p where "acquisitions s b = Some p" using assms(4) by fastforce
    then obtain c r where c: "acquisitions s c = Some r" "\<not> live_child s c"
      using innermost [OF inv nest] by blast
    then have "phase r \<noteq> Waiting i" for i using True by (auto simp: W_def)
    then show ?thesis using can_advance [OF inv c(1) _ c(2)] by blast
  next
    case False
    obtain a where a: "a \<in> W" "\<And>c. c \<in> W \<Longrightarrow> wk c \<le> wk a"
      using obtains_MAX [OF fin False, of wk] fin by (metis Max_ge finite_imageI imageI)
    then obtain q i where q: "acquisitions s a = Some q" "phase q = Waiting i" by (auto simp: W_def)
    have max: "LockKey (normalized r ! j) \<le> LockKey (normalized q ! i)"
      if "acquisitions s c = Some r" "phase r = Waiting j" for c r j
    proof -
      have "c \<in> W" using that by (auto simp: W_def)
      then have "wk c \<le> wk a" by (rule a(2))
      then show ?thesis using that q by (simp add: wk_def)
    qed
    show ?thesis
    proof (cases "\<exists>b x. holds s b (entries q ! i) x")
      case True
      then show ?thesis using holder_advance [OF inv nest q] max by blast
    next
      case False
      then show ?thesis using free_advance [OF inv q] by blast
    qed
  qed
qed

lemma advances_ordered:
  assumes "advances s t" "ordered_nesting s"
  shows "ordered_nesting t"
  unfolding ordered_nesting_def
proof (intro allI impI ballI)
  fix a q b p k k'
  assume h: "acquisitions t a = Some q" "parent q = Some b" "acquisitions t b = Some p"
    "k \<in> keys p" "k' \<in> keys q"
  have up: "\<exists>q0. acquisitions s c = Some q0 \<and> normalized q0 = normalized r \<and> parent q0 = parent r"
    if "acquisitions t c = Some r" for c r using assms(1) that by (auto simp: advances_def)
  obtain q0 where q0: "acquisitions s a = Some q0" "normalized q0 = normalized q" "parent q0 = parent q"
    using up [OF h(1)] by blast
  obtain p0 where p0: "acquisitions s b = Some p0" "normalized p0 = normalized p"
    using up [OF h(3)] by blast
  have "k \<in> keys p0" "k' \<in> keys q0" using h(4,5) q0(2) p0(2) by (simp_all add: keys_def)
  then show "k < k'"
    using assms(2) q0(1,3) p0(1) h(2) unfolding ordered_nesting_def by metis
qed

lemma drain:
  assumes "lock_inv s" "nest_ok s" "ordered_nesting s"
  shows "\<exists>t. advances\<^sup>*\<^sup>* s t \<and> acquisitions t = Map.empty \<and> lock_inv t"
  using assms
proof (induction "work s" arbitrary: s rule: less_induct)
  case less
  show ?case
  proof (cases "acquisitions s = Map.empty")
    case True
    with less.prems show ?thesis by blast
  next
    case False
    obtain u where u: "advances s u" using some_advance [OF less.prems False] by blast
    then have "lock_step s u" "work u < work s" by (auto simp: advances_def)
    then obtain t where "advances\<^sup>*\<^sup>* u t" "acquisitions t = Map.empty" "lock_inv t"
      using less.hyps [of u] lock_step_inv lock_step_nest advances_ordered [OF u] less.prems by blast
    with u show ?thesis by (meson converse_rtranclp_into_rtranclp)
  qed
qed

lemma idle_locks:
  assumes "lock_inv s" "acquisitions s = Map.empty"
  shows "locks s = Map.empty"
proof
  fix k
  have "locks s k \<noteq> Some e" for e
    using assms by (auto simp: lock_inv_def refs_ok_def users_def)
  then show "locks s k = None" by (cases "locks s k") auto
qed


text \<open>The acquisitions that asked for a key are those registered with its entry.\<close>

definition wanting :: "lock_system \<Rightarrow> string \<Rightarrow> nat set" where
  "wanting s k = {a. \<exists>q. acquisitions s a = Some q \<and> k \<in> keys q}"

lemma users_wanting:
  assumes "structure_ok s" "locks s k = Some e"
  shows "users s e = wanting s k"
proof -
  have "e \<in> set (entries q) \<longleftrightarrow> k \<in> keys q" if "acquisitions s a = Some q" for a q
  proof -
    note sq = structure_acq [OF assms(1) that]
    have len: "length (entries q) = length (normalized q)" using sq(1) by (simp add: shape_ok_def)
    show ?thesis
    proof
      assume "e \<in> set (entries q)"
      then obtain i where i: "i < length (normalized q)" "locks s (LockKey (normalized q ! i)) = Some e"
        using linked_entries [OF sq(2) len] by blast
      then have "LockKey (normalized q ! i) = k" using manager_inj [OF assms(1)] assms(2) by blast
      with i(1) show "k \<in> keys q" by (auto simp: keys_def)
    next
      assume "k \<in> keys q"
      then obtain i where i: "i < length (normalized q)" "LockKey (normalized q ! i) = k"
        by (auto simp: keys_def in_set_conv_nth)
      then have "entries q ! i = e" using sq(2) assms(2) by (auto simp: linked_def)
      with i len show "e \<in> set (entries q)" by (metis nth_mem)
    qed
  qed
  then show ?thesis unfolding users_def wanting_def by blast
qed

section \<open>Two readers of one key\<close>

text \<open>A reachable state: two goroutines hold the same key shared.\<close>

definition reader :: "phase \<Rightarrow> acquisition" where
  "reader p = \<lparr>normalized = [\<lparr>LockKey = ''k'', LockMode = Shared\<rparr>], entries = [0], parent = None, phase = p\<rparr>"

definition readers_state :: "nat set \<Rightarrow> phase \<Rightarrow> phase \<Rightarrow> lock_system" where
  "readers_state rs p0 p1 =
     \<lparr>locks = [''k'' \<mapsto> 0],
      heap = (\<lambda>_. \<lparr>writer = None, readers = {}, refs = 0\<rparr>)(0 := \<lparr>writer = None, readers = rs, refs = 2\<rparr>),
      next_entry = 1, acquisitions = [0 \<mapsto> reader p0, Suc 0 \<mapsto> reader p1], next_acquisition = 2\<rparr>"

lemma two_readers_registered: "lock_reachable (readers_state {} (Calling 0) (Calling 0))"
proof -
  let ?r = "\<lparr>LockKey = ''k'', LockMode = Shared\<rparr>"
  define s1 :: lock_system where "s1 = \<lparr>locks = [''k'' \<mapsto> 0],
      heap = (\<lambda>_. \<lparr>writer = None, readers = {}, refs = 0\<rparr>)(0 := \<lparr>writer = None, readers = {}, refs = 1\<rparr>),
      next_entry = 1, acquisitions = [0 \<mapsto> reader (Calling 0)], next_acquisition = 1\<rparr>"
  have n: "normalizeRequests [?r] = Inr [?r]" by (simp add: normalizeRequests_def)
  have "begin_acquire New None [?r] = Inr s1"
    by (simp add: begin_acquire_def n New_def register_def truncated_def with_manager_def s1_def reader_def)
  then have 1: "lock_step New s1" by (rule lock_step.acquire) simp
  have "begin_acquire s1 None [?r] = Inr (readers_state {} (Calling 0) (Calling 0))"
    by (simp add: begin_acquire_def n register_def truncated_def with_manager_def readers_state_def
        s1_def reader_def)
  then have "lock_step s1 (readers_state {} (Calling 0) (Calling 0))" by (rule lock_step.acquire) simp
  with 1 show ?thesis using lock_reachable.intros by blast
qed

lemma two_readers_reachable: "lock_reachable (readers_state {0, 1} Held Held)"
proof -
  let ?s = readers_state
  have "lock_step (?s {} (Calling 0) (Calling 0)) (?s {} (Waiting 0) (Calling 0))"
    using lock_step.call [of "?s {} (Calling 0) (Calling 0)" 0 "reader (Calling 0)" 0]
    by (simp add: readers_state_def reader_def set_phase_def fun_upd_twist)
  moreover have "lock_step (?s {} (Waiting 0) (Calling 0)) (?s {0} Held (Calling 0))"
    using lock_step.rlock [of "?s {} (Waiting 0) (Calling 0)" 0 "reader (Waiting 0)" 0 0]
    by (simp add: readers_state_def reader_def set_phase_def set_entry_def after_grant_def fun_upd_twist)
  moreover have "lock_step (?s {0} Held (Calling 0)) (?s {0} Held (Waiting 0))"
    using lock_step.call [of "?s {0} Held (Calling 0)" 1 "reader (Calling 0)" 0]
    by (simp add: readers_state_def reader_def set_phase_def)
  moreover have "lock_step (?s {0} Held (Waiting 0)) (?s {0, 1} Held Held)"
  proof -
    have "\<not> writer_waiting (?s {0} Held (Waiting 0)) 0"
      by (auto simp: writer_waiting_def readers_state_def reader_def split: if_splits)
    then show ?thesis
      using lock_step.rlock [of "?s {0} Held (Waiting 0)" 1 "reader (Waiting 0)" 0 0]
      by (simp add: readers_state_def reader_def set_phase_def set_entry_def after_grant_def insert_commute)
  qed
  ultimately show ?thesis using two_readers_registered lock_reachable.step by metis
qed

section \<open>Properties\<close>

text \<open>
  Property C1. Mutual exclusion: in every reachable state, two acquisitions that hold the lock
  of the same key at the same time both hold it shared.
\<close>

theorem locks_exclude:
  assumes "lock_reachable s" "acquisitions s a = Some q" "acquisitions s b = Some r" "a \<noteq> b"
    "i < held_upto q" "j < held_upto r" "LockKey (normalized q ! i) = LockKey (normalized r ! j)"
  shows "LockMode (normalized q ! i) \<noteq> Exclusive \<and> LockMode (normalized r ! j) \<noteq> Exclusive"
proof -
  have ok: "structure_ok s" "holders_ok s" using reachable_inv [OF assms(1)] by (auto simp: lock_inv_def)
  note sq = structure_acq [OF ok(1) assms(2)] and sr = structure_acq [OF ok(1) assms(3)]
  have i: "i < length (normalized q)" and j: "j < length (normalized r)"
    using assms(5,6) held_upto_le sq(1) sr(1) unfolding shape_ok_def by (metis order_less_le_trans)+
  have e: "entries q ! i = entries r ! j"
    using sq(2) sr(2) i j assms(7) unfolding linked_def by (metis option.inject)
  define v where "v = entries q ! i"
  have less: "v < next_entry s" unfolding v_def by (rule linked_entry_less [OF ok(1) assms(2) i])
  have hq: "holds s a v (LockMode (normalized q ! i) = Exclusive)"
    unfolding holds_self [OF assms(2)] v_def using assms(5) by blast
  have hr: "holds s b v (LockMode (normalized r ! j) = Exclusive)"
    unfolding holds_self [OF assms(3)] v_def e using assms(6) by blast
  note D = holders_okD [OF ok(2) less]
  have one: "\<not> (holds s a v True \<and> holds s b v x)" "\<not> (holds s a v x \<and> holds s b v True)" for x
    using D(1) [of a] D(1) [of b] D(2) [of a] D(2) [of b] D(3) assms(4) by (cases x; auto)+
  show ?thesis using one hq hr by (metis (full_types))
qed

theorem locks_exclude_witness:
  "LockMode (normalized (reader Held) ! 0) \<noteq> Exclusive"
  using locks_exclude [OF two_readers_reachable, of 0 "reader Held" 1 "reader Held" 0 0]
  by (simp add: readers_state_def held_upto_def reader_def)

text \<open>
  Property C20. The lock table is exact: in every reachable state a key is in the manager's map
  exactly while some live acquisition asked for it, and its entry counts these acquisitions.
  Released keys leave nothing behind.
\<close>

theorem lock_table_exact:
  assumes "lock_reachable s"
  shows "(locks s k = None \<longleftrightarrow> wanting s k = {}) \<and>
    (\<forall>e. locks s k = Some e \<longrightarrow> refs (heap s e) = int (card (wanting s k)))"
proof -
  have ok: "structure_ok s" "refs_ok s" using reachable_inv [OF assms] by (auto simp: lock_inv_def)
  have "wanting s k \<noteq> {}" "refs (heap s e) = int (card (wanting s k))" if "locks s k = Some e" for e
    using ok(2) that users_wanting [OF ok(1) that] by (auto simp: refs_ok_def)
  moreover have "locks s k \<noteq> None" if w: "wanting s k \<noteq> {}"
  proof -
    obtain a q i where "acquisitions s a = Some q" "i < length (normalized q)" "LockKey (normalized q ! i) = k"
      using w by (auto simp: wanting_def keys_def in_set_conv_nth)
    then show ?thesis using structure_acq(2) [OF ok(1)] by (auto simp: linked_def)
  qed
  ultimately show ?thesis by fastforce
qed

theorem lock_table_exact_witness:
  "refs (heap (readers_state {0, 1} Held Held) 0) =
     int (card (wanting (readers_state {0, 1} Held Held) ''k''))"
  using lock_table_exact [OF two_readers_reachable, of "''k''"] by (simp add: readers_state_def)

text \<open>
  Property C17. No deadlock: from every reachable state in which nested acquisitions ask for
  later keys than the ones they are nested in, the goroutines can run on, without any new
  acquisition and with less work left after each step, until every lock is released and the
  table is empty.
\<close>

theorem locks_drain:
  assumes "lock_reachable s" "ordered_nesting s"
  shows "\<exists>t. advances\<^sup>*\<^sup>* s t \<and> acquisitions t = Map.empty \<and> locks t = Map.empty"
  using drain [OF reachable_inv [OF assms(1)] reachable_nest [OF assms(1)] assms(2)] idle_locks by blast

theorem locks_drain_witness:
  "\<exists>t. advances\<^sup>*\<^sup>* (readers_state {0, 1} Held Held) t \<and> acquisitions t = Map.empty \<and>
     locks t = Map.empty"
proof (rule locks_drain [OF two_readers_reachable])
  show "ordered_nesting (readers_state {0, 1} Held Held)"
    by (auto simp: ordered_nesting_def readers_state_def reader_def split: if_splits)
qed

end
