(* ===== verification/Limiter.thy ===== *)
theory Limiter
  imports Prelude "HOL-Library.AList"
begin

text \<open>
  The authentication attempt limiter, \<^verbatim>\<open>src/internal/auth/limit.go\<close>: per-user and per-address
  admission with exponential backoff, the request context that carries the client address and
  the recorded rate limit, and the pool of key-derivation slots. The limiter's map is an
  association list with distinct keys (its order is never observed). The lemmas show that the
  backoff is the exact capped doubling, that reservations are counted exactly whatever the
  interleaving, that capacity and table size stay bounded, and when an attempt is admitted.
\<close>

section \<open>State\<close>

definition ErrRateLimited :: goerror where
  "ErrRateLimited = Sentinel ''authentication rate limit exceeded''"

text \<open>\<^verbatim>\<open>errors.As\<close> against the rate-limit error.\<close>

fun as_rate_limit :: "goerror \<Rightarrow> int option" where
  "as_rate_limit (RateLimit d) = Some d"
| "as_rate_limit (Wrap _ e) = as_rate_limit e"
| "as_rate_limit (InvalidRecord e) = as_rate_limit e"
| "as_rate_limit (JoinErr a b) =
     (case as_rate_limit a of Some d \<Rightarrow> Some d | None \<Rightarrow> as_rate_limit b)"
| "as_rate_limit _ = None"

definition RetryAfter :: "goerror \<Rightarrow> int" where
  "RetryAfter err = (case as_rate_limit err of
     Some d \<Rightarrow> if d > 0 then d else second | None \<Rightarrow> second)"

record attempt_limiter_options =
  MaximumConcurrent :: int
  FailureThreshold :: int
  InitialBackoff :: int
  MaximumBackoff :: int

record attempt_state =
  failures :: int
  inFlight :: int
  retryAt :: int
  lastAccess :: int

datatype attempt_outcome = attemptAborted | attemptFailed | attemptSucceeded

record attempt_limiter =
  states :: "(string \<times> attempt_state) list"
  maximumConcurrent :: int
  failureThreshold :: int
  initialBackoff :: int
  maximumBackoff :: int
  retention :: int
  maximumStates :: int
  nextSweep :: int

definition NewAttemptLimiter :: "attempt_limiter_options \<Rightarrow> attempt_limiter" where
  "NewAttemptLimiter options =
     (let maximumConcurrent = (if MaximumConcurrent options \<le> 0 then 4 else MaximumConcurrent options);
          failureThreshold = (if FailureThreshold options \<le> 0 then 5 else FailureThreshold options);
          initialBackoff = (if InitialBackoff options \<le> 0 then second else InitialBackoff options);
          maximumBackoff = (if MaximumBackoff options < initialBackoff
            then (if 60 * second < initialBackoff then initialBackoff else 60 * second)
            else MaximumBackoff options)
      in \<lparr>states = [], maximumConcurrent = maximumConcurrent, failureThreshold = failureThreshold,
          initialBackoff = initialBackoff, maximumBackoff = maximumBackoff,
          retention = 15 * 60 * second, maximumStates = 100000, nextSweep = 0\<rparr>)"

section \<open>Request context\<close>

record request_auth_context =
  clientIP :: string
  retry :: int

text \<open>
  \<^verbatim>\<open>net.SplitHostPort\<close>, the host part only: the last colon separates the port, a host in
  square brackets may contain colons, and stray brackets are refused.
\<close>

definition IndexByte :: "string \<Rightarrow> char \<Rightarrow> nat option" where
  "IndexByte s c = (if c \<in> set s then Some (length (takeWhile (\<lambda>x. x \<noteq> c) s)) else None)"

definition SplitHost :: "string \<Rightarrow> string option" where
  "SplitHost hostport =
     (case LastIndex hostport '':'' of
        None \<Rightarrow> None
      | Some i \<Rightarrow>
          if hd hostport = CHR ''[''
          then (case IndexByte hostport (CHR '']'') of
                  None \<Rightarrow> None
                | Some close \<Rightarrow>
                    if close + 1 \<noteq> i then None
                    else if CHR ''['' \<in> set (drop 1 hostport) \<or> CHR '']'' \<in> set (drop (close + 1) hostport)
                    then None
                    else Some (drop 1 (take close hostport)))
          else let host = take i hostport in
            if CHR '':'' \<in> set host then None
            else if CHR ''['' \<in> set hostport \<or> CHR '']'' \<in> set hostport then None
            else Some host)"

definition TrimBrackets :: "string \<Rightarrow> string" where
  "TrimBrackets s =
     (let b = (\<lambda>x. x = CHR ''['' \<or> x = CHR '']'')
      in rev (dropWhile b (rev (dropWhile b s))))"

text \<open>\<open>parse_ip\<close> stands for \<^verbatim>\<open>net.ParseIP\<close> followed by \<^verbatim>\<open>String\<close>.\<close>

definition WithClientIP :: "(string \<Rightarrow> string option) \<Rightarrow> string \<Rightarrow> request_auth_context" where
  "WithClientIP parse_ip remoteAddress =
     (let host = (case SplitHost remoteAddress of None \<Rightarrow> TrimBrackets remoteAddress | Some h \<Rightarrow> h)
      in \<lparr>clientIP = (case parse_ip host of Some ip \<Rightarrow> ip | None \<Rightarrow> host), retry = 0\<rparr>)"

definition ClientIP :: "request_auth_context option \<Rightarrow> string" where
  "ClientIP ctx = (case ctx of None \<Rightarrow> [] | Some info \<Rightarrow> clientIP info)"

definition MarkRequestRateLimited ::
    "request_auth_context option \<Rightarrow> goerror \<Rightarrow> request_auth_context option" where
  "MarkRequestRateLimited ctx err =
     (if \<not> errors_is err ErrRateLimited then ctx
      else case ctx of None \<Rightarrow> None
        | Some info \<Rightarrow> Some (info\<lparr>retry := max (retry info) (RetryAfter err)\<rparr>))"

definition RequestRateLimit :: "request_auth_context option \<Rightarrow> int \<times> bool" where
  "RequestRateLimit ctx =
     (case ctx of None \<Rightarrow> (0, False) | Some info \<Rightarrow> (retry info, retry info > 0))"

section \<open>Admission\<close>

definition sweepLocked :: "int \<Rightarrow> attempt_limiter \<Rightarrow> attempt_limiter" where
  "sweepLocked now l =
     (if nextSweep l \<noteq> 0 \<and> now < nextSweep l then l
      else let expiredBefore = now - retention l in
        l\<lparr>states := filter (\<lambda>(key, state). \<not> (inFlight state = 0 \<and> lastAccess state < expiredBefore)) (states l),
          nextSweep := now + 60 * second\<rparr>)"

fun trackedKeysLoop ::
    "int \<Rightarrow> string list \<Rightarrow> string list \<Rightarrow> attempt_limiter \<Rightarrow> attempt_limiter \<times> string list" where
  "trackedKeysLoop now [] tracked l = (l, tracked)"
| "trackedKeysLoop now (k # ks) tracked l =
     (let key = (if map_of (states l) k = None \<and> int (length (states l)) \<ge> maximumStates l
                 then ''overflow'' else k)
      in if key \<in> set tracked then trackedKeysLoop now ks tracked l
         else trackedKeysLoop now ks (tracked @ [key])
           (if map_of (states l) key = None
            then l\<lparr>states := AList.update key
                   \<lparr>failures = 0, inFlight = 0, retryAt = 0, lastAccess = now\<rparr> (states l)\<rparr>
            else l))"

definition trackedKeysLocked :: "string list \<Rightarrow> int \<Rightarrow> attempt_limiter \<Rightarrow> attempt_limiter \<times> string list" where
  "trackedKeysLocked keys now l = trackedKeysLoop now keys [] l"

definition touch :: "int \<Rightarrow> string \<Rightarrow> attempt_limiter \<Rightarrow> attempt_limiter" where
  "touch now key l = l\<lparr>states := AList.map_entry key (\<lambda>s. s\<lparr>lastAccess := now\<rparr>) (states l)\<rparr>"

text \<open>The loop that computes how long the attempt has to wait.\<close>

fun admission :: "int \<Rightarrow> string list \<Rightarrow> int \<Rightarrow> attempt_limiter \<Rightarrow> attempt_limiter \<times> int" where
  "admission now [] retryAfter l = (l, retryAfter)"
| "admission now (key # keys) retryAfter l =
     (case map_of (states l) key of
        None \<Rightarrow> admission now keys retryAfter l
      | Some state \<Rightarrow>
          let r1 = (if retryAt state > now then max retryAfter (Time_Sub (retryAt state) now) else retryAfter);
              r2 = (if inFlight state \<ge> maximumConcurrent l then max r1 (initialBackoff l) else r1)
          in admission now keys r2 (touch now key l))"

fun reserve :: "int \<Rightarrow> string list \<Rightarrow> attempt_limiter \<Rightarrow> attempt_limiter" where
  "reserve now [] l = l"
| "reserve now (key # keys) l = reserve now keys
     (l\<lparr>states := AList.map_entry key
        (\<lambda>s. s\<lparr>inFlight := wrap64 (inFlight s + 1), lastAccess := now\<rparr>) (states l)\<rparr>)"

definition attempt_keys :: "(string \<Rightarrow> string) \<Rightarrow> request_auth_context option \<Rightarrow> string \<Rightarrow> string list" where
  "attempt_keys lower ctx username =
     (''user:'' @ ToLower lower (TrimSpace username)) #
     (if ClientIP ctx \<noteq> [] then [''ip:'' @ ClientIP ctx] else [])"

text \<open>
  \<^verbatim>\<open>begin\<close>: the limiter after the call and either the rate-limit error or the reserved keys,
  which the completion function gives to \<open>finish\<close>.
\<close>

definition begin_attempt ::
    "(string \<Rightarrow> string) \<Rightarrow> request_auth_context option \<Rightarrow> string \<Rightarrow> int \<Rightarrow> attempt_limiter \<Rightarrow>
     attempt_limiter \<times> string list result" where
  "begin_attempt lower ctx username now l =
     (let (l1, keys) = trackedKeysLocked (attempt_keys lower ctx username) now (sweepLocked now l);
          (l2, retryAfter) = admission now keys 0 l1
      in if retryAfter > 0 then (l2, Inl (RateLimit retryAfter))
         else (reserve now keys l2, Inr keys))"

fun backoff_loop :: "nat \<Rightarrow> int \<Rightarrow> int \<Rightarrow> int" where
  "backoff_loop 0 maximum delay = min delay maximum"
| "backoff_loop (Suc remaining) maximum delay =
     (if delay \<ge> maximum \<or> delay > maximum div 2 then maximum
      else backoff_loop remaining maximum (wrap64 (delay * 2)))"

definition backoff :: "attempt_limiter \<Rightarrow> int \<Rightarrow> int" where
  "backoff l n =
     backoff_loop (nat (wrap64 (n - failureThreshold l))) (maximumBackoff l) (initialBackoff l)"

definition finish_state :: "attempt_limiter \<Rightarrow> int \<Rightarrow> attempt_outcome \<Rightarrow> attempt_state \<Rightarrow> attempt_state" where
  "finish_state l now outcome s =
     (let s1 = s\<lparr>inFlight := (if inFlight s > 0 then inFlight s - 1 else inFlight s), lastAccess := now\<rparr>
      in case outcome of
           attemptAborted \<Rightarrow> s1
         | attemptSucceeded \<Rightarrow> s1\<lparr>failures := 0, retryAt := 0\<rparr>
         | attemptFailed \<Rightarrow>
             let s2 = s1\<lparr>failures := wrap64 (failures s1 + 1)\<rparr>
             in if failures s2 \<ge> failureThreshold l
                then s2\<lparr>retryAt := now + backoff l (failures s2)\<rparr> else s2)"

fun finish :: "string list \<Rightarrow> attempt_outcome \<Rightarrow> int \<Rightarrow> attempt_limiter \<Rightarrow> attempt_limiter" where
  "finish [] outcome now l = l"
| "finish (key # keys) outcome now l =
     finish keys outcome now (l\<lparr>states := AList.map_entry key (finish_state l now outcome) (states l)\<rparr>)"

text \<open>The exported \<^verbatim>\<open>Begin\<close> completes with success or failure only.\<close>

definition Begin_outcome :: "bool \<Rightarrow> attempt_outcome" where
  "Begin_outcome success = (if success then attemptSucceeded else attemptFailed)"

section \<open>Key-derivation slots\<close>

record secret_kdf_limiter =
  slots :: nat
  capacity :: nat

definition newSecretKDFLimiter :: "int \<Rightarrow> secret_kdf_limiter" where
  "newSecretKDFLimiter maximum = \<lparr>slots = 0, capacity = nat (if maximum \<le> 0 then 1 else maximum)\<rparr>"

definition kdf_acquire :: "secret_kdf_limiter \<Rightarrow> secret_kdf_limiter result" where
  "kdf_acquire l = (if slots l < capacity l then Inr (l\<lparr>slots := slots l + 1\<rparr>)
     else Inl (RateLimit second))"

definition kdf_release :: "secret_kdf_limiter \<Rightarrow> secret_kdf_limiter" where
  "kdf_release l = l\<lparr>slots := slots l - 1\<rparr>"


section \<open>Backoff\<close>

definition config_ok :: "attempt_limiter \<Rightarrow> bool" where
  "config_ok l \<longleftrightarrow> 0 < maximumConcurrent l \<and> maximumConcurrent l < 2 ^ 63 \<and> 0 < failureThreshold l \<and>
     0 < initialBackoff l \<and> initialBackoff l \<le> maximumBackoff l \<and> maximumBackoff l < 2 ^ 63 \<and>
     0 \<le> maximumStates l"

lemma New_config_ok:
  "in_int64 (MaximumConcurrent opts) \<Longrightarrow> in_int64 (InitialBackoff opts) \<Longrightarrow>
   in_int64 (MaximumBackoff opts) \<Longrightarrow> config_ok (NewAttemptLimiter opts)"
  by (auto simp: config_ok_def NewAttemptLimiter_def Let_def in_int64_def)

lemma backoff_loop_eq:
  "0 < d \<Longrightarrow> d \<le> m \<Longrightarrow> m < 2 ^ 63 \<Longrightarrow> backoff_loop n m d = min (d * 2 ^ n) m"
proof (induction n arbitrary: d)
  case 0
  then show ?case by simp
next
  case (Suc n)
  have pow: "d * 2 \<le> d * 2 ^ Suc n" using Suc.prems(1) by simp
  show ?case
  proof (cases "d > m div 2")
    case True
    then have "m < d * 2" using Suc.prems by presburger
    with pow True show ?thesis by simp
  next
    case False
    then have le: "d * 2 \<le> m" by presburger
    then have w: "wrap64 (d * 2) = d * 2" using Suc.prems by (simp add: in_int64_def)
    have "backoff_loop n m (d * 2) = min (d * 2 * 2 ^ n) m"
      using Suc.IH [of "d * 2"] Suc.prems le by simp
    moreover have "\<not> (d \<ge> m \<or> d > m div 2)" using False le Suc.prems by auto
    ultimately show ?thesis by (simp add: w mult.assoc)
  qed
qed

lemma backoff_eq:
  assumes "config_ok l" "failureThreshold l \<le> n" "n < 2 ^ 63"
  shows "backoff l n = min (initialBackoff l * 2 ^ nat (n - failureThreshold l)) (maximumBackoff l)"
proof -
  have "in_int64 (n - failureThreshold l)" using assms by (auto simp: config_ok_def in_int64_def)
  then show ?thesis using assms backoff_loop_eq by (simp add: backoff_def config_ok_def)
qed

section \<open>What the loops do\<close>

text \<open>
  The operations change the table entry by entry. \<open>mapped ks f xs\<close> is the table in which the
  entries of \<open>ks\<close> went through \<open>f\<close>.
\<close>

fun mapped :: "string list \<Rightarrow> (attempt_state \<Rightarrow> attempt_state) \<Rightarrow>
    (string \<times> attempt_state) list \<Rightarrow> (string \<times> attempt_state) list" where
  "mapped [] f xs = xs"
| "mapped (k # ks) f xs = mapped ks f (AList.map_entry k f xs)"

lemma map_entry_keys [simp]: "map fst (AList.map_entry k f xs) = map fst xs"
  by (induction xs) auto

lemma mapped_keys [simp]: "map fst (mapped ks f xs) = map fst xs"
  by (induction ks arbitrary: xs) auto

lemma map_of_entry:
  "map_of (AList.map_entry k f xs) x = (if x = k then map_option f (map_of xs x) else map_of xs x)"
  by (induction xs) auto

lemma map_of_mapped:
  "distinct ks \<Longrightarrow> map_of (mapped ks f xs) x =
     (if x \<in> set ks then map_option f (map_of xs x) else map_of xs x)"
  by (induction ks arbitrary: xs) (auto simp: map_of_entry)

lemma map_entry_absent: "map_of xs k = None \<Longrightarrow> AList.map_entry k f xs = xs"
  by (induction xs) auto

lemma mapped_length [simp]: "length (mapped ks f xs) = length xs"
  by (metis length_map mapped_keys)

lemma reserve_eq:
  "reserve now ks l = l\<lparr>states := mapped ks
     (\<lambda>s. s\<lparr>inFlight := wrap64 (inFlight s + 1), lastAccess := now\<rparr>) (states l)\<rparr>"
  by (induction ks arbitrary: l) simp_all

lemma finish_state_states: "finish_state (l\<lparr>states := xs\<rparr>) = finish_state l"
  by (simp add: fun_eq_iff finish_state_def backoff_def Let_def split: attempt_outcome.splits)

lemma finish_eq:
  "finish ks oc now l = l\<lparr>states := mapped ks (finish_state l now oc) (states l)\<rparr>"
  by (induction ks arbitrary: l) (simp_all add: finish_state_states)

text \<open>How long one entry makes an attempt wait.\<close>

definition wait_time :: "attempt_limiter \<Rightarrow> int \<Rightarrow> attempt_state \<Rightarrow> int" where
  "wait_time l now s =
     max (if retryAt s > now then Time_Sub (retryAt s) now else 0)
         (if inFlight s \<ge> maximumConcurrent l then initialBackoff l else 0)"

definition wait_all :: "attempt_limiter \<Rightarrow> int \<Rightarrow> string list \<Rightarrow> int \<Rightarrow> int" where
  "wait_all l now ks r = fold (\<lambda>k r. case map_of (states l) k of None \<Rightarrow> r
     | Some s \<Rightarrow> max r (wait_time l now s)) ks r"

lemma wait_time_states [simp]: "wait_time (l\<lparr>states := xs\<rparr>) = wait_time l"
  by (simp add: fun_eq_iff wait_time_def)

lemma wait_time_touch [simp]: "wait_time l now (s\<lparr>lastAccess := t\<rparr>) = wait_time l now s"
  by (simp add: wait_time_def)

lemma wait_all_touch: "wait_all (touch t k l) now ks r = wait_all l now ks r"
  by (induction ks arbitrary: r)
    (auto simp: wait_all_def touch_def map_of_entry split: option.splits)

lemma admission_eq:
  "0 \<le> r \<Longrightarrow> admission now ks r l =
     (l\<lparr>states := mapped ks (\<lambda>s. s\<lparr>lastAccess := now\<rparr>) (states l)\<rparr>, wait_all l now ks r)"
proof (induction ks arbitrary: r l)
  case Nil
  then show ?case by (simp add: wait_all_def)
next
  case (Cons k ks)
  show ?case
  proof (cases "map_of (states l) k")
    case None
    with Cons show ?thesis by (simp add: map_entry_absent wait_all_def)
  next
    case (Some s)
    define r2 where "r2 = (let r1 = (if retryAt s > now then max r (Time_Sub (retryAt s) now) else r)
      in if inFlight s \<ge> maximumConcurrent l then max r1 (initialBackoff l) else r1)"
    have r2: "r2 = max r (wait_time l now s)"
      using Cons.prems by (auto simp: r2_def wait_time_def Let_def)
    have "admission now (k # ks) r l = admission now ks r2 (touch now k l)"
      using Some by (simp add: r2_def Let_def)
    also have "\<dots> = (l\<lparr>states := mapped (k # ks) (\<lambda>s. s\<lparr>lastAccess := now\<rparr>) (states l)\<rparr>,
        wait_all (touch now k l) now ks r2)"
      using Cons.IH [of r2 "touch now k l"] Cons.prems by (simp add: touch_def r2)
    also have "wait_all (touch now k l) now ks r2 = wait_all l now (k # ks) r"
      using Some by (simp add: wait_all_touch r2) (simp add: wait_all_def)
    finally show ?thesis .
  qed
qed


lemma fold_max_le:
  "wait_all l now ks r \<le> m \<longleftrightarrow>
     r \<le> m \<and> (\<forall>k\<in>set ks. \<forall>s. map_of (states l) k = Some s \<longrightarrow> wait_time l now s \<le> m)"
  by (induction ks arbitrary: r) (auto simp: wait_all_def split: option.splits)

lemma wait_time_zero:
  assumes "config_ok l"
  shows "wait_time l now s \<le> 0 \<longleftrightarrow> retryAt s \<le> now \<and> inFlight s < maximumConcurrent l"
  using assms by (auto simp: wait_time_def config_ok_def Time_Sub_def)

section \<open>The table\<close>

definition overflow_key :: string where
  "overflow_key = ''overflow''"

definition regular :: "(string \<times> attempt_state) list \<Rightarrow> nat" where
  "regular xs = length (filter (\<lambda>p. fst p \<noteq> overflow_key) xs)"

definition table_ok :: "attempt_limiter \<Rightarrow> bool" where
  "table_ok l \<longleftrightarrow> distinct (map fst (states l)) \<and> int (regular (states l)) \<le> maximumStates l"

lemma regular_keys: "regular xs = length (filter (\<lambda>k. k \<noteq> overflow_key) (map fst xs))"
  by (simp add: regular_def filter_map o_def)

lemma table_length:
  assumes "table_ok l"
  shows "int (length (states l)) \<le> maximumStates l + 1"
proof -
  have "length (filter (\<lambda>k. k = overflow_key) (map fst (states l))) \<le> 1"
    using assms distinct_card [of "filter (\<lambda>k. k = overflow_key) (map fst (states l))"]
      card_mono [of "{overflow_key}" "set (filter (\<lambda>k. k = overflow_key) (map fst (states l)))"]
    by (auto simp: table_ok_def)
  moreover have "length (states l) = regular (states l) + length (filter (\<lambda>k. k = overflow_key) (map fst (states l)))"
    using sum_length_filter_compl [of "\<lambda>k. k \<noteq> overflow_key" "map fst (states l)"]
    by (simp add: regular_keys)
  ultimately show ?thesis using assms by (simp add: table_ok_def)
qed

definition fresh_state :: "int \<Rightarrow> attempt_state" where
  "fresh_state now = \<lparr>failures = 0, inFlight = 0, retryAt = 0, lastAccess = now\<rparr>"

text \<open>A table with fresh entries added.\<close>

definition grown :: "int \<Rightarrow> attempt_limiter \<Rightarrow> attempt_limiter \<Rightarrow> bool" where
  "grown now l l' \<longleftrightarrow> (\<exists>xs. l' = l\<lparr>states := xs\<rparr>) \<and>
     (\<forall>k. map_of (states l') k = map_of (states l) k \<or>
        map_of (states l) k = None \<and> map_of (states l') k = Some (fresh_state now)) \<and>
     (table_ok l \<longrightarrow> table_ok l')"

lemma grown_refl: "grown now l l"
  unfolding grown_def by (auto intro: exI [of _ "states l"])

lemma grown_trans: "grown now l l' \<Longrightarrow> grown now l' l'' \<Longrightarrow> grown now l l''"
  unfolding grown_def by (elim conjE exE, intro conjI) (force, metis, simp)

lemma update_new: "map_of xs k = None \<Longrightarrow> AList.update k v xs = xs @ [(k, v)]"
  by (induction xs) auto

lemma grown_insert:
  assumes "map_of (states l) k = None"
    "k = overflow_key \<or> int (length (states l)) < maximumStates l"
  shows "grown now l (l\<lparr>states := AList.update k (fresh_state now) (states l)\<rparr>)"
proof -
  have le: "regular (states l) \<le> length (states l)" by (simp add: regular_def)
  have "regular (states l @ [(k, fresh_state now)]) = regular (states l) + (if k = overflow_key then 0 else 1)"
    by (simp add: regular_def)
  then have "int (regular (states l @ [(k, fresh_state now)])) \<le> maximumStates l"
    if "int (regular (states l)) \<le> maximumStates l"
    using assms(2) that le by auto
  moreover have "k \<notin> set (map fst (states l))" using assms(1) by (simp add: map_of_eq_None_iff)
  ultimately have "table_ok l \<longrightarrow> table_ok (l\<lparr>states := AList.update k (fresh_state now) (states l)\<rparr>)"
    by (simp add: table_ok_def update_new [OF assms(1)])
  then show ?thesis
    using assms(1) by (auto simp: grown_def update_conv' table_ok_def)
qed

lemma tracked_spec:
  "trackedKeysLoop now ks tracked l = (l', tr) \<Longrightarrow> distinct tracked \<Longrightarrow>
   \<forall>k\<in>set tracked. map_of (states l) k \<noteq> None \<Longrightarrow>
   grown now l l' \<and> distinct tr \<and> (\<forall>k\<in>set tr. map_of (states l') k \<noteq> None) \<and> set tracked \<subseteq> set tr"
proof (induction ks arbitrary: tracked l)
  case Nil
  then show ?case by (auto simp: grown_refl)
next
  case (Cons k ks)
  define key where "key = (if map_of (states l) k = None \<and> int (length (states l)) \<ge> maximumStates l
     then overflow_key else k)"
  define l1 where "l1 = (if map_of (states l) key = None
     then l\<lparr>states := AList.update key (fresh_state now) (states l)\<rparr> else l)"
  have eq: "trackedKeysLoop now (k # ks) tracked l = (if key \<in> set tracked then trackedKeysLoop now ks tracked l
      else trackedKeysLoop now ks (tracked @ [key]) l1)"
    by (simp add: key_def l1_def fresh_state_def overflow_key_def Let_def)
  show ?case
  proof (cases "key \<in> set tracked")
    case True
    with Cons eq show ?thesis by simp
  next
    case False
    have g: "grown now l l1"
      using grown_insert [of l key now] grown_refl [of now l]
      by (auto simp: l1_def key_def split: if_splits)
    have "map_of (states l1) key \<noteq> None"
      by (simp add: l1_def update_conv')
    moreover have "map_of (states l1) x \<noteq> None" if "map_of (states l) x \<noteq> None" for x
      using g that unfolding grown_def by metis
    ultimately have "grown now l1 l' \<and> distinct tr \<and> (\<forall>k\<in>set tr. map_of (states l') k \<noteq> None) \<and>
        set (tracked @ [key]) \<subseteq> set tr"
      using Cons.IH [of "tracked @ [key]" l1] Cons.prems eq False by simp
    then show ?thesis using grown_trans [OF g] by simp
  qed
qed

text \<open>Dropping entries from a table with distinct keys.\<close>

lemma lookup_filter:
  assumes "distinct (map fst table)"
  shows "map_of (filter keep table) key = Option.bind (map_of table key) (\<lambda>st. if keep (key, st) then Some st else None)"
  using assms
proof (induction table)
  case (Cons entry rest)
  have "map_of rest (fst entry) = None" using Cons.prems by (simp add: map_of_eq_None_iff)
  then have "map_of (filter keep rest) (fst entry) = None" by (auto simp: map_of_eq_None_iff)
  with Cons show ?case by (cases entry) simp
qed simp


section \<open>Reservations\<close>

text \<open>
  The limiter with the attempts that were admitted and not yet completed, each with its keys.
  Attempts begin and complete in any order; a completion runs once.
\<close>

inductive limiter_step ::
    "attempt_limiter \<times> string list list \<Rightarrow> attempt_limiter \<times> string list list \<Rightarrow> bool" where
  admitted: "begin_attempt lower ctx username now l = (l', Inr keys) \<Longrightarrow>
     limiter_step (l, os) (l', keys # os)"
| limited: "begin_attempt lower ctx username now l = (l', Inl e) \<Longrightarrow> limiter_step (l, os) (l', os)"
| completed: "i < length os \<Longrightarrow>
     limiter_step (l, os) (finish (os ! i) outcome now l, take i os @ drop (Suc i) os)"

inductive_cases limiter_stepE: "limiter_step (l, os) y"

definition reservations :: "string list list \<Rightarrow> string \<Rightarrow> nat" where
  "reservations os k = length (filter (\<lambda>ks. k \<in> set ks) os)"

definition counted :: "attempt_limiter \<Rightarrow> string list list \<Rightarrow> string \<Rightarrow> bool" where
  "counted l os k = (case map_of (states l) k of
     None \<Rightarrow> reservations os k = 0
   | Some s \<Rightarrow> inFlight s = int (reservations os k) \<and> inFlight s \<le> maximumConcurrent l)"

definition limiter_inv :: "attempt_limiter \<Rightarrow> string list list \<Rightarrow> bool" where
  "limiter_inv l os \<longleftrightarrow> config_ok l \<and> table_ok l \<and> list_all distinct os \<and> (\<forall>k. counted l os k)"

lemma sweep_states:
  assumes "distinct (map fst (states l))"
  shows "map_of (states (sweepLocked now l)) k = map_of (states l) k \<or>
    (\<exists>s. map_of (states l) k = Some s \<and> inFlight s = 0 \<and> lastAccess s < now - retention l \<and>
       map_of (states (sweepLocked now l)) k = None)"
  using assms by (cases "map_of (states l) k") (auto simp: sweepLocked_def Let_def lookup_filter)

lemma sweep_table:
  assumes "table_ok l"
  shows "table_ok (sweepLocked now l)"
proof -
  have "regular (filter P xs) \<le> regular xs" for P xs
    by (induction xs) (simp_all add: regular_def)
  moreover have "distinct (map fst (filter P (states l)))" for P
    using assms by (simp add: table_ok_def distinct_map_filter)
  ultimately show ?thesis
    using assms by (fastforce simp: table_ok_def sweepLocked_def Let_def intro: order_trans [OF of_nat_mono])
qed

lemma sweep_config [simp]:
  "maximumConcurrent (sweepLocked now l) = maximumConcurrent l"
  "config_ok (sweepLocked now l) = config_ok l"
  by (simp_all add: sweepLocked_def Let_def config_ok_def)

lemma counted_carry:
  assumes "counted l os k" "maximumConcurrent l' = maximumConcurrent l" "0 < maximumConcurrent l"
    "map_of (states l') k = map_of (states l) k \<or>
     (\<exists>s. map_of (states l) k = None \<and> map_of (states l') k = Some s \<and> inFlight s = 0) \<or>
     (\<exists>s. map_of (states l) k = Some s \<and> inFlight s = 0 \<and> map_of (states l') k = None)"
  shows "counted l' os k"
  using assms(4)
proof (elim disjE exE conjE)
  assume "map_of (states l') k = map_of (states l) k"
  with assms(1,2) show ?thesis by (simp add: counted_def split: option.splits)
next
  fix s assume "map_of (states l) k = None" "map_of (states l') k = Some s" "inFlight s = 0"
  with assms(1-3) show ?thesis by (simp add: counted_def)
next
  fix s assume "map_of (states l) k = Some s" "inFlight s = 0" "map_of (states l') k = None"
  with assms(1) show ?thesis by (simp add: counted_def)
qed

lemma limiter_invD:
  assumes "limiter_inv l os"
  shows "config_ok l" "table_ok l" "list_all distinct os" "counted l os k" "0 < maximumConcurrent l"
  using assms by (auto simp: limiter_inv_def config_ok_def)

lemma sweep_inv:
  assumes "limiter_inv l os"
  shows "limiter_inv (sweepLocked now l) os"
proof -
  note d = limiter_invD [OF assms]
  have "counted (sweepLocked now l) os k" for k
    using sweep_states [of l now k] d(2)
    by (intro counted_carry [OF d(4) _ d(5)]) (auto simp: table_ok_def)
  then show ?thesis using d sweep_table by (simp add: limiter_inv_def)
qed

lemma grown_inv:
  assumes "grown now l l'" "limiter_inv l os"
  shows "limiter_inv l' os"
proof -
  obtain xs where l': "l' = l\<lparr>states := xs\<rparr>" using assms(1) by (auto simp: grown_def)
  note d = limiter_invD [OF assms(2)]
  have "map_of (states l') k = map_of (states l) k \<or>
      (map_of (states l) k = None \<and> map_of (states l') k = Some (fresh_state now))" for k
    using assms(1) unfolding grown_def by blast
  moreover have "inFlight (fresh_state now) = 0" by (simp add: fresh_state_def)
  ultimately have "counted l' os k" for k
    by (intro counted_carry [OF d(4) _ d(5)]) (use l' in simp, metis)
  then show ?thesis
    using assms l' by (auto simp: limiter_inv_def grown_def config_ok_def)
qed

lemma mapped_inv:
  assumes "limiter_inv l os" "list_all distinct os'"
    "\<And>k. counted (l\<lparr>states := mapped ks f (states l)\<rparr>) os' k"
  shows "limiter_inv (l\<lparr>states := mapped ks f (states l)\<rparr>) os'"
proof -
  have "table_ok (l\<lparr>states := mapped ks f (states l)\<rparr>) = table_ok l"
    by (simp add: table_ok_def regular_keys)
  then show ?thesis using assms by (simp add: limiter_inv_def config_ok_def)
qed

text \<open>\<^verbatim>\<open>begin\<close> in terms of the swept and grown table.\<close>

lemma begin_eq:
  assumes "trackedKeysLocked (attempt_keys lower ctx username) now (sweepLocked now l) = (l1, ks)"
  shows "begin_attempt lower ctx username now l =
    (let l2 = l1\<lparr>states := mapped ks (\<lambda>s. s\<lparr>lastAccess := now\<rparr>) (states l1)\<rparr>; r = wait_all l1 now ks 0
     in if r > 0 then (l2, Inl (RateLimit r)) else (reserve now ks l2, Inr ks))"
  using assms by (simp add: begin_attempt_def admission_eq)

lemma begin_tracked:
  assumes "trackedKeysLocked (attempt_keys lower ctx username) now (sweepLocked now l) = (l1, ks)"
  shows "grown now (sweepLocked now l) l1" "distinct ks" "\<forall>k\<in>set ks. map_of (states l1) k \<noteq> None"
  using tracked_spec [of now _ "[]"] assms by (auto simp: trackedKeysLocked_def)


lemma reservations_Cons: "reservations (ks # os) k = (if k \<in> set ks then 1 else 0) + reservations os k"
  by (simp add: reservations_def)

lemma reservations_remove:
  "i < length os \<Longrightarrow> reservations os k = (if k \<in> set (os ! i) then 1 else 0)
     + reservations (take i os @ drop (Suc i) os) k"
  by (subst id_take_nth_drop [of i os]) (simp_all add: reservations_def)

lemma touch_inv:
  assumes "limiter_inv l os" "distinct ks"
  shows "limiter_inv (l\<lparr>states := mapped ks (\<lambda>s. s\<lparr>lastAccess := now\<rparr>) (states l)\<rparr>) os"
proof (rule mapped_inv [OF assms(1)])
  note d = limiter_invD [OF assms(1)]
  show "list_all distinct os" by (rule d(3))
  fix k show "counted (l\<lparr>states := mapped ks (\<lambda>s. s\<lparr>lastAccess := now\<rparr>) (states l)\<rparr>) os k"
    using d(4) [of k] by (cases "map_of (states l) k") (simp_all add: counted_def map_of_mapped [OF assms(2)])
qed

lemma reserve_inv:
  assumes "limiter_inv l os" "distinct ks" "\<forall>k\<in>set ks. map_of (states l) k \<noteq> None"
    "\<And>k s. k \<in> set ks \<Longrightarrow> map_of (states l) k = Some s \<Longrightarrow> inFlight s < maximumConcurrent l"
  shows "limiter_inv (reserve now ks l) (ks # os)"
  unfolding reserve_eq
proof (rule mapped_inv [OF assms(1)])
  note d = limiter_invD [OF assms(1)]
  show "list_all distinct (ks # os)" using d(3) assms(2) by simp
  fix k
  let ?l = "l\<lparr>states := mapped ks (\<lambda>s. s\<lparr>inFlight := wrap64 (inFlight s + 1), lastAccess := now\<rparr>) (states l)\<rparr>"
  show "counted ?l (ks # os) k"
  proof (cases "k \<in> set ks")
    case True
    then obtain s where s: "map_of (states l) k = Some s" using assms(3) by fastforce
    have c: "inFlight s = int (reservations os k)" "inFlight s < maximumConcurrent l"
      using d(4) [of k] s assms(4) [OF True s] by (simp_all add: counted_def)
    moreover have "wrap64 (inFlight s + 1) = inFlight s + 1"
      using c d(1) by (intro wrap64_id) (simp add: in_int64_def config_ok_def)
    ultimately show ?thesis
      using True s by (simp add: counted_def map_of_mapped [OF assms(2)] reservations_Cons)
  next
    case False
    then show ?thesis
      using d(4) [of k]
      by (cases "map_of (states l) k") (simp_all add: counted_def map_of_mapped [OF assms(2)] reservations_Cons)
  qed
qed

lemma finish_state_inFlight: "inFlight (finish_state l now oc s) = (if inFlight s > 0 then inFlight s - 1 else inFlight s)"
  by (simp add: finish_state_def Let_def split: attempt_outcome.splits)

lemma complete_inv:
  assumes "limiter_inv l os" "i < length os"
  shows "limiter_inv (finish (os ! i) oc now l) (take i os @ drop (Suc i) os)"
  unfolding finish_eq
proof (rule mapped_inv [OF assms(1)])
  note d = limiter_invD [OF assms(1)]
  have dist: "distinct (os ! i)" using d(3) assms(2) by (simp add: list_all_length)
  show "list_all distinct (take i os @ drop (Suc i) os)"
    using d(3) by (auto simp: list_all_iff dest: in_set_takeD in_set_dropD)
  fix k
  have n: "reservations os k = (if k \<in> set (os ! i) then 1 else 0)
      + reservations (take i os @ drop (Suc i) os) k"
    by (rule reservations_remove [OF assms(2)])
  then show "counted (l\<lparr>states := mapped (os ! i) (finish_state l now oc) (states l)\<rparr>)
      (take i os @ drop (Suc i) os) k"
    using d(4) [of k]
    by (cases "map_of (states l) k")
      (auto simp: counted_def map_of_mapped [OF dist] finish_state_inFlight split: if_splits)
qed

lemma begin_inv:
  assumes "limiter_inv l os" "begin_attempt lower ctx username now l = (l', r)"
  shows "limiter_inv l' (case r of Inl _ \<Rightarrow> os | Inr ks \<Rightarrow> ks # os)"
proof -
  obtain l1 ks where t: "trackedKeysLocked (attempt_keys lower ctx username) now (sweepLocked now l) = (l1, ks)"
    by fastforce
  note b = begin_tracked [OF t]
  have i1: "limiter_inv l1 os" by (rule grown_inv [OF b(1) sweep_inv [OF assms(1)]])
  define l2 where "l2 = l1\<lparr>states := mapped ks (\<lambda>s. s\<lparr>lastAccess := now\<rparr>) (states l1)\<rparr>"
  have i2: "limiter_inv l2 os" unfolding l2_def by (rule touch_inv [OF i1 b(2)])
  note eq = begin_eq [OF t, unfolded Let_def, folded l2_def]
  show ?thesis
  proof (cases "wait_all l1 now ks 0 > 0")
    case True
    then show ?thesis using eq assms(2) i2 by auto
  next
    case False
    then have "wait_time l1 now s \<le> 0" if "k \<in> set ks" "map_of (states l1) k = Some s" for k s
      using fold_max_le [of l1 now ks 0 0] that by auto
    then have free: "inFlight s < maximumConcurrent l2" if "k \<in> set ks" "map_of (states l2) k = Some s" for k s
      using that wait_time_zero [OF limiter_invD(1) [OF i1]] by (auto simp: l2_def map_of_mapped [OF b(2)])
    have "\<forall>k\<in>set ks. map_of (states l2) k \<noteq> None" using b(3) by (simp add: l2_def map_of_mapped [OF b(2)])
    then have "limiter_inv (reserve now ks l2) (ks # os)" by (rule reserve_inv [OF i2 b(2) _ free])
    with False eq assms(2) show ?thesis by auto
  qed
qed

lemma limiter_step_inv:
  assumes "limiter_step (l, os) (l', os')" "limiter_inv l os"
  shows "limiter_inv l' os'"
  using assms(1) by (rule limiter_stepE) (use begin_inv [OF assms(2)] complete_inv [OF assms(2)] in fastforce)+


text \<open>A key that has an entry is tracked under its own name.\<close>

lemma tracked_present:
  "trackedKeysLoop now ks tracked l = (l', tr) \<Longrightarrow> distinct tracked \<Longrightarrow>
   \<forall>k\<in>set tracked. map_of (states l) k \<noteq> None \<Longrightarrow> k \<in> set ks \<Longrightarrow> map_of (states l) k \<noteq> None \<Longrightarrow>
   k \<in> set tr"
proof (induction ks arbitrary: tracked l)
  case (Cons x ks)
  define key where "key = (if map_of (states l) x = None \<and> int (length (states l)) \<ge> maximumStates l
     then overflow_key else x)"
  define l1 where "l1 = (if map_of (states l) key = None
     then l\<lparr>states := AList.update key (fresh_state now) (states l)\<rparr> else l)"
  have eq: "trackedKeysLoop now (x # ks) tracked l = (if key \<in> set tracked then trackedKeysLoop now ks tracked l
      else trackedKeysLoop now ks (tracked @ [key]) l1)"
    by (simp add: key_def l1_def fresh_state_def overflow_key_def Let_def)
  have pres: "map_of (states l1) y \<noteq> None" if "map_of (states l) y \<noteq> None \<or> y = key" for y
    using that by (auto simp: l1_def update_conv')
  show ?case
  proof (cases "k = x")
    case True
    then have k: "key = k" using Cons.prems(5) by (auto simp: key_def)
    show ?thesis
    proof (cases "k \<in> set tracked")
      case True
      then show ?thesis using tracked_spec [OF Cons.prems(1-3)] by blast
    next
      case False
      then show ?thesis
        using tracked_spec [of now ks "tracked @ [key]" l1 l' tr] Cons.prems(1-3) eq k pres by auto
    qed
  next
    case False
    then show ?thesis
      using Cons.IH [of tracked l] Cons.IH [of "tracked @ [key]" l1] Cons.prems eq pres
      by (auto split: if_splits)
  qed
qed simp

text \<open>An entry that is blocked keeps every attempt on its key out.\<close>

lemma blocked_begin:
  assumes "distinct (map fst (states l))" "key \<in> set (attempt_keys lower ctx username)"
    "map_of (states l) key = Some s" "now < retryAt s" "now - retention l \<le> lastAccess s"
  shows "\<exists>l' d. begin_attempt lower ctx username now l = (l', Inl (RateLimit d)) \<and>
    Time_Sub (retryAt s) now \<le> d"
proof -
  obtain l1 ks where t: "trackedKeysLocked (attempt_keys lower ctx username) now (sweepLocked now l) = (l1, ks)"
    by fastforce
  have sw: "map_of (states (sweepLocked now l)) key = Some s"
    using sweep_states [OF assms(1), of now key] assms(3,5) by auto
  then have k: "key \<in> set ks"
    using tracked_present [OF t [unfolded trackedKeysLocked_def]] assms(2) by simp
  have s: "map_of (states l1) key = Some s"
    using begin_tracked(1) [OF t] sw unfolding grown_def by (metis option.distinct(1))
  have "wait_all l1 now ks 0 \<ge> wait_time l1 now s"
    using fold_max_le [of l1 now ks 0 "wait_all l1 now ks 0"] k s by auto
  moreover have "wait_time l1 now s \<ge> Time_Sub (retryAt s) now" "Time_Sub (retryAt s) now > 0"
    using assms(4) by (auto simp: wait_time_def Time_Sub_def)
  ultimately show ?thesis using begin_eq [OF t] by (auto simp: Let_def)
qed

section \<open>Properties\<close>

text \<open>
  Further property. The delay after \<open>n\<close> failures, for every \<open>n\<close> from the threshold on that a 64-bit
  counter can reach, is the initial delay doubled once per further failure and capped at the
  maximum; the doubling never overflows.
\<close>

theorem backoff_capped_doubling:
  assumes "config_ok l" "failureThreshold l \<le> n" "n < 2 ^ 63"
  shows "backoff l n = min (initialBackoff l * 2 ^ nat (n - failureThreshold l)) (maximumBackoff l)"
  using backoff_eq [OF assms] .

definition default_options :: attempt_limiter_options where
  "default_options = \<lparr>MaximumConcurrent = 0, FailureThreshold = 0, InitialBackoff = 0, MaximumBackoff = 0\<rparr>"

theorem backoff_capped_doubling_witness:
  "backoff (NewAttemptLimiter default_options) 9 = 16 * second \<and>
   backoff (NewAttemptLimiter default_options) 100 = 60 * second"
proof -
  let ?l = "NewAttemptLimiter default_options"
  have ok: "config_ok ?l" by (simp add: config_ok_def NewAttemptLimiter_def default_options_def Let_def)
  show ?thesis
    using backoff_capped_doubling [OF ok, of 9] backoff_capped_doubling [OF ok, of 100]
    by (simp add: NewAttemptLimiter_def default_options_def Let_def)
qed

text \<open>
  Property C21. Exact accounting: after any interleaving of attempts that begin and complete, the
  in-flight count of every key is the number of admitted attempts on that key that have not
  completed, it never exceeds the configured concurrency, a key without an entry has no open
  attempt, and the table has at most one entry more than its maximum.
\<close>

theorem reservations_exact:
  assumes "in_int64 (MaximumConcurrent opts)" "in_int64 (InitialBackoff opts)"
    "in_int64 (MaximumBackoff opts)" "limiter_step\<^sup>*\<^sup>* (NewAttemptLimiter opts, []) (l, os)"
  shows "(\<forall>k. case map_of (states l) k of
       None \<Rightarrow> reservations os k = 0
     | Some s \<Rightarrow> inFlight s = int (reservations os k) \<and> inFlight s \<le> maximumConcurrent l) \<and>
    int (length (states l)) \<le> maximumStates l + 1"
proof -
  have "limiter_inv (NewAttemptLimiter opts) []"
    using New_config_ok [OF assms(1-3)]
    by (simp add: limiter_inv_def table_ok_def regular_def counted_def reservations_def
        NewAttemptLimiter_def Let_def)
  moreover have "limiter_inv l' os'" if "limiter_step\<^sup>*\<^sup>* (l0, os0) (l', os')" "limiter_inv l0 os0" for l0 os0 l' os'
    using that by (induction rule: rtranclp_induct2) (auto intro: limiter_step_inv)
  ultimately have "limiter_inv l os" using assms(4) by blast
  then show ?thesis using table_length by (simp add: limiter_inv_def counted_def)
qed

theorem reservations_exact_witness:
  "\<exists>l. limiter_step\<^sup>*\<^sup>* (NewAttemptLimiter default_options, []) (l, [[''user:ada'']]) \<and>
     map_option inFlight (map_of (states l) ''user:ada'') = Some 1"
proof -
  let ?l = "NewAttemptLimiter default_options"
  have trim: "TrimSpace ''ada'' = ''ada''" by (rule TrimSpace_plain) (simp add: plain_char_def)
  have keys: "attempt_keys id None ''ada'' = [''user:ada'']"
    by (simp add: attempt_keys_def trim ToLower_def ascii_lower_def ClientIP_def less_eq_char_def)
  obtain l where b: "begin_attempt id None ''ada'' 5 ?l = (l, Inr [''user:ada''])"
      "map_of (states l) ''user:ada'' \<noteq> None"
    by (simp add: begin_attempt_def keys trackedKeysLocked_def sweepLocked_def NewAttemptLimiter_def
        default_options_def Let_def touch_def)
  then have step: "limiter_step\<^sup>*\<^sup>* (?l, []) (l, [[''user:ada'']])"
    by (auto intro: limiter_step.admitted)
  obtain s where "map_of (states l) ''user:ada'' = Some s" using b(2) by auto
  moreover from this have "inFlight s = int (reservations [[''user:ada'']] ''user:ada'')"
    using reservations_exact [OF _ _ _ step] by (auto simp: default_options_def in_int64_def split: option.splits)
  ultimately show ?thesis using step by (auto simp: reservations_def)
qed


text \<open>
  Property C23. Lock-out: once a failed attempt brings a key to the failure threshold, every
  attempt on that key (the user's or the client address's) is refused until the backoff is over,
  with a retry delay that covers what is left of it, whatever other keys the attempt has. The
  backoff must not exceed the time entries are retained, as with the default options.
\<close>

theorem failed_attempt_locks_out:
  assumes "config_ok l" "distinct (map fst (states l))" "maximumBackoff l \<le> retention l"
    "map_of (states l) key = Some s" "key \<in> set keys" "distinct keys"
    "failureThreshold l \<le> failures s + 1" "failures s + 1 < 2 ^ 63"
    "t \<le> now" "now < t + backoff l (failures s + 1)"
    "key \<in> set (attempt_keys lower ctx username)"
  shows "\<exists>l' d. begin_attempt lower ctx username now (finish keys attemptFailed t l) =
      (l', Inl (RateLimit d)) \<and> t + backoff l (failures s + 1) - now \<le> d"
proof -
  let ?l = "finish keys attemptFailed t l" and ?b = "backoff l (failures s + 1)"
  define s' where "s' = finish_state l t attemptFailed s"
  have b: "?b \<le> maximumBackoff l" "maximumBackoff l < 2 ^ 63"
    using backoff_eq [OF assms(1,7,8)] assms(1) by (auto simp: config_ok_def)
  have "wrap64 (failures s + 1) = failures s + 1"
    using assms(1,7,8) by (intro wrap64_id) (auto simp: in_int64_def config_ok_def)
  then have s': "retryAt s' = t + ?b" "lastAccess s' = t"
    using assms(7) by (auto simp: s'_def finish_state_def Let_def)
  have "map_of (states ?l) key = Some s'" "distinct (map fst (states ?l))" "retention ?l = retention l"
    using assms(2,4,5) by (simp_all add: finish_eq map_of_mapped [OF assms(6)] s'_def)
  then obtain l' d where "begin_attempt lower ctx username now ?l = (l', Inl (RateLimit d))"
      "Time_Sub (t + ?b) now \<le> d"
    using blocked_begin [of ?l key lower ctx username s' now] assms(3,9-11) s' b by auto
  moreover have "Time_Sub (t + ?b) now = t + ?b - now"
    using assms(9,10) b by (simp add: Time_Sub_def)
  ultimately show ?thesis by auto
qed

theorem failed_attempt_locks_out_witness:
  "\<exists>l' d. begin_attempt id (Some \<lparr>clientIP = ''10.0.0.1'', retry = 0\<rparr>) [] 101
     (finish [''ip:10.0.0.1''] attemptFailed 100
       (NewAttemptLimiter default_options\<lparr>states :=
          [(''ip:10.0.0.1'', \<lparr>failures = 4, inFlight = 1, retryAt = 0, lastAccess = 90\<rparr>)]\<rparr>)) =
     (l', Inl (RateLimit d)) \<and> second - 1 \<le> d"
proof -
  let ?s = "\<lparr>failures = 4, inFlight = 1, retryAt = 0, lastAccess = 90\<rparr>"
  let ?l = "NewAttemptLimiter default_options\<lparr>states := [(''ip:10.0.0.1'', ?s)]\<rparr>"
  let ?ctx = "Some \<lparr>clientIP = ''10.0.0.1'', retry = 0\<rparr>"
  have ok: "config_ok ?l"
    by (simp add: config_ok_def NewAttemptLimiter_def default_options_def Let_def)
  have bo: "backoff ?l (failures ?s + 1) = second"
    using backoff_eq [OF ok, of 5] by (simp add: NewAttemptLimiter_def default_options_def Let_def)
  have "\<exists>l' d. begin_attempt id ?ctx [] 101 (finish [''ip:10.0.0.1''] attemptFailed 100 ?l) =
      (l', Inl (RateLimit d)) \<and> 100 + backoff ?l (failures ?s + 1) - 101 \<le> d"
    by (rule failed_attempt_locks_out [OF ok, where key = "''ip:10.0.0.1''"], unfold bo)
      (simp_all add: NewAttemptLimiter_def default_options_def Let_def attempt_keys_def ClientIP_def)
  then show ?thesis unfolding bo by simp
qed

end
