(* ===== verification/Encoding.thy ===== *)
theory Encoding
  imports Prelude
begin

text \<open>
  The text encodings of Go's standard library that the program stores and checks: decimal
  numbers (\<^verbatim>\<open>strconv.FormatUint\<close>, \<^verbatim>\<open>ParseUint\<close>, the \<^verbatim>\<open>%d\<close> and \<^verbatim>\<open>%020d\<close> verbs) and the
  padded and unpadded base64 alphabets of \<^verbatim>\<open>encoding/base64\<close>. A byte slice is a
  \<^typ>\<open>string\<close>. The lemmas are the round trips the component proofs use.
\<close>

section \<open>Decimal numbers\<close>

definition digit_char :: "nat \<Rightarrow> char" where
  "digit_char d = char_of (48 + d)"

definition is_digit :: "char \<Rightarrow> bool" where
  "is_digit c \<longleftrightarrow> 48 \<le> (of_char c :: nat) \<and> (of_char c :: nat) \<le> 57"

definition digit_value :: "char \<Rightarrow> nat" where
  "digit_value c = of_char c - 48"

fun print_nat :: "nat \<Rightarrow> string" where
  "print_nat n = (if n < 10 then [digit_char n] else print_nat (n div 10) @ [digit_char (n mod 10)])"

declare print_nat.simps [simp del]

definition decimal_value :: "string \<Rightarrow> nat" where
  "decimal_value s = foldl (\<lambda>n c. n * 10 + digit_value c) 0 s"

text \<open>\<^verbatim>\<open>strconv.ParseUint(s, 10, bits)\<close>: digits only, and the value fits.\<close>

definition ParseUint :: "nat \<Rightarrow> string \<Rightarrow> nat option" where
  "ParseUint bits s =
     (if s \<noteq> [] \<and> list_all is_digit s \<and> decimal_value s < 2 ^ bits then Some (decimal_value s) else None)"

text \<open>\<^verbatim>\<open>fmt.Sprintf("%020d", n)\<close> for a 64-bit unsigned number, which has at most 20 digits.\<close>

definition print_padded :: "nat \<Rightarrow> nat \<Rightarrow> string" where
  "print_padded width n = replicate (width - length (print_nat n)) (CHR ''0'') @ print_nat n"

text \<open>The digits \<^verbatim>\<open>encoding/hex\<close> decodes.\<close>

definition is_hex :: "char \<Rightarrow> bool" where
  "is_hex c \<longleftrightarrow> (CHR ''0'' \<le> c \<and> c \<le> CHR ''9'') \<or> (CHR ''a'' \<le> c \<and> c \<le> CHR ''f'') \<or>
     (CHR ''A'' \<le> c \<and> c \<le> CHR ''F'')"

lemma of_char_digit: "d < 10 \<Longrightarrow> (of_char (digit_char d) :: nat) = 48 + d"
  by (simp add: digit_char_def of_char_of)

lemma digit_char_simps [simp]:
  "d < 10 \<Longrightarrow> is_digit (digit_char d)"
  "d < 10 \<Longrightarrow> digit_value (digit_char d) = d"
  by (simp_all add: is_digit_def digit_value_def of_char_digit)

lemma print_nat_digits: "list_all is_digit (print_nat n)"
proof (induction n rule: print_nat.induct)
  case (1 n)
  then show ?case by (subst print_nat.simps) simp
qed

lemma print_nat_nonempty [simp]: "print_nat n \<noteq> []"
  by (subst print_nat.simps) simp

lemma print_nat_length: "n < 10 ^ Suc k \<Longrightarrow> length (print_nat n) \<le> Suc k"
proof (induction k arbitrary: n)
  case 0
  then show ?case by (subst print_nat.simps) simp
next
  case (Suc k)
  then have "n div 10 < 10 ^ Suc k" by (simp add: less_mult_imp_div_less)
  from Suc.IH [OF this] show ?case by (subst print_nat.simps) simp
qed

lemma decimal_value_snoc [simp]: "decimal_value (s @ [c]) = decimal_value s * 10 + digit_value c"
  by (simp add: decimal_value_def)

lemma decimal_value_print [simp]: "decimal_value (print_nat k) = k"
proof (induction k rule: less_induct)
  case (less k)
  have small: "decimal_value [digit_char k] = k" if "k < 10" using that by (simp add: decimal_value_def)
  have "decimal_value (print_nat (k div 10)) = k div 10" if "\<not> k < 10" using less [of "k div 10"] that by simp
  then show ?case using small unfolding print_nat.simps [of k] by simp
qed

lemma ParseUint_print: "n < 2 ^ bits \<Longrightarrow> ParseUint bits (print_nat n) = Some n"
  by (simp add: ParseUint_def print_nat_digits)

lemma decimal_value_zeros [simp]: "decimal_value (replicate k (CHR ''0'') @ s) = decimal_value s"
  by (induction k) (simp_all add: decimal_value_def digit_value_def)

lemma print_padded_digits: "list_all is_digit (print_padded w n)"
  by (auto simp: print_padded_def list_all_iff is_digit_def dest: bspec [OF print_nat_digits [unfolded list_all_iff]])

lemma ParseUint_padded: "n < 2 ^ bits \<Longrightarrow> ParseUint bits (print_padded w n) = Some n"
  unfolding ParseUint_def using print_padded_digits by (simp add: print_padded_def)

lemma print_padded_inj: "print_padded w m = print_padded w n \<Longrightarrow> m = n"
  by (metis decimal_value_print decimal_value_zeros print_padded_def)

section \<open>Base64\<close>

definition base64_std :: string where
  "base64_std = ''ABCDEFGHIJKLMNOPQRSTUVWXYZabcdefghijklmnopqrstuvwxyz0123456789+/''"

definition base64_url :: string where
  "base64_url = ''ABCDEFGHIJKLMNOPQRSTUVWXYZabcdefghijklmnopqrstuvwxyz0123456789-_''"

fun sextets :: "nat list \<Rightarrow> nat list" where
  "sextets (a # b # c # bs) =
     (a div 4) # ((a mod 4) * 16 + b div 16) # ((b mod 16) * 4 + c div 64) # (c mod 64) # sextets bs"
| "sextets [a, b] = [a div 4, (a mod 4) * 16 + b div 16, (b mod 16) * 4]"
| "sextets [a] = [a div 4, (a mod 4) * 16]"
| "sextets [] = []"

fun octets :: "nat list \<Rightarrow> nat list option" where
  "octets (w # x # y # z # ss) =
     map_option (\<lambda>bs. (w * 4 + x div 16) # ((x mod 16) * 16 + y div 4) # ((y mod 4) * 64 + z) # bs) (octets ss)"
| "octets [w, x, y] = Some [w * 4 + x div 16, (x mod 16) * 16 + y div 4]"
| "octets [w, x] = Some [w * 4 + x div 16]"
| "octets [w] = None"
| "octets [] = Some []"

fun index_of :: "char \<Rightarrow> string \<Rightarrow> nat option" where
  "index_of c [] = None"
| "index_of c (x # xs) = (if c = x then Some 0 else map_option Suc (index_of c xs))"

fun lookup_all :: "string \<Rightarrow> string \<Rightarrow> nat list option" where
  "lookup_all alphabet [] = Some []"
| "lookup_all alphabet (c # cs) =
     (case index_of c alphabet of None \<Rightarrow> None
      | Some n \<Rightarrow> map_option ((#) n) (lookup_all alphabet cs))"

text \<open>\<^verbatim>\<open>EncodeToString\<close> without padding.\<close>

definition RawEncode :: "string \<Rightarrow> string \<Rightarrow> string" where
  "RawEncode alphabet bs = map ((!) alphabet) (sextets (map of_char bs))"

text \<open>
  \<^verbatim>\<open>DecodeString\<close> without padding. Carriage returns and line feeds are skipped, and the unused
  bits of the last character are not checked (the encodings are not in strict mode).
\<close>

definition skip_newlines :: "string \<Rightarrow> string" where
  "skip_newlines s = filter (\<lambda>c. c \<noteq> CHR 0x0A \<and> c \<noteq> CHR 0x0D) s"

definition RawDecode :: "string \<Rightarrow> string \<Rightarrow> string option" where
  "RawDecode alphabet s =
     (case lookup_all alphabet (skip_newlines s) of None \<Rightarrow> None
      | Some ss \<Rightarrow> map_option (map char_of) (octets ss))"

text \<open>With padding: the last group of four ends in at most two padding characters.\<close>

definition PaddedDecode :: "string \<Rightarrow> string \<Rightarrow> string option" where
  "PaddedDecode alphabet s =
     (let t = skip_newlines s; d = takeWhile (\<lambda>c. c \<noteq> CHR ''='') t; p = drop (length d) t in
      if length t mod 4 = 0 \<and> p \<in> {[], ''='', ''==''} then RawDecode alphabet d else None)"

lemma sextet_bounds:
  assumes "b < 256" "c < 256"
  shows "a div 4 * 4 + ((a mod 4) * 16 + b div 16) div 16 = (a :: nat)"
    "((a mod 4) * 16 + b div 16) mod 16 * 16 + ((b mod 16) * 4 + c div 64) div 4 = (b :: nat)"
    "((b mod 16) * 4 + c div 64) mod 4 * 64 + c mod 64 = (c :: nat)"
proof -
  have bc: "b div 16 < 16" "c div 64 < 4" using assms by auto
  then show "a div 4 * 4 + ((a mod 4) * 16 + b div 16) div 16 = a" by simp
  show "((a mod 4) * 16 + b div 16) mod 16 * 16 + ((b mod 16) * 4 + c div 64) div 4 = b"
    using bc by simp
  show "((b mod 16) * 4 + c div 64) mod 4 * 64 + c mod 64 = c"
    using bc by simp
qed

lemma octets_sextets: "list_all (\<lambda>b. b < 256) bs \<Longrightarrow> octets (sextets bs) = Some bs"
proof (induction bs rule: sextets.induct)
  case (1 a b c bs)
  then have "b < 256" "c < 256" by simp_all
  from sextet_bounds(1,2) [OF this, where a = a] sextet_bounds(3) [OF this] 1 show ?case
    by (simp del: div_mult_self1 div_mult_self2 div_mult_self3 div_mult_self4)
next
  case (2 a b)
  then have "b < 256" "0 < (256 :: nat)" by simp_all
  from sextet_bounds(1,2) [OF this, where a = a] 2 show ?case by simp
qed simp_all

lemma sextets_less: "list_all (\<lambda>b. b < 256) bs \<Longrightarrow> list_all (\<lambda>s. s < 64) (sextets bs)"
  by (induction bs rule: sextets.induct) auto

lemma index_of_nth: "distinct xs \<Longrightarrow> i < length xs \<Longrightarrow> index_of (xs ! i) xs = Some i"
proof (induction xs arbitrary: i)
  case (Cons x xs)
  then show ?case by (cases i) auto
qed simp

lemma lookup_all_map:
  "distinct al \<Longrightarrow> list_all (\<lambda>s. s < length al) ss \<Longrightarrow> lookup_all al (map ((!) al) ss) = Some ss"
  by (induction ss) (auto simp: index_of_nth)

lemma base64_std_props: "distinct base64_std" "length base64_std = 64"
  by (simp_all add: base64_std_def)

lemma base64_std_chars: "CHR ''$'' \<notin> set base64_std" "CHR 0x0A \<notin> set base64_std" "CHR 0x0D \<notin> set base64_std"
  by (simp_all add: base64_std_def)

lemma base64_url_length: "length base64_url = 64"
  by (simp add: base64_url_def)

lemma bytes_bounded: "list_all (\<lambda>b. b < 256) (map (of_char :: char \<Rightarrow> nat) bs)"
  by (simp add: list_all_iff)

lemma RawEncode_set:
  assumes "length alphabet = 64"
  shows "set (RawEncode alphabet bs) \<subseteq> set alphabet"
  using sextets_less [OF bytes_bounded, of bs] assms by (auto simp: RawEncode_def list_all_iff)

lemma RawDecode_Encode [simp]: "RawDecode base64_std (RawEncode base64_std bs) = Some bs"
proof -
  have "c \<in> set base64_std" if "c \<in> set (RawEncode base64_std bs)" for c
    using RawEncode_set [OF base64_std_props(2)] that by blast
  then have "skip_newlines (RawEncode base64_std bs) = RawEncode base64_std bs"
    using base64_std_chars unfolding skip_newlines_def by (intro filter_True) blast
  moreover have "lookup_all base64_std (RawEncode base64_std bs) = Some (sextets (map of_char bs))"
    unfolding RawEncode_def
    by (rule lookup_all_map) (use base64_std_props sextets_less [OF bytes_bounded] in auto)
  ultimately show ?thesis
    using octets_sextets [OF bytes_bounded, of bs] by (simp add: RawDecode_def o_def)
qed

lemma length_sextets: "length (sextets bs) = (length bs * 4 + 2) div 3"
  by (induction bs rule: sextets.induct) auto

lemma length_RawEncode: "length (RawEncode al bs) = (length bs * 4 + 2) div 3"
  by (simp add: RawEncode_def length_sextets)

end
