(* ===== verification/Auth.thy ===== *)
theory Auth
  imports Control Limiter Encoding
begin

text \<open>
  Authentication, \<^verbatim>\<open>src/internal/auth/auth.go\<close>: the resolver that admits an attempt through
  the limiter, reads the root group's control document, tries its tokens and then the
  directory, and reports the outcome back to the limiter; and the stored form of token secrets.
  The control store is used through the interface \<^verbatim>\<open>control_store\<close>; the directory, the key
  derivation and the random source are parameters. The lemmas give the exact conditions of a
  successful authentication, the outcome the limiter is told, and the hash round trip.
\<close>

section \<open>Token secrets\<close>

abbreviation pbkdf2Iterations :: nat where "pbkdf2Iterations \<equiv> 100000"
abbreviation minimumPBKDF2Iterations :: nat where "minimumPBKDF2Iterations \<equiv> 100000"
abbreviation maximumPBKDF2Iterations :: nat where "maximumPBKDF2Iterations \<equiv> 2000000"
abbreviation pbkdf2KeyBytes :: nat where "pbkdf2KeyBytes \<equiv> 32"

text \<open>\<open>kdf secret salt iterations length\<close> stands for \<^verbatim>\<open>pbkdf2.Key\<close> with SHA-256.\<close>

type_synonym kdf = "string \<Rightarrow> string \<Rightarrow> nat \<Rightarrow> nat \<Rightarrow> string result"

definition parseValue :: "string \<Rightarrow> string \<Rightarrow> nat option" where
  "parseValue v key =
     (let p = key @ ''='' in
      if \<not> HasPrefix v p then None else ParseUint 32 (TrimPrefix v p))"

text \<open>
  \<^verbatim>\<open>verifySecret\<close> takes a slot for the key derivation and gives it back; the result also has
  the limiter as the caller leaves it.
\<close>

definition verifySecret ::
    "kdf \<Rightarrow> secret_kdf_limiter \<Rightarrow> string \<Rightarrow> string \<Rightarrow> bool result \<times> secret_kdf_limiter" where
  "verifySecret kdf limiter encoded secret =
     (let parts = Split (CHR ''$'') encoded in
      if length parts \<noteq> 5 \<or> parts ! 1 \<noteq> ''pbkdf2-sha256'' then (Inr False, limiter)
      else case parseValue (parts ! 2) ''i'' of
        None \<Rightarrow> (Inr False, limiter)
      | Some iterations \<Rightarrow>
          if iterations < minimumPBKDF2Iterations \<or> iterations > maximumPBKDF2Iterations
          then (Inr False, limiter)
          else case RawDecode base64_std (parts ! 3) of
            None \<Rightarrow> (Inr False, limiter)
          | Some salt \<Rightarrow>
              if length salt < 16 \<or> length salt > 64 then (Inr False, limiter)
              else case RawDecode base64_std (parts ! 4) of
                None \<Rightarrow> (Inr False, limiter)
              | Some expected \<Rightarrow>
                  if length expected \<noteq> pbkdf2KeyBytes then (Inr False, limiter)
                  else case kdf_acquire limiter of
                    Inl err \<Rightarrow> (Inl err, limiter)
                  | Inr taken \<Rightarrow>
                      (case kdf secret salt iterations (length expected) of
                         Inl err \<Rightarrow> (Inl (Wrap ''derive token secret hash'' err), kdf_release taken)
                       | Inr actual \<Rightarrow> (Inr (actual = expected), kdf_release taken)))"

definition VerifySecret :: "kdf \<Rightarrow> secret_kdf_limiter \<Rightarrow> string \<Rightarrow> string \<Rightarrow> bool" where
  "VerifySecret kdf limiter encoded secret =
     (case fst (verifySecret kdf limiter encoded secret) of Inl _ \<Rightarrow> False | Inr matched \<Rightarrow> matched)"

text \<open>\<open>random\<close> is what \<^verbatim>\<open>rand.Read\<close> gives for the salt: 16 bytes or an error.\<close>

definition HashSecret ::
    "kdf \<Rightarrow> string result \<Rightarrow> secret_kdf_limiter \<Rightarrow> string \<Rightarrow> string result \<times> secret_kdf_limiter" where
  "HashSecret kdf random limiter secret =
     (if secret = [] then (Inl (Errorf ''secret is required''), limiter)
      else case random of
        Inl err \<Rightarrow> (Inl (Wrap ''generate salt'' err), limiter)
      | Inr salt \<Rightarrow>
          (case kdf_acquire limiter of
             Inl err \<Rightarrow> (Inl err, limiter)
           | Inr taken \<Rightarrow>
               (case kdf secret salt pbkdf2Iterations pbkdf2KeyBytes of
                  Inl err \<Rightarrow> (Inl (Wrap ''derive token secret hash'' err), kdf_release taken)
                | Inr hash \<Rightarrow>
                    (Inr (''$pbkdf2-sha256$i='' @ print_nat pbkdf2Iterations @ ''$'' @
                       RawEncode base64_std salt @ ''$'' @ RawEncode base64_std hash),
                     kdf_release taken))))"

definition GenerateTokenSecret :: "string result \<Rightarrow> string result" where
  "GenerateTokenSecret random =
     (case random of
        Inl err \<Rightarrow> Inl (Wrap ''generate token secret'' err)
      | Inr bytes \<Rightarrow>
          let secret = RawEncode base64_url bytes in
          if length secret \<noteq> 32
          then Inl (Errorf (''generated token secret has unexpected length '' @ print_nat (length secret)))
          else Inr secret)"

section \<open>The resolver\<close>

record principal =
  PrincipalName :: string
  PrincipalRole :: role
  PrincipalGroup :: string

text \<open>
  The resolver's collaborators: the control store, the directory (\<^const>\<open>None\<close> when it is not
  configured), the key derivation, Unicode lower-casing, and the clock readings of one call:
  when the attempt begins, at the expiry check of each token, and when it finishes.
\<close>

record 'c auth_env =
  control_load :: "'c \<Rightarrow> string \<Rightarrow> document result \<times> 'c"
  directory :: "(string \<Rightarrow> string \<Rightarrow> string result) option"
  derive :: kdf
  unicode_lower :: "string \<Rightarrow> string"
  begin_time :: int
  check_time :: "nat \<Rightarrow> int"
  finish_time :: int

record 'c resolver =
  controls :: 'c
  attempts :: "attempt_limiter option"
  secretKDF :: secret_kdf_limiter

definition beginAttempt ::
    "'c auth_env \<Rightarrow> request_auth_context option \<Rightarrow> string \<Rightarrow> 'c resolver \<Rightarrow>
     string list result \<times> 'c resolver" where
  "beginAttempt env ctx user r =
     (case attempts r of
        None \<Rightarrow> (Inr [], r)
      | Some l \<Rightarrow>
          (case begin_attempt (unicode_lower env) ctx user (begin_time env) l of
             (l', res) \<Rightarrow> (res, r\<lparr>attempts := Some l'\<rparr>)))"

definition finishAttempt ::
    "'c auth_env \<Rightarrow> string list \<Rightarrow> attempt_outcome \<Rightarrow> 'c resolver \<Rightarrow> 'c resolver" where
  "finishAttempt env keys outcome r =
     (case attempts r of
        None \<Rightarrow> r
      | Some l \<Rightarrow> r\<lparr>attempts := Some (finish keys outcome (finish_time env) l)\<rparr>)"

definition authenticateIdentity :: "'c auth_env \<Rightarrow> string \<Rightarrow> string \<Rightarrow> principal result" where
  "authenticateIdentity env user secret =
     (case directory env of
        None \<Rightarrow> Inl (Errorf ''directory authentication is not configured'')
      | Some auth \<Rightarrow>
          (case auth user secret of
             Inl _ \<Rightarrow> Inl (Errorf ''invalid credentials'')
           | Inr canonical \<Rightarrow>
               if canonical = [] then Inl (Errorf ''invalid credentials'')
               else Inr \<lparr>PrincipalName = canonical, PrincipalRole = [], PrincipalGroup = []\<rparr>))"

definition AuthenticateIdentity ::
    "'c auth_env \<Rightarrow> request_auth_context option \<Rightarrow> string \<Rightarrow> string \<Rightarrow> 'c resolver \<Rightarrow>
     principal result \<times> 'c resolver" where
  "AuthenticateIdentity env ctx user secret r =
     (case beginAttempt env ctx user r of
        (Inl err, r1) \<Rightarrow> (Inl err, r1)
      | (Inr keys, r1) \<Rightarrow>
          (let res = authenticateIdentity env user secret;
               outcome = (case res of Inl _ \<Rightarrow> attemptFailed | Inr _ \<Rightarrow> attemptSucceeded)
           in (res, finishAttempt env keys outcome r1)))"

text \<open>
  The token loop of \<^verbatim>\<open>Authenticate\<close>: the role of the first usable token whose secret matches,
  or the error of a key derivation that could not run.
\<close>

definition skip_token :: "int \<Rightarrow> string \<Rightarrow> token \<Rightarrow> bool" where
  "skip_token now user t \<longleftrightarrow> Disabled t \<or> Key t \<noteq> user \<or>
     (case ExpiresAt t of None \<Rightarrow> False | Some expires \<Rightarrow> now > expires)"

fun try_tokens ::
    "kdf \<Rightarrow> (nat \<Rightarrow> int) \<Rightarrow> string \<Rightarrow> string \<Rightarrow> nat \<Rightarrow> token list \<Rightarrow> secret_kdf_limiter \<Rightarrow>
     role option result \<times> secret_kdf_limiter" where
  "try_tokens kdf now user secret i [] lim = (Inr None, lim)"
| "try_tokens kdf now user secret i (t # ts) lim =
     (if skip_token (now i) user t then try_tokens kdf now user secret (Suc i) ts lim
      else case verifySecret kdf lim (Hash t) secret of
        (Inl err, lim') \<Rightarrow> (Inl err, lim')
      | (Inr True, lim') \<Rightarrow> (Inr (Some (TokenRole t)), lim')
      | (Inr False, lim') \<Rightarrow> try_tokens kdf now user secret (Suc i) ts lim')"

text \<open>The body of \<^verbatim>\<open>Authenticate\<close> between the reservation and its deferred completion.\<close>

definition authenticate_body ::
    "'c auth_env \<Rightarrow> string \<Rightarrow> string \<Rightarrow> string \<Rightarrow> 'c resolver \<Rightarrow>
     principal result \<times> attempt_outcome \<times> 'c resolver" where
  "authenticate_body env grp user secret r =
     (case RootGroup grp of
        Inl err \<Rightarrow> (Inl err, attemptFailed, r)
      | Inr rootGroup \<Rightarrow>
          (case control_load env (controls r) rootGroup of
             (Inl err, c) \<Rightarrow>
               (Inl (Wrap (''load root group control '' @ rootGroup) err), attemptFailed, r\<lparr>controls := c\<rparr>)
           | (Inr document, c) \<Rightarrow>
               (case try_tokens (derive env) (check_time env) user secret 0 (Tokens document) (secretKDF r) of
                  (Inl verifyErr, lim) \<Rightarrow>
                    (Inl verifyErr, attemptAborted, r\<lparr>controls := c, secretKDF := lim\<rparr>)
                | (Inr (Some role), lim) \<Rightarrow>
                    (Inr \<lparr>PrincipalName = user, PrincipalRole = role, PrincipalGroup = rootGroup\<rparr>,
                     attemptSucceeded, r\<lparr>controls := c, secretKDF := lim\<rparr>)
                | (Inr None, lim) \<Rightarrow>
                    (let r' = r\<lparr>controls := c, secretKDF := lim\<rparr> in
                     case authenticateIdentity env user secret of
                       Inl _ \<Rightarrow> (Inl (Errorf ''invalid credentials''), attemptFailed, r')
                     | Inr identity \<Rightarrow>
                         (case map_of (Members document) (PrincipalName identity) of
                            Some role \<Rightarrow>
                              (Inr (identity\<lparr>PrincipalRole := role, PrincipalGroup := rootGroup\<rparr>),
                               attemptSucceeded, r')
                          | None \<Rightarrow> (Inl (Errorf ''invalid credentials''), attemptFailed, r'))))))"

definition Authenticate ::
    "'c auth_env \<Rightarrow> request_auth_context option \<Rightarrow> string \<Rightarrow> string \<Rightarrow> string \<Rightarrow> 'c resolver \<Rightarrow>
     principal result \<times> 'c resolver" where
  "Authenticate env ctx grp user secret r =
     (case beginAttempt env ctx user r of
        (Inl err, r1) \<Rightarrow> (Inl err, r1)
      | (Inr keys, r1) \<Rightarrow>
          (case authenticate_body env grp user secret r1 of
             (res, outcome, r2) \<Rightarrow> (res, finishAttempt env keys outcome r2)))"

definition AuthorizeIdentity ::
    "'c auth_env \<Rightarrow> string \<Rightarrow> principal \<Rightarrow> 'c \<Rightarrow> principal result \<times> 'c" where
  "AuthorizeIdentity env grp identity c =
     (case RootGroup grp of
        Inl err \<Rightarrow> (Inl err, c)
      | Inr rootGroup \<Rightarrow>
          (case control_load env c rootGroup of
             (Inl err, c') \<Rightarrow> (Inl (Wrap (''load root group control '' @ rootGroup) err), c')
           | (Inr document, c') \<Rightarrow>
               (case map_of (Members document) (PrincipalName identity) of
                  Some role \<Rightarrow>
                    (Inr (identity\<lparr>PrincipalRole := role, PrincipalGroup := rootGroup\<rparr>), c')
                | None \<Rightarrow> (Inl (Errorf ''identity is not authorized''), c'))))"


section \<open>Lemmas on secrets\<close>

lemma kdf_release_acquire: "kdf_acquire l = Inr l' \<Longrightarrow> kdf_release l' = l"
  by (auto simp: kdf_acquire_def kdf_release_def split: if_splits)

text \<open>Verification always gives its slot back.\<close>

lemma verifySecret_limiter [simp]: "snd (verifySecret kdf lim encoded secret) = lim"
  by (auto simp: verifySecret_def Let_def kdf_release_acquire split: option.split sum.split)

lemma HashSecret_limiter: "snd (HashSecret kdf random lim secret) = lim"
  by (auto simp: HashSecret_def kdf_release_acquire split: sum.split)

lemma digits_no_dollar: "CHR ''$'' \<notin> set (print_nat n)"
  using print_nat_digits [of n] by (auto simp: list_all_iff is_digit_def)

lemma base64_no_dollar: "CHR ''$'' \<notin> set (RawEncode base64_std bs)"
  using RawEncode_set [OF base64_std_props(2), of bs] base64_std_chars(1) by blast

lemma stored_parts:
  "Split (CHR ''$'') (''$pbkdf2-sha256$i='' @ print_nat n @ ''$'' @
     RawEncode base64_std salt @ ''$'' @ RawEncode base64_std hash) =
   [[], ''pbkdf2-sha256'', ''i='' @ print_nat n, RawEncode base64_std salt, RawEncode base64_std hash]"
proof -
  let ?h = "RawEncode base64_std hash" and ?s = "RawEncode base64_std salt"
  let ?c = "CHR ''$''"
  have 1: "Split ?c (?s @ ?c # ?h) = [?s, ?h]"
    by (simp add: Split_append_sep [OF base64_no_dollar] Split_no_sep [OF base64_no_dollar])
  have "?c \<notin> set (''i='' @ print_nat n)" using digits_no_dollar by simp
  from Split_append_sep [OF this, of "?s @ ?c # ?h", unfolded 1]
  have 2: "Split ?c ((''i='' @ print_nat n) @ ?c # (?s @ ?c # ?h)) = [''i='' @ print_nat n, ?s, ?h]" .
  have "?c \<notin> set ''pbkdf2-sha256''" by simp
  from Split_append_sep [OF this, of "(''i='' @ print_nat n) @ ?c # (?s @ ?c # ?h)", unfolded 2]
  show ?thesis by simp
qed

lemma verify_stored:
  assumes "minimumPBKDF2Iterations \<le> n" "n \<le> maximumPBKDF2Iterations"
    "16 \<le> length salt" "length salt \<le> 64" "length hash = pbkdf2KeyBytes"
    "kdf_acquire lim = Inr taken"
  shows "verifySecret kdf lim (''$pbkdf2-sha256$i='' @ print_nat n @ ''$'' @
     RawEncode base64_std salt @ ''$'' @ RawEncode base64_std hash) secret =
    ((case kdf secret salt n pbkdf2KeyBytes of
        Inl err \<Rightarrow> Inl (Wrap ''derive token secret hash'' err) | Inr actual \<Rightarrow> Inr (actual = hash)), lim)"
proof -
  have "parseValue (''i='' @ print_nat n) ''i'' = Some n"
    using assms(2) ParseUint_print [of n 32] by (simp add: parseValue_def HasPrefix_def TrimPrefix_def)
  then show ?thesis
    using assms kdf_release_acquire [OF assms(6)]
    unfolding verifySecret_def stored_parts by (simp split: sum.split)
qed

section \<open>Lemmas on the token loop\<close>

lemma try_tokens_limiter: "snd (try_tokens kdf now user secret i ts lim) = lim"
proof (induction ts arbitrary: i)
  case (Cons t ts)
  obtain res where v: "verifySecret kdf lim (Hash t) secret = (res, lim)"
    using verifySecret_limiter [of kdf lim "Hash t" secret] by (metis prod.collapse)
  show ?case using Cons by (auto simp: v split: sum.split bool.split)
qed simp

lemma try_tokens_none:
  assumes "\<forall>j < length ts. skip_token (now (i + j)) user (ts ! j)"
  shows "try_tokens kdf now user secret i ts lim = (Inr None, lim)"
  using assms
proof (induction ts arbitrary: i)
  case (Cons t ts)
  have "skip_token (now i) user t" using Cons.prems by force
  moreover have "\<forall>j < length ts. skip_token (now (Suc i + j)) user (ts ! j)" using Cons.prems by force
  ultimately show ?case using Cons.IH by simp
qed simp

text \<open>Keys are distinct in a valid document, so one token at most is looked at.\<close>

lemma skip_other: "Key t \<noteq> user \<Longrightarrow> skip_token now user t"
  by (simp add: skip_token_def)

lemma try_tokens_one:
  assumes "distinct (map Key ts)" "j < length ts" "\<not> skip_token (now (i + j)) user (ts ! j)"
  shows "try_tokens kdf now user secret i ts lim =
    (case fst (verifySecret kdf lim (Hash (ts ! j)) secret) of
       Inl err \<Rightarrow> (Inl err, lim) | Inr b \<Rightarrow> (Inr (if b then Some (TokenRole (ts ! j)) else None), lim))"
  using assms
proof (induction ts arbitrary: i j)
  case (Cons t ts)
  obtain res where v: "verifySecret kdf lim (Hash t) secret = (res, lim)"
    using verifySecret_limiter [of kdf lim "Hash t" secret] by (metis prod.collapse)
  show ?case
  proof (cases j)
    case 0
    then have t: "\<not> skip_token (now i) user t" using Cons.prems(3) by simp
    then have "Key t = user" using skip_other by blast
    then have "\<forall>j < length ts. skip_token (now (Suc i + j)) user (ts ! j)"
      using Cons.prems(1) by (auto intro!: skip_other) (metis image_eqI nth_mem)
    then have "try_tokens kdf now user secret (Suc i) ts lim = (Inr None, lim)" by (rule try_tokens_none)
    with 0 t v show ?thesis by (auto split: sum.split bool.split)
  next
    case (Suc k)
    then have "Key (ts ! k) = user" using Cons.prems(3) skip_other by auto
    then have "skip_token (now i) user t"
      using Cons.prems(1,2) Suc by (intro skip_other) (metis distinct.simps(2) length_map list.simps(9)
          nth_map nth_mem Suc_less_SucD length_Cons)
    with Cons.prems Cons.IH [of k "Suc i"] show ?thesis by (simp add: Suc split: sum.split)
  qed
qed simp


section \<open>Authentication over a control store\<close>

text \<open>The two ways to be let in, given the document \<open>d\<close> of root group \<open>g\<close>.\<close>

definition token_verdict :: "'c auth_env \<Rightarrow> secret_kdf_limiter \<Rightarrow> document \<Rightarrow> string \<Rightarrow> string \<Rightarrow> nat \<Rightarrow>
    bool result option" where
  "token_verdict env lim d user secret j =
     (if skip_token (check_time env j) user (Tokens d ! j) then None
      else Some (fst (verifySecret (derive env) lim (Hash (Tokens d ! j)) secret)))"

definition token_grant :: "'c auth_env \<Rightarrow> secret_kdf_limiter \<Rightarrow> string \<Rightarrow> document \<Rightarrow> string \<Rightarrow> string \<Rightarrow>
    principal \<Rightarrow> bool" where
  "token_grant env lim g d user secret p \<longleftrightarrow>
     (\<exists>j < length (Tokens d). token_verdict env lim d user secret j = Some (Inr True) \<and>
        p = \<lparr>PrincipalName = user, PrincipalRole = TokenRole (Tokens d ! j), PrincipalGroup = g\<rparr>)"

definition member_grant :: "'c auth_env \<Rightarrow> secret_kdf_limiter \<Rightarrow> string \<Rightarrow> document \<Rightarrow> string \<Rightarrow> string \<Rightarrow>
    principal \<Rightarrow> bool" where
  "member_grant env lim g d user secret p \<longleftrightarrow>
     (\<forall>j < length (Tokens d). token_verdict env lim d user secret j \<in> {None, Some (Inr False)}) \<and>
     (\<exists>auth name role. directory env = Some auth \<and> auth user secret = Inr name \<and> name \<noteq> [] \<and>
        map_of (Members d) name = Some role \<and>
        p = \<lparr>PrincipalName = name, PrincipalRole = role, PrincipalGroup = g\<rparr>)"

lemma authenticateIdentity_Inr:
  "authenticateIdentity env user secret = Inr p \<longleftrightarrow>
     (\<exists>auth name. directory env = Some auth \<and> auth user secret = Inr name \<and> name \<noteq> [] \<and>
        p = \<lparr>PrincipalName = name, PrincipalRole = [], PrincipalGroup = []\<rparr>)"
  by (auto simp: authenticateIdentity_def split: option.split sum.split)

text \<open>The token loop in terms of the verdicts on the tokens of a document with distinct keys.\<close>

lemma try_tokens_verdict:
  assumes "distinct (map Key (Tokens d))"
  shows "try_tokens (derive env) (check_time env) user secret 0 (Tokens d) lim = (res, lim') \<longleftrightarrow>
    lim' = lim \<and>
    (case res of
       Inl err \<Rightarrow> \<exists>j < length (Tokens d). token_verdict env lim d user secret j = Some (Inl err)
     | Inr (Some role) \<Rightarrow> \<exists>j < length (Tokens d). token_verdict env lim d user secret j = Some (Inr True) \<and>
         role = TokenRole (Tokens d ! j)
     | Inr None \<Rightarrow> \<forall>j < length (Tokens d). token_verdict env lim d user secret j \<in> {None, Some (Inr False)})"
proof (cases "\<forall>j < length (Tokens d). skip_token (check_time env j) user (Tokens d ! j)")
  case True
  then show ?thesis
    using try_tokens_none [of "Tokens d" "check_time env" 0 user "derive env" secret lim]
    by (auto simp: token_verdict_def split: sum.split option.split)
next
  case False
  then obtain j where j: "j < length (Tokens d)" "\<not> skip_token (check_time env j) user (Tokens d ! j)" by blast
  have only: "k = j" if "k < length (Tokens d)" "token_verdict env lim d user secret k \<noteq> None" for k
  proof -
    have "Key (Tokens d ! k) = user" "Key (Tokens d ! j) = user"
      using that j skip_other by (auto simp: token_verdict_def split: if_splits)
    then show ?thesis using assms that(1) j(1) by (simp add: distinct_conv_nth) metis
  qed
  define v where "v = fst (verifySecret (derive env) lim (Hash (Tokens d ! j)) secret)"
  have vj: "token_verdict env lim d user secret j = Some v" using j by (simp add: token_verdict_def v_def)
  have ex: "(\<exists>k < length (Tokens d). token_verdict env lim d user secret k = Some x \<and> P k) \<longleftrightarrow> v = x \<and> P j" for x P
    using only vj j(1) by (metis option.distinct(1) option.inject)
  have all: "(\<forall>k < length (Tokens d). token_verdict env lim d user secret k \<in> {None, Some (Inr False)}) \<longleftrightarrow> v = Inr False"
    using only vj j(1) by (metis (no_types) insertCI insertE option.distinct(1) option.inject singletonD)
  have eq: "try_tokens (derive env) (check_time env) user secret 0 (Tokens d) lim =
    (case v of Inl err \<Rightarrow> (Inl err, lim) | Inr b \<Rightarrow> (Inr (if b then Some (TokenRole (Tokens d ! j)) else None), lim))"
    using try_tokens_one [OF assms j(1), of "check_time env" 0] j(2) by (simp add: v_def)
  show ?thesis
    using ex [of _ "\<lambda>_. True"]
    unfolding eq all by (auto simp: ex split: sum.split option.split if_splits)
qed

lemma try_tokens_result:
  assumes "distinct (map Key (Tokens d))"
    "try_tokens (derive env) (check_time env) user secret 0 (Tokens d) lim = (res, lim)"
  shows "res = Inl err \<longleftrightarrow> (\<exists>j < length (Tokens d). token_verdict env lim d user secret j = Some (Inl err))"
    "res = Inr (Some role) \<longleftrightarrow> (\<exists>j < length (Tokens d).
       token_verdict env lim d user secret j = Some (Inr True) \<and> role = TokenRole (Tokens d ! j))"
    "res = Inr None \<longleftrightarrow>
       (\<forall>j < length (Tokens d). token_verdict env lim d user secret j \<in> {None, Some (Inr False)})"
proof -
  note v = try_tokens_verdict [OF assms(1), where env = env and user = user and secret = secret and lim = lim
      and lim' = lim, unfolded assms(2)]
  show "res = Inl err \<longleftrightarrow> (\<exists>j < length (Tokens d). token_verdict env lim d user secret j = Some (Inl err))"
    using v [of "Inl err"] by simp
  show "res = Inr (Some role) \<longleftrightarrow> (\<exists>j < length (Tokens d).
       token_verdict env lim d user secret j = Some (Inr True) \<and> role = TokenRole (Tokens d ! j))"
    using v [of "Inr (Some role)"] by simp
  show "res = Inr None \<longleftrightarrow>
       (\<forall>j < length (Tokens d). token_verdict env lim d user secret j \<in> {None, Some (Inr False)})"
    using v [of "Inr None"] by simp
qed

context control_store
begin

text \<open>The body of \<^verbatim>\<open>Authenticate\<close>, as a client of any control store.\<close>

lemma body_grants:
  assumes "inv (controls r)" "control_load env = load"
  shows "(\<exists>oc r'. authenticate_body env grp user secret r = (Inr p, oc, r')) \<longleftrightarrow>
    (\<exists>g d. RootGroup grp = Inr g \<and> fst (load (controls r) g) = Inr d \<and>
       (token_grant env (secretKDF r) g d user secret p \<or> member_grant env (secretKDF r) g d user secret p))"
proof (cases "\<exists>g d c. RootGroup grp = Inr g \<and> load (controls r) g = (Inr d, c)")
  case False
  then show ?thesis
    using assms(2) by (auto simp: authenticate_body_def split: sum.split prod.split)
next
  case True
  then obtain g d c where g: "RootGroup grp = Inr g" "load (controls r) g = (Inr d, c)" by blast
  have dist: "distinct (map Key (Tokens d))" by (rule load_tokens_valid(2) [OF assms(1) g])
  obtain res where t: "try_tokens (derive env) (check_time env) user secret 0 (Tokens d) (secretKDF r) = (res, secretKDF r)"
    using try_tokens_limiter by (metis prod.collapse)
  note some = try_tokens_result(2) [OF dist t] and none = try_tokens_result(3) [OF dist t]
  have tg: "token_grant env (secretKDF r) g d user secret p \<longleftrightarrow>
      (\<exists>role. res = Inr (Some role) \<and> p = \<lparr>PrincipalName = user, PrincipalRole = role, PrincipalGroup = g\<rparr>)"
    unfolding some token_grant_def by blast
  have mg: "member_grant env (secretKDF r) g d user secret p \<longleftrightarrow> res = Inr None \<and>
      (\<exists>auth name role. directory env = Some auth \<and> auth user secret = Inr name \<and> name \<noteq> [] \<and>
        map_of (Members d) name = Some role \<and>
        p = \<lparr>PrincipalName = name, PrincipalRole = role, PrincipalGroup = g\<rparr>)"
    unfolding none member_grant_def by blast
  show ?thesis
    unfolding authenticate_body_def assms(2) g(1)
    by (auto simp: g t tg mg authenticateIdentity_def Let_def split: sum.splits option.splits if_splits)
qed

text \<open>
  The outcome reported to the limiter: success exactly for a principal, aborted exactly when
  the key derivation of the user's token could not run.
\<close>

lemma body_outcome:
  assumes "inv (controls r)" "control_load env = load"
    "authenticate_body env grp user secret r = (res, oc, r')"
  shows "(oc = attemptSucceeded \<longleftrightarrow> (\<exists>p. res = Inr p))"
    "(oc = attemptAborted \<longleftrightarrow> (\<exists>g d j err. RootGroup grp = Inr g \<and> fst (load (controls r) g) = Inr d \<and>
        j < length (Tokens d) \<and> token_verdict env (secretKDF r) d user secret j = Some (Inl err)))"
    "attempts r' = attempts r" "secretKDF r' = secretKDF r" "inv (controls r')"
proof -
  let ?aborts = "\<exists>g d j err. RootGroup grp = Inr g \<and> fst (load (controls r) g) = Inr d \<and>
        j < length (Tokens d) \<and> token_verdict env (secretKDF r) d user secret j = Some (Inl err)"
  have "(oc = attemptSucceeded \<longleftrightarrow> (\<exists>p. res = Inr p)) \<and> (oc = attemptAborted \<longleftrightarrow> ?aborts) \<and>
      attempts r' = attempts r \<and> secretKDF r' = secretKDF r \<and> inv (controls r')"
  proof (cases "\<exists>g d c. RootGroup grp = Inr g \<and> load (controls r) g = (Inr d, c)")
    case False
    then have no: "\<not> ?aborts" by (metis prod.collapse)
    show ?thesis
    proof (cases "RootGroup grp")
      case (Inl e)
      with assms no show ?thesis by (auto simp: authenticate_body_def)
    next
      case (Inr g)
      with False obtain e c where l: "load (controls r) g = (Inl e, c)"
        by (metis old.sum.exhaust surj_pair)
      with load_inv [OF assms(1), of g] have "inv c" by simp
      with assms no Inr l show ?thesis by (auto simp: authenticate_body_def)
    qed
  next
    case True
    then obtain g d c where g: "RootGroup grp = Inr g" "load (controls r) g = (Inr d, c)" by blast
    have dist: "distinct (map Key (Tokens d))" by (rule load_tokens_valid(2) [OF assms(1) g])
    have c: "inv c" by (rule load_root_wf(2) [OF assms(1) g])
    obtain v where t: "try_tokens (derive env) (check_time env) user secret 0 (Tokens d) (secretKDF r) = (v, secretKDF r)"
      using try_tokens_limiter by (metis prod.collapse)
    note inl = try_tokens_result(1) [OF dist t]
    have ab: "?aborts \<longleftrightarrow> (\<exists>err. v = Inl err)"
      unfolding inl using g by auto
    show ?thesis
      using assms(3) c unfolding ab
      by (auto simp: authenticate_body_def g t assms(2) Let_def split: sum.splits option.splits)
  qed
  then show "(oc = attemptSucceeded \<longleftrightarrow> (\<exists>p. res = Inr p))" "oc = attemptAborted \<longleftrightarrow> ?aborts"
    "attempts r' = attempts r" "secretKDF r' = secretKDF r" "inv (controls r')"
    by blast+
qed

lemma grant_role_valid:
  assumes "inv c" "RootGroup grp = Inr g" "fst (load c g) = Inr d"
    "token_grant env lim g d user secret p \<or> member_grant env lim g d user secret p"
  shows "validRole (PrincipalRole p)"
proof -
  obtain c' where l: "load c g = (Inr d, c')" using assms(3) by (metis prod.collapse)
  show ?thesis
    using assms(4) load_tokens_valid(1) [OF assms(1,2) l] load_members_valid [OF assms(1,2) l]
    by (auto simp: token_grant_def member_grant_def dest: map_of_SomeD)
qed

end

lemma begin_keeps:
  "beginAttempt env ctx user r = (res, r1) \<Longrightarrow> controls r1 = controls r \<and> secretKDF r1 = secretKDF r"
  by (auto simp: beginAttempt_def split: option.splits prod.splits)

section \<open>Properties\<close>

text \<open>
  Property C6. Authentication grants exactly what the control document says: with a store whose
  cache is consistent, \<^verbatim>\<open>Authenticate\<close> returns the principal \<open>p\<close> if and only if the limiter
  admitted the attempt and the current control document of the root group of the requested
  group either has an enabled, unexpired token with the user's key whose stored hash verifies
  (\<open>p\<close> is the user with the token's role), or no such token rejects it with an error and the
  directory accepts the user under a name that is a member (\<open>p\<close> is that member with its role);
  and the role is one of the four valid roles.
\<close>

theorem Authenticate_exact:
  assumes "cache_ok git (controls r)" "control_load env = Load git"
  shows "fst (Authenticate env ctx grp user secret r) = Inr p \<longleftrightarrow>
    (\<exists>keys r1. beginAttempt env ctx user r = (Inr keys, r1)) \<and> validRole (PrincipalRole p) \<and>
    (\<exists>g d. RootGroup grp = Inr g \<and> Load_uncached git g = Inr d \<and>
       (token_grant env (secretKDF r) g d user secret p \<or> member_grant env (secretKDF r) g d user secret p))"
proof -
  obtain res r1 where b: "beginAttempt env ctx user r = (res, r1)" by fastforce
  have k: "controls r1 = controls r" "secretKDF r1 = secretKDF r" using begin_keeps [OF b] by auto
  have load: "fst (Load git (controls r) g) = Load_uncached git g" for g
    using Load_correct [OF assms(1)] by simp
  note body = cached.body_grants [of git r1 env grp user secret p, unfolded k load, OF assms]
  have role: "validRole (PrincipalRole p)"
    if "RootGroup grp = Inr g" "Load_uncached git g = Inr d"
      "token_grant env (secretKDF r) g d user secret p \<or> member_grant env (secretKDF r) g d user secret p" for g d
    using cached.grant_role_valid [OF assms(1) that(1) _ that(3)] that(2) load by simp
  have "fst (Authenticate env ctx grp user secret r) = Inr p \<longleftrightarrow>
      (\<exists>keys. res = Inr keys) \<and> (\<exists>oc r'. authenticate_body env grp user secret r1 = (Inr p, oc, r'))"
    by (auto simp: Authenticate_def b split: sum.split prod.split)
  then show ?thesis unfolding body b using role by auto
qed


text \<open>A group with one owner and a directory that accepts everybody.\<close>

definition sample_document :: document where
  "sample_document = \<lparr>Version = 4, DocGroup = ''g'', Description = [], Inherit = False, Visibility = ''private'',
     LFS = \<lparr>Enabled = False, MaximumObjectBytes = 0, MaximumStorageBytes = 0\<rparr>,
     Members = [(''ada'', ''owner'')], Tokens = []\<rparr>"

definition sample_git :: git_view where
  "sample_git = \<lparr>head_of = (\<lambda>_. Inr ''c1''), decode = (\<lambda>_ _. Inr sample_document)\<rparr>"

definition sample_env :: "control_cache auth_env" where
  "sample_env = \<lparr>control_load = Load sample_git, directory = Some (\<lambda>user _. Inr user),
     derive = (\<lambda>secret _ _ _. Inr secret), unicode_lower = id, begin_time = 1, check_time = (\<lambda>_. 1),
     finish_time = 1\<rparr>"

definition sample_resolver :: "control_cache resolver" where
  "sample_resolver = \<lparr>controls = Map.empty, attempts = None, secretKDF = newSecretKDFLimiter 4\<rparr>"

lemma sample_root: "RootGroup ''g'' = Inr ''g''"
  by (simp add: RootGroup_self valid_def valid_char_def HasSuffix_def HasPrefix_def)

lemma sample_load: "Load_uncached sample_git ''g'' = Inr sample_document"
proof -
  have "TrimSpace ''ada'' \<noteq> []" by (subst TrimSpace_plain) (simp_all add: plain_char_def)
  then have "wf_document ''g'' sample_document"
    using sample_root unfolding RootGroup_self by (simp add: wf_document_def sample_document_def validRole_def)
  then have "Validate ''g'' sample_document = Inr ()" by (simp add: Validate_Inr)
  then show ?thesis
    by (simp add: Load_uncached_def sample_root ReadDocument_def sample_git_def)
qed

theorem Authenticate_exact_witness:
  "fst (Authenticate sample_env None ''g'' ''ada'' ''secret'' sample_resolver) =
     Inr \<lparr>PrincipalName = ''ada'', PrincipalRole = ''owner'', PrincipalGroup = ''g''\<rparr>"
proof -
  have ok: "cache_ok sample_git (controls sample_resolver)" by (simp add: cache_ok_def sample_resolver_def)
  have env: "control_load sample_env = Load sample_git" by (simp add: sample_env_def)
  have "member_grant sample_env (secretKDF sample_resolver) ''g'' sample_document ''ada'' ''secret''
      \<lparr>PrincipalName = ''ada'', PrincipalRole = ''owner'', PrincipalGroup = ''g''\<rparr>"
    by (simp add: member_grant_def sample_document_def sample_env_def)
  moreover have "beginAttempt sample_env None ''ada'' sample_resolver = (Inr [], sample_resolver)"
    by (simp add: beginAttempt_def sample_resolver_def)
  ultimately show ?thesis
    using Authenticate_exact [OF ok env] sample_root sample_load by (simp add: validRole_def)
qed

text \<open>
  Further property. Accounting: when the limiter admits an attempt, \<^verbatim>\<open>Authenticate\<close> completes exactly
  that reservation; the outcome it reports is success exactly when a principal is returned, and
  aborted exactly when the key derivation of the user's token could not run, so such an attempt
  neither counts as a failure nor clears earlier ones. The key-derivation slot is given back.
\<close>

theorem Authenticate_accounting:
  assumes "cache_ok git (controls r)" "control_load env = Load git" "attempts r = Some l"
    "begin_attempt (unicode_lower env) ctx user (begin_time env) l = (l1, Inr keys)"
    "Authenticate env ctx grp user secret r = (res, r')"
  shows "\<exists>oc. attempts r' = Some (finish keys oc (finish_time env) l1) \<and> secretKDF r' = secretKDF r \<and>
    (oc = attemptSucceeded \<longleftrightarrow> (\<exists>p. res = Inr p)) \<and>
    (oc = attemptAborted \<longleftrightarrow> (\<exists>g d j err. RootGroup grp = Inr g \<and> Load_uncached git g = Inr d \<and>
       j < length (Tokens d) \<and> token_verdict env (secretKDF r) d user secret j = Some (Inl err)))"
proof -
  let ?r1 = "r\<lparr>attempts := Some l1\<rparr>"
  obtain res0 oc r2 where b: "authenticate_body env grp user secret ?r1 = (res0, oc, r2)"
    by (metis surj_pair)
  have "beginAttempt env ctx user r = (Inr keys, ?r1)" using assms(3,4) by (simp add: beginAttempt_def)
  then have res: "res = res0" "r' = finishAttempt env keys oc r2"
    using assms(5) b by (auto simp: Authenticate_def)
  have c1: "cache_ok git (controls ?r1)" using assms(1) by simp
  note o = cached.body_outcome [OF c1 assms(2) b]
  have load: "fst (Load git (controls ?r1) g) = Load_uncached git g" for g
    using Load_correct [OF assms(1)] by simp
  have "attempts r2 = Some l1" "secretKDF r2 = secretKDF r" using o(3,4) by simp_all
  then have "attempts r' = Some (finish keys oc (finish_time env) l1)" "secretKDF r' = secretKDF r"
    unfolding res by (simp_all add: finishAttempt_def)
  moreover have "secretKDF ?r1 = secretKDF r" by simp
  ultimately show ?thesis using o(1) o(2) [unfolded load] unfolding res by metis
qed

theorem Authenticate_accounting_witness:
  "\<exists>l1 res r' oc.
     begin_attempt id None ''ada'' 1 (NewAttemptLimiter default_options) = (l1, Inr [''user:ada'']) \<and>
     Authenticate sample_env None ''g'' ''ada'' ''secret''
       (sample_resolver\<lparr>attempts := Some (NewAttemptLimiter default_options)\<rparr>) = (res, r') \<and>
     attempts r' = Some (finish [''user:ada''] oc 1 l1)"
proof -
  let ?l = "NewAttemptLimiter default_options"
  let ?r = "sample_resolver\<lparr>attempts := Some ?l\<rparr>"
  have trim: "TrimSpace ''ada'' = ''ada''" by (rule TrimSpace_plain) (simp add: plain_char_def)
  have keys: "attempt_keys id None ''ada'' = [''user:ada'']"
    by (simp add: attempt_keys_def trim ToLower_def ascii_lower_def ClientIP_def less_eq_char_def)
  obtain l1 where b: "begin_attempt id None ''ada'' 1 ?l = (l1, Inr [''user:ada''])"
    by (simp add: begin_attempt_def keys trackedKeysLocked_def sweepLocked_def NewAttemptLimiter_def
        default_options_def Let_def touch_def)
  obtain res r' where a: "Authenticate sample_env None ''g'' ''ada'' ''secret'' ?r = (res, r')"
    by (metis surj_pair)
  have "\<exists>oc. attempts r' = Some (finish [''user:ada''] oc (finish_time sample_env) l1)"
    using Authenticate_accounting [OF _ _ _ _ a, of sample_git ?l l1 "[''user:ada'']"] b
    by (auto simp: sample_env_def sample_resolver_def cache_ok_def)
  moreover have "finish_time sample_env = 1" by (simp add: sample_env_def)
  ultimately show ?thesis using a b by metis
qed

text \<open>
  Property C24. Stored secrets: what \<^verbatim>\<open>HashSecret\<close> stores for a secret verifies against another
  secret exactly when both derive the same key under the stored salt; in particular the secret
  itself verifies. The assumptions are those of the standard library: the random source fills
  the 16-byte salt, and the key derivation returns as many bytes as it is asked for.
\<close>

theorem HashSecret_VerifySecret:
  assumes "HashSecret kdf random lim secret = (Inr encoded, lim')"
    "\<And>salt. random = Inr salt \<Longrightarrow> length salt = 16"
    "\<And>s salt n len key. kdf s salt n len = Inr key \<Longrightarrow> length key = len"
    "slots free < capacity free"
  shows "VerifySecret kdf free encoded secret \<and>
    (VerifySecret kdf free encoded other \<longleftrightarrow>
       (\<exists>salt. random = Inr salt \<and> (\<exists>key. kdf secret salt pbkdf2Iterations pbkdf2KeyBytes = Inr key \<and>
          kdf other salt pbkdf2Iterations pbkdf2KeyBytes = Inr key)))"
proof -
  obtain salt hash where h: "random = Inr salt" "kdf secret salt pbkdf2Iterations pbkdf2KeyBytes = Inr hash"
      "encoded = ''$pbkdf2-sha256$i='' @ print_nat pbkdf2Iterations @ ''$'' @
        RawEncode base64_std salt @ ''$'' @ RawEncode base64_std hash"
    using assms(1) by (auto simp: HashSecret_def split: if_splits sum.splits)
  have len: "length salt = 16" "length hash = pbkdf2KeyBytes" using assms(2,3) h(1,2) by auto
  obtain taken where t: "kdf_acquire free = Inr taken" using assms(4) by (simp add: kdf_acquire_def)
  have "VerifySecret kdf free encoded s \<longleftrightarrow> kdf s salt pbkdf2Iterations pbkdf2KeyBytes = Inr hash" for s
    unfolding VerifySecret_def h(3)
    by (subst verify_stored [OF _ _ _ _ len(2) t]) (auto simp: len split: sum.split)
  then show ?thesis using h(1,2) by auto
qed

theorem HashSecret_VerifySecret_witness:
  "let kdf = (\<lambda>secret salt n len. Inr (take len (secret @ replicate len (CHR ''k''))));
       lim = newSecretKDFLimiter 4 in
   case HashSecret kdf (Inr (replicate 16 (CHR ''s''))) lim ''pw'' of
     (Inr encoded, _) \<Rightarrow> VerifySecret kdf lim encoded ''pw''
   | _ \<Rightarrow> False"
proof -
  define kdf where "kdf = (\<lambda>(secret :: string) (salt :: string) (n :: nat) len.
     (Inr (take len (secret @ replicate len (CHR ''k''))) :: string result))"
  define lim where "lim = newSecretKDFLimiter 4"
  obtain encoded where e: "HashSecret kdf (Inr (replicate 16 (CHR ''s''))) lim ''pw'' = (Inr encoded, lim)"
    by (simp add: HashSecret_def lim_def kdf_acquire_def kdf_release_def newSecretKDFLimiter_def kdf_def)
  have "length key = len" if "kdf s salt n len = Inr key" for s salt n len key
    using that by (auto simp: kdf_def)
  then have "VerifySecret kdf lim encoded ''pw''"
    by (intro HashSecret_VerifySecret [OF e, THEN conjunct1]) (auto simp: lim_def newSecretKDFLimiter_def)
  then show ?thesis using e unfolding kdf_def lim_def by simp
qed

end
