(* ===== verification/LfsPointer.thy ===== *)
theory LfsPointer
  imports Encoding
begin

text \<open>
  Git LFS pointer files, \<^verbatim>\<open>src/internal/lfspointer/pointer.go\<close>: the parser and the object-id
  check. The lemmas give the exact language of pointer files the parser accepts.
\<close>

section \<open>The parser\<close>

record pointer =
  OID :: string
  Size :: int

abbreviation newline :: char where "newline \<equiv> CHR 0x0A"

text \<open>\<^verbatim>\<open>strings.ReplaceAll\<close> of carriage return and line feed by a line feed.\<close>

fun replace_crlf :: "string \<Rightarrow> string" where
  "replace_crlf (a # b # s) =
     (if a = CHR 0x0D \<and> b = newline then newline # replace_crlf s else a # replace_crlf (b # s))"
| "replace_crlf [a] = [a]"
| "replace_crlf [] = []"

text \<open>\<^verbatim>\<open>hex.DecodeString\<close> succeeds on an even number of hexadecimal digits.\<close>

definition ValidOID :: "(string \<Rightarrow> string) \<Rightarrow> string \<Rightarrow> bool" where
  "ValidOID lower v =
     (if length v \<noteq> 64 \<or> ToLower lower v \<noteq> v then False
      else even (length v) \<and> list_all is_hex v)"

definition decimalDigits :: "string \<Rightarrow> bool" where
  "decimalDigits v \<longleftrightarrow> list_all is_digit v \<and> v \<noteq> []"

text \<open>\<^verbatim>\<open>strconv.ParseInt(value, 10, 64)\<close> on a string of digits.\<close>

definition ParseInt64 :: "string \<Rightarrow> int option" where
  "ParseInt64 v = (if decimal_value v < 2 ^ 63 then Some (int (decimal_value v)) else None)"

text \<open>One line after the version line: the pointer and the two flags, or rejection.\<close>

definition parse_line ::
    "(string \<Rightarrow> string) \<Rightarrow> string \<Rightarrow> pointer \<times> bool \<times> bool \<Rightarrow> (pointer \<times> bool \<times> bool) option" where
  "parse_line lower line st =
     (case st of (p, hasOID, hasSize) \<Rightarrow>
      (case Cut line (CHR '' '') of (key, v, found) \<Rightarrow>
        if \<not> found \<or> v = [] then None
        else if key = ''oid'' then
          (if hasOID \<or> \<not> HasPrefix v ''sha256:'' then None
           else let oid = TrimPrefix v ''sha256:'' in
             if \<not> ValidOID lower oid then None else Some (p\<lparr>OID := oid\<rparr>, True, hasSize))
        else if key = ''size'' then
          (if hasSize \<or> \<not> decimalDigits v then None
           else case ParseInt64 v of None \<Rightarrow> None
             | Some n \<Rightarrow> Some (p\<lparr>Size := n\<rparr>, hasOID, True))
        else if \<not> HasPrefix key ''ext-'' then None
        else Some st))"

fun parse_lines ::
    "(string \<Rightarrow> string) \<Rightarrow> string list \<Rightarrow> pointer \<times> bool \<times> bool \<Rightarrow> (pointer \<times> bool \<times> bool) option" where
  "parse_lines lower [] st = Some st"
| "parse_lines lower (l # ls) st =
     (case parse_line lower l st of None \<Rightarrow> None | Some st' \<Rightarrow> parse_lines lower ls st')"

definition empty_pointer :: pointer where
  "empty_pointer = \<lparr>OID = [], Size = 0\<rparr>"

definition version_line :: string where
  "version_line = ''version https://git-lfs.github.com/spec/v1''"

definition content_lines :: "string \<Rightarrow> string list" where
  "content_lines content =
     (let lines = Split newline (replace_crlf content)
      in if last lines = [] then butlast lines else lines)"

definition Parse :: "(string \<Rightarrow> string) \<Rightarrow> string \<Rightarrow> pointer \<times> bool" where
  "Parse lower content =
     (if length content = 0 \<or> length content > 1024 \<or> CHR 0x00 \<in> set content then (empty_pointer, False)
      else let lines = content_lines content in
        if length lines < 3 \<or> lines ! 0 \<noteq> version_line then (empty_pointer, False)
        else case parse_lines lower (drop 1 lines) (empty_pointer, False, False) of
          None \<Rightarrow> (empty_pointer, False)
        | Some (p, hasOID, hasSize) \<Rightarrow> (p, hasOID \<and> hasSize))"

section \<open>Object ids\<close>

definition lower_hex :: "char \<Rightarrow> bool" where
  "lower_hex c \<longleftrightarrow> is_digit c \<or> (97 \<le> (of_char c :: nat) \<and> (of_char c :: nat) \<le> 102)"

lemma ascii_lower_fixed: "ascii_lower c = c \<longleftrightarrow> \<not> (65 \<le> (of_char c :: nat) \<and> (of_char c :: nat) \<le> 90)"
proof (cases "65 \<le> (of_char c :: nat) \<and> (of_char c :: nat) \<le> 90")
  case True
  then have "(of_char (ascii_lower c) :: nat) = of_char c + 32"
    by (simp add: ascii_lower_def less_eq_char_def of_char_of)
  then show ?thesis using True by auto
next
  case False
  then show ?thesis by (auto simp: ascii_lower_def less_eq_char_def)
qed

lemma lower_hex_iff: "is_hex c \<and> ascii_lower c = c \<longleftrightarrow> lower_hex c"
  unfolding ascii_lower_fixed by (auto simp: is_hex_def lower_hex_def is_digit_def less_eq_char_def)

lemma map_fixed: "map f xs = xs \<longleftrightarrow> (\<forall>x\<in>set xs. f x = x)"
  by (induction xs) auto

lemma ValidOID_iff: "ValidOID lower v \<longleftrightarrow> length v = 64 \<and> list_all lower_hex v"
proof -
  have hex: "is_hex c \<Longrightarrow> (of_char c :: nat) < 128" for c
    by (auto simp: is_hex_def less_eq_char_def)
  have "list_all is_hex v \<and> ToLower lower v = v \<longleftrightarrow> list_all lower_hex v"
  proof
    assume h: "list_all is_hex v \<and> ToLower lower v = v"
    then have "list_all (\<lambda>c. (of_char c :: nat) < 128) v" using hex by (auto simp: list_all_iff)
    then have "map ascii_lower v = v" using h by (simp add: ToLower_def)
    then show "list_all lower_hex v" using h by (auto simp: map_fixed list_all_iff lower_hex_iff [symmetric])
  next
    assume "list_all lower_hex v"
    then have "\<forall>c\<in>set v. is_hex c \<and> ascii_lower c = c" by (auto simp: list_all_iff lower_hex_iff)
    then show "list_all is_hex v \<and> ToLower lower v = v"
      using hex by (auto simp: ToLower_def list_all_iff map_fixed)
  qed
  then show ?thesis by (auto simp: ValidOID_def)
qed

section \<open>Lines\<close>

definition oid_line :: "string \<Rightarrow> string \<Rightarrow> bool" where
  "oid_line l v \<longleftrightarrow> l = ''oid sha256:'' @ v \<and> length v = 64 \<and> list_all lower_hex v"

definition size_line :: "string \<Rightarrow> string \<Rightarrow> bool" where
  "size_line l v \<longleftrightarrow> l = ''size '' @ v \<and> v \<noteq> [] \<and> list_all is_digit v \<and> decimal_value v < 2 ^ 63"

definition ext_line :: "string \<Rightarrow> bool" where
  "ext_line l \<longleftrightarrow> (\<exists>name v. l = ''ext-'' @ name @ '' '' @ v \<and> CHR '' '' \<notin> set name \<and> v \<noteq> [])"

lemma Cut_line: "Cut l c = (k, v, True) \<longleftrightarrow> l = k @ c # v \<and> c \<notin> set k"
proof
  assume "Cut l c = (k, v, True)"
  then have "c \<in> set l" "k = takeWhile (\<lambda>x. x \<noteq> c) l" "v = tl (dropWhile (\<lambda>x. x \<noteq> c) l)"
    by (auto simp: Cut_def split: if_splits)
  moreover from this(1) have "dropWhile (\<lambda>x. x \<noteq> c) l = c # tl (dropWhile (\<lambda>x. x \<noteq> c) l)"
    by (induction l) auto
  ultimately show "l = k @ c # v \<and> c \<notin> set k"
    by (metis (mono_tags, lifting) set_takeWhileD takeWhile_dropWhile_id)
next
  assume "l = k @ c # v \<and> c \<notin> set k"
  then show "Cut l c = (k, v, True)" using Cut_found by blast
qed


lemma oid_line_cut:
  "oid_line l v \<longleftrightarrow> Cut l (CHR '' '') = (''oid'', ''sha256:'' @ v, True) \<and> length v = 64 \<and> list_all lower_hex v"
  unfolding Cut_line oid_line_def by simp

lemma size_line_cut:
  "size_line l v \<longleftrightarrow> Cut l (CHR '' '') = (''size'', v, True) \<and> v \<noteq> [] \<and> list_all is_digit v \<and>
     decimal_value v < 2 ^ 63"
  unfolding Cut_line size_line_def by simp

lemma ext_line_cut:
  "ext_line l \<longleftrightarrow> (\<exists>name v. Cut l (CHR '' '') = (''ext-'' @ name, v, True) \<and> v \<noteq> [])"
  unfolding Cut_line ext_line_def by auto

lemmas line_cuts = oid_line_cut size_line_cut ext_line_cut

lemma parse_line_Some:
  "parse_line lower l (p, a, b) = Some st \<longleftrightarrow>
     (\<exists>v. oid_line l v \<and> \<not> a \<and> st = (p\<lparr>OID := v\<rparr>, True, b)) \<or>
     (\<exists>v. size_line l v \<and> \<not> b \<and> st = (p\<lparr>Size := int (decimal_value v)\<rparr>, a, True)) \<or>
     (ext_line l \<and> st = (p, a, b))"
proof -
  obtain k v f where c: "Cut l (CHR '' '') = (k, v, f)" by (cases "Cut l (CHR '' '')") auto
  consider "\<not> f \<or> v = []" | "f" "v \<noteq> []" "k = ''oid''" | "f" "v \<noteq> []" "k = ''size''"
    | "f" "v \<noteq> []" "k \<noteq> ''oid''" "k \<noteq> ''size''" by blast
  then show ?thesis
  proof cases
    case 1
    then show ?thesis by (auto simp: parse_line_def c line_cuts)
  next
    case 2
    show ?thesis
    proof (cases "HasPrefix v ''sha256:''")
      case True
      then obtain t where t: "v = ''sha256:'' @ t" by (rule HasPrefixE)
      show ?thesis
        using 2 by (auto simp: t parse_line_def c line_cuts Let_def ValidOID_iff HasPrefix_def TrimPrefix_def)
    next
      case False
      then have "v \<noteq> ''sha256:'' @ t" for t by (metis HasPrefix_append)
      then show ?thesis using 2 False by (auto simp: parse_line_def c line_cuts)
    qed
  next
    case 3
    then show ?thesis
      by (auto simp: parse_line_def c line_cuts decimalDigits_def ParseInt64_def)
  next
    case 4
    have "HasPrefix k ''ext-'' \<longleftrightarrow> (\<exists>name. k = ''ext-'' @ name)"
      by (auto simp: HasPrefix_def prefix_def)
    then show ?thesis using 4 by (simp add: parse_line_def c line_cuts) blast
  qed
qed

definition is_oid :: "string \<Rightarrow> bool" where
  "is_oid l \<longleftrightarrow> (\<exists>v. oid_line l v)"

definition is_size :: "string \<Rightarrow> bool" where
  "is_size l \<longleftrightarrow> (\<exists>v. size_line l v)"

lemma line_kinds_disjoint:
  "oid_line l v \<Longrightarrow> \<not> is_size l" "oid_line l v \<Longrightarrow> \<not> ext_line l"
  "size_line l v \<Longrightarrow> \<not> is_oid l" "size_line l v \<Longrightarrow> \<not> ext_line l"
  "ext_line l \<Longrightarrow> \<not> is_oid l" "ext_line l \<Longrightarrow> \<not> is_size l"
  by (auto simp: line_cuts is_oid_def is_size_def)

lemma line_unique:
  "oid_line l v \<Longrightarrow> oid_line l w \<longleftrightarrow> w = v" "size_line l v \<Longrightarrow> size_line l w \<longleftrightarrow> w = v"
  by (auto simp: line_cuts)

text \<open>What a list of lines does to one of the two fields of the pointer.\<close>

definition field_set :: "(string \<Rightarrow> bool) \<Rightarrow> bool \<Rightarrow> bool \<Rightarrow> 'a \<Rightarrow> 'a \<Rightarrow> string list \<Rightarrow> bool" where
  "field_set reads seen seen' old new hits \<longleftrightarrow>
     (case hits of [] \<Rightarrow> seen' = seen \<and> new = old | [l] \<Rightarrow> \<not> seen \<and> seen' \<and> reads l | _ \<Rightarrow> False)"

lemma parse_lines_Some:
  "parse_lines lower ls (p, a, b) = Some (p', a', b') \<longleftrightarrow>
     list_all (\<lambda>l. is_oid l \<or> is_size l \<or> ext_line l) ls \<and>
     field_set (\<lambda>l. oid_line l (OID p')) a a' (OID p) (OID p') (filter is_oid ls) \<and>
     field_set (\<lambda>l. \<exists>v. size_line l v \<and> Size p' = int (decimal_value v)) b b' (Size p) (Size p') (filter is_size ls)"
proof (induction ls arbitrary: p a b)
  case Nil
  show ?case by (cases p; cases p') (auto simp: field_set_def)
next
  case (Cons l ls)
  consider v where "oid_line l v" | v where "size_line l v" | "ext_line l"
    | "\<not> is_oid l" "\<not> is_size l" "\<not> ext_line l" by (auto simp: is_oid_def is_size_def)
  then show ?case
  proof cases
    case (1 v)
    note d = line_kinds_disjoint(1,2) [OF 1]
    have l: "is_oid l" using 1 by (auto simp: is_oid_def)
    have pl: "parse_line lower l (p, a, b) = (if a then None else Some (p\<lparr>OID := v\<rparr>, True, b))"
    proof (cases "parse_line lower l (p, a, b)")
      case None
      then show ?thesis using 1 parse_line_Some [of lower l p a b "(p\<lparr>OID := v\<rparr>, True, b)"] by auto
    next
      case (Some st)
      then show ?thesis using d line_unique(1) [OF 1] by (auto simp: parse_line_Some is_size_def)
    qed
    show ?thesis
      using l d line_unique(1) [OF 1]
      by (cases "filter is_oid ls") (auto simp: pl Cons.IH field_set_def split: list.split)
  next
    case (2 v)
    note d = line_kinds_disjoint(3,4) [OF 2]
    have l: "is_size l" using 2 by (auto simp: is_size_def)
    have pl: "parse_line lower l (p, a, b) = (if b then None else Some (p\<lparr>Size := int (decimal_value v)\<rparr>, a, True))"
    proof (cases "parse_line lower l (p, a, b)")
      case None
      then show ?thesis using 2 parse_line_Some [of lower l p a b "(p\<lparr>Size := int (decimal_value v)\<rparr>, a, True)"] by auto
    next
      case (Some st)
      then show ?thesis using d line_unique(2) [OF 2] by (auto simp: parse_line_Some is_oid_def)
    qed
    show ?thesis
      using l d line_unique(2) [OF 2]
      by (cases "filter is_size ls") (auto simp: pl Cons.IH field_set_def split: list.split)
  next
    case 3
    note d = line_kinds_disjoint(5,6) [OF 3]
    have "parse_line lower l (p, a, b) = Some (p, a, b)" using 3 by (auto simp: parse_line_Some)
    then show ?thesis using 3 d by (simp add: Cons.IH)
  next
    case 4
    then have "parse_line lower l (p, a, b) = None"
      by (metis (no_types, lifting) is_oid_def is_size_def not_Some_eq parse_line_Some)
    then show ?thesis using 4 by simp
  qed
qed


section \<open>Properties\<close>

text \<open>
  Property C25. The parser accepts exactly the pointer files of the Git LFS specification, version
  1: at most 1024 bytes without a NUL, the version line first, then at least two lines of which
  exactly one gives the object id as 64 lower-case hexadecimal digits of SHA-256, exactly one
  the size as a decimal number below two to the 63rd, and the others are named extensions; and it
  returns that object id and size, whatever the Unicode case tables.
\<close>

theorem Parse_exact:
  "Parse lower content = (p, True) \<longleftrightarrow>
     content \<noteq> [] \<and> length content \<le> 1024 \<and> CHR 0x00 \<notin> set content \<and>
     (\<exists>ls. content_lines content = version_line # ls \<and> 2 \<le> length ls \<and>
        list_all (\<lambda>l. is_oid l \<or> is_size l \<or> ext_line l) ls \<and>
        (\<exists>l. filter is_oid ls = [l] \<and> oid_line l (OID p)) \<and>
        (\<exists>l v. filter is_size ls = [l] \<and> size_line l v \<and> Size p = int (decimal_value v)))"
proof -
  have fs: "field_set reads False True old new hits \<longleftrightarrow> (\<exists>l. hits = [l] \<and> reads l)"
    for reads and old new :: 'z and hits
    by (auto simp: field_set_def split: list.splits)
  have lines: "parse_lines lower ls (empty_pointer, False, False) = Some (p, True, True) \<longleftrightarrow>
      list_all (\<lambda>l. is_oid l \<or> is_size l \<or> ext_line l) ls \<and>
      (\<exists>l. filter is_oid ls = [l] \<and> oid_line l (OID p)) \<and>
      (\<exists>l v. filter is_size ls = [l] \<and> size_line l v \<and> Size p = int (decimal_value v))" for ls
    unfolding parse_lines_Some fs by blast
  have "Parse lower content = (p, True) \<longleftrightarrow>
     content \<noteq> [] \<and> length content \<le> 1024 \<and> CHR 0x00 \<notin> set content \<and>
     (\<exists>ls. content_lines content = version_line # ls \<and> 2 \<le> length ls \<and>
       parse_lines lower ls (empty_pointer, False, False) = Some (p, True, True))"
    by (cases "content_lines content") (auto simp: Parse_def Let_def split: option.split)
  then show ?thesis unfolding lines by blast
qed

end
