(* ===== verification/RepoConfig.thy ===== *)
theory RepoConfig
  imports Encoding
begin

text \<open>
  The repository's build configuration, \<^verbatim>\<open>src/internal/repoconfig/config.go\<close>: the decoded
  \<^verbatim>\<open>.gitone.yaml\<close>, its validation with the depth-first search for dependency cycles, and the
  branch filter. Reading a commit's file and decoding YAML are parameters, and so is the glob
  matcher \<^verbatim>\<open>path.Match\<close>. The search runs on fuel, one unit per nesting level; the lemmas show
  that one more than the number of jobs is always enough, and that validation accepts exactly
  the well-formed configurations with acyclic dependencies.
\<close>

section \<open>Configuration\<close>

record job_config =
  Image :: string
  Script :: "string list"
  Needs :: "string list"
  Manual :: bool
  Branches :: "string list"
  Environment :: "(string \<times> string) list"
  TimeoutSeconds :: int

record config =
  ConfigDescription :: string
  Jobs :: "(string \<times> job_config) list"

abbreviation DefaultTimeoutSeconds :: int where "DefaultTimeoutSeconds \<equiv> 900"
abbreviation MaximumTimeoutSeconds :: int where "MaximumTimeoutSeconds \<equiv> 3600"
abbreviation MaximumJobs :: nat where "MaximumJobs \<equiv> 128"

type_synonym glob = "string \<Rightarrow> string \<Rightarrow> bool result"

section \<open>Reading\<close>

text \<open>
  What go-git and the YAML decoder answer for one repository: the commit of a revision, its
  \<^verbatim>\<open>.gitone.yaml\<close> with the recorded size and its contents, and the decoded configuration.
\<close>

record config_view =
  commit_object :: "string \<Rightarrow> unit result"
  config_file :: "string \<Rightarrow> (int \<times> string result) result"
  decode_yaml :: "string \<Rightarrow> config result"

definition empty_config :: config where
  "empty_config = \<lparr>ConfigDescription = [], Jobs = []\<rparr>"

text \<open>The result has the configuration, whether the file was found, and the error.\<close>

definition Read :: "config_view \<Rightarrow> string \<Rightarrow> config \<times> bool \<times> goerror option" where
  "Read view revision =
     (case commit_object view revision of
        Inl err \<Rightarrow> (empty_config, False, Some err)
      | Inr _ \<Rightarrow>
          (case config_file view revision of
             Inl err \<Rightarrow> if errors_is err ErrNotExist then (empty_config, False, None)
               else (empty_config, False, Some err)
           | Inr (file_size, contents) \<Rightarrow>
               if file_size > 1048576
               then (empty_config, True, Some (Errorf ''.gitone.yaml exceeds 1048576 bytes''))
               else (case contents of
                 Inl err \<Rightarrow> (empty_config, False, Some err)
               | Inr text \<Rightarrow>
                   (case decode_yaml view text of
                      Inl err \<Rightarrow> (empty_config, True, Some (Wrap ''read .gitone.yaml'' err))
                    | Inr config \<Rightarrow> (config, True, None)))))"

section \<open>One job\<close>

definition is_letter :: "char \<Rightarrow> bool" where
  "is_letter c \<longleftrightarrow> (CHR ''A'' \<le> c \<and> c \<le> CHR ''Z'') \<or> (CHR ''a'' \<le> c \<and> c \<le> CHR ''z'')"

text \<open>The regular expressions for environment variables and for job names.\<close>

definition environmentName :: "string \<Rightarrow> bool" where
  "environmentName s = (case s of [] \<Rightarrow> False
     | c # cs \<Rightarrow> (is_letter c \<or> c = CHR ''_'') \<and>
         list_all (\<lambda>x. is_letter x \<or> is_digit x \<or> x = CHR ''_'') cs)"

definition jobName :: "string \<Rightarrow> bool" where
  "jobName s = (case s of [] \<Rightarrow> False
     | c # cs \<Rightarrow> (is_letter c \<or> is_digit c) \<and> length cs \<le> 99 \<and>
         list_all (\<lambda>x. is_letter x \<or> is_digit x \<or> x \<in> set ''._-'') cs)"

fun check_branches :: "glob \<Rightarrow> string list \<Rightarrow> unit result" where
  "check_branches match [] = Inr ()"
| "check_branches match (p # ps) =
     (if TrimSpace p = [] then Inl (Errorf ''job branch pattern cannot be empty'')
      else case match p ''main'' of
        Inl err \<Rightarrow> Inl (Wrap (''invalid job branch pattern '' @ p) err)
      | Inr _ \<Rightarrow> check_branches match ps)"

fun check_environment :: "(string \<times> string) list \<Rightarrow> unit result" where
  "check_environment [] = Inr ()"
| "check_environment ((name, _) # es) =
     (if \<not> environmentName name then Inl (Errorf (''invalid job environment variable '' @ name))
      else if HasPrefix name ''GITONE_'' \<or> HasPrefix name ''CI_''
      then Inl (Errorf (''job environment variable '' @ name @ '' is reserved''))
      else check_environment es)"

definition JobConfig_Validate :: "glob \<Rightarrow> job_config \<Rightarrow> unit result" where
  "JobConfig_Validate match b =
     checks [
       fail_if (TrimSpace (Image b) = []) (Errorf ''job image is required''),
       fail_if (HasPrefix (TrimSpace (Image b)) ''-'') (Errorf (''job image cannot begin with '' @ [CHR 0x27, CHR ''-'', CHR 0x27])),
       fail_if (length (Script b) = 0) (Errorf ''job script must contain at least one command''),
       check_each (\<lambda>index command. fail_if (TrimSpace command = [])
         (Errorf (''job script command '' @ print_nat (index + 1) @ '' is empty''))) 0 (Script b),
       check_branches match (Branches b),
       check_environment (Environment b),
       fail_if (TimeoutSeconds b < 0 \<or> TimeoutSeconds b > MaximumTimeoutSeconds)
         (Errorf ''job timeoutSeconds must be between 0 and 3600'')]"

definition Timeout :: "job_config \<Rightarrow> int" where
  "Timeout b = (if TimeoutSeconds b = 0 then DefaultTimeoutSeconds else TimeoutSeconds b)"

definition MatchesBranch :: "glob \<Rightarrow> job_config \<Rightarrow> string \<Rightarrow> bool" where
  "MatchesBranch match b branch =
     (if length (Branches b) = 0 then True
      else list_ex (\<lambda>pattern. match pattern branch = Inr True) (Branches b))"

section \<open>All jobs\<close>

definition empty_job :: job_config where
  "empty_job = \<lparr>Image = [], Script = [], Needs = [], Manual = False, Branches = [], Environment = [],
     TimeoutSeconds = 0\<rparr>"

definition job_of :: "(string \<times> job_config) list \<Rightarrow> string \<Rightarrow> job_config" where
  "job_of jobs name = (case map_of jobs name of None \<Rightarrow> empty_job | Some job \<Rightarrow> job)"

fun check_needs :: "(string \<times> job_config) list \<Rightarrow> string \<Rightarrow> string list \<Rightarrow> string list \<Rightarrow> unit result" where
  "check_needs jobs name seen [] = Inr ()"
| "check_needs jobs name seen (need # needs) =
     (if \<not> jobName need then Inl (Errorf (''job '' @ name @ '' has invalid dependency name '' @ need))
      else if need = name then Inl (Errorf (''job '' @ name @ '' cannot depend on itself''))
      else if map_of jobs need = None
      then Inl (Errorf (''job '' @ name @ '' depends on missing job '' @ need))
      else if need \<in> set seen
      then Inl (Errorf (''job '' @ name @ '' lists dependency '' @ need @ '' more than once''))
      else check_needs jobs name (need # seen) needs)"

fun check_jobs :: "glob \<Rightarrow> (string \<times> job_config) list \<Rightarrow> string list \<Rightarrow> unit result" where
  "check_jobs match jobs [] = Inr ()"
| "check_jobs match jobs (name # names) =
     (let job = job_of jobs name in
      if \<not> jobName name then Inl (Errorf (''invalid job name '' @ name @
             ''; use 1-100 letters, numbers, dots, underscores, or hyphens''))
      else case JobConfig_Validate match job of
        Inl err \<Rightarrow> Inl (Wrap (''job '' @ name) err)
      | Inr _ \<Rightarrow>
          (case check_needs jobs name [] (Needs job) of
             Inl err \<Rightarrow> Inl err
           | Inr _ \<Rightarrow> check_jobs match jobs names))"

text \<open>
  The depth-first search. A state has the colour of every job (0 new, 1 on the stack, 2 done)
  and the stack. \<^const>\<open>None\<close> is lack of fuel.
\<close>

type_synonym dfs = "(string \<Rightarrow> nat) \<times> string list"

fun visit_each :: "(string \<Rightarrow> dfs \<Rightarrow> dfs result option) \<Rightarrow> string list \<Rightarrow> dfs \<Rightarrow> dfs result option" where
  "visit_each visit [] s = Some (Inr s)"
| "visit_each visit (n # ns) s =
     (case visit n s of
        None \<Rightarrow> None
      | Some (Inl err) \<Rightarrow> Some (Inl err)
      | Some (Inr s') \<Rightarrow> visit_each visit ns s')"

fun visit :: "(string \<times> job_config) list \<Rightarrow> nat \<Rightarrow> string \<Rightarrow> dfs \<Rightarrow> dfs result option" where
  "visit jobs 0 name s = None"
| "visit jobs (Suc fuel) name (states, stack) =
     (if states name = 2 then Some (Inr (states, stack))
      else if states name = 1
      then Some (Inl (Errorf (''job dependency cycle: '' @
             Join (dropWhile (\<lambda>entry. entry \<noteq> name) stack @ [name]) '' -> '')))
      else case visit_each (visit jobs fuel) (Needs (job_of jobs name)) (states(name := 1), stack @ [name]) of
        None \<Rightarrow> None
      | Some (Inl err) \<Rightarrow> Some (Inl err)
      | Some (Inr (states', stack')) \<Rightarrow> Some (Inr (states'(name := 2), butlast stack')))"

text \<open>
  \<^verbatim>\<open>Config.Validate\<close> with a bound on the depth of the search: \<^const>\<open>None\<close> means that the search
  did not return within the bound, which is neither acceptance nor rejection.
\<close>

definition Config_Validate_within :: "nat \<Rightarrow> glob \<Rightarrow> config \<Rightarrow> unit result option" where
  "Config_Validate_within fuel match c =
     (if length (Jobs c) > MaximumJobs
      then Some (Inl (Errorf (''configuration has '' @ print_nat (length (Jobs c)) @ '' jobs; maximum is 128'')))
      else let names = sort (map fst (Jobs c)) in
        case check_jobs match (Jobs c) names of
          Inl err \<Rightarrow> Some (Inl err)
        | Inr _ \<Rightarrow>
            (case visit_each (visit (Jobs c) fuel) names (\<lambda>_. 0, []) of
               None \<Rightarrow> None
             | Some (Inl err) \<Rightarrow> Some (Inl err)
             | Some (Inr _) \<Rightarrow> Some (Inr ())))"

text \<open>
  The call as its callers use it, one level of search per job and one more. That it returns is
  \<open>Config_Validate_exact\<close> below.
\<close>

definition Config_Validate :: "glob \<Rightarrow> config \<Rightarrow> unit result" where
  "Config_Validate match c = the (Config_Validate_within (Suc (length (Jobs c))) match c)"


section \<open>The search\<close>

definition edges :: "(string \<times> job_config) list \<Rightarrow> (string \<times> string) set" where
  "edges jobs = {(a, b). b \<in> set (Needs (job_of jobs a))}"

text \<open>
  The invariant of the search: the stack is a path of distinct jobs, exactly the ones in
  progress; finished jobs depend on finished jobs only and are on no cycle.
\<close>

definition dfs_ok :: "(string \<times> job_config) list \<Rightarrow> dfs \<Rightarrow> bool" where
  "dfs_ok jobs s \<longleftrightarrow> (case s of (states, stack) \<Rightarrow>
     distinct stack \<and> set stack \<subseteq> fst ` set jobs \<and> (\<forall>n. states n = 1 \<longleftrightarrow> n \<in> set stack) \<and>
     successively (\<lambda>a b. (a, b) \<in> edges jobs) stack \<and>
     (\<forall>a b. states a = 2 \<longrightarrow> (a, b) \<in> edges jobs \<longrightarrow> states b = 2) \<and>
     (\<forall>a. states a = 2 \<longrightarrow> (a, a) \<notin> (edges jobs)\<^sup>+))"

definition called_from :: "(string \<times> job_config) list \<Rightarrow> string list \<Rightarrow> string \<Rightarrow> bool" where
  "called_from jobs stack name \<longleftrightarrow> stack = [] \<or> (last stack, name) \<in> edges jobs"

definition visited :: "(string \<times> job_config) list \<Rightarrow> string list \<Rightarrow> dfs \<Rightarrow> dfs result option \<Rightarrow> bool" where
  "visited jobs ns s r \<longleftrightarrow> (case r of
     None \<Rightarrow> False
   | Some (Inl _) \<Rightarrow> \<exists>x. (x, x) \<in> (edges jobs)\<^sup>+
   | Some (Inr s') \<Rightarrow> dfs_ok jobs s' \<and> snd s' = snd s \<and> (\<forall>n\<in>set ns. fst s' n = 2) \<and>
       (\<forall>n. fst s n = 2 \<longrightarrow> fst s' n = 2))"

lemma visited_None [simp]: "\<not> visited jobs ns s None"
  by (simp add: visited_def)

lemma visit_each_visited:
  assumes "\<And>n s'. n \<in> set ns \<Longrightarrow> dfs_ok jobs s' \<Longrightarrow> snd s' = snd s \<Longrightarrow> visited jobs [n] s' (f n s')"
    "dfs_ok jobs s"
  shows "visited jobs ns s (visit_each f ns s)"
  using assms
proof (induction ns arbitrary: s)
  case Nil
  then show ?case by (simp add: visited_def)
next
  case (Cons n ns)
  have v: "visited jobs [n] s (f n s)" using Cons.prems by simp
  show ?case
  proof (cases "f n s")
    case None
    with v show ?thesis by simp
  next
    case (Some r)
    show ?thesis
    proof (cases r)
      case (Inl e)
      with v Some show ?thesis by (simp add: visited_def)
    next
      case (Inr s')
      with v Some have s': "dfs_ok jobs s'" "snd s' = snd s" "fst s' n = 2" "\<forall>m. fst s m = 2 \<longrightarrow> fst s' m = 2"
        by (auto simp: visited_def)
      have "visited jobs ns s' (visit_each f ns s')"
        using Cons.IH [of s'] Cons.prems(1) s'(1,2) by simp
      then show ?thesis
        using s' Some Inr by (auto simp: visited_def split: option.splits sum.splits)
    qed
  qed
qed

lemma path_to_last:
  assumes "successively (\<lambda>a b. (a, b) \<in> E) xs" "x \<in> set xs"
  shows "(x, last xs) \<in> E\<^sup>*"
  using assms
proof (induction xs arbitrary: x)
  case (Cons y ys)
  show ?case
  proof (cases ys)
    case Nil
    with Cons.prems show ?thesis by simp
  next
    case (Cons z zs)
    with Cons.prems(1) have e: "(y, z) \<in> E" "successively (\<lambda>a b. (a, b) \<in> E) ys" by auto
    have "(w, last ys) \<in> E\<^sup>*" if "w \<in> set ys" for w using Cons.IH [OF e(2) that] .
    moreover have "z \<in> set ys" using Cons by simp
    ultimately show ?thesis
      using Cons.prems(2) e(1) Cons by (auto intro: converse_rtrancl_into_rtrancl)
  qed
qed simp

lemma closed_trancl:
  assumes "\<And>a b. P a \<Longrightarrow> (a, b) \<in> E \<Longrightarrow> P b" "P x" "(x, y) \<in> E\<^sup>*"
  shows "P y"
  using assms(3,2,1) by (induction rule: rtrancl_induct) auto


lemma dfs_okD:
  assumes "dfs_ok jobs (states, stack)"
  shows "distinct stack" "set stack \<subseteq> fst ` set jobs" "states n = 1 \<longleftrightarrow> n \<in> set stack"
    "successively (\<lambda>a b. (a, b) \<in> edges jobs) stack"
    "states a = 2 \<Longrightarrow> (a, b) \<in> edges jobs \<Longrightarrow> states b = 2"
    "states a = 2 \<Longrightarrow> (a, a) \<notin> (edges jobs)\<^sup>+"
  using assms by (simp_all add: dfs_ok_def)

text \<open>A job that is met again while it is on the stack closes a cycle.\<close>

lemma on_stack_cycle:
  assumes "dfs_ok jobs (states, stack)" "called_from jobs stack name" "states name = 1"
  shows "\<exists>x. (x, x) \<in> (edges jobs)\<^sup>+"
proof -
  have n: "name \<in> set stack" using dfs_okD(3) [OF assms(1)] assms(3) by blast
  then have "(name, last stack) \<in> (edges jobs)\<^sup>*" using path_to_last dfs_okD(4) [OF assms(1)] by fast
  moreover have "(last stack, name) \<in> edges jobs" using assms(2) n by (auto simp: called_from_def)
  ultimately show ?thesis by (meson rtrancl_into_trancl1)
qed

text \<open>Pushing a new job, and marking it done once its dependencies are.\<close>

lemma dfs_push:
  assumes "dfs_ok jobs (states, stack)" "called_from jobs stack name" "name \<in> fst ` set jobs"
    "states name \<noteq> 1" "states name \<noteq> 2"
  shows "dfs_ok jobs (states(name := 1), stack @ [name])"
proof -
  note d = dfs_okD [OF assms(1)]
  have "name \<notin> set stack" using d(3) [of name] assms(4) by simp
  moreover have "successively (\<lambda>a b. (a, b) \<in> edges jobs) (stack @ [name])"
    using d(4) assms(2) by (auto simp: successively_append_iff called_from_def)
  moreover have "b \<noteq> name" if "states a = 2" "(a, b) \<in> edges jobs" for a b
    using d(5) [OF that] assms(5) by auto
  ultimately show ?thesis using d assms(3) by (auto simp: dfs_ok_def)
qed

lemma dfs_pop:
  assumes "dfs_ok jobs (states, stack @ [name])" "\<forall>b\<in>set (Needs (job_of jobs name)). states b = 2"
  shows "dfs_ok jobs (states(name := 2), stack)"
proof -
  note d = dfs_okD [OF assms(1)]
  have one: "states name = 1" using d(3) [of name] by simp
  have fin: "states b = 2" if "(name, b) \<in> edges jobs" for b
    using assms(2) that by (simp add: edges_def)
  have "(name, name) \<notin> (edges jobs)\<^sup>+"
  proof
    assume "(name, name) \<in> (edges jobs)\<^sup>+"
    then obtain b where b: "(name, b) \<in> edges jobs" "(b, name) \<in> (edges jobs)\<^sup>*" by (meson tranclD)
    have "states name = 2" using closed_trancl [of "\<lambda>n. states n = 2", OF d(5) fin [OF b(1)] b(2)] .
    with one show False by simp
  qed
  moreover have "(states(name := 2)) n = 1 \<longleftrightarrow> n \<in> set stack" for n
    using d(1) d(3) [of n] by auto
  moreover have "successively (\<lambda>a b. (a, b) \<in> edges jobs) stack"
    using d(4) by (simp add: successively_append_iff)
  ultimately show ?thesis
    using d(1,2,5,6) fin unfolding dfs_ok_def by auto
qed

lemma visit_visited:
  assumes closed: "\<And>a b. (a, b) \<in> edges jobs \<Longrightarrow> b \<in> fst ` set jobs"
  shows "dfs_ok jobs s \<Longrightarrow> called_from jobs (snd s) name \<Longrightarrow> name \<in> fst ` set jobs \<Longrightarrow>
    length jobs < fuel + length (snd s) \<Longrightarrow> visited jobs [name] s (visit jobs fuel name s)"
proof (induction fuel arbitrary: name s)
  case 0
  obtain states stack where s: "s = (states, stack)" by fastforce
  have "length stack \<le> card (fst ` set jobs)"
    using dfs_okD(1,2) [OF "0.prems"(1) [unfolded s]] by (metis card_mono distinct_card finite_imageI finite_set)
  also have "\<dots> \<le> length jobs" by (metis card_image_le card_length finite_set order_trans)
  finally show ?case using "0.prems"(4) s by simp
next
  case (Suc fuel)
  obtain states stack where s: "s = (states, stack)" by fastforce
  note ok = Suc.prems(1) [unfolded s] and caller = Suc.prems(2) [unfolded s snd_conv]
  consider "states name = 2" | "states name = 1" | "states name \<noteq> 1" "states name \<noteq> 2" by blast
  then show ?case
  proof cases
    case 1
    then show ?thesis using ok by (simp add: s visited_def)
  next
    case 2
    then show ?thesis using on_stack_cycle [OF ok caller] by (simp add: s visited_def)
  next
    case 3
    let ?s = "(states(name := 1), stack @ [name])"
    have push: "dfs_ok jobs ?s" by (rule dfs_push [OF ok caller Suc.prems(3) 3])
    have "visited jobs (Needs (job_of jobs name)) ?s
        (visit_each (visit jobs fuel) (Needs (job_of jobs name)) ?s)"
    proof (rule visit_each_visited [OF _ push])
      fix n s' assume n: "n \<in> set (Needs (job_of jobs name))" "dfs_ok jobs s'" "snd s' = snd ?s"
      then have e: "(name, n) \<in> edges jobs" by (simp add: edges_def)
      have "called_from jobs (snd s') n" using n(3) e by (simp add: called_from_def)
      moreover have "length jobs < fuel + length (snd s')" using Suc.prems(4) n(3) s by simp
      ultimately show "visited jobs [n] s' (visit jobs fuel n s')"
        using Suc.IH [OF n(2) _ closed [OF e]] by blast
    qed
    then show ?thesis
      using 3 dfs_pop [of jobs _ stack name]
      by (auto simp: s visited_def split: option.splits sum.splits)
  qed
qed


section \<open>What a valid configuration is\<close>

definition wf_job :: "glob \<Rightarrow> job_config \<Rightarrow> bool" where
  "wf_job match b \<longleftrightarrow>
     TrimSpace (Image b) \<noteq> [] \<and> hd (TrimSpace (Image b)) \<noteq> CHR ''-'' \<and>
     Script b \<noteq> [] \<and> (\<forall>command\<in>set (Script b). TrimSpace command \<noteq> []) \<and>
     (\<forall>p\<in>set (Branches b). TrimSpace p \<noteq> [] \<and> (\<exists>m. match p ''main'' = Inr m)) \<and>
     (\<forall>(name, v)\<in>set (Environment b). environmentName name \<and>
        \<not> HasPrefix name ''GITONE_'' \<and> \<not> HasPrefix name ''CI_'') \<and>
     0 \<le> TimeoutSeconds b \<and> TimeoutSeconds b \<le> 3600"

definition wf_config :: "glob \<Rightarrow> config \<Rightarrow> bool" where
  "wf_config match c \<longleftrightarrow> length (Jobs c) \<le> 128 \<and>
     (\<forall>name \<in> fst ` set (Jobs c). jobName name \<and> wf_job match (job_of (Jobs c) name) \<and>
        distinct (Needs (job_of (Jobs c) name)) \<and>
        set (Needs (job_of (Jobs c) name)) \<subseteq> fst ` set (Jobs c)) \<and>
     acyclic (edges (Jobs c))"

lemma check_branches_Inr:
  "check_branches match ps = Inr u \<longleftrightarrow> (\<forall>p\<in>set ps. TrimSpace p \<noteq> [] \<and> (\<exists>m. match p ''main'' = Inr m))"
  by (induction match ps rule: check_branches.induct) (auto split: sum.splits)

lemma check_environment_Inr:
  "check_environment es = Inr u \<longleftrightarrow> (\<forall>(name, v)\<in>set es. environmentName name \<and>
     \<not> HasPrefix name ''GITONE_'' \<and> \<not> HasPrefix name ''CI_'')"
  by (induction es rule: check_environment.induct) auto

lemma JobConfig_Validate_Inr: "JobConfig_Validate match b = Inr u \<longleftrightarrow> wf_job match b"
proof -
  have hyphen: "HasPrefix s ''-'' \<longleftrightarrow> s \<noteq> [] \<and> hd s = CHR ''-''" for s
    by (cases s) (auto simp: HasPrefix_def)
  have script: "check_each (\<lambda>index command. fail_if (TrimSpace command = []) (e index)) 0 xs = Inr () \<longleftrightarrow>
      (\<forall>command\<in>set xs. TrimSpace command \<noteq> [])" for e xs
    by (simp add: check_each_Inr all_set_conv_all_nth)
  show ?thesis
    unfolding JobConfig_Validate_def checks_Inr wf_job_def
    by (auto simp: hyphen script check_branches_Inr check_environment_Inr)
qed

lemma check_needs_Inr:
  "check_needs jobs name seen needs = Inr u \<longleftrightarrow>
     distinct needs \<and> set needs \<inter> set seen = {} \<and>
     (\<forall>need\<in>set needs. jobName need \<and> need \<noteq> name \<and> need \<in> fst ` set jobs)"
  by (induction jobs name seen needs rule: check_needs.induct) (auto simp: map_of_eq_None_iff)

lemma check_jobs_Inr:
  "check_jobs match jobs names = Inr u \<longleftrightarrow> (\<forall>name\<in>set names. jobName name \<and>
     wf_job match (job_of jobs name) \<and> check_needs jobs name [] (Needs (job_of jobs name)) = Inr ())"
proof (induction match jobs names rule: check_jobs.induct)
  case (2 match jobs name names)
  show ?case
  proof (cases "JobConfig_Validate match (job_of jobs name)")
    case (Inl e)
    then have "\<not> wf_job match (job_of jobs name)" using JobConfig_Validate_Inr by (metis sum.distinct(1))
    with Inl show ?thesis by (simp add: Let_def)
  next
    case (Inr v)
    then have "wf_job match (job_of jobs name)" using JobConfig_Validate_Inr by blast
    with Inr 2 [OF refl] show ?thesis
      by (cases "check_needs jobs name [] (Needs (job_of jobs name))") (auto simp: Let_def)
  qed
qed simp

text \<open>The search from every job, in any order, succeeds exactly without cycles.\<close>

lemma search_result:
  assumes "\<And>a b. (a, b) \<in> edges jobs \<Longrightarrow> b \<in> fst ` set jobs" "set names = fst ` set jobs" "length jobs < fuel"
  shows "(\<exists>s. visit_each (visit jobs fuel) names (\<lambda>_. 0, []) = Some (Inr s)) \<longleftrightarrow> acyclic (edges jobs)"
    "visit_each (visit jobs fuel) names (\<lambda>_. 0, []) \<noteq> None"
proof -
  let ?r = "visit_each (visit jobs fuel) names (\<lambda>_. 0, [])"
  have ok: "dfs_ok jobs (\<lambda>_. 0, [])" by (simp add: dfs_ok_def)
  have v: "visited jobs names (\<lambda>_. 0, []) ?r"
  proof (rule visit_each_visited [OF _ ok])
    fix n s' assume n: "n \<in> set names" "dfs_ok jobs s'" "snd s' = snd (\<lambda>_ :: string. 0 :: nat, [] :: string list)"
    show "visited jobs [n] s' (visit jobs fuel n s')"
      by (rule visit_visited [OF assms(1) n(2)]) (use n assms(2,3) in \<open>auto simp: called_from_def\<close>)
  qed
  then show "?r \<noteq> None" by (auto simp: visited_def split: option.splits)
  have "acyclic (edges jobs)" if "?r = Some (Inr s)" for s
  proof (rule acyclicI, intro allI notI)
    fix x assume x: "(x, x) \<in> (edges jobs)\<^sup>+"
    obtain states stack where s: "s = (states, stack)" by fastforce
    have "dfs_ok jobs (states, stack)" "\<forall>n\<in>fst ` set jobs. states n = 2"
      using v that assms(2) by (auto simp: visited_def s)
    moreover have "x \<in> fst ` set jobs" using x assms(1) by (meson tranclD2)
    ultimately show False using dfs_okD(6) x by blast
  qed
  moreover have "\<not> acyclic (edges jobs)" if "?r = Some (Inl e)" for e
    using v that by (auto simp: visited_def acyclic_def)
  ultimately show "(\<exists>s. ?r = Some (Inr s)) \<longleftrightarrow> acyclic (edges jobs)"
    using \<open>?r \<noteq> None\<close> by (metis not_None_eq old.sum.exhaust)
qed

lemma edges_from_jobs: "(a, b) \<in> edges jobs \<Longrightarrow> a \<in> fst ` set jobs"
  by (force simp: edges_def job_of_def empty_job_def split: option.splits dest: map_of_SomeD)

lemma Config_Validate_result:
  assumes "length (Jobs c) < fuel"
  shows "\<exists>r. Config_Validate_within fuel match c = Some r \<and> (r = Inr () \<longleftrightarrow> wf_config match c)"
proof -
  let ?jobs = "Jobs c"
  let ?names = "sort (map fst ?jobs)"
  let ?search = "visit_each (visit ?jobs fuel) ?names (\<lambda>_. 0, [])"
  have names: "set ?names = fst ` set ?jobs" by simp
  have needs: "check_needs ?jobs n [] (Needs (job_of ?jobs n)) = Inr () \<longleftrightarrow>
      distinct (Needs (job_of ?jobs n)) \<and>
      (\<forall>m\<in>set (Needs (job_of ?jobs n)). jobName m \<and> m \<noteq> n \<and> m \<in> fst ` set ?jobs)" for n
    by (simp add: check_needs_Inr)
  have closed: "b \<in> fst ` set ?jobs" if "check_jobs match ?jobs ?names = Inr ()" "(a, b) \<in> edges ?jobs" for a b
  proof -
    have "a \<in> set ?names" using edges_from_jobs that(2) names by blast
    then show ?thesis using that needs by (auto simp: check_jobs_Inr edges_def)
  qed
  have "\<exists>r. Config_Validate_within fuel match c = Some r \<and> (r = Inr () \<longleftrightarrow>
      length ?jobs \<le> 128 \<and> check_jobs match ?jobs ?names = Inr () \<and> acyclic (edges ?jobs))"
  proof (cases "check_jobs match ?jobs ?names")
    case (Inl e)
    then show ?thesis by (simp add: Config_Validate_within_def Let_def)
  next
    case (Inr u)
    then have ok: "check_jobs match ?jobs ?names = Inr ()" by simp
    have cl: "b \<in> fst ` set ?jobs" if "(a, b) \<in> edges ?jobs" for a b by (rule closed [OF ok that])
    have r: "(\<exists>s. ?search = Some (Inr s)) \<longleftrightarrow> acyclic (edges ?jobs)" "?search \<noteq> None"
      by (rule search_result; (rule cl names assms)?; assumption)+
    then obtain x where "?search = Some x" by blast
    with r(1) ok show ?thesis by (cases x) (auto simp: Config_Validate_within_def Let_def)
  qed
  moreover have "length ?jobs \<le> 128 \<and> check_jobs match ?jobs ?names = Inr () \<and> acyclic (edges ?jobs) \<longleftrightarrow> wf_config match c"
  proof (cases "acyclic (edges ?jobs)")
    case True
    have ir: "m \<noteq> n" if "m \<in> set (Needs (job_of ?jobs n))" for m n
      using True that by (auto simp: acyclic_def edges_def)
    have jn: "(\<forall>n\<in>fst ` set ?jobs. jobName n \<and> wf_job match (job_of ?jobs n) \<and> distinct (Needs (job_of ?jobs n)) \<and>
          (\<forall>m\<in>set (Needs (job_of ?jobs n)). jobName m \<and> m \<noteq> n \<and> m \<in> fst ` set ?jobs)) \<longleftrightarrow>
        (\<forall>n\<in>fst ` set ?jobs. jobName n \<and> wf_job match (job_of ?jobs n) \<and> distinct (Needs (job_of ?jobs n)) \<and>
          set (Needs (job_of ?jobs n)) \<subseteq> fst ` set ?jobs)"
      using ir by (intro iffI ballI conjI) blast+
    then show ?thesis unfolding wf_config_def check_jobs_Inr names needs using True by simp
  next
    case False
    then show ?thesis by (simp add: wf_config_def)
  qed
  ultimately show ?thesis by simp
qed

text \<open>More fuel does not change a result.\<close>

lemma visit_each_mono:
  assumes "visit_each f ns s = Some x" "\<And>n s y. f n s = Some y \<Longrightarrow> g n s = Some y"
  shows "visit_each g ns s = Some x"
  using assms(1) by (induction ns arbitrary: s) (auto simp: assms(2) split: option.splits sum.splits)

lemma visit_mono: "visit jobs fuel n s = Some x \<Longrightarrow> visit jobs (fuel + k) n s = Some x"
proof (induction fuel arbitrary: n s x)
  case (Suc fuel)
  obtain states stack where s: "s = (states, stack)" by fastforce
  have each: "visit_each (visit jobs (fuel + k)) ns s' = Some y" if "visit_each (visit jobs fuel) ns s' = Some y" for ns s' y
    by (rule visit_each_mono [OF that Suc.IH])
  show ?case
    using Suc.prems each by (auto simp: s split: if_splits option.splits)
qed simp

lemma Config_Validate_mono:
  assumes "Config_Validate_within fuel match c = Some r"
  shows "Config_Validate_within (fuel + k) match c = Some r"
proof -
  have "visit_each (visit jobs (fuel + k)) ns s = Some y" if "visit_each (visit jobs fuel) ns s = Some y" for jobs ns s y
    by (rule visit_each_mono [OF that visit_mono])
  with assms show ?thesis
    by (auto simp: Config_Validate_within_def Let_def split: if_splits sum.splits option.splits)
qed

section \<open>Properties\<close>

text \<open>
  Property C10. \<^verbatim>\<open>Config.Validate\<close> always returns, and accepts exactly the well-formed
  configurations: at most 128 jobs with valid names, images, scripts, branch patterns, environment
  variables and timeouts, whose dependencies name other jobs of the configuration, once each, and
  form no cycle; everything else gets an error. The search for cycles returns within one level more
  than there are jobs, and any larger bound gives the same result, so the bound is never what
  rejects a configuration.
\<close>

theorem Config_Validate_exact:
  "\<exists>r. Config_Validate_within (Suc (length (Jobs c) + k)) match c = Some r \<and> Config_Validate match c = r \<and>
     (case r of Inr _ \<Rightarrow> wf_config match c | Inl err \<Rightarrow> \<not> wf_config match c)"
proof -
  obtain r where r: "Config_Validate_within (Suc (length (Jobs c))) match c = Some r"
    "r = Inr () \<longleftrightarrow> wf_config match c"
    using Config_Validate_result [of c "Suc (length (Jobs c))" match] by auto
  have "Config_Validate_within (Suc (length (Jobs c) + k)) match c = Some r"
    using Config_Validate_mono [OF r(1), of k] by simp
  then show ?thesis using r by (cases r) (simp_all add: Config_Validate_def)
qed

text \<open>
  Further property. A job of a valid configuration runs with a timeout between one second and one
  hour, and a job without branch patterns runs on every branch.
\<close>

theorem valid_job_timeout:
  assumes "Config_Validate match c = Inr ()" "(name, job) \<in> set (Jobs c)" "distinct (map fst (Jobs c))"
  shows "1 \<le> Timeout job \<and> Timeout job \<le> 3600 \<and> (Branches job = [] \<longrightarrow> MatchesBranch match job branch)"
proof -
  have "wf_config match c"
    using assms(1) Config_Validate_result [of c "Suc (length (Jobs c))" match] by (auto simp: Config_Validate_def)
  moreover have "job_of (Jobs c) name = job" using assms(2,3) by (simp add: job_of_def)
  ultimately have "wf_job match job" using assms(2) unfolding wf_config_def by force
  then show ?thesis by (auto simp: wf_job_def Timeout_def MatchesBranch_def)
qed


theorem valid_job_timeout_witness:
  "let job = \<lparr>Image = ''go'', Script = [''test''], Needs = [], Manual = False, Branches = [], Environment = [],
         TimeoutSeconds = 0\<rparr>;
       match = (\<lambda>_ _. Inr False) in
   Config_Validate match \<lparr>ConfigDescription = [], Jobs = [(''ci'', job)]\<rparr> = Inr () \<and>
   1 \<le> Timeout job \<and> Timeout job \<le> 3600 \<and> MatchesBranch match job ''main''"
proof -
  define job where "job = \<lparr>Image = ''go'', Script = [''test''], Needs = [], Manual = False, Branches = [],
    Environment = [], TimeoutSeconds = 0\<rparr>"
  define match :: glob where "match = (\<lambda>_ _. Inr False)"
  define c where "c = \<lparr>ConfigDescription = [], Jobs = [(''ci'', job)]\<rparr>"
  have trim: "TrimSpace ''go'' = ''go''" "TrimSpace ''test'' = ''test''"
    by (auto intro!: TrimSpace_plain simp: plain_char_def)
  have v: "JobConfig_Validate match job = Inr ()"
    unfolding JobConfig_Validate_Inr by (simp add: wf_job_def job_def trim)
  have n: "jobName ''ci''" by (simp add: jobName_def is_letter_def less_eq_char_def)
  have "Needs job = []" "Branches job = []" by (simp_all add: job_def)
  then have ok: "Config_Validate match c = Inr ()"
    by (simp add: Config_Validate_def Config_Validate_within_def c_def job_of_def v n Let_def)
  moreover have "1 \<le> Timeout job \<and> Timeout job \<le> 3600 \<and> (Branches job = [] \<longrightarrow> MatchesBranch match job ''main'')"
    by (rule valid_job_timeout [OF ok, of "''ci''"]) (simp_all add: c_def)
  ultimately show ?thesis using \<open>Branches job = []\<close> unfolding job_def match_def c_def Let_def by simp
qed

end
