(* ===== verification/FileSystem.thy ===== *)
theory FileSystem
  imports Encoding "HOL-Library.AList"
begin

text \<open>
  The part of the operating system the record stores use, as state passing: directories of
  named files, the calls of Go's \<^verbatim>\<open>os\<close> package on them, and a script of faults. Every call
  consults the script first, so each of them can fail at any point and every error branch of
  the callers is reachable. The lemmas give the effect of each call on the directories.
\<close>

section \<open>State\<close>

text \<open>
  A directory entry: a regular file with its contents, a symbolic link (to a regular file with
  the given contents, or dangling), or a subdirectory.
\<close>

datatype node = Regular string | Link "string option" | Subdir

type_synonym directory = "(string \<times> node) list"

text \<open>
  \<open>dirs\<close> has the directories by absolute path, \<open>plain_files\<close> the paths outside them that exist
  and are not directories, \<open>faults\<close> what happens to the next calls: \<^const>\<open>True\<close> fails.
\<close>

record file_system =
  dirs :: "(string \<times> directory) list"
  plain_files :: "string list"
  faults :: "bool list"

type_synonym 'a io = "file_system \<Rightarrow> 'a result \<times> file_system"

definition dir_at :: "file_system \<Rightarrow> string \<Rightarrow> directory option" where
  "dir_at s p = map_of (dirs s) p"

definition put_dir :: "string \<Rightarrow> directory \<Rightarrow> file_system \<Rightarrow> file_system" where
  "put_dir p d s = s\<lparr>dirs := AList.update p d (dirs s)\<rparr>"

definition drop_dir :: "string \<Rightarrow> file_system \<Rightarrow> file_system" where
  "drop_dir p s = s\<lparr>dirs := AList.delete p (dirs s)\<rparr>"

lemma dir_at_put [simp]: "dir_at (put_dir p d s) q = (if q = p then Some d else dir_at s q)"
  by (simp add: dir_at_def put_dir_def update_conv')

lemma dir_at_drop [simp]: "dir_at (drop_dir p s) q = (if q = p then None else dir_at s q)"
  by (simp add: dir_at_def drop_dir_def delete_conv')

lemma dir_at_faults [simp]: "dir_at (s\<lparr>faults := fs\<rparr>) = dir_at s"
  by (simp add: fun_eq_iff dir_at_def)

lemma plain_put [simp]: "plain_files (put_dir p d s) = plain_files s" "plain_files (drop_dir p s) = plain_files s"
  by (simp_all add: put_dir_def drop_dir_def)

lemma faults_put [simp]: "faults (put_dir p d s) = faults s" "faults (drop_dir p s) = faults s"
  by (simp_all add: put_dir_def drop_dir_def)

section \<open>Sequencing\<close>

definition return_io :: "'a \<Rightarrow> 'a io" where
  "return_io x = (\<lambda>s. (Inr x, s))"

definition lift_io :: "'a result \<Rightarrow> 'a io" where
  "lift_io r = (\<lambda>s. (r, s))"

definition bindio :: "'a io \<Rightarrow> ('a \<Rightarrow> 'b io) \<Rightarrow> 'b io" where
  "bindio m f = (\<lambda>s. case m s of (Inl e, s') \<Rightarrow> (Inl e, s') | (Inr x, s') \<Rightarrow> f x s')"

text \<open>The result of a call as a value, for code that looks at the error.\<close>

definition attempt :: "'a io \<Rightarrow> 'a result io" where
  "attempt m = (\<lambda>s. case m s of (r, s') \<Rightarrow> (Inr r, s'))"

text \<open>A deferred clean-up: it runs whatever the result, and its own result is dropped.\<close>

definition cleanup :: "'a io \<Rightarrow> 'b io \<Rightarrow> 'a io" where
  "cleanup m c = (\<lambda>s. case m s of (r, s') \<Rightarrow> (r, snd (c s')))"

lemma return_io_apply [simp]: "return_io x s = (Inr x, s)"
  by (simp add: return_io_def)

lemma lift_io_apply [simp]: "lift_io r s = (r, s)"
  by (simp add: lift_io_def)

lemma bindio_Inl: "m s = (Inl e, s') \<Longrightarrow> bindio m f s = (Inl e, s')"
  by (simp add: bindio_def)

lemma bindio_Inr: "m s = (Inr x, s') \<Longrightarrow> bindio m f s = f x s'"
  by (simp add: bindio_def)

lemma bindio_cases:
  assumes "bindio m f s = (r, t)"
  obtains (failed) e where "m s = (Inl e, t)" "r = Inl e"
    | (went_on) x s' where "m s = (Inr x, s')" "f x s' = (r, t)"
  using assms by (auto simp: bindio_def split: prod.splits sum.splits)

lemma bindio_lift [simp]: "bindio (lift_io r) f s = (case r of Inl e \<Rightarrow> (Inl e, s) | Inr x \<Rightarrow> f x s)"
  by (simp add: bindio_def)

lemma attempt_cases:
  assumes "attempt m s = (r, t)"
  obtains x where "r = Inr x" "m s = (x, t)"
  using assms by (auto simp: attempt_def split: prod.splits)

lemma bindio_attempt: "bindio (attempt m) f s = (case m s of (x, s') \<Rightarrow> f x s')"
  by (simp add: bindio_def attempt_def split: prod.split)

text \<open>An operation that touches nothing but the fault script.\<close>

definition quiet :: "'a io \<Rightarrow> bool" where
  "quiet m \<longleftrightarrow> (\<forall>s r t. m s = (r, t) \<longrightarrow> dirs t = dirs s \<and> plain_files t = plain_files s)"

lemma quietD: "quiet m \<Longrightarrow> m s = (r, t) \<Longrightarrow> dirs t = dirs s \<and> plain_files t = plain_files s"
  by (auto simp: quiet_def)

lemma quiet_return [intro, simp]: "quiet (return_io x)" "quiet (lift_io r)" "quiet (Pair r)"
  by (simp_all add: quiet_def)

lemma quiet_bind [intro]:
  assumes "quiet m" "\<And>x. quiet (f x)"
  shows "quiet (bindio m f)"
  unfolding quiet_def
proof (intro allI impI)
  fix s r t assume "bindio m f s = (r, t)"
  then show "dirs t = dirs s \<and> plain_files t = plain_files s"
    by (rule bindio_cases) (use quietD [OF assms(1)] quietD [OF assms(2)] in metis)+
qed

lemma quiet_attempt [intro]: "quiet m \<Longrightarrow> quiet (attempt m)"
  unfolding quiet_def by (metis attempt_cases)

section \<open>System calls\<close>

definition syscall :: "unit io" where
  "syscall s = (case faults s of
     [] \<Rightarrow> (Inr (), s)
   | fault # rest \<Rightarrow> (if fault then Inl ErrIO else Inr (), s\<lparr>faults := rest\<rparr>))"

text \<open>A call that, when it does not fail, has the given effect.\<close>

definition call_io :: "'a io \<Rightarrow> 'a io" where
  "call_io effect = bindio syscall (\<lambda>_. effect)"

definition exists_path :: "file_system \<Rightarrow> string \<Rightarrow> bool" where
  "exists_path s p \<longleftrightarrow> dir_at s p \<noteq> None \<or> p \<in> set (plain_files s)"

text \<open>\<^verbatim>\<open>os.Stat\<close> on a path outside the record directories: whether it is a directory.\<close>

definition Stat :: "string \<Rightarrow> bool io" where
  "Stat p = call_io (\<lambda>s.
     (if dir_at s p \<noteq> None then Inr True
      else if p \<in> set (plain_files s) then Inr False else Inl ErrNotExist, s))"

definition ReadDir :: "string \<Rightarrow> directory io" where
  "ReadDir d = call_io (\<lambda>s. (case dir_at s d of
     None \<Rightarrow> Inl (if d \<in> set (plain_files s) then ErrIO else ErrNotExist)
   | Some t \<Rightarrow> Inr (sort_key fst t), s))"

text \<open>\<^verbatim>\<open>os.Lstat\<close> on a file of a directory.\<close>

definition Lstat :: "string \<Rightarrow> string \<Rightarrow> unit io" where
  "Lstat d name = call_io (\<lambda>s. (case dir_at s d of
     None \<Rightarrow> Inl (if d \<in> set (plain_files s) then ErrIO else ErrNotExist)
   | Some t \<Rightarrow> if map_of t name = None then Inl ErrNotExist else Inr (), s))"

text \<open>\<^verbatim>\<open>os.Open\<close>, which follows links: the contents, or \<^const>\<open>None\<close> for a directory.\<close>

definition open_node :: "node option \<Rightarrow> string option result" where
  "open_node n = (case n of
     None \<Rightarrow> Inl ErrNotExist
   | Some (Regular c) \<Rightarrow> Inr (Some c)
   | Some (Link None) \<Rightarrow> Inl ErrNotExist
   | Some (Link (Some c)) \<Rightarrow> Inr (Some c)
   | Some Subdir \<Rightarrow> Inr None)"

definition Open :: "string \<Rightarrow> string \<Rightarrow> string option io" where
  "Open d name = call_io (\<lambda>s. (case dir_at s d of
     None \<Rightarrow> Inl (if d \<in> set (plain_files s) then ErrIO else ErrNotExist)
   | Some t \<Rightarrow> open_node (map_of t name), s))"

definition MkdirAll :: "string \<Rightarrow> unit io" where
  "MkdirAll p = call_io (\<lambda>s.
     if p \<in> set (plain_files s) then (Inl ErrIO, s)
     else (Inr (), if dir_at s p = None then put_dir p [] s else s))"

text \<open>
  The random part of a temporary name: a number such that no existing path (no file name of the
  directory) starts with the name it gives.
\<close>

definition fresh_number :: "string \<Rightarrow> string list \<Rightarrow> nat" where
  "fresh_number stem used =
     (case find (\<lambda>n. \<not> list_ex (prefix (stem @ print_nat n)) used) [0..<Suc (sum_list (map length used))] of
        Some n \<Rightarrow> n | None \<Rightarrow> 0)"

definition MkdirTemp :: "string \<Rightarrow> string \<Rightarrow> string io" where
  "MkdirTemp parent stem = call_io (\<lambda>s.
     let base = parent @ ''/'' @ stem;
         p = base @ print_nat (fresh_number base (map fst (dirs s) @ plain_files s))
     in (Inr p, put_dir p [] s))"

text \<open>\<^verbatim>\<open>Chmod\<close>, \<^verbatim>\<open>Sync\<close> and \<^verbatim>\<open>Close\<close> change nothing the program reads.\<close>

definition Touch :: "unit io" where
  "Touch = call_io (return_io ())"

text \<open>\<^verbatim>\<open>os.Rename\<close> of a directory; unlike the system call it refuses every destination that is a directory.\<close>

definition RenameDir :: "string \<Rightarrow> string \<Rightarrow> unit io" where
  "RenameDir src dst = call_io (\<lambda>s. (case dir_at s src of
     None \<Rightarrow> (Inl ErrNotExist, s)
   | Some t \<Rightarrow>
       if dst \<in> set (plain_files s) \<or> dir_at s dst \<noteq> None then (Inl ErrIO, s)
       else (Inr (), put_dir dst t (drop_dir src s))))"

definition RemoveAll :: "string \<Rightarrow> unit io" where
  "RemoveAll p = call_io (\<lambda>s. (Inr (), drop_dir p s))"

definition CreateTemp :: "string \<Rightarrow> string \<Rightarrow> string \<Rightarrow> string io" where
  "CreateTemp d stem ending = call_io (\<lambda>s. (case dir_at s d of
     None \<Rightarrow> (Inl ErrNotExist, s)
   | Some t \<Rightarrow>
       let name = stem @ print_nat (fresh_number stem (map fst t)) @ ending
       in (Inr name, put_dir d (AList.update name (Regular []) t) s)))"

definition WriteFile :: "string \<Rightarrow> string \<Rightarrow> string \<Rightarrow> unit io" where
  "WriteFile d name contents = call_io (\<lambda>s. (case dir_at s d of
     None \<Rightarrow> (Inl ErrNotExist, s)
   | Some t \<Rightarrow> (Inr (), put_dir d (AList.update name (Regular contents) t) s)))"

definition RemoveFile :: "string \<Rightarrow> string \<Rightarrow> unit io" where
  "RemoveFile d name = call_io (\<lambda>s. (case dir_at s d of
     None \<Rightarrow> (Inl ErrNotExist, s)
   | Some t \<Rightarrow>
       if map_of t name = None then (Inl ErrNotExist, s)
       else (Inr (), put_dir d (AList.delete name t) s)))"

definition RenameFile :: "string \<Rightarrow> string \<Rightarrow> string \<Rightarrow> unit io" where
  "RenameFile d old new = call_io (\<lambda>s. (case dir_at s d of
     None \<Rightarrow> (Inl ErrNotExist, s)
   | Some t \<Rightarrow>
       (case map_of t old of
          None \<Rightarrow> (Inl ErrNotExist, s)
        | Some n \<Rightarrow>
            if map_of t new = Some Subdir then (Inl ErrIO, s)
            else (Inr (), put_dir d (AList.update new n (AList.delete old t)) s))))"

text \<open>
  The replacement of a file as the stores do it: a temporary file is created, filled and closed,
  then renamed; the deferred removal of the temporary name runs in every case.
\<close>

definition replace_file :: "string \<Rightarrow> string \<Rightarrow> (string \<Rightarrow> unit io) \<Rightarrow> string \<Rightarrow> unit io" where
  "replace_file d stem fill name =
     bindio (CreateTemp d stem ''.tmp'') (\<lambda>temporary.
       cleanup
         (bindio (attempt (fill temporary)) (\<lambda>written.
          bindio (attempt Touch) (\<lambda>closed.
            case written of
              Inl err \<Rightarrow> lift_io (Inl err)
            | Inr _ \<Rightarrow>
                (case closed of
                   Inl err \<Rightarrow> lift_io (Inl err)
                 | Inr _ \<Rightarrow> RenameFile d temporary name))))
         (RemoveFile d temporary))"

section \<open>Effects of the calls\<close>

lemma quiet_syscall [intro, simp]: "quiet syscall"
  by (auto simp: quiet_def syscall_def split: list.splits)

lemma quiet_call [intro]: "quiet m \<Longrightarrow> quiet (call_io m)"
  unfolding call_io_def by (intro quiet_bind) auto

lemma quiet_reads [intro, simp]:
  "quiet (Stat p)" "quiet (ReadDir d)" "quiet (Lstat d name)" "quiet (Open d name)" "quiet Touch"
  unfolding Stat_def ReadDir_def Lstat_def Open_def Touch_def
  by (intro quiet_call; simp add: quiet_def)+

lemma no_faults_syscall [simp]: "faults s = [] \<Longrightarrow> syscall s = (Inr (), s)"
  by (simp add: syscall_def)

lemma no_faults_call [simp]: "faults s = [] \<Longrightarrow> call_io m s = m s"
  by (simp add: call_io_def bindio_def)

text \<open>A call fails before it did anything, or has its effect.\<close>

lemma call_io_cases:
  assumes "call_io m s = (r, t)"
  obtains (fault) fs where "r = Inl ErrIO" "t = s\<lparr>faults := fs\<rparr>"
    | (effect) fs where "m (s\<lparr>faults := fs\<rparr>) = (r, t)"
proof (cases "faults s")
  case Nil
  then have "s = s\<lparr>faults := []\<rparr>" by simp
  then show ?thesis using assms Nil effect [of "[]"] by (metis no_faults_call)
next
  case (Cons f fs)
  then show ?thesis
    using assms fault [of fs] effect [of fs]
    by (cases f) (auto simp: call_io_def bindio_def syscall_def)
qed


section \<open>Fresh names\<close>

lemma print_nat_inj: "print_nat m = print_nat n \<Longrightarrow> m = n"
  by (metis decimal_value_print)

lemma card_prefix_numbers:
  "finite {n. prefix (stem @ print_nat n) u} \<and> card {n. prefix (stem @ print_nat n) u} \<le> length u"
proof -
  let ?A = "{n. prefix (stem @ print_nat n) u}" and ?f = "\<lambda>n. length (stem @ print_nat n)"
  have inj: "inj_on ?f ?A"
  proof (rule inj_onI)
    fix m n assume h: "m \<in> ?A" "n \<in> ?A" "?f m = ?f n"
    then have "stem @ print_nat m = stem @ print_nat n"
      by (metis mem_Collect_eq prefix_length_prefix prefix_order.antisym order_refl)
    then show "m = n" using print_nat_inj by simp
  qed
  have sub: "?f ` ?A \<subseteq> {1..length u}"
  proof
    fix k assume "k \<in> ?f ` ?A"
    then obtain n where n: "prefix (stem @ print_nat n) u" "k = ?f n" by blast
    have "1 \<le> length (print_nat n)" by (cases "print_nat n") auto
    then show "k \<in> {1..length u}" using n(2) prefix_length_le [OF n(1)] by (simp del: One_nat_def)
  qed
  have "finite ?A" using inj sub finite_imageD finite_subset [OF sub] by blast
  moreover have "card ?A \<le> card {1..length u}" using card_inj_on_le [OF inj sub] by simp
  ultimately show ?thesis by simp
qed

lemma card_used_numbers:
  "finite {n. list_ex (prefix (stem @ print_nat n)) us} \<and>
   card {n. list_ex (prefix (stem @ print_nat n)) us} \<le> sum_list (map length us)"
proof (induction us)
  case (Cons u us)
  let ?A = "{n. prefix (stem @ print_nat n) u}" and ?B = "{n. list_ex (prefix (stem @ print_nat n)) us}"
  have eq: "{n. list_ex (prefix (stem @ print_nat n)) (u # us)} = ?A \<union> ?B" by auto
  have "card (?A \<union> ?B) \<le> card ?A + card ?B" by (rule card_Un_le)
  then show ?case unfolding eq using Cons card_prefix_numbers [of stem u] by simp
qed simp

lemma fresh_number_new: "u \<in> set used \<Longrightarrow> \<not> prefix (stem @ print_nat (fresh_number stem used)) u"
proof -
  let ?N = "sum_list (map length used)"
  let ?bad = "{n. list_ex (prefix (stem @ print_nat n)) used}"
  have "\<not> {0..<Suc ?N} \<subseteq> ?bad"
    using card_used_numbers [of stem used] card_mono [of ?bad "{0..<Suc ?N}"] by auto
  then obtain n where "n \<in> {0..<Suc ?N}" "n \<notin> ?bad" by blast
  then have "n \<in> set [0..<Suc ?N]" "\<not> list_ex (prefix (stem @ print_nat n)) used"
    by (simp_all del: upt_Suc)
  then obtain m where "find (\<lambda>n. \<not> list_ex (prefix (stem @ print_nat n)) used) [0..<Suc ?N] = Some m"
    using find_None_iff [of "\<lambda>n. \<not> list_ex (prefix (stem @ print_nat n)) used" "[0..<Suc ?N]"]
    by (metis option.exhaust)
  moreover from this have "\<not> list_ex (prefix (stem @ print_nat m)) used"
    unfolding find_Some_iff by blast
  ultimately have "\<not> list_ex (prefix (stem @ print_nat (fresh_number stem used))) used"
    by (simp add: fresh_number_def)
  moreover assume "u \<in> set used"
  ultimately show ?thesis by (auto simp: list_ex_iff)
qed

lemma fresh_name_not_in:
  "stem @ print_nat (fresh_number stem (map fst t)) @ ending \<notin> fst ` set t"
proof
  let ?n = "print_nat (fresh_number stem (map fst t))"
  assume "stem @ ?n @ ending \<in> fst ` set t"
  then have "stem @ ?n @ ending \<in> set (map fst t)" by simp
  from fresh_number_new [OF this] show False
    by (metis append.assoc prefixI)
qed

end
