(* ===== verification/RecordStore.thy ===== *)
theory RecordStore
  imports LockMgr FileSystem
begin

text \<open>
  The record stores for issues and merge requests, \<^verbatim>\<open>src/internal/issue/store.go\<close> and
  \<^verbatim>\<open>src/internal/review/store.go\<close>. The two packages have the same code up to the record type,
  the names in messages and a few suffixes; this theory has that code once, with the differences
  as fields of the store. JSON is a parameter of the store: what \<^verbatim>\<open>encoding/json\<close> makes of a
  record and of a file. The theories Issue and Review instantiate it.
\<close>

section \<open>Stores\<close>

text \<open>
  \<open>decode_first\<close> is the first \<^verbatim>\<open>Decode\<close> of a file with unknown fields refused;
  \<open>decode_rest\<close> the second one: \<^const>\<open>None\<close> at the end of the file, a second document, or
  an error.
\<close>

record 'r codec =
  marshal :: "'r \<Rightarrow> string result"
  decode_first :: "string \<Rightarrow> 'r result"
  decode_rest :: "string \<Rightarrow> unit result option"

record 'r store =
  store_root :: string
  store_env :: lock_env
  store_suffix :: string
  noun :: string
  store_noun :: string
  file_stem :: string
  relocate_stem :: string
  rewrite_stem :: string
  walk_skips :: "string list"
  codec :: "'r codec"
  record_id :: "'r \<Rightarrow> nat"
  set_repository :: "string \<Rightarrow> 'r \<Rightarrow> 'r"
  normalize :: "'r \<Rightarrow> 'r"
  validate :: "repository \<Rightarrow> nat \<Rightarrow> 'r \<Rightarrow> unit result"
  repository_locks :: "repository list \<Rightarrow> request list"
  group_locks :: "string list \<Rightarrow> request list"

abbreviation maximumRecordBytes :: nat where "maximumRecordBytes \<equiv> 8388608"

section \<open>Paths and names\<close>

definition validateRepository :: "repository \<Rightarrow> unit result" where
  "validateRepository repo =
     (case ParseGitRequestPath (''/'' @ Full repo @ ''.git/info/refs'') of
        Inl err \<Rightarrow> Inl (Wrap ''invalid repository'' err)
      | Inr (parsed, _) \<Rightarrow>
          if Full parsed \<noteq> Full repo
          then Inl (Wrap ''invalid repository'' (Errorf ''repository path is not canonical''))
          else Inr ())"

definition repositoryDirectory :: "'r store \<Rightarrow> repository \<Rightarrow> string result" where
  "repositoryDirectory st repo =
     bindr (validateRepository repo) (\<lambda>_.
       SafeJoin (getwd (store_env st)) (store_root st) (Groups repo @ [Name repo @ store_suffix st]))"

definition repositoryGitDirectory :: "'r store \<Rightarrow> repository \<Rightarrow> string result" where
  "repositoryGitDirectory st repo =
     bindr (validateRepository repo) (\<lambda>_.
       SafeJoin (getwd (store_env st)) (store_root st) (Groups repo @ [Name repo @ ''.git'']))"

definition record_name :: "nat \<Rightarrow> string" where
  "record_name rid = print_nat rid @ ''.json''"

definition recordPath :: "'r store \<Rightarrow> string \<Rightarrow> nat \<Rightarrow> string result" where
  "recordPath st directory rid =
     (if rid = 0 then Inl (Errorf (noun st @ '' ID must be greater than zero''))
      else SafeJoin (getwd (store_env st)) directory [record_name rid])"

definition parseRecordName :: "'r store \<Rightarrow> string \<Rightarrow> nat result" where
  "parseRecordName st name =
     (let stem = TrimSuffix name ''.json'';
          bad = Inl (Errorf (''invalid '' @ noun st @ '' record name '' @ name))
      in case ParseUint 64 stem of
           None \<Rightarrow> bad
         | Some rid \<Rightarrow> if rid = 0 \<or> print_nat rid \<noteq> stem then bad else Inr rid)"

section \<open>Reading\<close>

definition not_regular :: "'r store \<Rightarrow> string \<Rightarrow> goerror" where
  "not_regular st name = Errorf (noun st @ '' record '' @ name @ '' is not a regular file'')"

definition read_error :: "'r store \<Rightarrow> nat \<Rightarrow> goerror \<Rightarrow> goerror" where
  "read_error st rid err = InvalidRecord (Wrap (''read '' @ noun st @ '' '' @ print_nat rid) err)"

text \<open>What \<^verbatim>\<open>readRecord\<close> makes of the contents of a regular file.\<close>

definition decode_record :: "'r store \<Rightarrow> repository \<Rightarrow> nat \<Rightarrow> string \<Rightarrow> 'r result" where
  "decode_record st repo rid contents =
     (if length contents > maximumRecordBytes
      then Inl (InvalidRecord (Errorf (noun st @ '' record '' @ record_name rid @ '' is too large'')))
      else case decode_first (codec st) contents of
        Inl err \<Rightarrow> Inl (read_error st rid err)
      | Inr rec \<Rightarrow>
          (case decode_rest (codec st) contents of
             Some (Inr _) \<Rightarrow> Inl (read_error st rid (Errorf ''record must contain one JSON document''))
           | Some (Inl err) \<Rightarrow> Inl (read_error st rid err)
           | None \<Rightarrow>
               (case validate st repo rid rec of
                  Inl err \<Rightarrow> Inl (read_error st rid err)
                | Inr _ \<Rightarrow> Inr rec)))"

definition readRecord :: "'r store \<Rightarrow> string \<Rightarrow> repository \<Rightarrow> nat \<Rightarrow> 'r io" where
  "readRecord st directory repo rid =
     bindio (lift_io (recordPath st directory rid)) (\<lambda>_.
     bindio (Open directory (record_name rid)) (\<lambda>file.
     bindio Touch (\<lambda>_.
       lift_io (case file of
         None \<Rightarrow> Inl (not_regular st (record_name rid))
       | Some contents \<Rightarrow> decode_record st repo rid contents))))"

fun scan_entries ::
    "'r store \<Rightarrow> string \<Rightarrow> repository \<Rightarrow> bool \<Rightarrow> directory \<Rightarrow> 'r list \<times> nat \<Rightarrow> ('r list \<times> nat) io" where
  "scan_entries st directory repo skipInvalid [] acc = return_io acc"
| "scan_entries st directory repo skipInvalid ((name, node) # entries) (records, maximumID) =
     (let continue = scan_entries st directory repo skipInvalid entries in
      if \<not> HasSuffix name ''.json'' then continue (records, maximumID)
      else bindio Touch (\<lambda>_.
        case node of
          Regular _ \<Rightarrow>
            (case parseRecordName st name of
               Inl err \<Rightarrow> if skipInvalid then continue (records, maximumID) else lift_io (Inl err)
             | Inr rid \<Rightarrow>
                 bindio (attempt (readRecord st directory repo rid)) (\<lambda>r.
                   case r of
                     Inl err \<Rightarrow>
                       if skipInvalid \<and> as_invalid_record err then continue (records, maximumID)
                       else lift_io (Inl err)
                   | Inr rec \<Rightarrow> continue (records @ [rec], max rid maximumID)))
        | _ \<Rightarrow> if skipInvalid then continue (records, maximumID) else lift_io (Inl (not_regular st name))))"

definition scanDirectory :: "'r store \<Rightarrow> string \<Rightarrow> repository \<Rightarrow> bool \<Rightarrow> ('r list \<times> nat) io" where
  "scanDirectory st directory repo skipInvalid =
     bindio (attempt (ReadDir directory)) (\<lambda>r.
       case r of
         Inl err \<Rightarrow> if errors_is err ErrNotExist then return_io ([], 0) else lift_io (Inl err)
       | Inr entries \<Rightarrow>
           bindio (scan_entries st directory repo skipInvalid entries ([], 0)) (\<lambda>(records, maximumID).
             return_io (rev (sort_key (record_id st) records), maximumID)))"

definition listDirectory :: "'r store \<Rightarrow> string \<Rightarrow> repository \<Rightarrow> 'r list io" where
  "listDirectory st directory repo = bindio (scanDirectory st directory repo False) (\<lambda>(rs, _). return_io rs)"

definition listValid :: "'r store \<Rightarrow> repository \<Rightarrow> ('r list \<times> nat) io" where
  "listValid st repo =
     bindio (lift_io (repositoryDirectory st repo)) (\<lambda>directory. scanDirectory st directory repo True)"

definition list_records :: "'r store \<Rightarrow> repository \<Rightarrow> 'r list io" where
  "list_records st repo = bindio (listValid st repo) (\<lambda>(rs, _). return_io rs)"

definition get_record :: "'r store \<Rightarrow> repository \<Rightarrow> nat \<Rightarrow> 'r io" where
  "get_record st repo rid =
     bindio (lift_io (repositoryDirectory st repo)) (\<lambda>directory.
     bindio (attempt (readRecord st directory repo rid)) (\<lambda>r.
       lift_io (case r of
         Inl err \<Rightarrow> if errors_is err ErrNotExist
           then Inl (Wrap (print_nat rid) (Sentinel (noun st @ '' not found''))) else Inl err
       | Inr rec \<Rightarrow> Inr rec)))"

text \<open>The search for an unused record number.\<close>

function next_free :: "'r store \<Rightarrow> string \<Rightarrow> nat \<Rightarrow> nat io" where
  "next_free st directory maximumID =
     (if maximumID < 2 ^ 64 - 1
      then let candidate = maximumID + 1 in
        bindio (lift_io (recordPath st directory candidate)) (\<lambda>_.
        bindio (attempt (Lstat directory (record_name candidate))) (\<lambda>r.
          case r of
            Inl err \<Rightarrow> if errors_is err ErrNotExist then return_io candidate else lift_io (Inl err)
          | Inr _ \<Rightarrow> next_free st directory candidate))
      else lift_io (Inl (Errorf (noun st @ '' ID space is exhausted''))))"
  by pat_completeness auto
termination
  by (relation "measure (\<lambda>(st, directory, maximumID). 2 ^ 64 - maximumID)") auto

declare next_free.simps [simp del]

definition nextRecordID :: "'r store \<Rightarrow> repository \<Rightarrow> nat \<Rightarrow> nat io" where
  "nextRecordID st repo maximumID =
     bindio (lift_io (repositoryDirectory st repo)) (\<lambda>directory. next_free st directory maximumID)"

section \<open>Writing\<close>

text \<open>
  \<^verbatim>\<open>writeRecord\<close>: the record's file is replaced; the temporary file gets its mode, the
  contents and a sync.
\<close>

definition writeRecord :: "'r store \<Rightarrow> string \<Rightarrow> 'r \<Rightarrow> unit io" where
  "writeRecord st directory rec =
     bindio (lift_io (recordPath st directory (record_id st rec))) (\<lambda>_.
     bindio (lift_io (marshal (codec st) rec)) (\<lambda>json.
       let contents = json @ [CHR 0x0A] in
       if length contents > maximumRecordBytes
       then lift_io (Inl (Errorf (noun st @ '' record '' @ print_nat (record_id st rec) @ '' exceeds 8388608 bytes'')))
       else replace_file directory (file_stem st)
         (\<lambda>temporary. bindio Touch (\<lambda>_. bindio (WriteFile directory temporary contents) (\<lambda>_. Touch)))
         (record_name (record_id st rec))))"

definition save :: "'r store \<Rightarrow> repository \<Rightarrow> 'r \<Rightarrow> unit io" where
  "save st repo rec =
     bindio (lift_io (repositoryDirectory st repo)) (\<lambda>directory.
     bindio (MkdirAll directory) (\<lambda>_. writeRecord st directory rec))"

text \<open>The loop that writes rewritten records into a staged directory.\<close>

fun write_rewritten :: "'r store \<Rightarrow> string \<Rightarrow> repository \<Rightarrow> 'r list \<Rightarrow> unit io" where
  "write_rewritten st staged destination [] = return_io ()"
| "write_rewritten st staged destination (rec # recs) =
     (let rec' = normalize st (set_repository st (Full destination) rec) in
      bindio (lift_io (validate st destination (record_id st rec') rec')) (\<lambda>_.
      bindio (writeRecord st staged rec') (\<lambda>_.
        write_rewritten st staged destination recs)))"

text \<open>
  The swap at the end of \<^verbatim>\<open>relocate\<close> and \<^verbatim>\<open>rewriteDirectory\<close>: the source is set aside, the
  staged directory takes the destination's name, and the source comes back if that fails.
\<close>

definition swap_in :: "'r store \<Rightarrow> string \<Rightarrow> string \<Rightarrow> string \<Rightarrow> unit io" where
  "swap_in st source staged destination =
     (let backup = staged @ ''.original'' in
      bindio (RenameDir source backup) (\<lambda>_.
      bindio (attempt (RenameDir staged destination)) (\<lambda>r.
        case r of
          Inl err \<Rightarrow>
            bindio (attempt (RenameDir backup source)) (\<lambda>rollback.
              case rollback of
                Inl rollbackErr \<Rightarrow>
                  lift_io (Inl (JoinErr err (Wrap (''restore '' @ store_noun st @ '' store'') rollbackErr)))
              | Inr _ \<Rightarrow> lift_io (Inl err))
        | Inr _ \<Rightarrow> bindio (attempt (RemoveAll backup)) (\<lambda>_. return_io ()))))"

definition path_Dir :: "string \<Rightarrow> string" where
  "path_Dir p = rooted_path (butlast (path_parts p))"

text \<open>Staging and swapping, common to both operations.\<close>

definition stage_and_swap ::
    "'r store \<Rightarrow> string \<Rightarrow> string \<Rightarrow> string \<Rightarrow> string \<Rightarrow> repository \<Rightarrow> 'r list \<Rightarrow> unit io" where
  "stage_and_swap st parent stem source destinationDirectory destination records =
     bindio (MkdirTemp parent stem) (\<lambda>staged.
       cleanup
         (bindio Touch (\<lambda>_.
          bindio (write_rewritten st staged destination records) (\<lambda>_.
            swap_in st source staged destinationDirectory)))
         (RemoveAll staged))"

definition relocate :: "'r store \<Rightarrow> repository \<Rightarrow> repository \<Rightarrow> unit io" where
  "relocate st repo destination =
     bindio (lift_io (repositoryDirectory st repo)) (\<lambda>sourceDirectory.
     bindio (lift_io (repositoryDirectory st destination)) (\<lambda>destinationDirectory.
       if sourceDirectory = destinationDirectory then return_io ()
       else bindio (attempt (Stat destinationDirectory)) (\<lambda>d.
         case d of
           Inr _ \<Rightarrow> lift_io (Inl (Errorf (''destination '' @ store_noun st @ '' store exists'')))
         | Inl err \<Rightarrow>
             if \<not> errors_is err ErrNotExist then lift_io (Inl err)
             else bindio (attempt (Stat sourceDirectory)) (\<lambda>src.
               case src of
                 Inl err \<Rightarrow> if errors_is err ErrNotExist then return_io () else lift_io (Inl err)
               | Inr _ \<Rightarrow>
                   bindio (listDirectory st sourceDirectory repo) (\<lambda>records.
                   bindio (MkdirAll (path_Dir destinationDirectory)) (\<lambda>_.
                     stage_and_swap st (path_Dir destinationDirectory) (relocate_stem st)
                       sourceDirectory destinationDirectory destination records))))))"

definition rewriteDirectory :: "'r store \<Rightarrow> string \<Rightarrow> repository \<Rightarrow> repository \<Rightarrow> unit io" where
  "rewriteDirectory st directory source destination =
     bindio (listDirectory st directory source) (\<lambda>records.
       stage_and_swap st (path_Dir directory) (rewrite_stem st) directory directory destination records)"


section \<open>Groups\<close>

record group_rewrite =
  rewrite_directory :: string
  rewrite_source :: repository
  rewrite_destination :: repository

text \<open>
  The walk over a group's directory tree. \<open>below dest p\<close> are the names from \<open>dest\<close> down to
  \<open>p\<close>; the walk does not enter the stores of repositories, so it reaches \<open>p\<close> when no name
  before the last one ends in one of their suffixes.
\<close>

definition below :: "string \<Rightarrow> string \<Rightarrow> string list option" where
  "below dest p =
     (if prefix (path_parts dest) (path_parts p) \<and> path_parts p \<noteq> path_parts dest
      then Some (drop (length (path_parts dest)) (path_parts p)) else None)"

definition reached :: "'r store \<Rightarrow> string list \<Rightarrow> bool" where
  "reached st names \<longleftrightarrow>
     list_all (\<lambda>n. \<not> list_ex (HasSuffix n) (store_suffix st # walk_skips st)) (butlast names) \<and>
     HasSuffix (last names) (store_suffix st)"

definition group_exists :: "string \<Rightarrow> file_system \<Rightarrow> bool" where
  "group_exists dest s \<longleftrightarrow> exists_path s dest \<or> list_ex (\<lambda>p. below dest p \<noteq> None) (map fst (dirs s))"

definition plan_rewrite ::
    "'r store \<Rightarrow> string list \<Rightarrow> string list \<Rightarrow> string \<Rightarrow> string list \<Rightarrow> group_rewrite result" where
  "plan_rewrite st sourceParts destinationParts path names =
     (let repositoryName = TrimSuffix (last names) (store_suffix st);
          source = \<lparr>Groups = sourceParts @ butlast names, Name = repositoryName\<rparr>;
          destination = \<lparr>Groups = destinationParts @ butlast names, Name = repositoryName\<rparr>
      in bindr (validateRepository source) (\<lambda>_.
         bindr (validateRepository destination) (\<lambda>_.
           Inr \<lparr>rewrite_directory = path, rewrite_source = source, rewrite_destination = destination\<rparr>)))"

fun plan_rewrites ::
    "'r store \<Rightarrow> string list \<Rightarrow> string list \<Rightarrow> string \<Rightarrow> string list \<Rightarrow> group_rewrite list result" where
  "plan_rewrites st src dst dest [] = Inr []"
| "plan_rewrites st src dst dest (p # ps) =
     (case below dest p of
        None \<Rightarrow> plan_rewrites st src dst dest ps
      | Some names \<Rightarrow>
          if \<not> reached st names then plan_rewrites st src dst dest ps
          else bindr (plan_rewrite st src dst p names) (\<lambda>rw.
               bindr (plan_rewrites st src dst dest ps) (\<lambda>rws. Inr (rw # rws))))"

definition walk_group ::
    "'r store \<Rightarrow> string list \<Rightarrow> string list \<Rightarrow> string \<Rightarrow> group_rewrite list io" where
  "walk_group st src dst dest = call_io (\<lambda>s.
     (if \<not> group_exists dest s then Inl ErrNotExist
      else plan_rewrites st src dst dest (sort_key path_parts (map fst (dirs s))), s))"

text \<open>Undoing the rewrites done so far, the last one first.\<close>

fun rollback_rewrites :: "'r store \<Rightarrow> group_rewrite list \<Rightarrow> goerror \<Rightarrow> goerror io" where
  "rollback_rewrites st [] err = return_io err"
| "rollback_rewrites st (rw # rws) err =
     bindio (attempt (rewriteDirectory st (rewrite_directory rw) (rewrite_destination rw) (rewrite_source rw))) (\<lambda>r.
       case r of
         Inl rollbackErr \<Rightarrow> rollback_rewrites st rws
           (JoinErr err (Wrap (''restore '' @ store_noun st @ '' store '' @ rewrite_directory rw) rollbackErr))
       | Inr _ \<Rightarrow> rollback_rewrites st rws err)"

fun rewrite_each :: "'r store \<Rightarrow> group_rewrite list \<Rightarrow> group_rewrite list \<Rightarrow> unit io" where
  "rewrite_each st completed [] = return_io ()"
| "rewrite_each st completed (rw # rws) =
     bindio (attempt (rewriteDirectory st (rewrite_directory rw) (rewrite_source rw) (rewrite_destination rw))) (\<lambda>r.
       case r of
         Inl err \<Rightarrow> bindio (rollback_rewrites st completed err) (\<lambda>err'.
           lift_io (Inl (Wrap (''rewrite '' @ store_noun st @ '' store '' @ rewrite_directory rw) err')))
       | Inr _ \<Rightarrow> rewrite_each st (rw # completed) rws)"

definition rewriteGroup :: "'r store \<Rightarrow> string \<Rightarrow> string \<Rightarrow> unit io" where
  "rewriteGroup st sourceGroup destinationGroup =
     (case ParseGroup sourceGroup of
        Inl err \<Rightarrow> lift_io (Inl (Wrap ''invalid source group'' err))
      | Inr sourceParts \<Rightarrow>
          (case ParseGroup destinationGroup of
             Inl err \<Rightarrow> lift_io (Inl (Wrap ''invalid destination group'' err))
           | Inr destinationParts \<Rightarrow>
               bindio (lift_io (SafeJoin (getwd (store_env st)) (store_root st) destinationParts)) (\<lambda>dest.
               bindio (attempt (walk_group st sourceParts destinationParts dest)) (\<lambda>r.
                 case r of
                   Inl err \<Rightarrow> if errors_is err ErrNotExist then return_io () else lift_io (Inl err)
                 | Inr rewrites \<Rightarrow> rewrite_each st [] (sort_key rewrite_directory rewrites)))))"

section \<open>Locked operations\<close>

text \<open>
  \<^verbatim>\<open>lockRepositories\<close> and \<^verbatim>\<open>lockGroups\<close>: the request list is normalised, which is the only way
  acquiring can fail; the theory LockSystem has the locking itself. Operations run one after
  the other under the locks they take.
\<close>

definition with_locks :: "request list \<Rightarrow> 'a io \<Rightarrow> 'a io" where
  "with_locks requests action = bindio (lift_io (normalizeRequests requests)) (\<lambda>_. action)"

definition List_records :: "'r store \<Rightarrow> repository \<Rightarrow> 'r list io" where
  "List_records st repo = with_locks (repository_locks st [repo]) (list_records st repo)"

definition Get_record :: "'r store \<Rightarrow> repository \<Rightarrow> nat \<Rightarrow> 'r io" where
  "Get_record st repo rid =
     (if rid = 0 then lift_io (Inl (Errorf (noun st @ '' ID must be greater than zero'')))
      else with_locks (repository_locks st [repo]) (get_record st repo rid))"

definition Relocate :: "'r store \<Rightarrow> repository \<Rightarrow> repository \<Rightarrow> unit io" where
  "Relocate st repo destination =
     with_locks (repository_locks st [repo, destination]) (relocate st repo destination)"

definition RewriteGroup :: "'r store \<Rightarrow> string \<Rightarrow> string \<Rightarrow> unit io" where
  "RewriteGroup st sourceGroup destinationGroup =
     with_locks (group_locks st [sourceGroup, destinationGroup]) (rewriteGroup st sourceGroup destinationGroup)"

text \<open>The existence check both \<^verbatim>\<open>Create\<close> functions start with.\<close>

definition require_repository :: "'r store \<Rightarrow> repository \<Rightarrow> unit io" where
  "require_repository st repo =
     bindio (lift_io (repositoryGitDirectory st repo)) (\<lambda>gitDirectory.
     bindio (attempt (Stat gitDirectory)) (\<lambda>r.
       lift_io (case r of
         Inl err \<Rightarrow> if errors_is err ErrNotExist then Inl (Errorf ''repository does not exist'') else Inl err
       | Inr isDir \<Rightarrow> if isDir then Inr () else Inl (Errorf ''repository Git store is not a directory''))))"

text \<open>
  The skeletons of \<^verbatim>\<open>Create\<close> and \<^verbatim>\<open>Update\<close>. For \<^verbatim>\<open>Create\<close>, \<open>check\<close> is what the package asks of
  the existing records and \<open>fill\<close> the record with the new number and the defaults filled in; the
  result is the record as the caller's pointer has it afterwards. For \<^verbatim>\<open>Update\<close>, \<open>change\<close> is
  the caller's update followed by the new update time, \<open>check\<close> what the package asks of the
  validated record.
\<close>

definition create_record :: "'r store \<Rightarrow> repository \<Rightarrow> ('r list \<Rightarrow> unit result) \<Rightarrow> (nat \<Rightarrow> 'r) \<Rightarrow> 'r io" where
  "create_record st repo check fill =
     with_locks (repository_locks st [repo])
       (bindio (require_repository st repo) (\<lambda>_.
        bindio (listValid st repo) (\<lambda>(existing, maximumID).
        bindio (lift_io (check existing)) (\<lambda>_.
        bindio (nextRecordID st repo maximumID) (\<lambda>nextID.
          let r = normalize st (fill nextID) in
          bindio (lift_io (validate st repo (record_id st r) r)) (\<lambda>_.
          bindio (save st repo r) (\<lambda>_. return_io r)))))))"

definition update_record :: "'r store \<Rightarrow> repository \<Rightarrow> nat \<Rightarrow> ('r \<Rightarrow> 'r result) \<Rightarrow> ('r \<Rightarrow> unit io) \<Rightarrow> 'r io" where
  "update_record st repo rid change check =
     (if rid = 0 then lift_io (Inl (Errorf (noun st @ '' ID must be greater than zero'')))
      else with_locks (repository_locks st [repo])
       (bindio (get_record st repo rid) (\<lambda>record.
        bindio (lift_io (change record)) (\<lambda>changed.
          let r = normalize st changed in
          bindio (lift_io (validate st repo rid r)) (\<lambda>_.
          bindio (check r) (\<lambda>_.
          bindio (save st repo r) (\<lambda>_. return_io r)))))))"

text \<open>Actions the caller passes: \<^const>\<open>None\<close> is nil, which the operations refuse.\<close>

definition required :: "string \<Rightarrow> 'a option \<Rightarrow> ('a \<Rightarrow> 'b io) \<Rightarrow> 'b io" where
  "required message x f = (case x of None \<Rightarrow> lift_io (Inl (Errorf message)) | Some y \<Rightarrow> f y)"

definition required_both :: "string \<Rightarrow> 'a option \<Rightarrow> 'a option \<Rightarrow> ('a \<Rightarrow> 'a \<Rightarrow> 'b io) \<Rightarrow> 'b io" where
  "required_both message x y f =
     (case (x, y) of (Some a, Some b) \<Rightarrow> f a b | _ \<Rightarrow> lift_io (Inl (Errorf message)))"

text \<open>
  The move transactions: \<open>move\<close> and \<open>rollback\<close> are the caller's actions on the rest of the
  repository or group.
\<close>

definition move_repository :: "(goerror \<Rightarrow> goerror) \<Rightarrow> 'r store \<Rightarrow> repository \<Rightarrow> repository \<Rightarrow> unit io \<Rightarrow> unit io \<Rightarrow> unit io" where
  "move_repository restore st source destination move rollback =
     bindio (attempt move) (\<lambda>m.
       case m of
         Inl moveErr \<Rightarrow>
           bindio (attempt rollback) (\<lambda>b.
             lift_io (Inl (case b of Inl rollbackErr \<Rightarrow> JoinErr moveErr (restore rollbackErr) | Inr _ \<Rightarrow> moveErr)))
       | Inr _ \<Rightarrow>
           bindio (attempt (relocate st source destination)) (\<lambda>r.
             case r of
               Inl relocateErr \<Rightarrow>
                 bindio (attempt rollback) (\<lambda>b.
                   lift_io (Inl (case b of Inl rollbackErr \<Rightarrow> JoinErr relocateErr (restore rollbackErr)
                     | Inr _ \<Rightarrow> relocateErr)))
             | Inr _ \<Rightarrow> return_io ()))"

definition move_group :: "(goerror \<Rightarrow> goerror) \<Rightarrow> 'r store \<Rightarrow> string \<Rightarrow> string \<Rightarrow> unit io \<Rightarrow> unit io \<Rightarrow> unit io" where
  "move_group restore st sourceGroup destinationGroup move rollback =
     bindio move (\<lambda>_.
     bindio (attempt (rewriteGroup st sourceGroup destinationGroup)) (\<lambda>r.
       case r of
         Inl rewriteErr \<Rightarrow>
           bindio (attempt rollback) (\<lambda>b.
             lift_io (Inl (case b of Inl rollbackErr \<Rightarrow> JoinErr rewriteErr (restore rollbackErr)
               | Inr _ \<Rightarrow> rewriteErr)))
       | Inr _ \<Rightarrow> return_io ()))"

end
