(* ===== verification/FileLaws.thy ===== *)
theory FileLaws
  imports FileSystem
begin

text \<open>
  The laws of the file-system calls the stores are built from, and of the atomic replacement of
  a file: for every pattern of faults it changes the file to the new contents or nothing but
  temporary names.
\<close>

section \<open>Entries and tables\<close>

lemma quiet_dir_at: "quiet m \<Longrightarrow> m s = (r, t) \<Longrightarrow> dir_at t = dir_at s"
  by (auto simp: dir_at_def fun_eq_iff dest: quietD)

definition dir_entry :: "file_system \<Rightarrow> string \<Rightarrow> string \<Rightarrow> node option" where
  "dir_entry s d name = (case dir_at s d of None \<Rightarrow> None | Some tab \<Rightarrow> map_of tab name)"

lemma dir_entry_faults [simp]: "dir_entry (s\<lparr>faults := fs\<rparr>) = dir_entry s"
  by (simp add: fun_eq_iff dir_entry_def)

lemma Open_Inr:
  assumes "Open d name s = (Inr file, t)"
  shows "open_node (dir_entry s d name) = Inr file"
  using assms unfolding Open_def
  by (elim call_io_cases) (auto simp: dir_entry_def split: option.splits)

lemma Touch_cases:
  assumes "Touch s = (r, t)"
  obtains "r = Inl ErrIO" | "r = Inr ()"
  using assms unfolding Touch_def by (elim call_io_cases) auto

lemma dir_entry_quiet: "quiet m \<Longrightarrow> m s = (r, t) \<Longrightarrow> dir_entry t = dir_entry s"
  by (simp add: fun_eq_iff dir_entry_def quiet_dir_at)

text \<open>The names in a directory are distinct.\<close>

definition tables_ok :: "file_system \<Rightarrow> bool" where
  "tables_ok s \<longleftrightarrow> (\<forall>p tab. dir_at s p = Some tab \<longrightarrow> distinct (map fst tab))"

lemma tables_okD: "tables_ok s \<Longrightarrow> dir_at s p = Some tab \<Longrightarrow> distinct (map fst tab)"
  by (auto simp: tables_ok_def)

lemma not_tmp_neq: "\<not> HasSuffix name ''.tmp'' \<Longrightarrow> name \<noteq> base @ ''.tmp''"
  by auto

section \<open>Temporary files\<close>

text \<open>
  \<open>only_temp d s t\<close>: from \<open>s\<close> to \<open>t\<close> nothing changed but temporary names of \<open>d\<close>.
\<close>

definition only_temp :: "string \<Rightarrow> file_system \<Rightarrow> file_system \<Rightarrow> bool" where
  "only_temp d s t \<longleftrightarrow>
     (\<forall>p. p \<noteq> d \<longrightarrow> dir_at t p = dir_at s p) \<and> plain_files t = plain_files s \<and>
     (dir_at t d = None \<longleftrightarrow> dir_at s d = None) \<and>
     (\<forall>name. \<not> HasSuffix name ''.tmp'' \<longrightarrow> dir_entry t d name = dir_entry s d name) \<and>
     (tables_ok s \<longrightarrow> tables_ok t)"

lemma tables_ok_faults [simp]: "tables_ok (s\<lparr>faults := fs\<rparr>) = tables_ok s"
  by (simp add: tables_ok_def)

lemma tables_ok_put: "tables_ok s \<Longrightarrow> distinct (map fst tab) \<Longrightarrow> tables_ok (put_dir d tab s)"
  by (simp add: tables_ok_def)

lemma tables_ok_drop [intro]: "tables_ok s \<Longrightarrow> tables_ok (drop_dir d s)"
  by (simp add: tables_ok_def)

lemma tables_ok_quiet: "quiet m \<Longrightarrow> m s = (r, t) \<Longrightarrow> tables_ok t = tables_ok s"
  by (simp add: tables_ok_def quiet_dir_at)

lemma only_temp_refl [intro, simp]: "only_temp d s s"
  by (simp add: only_temp_def)

lemma only_temp_faults [intro, simp]: "only_temp d s (s\<lparr>faults := fs\<rparr>)"
  by (simp add: only_temp_def)

lemma only_temp_trans [trans]: "only_temp d s t \<Longrightarrow> only_temp d t u \<Longrightarrow> only_temp d s u"
  by (simp add: only_temp_def)

lemma only_temp_quiet: "quiet m \<Longrightarrow> m s = (r, t) \<Longrightarrow> only_temp d s t"
  by (simp add: only_temp_def quiet_dir_at dir_entry_quiet tables_ok_quiet quietD)

lemma only_temp_faults_left [simp]: "only_temp d (s\<lparr>faults := fs\<rparr>) t = only_temp d s t"
  by (simp add: only_temp_def)

lemma only_temp_put:
  assumes "dir_at s d = Some tab"
    "\<And>name. \<not> HasSuffix name ''.tmp'' \<Longrightarrow> map_of tab' name = map_of tab name"
    "distinct (map fst tab) \<Longrightarrow> distinct (map fst tab')"
  shows "only_temp d s (put_dir d tab' s)"
  using assms tables_ok_put [of s tab' d] tables_okD [of s d tab]
  by (simp add: only_temp_def dir_entry_def)

lemma CreateTemp_cases:
  assumes "CreateTemp d stem ''.tmp'' s = (r, t)"
  obtains e where "r = Inl e" "only_temp d s t"
    | base tab where "r = Inr (base @ ''.tmp'')" "only_temp d s t" "dir_at s d = Some tab"
proof -
  have "only_temp d s t \<and> (case r of Inl _ \<Rightarrow> True
      | Inr name \<Rightarrow> (\<exists>base. name = base @ ''.tmp'') \<and> dir_at s d \<noteq> None)"
    using assms unfolding CreateTemp_def
  proof (rule call_io_cases)
    fix fs
    assume h: "(case dir_at (s\<lparr>faults := fs\<rparr>) d of
       None \<Rightarrow> (Inl ErrNotExist, s\<lparr>faults := fs\<rparr>)
     | Some t \<Rightarrow> let name = stem @ print_nat (fresh_number stem (map fst t)) @ ''.tmp''
         in (Inr name, put_dir d (AList.update name (Regular []) t) (s\<lparr>faults := fs\<rparr>))) = (r, t)"
    show ?thesis
    proof (cases "dir_at s d")
      case None
      with h show ?thesis by auto
    next
      case (Some tab)
      define base where "base = stem @ print_nat (fresh_number stem (map fst tab))"
      have t: "r = Inr (base @ ''.tmp'')" "t = put_dir d (AList.update (base @ ''.tmp'') (Regular []) tab) (s\<lparr>faults := fs\<rparr>)"
        using h Some by (auto simp: base_def Let_def)
      note not_tmp_neq [of _ base]
      then have "only_temp d (s\<lparr>faults := fs\<rparr>) t"
        unfolding t(2) by (intro only_temp_put [of _ _ tab]) (simp_all add: Some update_conv' distinct_update)
      then show ?thesis using t(1) Some by simp
    qed
  qed auto
  then show ?thesis using that by (auto split: sum.splits)
qed

lemma temp_entry:
  assumes "dir_at s d = Some tab" "t = put_dir d (AList.update (base @ ''.tmp'') n tab) s"
  shows "only_temp d s t" "dir_entry t d (base @ ''.tmp'') = Some n"
proof -
  show "only_temp d s t"
    unfolding assms(2) using not_tmp_neq [of _ base]
    by (intro only_temp_put [OF assms(1)]) (simp_all add: update_conv' distinct_update)
  show "dir_entry t d (base @ ''.tmp'') = Some n"
    unfolding assms(2) by (simp add: dir_entry_def update_conv')
qed

lemma WriteFile_temp:
  assumes "WriteFile d (base @ ''.tmp'') c s = (r, t)"
  shows "only_temp d s t \<and> (\<forall>x. r = Inr x \<longrightarrow> dir_entry t d (base @ ''.tmp'') = Some (Regular c))"
  using assms unfolding WriteFile_def
proof (rule call_io_cases)
  fix fs
  assume h: "(case dir_at (s\<lparr>faults := fs\<rparr>) d of None \<Rightarrow> (Inl ErrNotExist, s\<lparr>faults := fs\<rparr>)
    | Some t \<Rightarrow> (Inr (), put_dir d (AList.update (base @ ''.tmp'') (Regular c) t) (s\<lparr>faults := fs\<rparr>))) = (r, t)"
  show ?thesis
  proof (cases "dir_at s d")
    case None
    with h show ?thesis by auto
  next
    case (Some tab)
    then have "t = put_dir d (AList.update (base @ ''.tmp'') (Regular c) tab) (s\<lparr>faults := fs\<rparr>)" using h by simp
    from temp_entry [OF _ this] Some show ?thesis by simp
  qed
qed auto

lemma RemoveFile_temp:
  assumes "RemoveFile d (base @ ''.tmp'') s = (r, t)"
  shows "only_temp d s t"
  using assms unfolding RemoveFile_def
proof (rule call_io_cases)
  fix fs
  assume h: "(case dir_at (s\<lparr>faults := fs\<rparr>) d of None \<Rightarrow> (Inl ErrNotExist, s\<lparr>faults := fs\<rparr>)
    | Some t \<Rightarrow> if map_of t (base @ ''.tmp'') = None then (Inl ErrNotExist, s\<lparr>faults := fs\<rparr>)
       else (Inr (), put_dir d (AList.delete (base @ ''.tmp'') t) (s\<lparr>faults := fs\<rparr>))) = (r, t)"
  show ?thesis
  proof (cases "dir_at s d")
    case None
    with h show ?thesis by auto
  next
    case (Some tab)
    note not_tmp_neq [of _ base]
    then have "only_temp d (s\<lparr>faults := fs\<rparr>) (put_dir d (AList.delete (base @ ''.tmp'') tab) (s\<lparr>faults := fs\<rparr>))"
      by (intro only_temp_put [of _ _ tab]) (simp_all add: Some delete_conv' distinct_delete)
    then show ?thesis using h Some by (auto split: if_splits)
  qed
qed auto

text \<open>Renaming a temporary file: nothing, or the target replaced.\<close>

lemma RenameFile_temp:
  assumes "RenameFile d (base @ ''.tmp'') target s = (r, t)"
    "dir_entry s d (base @ ''.tmp'') = Some n"
  shows "(\<exists>e. r = Inl e \<and> only_temp d s t) \<or>
    (r = Inr () \<and> (\<forall>p. p \<noteq> d \<longrightarrow> dir_at t p = dir_at s p) \<and> plain_files t = plain_files s \<and>
     dir_at s d \<noteq> None \<and> dir_at t d \<noteq> None \<and> (tables_ok s \<longrightarrow> tables_ok t) \<and>
     (\<forall>name. \<not> HasSuffix name ''.tmp'' \<longrightarrow>
        dir_entry t d name = (if name = target then Some n else dir_entry s d name)))"
  using assms(1) unfolding RenameFile_def
proof (rule call_io_cases)
  fix fs
  let ?s = "s\<lparr>faults := fs\<rparr>"
  assume h: "(case dir_at ?s d of None \<Rightarrow> (Inl ErrNotExist, ?s)
    | Some t \<Rightarrow> (case map_of t (base @ ''.tmp'') of None \<Rightarrow> (Inl ErrNotExist, ?s)
        | Some n \<Rightarrow> if map_of t target = Some Subdir then (Inl ErrIO, ?s)
            else (Inr (), put_dir d (AList.update target n (AList.delete (base @ ''.tmp'') t)) ?s))) = (r, t)"
  obtain tab where tab: "dir_at s d = Some tab" "map_of tab (base @ ''.tmp'') = Some n"
    using assms(2) by (auto simp: dir_entry_def split: option.splits)
  show ?thesis
  proof (cases "map_of tab target = Some Subdir")
    case True
    then show ?thesis using h tab by auto
  next
    case False
    let ?tab = "AList.update target n (AList.delete (base @ ''.tmp'') tab)"
    have t: "r = Inr ()" "t = put_dir d ?tab ?s" using h tab False by simp_all
    have "distinct (map fst tab) \<Longrightarrow> distinct (map fst ?tab)" by (simp add: distinct_update distinct_delete)
    then have "tables_ok s \<Longrightarrow> tables_ok t"
      unfolding t(2) using tables_okD [OF _ tab(1)] by (intro tables_ok_put) simp_all
    moreover have "dir_entry t d name = (if name = target then Some n else dir_entry s d name)"
      if "\<not> HasSuffix name ''.tmp''" for name
      unfolding t(2) using not_tmp_neq [OF that, of base] tab by (simp add: dir_entry_def update_conv' delete_conv')
    ultimately show ?thesis using t tab by simp
  qed
qed auto

section \<open>Replacing a file\<close>

text \<open>\<open>file_replaced d name c s t\<close>: the file has the contents \<open>c\<close>, and nothing else but temporary names changed.\<close>

definition file_replaced :: "string \<Rightarrow> string \<Rightarrow> string \<Rightarrow> file_system \<Rightarrow> file_system \<Rightarrow> bool" where
  "file_replaced d name c s t \<longleftrightarrow>
     (\<forall>p. p \<noteq> d \<longrightarrow> dir_at t p = dir_at s p) \<and> plain_files t = plain_files s \<and>
     dir_at s d \<noteq> None \<and> dir_at t d \<noteq> None \<and> (tables_ok s \<longrightarrow> tables_ok t) \<and>
     (\<forall>n. \<not> HasSuffix n ''.tmp'' \<longrightarrow> dir_entry t d n = (if n = name then Some (Regular c) else dir_entry s d n))"

lemma file_replaced_only_temp:
  "only_temp d s s' \<Longrightarrow> file_replaced d name c s' t \<Longrightarrow> file_replaced d name c s t"
  "file_replaced d name c s t \<Longrightarrow> only_temp d t t' \<Longrightarrow> file_replaced d name c s t'"
  unfolding file_replaced_def only_temp_def by simp_all

text \<open>A program that fills a temporary file with the contents \<open>c\<close>.\<close>

definition fills :: "string \<Rightarrow> string \<Rightarrow> (string \<Rightarrow> unit io) \<Rightarrow> bool" where
  "fills d c fill \<longleftrightarrow> (\<forall>base s x t. fill (base @ ''.tmp'') s = (x, t) \<longrightarrow>
     only_temp d s t \<and> (\<forall>u. x = Inr u \<longrightarrow> dir_entry t d (base @ ''.tmp'') = Some (Regular c)))"

lemma fills_WriteFile: "fills d c (\<lambda>temporary. WriteFile d temporary c)"
  unfolding fills_def using WriteFile_temp by blast

lemma fills_before:
  assumes "quiet m" "fills d c fill"
  shows "fills d c (\<lambda>temporary. bindio m (\<lambda>_. fill temporary))"
  unfolding fills_def
proof (intro allI impI)
  fix base s x t
  assume "bindio m (\<lambda>_. fill (base @ ''.tmp'')) s = (x, t)"
  then show "only_temp d s t \<and> (\<forall>u. x = Inr u \<longrightarrow> dir_entry t d (base @ ''.tmp'') = Some (Regular c))"
  proof (cases rule: bindio_cases)
    case (failed e)
    then show ?thesis using only_temp_quiet [OF assms(1)] by simp
  next
    case (went_on y s')
    then show ?thesis
      using only_temp_quiet [OF assms(1) went_on(1)] assms(2) only_temp_trans unfolding fills_def by blast
  qed
qed

lemma fills_after:
  assumes "fills d c fill" "quiet m"
  shows "fills d c (\<lambda>temporary. bindio (fill temporary) (\<lambda>_. m))"
  unfolding fills_def
proof (intro allI impI)
  fix base s x t
  assume "bindio (fill (base @ ''.tmp'')) (\<lambda>_. m) s = (x, t)"
  then show "only_temp d s t \<and> (\<forall>u. x = Inr u \<longrightarrow> dir_entry t d (base @ ''.tmp'') = Some (Regular c))"
  proof (cases rule: bindio_cases)
    case (failed e)
    then show ?thesis using assms(1) unfolding fills_def by blast
  next
    case (went_on y s')
    have "only_temp d s s'" "dir_entry s' d (base @ ''.tmp'') = Some (Regular c)"
      using assms(1) went_on(1) unfolding fills_def by blast+
    then show ?thesis
      using only_temp_trans [OF _ only_temp_quiet [OF assms(2) went_on(2)]] dir_entry_quiet [OF assms(2) went_on(2)] by simp
  qed
qed

lemma replace_file_cases:
  assumes "replace_file d stem fill name s = (x, t)" "fills d c fill" "\<not> HasSuffix name ''.tmp''"
  obtains (failed) e where "x = Inl e" "only_temp d s t"
    | (replaced) "x = Inr ()" "file_replaced d name c s t"
proof -
  obtain y s1 where y: "CreateTemp d stem ''.tmp'' s = (y, s1)" by fastforce
  from y show ?thesis
  proof (cases rule: CreateTemp_cases)
    case (1 e)
    then have "x = Inl e" "t = s1" using assms(1) y by (simp_all add: replace_file_def bindio_Inl)
    then show ?thesis using 1 failed by simp
  next
    case (2 base tab)
    define temp where "temp = base @ ''.tmp''"
    obtain w s2 where w: "fill temp s1 = (w, s2)" by fastforce
    have f: "only_temp d s1 s2" "\<And>u. w = Inr u \<Longrightarrow> dir_entry s2 d temp = Some (Regular c)"
      using assms(2) w unfolding fills_def temp_def by blast+
    obtain k s3 where k: "Touch s2 = (k, s3)" by fastforce
    note o3 = only_temp_trans [OF only_temp_trans [OF 2(2) f(1)] only_temp_quiet [OF quiet_reads(5) k]]
    define rest where "rest = (case w of Inl err \<Rightarrow> lift_io (Inl err)
      | Inr _ \<Rightarrow> (case k of Inl err \<Rightarrow> lift_io (Inl err) | Inr _ \<Rightarrow> RenameFile d temp name))"
    obtain z s4 where z: "rest s3 = (z, s4)" by fastforce
    obtain v s5 where v: "RemoveFile d temp s4 = (v, s5)" by fastforce
    have "replace_file d stem fill name s = (z, s5)"
      using y 2(1) w k z v unfolding replace_file_def rest_def temp_def
      by (simp add: bindio_def attempt_def cleanup_def)
    then have xt: "x = z" "t = s5" using assms(1) by simp_all
    note rem = RemoveFile_temp [OF v [unfolded temp_def], folded xt(2)]
    show ?thesis
    proof (cases "\<exists>e. w = Inl e \<or> k = Inl e")
      case True
      then have "\<exists>e. z = Inl e" "s4 = s3" using z unfolding rest_def by (auto split: sum.splits)
      then show ?thesis using failed xt(1) only_temp_trans [OF o3 rem [unfolded \<open>s4 = s3\<close>]] by auto
    next
      case False
      then obtain a b where ab: "w = Inr a" "k = Inr b" by (metis obj_sumE)
      then have run: "RenameFile d temp name s3 = (z, s4)" using z by (simp add: rest_def)
      have "dir_entry s3 d temp = Some (Regular c)" using f(2) [OF ab(1)] dir_entry_quiet [OF quiet_reads(5) k] by simp
      from RenameFile_temp [OF run [unfolded temp_def] this [unfolded temp_def]] show ?thesis
      proof
        assume "\<exists>e. z = Inl e \<and> only_temp d s3 s4"
        then show ?thesis using failed xt(1) only_temp_trans [OF only_temp_trans [OF o3] rem] by auto
      next
        assume h: "z = Inr () \<and> (\<forall>p. p \<noteq> d \<longrightarrow> dir_at s4 p = dir_at s3 p) \<and> plain_files s4 = plain_files s3 \<and>
          dir_at s3 d \<noteq> None \<and> dir_at s4 d \<noteq> None \<and> (tables_ok s3 \<longrightarrow> tables_ok s4) \<and>
          (\<forall>n. \<not> HasSuffix n ''.tmp'' \<longrightarrow>
             dir_entry s4 d n = (if n = name then Some (Regular c) else dir_entry s3 d n))"
        then have "file_replaced d name c s3 s4" unfolding file_replaced_def by simp
        then have "file_replaced d name c s t"
          by (intro file_replaced_only_temp(1) [OF o3] file_replaced_only_temp(2) [OF _ rem])
        then show ?thesis using replaced xt(1) h by simp
      qed
    qed
  qed
qed

section \<open>Directories and lookups\<close>

lemma MkdirAll_cases:
  assumes "MkdirAll p s = (r, t)"
  obtains e where "r = Inl e" "\<And>q. dir_at t q = dir_at s q" "plain_files t = plain_files s"
    | "r = Inr ()" "\<And>q. dir_at t q = (if q = p \<and> dir_at s p = None then Some [] else dir_at s q)"
      "plain_files t = plain_files s"
  using assms unfolding MkdirAll_def by (elim call_io_cases) (auto split: if_splits)

lemma MkdirAll_entries:
  assumes "MkdirAll p s = (r, t)"
  shows "tables_ok s \<Longrightarrow> tables_ok t" "plain_files t = plain_files s" "q \<noteq> p \<Longrightarrow> dir_at t q = dir_at s q"
    "dir_entry t = dir_entry s"
proof -
  show "dir_entry t = dir_entry s"
    using assms by (rule MkdirAll_cases) (auto simp: fun_eq_iff dir_entry_def)
  show "tables_ok s \<Longrightarrow> tables_ok t" "plain_files t = plain_files s" "q \<noteq> p \<Longrightarrow> dir_at t q = dir_at s q"
    using assms by (rule MkdirAll_cases; auto simp: tables_ok_def split: if_splits)+
qed

lemma Lstat_cases:
  assumes "Lstat d name s = (r, t)"
  obtains "r = Inl ErrIO" | "r = Inl ErrNotExist" "dir_entry s d name = None"
    | "r = Inr ()" "dir_entry s d name \<noteq> None"
  using assms unfolding Lstat_def
  by (elim call_io_cases) (auto simp: dir_entry_def split: option.splits if_splits)

lemma Lstat_no_faults:
  assumes "faults s = []"
  shows "Lstat d name s = (case dir_at s d of
     None \<Rightarrow> Inl (if d \<in> set (plain_files s) then ErrIO else ErrNotExist)
   | Some t \<Rightarrow> if map_of t name = None then Inl ErrNotExist else Inr (), s)"
  using assms by (simp add: Lstat_def)

lemma Open_no_faults:
  assumes "faults s = []" "dir_entry s d name = Some n"
  shows "Open d name s = (open_node (Some n), s)"
  using assms by (auto simp: Open_def dir_entry_def split: option.splits)

lemma Touch_ok [simp]: "faults s = [] \<Longrightarrow> Touch s = (Inr (), s)"
  by (simp add: Touch_def)

lemma MkdirAll_ok_run:
  assumes "faults s = []" "p \<notin> set (plain_files s)"
  shows "MkdirAll p s = (Inr (), if dir_at s p = None then put_dir p [] s else s)"
  using assms by (simp add: MkdirAll_def)

text \<open>Without faults a file that is not a directory is replaced.\<close>

lemma replace_file_ok:
  assumes "faults s = []" "dir_at s d = Some tab" "map_of tab name \<noteq> Some Subdir" "\<not> HasSuffix name ''.tmp''"
    and fill: "\<And>temporary u. faults u = [] \<Longrightarrow> fill temporary u = WriteFile d temporary c u"
  shows "\<exists>t. replace_file d stem fill name s = (Inr (), t) \<and> faults t = []"
proof -
  define temp where "temp = stem @ print_nat (fresh_number stem (map fst tab)) @ ''.tmp''"
  have ne: "name \<noteq> temp"
    using not_tmp_neq [OF assms(4), of "stem @ print_nat (fresh_number stem (map fst tab))"] by (simp add: temp_def)
  let ?t1 = "AList.update temp (Regular []) tab"
  let ?t2 = "AList.update temp (Regular c) ?t1"
  let ?s1 = "put_dir d ?t1 s" and ?s2 = "put_dir d ?t2 (put_dir d ?t1 s)"
  let ?s3 = "put_dir d (AList.update name (Regular c) (AList.delete temp ?t2)) ?s2"
  have "CreateTemp d stem ''.tmp'' s = (Inr temp, ?s1)"
    using assms(1,2) by (simp add: CreateTemp_def temp_def Let_def)
  moreover have "fill temp ?s1 = (Inr (), ?s2)" using assms(1) fill [of ?s1 temp] by (simp add: WriteFile_def)
  moreover have "RenameFile d temp name ?s2 = (Inr (), ?s3)"
    using assms(1,3) ne by (simp add: RenameFile_def update_conv')
  moreover have "RemoveFile d temp ?s3 = (Inl ErrNotExist, ?s3)"
    using assms(1) ne by (simp add: RemoveFile_def update_conv' delete_conv')
  ultimately have "replace_file d stem fill name s = (Inr (), ?s3)"
    unfolding replace_file_def using assms(1) by (simp add: bindio_def attempt_def cleanup_def)
  then show ?thesis using assms(1) by simp
qed

end
