(* ===== verification/StoreLaws.thy ===== *)
theory StoreLaws
  imports RecordStore FileLaws
begin

text \<open>
  The laws of the record stores, proved once for any store whose validator and normaliser
  respect record numbers (the locale \<open>record_store\<close>): what scanning returns, that a write is
  atomic and changes one record, that a new number is unused, and that relocation moves all
  records or none, under every pattern of system-call faults.
\<close>

section \<open>Record names\<close>

lemma record_name_not_tmp [simp]: "\<not> HasSuffix (record_name rid) ''.tmp''"
proof
  assume "HasSuffix (record_name rid) ''.tmp''"
  then obtain t where "record_name rid = t @ ''.tmp''" by (rule HasSuffixE)
  then have "last (print_nat rid @ ''.json'') = last (t @ ''.tmp'')" by (simp add: record_name_def)
  then show False by simp
qed

lemma record_name_json [simp]: "HasSuffix (record_name rid) ''.json''"
  by (simp add: record_name_def)

lemma record_name_inj [simp]: "record_name a = record_name b \<longleftrightarrow> a = b"
  using print_nat_inj by (auto simp: record_name_def)

lemma parseRecordName_iff:
  assumes "HasSuffix name ''.json''"
  shows "parseRecordName st name = Inr rid \<longleftrightarrow> name = record_name rid \<and> 0 < rid \<and> rid < 2 ^ 64"
proof -
  obtain stem where n: "name = stem @ ''.json''" using assms by (rule HasSuffixE)
  have s: "TrimSuffix name ''.json'' = stem" unfolding n by (rule TrimSuffix_append)
  show ?thesis
  proof
    assume "parseRecordName st name = Inr rid"
    then have h: "ParseUint 64 stem = Some rid" "rid \<noteq> 0" "print_nat rid = stem"
      by (auto simp: parseRecordName_def s Let_def split: option.splits if_splits)
    then show "name = record_name rid \<and> 0 < rid \<and> rid < 2 ^ 64"
      by (auto simp: n record_name_def ParseUint_def split: if_splits)
  next
    assume h: "name = record_name rid \<and> 0 < rid \<and> rid < 2 ^ 64"
    then have stem: "stem = print_nat rid" using n by (simp add: record_name_def)
    have "ParseUint 64 stem = Some rid" unfolding stem by (rule ParseUint_print) (use h in simp)
    moreover have "rid \<noteq> 0" "print_nat rid = stem" using h stem by simp_all
    ultimately show "parseRecordName st name = Inr rid"
      unfolding parseRecordName_def s Let_def by (simp del: append_Cons)
  qed
qed

section \<open>Reading changes nothing\<close>

lemma quiet_readRecord [intro, simp]: "quiet (readRecord st d repo rid)"
  unfolding readRecord_def by (intro quiet_bind quiet_return quiet_reads)

lemma quiet_scan_entries: "quiet (scan_entries st d repo skip entries acc)"
proof (induction st d repo skip entries acc rule: scan_entries.induct)
  case (2 st d repo skip name node entries records m)
  then show ?case
    by (auto simp: Let_def intro!: quiet_bind quiet_attempt split: node.split sum.split)
qed simp

lemma quiet_scanDirectory [intro, simp]: "quiet (scanDirectory st d repo skip)"
  unfolding scanDirectory_def
  by (intro quiet_bind quiet_attempt quiet_reads) (auto intro!: quiet_bind quiet_scan_entries split: sum.split)

lemma quiet_lists [intro, simp]:
  "quiet (listDirectory st d repo)" "quiet (listValid st repo)" "quiet (list_records st repo)"
  unfolding listDirectory_def list_records_def listValid_def by (auto intro!: quiet_bind)

lemma quiet_get_record [intro, simp]: "quiet (get_record st repo rid)"
  unfolding get_record_def by (intro quiet_bind quiet_attempt) auto

lemma quiet_next_free: "quiet (next_free st d m)"
proof (induction st d m rule: next_free.induct)
  case (1 st d m)
  show ?case
    by (subst next_free.simps) (auto simp: Let_def intro!: quiet_bind quiet_attempt 1 split: sum.split)
qed

lemma quiet_nextRecordID [intro, simp]: "quiet (nextRecordID st repo m)"
  unfolding nextRecordID_def by (intro quiet_bind quiet_next_free) simp

lemma quiet_require [intro, simp]: "quiet (require_repository st repo)"
  unfolding require_repository_def by (intro quiet_bind quiet_attempt) auto

section \<open>What reading returns\<close>

lemma readRecord_Inr:
  assumes "readRecord st d repo rid s = (Inr r, t)"
  shows "\<exists>c. open_node (dir_entry s d (record_name rid)) = Inr (Some c) \<and> decode_record st repo rid c = Inr r"
  using assms unfolding readRecord_def
  by (elim bindio_cases) (auto split: option.splits dest!: Open_Inr)

text \<open>An invalid record is reported as such only for the contents of a file.\<close>

lemma not_invalid [simp]: "\<not> as_invalid_record ErrIO" "\<not> as_invalid_record ErrNotExist"
  "\<not> as_invalid_record (Errorf m)"
  by simp_all

lemma decode_record_Inl: "decode_record st repo rid c = Inl e \<Longrightarrow> as_invalid_record e"
  by (auto simp: decode_record_def read_error_def split: if_splits sum.splits option.splits)


lemma record_name_normal: "normal (record_name rid)"
proof -
  have "CHR ''/'' \<notin> set (print_nat rid)"
    using print_nat_digits [of rid] by (auto simp: list_all_iff is_digit_def)
  then show ?thesis
    using print_nat_nonempty [of rid] by (cases "print_nat rid") (auto simp: normal_def record_name_def)
qed

lemma SafeJoin_rooted:
  assumes "HasPrefix root ''/''"
  shows "SafeJoin gw root es = SafeJoin (Inr ''/'') root es"
proof -
  obtain t where t: "root = ''/'' @ t" using assms by (rule HasPrefixE)
  have "HasPrefix (Clean p) ''/''" if "HasPrefix p ''/''" for p
    using that by (auto simp: Clean_def Let_def HasPrefix_def)
  moreover have "HasPrefix (Join (root # es) ''/'') ''/''"
    by (cases es) (auto simp: t HasPrefix_def)
  ultimately have "HasPrefix (path_join (root # es)) ''/''" by (simp add: path_join_def t)
  with assms show ?thesis by (simp add: SafeJoin_def path_abs_def Let_def)
qed

lemma recordPath_rooted:
  assumes "HasPrefix d ''/''" "0 < rid"
  shows "\<exists>p. recordPath st d rid = Inr p"
  using SafeJoin_rooted [OF assms(1), of "getwd (store_env st)" "[record_name rid]"]
    SafeJoin_normal [of "''/''" "[record_name rid]" d] record_name_normal assms(2)
  by (simp add: recordPath_def HasPrefix_def)

lemma readRecord_invalid:
  assumes "readRecord st d repo rid s = (Inl e, t)" "as_invalid_record e" "HasPrefix d ''/''" "0 < rid"
    "dir_entry s d (record_name rid) = Some (Regular c)"
  shows "\<exists>e'. decode_record st repo rid c = Inl e'"
proof -
  obtain p where p: "recordPath st d rid = Inr p" using recordPath_rooted [OF assms(3,4)] by blast
  have dir: "dir_at s d \<noteq> None" using assms(5) by (auto simp: dir_entry_def split: option.splits)
  have "Open d (record_name rid) s = (Inl e, t) \<Longrightarrow> False"
    using assms(2,5) dir unfolding Open_def
    by (elim call_io_cases) (auto simp: dir_entry_def open_node_def split: option.splits)
  moreover have "Touch u = (Inl e, t) \<Longrightarrow> False" for u
    using assms(2) by (elim Touch_cases) auto
  ultimately show ?thesis
    using assms(1,5) p unfolding readRecord_def
    by (auto elim!: bindio_cases dest!: Open_Inr simp: open_node_def not_regular_def split: option.splits)
qed

section \<open>What scanning returns\<close>

text \<open>The record a directory entry holds, if it is a valid one.\<close>

definition entry_record :: "'r store \<Rightarrow> repository \<Rightarrow> string \<times> node \<Rightarrow> (nat \<times> 'r) option" where
  "entry_record st repo e = (case e of (name, n) \<Rightarrow>
     if HasSuffix name ''.json'' then
       (case n of Regular c \<Rightarrow>
          (case parseRecordName st name of Inl _ \<Rightarrow> None
           | Inr rid \<Rightarrow> (case decode_record st repo rid c of Inl _ \<Rightarrow> None | Inr r \<Rightarrow> Some (rid, r)))
        | _ \<Rightarrow> None)
     else None)"

definition table_records :: "'r store \<Rightarrow> repository \<Rightarrow> directory \<Rightarrow> (nat \<times> 'r) list" where
  "table_records st repo entries = List.map_filter (entry_record st repo) entries"

definition all_valid :: "'r store \<Rightarrow> repository \<Rightarrow> directory \<Rightarrow> bool" where
  "all_valid st repo entries \<longleftrightarrow>
     (\<forall>e\<in>set entries. HasSuffix (fst e) ''.json'' \<longrightarrow> entry_record st repo e \<noteq> None)"

lemma table_records_simps [simp]:
  "table_records st repo [] = []"
  "table_records st repo (e # es) =
     (case entry_record st repo e of None \<Rightarrow> [] | Some x \<Rightarrow> [x]) @ table_records st repo es"
  by (auto simp: table_records_def map_filter_simps split: option.splits)

text \<open>One entry of the scan, when the scan goes on after it.\<close>

lemma scan_entry_step:
  assumes "scan_entries st d repo skip ((name, n) # es) (rs, m) s = (Inr out, t)"
    "HasPrefix d ''/''" "dir_entry s d name = Some n"
  shows "\<exists>s'. dir_entry s' = dir_entry s \<and>
    (case entry_record st repo (name, n) of
       None \<Rightarrow> scan_entries st d repo skip es (rs, m) s' = (Inr out, t) \<and> (HasSuffix name ''.json'' \<longrightarrow> skip)
     | Some (rid, r) \<Rightarrow> scan_entries st d repo skip es (rs @ [r], max rid m) s' = (Inr out, t))"
proof (cases "HasSuffix name ''.json''")
  case False
  then show ?thesis using assms(1) by (auto simp: entry_record_def Let_def)
next
  case json: True
  let ?go = "\<lambda>acc u. scan_entries st d repo skip es acc u = (Inr out, t)"
  obtain u where u: "Touch s = (Inr (), u)" and rest: "(case n of
          Regular _ \<Rightarrow>
            (case parseRecordName st name of
               Inl err \<Rightarrow> if skip then scan_entries st d repo skip es (rs, m) else lift_io (Inl err)
             | Inr rid \<Rightarrow>
                 bindio (attempt (readRecord st d repo rid)) (\<lambda>r.
                   case r of
                     Inl err \<Rightarrow>
                       if skip \<and> as_invalid_record err then scan_entries st d repo skip es (rs, m)
                       else lift_io (Inl err)
                   | Inr rec \<Rightarrow> scan_entries st d repo skip es (rs @ [rec], max rid m)))
        | _ \<Rightarrow> if skip then scan_entries st d repo skip es (rs, m) else lift_io (Inl (not_regular st name))) u
      = (Inr out, t)"
    using assms(1) json by (auto simp: Let_def elim!: bindio_cases)
  have eu: "dir_entry u = dir_entry s" by (rule dir_entry_quiet [where m = Touch, OF quiet_reads(5) u])
  show ?thesis
  proof (cases "\<exists>c rid. n = Regular c \<and> parseRecordName st name = Inr rid")
    case False
    then have none: "entry_record st repo (name, n) = None"
      by (auto simp: entry_record_def split: node.split sum.split)
    have "?go (rs, m) u \<and> skip"
      using rest False by (auto split: node.splits sum.splits if_splits)
    then show ?thesis using none eu by auto
  next
    case True
    then obtain c rid where c: "n = Regular c" "parseRecordName st name = Inr rid" by blast
    have name: "name = record_name rid" "0 < rid" using parseRecordName_iff [OF json] c(2) by auto
    obtain x v where x: "readRecord st d repo rid u = (x, v)" by fastforce
    have ev: "dir_entry v = dir_entry s" using dir_entry_quiet [OF quiet_readRecord x] eu by simp
    have er: "entry_record st repo (name, n) =
        (case decode_record st repo rid c of Inl _ \<Rightarrow> None | Inr r \<Rightarrow> Some (rid, r))"
      using json c by (simp add: entry_record_def)
    have de: "dir_entry u d (record_name rid) = Some (Regular c)" using assms(3) c(1) name(1) eu by simp
    show ?thesis
    proof (cases x)
      case (Inl e)
      then have sk: "skip" "as_invalid_record e" "?go (rs, m) v"
        using rest c x by (auto simp: bindio_def attempt_def split: if_splits)
      then have "entry_record st repo (name, n) = None"
        using readRecord_invalid [OF x [unfolded Inl] _ assms(2) name(2) de] er by auto
      then show ?thesis using sk ev by auto
    next
      case (Inr r)
      then have "?go (rs @ [r], max rid m) v"
        using rest c x by (auto simp: bindio_def attempt_def)
      moreover have "decode_record st repo rid c = Inr r"
        using readRecord_Inr [OF x [unfolded Inr]] de by (simp add: open_node_def)
      ultimately show ?thesis using er ev by auto
    qed
  qed
qed

lemma scan_entries_Inr:
  assumes "scan_entries st d repo skip es (rs, m) s = (Inr (rs', m'), t)" "HasPrefix d ''/''"
    "\<forall>(name, n)\<in>set es. dir_entry s d name = Some n"
  shows "rs' = rs @ map snd (table_records st repo es)
    \<and> m' = fold max (map fst (table_records st repo es)) m \<and> (\<not> skip \<longrightarrow> all_valid st repo es)"
  using assms
proof (induction es arbitrary: rs m s)
  case Nil
  then show ?case by (simp add: all_valid_def)
next
  case (Cons e es)
  obtain name n where e: "e = (name, n)" by fastforce
  obtain s' where s': "dir_entry s' = dir_entry s" "(case entry_record st repo (name, n) of
       None \<Rightarrow> scan_entries st d repo skip es (rs, m) s' = (Inr (rs', m'), t) \<and> (HasSuffix name ''.json'' \<longrightarrow> skip)
     | Some (rid, r) \<Rightarrow> scan_entries st d repo skip es (rs @ [r], max rid m) s' = (Inr (rs', m'), t))"
    using scan_entry_step [OF Cons.prems(1) [unfolded e] Cons.prems(2)] Cons.prems(3) e by auto
  have pre: "\<forall>(name, n)\<in>set es. dir_entry s' d name = Some n" using Cons.prems(3) s'(1) by auto
  show ?case
  proof (cases "entry_record st repo (name, n)")
    case None
    with s'(2) Cons.IH [OF _ Cons.prems(2) pre] show ?thesis by (auto simp: e all_valid_def)
  next
    case (Some x)
    obtain rid r where x: "x = (rid, r)" by fastforce
    then have "scan_entries st d repo skip es (rs @ [r], max rid m) s' = (Inr (rs', m'), t)"
      using Some s'(2) by simp
    from Cons.IH [OF this Cons.prems(2) pre] Some x show ?thesis
      by (auto simp: e all_valid_def)
  qed
qed


section \<open>The abstract store\<close>

text \<open>
  A record directory is a map from record numbers to the valid records: \<open>stored\<close> for one table,
  \<open>view\<close> for a directory of the file system.
\<close>

definition stored :: "'r store \<Rightarrow> repository \<Rightarrow> directory \<Rightarrow> nat \<rightharpoonup> 'r" where
  "stored st repo tab rid = (case map_of tab (record_name rid) of
     None \<Rightarrow> None
   | Some n \<Rightarrow> map_option snd (entry_record st repo (record_name rid, n)))"

definition view :: "'r store \<Rightarrow> repository \<Rightarrow> file_system \<Rightarrow> string \<Rightarrow> nat \<rightharpoonup> 'r" where
  "view st repo s d rid = (case dir_at s d of None \<Rightarrow> None | Some tab \<Rightarrow> stored st repo tab rid)"

lemma entry_record_iff:
  "entry_record st repo (name, n) = Some (rid, r) \<longleftrightarrow>
     name = record_name rid \<and> 0 < rid \<and> rid < 2 ^ 64 \<and>
     (\<exists>c. n = Regular c \<and> decode_record st repo rid c = Inr r)"
proof (cases "HasSuffix name ''.json''")
  case False
  then have "name \<noteq> record_name rid" using record_name_json by metis
  with False show ?thesis by (simp add: entry_record_def)
next
  case True
  have "entry_record st repo (name, n) = Some (rid, r) \<longleftrightarrow>
      (\<exists>c. n = Regular c \<and> parseRecordName st name = Inr rid \<and> decode_record st repo rid c = Inr r)"
    using True by (auto simp: entry_record_def split: node.splits sum.splits)
  then show ?thesis unfolding parseRecordName_iff [OF True] by blast
qed

lemma stored_iff:
  "stored st repo tab rid = Some r \<longleftrightarrow> 0 < rid \<and> rid < 2 ^ 64 \<and>
     (\<exists>c. map_of tab (record_name rid) = Some (Regular c) \<and> decode_record st repo rid c = Inr r)"
proof -
  have "map_option snd (entry_record st repo (record_name rid, n)) = Some r \<longleftrightarrow>
      entry_record st repo (record_name rid, n) = Some (rid, r)" for n
  proof (cases "entry_record st repo (record_name rid, n)")
    case (Some x)
    then have "fst x = rid" using entry_record_iff [of st repo "record_name rid" n "fst x" "snd x"] by simp
    then show ?thesis using Some by (cases x) auto
  qed simp
  then show ?thesis
    unfolding stored_def by (auto simp: entry_record_iff split: option.splits)
qed

lemma set_table_records:
  "x \<in> set (table_records st repo es) \<longleftrightarrow> (\<exists>e\<in>set es. entry_record st repo e = Some x)"
  by (cases x, induction es) (auto split: option.splits)

lemma table_records_stored:
  assumes "distinct (map fst tab)"
  shows "(rid, r) \<in> set (table_records st repo (sort_key fst tab)) \<longleftrightarrow> stored st repo tab rid = Some r"
proof -
  have "(rid, r) \<in> set (table_records st repo (sort_key fst tab)) \<longleftrightarrow>
      (\<exists>name n. (name, n) \<in> set tab \<and> entry_record st repo (name, n) = Some (rid, r))"
    by (auto simp: set_table_records)
  also have "\<dots> \<longleftrightarrow> (\<exists>n. map_of tab (record_name rid) = Some n \<and>
      entry_record st repo (record_name rid, n) = Some (rid, r))"
    using assms by (auto simp: entry_record_iff map_of_eq_Some_iff)
  also have "\<dots> \<longleftrightarrow> stored st repo tab rid = Some r"
    unfolding stored_iff entry_record_iff by auto
  finally show ?thesis .
qed

lemma table_records_distinct:
  assumes "distinct (map fst tab)"
  shows "distinct (map fst (table_records st repo tab))"
proof -
  have "distinct (map record_name (map fst (table_records st repo tab)))
      \<and> set (map record_name (map fst (table_records st repo tab))) \<subseteq> fst ` set tab"
    using assms
  proof (induction tab)
    case (Cons e tab)
    obtain name n where e: "e = (name, n)" by fastforce
    show ?case
    proof (cases "entry_record st repo e")
      case None
      with Cons show ?thesis by auto
    next
      case (Some x)
      then have "name = record_name (fst x)"
        using entry_record_iff [of st repo name n "fst x" "snd x"] e by simp
      with Cons Some e show ?thesis by auto
    qed
  qed simp
  then show ?thesis by (simp add: distinct_map o_def inj_on_def)
qed

lemma fold_max_ge: "(\<forall>x\<in>set xs. x \<le> fold max xs m) \<and> m \<le> fold max xs (m :: nat)"
proof (induction xs arbitrary: m)
  case (Cons x xs)
  from Cons.IH [of "max x m"] show ?case by auto
qed simp

lemma scanDirectory_Inr:
  assumes "scanDirectory st d repo skip s = (Inr (rs, m), t)" "HasPrefix d ''/''" "tables_ok s"
  shows "(dir_at s d = None \<and> rs = [] \<and> m = 0) \<or>
    (\<exists>tab. dir_at s d = Some tab \<and> (\<not> skip \<longrightarrow> all_valid st repo tab) \<and>
      rs = rev (sort_key (record_id st) (map snd (table_records st repo (sort_key fst tab)))) \<and>
      m = fold max (map fst (table_records st repo (sort_key fst tab))) 0)"
proof -
  obtain r u where r: "ReadDir d s = (r, u)" by fastforce
  note q = quiet_dir_at [OF quiet_reads(2) r]
  show ?thesis
  proof (cases r)
    case (Inl e)
    then have rs: "errors_is e ErrNotExist" "rs = []" "m = 0"
      using assms(1) r by (auto simp: scanDirectory_def bindio_def attempt_def split: if_splits)
    then have "dir_at s d = None"
      using r Inl unfolding ReadDir_def by (elim call_io_cases) (auto split: option.splits)
    with rs show ?thesis by simp
  next
    case (Inr entries)
    obtain tab where tab: "dir_at s d = Some tab" "entries = sort_key fst tab"
      using r Inr unfolding ReadDir_def by (elim call_io_cases) (auto split: option.splits)
    obtain rs' where sc: "scan_entries st d repo skip entries ([], 0) u = (Inr (rs', m), t)"
        "rs = rev (sort_key (record_id st) rs')"
      using assms(1) r Inr by (auto simp: scanDirectory_def bindio_def attempt_def split: prod.splits sum.splits)
    have "\<forall>(name, n)\<in>set entries. dir_entry u d name = Some n"
      using tables_okD [OF assms(3) tab(1)] tab q by (auto simp: dir_entry_def)
    from scan_entries_Inr [OF sc(1) assms(2) this] sc(2) tab show ?thesis
      by (auto simp: all_valid_def)
  qed
qed


lemma distinct_map_sort: "distinct (map f xs) \<Longrightarrow> distinct (map f (sort_key g xs))"
  by (simp add: distinct_map)

section \<open>Writing one record\<close>

definition wrote :: "'r store \<Rightarrow> string \<Rightarrow> 'r \<Rightarrow> string \<Rightarrow> file_system \<Rightarrow> file_system \<Rightarrow> bool" where
  "wrote st d r json s t \<longleftrightarrow>
     file_replaced d (record_name (record_id st r)) (json @ [CHR 0x0A]) s t \<and>
     0 < record_id st r \<and> marshal (codec st) r = Inr json \<and> length json < maximumRecordBytes"

text \<open>The write as a whole: nothing but a temporary name, or the record's file replaced.\<close>

lemma wrote_frame:
  assumes "wrote st d r json s t"
  shows "(\<forall>p. p \<noteq> d \<longrightarrow> dir_at t p = dir_at s p) \<and> plain_files t = plain_files s \<and>
    (dir_at t d = None \<longleftrightarrow> dir_at s d = None) \<and> (tables_ok s \<longrightarrow> tables_ok t)"
  using assms unfolding wrote_def file_replaced_def by metis

lemma writeRecord_cases:
  assumes "writeRecord st d rec s = (r, t)"
  obtains (failed) e where "r = Inl e" "only_temp d s t"
    | (written) json where "r = Inr ()" "wrote st d rec json s t"
proof (cases "recordPath st d (record_id st rec)")
  case (Inl e)
  then have "r = Inl e" "t = s" using assms by (simp_all add: writeRecord_def)
  then show ?thesis using failed by simp
next
  case path: (Inr p)
  then have pos: "0 < record_id st rec" by (auto simp: recordPath_def split: if_splits)
  show ?thesis
  proof (cases "marshal (codec st) rec")
    case (Inl e)
    then have "r = Inl e" "t = s" using assms path by (simp_all add: writeRecord_def)
    then show ?thesis using failed by simp
  next
    case json: (Inr json)
    define c where "c = json @ [CHR 0x0A]"
    show ?thesis
    proof (cases "length c > maximumRecordBytes")
      case True
      have "writeRecord st d rec s = (Inl (Errorf (noun st @ '' record '' @ print_nat (record_id st rec) @ '' exceeds 8388608 bytes'')), s)"
        unfolding writeRecord_def path json bindio_lift sum.case Let_def c_def [symmetric] if_P [OF True] by simp
      then show ?thesis using assms failed by simp
    next
      case small: False
      note run = assms [unfolded writeRecord_def path json bindio_lift sum.case Let_def c_def [symmetric] if_not_P [OF small]]
      have f: "fills d c (\<lambda>temporary. bindio Touch (\<lambda>_. bindio (WriteFile d temporary c) (\<lambda>_. Touch)))"
        by (intro fills_before fills_after fills_WriteFile quiet_reads)
      from run f record_name_not_tmp show ?thesis
      proof (cases rule: replace_file_cases)
        case (failed e)
        then show ?thesis by (rule that(1))
      next
        case replaced
        then show ?thesis using that(2) pos json small by (simp add: wrote_def c_def)
      qed
    qed
  qed
qed

section \<open>Writes on the abstract store\<close>

text \<open>
  What the stores rely on from \<^verbatim>\<open>encoding/json\<close> for a record: its encoding, with the newline the
  code appends, decodes to the record, and nothing follows it.
\<close>

definition reproduces :: "'r codec \<Rightarrow> 'r \<Rightarrow> bool" where
  "reproduces cd r \<longleftrightarrow> (\<forall>json. marshal cd r = Inr json \<longrightarrow>
     decode_first cd (json @ [CHR 0x0A]) = Inr r \<and> decode_rest cd (json @ [CHR 0x0A]) = None)"

lemma view_iff:
  "view st repo s d rid = Some r \<longleftrightarrow> 0 < rid \<and> rid < 2 ^ 64 \<and>
     (\<exists>c. dir_entry s d (record_name rid) = Some (Regular c) \<and> decode_record st repo rid c = Inr r)"
  by (auto simp: view_def dir_entry_def stored_iff split: option.splits)

lemma view_cong:
  assumes "\<And>name. \<not> HasSuffix name ''.tmp'' \<Longrightarrow> dir_entry t d name = dir_entry s d' name"
  shows "view st repo t d = view st repo s d'"
proof
  fix rid
  show "view st repo t d rid = view st repo s d' rid"
    by (rule option_ext) (simp only: view_iff assms [OF record_name_not_tmp])
qed

lemma view_dir_at: "dir_at t d = dir_at s d' \<Longrightarrow> view st repo t d = view st repo s d'"
  by (rule view_cong) (simp add: dir_entry_def)

lemma view_only_temp: "only_temp d s t \<Longrightarrow> view st repo t p = view st repo s p"
proof (cases "p = d")
  case True
  moreover assume "only_temp d s t"
  ultimately show ?thesis by (intro view_cong) (simp add: only_temp_def)
next
  case False
  moreover assume "only_temp d s t"
  ultimately show ?thesis by (intro view_dir_at) (simp add: only_temp_def)
qed

lemma view_wrote_other: "wrote st d r json s t \<Longrightarrow> p \<noteq> d \<Longrightarrow> view st' repo t p = view st' repo s p"
  by (rule view_dir_at) (simp add: wrote_def file_replaced_def)

lemma decode_reproduced:
  assumes "marshal (codec st) r = Inr json" "length json < maximumRecordBytes" "reproduces (codec st) r"
    "validate st repo rid r = Inr u"
  shows "decode_record st repo rid (json @ [CHR 0x0A]) = Inr r"
  using assms by (simp add: decode_record_def reproduces_def)

lemma view_wrote:
  assumes "wrote st d r json s t" "reproduces (codec st) r" "validate st repo (record_id st r) r = Inr u"
    "record_id st r < 2 ^ 64"
  shows "view st repo t d = (view st repo s d)(record_id st r \<mapsto> r)"
proof
  fix rid
  let ?i = "record_id st r"
  have w: "dir_entry t d (record_name rid) =
      (if rid = ?i then Some (Regular (json @ [CHR 0x0A])) else dir_entry s d (record_name rid))" for rid
    using assms(1) record_name_not_tmp [of rid] unfolding wrote_def file_replaced_def by simp
  have "view st repo t d ?i = Some r"
    unfolding view_iff w
    using assms(1,4) decode_reproduced [OF _ _ assms(2,3)] by (simp add: wrote_def)
  moreover have "view st repo t d rid = view st repo s d rid" if "rid \<noteq> ?i"
    by (rule option_ext) (simp only: view_iff w that if_False)
  ultimately show "view st repo t d rid = ((view st repo s d)(?i \<mapsto> r)) rid" by simp
qed

lemma MkdirAll_view: "MkdirAll p s = (r, t) \<Longrightarrow> view st repo t q = view st repo s q"
  by (rule view_cong) (simp add: MkdirAll_entries(4))

lemmas MkdirAll_ok = MkdirAll_entries(1) MkdirAll_view MkdirAll_entries(2,3,4)

section \<open>Unused record numbers\<close>

lemma next_free_unused:
  assumes "next_free st d m s = (Inr n, t)"
  shows "m < n \<and> n < 2 ^ 64 \<and> dir_entry s d (record_name n) = None \<and>
    (\<forall>k. m < k \<and> k < n \<longrightarrow> dir_entry s d (record_name k) \<noteq> None)"
  using assms
proof (induction st d m arbitrary: s rule: next_free.induct)
  case (1 st d m)
  have lt: "m < 2 ^ 64 - 1" using 1(2) by (subst (asm) next_free.simps) (auto split: if_splits)
  obtain r u where r: "Lstat d (record_name (m + 1)) s = (r, u)" by fastforce
  obtain p where p: "recordPath st d (m + 1) = Inr p"
    using 1(2) lt by (subst (asm) next_free.simps) (auto split: sum.splits)
  have run: "(case r of Inl err \<Rightarrow> if errors_is err ErrNotExist then return_io (Suc m) else lift_io (Inl err)
          | Inr _ \<Rightarrow> next_free st d (Suc m)) u = (Inr n, t)"
    using 1(2) lt p r by (subst (asm) next_free.simps) (simp add: Let_def bindio_def attempt_def)
  note q = dir_entry_quiet [OF quiet_reads(3) r]
  from r show ?case
  proof (cases rule: Lstat_cases)
    case 2
    then have "n = m + 1" using run by simp
    then show ?thesis using 2 lt by auto
  next
    case 3
    then have "next_free st d (m + 1) u = (Inr n, t)" using run by simp
    from 1(1) [OF lt refl this] q have ih: "m + 1 < n \<and> n < 2 ^ 64 \<and> dir_entry s d (record_name n) = None \<and>
      (\<forall>k. m + 1 < k \<and> k < n \<longrightarrow> dir_entry s d (record_name k) \<noteq> None)" by simp
    moreover have "dir_entry s d (record_name k) \<noteq> None" if "m < k" "k < n" for k
      using ih that 3(2) by (cases "k = m + 1") auto
    ultimately show ?thesis by simp
  qed (use run in simp)
qed

text \<open>With a free number left and no faults, the search ends with a number.\<close>

lemma next_free_found:
  assumes "faults s = []" "HasPrefix d ''/''" "d \<notin> set (plain_files s)"
    "m < n" "n < 2 ^ 64" "dir_entry s d (record_name n) = None"
  shows "\<exists>k. next_free st d m s = (Inr k, s)"
  using assms
proof (induction st d m rule: next_free.induct)
  case (1 st d m)
  have lt: "m < 2 ^ 64 - 1" using 1(5,6) by simp
  obtain p where p: "recordPath st d (Suc m) = Inr p" using recordPath_rooted [OF 1(3), of "Suc m" st] by auto
  show ?case
  proof (cases "dir_entry s d (record_name (Suc m))")
    case None
    then have "Lstat d (record_name (Suc m)) s = (Inl ErrNotExist, s)"
      using 1(2,4) by (auto simp: Lstat_no_faults dir_entry_def split: option.splits)
    then show ?thesis using lt p
      by (subst next_free.simps) (simp add: Let_def bindio_def attempt_def)
  next
    case (Some x)
    then have l: "Lstat d (record_name (Suc m)) s = (Inr (), s)"
      using 1(2,4) by (auto simp: Lstat_no_faults dir_entry_def split: option.splits)
    have "m + 1 < n" using Some 1(5,7) by (cases "n = Suc m") auto
    then have "\<exists>k. next_free st d (m + 1) s = (Inr k, s)"
      using 1(1) [OF lt refl 1(2-4) _ 1(6,7)] by simp
    then show ?thesis using lt p l
      by (subst next_free.simps) (simp add: Let_def bindio_def attempt_def)
  qed
qed

section \<open>Saving and getting\<close>

lemma save_cases:
  assumes "save st repo rec s = (r, t)" "repositoryDirectory st repo = Inr d"
  obtains (failed) e where "r = Inl e" "\<And>st' repo' p. view st' repo' t p = view st' repo' s p"
      "plain_files t = plain_files s" "tables_ok s \<longrightarrow> tables_ok t"
      "\<And>p. p \<noteq> d \<Longrightarrow> dir_at t p = dir_at s p"
    | (saved) json u where "r = Inr ()" "MkdirAll d s = (Inr (), u)" "wrote st d rec json u t"
proof -
  have "bindio (MkdirAll d) (\<lambda>_. writeRecord st d rec) s = (r, t)"
    using assms by (simp add: save_def)
  then show ?thesis
  proof (cases rule: bindio_cases)
    case (failed e)
    note m = MkdirAll_ok [OF failed(1)]
    show ?thesis by (rule that(1) [OF failed(2)]) (use m in simp_all)
  next
    case (went_on x u)
    note m = MkdirAll_ok [OF went_on(1)]
    from went_on(2) show ?thesis
    proof (cases rule: writeRecord_cases)
      case (failed e)
      show ?thesis
        by (rule that(1) [OF failed(1)]) (use m(1,3,4) failed(2) in \<open>simp_all add: m(2) view_only_temp [OF failed(2)] only_temp_def\<close>)
    next
      case (written json)
      then show ?thesis using that(2) went_on(1) by simp
    qed
  qed
qed

lemma save_view:
  assumes "save st repo rec s = (Inr (), t)" "repositoryDirectory st repo = Inr d"
    "reproduces (codec st) rec" "validate st repo (record_id st rec) rec = Inr u" "record_id st rec < 2 ^ 64"
  shows "view st repo t d = (view st repo s d)(record_id st rec \<mapsto> rec)"
    "p \<noteq> d \<Longrightarrow> view st' repo' t p = view st' repo' s p"
proof -
  from assms(1,2) obtain json v where w: "MkdirAll d s = (Inr (), v)" "wrote st d rec json v t"
    by (rule save_cases) simp
  show "view st repo t d = (view st repo s d)(record_id st rec \<mapsto> rec)"
    by (simp only: view_wrote [OF w(2) assms(3-5)] MkdirAll_ok(2) [OF w(1)])
  show "p \<noteq> d \<Longrightarrow> view st' repo' t p = view st' repo' s p"
    by (rule trans [OF view_wrote_other [OF w(2)] MkdirAll_ok(2) [OF w(1)]])
qed

lemma get_view:
  assumes "faults s = []" "repositoryDirectory st repo = Inr d" "HasPrefix d ''/''"
    "view st repo s d rid = Some r"
  shows "get_record st repo rid s = (Inr r, s)"
proof -
  obtain c where c: "0 < rid" "dir_entry s d (record_name rid) = Some (Regular c)" "decode_record st repo rid c = Inr r"
    using assms(4) unfolding view_iff by blast
  obtain p where "recordPath st d rid = Inr p" using recordPath_rooted [OF assms(3) c(1)] by blast
  then have "readRecord st d repo rid s = (Inr r, s)"
    using Open_no_faults [OF assms(1) c(2)] c(3) assms(1)
    by (simp add: readRecord_def bindio_def open_node_def Touch_def)
  then show ?thesis using assms(2) by (simp add: get_record_def bindio_def attempt_def)
qed

lemma get_sound:
  assumes "get_record st repo rid s = (Inr r, t)" "repositoryDirectory st repo = Inr d"
    "\<And>l. dir_entry s d (record_name rid) \<noteq> Some (Link l)" "rid < 2 ^ 64"
  shows "view st repo s d rid = Some r"
proof -
  have rd: "readRecord st d repo rid s = (Inr r, t)"
    using assms(1,2) unfolding get_record_def
    by (auto simp: bindio_def attempt_def split: prod.splits sum.splits if_splits)
  have "0 < rid" using rd by (cases rid) (simp_all add: readRecord_def recordPath_def)
  moreover obtain c where "open_node (dir_entry s d (record_name rid)) = Inr (Some c)" "decode_record st repo rid c = Inr r"
    using readRecord_Inr [OF rd] by blast
  moreover from this have "dir_entry s d (record_name rid) = Some (Regular c)"
    using assms(3) by (auto simp: open_node_def split: option.splits node.splits)
  ultimately show ?thesis unfolding view_iff using assms(4) by blast
qed

lemma get_missing:
  assumes "faults s = []" "repositoryDirectory st repo = Inr d" "HasPrefix d ''/''" "0 < rid"
    "d \<notin> set (plain_files s)" "dir_entry s d (record_name rid) = None"
  shows "get_record st repo rid s = (Inl (Wrap (print_nat rid) (Sentinel (noun st @ '' not found''))), s)"
proof -
  obtain p where "recordPath st d rid = Inr p" using recordPath_rooted [OF assms(3,4)] by blast
  moreover have "Open d (record_name rid) s = (Inl ErrNotExist, s)"
    using assms(1,5,6) by (auto simp: Open_def dir_entry_def open_node_def split: option.splits)
  ultimately have "readRecord st d repo rid s = (Inl ErrNotExist, s)"
    by (simp add: readRecord_def bindio_def)
  then show ?thesis using assms(2) by (simp add: get_record_def bindio_def attempt_def)
qed

section \<open>Stores that respect record numbers\<close>

locale record_store =
  fixes st :: "'r store"
  assumes validate_id: "validate st repo rid r = Inr u \<Longrightarrow> record_id st r = rid \<and> 0 < rid"
    and normalize_id: "record_id st (normalize st r) = record_id st r"
    and set_repository_id: "record_id st (set_repository st full r) = record_id st r"
    and normalize_idem: "normalize st (normalize st r) = normalize st r"
begin

lemma decode_id: "decode_record st repo rid c = Inr r \<Longrightarrow> record_id st r = rid"
  by (auto simp: decode_record_def split: if_splits sum.splits option.splits dest: validate_id)

lemma stored_id: "stored st repo tab rid = Some r \<Longrightarrow> record_id st r = rid"
  by (auto simp: stored_iff dest: decode_id)

text \<open>A scan that skips invalid records returns the abstract store, the newest record first.\<close>

lemma scan_view:
  assumes "scanDirectory st d repo skip s = (Inr (rs, m), t)" "HasPrefix d ''/''" "tables_ok s"
  shows "view st repo s d rid = Some r \<longleftrightarrow> r \<in> set rs \<and> record_id st r = rid"
    "sorted_wrt (\<lambda>a b. record_id st b < record_id st a) rs"
    "\<forall>r\<in>set rs. record_id st r \<le> m"
proof -
  have "(view st repo s d rid = Some r \<longleftrightarrow> r \<in> set rs \<and> record_id st r = rid) \<and>
    sorted_wrt (\<lambda>a b. record_id st b < record_id st a) rs \<and> (\<forall>r\<in>set rs. record_id st r \<le> m)" for rid r
    using scanDirectory_Inr [OF assms]
  proof (elim disjE exE conjE)
    assume "dir_at s d = None" "rs = []" "m = 0"
    then show ?thesis by (simp add: view_def)
  next
    fix tab
    assume 2: "dir_at s d = Some tab"
      "rs = rev (sort_key (record_id st) (map snd (table_records st repo (sort_key fst tab))))"
      "m = fold max (map fst (table_records st repo (sort_key fst tab))) 0"
    let ?tr = "table_records st repo (sort_key fst tab)"
    have dist: "distinct (map fst tab)" by (rule tables_okD [OF assms(3) 2(1)])
    have mem: "(rid, r) \<in> set ?tr \<longleftrightarrow> stored st repo tab rid = Some r" for rid r
      by (rule table_records_stored [OF dist])
    have ids: "map (record_id st) (map snd ?tr) = map fst ?tr"
      using mem stored_id by (auto simp: map_eq_conv)
    have rs: "set rs = snd ` set ?tr" using 2(2) by simp
    have set: "r \<in> set rs \<longleftrightarrow> (\<exists>rid. stored st repo tab rid = Some r)" for r
      unfolding rs mem [symmetric] by (auto intro: rev_image_eqI)
    have "distinct (map fst (sort_key fst tab))" using dist by (rule distinct_map_sort)
    then have "distinct (map (record_id st) (map snd ?tr))"
      unfolding ids by (rule table_records_distinct)
    then have "distinct (map (record_id st) (sort_key (record_id st) (map snd ?tr)))"
      by (rule distinct_map_sort)
    then have "sorted_wrt (<) (map (record_id st) (sort_key (record_id st) (map snd ?tr)))"
      by (simp add: strict_sorted_iff)
    then have "sorted_wrt (\<lambda>a b. record_id st b < record_id st a) rs"
      by (simp add: 2(2) sorted_wrt_map sorted_wrt_rev)
    moreover have "record_id st r \<le> m" if member: "r \<in> set rs" for r
    proof -
      obtain rid where rid: "stored st repo tab rid = Some r" using set [THEN iffD1, OF member] by (elim exE)
      have "(rid, r) \<in> set ?tr" by (rule mem [THEN iffD2, OF rid])
      then have "rid \<in> set (map fst ?tr)" unfolding set_map by (rule rev_image_eqI) simp
      from bspec [OF fold_max_ge [THEN conjunct1] this] show ?thesis
        unfolding 2(3) stored_id [OF rid] .
    qed
    moreover have "view st repo s d rid = Some r \<longleftrightarrow> r \<in> set rs \<and> record_id st r = rid" for rid r
    proof
      assume v: "view st repo s d rid = Some r"
      then have v: "stored st repo tab rid = Some r" by (simp add: view_def 2(1))
      then show "r \<in> set rs \<and> record_id st r = rid" using set [THEN iffD2, OF exI, OF v] stored_id [OF v] by simp
    next
      assume h: "r \<in> set rs \<and> record_id st r = rid"
      obtain k where k: "stored st repo tab k = Some r" using set [THEN iffD1, OF h [THEN conjunct1]] by (elim exE)
      with stored_id [OF k] h show "view st repo s d rid = Some r" by (simp add: view_def 2(1))
    qed
    ultimately show ?thesis by simp
  qed
  then show "view st repo s d rid = Some r \<longleftrightarrow> r \<in> set rs \<and> record_id st r = rid"
    "sorted_wrt (\<lambda>a b. record_id st b < record_id st a) rs" "\<forall>r\<in>set rs. record_id st r \<le> m"
    by blast+
qed

end

end
