(* ===== verification/StoreMoves.thy ===== *)
theory StoreMoves
  imports StoreLaws
begin

text \<open>
  Moving the records of a repository: staging the rewritten records in a fresh directory and
  swapping it in. For any pattern of faults the move either gives the destination exactly the
  rewritten records or leaves the source as it was; only when the restoring rename fails too are
  the old records left under the backup name, and the error then joins both causes.
\<close>

section \<open>Directory calls\<close>

lemma RenameDir_cases:
  assumes "RenameDir a b s = (r, t)"
  obtains (failed) e where "r = Inl e" "dir_at t = dir_at s" "plain_files t = plain_files s"
    | (moved) tab where "r = Inr ()" "dir_at s a = Some tab"
        "\<And>p. dir_at t p = (if p = b then Some tab else if p = a then None else dir_at s p)"
        "plain_files t = plain_files s"
  using assms unfolding RenameDir_def
  by (elim call_io_cases) (auto split: option.splits if_splits)

lemma RemoveAll_cases:
  assumes "RemoveAll p s = (r, t)"
  shows "(dir_at t = dir_at s \<or> dir_at t = (dir_at s)(p := None)) \<and> plain_files t = plain_files s"
  using assms unfolding RemoveAll_def by (elim call_io_cases) (auto simp: fun_eq_iff)

lemma MkdirTemp_cases:
  assumes "MkdirTemp parent stem s = (r, t)"
  obtains (failed) e where "r = Inl e" "dir_at t = dir_at s" "plain_files t = plain_files s"
    | (created) n where "r = Inr (parent @ ''/'' @ stem @ print_nat n)"
        "dir_at t = (dir_at s)(parent @ ''/'' @ stem @ print_nat n := Some [])" "plain_files t = plain_files s"
        "\<And>q. dir_at s q \<noteq> None \<Longrightarrow> \<not> prefix (parent @ ''/'' @ stem @ print_nat n) q"
  using assms unfolding MkdirTemp_def
proof (rule call_io_cases)
  fix fs
  let ?base = "parent @ ''/'' @ stem" and ?s = "s\<lparr>faults := fs\<rparr>"
  define n where "n = fresh_number ?base (map fst (dirs ?s) @ plain_files ?s)"
  assume h: "(let base = parent @ ''/'' @ stem;
         p = base @ print_nat (fresh_number base (map fst (dirs ?s) @ plain_files ?s))
     in (Inr p, put_dir p [] ?s)) = (r, t)"
  have "\<not> prefix (parent @ ''/'' @ stem @ print_nat n) q" if "dir_at s q \<noteq> None" for q
  proof -
    have "q \<in> set (map fst (dirs ?s) @ plain_files ?s)"
      using that by (auto simp: dir_at_def map_of_eq_None_iff)
    from fresh_number_new [OF this, of ?base] show ?thesis by (simp add: n_def)
  qed
  moreover have "r = Inr (parent @ ''/'' @ stem @ print_nat n)" "t = put_dir (parent @ ''/'' @ stem @ print_nat n) [] ?s"
    using h by (simp_all add: Let_def n_def)
  ultimately show ?thesis by (intro created [of n]) (auto simp: fun_eq_iff)
qed (use failed in auto)

section \<open>The swap\<close>

text \<open>
  The outcomes of the swap: \<open>swapped\<close> when the new table is in place, \<open>untouched\<close> when the old
  directories are as before, \<open>stranded\<close> when the old table is under the backup name.
\<close>

definition swapped :: "string \<Rightarrow> string \<Rightarrow> directory \<Rightarrow> file_system \<Rightarrow> bool" where
  "swapped src dst tab t \<longleftrightarrow> dir_at t dst = Some tab \<and> (src \<noteq> dst \<longrightarrow> dir_at t src = None)"

definition untouched :: "string \<Rightarrow> string \<Rightarrow> file_system \<Rightarrow> file_system \<Rightarrow> bool" where
  "untouched src dst s t \<longleftrightarrow> dir_at t src = dir_at s src \<and> dir_at t dst = dir_at s dst"

definition stranded :: "string \<Rightarrow> string \<Rightarrow> string \<Rightarrow> goerror \<Rightarrow> file_system \<Rightarrow> file_system \<Rightarrow> bool" where
  "stranded src dst backup e s t \<longleftrightarrow>
     (\<exists>a b. e = JoinErr a b) \<and> dir_at t backup = dir_at s src \<and> dir_at t src = None \<and>
     (src \<noteq> dst \<longrightarrow> dir_at t dst = dir_at s dst)"

lemma swap_in_outcome:
  assumes "swap_in st src staged dst s = (r, t)" "dir_at s staged = Some tab"
    "src \<noteq> staged" "dst \<noteq> staged" "src \<noteq> staged @ ''.original''" "dst \<noteq> staged @ ''.original''"
  shows "plain_files t = plain_files s \<and>
    (\<forall>p. p \<notin> {src, dst, staged, staged @ ''.original''} \<longrightarrow> dir_at t p = dir_at s p) \<and>
    (case r of Inr _ \<Rightarrow> swapped src dst tab t
     | Inl e \<Rightarrow> untouched src dst s t \<or> stranded src dst (staged @ ''.original'') e s t)"
proof -
  define backup where "backup = staged @ ''.original''"
  have ne: "staged \<noteq> backup" "src \<noteq> backup" "dst \<noteq> backup" using assms(5,6) by (simp_all add: backup_def)
  note run = assms(1) [unfolded swap_in_def Let_def backup_def [symmetric]]
  have "plain_files t = plain_files s \<and>
    (\<forall>p. p \<notin> {src, dst, staged, backup} \<longrightarrow> dir_at t p = dir_at s p) \<and>
    (case r of Inr _ \<Rightarrow> swapped src dst tab t
     | Inl e \<Rightarrow> untouched src dst s t \<or> stranded src dst backup e s t)"
    using run
  proof (cases rule: bindio_cases)
    case (failed e)
    from failed(1) show ?thesis
      by (cases rule: RenameDir_cases) (use failed(2) in \<open>simp_all add: untouched_def\<close>)
  next
    case (went_on x u)
    from went_on(1) obtain old where old: "dir_at s src = Some old" "plain_files u = plain_files s"
      "\<And>p. dir_at u p = (if p = backup then Some old else if p = src then None else dir_at s p)"
      by (cases rule: RenameDir_cases) simp_all
    have ut: "dir_at u staged = Some tab" using old(3) ne assms(2,3) by simp
    obtain y v where y: "RenameDir staged dst u = (y, v)" by fastforce
    from y show ?thesis
    proof (cases rule: RenameDir_cases)
      case (moved tab')
      have v: "\<And>p. dir_at v p = (if p = dst then Some tab else if p = staged then None else dir_at u p)"
        using moved ut by simp
      obtain z w where z: "RemoveAll backup v = (z, w)" by fastforce
      have "r = Inr ()" "t = w"
        using went_on(2) y moved(1) z by (simp_all add: bindio_def attempt_def)
      moreover have "dir_at w dst = Some tab" "src \<noteq> dst \<longrightarrow> dir_at w src = None" "plain_files w = plain_files s"
        "\<forall>p. p \<notin> {src, dst, staged, backup} \<longrightarrow> dir_at w p = dir_at s p"
        using RemoveAll_cases [OF z] v moved(4) old(2,3) ne assms(3) by auto
      ultimately show ?thesis by (simp add: swapped_def)
    next
      case (failed e)
      obtain z w where z: "RenameDir backup src v = (z, w)" by fastforce
      have r: "t = w" "r = Inl (case z of Inl b \<Rightarrow> JoinErr e (Wrap (''restore '' @ store_noun st @ '' store'') b) | Inr _ \<Rightarrow> e)"
        using went_on(2) y failed(1) z by (simp_all add: bindio_def attempt_def split: sum.splits)
      from z show ?thesis
      proof (cases rule: RenameDir_cases)
        case fail2: (failed e2)
        then have "stranded src dst backup (JoinErr e (Wrap (''restore '' @ store_noun st @ '' store'') e2)) s t"
          using r failed(2) old ne unfolding stranded_def by simp
        then show ?thesis using fail2 r failed(2,3) old(2,3) by simp
      next
        case (moved tab')
        then have "untouched src dst s t"
          using r failed(2) old ne unfolding untouched_def by auto
        then show ?thesis using moved r failed(2,3) old(2,3) by simp
      qed
    qed
  qed
  then show ?thesis unfolding backup_def .
qed

section \<open>Staging\<close>

text \<open>The record a move writes for a record it read.\<close>

definition rewritten :: "'r store \<Rightarrow> repository \<Rightarrow> 'r \<Rightarrow> 'r" where
  "rewritten st destination r = normalize st (set_repository st (Full destination) r)"

definition rewritten_map :: "'r store \<Rightarrow> repository \<Rightarrow> 'r list \<Rightarrow> nat \<rightharpoonup> 'r" where
  "rewritten_map st destination rs = map_of (rev (map (\<lambda>r. (record_id st r, rewritten st destination r)) rs))"

lemma rewritten_map_Cons:
  "m ++ rewritten_map st dest (r # rs) = m(record_id st r \<mapsto> rewritten st dest r) ++ rewritten_map st dest rs"
  by (simp add: rewritten_map_def)

lemma rewritten_map_Nil [simp]: "m ++ rewritten_map st dest [] = m"
  by (simp add: rewritten_map_def)

text \<open>Records a move can write back: numbered in range and reproduced by the encoding.\<close>

definition movable :: "'r store \<Rightarrow> repository \<Rightarrow> 'r \<Rightarrow> bool" where
  "movable st destination r \<longleftrightarrow>
     record_id st r < 2 ^ 64 \<and> reproduces (codec st) (rewritten st destination r)"

context record_store
begin

lemma rewritten_id [simp]: "record_id st (rewritten st dest r) = record_id st r"
  by (simp add: rewritten_def normalize_id set_repository_id)

lemma write_rewritten_outcome:
  assumes "write_rewritten st d dest rs s = (x, t)"
  shows "plain_files t = plain_files s \<and> (\<forall>p. p \<noteq> d \<longrightarrow> dir_at t p = dir_at s p) \<and>
    (dir_at t d = None \<longleftrightarrow> dir_at s d = None) \<and> (tables_ok s \<longrightarrow> tables_ok t) \<and>
    (x = Inr () \<longrightarrow> (\<forall>r\<in>set rs. movable st dest r) \<longrightarrow>
       view st dest t d = view st dest s d ++ rewritten_map st dest rs)"
  using assms
proof (induction rs arbitrary: s)
  case (Cons r rs)
  define r' where "r' = rewritten st dest r"
  have run: "bindio (lift_io (validate st dest (record_id st r') r')) (\<lambda>_.
      bindio (writeRecord st d r') (\<lambda>_. write_rewritten st d dest rs)) s = (x, t)"
    using Cons.prems by (simp add: r'_def rewritten_def Let_def)
  show ?case
  proof (cases "validate st dest (record_id st r') r'")
    case (Inl e)
    then have "x = Inl e" "t = s" using run by simp_all
    then show ?thesis by simp
  next
    case ok: (Inr u)
    then have "bindio (writeRecord st d r') (\<lambda>_. write_rewritten st d dest rs) s = (x, t)" using run by simp
    then show ?thesis
    proof (cases rule: bindio_cases)
      case (failed e)
      from failed(1) have "only_temp d s t" by (cases rule: writeRecord_cases) simp_all
      then show ?thesis using failed(2) by (simp add: only_temp_def)
    next
      case (went_on y s1)
      from went_on(1) obtain json where w: "wrote st d r' json s s1"
        by (cases rule: writeRecord_cases) simp_all
      note ih = Cons.IH [OF went_on(2)]
      have "view st dest s1 d = (view st dest s d)(record_id st r \<mapsto> r')" if "movable st dest r"
        using view_wrote [OF w _ ok] that by (simp add: movable_def r'_def)
      then have "view st dest t d = view st dest s d ++ rewritten_map st dest (r # rs)"
        if "x = Inr ()" "\<forall>r\<in>set (r # rs). movable st dest r"
        unfolding rewritten_map_Cons using ih that by (simp add: r'_def del: fun_upd_apply)
      then show ?thesis using ih wrote_frame [OF w] by simp
    qed
  qed
qed simp

text \<open>The staged directory is new, so neither it nor the backup name is in the way.\<close>

lemma stage_and_swap_outcome:
  assumes "stage_and_swap st parent stem src dst dest rs s = (x, t)" "dir_at s src \<noteq> None"
    "dst = src \<or> (dir_at s dst = None \<and> \<not> is_digit (last dst) \<and> last dst \<noteq> CHR ''l'')"
  shows "plain_files t = plain_files s \<and>
    (\<forall>p. dir_at s p \<noteq> None \<longrightarrow> p \<noteq> src \<longrightarrow> dir_at t p = dir_at s p) \<and>
    (case x of
       Inr _ \<Rightarrow> (src \<noteq> dst \<longrightarrow> dir_at t src = None) \<and> dir_at t dst \<noteq> None \<and>
         ((\<forall>r\<in>set rs. movable st dest r) \<longrightarrow> view st dest t dst = rewritten_map st dest rs)
     | Inl e \<Rightarrow> untouched src dst s t \<or> (\<exists>backup. dir_at s backup = None \<and> stranded src dst backup e s t))"
proof -
  have "bindio (MkdirTemp parent stem) (\<lambda>staged.
       cleanup (bindio Touch (\<lambda>_. bindio (write_rewritten st staged dest rs) (\<lambda>_. swap_in st src staged dst)))
         (RemoveAll staged)) s = (x, t)"
    using assms(1) by (simp add: stage_and_swap_def)
  then show ?thesis
  proof (cases rule: bindio_cases)
    case (failed e)
    from failed(1) show ?thesis
      by (cases rule: MkdirTemp_cases) (use failed(2) in \<open>simp_all add: untouched_def\<close>)
  next
    case (went_on staged s1)
    from went_on(1) obtain n where n: "staged = parent @ ''/'' @ stem @ print_nat n"
      "dir_at s1 = (dir_at s)(staged := Some [])" "plain_files s1 = plain_files s"
      "\<And>q. dir_at s q \<noteq> None \<Longrightarrow> \<not> prefix staged q"
      by (cases rule: MkdirTemp_cases) simp_all
    define backup where "backup = staged @ ''.original''"
    have ld: "is_digit (last staged)"
      using print_nat_digits [of n] print_nat_nonempty [of n] n(1) by (simp add: list_all_iff)
    have new: "dir_at s staged = None" "dir_at s backup = None"
      by (rule ccontr, use n(4) [of staged] in simp, rule ccontr, use n(4) [of backup] in \<open>simp add: backup_def\<close>)
    have ne: "src \<noteq> staged" "src \<noteq> backup" using assms(2) new by auto
    have lb: "last backup = CHR ''l''" by (simp add: backup_def)
    have ne': "dst \<noteq> staged" "dst \<noteq> backup" using assms(3) ne ld lb by auto
    define body where "body = bindio Touch (\<lambda>_. bindio (write_rewritten st staged dest rs) (\<lambda>_. swap_in st src staged dst))"
    obtain y s4 where y: "body s1 = (y, s4)" by fastforce
    obtain z s5 where z: "RemoveAll staged s4 = (z, s5)" by fastforce
    have xt: "x = y" "t = s5" using went_on(2) y z unfolding body_def [symmetric] by (simp_all add: cleanup_def)
    have t4: "\<And>p. p \<noteq> staged \<Longrightarrow> dir_at t p = dir_at s4 p" "plain_files t = plain_files s4"
      using RemoveAll_cases [OF z] xt(2) by auto
    have frame: "(\<forall>p. p \<notin> {src, dst, staged, backup} \<longrightarrow> dir_at s4 p = dir_at s p) \<and> plain_files s4 = plain_files s \<and>
      (case y of Inr _ \<Rightarrow> (src \<noteq> dst \<longrightarrow> dir_at s4 src = None) \<and> dir_at s4 dst \<noteq> None \<and>
         ((\<forall>r\<in>set rs. movable st dest r) \<longrightarrow> view st dest s4 dst = rewritten_map st dest rs)
       | Inl e \<Rightarrow> untouched src dst s s4 \<or> stranded src dst backup e s s4)"
      using y unfolding body_def
    proof (cases rule: bindio_cases)
      case (failed e)
      then have "dir_at s4 = dir_at s1" "plain_files s4 = plain_files s1"
        using quiet_dir_at [OF quiet_reads(5)] quietD [OF quiet_reads(5)] by blast+
      then show ?thesis using failed n(2,3) ne ne' by (simp add: untouched_def)
    next
      case (went_on _ s2)
      have s2: "dir_at s2 = dir_at s1" "plain_files s2 = plain_files s1"
        using quiet_dir_at [OF quiet_reads(5) went_on(1)] quietD [OF quiet_reads(5) went_on(1)] by blast+
      from went_on(2) show ?thesis
      proof (cases rule: bindio_cases)
        case (failed e)
        then show ?thesis
          using write_rewritten_outcome [OF failed(1)] n(2,3) s2 ne ne' by (simp add: untouched_def)
      next
        case (went_on _ s3)
        note w = write_rewritten_outcome [OF went_on(1)]
        have "dir_at s3 staged \<noteq> None" using w s2 n(2) by simp
        then obtain tab where tab: "dir_at s3 staged = Some tab" by blast
        have s3: "\<And>p. p \<noteq> staged \<Longrightarrow> dir_at s3 p = dir_at s p" "plain_files s3 = plain_files s"
          using w s2 n(2,3) by simp_all
        have "view st dest s2 staged = Map.empty"
          using s2(1) n(2) by (simp add: fun_eq_iff view_def stored_def)
        then have v: "(\<forall>r\<in>set rs. movable st dest r) \<longrightarrow> view st dest s3 staged = rewritten_map st dest rs"
          using w by simp
        note sw = swap_in_outcome [OF went_on(2) tab ne(1) ne'(1) ne(2) [unfolded backup_def] ne'(2) [unfolded backup_def],
          folded backup_def]
        show ?thesis
        proof (cases y)
          case (Inl e)
          then show ?thesis using sw s3 ne ne' by (simp add: untouched_def stranded_def)
        next
          case (Inr a)
          then have "swapped src dst tab s4" using sw by simp
          then have "view st dest s4 dst = view st dest s3 staged" "src \<noteq> dst \<longrightarrow> dir_at s4 src = None" "dir_at s4 dst \<noteq> None"
            using tab by (auto simp: swapped_def intro: view_dir_at)
          then show ?thesis using sw s3 v Inr by simp
        qed
      qed
    qed
    have "p \<noteq> staged \<and> p \<noteq> backup" if "dir_at s p \<noteq> None" for p using that new by auto
    moreover have "p \<noteq> dst" if "dir_at s p \<noteq> None" "p \<noteq> src" for p using that assms(3) by auto
    ultimately have "\<forall>p. dir_at s p \<noteq> None \<longrightarrow> p \<noteq> src \<longrightarrow> dir_at t p = dir_at s p"
      using frame t4(1) by simp
    moreover have "view st dest t dst = view st dest s4 dst" using t4(1) ne' by (intro view_dir_at) simp
    moreover have "untouched src dst s s4 \<Longrightarrow> untouched src dst s t"
      "stranded src dst backup e s s4 \<Longrightarrow> stranded src dst backup e s t" for e
      using t4(1) ne ne' by (auto simp: untouched_def stranded_def backup_def)
    ultimately show ?thesis using frame t4 ne ne' new(2) xt(1) by (auto split: sum.splits)
  qed
qed

end

section \<open>Relocation\<close>

lemma Stat_cases:
  assumes "Stat p s = (x, t)"
  shows "(case x of Inr True \<Rightarrow> dir_at s p \<noteq> None | Inr False \<Rightarrow> p \<in> set (plain_files s)
    | Inl e \<Rightarrow> errors_is e ErrNotExist \<longrightarrow> dir_at s p = None) \<and> dir_at t = dir_at s \<and> plain_files t = plain_files s"
proof -
  have "case x of Inr True \<Rightarrow> dir_at s p \<noteq> None | Inr False \<Rightarrow> p \<in> set (plain_files s)
    | Inl e \<Rightarrow> errors_is e ErrNotExist \<longrightarrow> dir_at s p = None"
    using assms unfolding Stat_def
    by (elim call_io_cases) (auto split: if_splits)
  then show ?thesis using quiet_dir_at [OF quiet_reads(1) assms] quietD [OF quiet_reads(1) assms] by simp
qed

lemma listDirectory_plain:
  assumes "listDirectory st d repo s = (Inr rs, t)" "dir_at s d = None"
  shows "d \<notin> set (plain_files s)"
proof
  assume p: "d \<in> set (plain_files s)"
  obtain x u where x: "ReadDir d s = (x, u)" by fastforce
  then have "x = Inl ErrIO" using assms(2) p unfolding ReadDir_def by (elim call_io_cases) auto
  then show False using assms(1) x by (simp add: listDirectory_def scanDirectory_def bindio_def attempt_def)
qed

context record_store
begin

lemma list_rewritten:
  assumes "listDirectory st d repo s = (Inr rs, t)" "HasPrefix d ''/''" "tables_ok s"
  shows "rewritten_map st dest rs = map_option (rewritten st dest) \<circ> view st repo s d"
    "r \<in> set rs \<Longrightarrow> view st repo s d (record_id st r) = Some r"
proof -
  obtain m where sc: "scanDirectory st d repo False s = (Inr (rs, m), t)"
    using assms(1) unfolding listDirectory_def by (elim bindio_cases) auto
  note v = scan_view(1) [OF sc assms(2,3)]
  show "r \<in> set rs \<Longrightarrow> view st repo s d (record_id st r) = Some r" using v by simp
  have "sorted_wrt (\<lambda>a b. record_id st b < record_id st a) rs" by (rule scan_view(2) [OF sc assms(2,3)])
  then have "distinct (map (record_id st) rs)" by (induction rs) auto
  then have dist: "distinct (map fst (rev (map (\<lambda>r. (record_id st r, rewritten st dest r)) rs)))"
    by (simp add: o_def flip: rev_map)
  show "rewritten_map st dest rs = map_option (rewritten st dest) \<circ> view st repo s d"
  proof
    fix rid
    show "rewritten_map st dest rs rid = (map_option (rewritten st dest) \<circ> view st repo s d) rid"
    proof (rule option_ext)
      fix y
      have "rewritten_map st dest rs rid = Some y \<longleftrightarrow> (\<exists>r\<in>set rs. rid = record_id st r \<and> y = rewritten st dest r)"
        unfolding rewritten_map_def map_of_eq_Some_iff [OF dist] by auto
      also have "\<dots> \<longleftrightarrow> (\<exists>r. view st repo s d rid = Some r \<and> y = rewritten st dest r)" using v by auto
      also have "\<dots> \<longleftrightarrow> (map_option (rewritten st dest) \<circ> view st repo s d) rid = Some y" by auto
      finally show "rewritten_map st dest rs rid = Some y \<longleftrightarrow> (map_option (rewritten st dest) \<circ> view st repo s d) rid = Some y" .
    qed
  qed
qed

lemma relocate_outcome:
  assumes "relocate st repo dest s = (x, t)" "repositoryDirectory st repo = Inr src"
    "repositoryDirectory st dest = Inr dst" "src \<noteq> dst" "tables_ok s" "HasPrefix src ''/''"
    "path_Dir dst \<noteq> dst" "\<not> is_digit (last dst)" "last dst \<noteq> CHR ''l''"
  shows "plain_files t = plain_files s \<and>
    (\<forall>p. dir_at s p \<noteq> None \<longrightarrow> p \<noteq> src \<longrightarrow> dir_at t p = dir_at s p) \<and>
    (case x of
       Inr _ \<Rightarrow> dir_at s dst = None \<and> dir_at t src = None \<and>
         ((\<forall>rid r. view st repo s src rid = Some r \<longrightarrow> movable st dest r) \<longrightarrow>
          view st dest t dst = map_option (rewritten st dest) \<circ> view st repo s src)
     | Inl e \<Rightarrow> untouched src dst s t \<or> (\<exists>backup. dir_at s backup = None \<and> stranded src dst backup e s t))"
    (is "?goal x t")
proof -
  obtain a s1 where a: "Stat dst s = (a, s1)" by fastforce
  note sa = Stat_cases [OF a]
  obtain b s2 where b: "Stat src s1 = (b, s2)" by fastforce
  note sb = Stat_cases [OF b]
  have s2: "dir_at s2 = dir_at s" "plain_files s2 = plain_files s" using sa sb by simp_all
  note run = assms(1) [unfolded relocate_def assms(2,3) bindio_lift sum.case if_not_P [OF assms(4)]]
  show ?thesis
  proof (cases "\<exists>e. a = Inl e \<and> errors_is e ErrNotExist")
    case False
    then have "\<exists>e. x = Inl e" "t = s1" using run a by (auto simp: bindio_def attempt_def split: sum.splits)
    then show ?thesis using sa by (auto simp: untouched_def)
  next
    case True
    then have none: "dir_at s dst = None" using sa by auto
    have run2: "(case b of Inl err \<Rightarrow> if errors_is err ErrNotExist then return_io () else lift_io (Inl err)
       | Inr _ \<Rightarrow> bindio (listDirectory st src repo) (\<lambda>records.
           bindio (MkdirAll (path_Dir dst)) (\<lambda>_.
             stage_and_swap st (path_Dir dst) (relocate_stem st) src dst dest records))) s2 = (x, t)"
      using run True a b by (auto simp: bindio_attempt)
    show ?thesis
    proof (cases b)
      case (Inl e)
      show ?thesis
      proof (cases "errors_is e ErrNotExist")
        case True
        then have "x = Inr ()" "t = s2" using run2 Inl by simp_all
        moreover have "dir_at s src = None" using sb sa Inl True by simp
        ultimately show ?thesis using s2 none by (simp add: view_def fun_eq_iff)
      next
        case False
        then have "x = Inl e" "t = s2" using run2 Inl by simp_all
        then show ?thesis using s2 by (simp add: untouched_def)
      qed
    next
      case (Inr _)
      then have "bindio (listDirectory st src repo) (\<lambda>records. bindio (MkdirAll (path_Dir dst)) (\<lambda>_.
             stage_and_swap st (path_Dir dst) (relocate_stem st) src dst dest records)) s2 = (x, t)"
        using run2 by simp
      then show ?thesis
      proof (cases rule: bindio_cases)
        case (failed e)
        then show ?thesis using quiet_dir_at [OF quiet_lists(1) failed(1)] quietD [OF quiet_lists(1) failed(1)] s2
          by (simp add: untouched_def)
      next
        case (went_on rs s3)
        have s3: "dir_at s3 = dir_at s" "plain_files s3 = plain_files s"
          using quiet_dir_at [OF quiet_lists(1) went_on(1)] quietD [OF quiet_lists(1) went_on(1)] s2 by simp_all
        have "tables_ok s2" using assms(5) s2(1) by (simp add: tables_ok_def)
        note ls = list_rewritten [OF went_on(1) assms(6) this]
        have vs: "view st repo s2 src = view st repo s src" by (rule view_dir_at) (simp add: s2)
        have ex: "dir_at s src \<noteq> None"
          using sb sa s2 Inr listDirectory_plain [OF went_on(1)] by (auto split: bool.splits)
        from went_on(2) show ?thesis
        proof (cases rule: bindio_cases)
          case (failed e)
          note m = MkdirAll_cases [OF failed(1)]
          show ?thesis by (rule m) (use failed(2) s3 in \<open>simp_all add: untouched_def\<close>)
        next
          case (went_on _ s4)
          have s4: "\<And>p. dir_at s4 p = (if p = path_Dir dst \<and> dir_at s (path_Dir dst) = None then Some [] else dir_at s p)"
            "plain_files s4 = plain_files s"
            by (rule MkdirAll_cases [OF went_on(1)], simp_all add: s3)+
          have e4: "dir_at s4 src = dir_at s src" "dir_at s4 dst = None" using s4(1) ex none assms(7) by auto
          have out: "plain_files t = plain_files s4"
            "\<forall>p. dir_at s4 p \<noteq> None \<longrightarrow> p \<noteq> src \<longrightarrow> dir_at t p = dir_at s4 p"
            "case x of Inr _ \<Rightarrow> (src \<noteq> dst \<longrightarrow> dir_at t src = None) \<and> dir_at t dst \<noteq> None \<and>
                ((\<forall>r\<in>set rs. movable st dest r) \<longrightarrow> view st dest t dst = rewritten_map st dest rs)
             | Inl e \<Rightarrow> untouched src dst s4 t \<or> (\<exists>backup. dir_at s4 backup = None \<and> stranded src dst backup e s4 t)"
            using stage_and_swap_outcome [OF went_on(2)] e4 ex assms(8,9) by auto
          have old: "dir_at s4 p = dir_at s p" if "dir_at s p \<noteq> None" for p using s4(1) [of p] that by auto
          have gone: "dir_at s p = None" if "dir_at s4 p = None" for p using s4(1) [of p] that by (simp split: if_splits)
          have frame: "dir_at t p = dir_at s p" if "dir_at s p \<noteq> None" "p \<noteq> src" for p
            using out(2) old [OF that(1)] that by simp
          show ?thesis
          proof (cases x)
            case (Inl e)
            then have "untouched src dst s t \<or> (\<exists>backup. dir_at s backup = None \<and> stranded src dst backup e s t)"
              using out(3) e4 none gone unfolding untouched_def stranded_def by auto
            then show ?thesis using Inl frame out(1) s4(2) by simp
          next
            case (Inr _)
            have "movable st dest r" if "\<forall>rid r. view st repo s src rid = Some r \<longrightarrow> movable st dest r" "r \<in> set rs" for r
              using that(1) ls(2) [OF that(2)] vs by metis
            then have "(\<forall>rid r. view st repo s src rid = Some r \<longrightarrow> movable st dest r) \<longrightarrow>
                view st dest t dst = map_option (rewritten st dest) \<circ> view st repo s src"
              using out(3) Inr ls(1) vs by simp
            then show ?thesis using Inr frame out(1,3) s4(2) none assms(4) by simp
          qed
        qed
      qed
    qed
  qed
qed

end

section \<open>Paths of stores\<close>

text \<open>The stores of repositories: an absolute root, and a suffix that fits in one path segment.\<close>

definition rooted_store :: "'r store \<Rightarrow> bool" where
  "rooted_store st \<longleftrightarrow> HasPrefix (store_root st) ''/'' \<and> CHR ''/'' \<notin> set (store_suffix st) \<and>
     store_suffix st \<noteq> [] \<and> \<not> is_digit (last (store_suffix st)) \<and> last (store_suffix st) \<noteq> CHR ''l''"

definition store_path :: "'r store \<Rightarrow> repository \<Rightarrow> string" where
  "store_path st repo =
     rooted_path (rooted_clean (store_root st) @ Groups repo @ [Name repo @ store_suffix st])"

lemma validateRepository_wf: "wf_repository repo \<Longrightarrow> validateRepository repo = Inr ()"
proof -
  assume wf: "wf_repository repo"
  have "request_suffix ''/info/refs''" by (simp add: request_suffix_def routes_def)
  moreover have "TrimPrefix (''/'' @ Full repo @ ''.git/info/refs'') ''/'' = Full repo @ ''.git'' @ ''/info/refs''"
    by (simp add: TrimPrefix_def HasPrefix_def)
  ultimately have "ParseGitRequestPath (''/'' @ Full repo @ ''.git/info/refs'') = Inr (repo, ''/info/refs'')"
    by (rule parse_complete [OF wf])
  then show ?thesis by (simp add: validateRepository_def)
qed

lemma store_parts_normal:
  assumes "wf_repository repo" "rooted_store st"
  shows "list_all normal (Groups repo @ [Name repo @ store_suffix st])"
    "list_all normal (rooted_clean (store_root st) @ Groups repo @ [Name repo @ store_suffix st])"
proof -
  have "valid (Name repo)" using assms(1) by (simp add: wf_repository_def)
  then have "normal (Name repo @ store_suffix st)"
    using valid_no_slash [of "Name repo"] valid_nonempty [of "Name repo"] valid_no_dot_first [of "Name repo"] assms(2)
    by (intro normalI) (auto simp: rooted_store_def neq_Nil_conv)
  then show *: "list_all normal (Groups repo @ [Name repo @ store_suffix st])"
    using assms(1) valid_normal by (auto simp: wf_repository_def list_all_iff)
  show "list_all normal (rooted_clean (store_root st) @ Groups repo @ [Name repo @ store_suffix st])"
    using * rooted_clean_normal [of "store_root st"] by simp
qed

lemma repositoryDirectory_wf:
  assumes "wf_repository repo" "rooted_store st"
  shows "repositoryDirectory st repo = Inr (store_path st repo)"
proof -
  have "HasPrefix (store_root st) ''/''" using assms(2) by (simp add: rooted_store_def)
  then have "SafeJoin (getwd (store_env st)) (store_root st) (Groups repo @ [Name repo @ store_suffix st])
      = Inr (rooted_path (abs_parts ''/'' (store_root st) @ Groups repo @ [Name repo @ store_suffix st]))"
    unfolding SafeJoin_rooted [OF \<open>HasPrefix (store_root st) ''/''\<close>, of "getwd (store_env st)"]
    using store_parts_normal(1) [OF assms] by (intro SafeJoin_normal) (simp_all add: HasPrefix_def)
  then show ?thesis
    using assms(2) by (simp add: repositoryDirectory_def validateRepository_wf [OF assms(1)] store_path_def
      rooted_store_def abs_parts_def)
qed

lemma store_path_facts:
  assumes "wf_repository repo" "rooted_store st"
  shows "HasPrefix (store_path st repo) ''/''" "last (store_path st repo) = last (store_suffix st)"
    "path_Dir (store_path st repo) \<noteq> store_path st repo"
    "\<not> is_digit (last (store_path st repo))" "last (store_path st repo) \<noteq> CHR ''l''"
proof -
  let ?ps = "rooted_clean (store_root st) @ Groups repo @ [Name repo @ store_suffix st]"
  note n = store_parts_normal(2) [OF assms]
  show "HasPrefix (store_path st repo) ''/''" by (simp add: store_path_def rooted_path_def HasPrefix_def)
  have ne: "store_suffix st \<noteq> []" using assms(2) by (simp add: rooted_store_def)
  have "Join (xs @ [y @ store_suffix st]) ''/'' \<noteq> [] \<and>
      last (Join (xs @ [y @ store_suffix st]) ''/'') = last (store_suffix st)" for xs y
    using ne by (cases "xs = []") (simp_all add: Join_append)
  from this [of "rooted_clean (store_root st) @ Groups repo" "Name repo"]
  show l: "last (store_path st repo) = last (store_suffix st)"
    using ne by (simp add: store_path_def rooted_path_def)
  show "\<not> is_digit (last (store_path st repo))" "last (store_path st repo) \<noteq> CHR ''l''"
    unfolding l using assms(2) by (simp_all add: rooted_store_def)
  have "path_Dir (store_path st repo) = rooted_path (butlast ?ps)"
    by (simp add: path_Dir_def store_path_def path_parts_rooted [OF n])
  moreover have "list_all normal (butlast ?ps)" using n by (simp add: butlast_append)
  moreover have "length (butlast ?ps) \<noteq> length ?ps" by simp
  ultimately show "path_Dir (store_path st repo) \<noteq> store_path st repo"
    unfolding store_path_def using rooted_path_inj [OF _ n, of "butlast ?ps"] by metis
qed

lemma store_path_inj:
  assumes "wf_repository a" "wf_repository b" "rooted_store st" "store_path st a = store_path st b"
  shows "a = b"
proof -
  have "Groups a @ [Name a @ store_suffix st] = Groups b @ [Name b @ store_suffix st]"
    using assms(4) rooted_path_inj [OF store_parts_normal(2) [OF assms(1,3)] store_parts_normal(2) [OF assms(2,3)]]
    by (simp add: store_path_def)
  then show ?thesis by (cases a; cases b) simp
qed

section \<open>Creating and updating\<close>

lemma with_locks_wf: "\<forall>q\<in>set requests. wf_request q \<Longrightarrow> with_locks requests m = m"
  using normalize_total [of requests] by (auto simp: with_locks_def fun_eq_iff)

lemma Get_record_view:
  assumes "faults t = []" "wf_repository repo" "rooted_store st"
    "\<forall>q\<in>set (repository_locks st [repo]). wf_request q" "view st repo t (store_path st repo) rid = Some r"
  shows "Get_record st repo rid t = (Inr r, t)"
proof -
  have "0 < rid" using assms(5) by (simp add: view_iff)
  then show ?thesis
    using get_view [OF assms(1) repositoryDirectory_wf [OF assms(2,3)] store_path_facts(1) [OF assms(2,3)] assms(5)]
    by (simp add: Get_record_def with_locks_wf [OF assms(4)])
qed

text \<open>Nothing that the stores read back has changed.\<close>

definition same_records :: "file_system \<Rightarrow> file_system \<Rightarrow> bool" where
  "same_records s t \<longleftrightarrow> plain_files t = plain_files s \<and> (tables_ok s \<longrightarrow> tables_ok t) \<and>
     (\<forall>d name. \<not> HasSuffix name ''.tmp'' \<longrightarrow> dir_entry t d name = dir_entry s d name)"

lemma same_records_view: "same_records s t \<Longrightarrow> view st repo t d = view st repo s d"
  by (rule view_cong) (simp add: same_records_def)

lemma same_records_quiet: "quiet m \<Longrightarrow> m s = (x, t) \<Longrightarrow> same_records s t"
  by (simp add: same_records_def quietD tables_ok_quiet dir_entry_quiet)

lemma same_records_trans [trans]: "same_records s t \<Longrightarrow> same_records t u \<Longrightarrow> same_records s u"
  by (simp add: same_records_def)

lemma same_records_refl [simp, intro]: "same_records s s"
  by (simp add: same_records_def)

lemma same_records_only_temp: "only_temp d s t \<Longrightarrow> same_records s t"
  unfolding only_temp_def same_records_def by (auto simp: dir_entry_def)

lemma same_records_MkdirAll: "MkdirAll p s = (x, t) \<Longrightarrow> same_records s t"
  by (auto simp: same_records_def MkdirAll_ok)

text \<open>A successful save: one record replaced, whatever happened before it having changed nothing.\<close>

definition stored_record :: "'r store \<Rightarrow> repository \<Rightarrow> 'r \<Rightarrow> file_system \<Rightarrow> file_system \<Rightarrow> bool" where
  "stored_record st repo r s t \<longleftrightarrow>
     (tables_ok s \<longrightarrow> tables_ok t) \<and> plain_files t = plain_files s \<and>
     (\<forall>p st' repo'. p \<noteq> store_path st repo \<longrightarrow> view (st' :: 'r store) repo' t p = view st' repo' s p) \<and>
     (reproduces (codec st) r \<longrightarrow> validate st repo (record_id st r) r = Inr () \<longrightarrow> record_id st r < 2 ^ 64 \<longrightarrow>
        view st repo t (store_path st repo) = (view st repo s (store_path st repo))(record_id st r \<mapsto> r)) \<and>
     (\<exists>u json. same_records s u \<and> wrote st (store_path st repo) r json u t)"

lemma save_outcome:
  assumes "save st repo r s = (x, t)" "wf_repository repo" "rooted_store st"
  shows "case x of Inl _ \<Rightarrow> same_records s t | Inr _ \<Rightarrow> stored_record st repo r s t"
proof -
  note d = repositoryDirectory_wf [OF assms(2,3)]
  have run: "bindio (MkdirAll (store_path st repo)) (\<lambda>_. writeRecord st (store_path st repo) r) s = (x, t)"
    using assms(1) d by (simp add: save_def)
  then show ?thesis
  proof (cases rule: bindio_cases)
    case (failed e)
    then show ?thesis using same_records_MkdirAll by simp
  next
    case (went_on _ u)
    from went_on(2) show ?thesis
    proof (cases rule: writeRecord_cases)
      case (failed e)
      then show ?thesis
        using same_records_trans [OF same_records_MkdirAll [OF went_on(1)] same_records_only_temp] by simp
    next
      case (written json)
      then have sv: "save st repo r s = (Inr (), t)" using assms(1) by simp
      have "tables_ok s \<longrightarrow> tables_ok t" "plain_files t = plain_files s"
        using MkdirAll_ok(1,3) [OF went_on(1)] wrote_frame [OF written(2)] by simp_all
      moreover have "\<exists>u json. same_records s u \<and> wrote st (store_path st repo) r json u t"
        using same_records_MkdirAll [OF went_on(1)] written(2) by blast
      ultimately show ?thesis
        using save_view(1) [OF sv d] written(1)
        by (simp add: stored_record_def view_wrote_other [OF written(2)] MkdirAll_ok(2) [OF went_on(1)])
    qed
  qed
qed

lemma stored_after_same:
  "same_records s u \<Longrightarrow> stored_record st repo r u t \<Longrightarrow> stored_record st repo r s t"
  by (auto simp: stored_record_def same_records_view dest: same_records_trans) (simp_all add: same_records_def)

text \<open>Relocation on the abstract stores.\<close>

definition relocated :: "'r store \<Rightarrow> repository \<Rightarrow> repository \<Rightarrow> unit result \<Rightarrow> file_system \<Rightarrow> file_system \<Rightarrow> bool" where
  "relocated st repo dest x s t \<longleftrightarrow>
     (\<forall>p any. dir_at s p \<noteq> None \<longrightarrow> p \<noteq> store_path st repo \<longrightarrow> view st any t p = view st any s p) \<and>
     (case x of
        Inr _ \<Rightarrow>
          view st dest t (store_path st dest) =
            map_option (rewritten st dest) \<circ> view st repo s (store_path st repo) \<and>
          view st repo t (store_path st repo) = Map.empty
      | Inl e \<Rightarrow>
          (view st repo t (store_path st repo) = view st repo s (store_path st repo) \<and>
           view st dest t (store_path st dest) = view st dest s (store_path st dest)) \<or>
          (\<exists>backup a b. e = JoinErr a b \<and> view st repo t backup = view st repo s (store_path st repo)))"

context record_store
begin

lemma new_number:
  assumes "listValid st repo s = (Inr (rs, m), s1)" "nextRecordID st repo m s1 = (Inr n, s2)"
    "wf_repository repo" "rooted_store st" "tables_ok s"
  shows "0 < n" "n < 2 ^ 64" "dir_entry s (store_path st repo) (record_name n) = None"
    "view st repo s (store_path st repo) k = Some r \<Longrightarrow> k < n"
    "view st repo s (store_path st repo) k = Some r \<longleftrightarrow> r \<in> set rs \<and> record_id st r = k"
proof -
  let ?d = "store_path st repo"
  note d = repositoryDirectory_wf [OF assms(3,4)]
  have sc: "scanDirectory st ?d repo True s = (Inr (rs, m), s1)"
    using assms(1) d by (simp add: listValid_def)
  have nf: "next_free st ?d m s1 = (Inr n, s2)" using assms(2) d by (simp add: nextRecordID_def)
  note v = scan_view [OF sc store_path_facts(1) [OF assms(3,4)] assms(5)]
  have e: "dir_entry s1 = dir_entry s" by (rule dir_entry_quiet [OF quiet_scanDirectory sc])
  note n = next_free_unused [OF nf]
  show "0 < n" "n < 2 ^ 64" "dir_entry s ?d (record_name n) = None" using n e by auto
  show iff: "view st repo s ?d k = Some r \<longleftrightarrow> r \<in> set rs \<and> record_id st r = k" for k r by (rule v(1))
  show "k < n" if "view st repo s ?d k = Some r"
  proof -
    have "r \<in> set rs" "record_id st r = k" using iff [THEN iffD1, OF that] by simp_all
    then have "k \<le> m" using v(3) by auto
    then show ?thesis using n by simp
  qed
qed

lemma create_outcome:
  assumes "create_record st repo check fill s = (x, t)" "wf_repository repo" "rooted_store st" "tables_ok s"
    "\<forall>q\<in>set (repository_locks st [repo]). wf_request q" "\<And>n. record_id st (fill n) = n"
  shows "case x of Inl _ \<Rightarrow> same_records s t
    | Inr r \<Rightarrow> (\<exists>n rs. r = normalize st (fill n) \<and> record_id st r = n \<and> 0 < n \<and> n < 2 ^ 64 \<and>
        validate st repo n r = Inr () \<and> check rs = Inr () \<and>
        dir_entry s (store_path st repo) (record_name n) = None \<and>
        (\<forall>k q. view st repo s (store_path st repo) k = Some q \<longrightarrow> k < n) \<and>
        (\<forall>k q. view st repo s (store_path st repo) k = Some q \<longleftrightarrow> q \<in> set rs \<and> record_id st q = k) \<and>
        stored_record st repo r s t)"
  using assms(1) unfolding create_record_def with_locks_wf [OF assms(5)]
proof (cases rule: bindio_cases)
  case (failed e)
  then show ?thesis using same_records_quiet [OF quiet_require] by simp
next
  case (went_on _ s1)
  note q1 = same_records_quiet [OF quiet_require went_on(1)]
  from went_on(2) show ?thesis
  proof (cases rule: bindio_cases)
    case (failed e)
    then show ?thesis using same_records_trans [OF q1 same_records_quiet [OF quiet_lists(2)]] by simp
  next
    case (went_on y s2)
    obtain rs m where y: "y = (rs, m)" by fastforce
    note q2 = same_records_trans [OF q1 same_records_quiet [OF quiet_lists(2) went_on(1)]]
    have run: "bindio (lift_io (check rs)) (\<lambda>_. bindio (nextRecordID st repo m) (\<lambda>nextID.
          let r = normalize st (fill nextID) in
          bindio (lift_io (validate st repo (record_id st r) r)) (\<lambda>_.
          bindio (save st repo r) (\<lambda>_. return_io r)))) s2 = (x, t)"
      using went_on(2) y by simp
    show ?thesis
    proof (cases "check rs")
      case (Inl e)
      then have "x = Inl e" "t = s2" using run by simp_all
      then show ?thesis using q2 by simp
    next
      case ok: (Inr u)
      then have "bindio (nextRecordID st repo m) (\<lambda>nextID.
          let r = normalize st (fill nextID) in
          bindio (lift_io (validate st repo (record_id st r) r)) (\<lambda>_.
          bindio (save st repo r) (\<lambda>_. return_io r))) s2 = (x, t)" using run by simp
      then show ?thesis
      proof (cases rule: bindio_cases)
        case (failed e)
        then show ?thesis using same_records_trans [OF q2 same_records_quiet [OF quiet_nextRecordID]] by simp
      next
        case next_id: (went_on n s3)
        note q3 = same_records_trans [OF q2 same_records_quiet [OF quiet_nextRecordID next_id(1)]]
        define r where "r = normalize st (fill n)"
        have rid: "record_id st r = n" by (simp add: r_def normalize_id assms(6))
        have tab1: "tables_ok s1" using q1 assms(4) by (simp add: same_records_def)
        note nn = new_number [OF went_on(1) [unfolded y] next_id(1) assms(2,3) tab1]
        have de: "dir_entry s1 p (record_name k) = dir_entry s p (record_name k)" for p k
          using q1 by (simp add: same_records_def)
        show ?thesis
        proof (cases "validate st repo n r")
          case (Inl e)
          then have "x = Inl e" "t = s3" using next_id(2) rid by (simp_all add: r_def [symmetric] Let_def)
          then show ?thesis using q3 by simp
        next
          case (Inr u')
          then have sv: "bindio (save st repo r) (\<lambda>_. return_io r) s3 = (x, t)"
            using next_id(2) rid by (simp add: r_def [symmetric] Let_def)
          then show ?thesis
          proof (cases rule: bindio_cases)
            case (failed e)
            then show ?thesis
              using save_outcome [OF failed(1) assms(2,3)] same_records_trans [OF q3] by simp
          next
            case (went_on z s4)
            have "stored_record st repo r s t"
              using save_outcome [OF went_on(1) assms(2,3)] stored_after_same [OF q3] went_on(2) by simp
            moreover have "x = Inr r" using went_on(2) by simp
            ultimately show ?thesis
              using nn [unfolded same_records_view [OF q1] de] rid ok Inr r_def by auto
          qed
        qed
      qed
    qed
  qed
qed

lemma update_outcome:
  assumes "update_record st repo rid change check s = (x, t)" "wf_repository repo" "rooted_store st"
    "\<forall>q\<in>set (repository_locks st [repo]). wf_request q" "\<And>r. quiet (check r)"
  shows "case x of Inl _ \<Rightarrow> same_records s t
    | Inr r \<Rightarrow> (\<exists>old changed s1 s2. get_record st repo rid s = (Inr old, s1) \<and> change old = Inr changed \<and>
        r = normalize st changed \<and> validate st repo rid r = Inr () \<and> record_id st r = rid \<and> 0 < rid \<and>
        check r s1 = (Inr (), s2) \<and> stored_record st repo r s t)"
proof (cases "rid = 0")
  case True
  then show ?thesis using assms(1) by (auto simp: update_record_def)
next
  case False
  have "bindio (get_record st repo rid) (\<lambda>record.
        bindio (lift_io (change record)) (\<lambda>changed.
          let r = normalize st changed in
          bindio (lift_io (validate st repo rid r)) (\<lambda>_.
          bindio (check r) (\<lambda>_.
          bindio (save st repo r) (\<lambda>_. return_io r))))) s = (x, t)"
    using assms(1) False by (simp add: update_record_def with_locks_wf [OF assms(4)])
  then show ?thesis
  proof (cases rule: bindio_cases)
    case (failed e)
    then show ?thesis using same_records_quiet [OF quiet_get_record] by simp
  next
    case got: (went_on old s1)
    note q1 = same_records_quiet [OF quiet_get_record got(1)]
    show ?thesis
    proof (cases "change old")
      case (Inl e)
      then have "x = Inl e" "t = s1" using got(2) by simp_all
      then show ?thesis using q1 by simp
    next
      case ch: (Inr changed)
      define r where "r = normalize st changed"
      show ?thesis
      proof (cases "validate st repo rid r")
        case (Inl e)
        then have "x = Inl e" "t = s1" using got(2) ch by (simp_all add: r_def [symmetric] Let_def)
        then show ?thesis using q1 by simp
      next
        case ok: (Inr u)
        then have "bindio (check r) (\<lambda>_. bindio (save st repo r) (\<lambda>_. return_io r)) s1 = (x, t)"
          using got(2) ch by (simp add: r_def [symmetric] Let_def)
        then show ?thesis
        proof (cases rule: bindio_cases)
          case (failed e)
          then show ?thesis using same_records_trans [OF q1 same_records_quiet [OF assms(5)]] by simp
        next
          case chk: (went_on _ s2)
          note q2 = same_records_trans [OF q1 same_records_quiet [OF assms(5) chk(1)]]
          from chk(2) show ?thesis
          proof (cases rule: bindio_cases)
            case (failed e)
            then show ?thesis
              using save_outcome [OF failed(1) assms(2,3)] same_records_trans [OF q2] by simp
          next
            case (went_on z s3)
            have "stored_record st repo r s t"
              using save_outcome [OF went_on(1) assms(2,3)] stored_after_same [OF q2] went_on(2) by simp
            moreover have "x = Inr r" using went_on(2) by simp
            ultimately show ?thesis
              using got(1) ch r_def ok chk(1) validate_id [OF ok] by auto
          qed
        qed
      qed
    qed
  qed
qed

lemma Relocate_outcome:
  assumes "Relocate st repo dest s = (x, t)" "wf_repository repo" "wf_repository dest" "repo \<noteq> dest"
    "rooted_store st" "tables_ok s" "\<forall>q\<in>set (repository_locks st [repo, dest]). wf_request q"
    "\<forall>rid r. view st repo s (store_path st repo) rid = Some r \<longrightarrow> reproduces (codec st) (rewritten st dest r)"
  shows "relocated st repo dest x s t"
proof -
  let ?src = "store_path st repo" and ?dst = "store_path st dest"
  have ne: "?src \<noteq> ?dst" using store_path_inj [OF assms(2,3,5)] assms(4) by blast
  have run: "relocate st repo dest s = (x, t)"
    using assms(1) by (simp add: Relocate_def with_locks_wf [OF assms(7)])
  have mov: "\<forall>rid r. view st repo s ?src rid = Some r \<longrightarrow> movable st dest r"
  proof (intro allI impI)
    fix rid r assume v: "view st repo s ?src rid = Some r"
    then have "rid < 2 ^ 64" "record_id st r = rid" by (auto simp: view_iff dest: decode_id)
    then show "movable st dest r" using assms(8) v by (simp add: movable_def)
  qed
  note out = relocate_outcome [OF run repositoryDirectory_wf [OF assms(2,5)] repositoryDirectory_wf [OF assms(3,5)] ne assms(6)
      store_path_facts(1) [OF assms(2,5)] store_path_facts(3-5) [OF assms(3,5)]]
  have frame: "view st any t p = view st any s p" if "dir_at s p \<noteq> None" "p \<noteq> ?src" for p any
    using out that by (intro view_dir_at) simp
  show ?thesis
  proof (cases x)
    case (Inr u)
    then have "view st dest t ?dst = map_option (rewritten st dest) \<circ> view st repo s ?src" "dir_at t ?src = None"
      using out mov by simp_all
    then show ?thesis using frame Inr by (simp add: relocated_def view_def fun_eq_iff)
  next
    case (Inl e)
    with out have "untouched ?src ?dst s t \<or> (\<exists>backup. dir_at s backup = None \<and> stranded ?src ?dst backup e s t)" by simp
    then show ?thesis
    proof (elim disjE exE conjE)
      assume "untouched ?src ?dst s t"
      then have "view st repo t ?src = view st repo s ?src" "view st dest t ?dst = view st dest s ?dst"
        unfolding untouched_def by (auto intro: view_dir_at)
      then show ?thesis using frame Inl by (simp add: relocated_def)
    next
      fix backup assume "stranded ?src ?dst backup e s t"
      then obtain a b where "e = JoinErr a b" "view st repo t backup = view st repo s ?src"
        unfolding stranded_def by (auto intro: view_dir_at)
      then show ?thesis using frame Inl unfolding relocated_def by auto
    qed
  qed
qed

end

end
