(* ===== verification/StoreLive.thy ===== *)
theory StoreLive
  imports StoreMoves
begin

text \<open>
  Progress of the record stores: when no system call fails and there is room for the record, the
  operations succeed. Together with the outcomes of the theory StoreMoves this gives what
  \<^verbatim>\<open>Create\<close> does, not only what it does if it returns.
\<close>

section \<open>Calls without faults\<close>

lemma readRecord_ok:
  assumes "faults s = []" "HasPrefix d ''/''" "0 < rid" "dir_entry s d (record_name rid) = Some (Regular c)"
  shows "readRecord st d repo rid s = (decode_record st repo rid c, s)"
proof -
  obtain p where "recordPath st d rid = Inr p" using recordPath_rooted [OF assms(2,3)] by blast
  then show ?thesis
    using Open_no_faults [OF assms(1,4)] assms(1)
    by (simp add: readRecord_def bindio_def open_node_def)
qed

lemma scan_entries_ok:
  assumes "faults s = []" "HasPrefix d ''/''" "\<forall>(name, n)\<in>set es. dir_entry s d name = Some n"
  shows "\<exists>out. scan_entries st d repo True es acc s = (Inr out, s)"
  using assms(3)
proof (induction es arbitrary: acc)
  case (Cons e es)
  obtain name n where e: "e = (name, n)" by fastforce
  obtain rs m where acc: "acc = (rs, m)" by fastforce
  have ih: "\<exists>out. scan_entries st d repo True es acc s = (Inr out, s)" for acc using Cons by simp
  show ?case
  proof (cases "HasSuffix name ''.json'' \<and> (\<exists>c rid. n = Regular c \<and> parseRecordName st name = Inr rid)")
    case True
    then obtain c rid where c: "HasSuffix name ''.json''" "n = Regular c" "parseRecordName st name = Inr rid" by blast
    then have nm: "name = record_name rid" "0 < rid" using parseRecordName_iff [OF c(1)] by auto
    have "readRecord st d repo rid s = (decode_record st repo rid c, s)"
      by (rule readRecord_ok [OF assms(1,2) nm(2)]) (use Cons.prems e c(2) nm(1) in auto)
    then show ?thesis
      using c ih assms(1) decode_record_Inl [of st repo rid c]
      by (cases "decode_record st repo rid c") (simp_all add: e acc Let_def bindio_def attempt_def)
  next
    case False
    then show ?thesis
      using ih assms(1) by (auto simp: e acc Let_def bindio_def split: node.split sum.split)
  qed
qed simp

lemma scanDirectory_ok:
  assumes "faults s = []" "HasPrefix d ''/''" "tables_ok s" "d \<notin> set (plain_files s)"
  shows "\<exists>rs m. scanDirectory st d repo True s = (Inr (rs, m), s)"
proof (cases "dir_at s d")
  case None
  then have "ReadDir d s = (Inl ErrNotExist, s)" using assms(1,4) by (simp add: ReadDir_def)
  then show ?thesis by (simp add: scanDirectory_def bindio_attempt)
next
  case (Some tab)
  then have "ReadDir d s = (Inr (sort_key fst tab), s)" using assms(1) by (simp add: ReadDir_def)
  moreover have "\<forall>(name, n)\<in>set (sort_key fst tab). dir_entry s d name = Some n"
    using tables_okD [OF assms(3) Some] Some by (auto simp: dir_entry_def)
  from scan_entries_ok [OF assms(1,2) this, of st repo "([], 0)"]
  obtain rs m where "scan_entries st d repo True (sort_key fst tab) ([], 0) s = (Inr (rs, m), s)" by auto
  ultimately show ?thesis by (simp add: scanDirectory_def bindio_attempt) (simp add: bindio_def)
qed

lemma fold_max_in: "fold max xs m = m \<or> fold max xs m \<in> set (xs :: nat list)"
proof (induction xs arbitrary: m)
  case (Cons x xs)
  from Cons.IH [of "max x m"] show ?case by (auto simp: max_def split: if_splits)
qed simp

lemma scan_maximum:
  assumes "scanDirectory st d repo skip s = (Inr (rs, m), t)" "HasPrefix d ''/''" "tables_ok s" "m \<noteq> 0"
  shows "dir_entry s d (record_name m) \<noteq> None"
proof -
  obtain tab where tab: "dir_at s d = Some tab"
      "m = fold max (map fst (table_records st repo (sort_key fst tab))) 0"
    using scanDirectory_Inr [OF assms(1-3)] assms(4) by auto
  then have "m \<in> set (map fst (table_records st repo (sort_key fst tab)))"
    using fold_max_in [of "map fst (table_records st repo (sort_key fst tab))" 0] assms(4) by simp
  then obtain r where "(m, r) \<in> set (table_records st repo (sort_key fst tab))" by auto
  then have "stored st repo tab m = Some r" by (rule table_records_stored [OF tables_okD [OF assms(3) tab(1)], THEN iffD1])
  then show ?thesis using tab(1) by (auto simp: dir_entry_def stored_iff)
qed

lemma writeRecord_ok:
  assumes "faults s = []" "HasPrefix d ''/''" "0 < record_id st r" "dir_at s d = Some tab"
    "map_of tab (record_name (record_id st r)) \<noteq> Some Subdir"
    "marshal (codec st) r = Inr json" "length json < maximumRecordBytes"
  shows "\<exists>t. writeRecord st d r s = (Inr (), t) \<and> faults t = []"
proof -
  obtain p where p: "recordPath st d (record_id st r) = Inr p" using recordPath_rooted [OF assms(2,3)] by blast
  have small: "\<not> length (json @ [CHR 0x0A]) > maximumRecordBytes" using assms(7) by simp
  have "\<exists>t. replace_file d (file_stem st)
         (\<lambda>temporary. bindio Touch (\<lambda>_. bindio (WriteFile d temporary (json @ [CHR 0x0A])) (\<lambda>_. Touch)))
         (record_name (record_id st r)) s = (Inr (), t) \<and> faults t = []"
    by (rule replace_file_ok [OF assms(1,4,5) record_name_not_tmp, where c = "json @ [CHR 0x0A]"])
      (auto simp: bindio_def WriteFile_def split: option.splits)
  then show ?thesis
    unfolding writeRecord_def p assms(6) bindio_lift sum.case Let_def if_not_P [OF small] .
qed

lemma save_ok:
  assumes "faults s = []" "wf_repository repo" "rooted_store st" "0 < record_id st r"
    "store_path st repo \<notin> set (plain_files s)"
    "dir_entry s (store_path st repo) (record_name (record_id st r)) \<noteq> Some Subdir"
    "marshal (codec st) r = Inr json" "length json < maximumRecordBytes"
  shows "\<exists>t. save st repo r s = (Inr (), t) \<and> faults t = []"
proof -
  let ?d = "store_path st repo"
  define u where "u = (if dir_at s ?d = None then put_dir ?d [] s else s)"
  have m: "MkdirAll ?d s = (Inr (), u)" using MkdirAll_ok_run [OF assms(1,5)] by (simp add: u_def)
  obtain tab where tab: "dir_at u ?d = Some tab" by (cases "dir_at s ?d") (auto simp: u_def)
  have "map_of tab (record_name (record_id st r)) \<noteq> Some Subdir"
    using MkdirAll_ok(5) [OF m] assms(6) tab by (metis dir_entry_def option.case(2))
  from writeRecord_ok [OF _ store_path_facts(1) [OF assms(2,3)] assms(4) tab this assms(7,8)]
  obtain t where "writeRecord st ?d r u = (Inr (), t)" "faults t = []"
    using assms(1) by (auto simp: u_def split: if_splits)
  then show ?thesis
    using m repositoryDirectory_wf [OF assms(2,3)] by (simp add: save_def) (simp add: bindio_def)
qed

section \<open>Creating\<close>

definition git_path :: "'r store \<Rightarrow> repository \<Rightarrow> string" where
  "git_path st repo = rooted_path (rooted_clean (store_root st) @ Groups repo @ [Name repo @ ''.git''])"

lemma repositoryGitDirectory_wf:
  assumes "wf_repository repo" "rooted_store st"
  shows "repositoryGitDirectory st repo = Inr (git_path st repo)"
proof -
  let ?st = "st\<lparr>store_suffix := ''.git''\<rparr>"
  have "rooted_store ?st" using assms(2) by (simp add: rooted_store_def is_digit_def)
  from repositoryDirectory_wf [OF assms(1) this] show ?thesis
    by (simp add: repositoryDirectory_def repositoryGitDirectory_def store_path_def git_path_def)
qed

context record_store
begin

lemma create_runs:
  assumes "faults s = []" "wf_repository repo" "rooted_store st" "tables_ok s"
    "\<forall>q\<in>set (repository_locks st [repo]). wf_request q"
    "dir_at s (git_path st repo) \<noteq> None" "store_path st repo \<notin> set (plain_files s)"
    "\<And>k. dir_entry s (store_path st repo) (record_name k) \<noteq> None \<Longrightarrow> k < 2 ^ 64 - 1"
    "\<And>rs. (\<And>r. r \<in> set rs \<Longrightarrow> view st repo s (store_path st repo) (record_id st r) = Some r) \<Longrightarrow> check rs = Inr ()"
    "\<And>n. record_id st (fill n) = n"
    "\<And>n. 0 < n \<Longrightarrow> validate st repo n (normalize st (fill n)) = Inr ()"
    "\<And>n. n < 2 ^ 64 \<Longrightarrow> \<exists>json. marshal (codec st) (normalize st (fill n)) = Inr json \<and> length json < maximumRecordBytes"
  shows "\<exists>r t. create_record st repo check fill s = (Inr r, t) \<and> faults t = [] \<and>
    (\<forall>k. (\<forall>j. dir_entry s (store_path st repo) (record_name j) \<noteq> None \<longrightarrow> j \<le> k) \<longrightarrow> record_id st r \<le> Suc k)"
proof -
  let ?d = "store_path st repo"
  note d = repositoryDirectory_wf [OF assms(2,3)] and rooted = store_path_facts(1) [OF assms(2,3)]
  have g: "require_repository st repo s = (Inr (), s)"
    using assms(1,6) repositoryGitDirectory_wf [OF assms(2,3)]
    by (simp add: require_repository_def bindio_attempt Stat_def)
  obtain rs m where sc: "scanDirectory st ?d repo True s = (Inr (rs, m), s)"
    using scanDirectory_ok [OF assms(1) rooted assms(4,7)] by blast
  have chk: "check rs = Inr ()" using assms(9) scan_view(1) [OF sc rooted assms(4)] by blast
  have "m < 2 ^ 64 - 1"
    using scan_maximum [OF sc rooted assms(4)] assms(8) [of m] by (cases "m = 0") simp_all
  moreover have "dir_entry s ?d (record_name (2 ^ 64 - 1)) = None"
    using assms(8) [of "2 ^ 64 - 1"] by (cases "dir_entry s ?d (record_name (2 ^ 64 - 1))") simp_all
  ultimately obtain n where n: "next_free st ?d m s = (Inr n, s)"
    using next_free_found [OF assms(1) rooted assms(7), of m "2 ^ 64 - 1"] by auto
  note nn = next_free_unused [OF n]
  define r where "r = normalize st (fill n)"
  have rid: "record_id st r = n" by (simp add: r_def normalize_id assms(10))
  have val: "validate st repo n r = Inr ()" using assms(11) [of n] nn by (simp add: r_def)
  obtain json where json: "marshal (codec st) r = Inr json" "length json < maximumRecordBytes"
    using assms(12) [of n] nn r_def by blast
  obtain t where t: "save st repo r s = (Inr (), t)" "faults t = []"
    using save_ok [OF assms(1-3) _ assms(7) _ json] nn rid by auto
  have "listValid st repo s = (Inr (rs, m), s)" "nextRecordID st repo m s = (Inr n, s)"
    using d sc n by (simp_all add: listValid_def nextRecordID_def)
  then have "create_record st repo check fill s = (Inr r, t)"
    using g chk val rid t(1)
    by (simp add: create_record_def with_locks_wf [OF assms(5)] bindio_def Let_def r_def [symmetric])
  moreover have "n \<le> Suc k" if k: "\<forall>j. dir_entry s ?d (record_name j) \<noteq> None \<longrightarrow> j \<le> k" for k
  proof (rule ccontr)
    assume "\<not> n \<le> Suc k"
    moreover have "m \<le> k" using scan_maximum [OF sc rooted assms(4)] k by (cases "m = 0") auto
    ultimately have "dir_entry s ?d (record_name (Suc k)) \<noteq> None" using nn by simp
    then show False using k by fastforce
  qed
  ultimately show ?thesis using t(2) rid by blast
qed

lemma create_ok:
  assumes "faults s = []" "wf_repository repo" "rooted_store st" "tables_ok s"
    "\<forall>q\<in>set (repository_locks st [repo]). wf_request q"
    "dir_at s (git_path st repo) \<noteq> None" "store_path st repo \<notin> set (plain_files s)"
    "\<And>k. dir_entry s (store_path st repo) (record_name k) \<noteq> None \<Longrightarrow> k < 2 ^ 64 - 1"
    "\<And>rs. (\<And>r. r \<in> set rs \<Longrightarrow> view st repo s (store_path st repo) (record_id st r) = Some r) \<Longrightarrow> check rs = Inr ()"
    "\<And>n. record_id st (fill n) = n"
    "\<And>n. 0 < n \<Longrightarrow> validate st repo n (normalize st (fill n)) = Inr ()"
    "\<And>n. \<exists>json. marshal (codec st) (normalize st (fill n)) = Inr json \<and> length json < maximumRecordBytes"
  shows "\<exists>r t. create_record st repo check fill s = (Inr r, t) \<and> faults t = []"
  using create_runs [OF assms(1-7) _ _ assms(10-12), of check] assms(8,9) by blast

end

section \<open>A sample repository\<close>

text \<open>The repository \<^verbatim>\<open>g/r\<close> below the root directory, for concrete instances.\<close>

definition sample_repo :: repository where
  "sample_repo = \<lparr>Groups = [''g''], Name = ''r''\<rparr>"

definition other_repo :: repository where
  "other_repo = \<lparr>Groups = [''g''], Name = ''q''\<rparr>"

definition sample_locks :: lock_env where
  "sample_locks = \<lparr>getwd = Inr ''/'', eval_symlinks = (\<lambda>p. Inr p), sha256_hex = (\<lambda>_. ''h'')\<rparr>"

definition sample_fs :: file_system where
  "sample_fs = \<lparr>dirs = [(''/g/r.git'', [])], plain_files = [], faults = []\<rparr>"

lemma sample_repo_wf: "wf_repository sample_repo" "wf_repository other_repo"
  by (simp_all add: wf_repository_def sample_repo_def other_repo_def valid_def valid_char_def HasPrefix_def HasSuffix_def)

lemma sample_rooted: "HasPrefix ''/'' ''/''"
  by (simp add: HasPrefix_def)

lemma sample_fs_simps:
  "faults sample_fs = []" "plain_files sample_fs = []"
  "dir_at sample_fs p = (if p = ''/g/r.git'' then Some [] else None)"
  by (simp_all add: sample_fs_def dir_at_def)

lemma sample_fs_ok: "tables_ok sample_fs" "dir_entry sample_fs d name = None"
  by (auto simp: tables_ok_def dir_entry_def sample_fs_simps split: if_splits)

lemma sample_git_path: "store_root st = ''/'' \<Longrightarrow> git_path st sample_repo = ''/g/r.git''"
  by (simp add: git_path_def sample_repo_def rooted_clean_def rooted_path_def)

lemma sample_git_exists: "store_root st = ''/'' \<Longrightarrow> dir_at sample_fs (git_path st sample_repo) \<noteq> None"
  by (simp add: sample_git_path sample_fs_simps)

section \<open>Properties\<close>

text \<open>
  Property C30. The search for a record number ends with the least number above the given one
  that no file uses, whenever a free 64-bit number is left and no call fails.
\<close>

theorem nextRecordID_least:
  assumes "faults s = []" "wf_repository repo" "rooted_store st" "store_path st repo \<notin> set (plain_files s)"
    "m < n" "n < 2 ^ 64" "dir_entry s (store_path st repo) (record_name n) = None"
  shows "\<exists>k. nextRecordID st repo m s = (Inr k, s) \<and> m < k \<and> k \<le> n \<and>
    dir_entry s (store_path st repo) (record_name k) = None \<and>
    (\<forall>j. m < j \<and> j < k \<longrightarrow> dir_entry s (store_path st repo) (record_name j) \<noteq> None)"
proof -
  obtain k where k: "next_free st (store_path st repo) m s = (Inr k, s)"
    using next_free_found [OF assms(1) store_path_facts(1) [OF assms(2,3)] assms(4-7)] by blast
  note u = next_free_unused [OF k]
  have "k \<le> n"
  proof (rule ccontr)
    assume "\<not> k \<le> n"
    then show False using u assms(5,7) by auto
  qed
  then show ?thesis
    using k u repositoryDirectory_wf [OF assms(2,3)] by (intro exI [of _ k]) (simp add: nextRecordID_def)
qed

definition sample_store :: "nat store" where
  "sample_store = \<lparr>store_root = ''/'', store_env = sample_locks, store_suffix = ''.issues'', noun = ''number'',
     store_noun = ''number'', file_stem = ''.n-'', relocate_stem = ''.n-'', rewrite_stem = ''.n-'', walk_skips = [],
     codec = \<lparr>marshal = (\<lambda>n. Inr (print_nat n)), decode_first = (\<lambda>c. Inr (decimal_value (butlast c))), decode_rest = (\<lambda>_. None)\<rparr>,
     record_id = (\<lambda>n. n), set_repository = (\<lambda>_ n. n), normalize = (\<lambda>n. n), validate = (\<lambda>_ _ _. Inr ()),
     repository_locks = (\<lambda>_. []), group_locks = (\<lambda>_. [])\<rparr>"

theorem nextRecordID_least_witness:
  "\<exists>k. nextRecordID sample_store sample_repo 6 sample_fs = (Inr k, sample_fs) \<and> 6 < k \<and> k \<le> 7"
proof -
  have "rooted_store sample_store" by (simp add: rooted_store_def sample_store_def HasPrefix_def is_digit_def)
  moreover have "store_path sample_store sample_repo \<notin> set (plain_files sample_fs)" by (simp add: sample_fs_simps)
  moreover have "(6 :: nat) < 7" "(7 :: nat) < 2 ^ 64" by simp_all
  moreover have "dir_entry sample_fs (store_path sample_store sample_repo) (record_name 7) = None" by (rule sample_fs_ok(2))
  ultimately show ?thesis using nextRecordID_least [OF sample_fs_simps(1) sample_repo_wf(1)] by blast
qed

end
