(* ===== verification/GoTime.thy ===== *)
theory GoTime
  imports Prelude
begin

text \<open>
  Go's \<^verbatim>\<open>time.Time\<close> as the record stores use it: an instant in nanoseconds since the zero
  time, and whether the value carries the UTC location. \<^verbatim>\<open>UTC\<close> keeps the instant, and the
  comparisons look at the instant only. At the end, slices that can be nil.
\<close>

record gotime =
  instant :: int
  in_utc :: bool

definition UTC :: "gotime \<Rightarrow> gotime" where
  "UTC t = t\<lparr>in_utc := True\<rparr>"

definition IsZero :: "gotime \<Rightarrow> bool" where
  "IsZero t \<longleftrightarrow> instant t = 0"

definition Before :: "gotime \<Rightarrow> gotime \<Rightarrow> bool" where
  "Before a b \<longleftrightarrow> instant a < instant b"

text \<open>The zero value of the type, which is in UTC.\<close>

definition zero_time :: gotime where
  "zero_time = \<lparr>instant = 0, in_utc = True\<rparr>"

lemma UTC_idem [simp]: "UTC (UTC t) = UTC t"
  by (simp add: UTC_def)

lemma UTC_instant [simp]: "instant (UTC t) = instant t" "in_utc (UTC t)"
  by (simp_all add: UTC_def)

lemma UTC_comparisons [simp]: "IsZero (UTC t) = IsZero t" "Before (UTC a) b = Before a b" "Before a (UTC b) = Before a b"
  by (simp_all add: IsZero_def Before_def)

lemma UTC_id: "UTC t = t \<longleftrightarrow> in_utc t"
  by (cases t) (simp add: UTC_def)

lemma map_option_UTC [simp]: "map_option UTC (map_option UTC x) = map_option UTC x"
  by (cases x) simp_all

text \<open>An instant in UTC, for concrete instances.\<close>

definition sample_time :: gotime where
  "sample_time = \<lparr>instant = 5, in_utc = True\<rparr>"

lemma UTC_sample: "UTC sample_time = sample_time"
  by (simp add: UTC_def sample_time_def)

text \<open>
  A slice that JSON can write as \<^verbatim>\<open>null\<close> is an option: \<^const>\<open>None\<close> is Go's nil. The
  normalisers replace it by an empty slice.
\<close>

definition non_nil :: "'a list option \<Rightarrow> 'a list option" where
  "non_nil xs = (case xs of None \<Rightarrow> Some [] | Some ys \<Rightarrow> Some ys)"

lemma non_nil_simps [simp]: "non_nil xs \<noteq> None" "non_nil (non_nil xs) = non_nil xs" "non_nil (Some ys) = Some ys"
  "non_nil None = Some []"
  by (simp_all add: non_nil_def split: option.split)

lemma non_nil_map [simp]: "non_nil (map_option f (non_nil xs)) = map_option f (non_nil xs)"
  by (simp add: non_nil_def split: option.split)

end
