(* ===== verification/Issue.thy ===== *)
theory Issue
  imports StoreLive GoTime
begin

text \<open>
  Issues, \<^verbatim>\<open>src/internal/issue\<close>: the record, its normaliser and validator, the store as an
  instance of the record stores, its operations and the move transactions.
\<close>

section \<open>Records\<close>

abbreviation StateOpen :: string where "StateOpen \<equiv> ''open''"
abbreviation StateClosed :: string where "StateClosed \<equiv> ''closed''"

abbreviation MaximumTitleBytes :: nat where "MaximumTitleBytes \<equiv> 500"
abbreviation MaximumBodyBytes :: nat where "MaximumBodyBytes \<equiv> 64 * 1024"
abbreviation MaximumBranchBytes :: nat where "MaximumBranchBytes \<equiv> 1024"
abbreviation MaximumLabels :: nat where "MaximumLabels \<equiv> 32"
abbreviation MaximumLabelBytes :: nat where "MaximumLabelBytes \<equiv> 100"
abbreviation MaximumAssignees :: nat where "MaximumAssignees \<equiv> 32"
abbreviation MaximumAssigneeBytes :: nat where "MaximumAssigneeBytes \<equiv> 320"

record issue_comment =
  CommentID :: nat
  CommentAuthor :: string
  CommentBody :: string
  CommentCreatedAt :: gotime

text \<open>A slice is an option: \<^const>\<open>None\<close> is Go's nil, which JSON writes as \<^verbatim>\<open>null\<close>.\<close>

record issue =
  ID :: nat
  Repository :: string
  Title :: string
  Description :: string
  Author :: string
  State :: string
  CreatedAt :: gotime
  UpdatedAt :: gotime
  Labels :: "string list option"
  Assignees :: "string list option"
  Comments :: "issue_comment list option"
  Branch :: string
  BranchCreatedBy :: string
  BranchCreatedAt :: "gotime option"
  ClosedBy :: string
  ClosedAt :: "gotime option"

section \<open>Normalising and validating\<close>

definition issue_normalize :: "issue \<Rightarrow> issue" where
  "issue_normalize r = r\<lparr>
     CreatedAt := UTC (CreatedAt r),
     UpdatedAt := UTC (UpdatedAt r),
     ClosedAt := map_option UTC (ClosedAt r),
     BranchCreatedAt := map_option UTC (BranchCreatedAt r),
     Labels := non_nil (Labels r),
     Assignees := non_nil (Assignees r),
     Comments := map_option (map (\<lambda>c. c\<lparr>CommentCreatedAt := UTC (CommentCreatedAt c)\<rparr>)) (non_nil (Comments r))\<rparr>"

fun validate_names :: "nat \<Rightarrow> string \<Rightarrow> nat \<Rightarrow> string list \<Rightarrow> string list \<Rightarrow> unit result" where
  "validate_names maximumBytes kind index seen [] = Inr ()"
| "validate_names maximumBytes kind index seen (v # vs) =
     (if TrimSpace v \<noteq> v \<or> v = [] then Inl (Errorf (kind @ '' '' @ print_nat index @ '' is malformed''))
      else if length v > maximumBytes then Inl (Errorf (kind @ '' '' @ print_nat index @ '' is too long''))
      else if v \<in> set seen then Inl (Errorf (''duplicate '' @ kind @ '' '' @ v))
      else validate_names maximumBytes kind (index + 1) (v # seen) vs)"

definition validateNames :: "string list \<Rightarrow> nat \<Rightarrow> nat \<Rightarrow> string \<Rightarrow> unit result" where
  "validateNames values maximumCount maximumBytes kind =
     (if length values > maximumCount
      then Inl (Errorf (''issue has more than '' @ print_nat maximumCount @ '' '' @ kind @ ''s''))
      else validate_names maximumBytes kind 0 [] values)"

text \<open>The loop over the comments.\<close>

fun validate_comments :: "nat \<Rightarrow> nat list \<Rightarrow> issue_comment list \<Rightarrow> unit result" where
  "validate_comments index seen [] = Inr ()"
| "validate_comments index seen (c # cs) =
     (if CommentID c = 0 then Inl (Errorf (''comment '' @ print_nat index @ '' has a zero ID''))
      else if CommentID c \<in> set seen then Inl (Errorf (''duplicate comment ID '' @ print_nat (CommentID c)))
      else if TrimSpace (CommentAuthor c) = [] \<or> TrimSpace (CommentBody c) = [] \<or> IsZero (CommentCreatedAt c)
      then Inl (Errorf (''comment '' @ print_nat (CommentID c) @ '' is malformed''))
      else if length (CommentBody c) > MaximumBodyBytes
      then Inl (Errorf (''comment '' @ print_nat (CommentID c) @ '' body is too long''))
      else validate_comments (index + 1) (CommentID c # seen) cs)"

text \<open>The checks of \<^verbatim>\<open>validate\<close> on the branch fields.\<close>

definition validate_branch :: "issue \<Rightarrow> unit result" where
  "validate_branch r =
     (if Branch r = [] then
        (if BranchCreatedBy r \<noteq> [] \<or> BranchCreatedAt r \<noteq> None
         then Inl (Errorf ''issue branch metadata requires a branch'') else Inr ())
      else if Branch r \<noteq> TrimSpace (Branch r) then Inl (Errorf ''issue branch must be trimmed'')
      else if length (Branch r) > MaximumBranchBytes then Inl (Errorf ''issue branch is too long'')
      else case BranchCreatedAt r of
        None \<Rightarrow> Inl (Errorf ''issue branch creator and creation time are required'')
      | Some at \<Rightarrow>
          if TrimSpace (BranchCreatedBy r) = []
          then Inl (Errorf ''issue branch creator and creation time are required'')
          else if BranchCreatedBy r \<noteq> TrimSpace (BranchCreatedBy r)
          then Inl (Errorf ''issue branch creator must be trimmed'')
          else if Before at (CreatedAt r)
          then Inl (Errorf ''issue branch creation time precedes issue creation'')
          else Inr ())"

definition validate_closure :: "issue \<Rightarrow> unit result" where
  "validate_closure r =
     (if State r = StateOpen then
        (if ClosedBy r \<noteq> [] \<or> ClosedAt r \<noteq> None then Inl (Errorf ''open issue has closure metadata'') else Inr ())
      else if State r = StateClosed then
        (if TrimSpace (ClosedBy r) = [] \<or> ClosedAt r = None
         then Inl (Errorf ''closed issue lacks closure metadata'') else Inr ())
      else Inr ())"

definition issue_validate :: "repository \<Rightarrow> nat \<Rightarrow> issue \<Rightarrow> unit result" where
  "issue_validate repo expectedID r =
     (if expectedID = 0 \<or> ID r = 0 then Inl (Errorf ''issue ID must be greater than zero'')
      else if ID r \<noteq> expectedID
      then Inl (Errorf (''issue ID is '' @ print_nat (ID r) @ '', expected '' @ print_nat expectedID))
      else if Repository r \<noteq> Full repo
      then Inl (Errorf (''issue repository is '' @ Repository r @ '', expected '' @ Full repo))
      else if TrimSpace (Title r) = [] then Inl (Errorf ''issue title is required'')
      else if length (Title r) > MaximumTitleBytes then Inl (Errorf ''issue title is too long'')
      else if length (Description r) > MaximumBodyBytes then Inl (Errorf ''issue description is too long'')
      else bindr (validate_branch r) (\<lambda>_.
        if TrimSpace (Author r) = [] then Inl (Errorf ''issue author is required'')
        else if State r \<noteq> StateOpen \<and> State r \<noteq> StateClosed
        then Inl (Errorf (''invalid issue state '' @ State r))
        else if IsZero (CreatedAt r) \<or> IsZero (UpdatedAt r) then Inl (Errorf ''issue timestamps are required'')
        else if Before (UpdatedAt r) (CreatedAt r)
        then Inl (Errorf ''issue update time precedes its creation time'')
        else case (Labels r, Assignees r, Comments r) of
          (Some labels, Some assignees, Some comments) \<Rightarrow>
            bindr (validateNames labels MaximumLabels MaximumLabelBytes ''label'') (\<lambda>_.
            bindr (validateNames assignees MaximumAssignees MaximumAssigneeBytes ''assignee'') (\<lambda>_.
            bindr (validate_comments 0 [] comments) (\<lambda>_.
              validate_closure r)))
        | _ \<Rightarrow> Inl (Errorf ''issue label, assignee, and comment arrays are required'')))"

section \<open>The store\<close>

definition issue_store :: "string \<Rightarrow> lock_env \<Rightarrow> issue codec \<Rightarrow> issue store" where
  "issue_store root env cd =
     \<lparr>store_root = root, store_env = env, store_suffix = ''.issues'', noun = ''issue'', store_noun = ''issue'',
      file_stem = ''.issue-'', relocate_stem = ''.issues-relocate-'', rewrite_stem = ''.issues-rewrite-'',
      walk_skips = [''.git'', ''.lfs'', ''.build'', ''.reviews''], codec = cd, record_id = ID,
      set_repository = (\<lambda>full r. r\<lparr>Repository := full\<rparr>), normalize = issue_normalize, validate = issue_validate,
      repository_locks = IssueRepositoryRequests env root, group_locks = IssueGroupRequests env root\<rparr>"

text \<open>What \<^verbatim>\<open>Create\<close> fills in.\<close>

definition issue_defaults :: "gotime \<Rightarrow> repository \<Rightarrow> nat \<Rightarrow> issue \<Rightarrow> issue" where
  "issue_defaults now repo nextID r =
     (let r1 = r\<lparr>ID := nextID\<rparr>;
          r2 = (if Repository r1 = [] then r1\<lparr>Repository := Full repo\<rparr> else r1);
          r3 = (if State r2 = [] then r2\<lparr>State := StateOpen\<rparr> else r2);
          r4 = (if IsZero (CreatedAt r3) then r3\<lparr>CreatedAt := UTC now\<rparr> else r3)
      in if IsZero (UpdatedAt r4) then r4\<lparr>UpdatedAt := CreatedAt r4\<rparr> else r4)"

definition issue_Create :: "issue store \<Rightarrow> gotime \<Rightarrow> repository \<Rightarrow> issue \<Rightarrow> issue io" where
  "issue_Create st now repo record =
     create_record st repo (\<lambda>_. Inr ()) (\<lambda>nextID. issue_defaults now repo nextID record)"

definition issue_Update :: "issue store \<Rightarrow> gotime \<Rightarrow> repository \<Rightarrow> nat \<Rightarrow> (issue \<Rightarrow> issue result) \<Rightarrow> issue io" where
  "issue_Update st now repo rid update =
     update_record st repo rid
       (\<lambda>record. bindr (update record) (\<lambda>updated. Inr (updated\<lparr>UpdatedAt := UTC now\<rparr>)))
       (\<lambda>_. return_io ())"

text \<open>Relocation and rewriting for a caller that already holds the locks.\<close>

definition issue_RelocateLocked :: "issue store \<Rightarrow> repository \<Rightarrow> repository \<Rightarrow> unit io" where
  "issue_RelocateLocked st repo destination = relocate st repo destination"

definition issue_RewriteGroupLocked :: "issue store \<Rightarrow> string \<Rightarrow> string \<Rightarrow> unit io" where
  "issue_RewriteGroupLocked st sourceGroup destinationGroup = rewriteGroup st sourceGroup destinationGroup"

text \<open>\<^verbatim>\<open>src/internal/issue/lifecycle.go\<close>; \<open>action\<close>, \<open>move\<close> and \<open>rollback\<close> are the caller's.\<close>

definition issue_WithRepositoryLocks :: "issue store \<Rightarrow> repository list \<Rightarrow> 'a io option \<Rightarrow> 'a io" where
  "issue_WithRepositoryLocks st repositories action =
     required ''issue repository action is required'' action (with_locks (repository_locks st repositories))"

definition issue_WithGroupLocks :: "issue store \<Rightarrow> string list \<Rightarrow> 'a io option \<Rightarrow> 'a io" where
  "issue_WithGroupLocks st grps action =
     required ''issue group action is required'' action (with_locks (group_locks st grps))"

definition issue_MoveRepositoryLocked ::
    "issue store \<Rightarrow> repository \<Rightarrow> repository \<Rightarrow> unit io option \<Rightarrow> unit io option \<Rightarrow> unit io" where
  "issue_MoveRepositoryLocked st source destination move rollback =
     required_both ''repository move and rollback actions are required'' move rollback (\<lambda>move rollback.
       issue_WithRepositoryLocks st [source, destination]
         (Some (move_repository (\<lambda>err. err) st source destination move rollback)))"

definition issue_MoveGroupLocked ::
    "issue store \<Rightarrow> string \<Rightarrow> string \<Rightarrow> unit io option \<Rightarrow> unit io option \<Rightarrow> unit io" where
  "issue_MoveGroupLocked st sourceGroup destinationGroup move rollback =
     required_both ''group move and rollback actions are required'' move rollback (\<lambda>move rollback.
       issue_WithGroupLocks st [sourceGroup, destinationGroup]
         (Some (move_group (\<lambda>err. err) st sourceGroup destinationGroup move rollback)))"

definition issue_lockGroups :: "issue store \<Rightarrow> string list \<Rightarrow> request list result" where
  "issue_lockGroups st grps = normalizeRequests (group_locks st grps)"

section \<open>Well-formed issues\<close>

text \<open>What a name list and a comment list promise.\<close>

definition wf_names :: "nat \<Rightarrow> nat \<Rightarrow> string list \<Rightarrow> bool" where
  "wf_names maximumCount maximumBytes vs \<longleftrightarrow> length vs \<le> maximumCount \<and> distinct vs \<and>
     (\<forall>v\<in>set vs. v \<noteq> [] \<and> TrimSpace v = v \<and> length v \<le> maximumBytes)"

definition wf_comment :: "issue_comment \<Rightarrow> bool" where
  "wf_comment c \<longleftrightarrow> 0 < CommentID c \<and> TrimSpace (CommentAuthor c) \<noteq> [] \<and> TrimSpace (CommentBody c) \<noteq> [] \<and>
     \<not> IsZero (CommentCreatedAt c) \<and> length (CommentBody c) \<le> MaximumBodyBytes"

definition wf_branch :: "issue \<Rightarrow> bool" where
  "wf_branch r \<longleftrightarrow>
     (Branch r = [] \<and> BranchCreatedBy r = [] \<and> BranchCreatedAt r = None) \<or>
     (Branch r \<noteq> [] \<and> TrimSpace (Branch r) = Branch r \<and> length (Branch r) \<le> MaximumBranchBytes \<and>
      BranchCreatedBy r \<noteq> [] \<and> TrimSpace (BranchCreatedBy r) = BranchCreatedBy r \<and>
      (\<exists>at. BranchCreatedAt r = Some at \<and> \<not> Before at (CreatedAt r)))"

definition wf_issue :: "repository \<Rightarrow> nat \<Rightarrow> issue \<Rightarrow> bool" where
  "wf_issue repo rid r \<longleftrightarrow>
     0 < rid \<and> ID r = rid \<and> Repository r = Full repo \<and>
     TrimSpace (Title r) \<noteq> [] \<and> length (Title r) \<le> MaximumTitleBytes \<and>
     length (Description r) \<le> MaximumBodyBytes \<and> wf_branch r \<and> TrimSpace (Author r) \<noteq> [] \<and>
     \<not> IsZero (CreatedAt r) \<and> \<not> IsZero (UpdatedAt r) \<and> \<not> Before (UpdatedAt r) (CreatedAt r) \<and>
     (\<exists>vs. Labels r = Some vs \<and> wf_names MaximumLabels MaximumLabelBytes vs) \<and>
     (\<exists>vs. Assignees r = Some vs \<and> wf_names MaximumAssignees MaximumAssigneeBytes vs) \<and>
     (\<exists>cs. Comments r = Some cs \<and> distinct (map CommentID cs) \<and> (\<forall>c\<in>set cs. wf_comment c)) \<and>
     ((State r = StateOpen \<and> ClosedBy r = [] \<and> ClosedAt r = None) \<or>
      (State r = StateClosed \<and> TrimSpace (ClosedBy r) \<noteq> [] \<and> ClosedAt r \<noteq> None))"

lemma validate_names_iff:
  "validate_names m kind i seen vs = Inr () \<longleftrightarrow> distinct vs \<and>
     (\<forall>v\<in>set vs. v \<noteq> [] \<and> TrimSpace v = v \<and> length v \<le> m \<and> v \<notin> set seen)"
  by (induction vs arbitrary: i seen) auto

lemma validateNames_iff: "validateNames vs n m kind = Inr () \<longleftrightarrow> wf_names n m vs"
  by (auto simp: validateNames_def wf_names_def validate_names_iff)

lemma validate_comments_iff:
  "validate_comments i seen cs = Inr () \<longleftrightarrow> distinct (map CommentID cs) \<and>
     (\<forall>c\<in>set cs. wf_comment c \<and> CommentID c \<notin> set seen)"
  by (induction cs arbitrary: i seen) (auto simp: wf_comment_def image_iff)

lemma validate_branch_iff: "validate_branch r = Inr () \<longleftrightarrow> wf_branch r"
  by (auto simp: validate_branch_def wf_branch_def TrimSpace_Nil split: option.splits)

lemma validate_closure_iff:
  "State r = StateOpen \<or> State r = StateClosed \<Longrightarrow> validate_closure r = Inr () \<longleftrightarrow>
     (State r = StateOpen \<and> ClosedBy r = [] \<and> ClosedAt r = None) \<or>
     (State r = StateClosed \<and> TrimSpace (ClosedBy r) \<noteq> [] \<and> ClosedAt r \<noteq> None)"
  by (auto simp: validate_closure_def)

lemma issue_validate_iff: "issue_validate repo rid r = Inr () \<longleftrightarrow> wf_issue repo rid r"
  unfolding issue_validate_def wf_issue_def
  by (simp add: unit_result_bind validate_branch_iff validateNames_iff validate_comments_iff
    split: option.split) (auto simp: validate_closure_iff)

section \<open>The store's laws\<close>

lemma issue_store_simps [simp]:
  "store_root (issue_store root env cd) = root" "store_env (issue_store root env cd) = env"
  "store_suffix (issue_store root env cd) = ''.issues''" "noun (issue_store root env cd) = ''issue''"
  "codec (issue_store root env cd) = cd" "record_id (issue_store root env cd) = ID"
  "set_repository (issue_store root env cd) = (\<lambda>full r. r\<lparr>Repository := full\<rparr>)"
  "normalize (issue_store root env cd) = issue_normalize" "validate (issue_store root env cd) = issue_validate"
  "repository_locks (issue_store root env cd) = IssueRepositoryRequests env root"
  "group_locks (issue_store root env cd) = IssueGroupRequests env root"
  by (simp_all add: issue_store_def)

lemma issue_normalize_idem: "issue_normalize (issue_normalize r) = issue_normalize r"
  by (cases "Comments r") (simp_all add: issue_normalize_def o_def)

interpretation issues: record_store "issue_store root env cd" for root env cd
proof
  fix repo rid r u
  assume "validate (issue_store root env cd) repo rid r = Inr u"
  then show "record_id (issue_store root env cd) r = rid \<and> 0 < rid"
    using issue_validate_iff [of repo rid r] by (simp add: wf_issue_def)
qed (simp_all add: issue_normalize_idem, simp_all add: issue_normalize_def)

lemma issue_store_rooted: "HasPrefix root ''/'' \<Longrightarrow> rooted_store (issue_store root env cd)"
  by (simp add: rooted_store_def is_digit_def)

lemma issue_requests_wf: "\<forall>q\<in>set (IssueRepositoryRequests env root rs). wf_request q"
  by (auto simp: IssueRepositoryRequests_def IssueCatalogRequest_def issueGroupAncestryRequests_def wf_request_def
    resourceKey_nonempty Let_def)

lemma issue_defaults_ID [simp]: "ID (issue_defaults now repo n r) = n"
  by (simp add: issue_defaults_def Let_def)

text \<open>The number is the only part of the filled-in record that depends on it.\<close>

lemma issue_defaults_number: "issue_defaults now repo n r = (issue_defaults now repo m r)\<lparr>ID := n\<rparr>"
  by (simp add: issue_defaults_def Let_def)

lemma issue_normalize_number: "issue_normalize (r\<lparr>ID := n\<rparr>) = (issue_normalize r)\<lparr>ID := n\<rparr>"
  by (simp add: issue_normalize_def)

lemma wf_issue_number: "wf_issue repo m r \<Longrightarrow> 0 < n \<Longrightarrow> wf_issue repo n (r\<lparr>ID := n\<rparr>)"
  by (simp add: wf_issue_def wf_branch_def)

definition issue_created :: "gotime \<Rightarrow> repository \<Rightarrow> issue \<Rightarrow> nat \<Rightarrow> issue" where
  "issue_created now repo record n = issue_normalize (issue_defaults now repo n record)"

lemma issue_created_wf:
  "wf_issue repo m (issue_created now repo record m) \<Longrightarrow> 0 < n \<Longrightarrow> wf_issue repo n (issue_created now repo record n)"
  using wf_issue_number [of repo m "issue_created now repo record m" n]
  by (simp add: issue_created_def issue_defaults_number [of now repo n "record" m] issue_normalize_number)

lemma issue_created_ID [simp]: "ID (issue_created now repo record n) = n"
  by (simp add: issue_created_def issue_normalize_def)

lemma issue_Create_ok:
  assumes "faults s = []" "wf_repository repo" "HasPrefix root ''/''" "tables_ok s"
    "dir_at s (git_path (issue_store root env cd) repo) \<noteq> None"
    "store_path (issue_store root env cd) repo \<notin> set (plain_files s)"
    "\<forall>k. dir_entry s (store_path (issue_store root env cd) repo) (record_name k) \<noteq> None \<longrightarrow> k < 2 ^ 64 - 1"
    "wf_issue repo 1 (issue_created now repo record 1)"
    "\<forall>n. \<exists>json. marshal cd (issue_created now repo record n) = Inr json \<and> length json < maximumRecordBytes"
  shows "\<exists>r t. issue_Create (issue_store root env cd) now repo record s = (Inr r, t) \<and> faults t = []"
  unfolding issue_Create_def
proof (rule issues.create_ok [OF assms(1,2) issue_store_rooted [OF assms(3)] assms(4) _ assms(5,6)])
  show "\<forall>q\<in>set (repository_locks (issue_store root env cd) [repo]). wf_request q"
    using issue_requests_wf by simp
  show "k < 2 ^ 64 - 1" if "dir_entry s (store_path (issue_store root env cd) repo) (record_name k) \<noteq> None" for k
    using assms(7) that by blast
  show "validate (issue_store root env cd) repo n
      (normalize (issue_store root env cd) (issue_defaults now repo n record)) = Inr ()" if "0 < n" for n
    using issue_created_wf [OF assms(8) that] by (simp add: issue_validate_iff issue_created_def)
  show "\<exists>json. marshal (codec (issue_store root env cd))
      (normalize (issue_store root env cd) (issue_defaults now repo n record)) = Inr json \<and>
      length json < maximumRecordBytes" for n
    using assms(9) by (simp add: issue_created_def)
qed simp_all

lemma issue_Create_cases:
  assumes "issue_Create (issue_store root env cd) now repo record s = (x, t)"
    "wf_repository repo" "HasPrefix root ''/''" "tables_ok s"
  shows "case x of
      Inl _ \<Rightarrow> same_records s t
    | Inr r \<Rightarrow> r = issue_created now repo record (ID r) \<and> wf_issue repo (ID r) r \<and> ID r < 2 ^ 64 \<and>
        (\<forall>k q. view (issue_store root env cd) repo s (store_path (issue_store root env cd) repo) k = Some q \<longrightarrow> k < ID r) \<and>
        dir_entry s (store_path (issue_store root env cd) repo) (record_name (ID r)) = None \<and>
        stored_record (issue_store root env cd) repo r s t"
proof -
  let ?st = "issue_store root env cd"
  have "case x of Inl _ \<Rightarrow> same_records s t
    | Inr r \<Rightarrow> (\<exists>n rs. r = normalize ?st (issue_defaults now repo n record) \<and> record_id ?st r = n \<and> 0 < n \<and> n < 2 ^ 64 \<and>
        validate ?st repo n r = Inr () \<and> Inr () = (Inr () :: unit result) \<and>
        dir_entry s (store_path ?st repo) (record_name n) = None \<and>
        (\<forall>k q. view ?st repo s (store_path ?st repo) k = Some q \<longrightarrow> k < n) \<and>
        (\<forall>k q. view ?st repo s (store_path ?st repo) k = Some q \<longleftrightarrow> q \<in> set rs \<and> record_id ?st q = k) \<and>
        stored_record ?st repo r s t)"
    using issues.create_outcome [OF assms(1) [unfolded issue_Create_def] assms(2) issue_store_rooted [OF assms(3)] assms(4)]
      issue_requests_wf by simp
  then show ?thesis
    by (cases x) (auto simp: issue_validate_iff issue_created_def)
qed

section \<open>Properties\<close>

text \<open>
  Property C26. The issue validator accepts exactly the well-formed issues: number and repository as
  expected, bounded title, description and branch, a known state with the closure fields it asks
  for and no others, ordered times, trimmed distinct labels and assignees within their bounds, and
  comments with distinct positive numbers.
\<close>

theorem issue_validate_exact: "issue_validate repo rid r = Inr () \<longleftrightarrow> wf_issue repo rid r"
  by (rule issue_validate_iff)

text \<open>
  Property C18. Creating an issue, for any pattern of system-call faults: on an error no store has
  changed; on success the issue is valid, has a number above every stored one under which no file
  existed, is stored under it, and no other record has changed.
\<close>

theorem issue_Create_effect:
  assumes "issue_Create (issue_store root env cd) now repo record s = (x, t)"
    "wf_repository repo" "HasPrefix root ''/''" "tables_ok s"
  shows "case x of
      Inl _ \<Rightarrow> (\<forall>repo' p. view (issue_store root env cd) repo' t p = view (issue_store root env cd) repo' s p)
    | Inr r \<Rightarrow> r = issue_created now repo record (ID r) \<and> wf_issue repo (ID r) r \<and>
        dir_entry s (store_path (issue_store root env cd) repo) (record_name (ID r)) = None \<and>
        (\<forall>k q. view (issue_store root env cd) repo s (store_path (issue_store root env cd) repo) k = Some q \<longrightarrow> k < ID r) \<and>
        (reproduces cd r \<longrightarrow> view (issue_store root env cd) repo t (store_path (issue_store root env cd) repo) =
           (view (issue_store root env cd) repo s (store_path (issue_store root env cd) repo))(ID r \<mapsto> r)) \<and>
        (\<forall>repo' p. p \<noteq> store_path (issue_store root env cd) repo \<longrightarrow>
           view (issue_store root env cd) repo' t p = view (issue_store root env cd) repo' s p)"
proof (cases x)
  case (Inl e)
  then show ?thesis using issue_Create_cases [OF assms] by (simp add: same_records_view)
next
  case (Inr r)
  note c = issue_Create_cases [OF assms, unfolded Inr sum.case]
  have "issue_validate repo (ID r) r = Inr ()" using c issue_validate_iff by simp
  then show ?thesis unfolding Inr sum.case using c by (simp add: stored_record_def)
qed

text \<open>
  Property C27. Creating succeeds: without faults, in an existing repository whose numbers are not
  exhausted, a record that is valid once completed and whose encoding fits is created.
\<close>

theorem issue_Create_succeeds:
  assumes "faults s = []" "wf_repository repo" "HasPrefix root ''/''" "tables_ok s"
    "dir_at s (git_path (issue_store root env cd) repo) \<noteq> None"
    "store_path (issue_store root env cd) repo \<notin> set (plain_files s)"
    "\<forall>k. dir_entry s (store_path (issue_store root env cd) repo) (record_name k) \<noteq> None \<longrightarrow> k < 2 ^ 64 - 1"
    "wf_issue repo 1 (issue_created now repo record 1)"
    "\<forall>n. \<exists>json. marshal cd (issue_created now repo record n) = Inr json \<and> length json < maximumRecordBytes"
  shows "\<exists>r t. issue_Create (issue_store root env cd) now repo record s = (Inr r, t)"
  using issue_Create_ok [OF assms] by blast

text \<open>
  Further property. A created issue is the one \<^verbatim>\<open>Get\<close> returns for its number, if the encoding
  reproduces it and reading it meets no fault.
\<close>

theorem issue_Create_Get:
  assumes "issue_Create (issue_store root env cd) now repo record s = (Inr r, t)"
    "wf_repository repo" "HasPrefix root ''/''" "tables_ok s" "reproduces cd r" "faults t = []"
  shows "Get_record (issue_store root env cd) repo (ID r) t = (Inr r, t)"
proof -
  let ?st = "issue_store root env cd"
  note c = issue_Create_cases [OF assms(1-4), unfolded sum.case]
  have "issue_validate repo (ID r) r = Inr ()" using c issue_validate_iff by simp
  then have "view ?st repo t (store_path ?st repo) (ID r) = Some r"
    using c assms(5) by (simp add: stored_record_def)
  then show ?thesis
    using Get_record_view [OF assms(6,2) issue_store_rooted [OF assms(3)]] issue_requests_wf by simp
qed

text \<open>
  Property C28. Updating an issue, for any pattern of faults: on an error no store has changed; on
  success the caller's change was applied to the record \<^verbatim>\<open>get\<close> returned, with the new update
  time, the result is valid under the same number and replaces that record only.
\<close>

theorem issue_Update_effect:
  assumes "issue_Update (issue_store root env cd) now repo rid update s = (x, t)"
    "wf_repository repo" "HasPrefix root ''/''"
  shows "case x of
      Inl _ \<Rightarrow> (\<forall>repo' p. view (issue_store root env cd) repo' t p = view (issue_store root env cd) repo' s p)
    | Inr r \<Rightarrow> wf_issue repo rid r \<and> UpdatedAt r = UTC now \<and>
        (\<exists>old changed s1. get_record (issue_store root env cd) repo rid s = (Inr old, s1) \<and> update old = Inr changed \<and>
           r = issue_normalize (changed\<lparr>UpdatedAt := UTC now\<rparr>)) \<and>
        (reproduces cd r \<longrightarrow> rid < 2 ^ 64 \<longrightarrow>
           view (issue_store root env cd) repo t (store_path (issue_store root env cd) repo) =
           (view (issue_store root env cd) repo s (store_path (issue_store root env cd) repo))(rid \<mapsto> r)) \<and>
        (\<forall>repo' p. p \<noteq> store_path (issue_store root env cd) repo \<longrightarrow>
           view (issue_store root env cd) repo' t p = view (issue_store root env cd) repo' s p)"
proof -
  let ?st = "issue_store root env cd"
  let ?change = "\<lambda>record. bindr (update record) (\<lambda>updated. Inr (updated\<lparr>UpdatedAt := UTC now\<rparr>))"
  have out: "case x of Inl _ \<Rightarrow> same_records s t
    | Inr r \<Rightarrow> (\<exists>old changed s1 s2. get_record ?st repo rid s = (Inr old, s1) \<and> ?change old = Inr changed \<and>
        r = normalize ?st changed \<and> validate ?st repo rid r = Inr () \<and> record_id ?st r = rid \<and> 0 < rid \<and>
        return_io () s1 = (Inr (), s2) \<and> stored_record ?st repo r s t)"
    using issues.update_outcome [OF assms(1) [unfolded issue_Update_def] assms(2) issue_store_rooted [OF assms(3)]]
      issue_requests_wf by simp
  show ?thesis
  proof (cases x)
    case (Inl e)
    then show ?thesis using out by (simp add: same_records_view)
  next
    case (Inr r)
    then obtain old changed s1 where r: "get_record ?st repo rid s = (Inr old, s1)" "update old = Inr changed"
      "r = issue_normalize (changed\<lparr>UpdatedAt := UTC now\<rparr>)" "issue_validate repo rid r = Inr ()" "ID r = rid"
      "stored_record ?st repo r s t"
      using out by (auto simp: bindr_Inr_iff)
    have "UpdatedAt r = UTC now" by (simp add: r(3) issue_normalize_def)
    moreover have "wf_issue repo rid r" using r(4) issue_validate_iff by simp
    ultimately show ?thesis unfolding Inr sum.case using r by (auto simp: stored_record_def)
  qed
qed

text \<open>
  Property C5. Relocation refines moving a map: for any pattern of faults, success leaves the
  destination with exactly the source's issues, renamed to the destination repository, and the
  source empty; failure leaves both as they were, except that a failed restoring rename leaves the
  source's issues under the backup name, in which case the error joins the two causes. Stores of
  other repositories never change.
\<close>

theorem issue_Relocate_refines:
  assumes "Relocate (issue_store root env cd) repo dest s = (x, t)" "wf_repository repo" "wf_repository dest"
    "repo \<noteq> dest" "HasPrefix root ''/''" "tables_ok s"
    "\<forall>rid r. view (issue_store root env cd) repo s (store_path (issue_store root env cd) repo) rid = Some r \<longrightarrow>
       reproduces cd (issue_normalize (r\<lparr>Repository := Full dest\<rparr>))"
  shows "relocated (issue_store root env cd) repo dest x s t"
  by (rule issues.Relocate_outcome [OF assms(1-4) issue_store_rooted [OF assms(5)] assms(6)])
    (use issue_requests_wf assms(7) in \<open>simp_all add: rewritten_def\<close>)

text \<open>
  Property C29. Listing refines reading the map: without faults it returns exactly the valid stored
  issues, each once, the highest number first, and changes nothing.
\<close>

theorem issue_List_exact:
  assumes "faults s = []" "wf_repository repo" "HasPrefix root ''/''" "tables_ok s"
    "store_path (issue_store root env cd) repo \<notin> set (plain_files s)"
  shows "\<exists>rs. List_records (issue_store root env cd) repo s = (Inr rs, s) \<and>
    sorted_wrt (\<lambda>a b. ID b < ID a) rs \<and>
    (\<forall>k r. view (issue_store root env cd) repo s (store_path (issue_store root env cd) repo) k = Some r \<longleftrightarrow>
       r \<in> set rs \<and> ID r = k)"
proof -
  let ?st = "issue_store root env cd"
  note rooted = issue_store_rooted [OF assms(3), of env cd]
  note path = store_path_facts(1) [OF assms(2) rooted]
  obtain rs m where sc: "scanDirectory ?st (store_path ?st repo) repo True s = (Inr (rs, m), s)"
    using scanDirectory_ok [OF assms(1) path assms(4,5)] by blast
  then have "List_records ?st repo s = (Inr rs, s)"
    using repositoryDirectory_wf [OF assms(2) rooted]
    by (simp add: List_records_def with_locks_wf issue_requests_wf list_records_def listValid_def bindio_def)
  then show ?thesis
    using issues.scan_view(1,2) [OF sc path assms(4)] by (intro exI [of _ rs]) simp
qed

section \<open>Instances\<close>

text \<open>A concrete encoding: the number in decimal, a space and the repository.\<close>

definition sample_issue :: issue where
  "sample_issue = \<lparr>ID = 0, Repository = [], Title = ''t'', Description = [], Author = ''a'', State = [],
     CreatedAt = zero_time, UpdatedAt = zero_time, Labels = None, Assignees = None, Comments = None,
     Branch = [], BranchCreatedBy = [], BranchCreatedAt = None, ClosedBy = [], ClosedAt = None\<rparr>"

abbreviation sample_created :: "nat \<Rightarrow> issue" where
  "sample_created n \<equiv> issue_created sample_time sample_repo sample_issue n"

definition issue_sample_codec :: "issue codec" where
  "issue_sample_codec = \<lparr>marshal = (\<lambda>r. Inr (if ID r < 2 ^ 64 then print_nat (ID r) @ '' '' @ take 300 (Repository r) else [])),
     decode_first = (\<lambda>c. Inr ((sample_created (decimal_value (takeWhile is_digit c)))
       \<lparr>Repository := butlast (tl (dropWhile is_digit c))\<rparr>)),
     decode_rest = (\<lambda>_. None)\<rparr>"

abbreviation issue_sample_store :: "issue store" where
  "issue_sample_store \<equiv> issue_store ''/'' sample_locks issue_sample_codec"

lemma sample_created_simps:
  "sample_created n = \<lparr>ID = n, Repository = ''g/r'', Title = ''t'', Description = [], Author = ''a'', State = StateOpen,
     CreatedAt = sample_time, UpdatedAt = sample_time, Labels = Some [], Assignees = Some [], Comments = Some [],
     Branch = [], BranchCreatedBy = [], BranchCreatedAt = None, ClosedBy = [], ClosedAt = None\<rparr>"
  by (simp add: issue_created_def issue_defaults_def sample_issue_def issue_normalize_def Let_def zero_time_def IsZero_def
    Full_def Group_def sample_repo_def UTC_def sample_time_def)

lemma sample_issue_wf: "wf_issue sample_repo 1 (sample_created 1)"
proof -
  have "TrimSpace ''t'' = ''t''" "TrimSpace ''a'' = ''a''" by (rule TrimSpace_plain; simp add: plain_char_def)+
  then show ?thesis
    unfolding sample_created_simps
    by (simp add: wf_issue_def wf_branch_def wf_names_def IsZero_def Before_def sample_time_def
      Full_def Group_def sample_repo_def)
qed

lemma takeWhile_print_nat:
  "takeWhile is_digit (print_nat n @ '' '' @ w) = print_nat n" "dropWhile is_digit (print_nat n @ '' '' @ w) = '' '' @ w"
  using print_nat_digits [of n]
  by (simp_all add: list_all_iff takeWhile_append2 dropWhile_append2 is_digit_def)

lemma sample_reproduces:
  assumes "ID r < 2 ^ 64" "r\<lparr>Repository := ''g/r''\<rparr> = sample_created (ID r)" "length (Repository r) < 300"
  shows "reproduces issue_sample_codec r"
proof -
  have "(sample_created (ID r))\<lparr>Repository := Repository r\<rparr> = r"
    unfolding assms(2) [symmetric] by simp
  then show ?thesis
    using assms(1,3) takeWhile_print_nat [of "ID r" "Repository r @ [CHR 0x0A]"]
    by (simp add: reproduces_def issue_sample_codec_def)
qed

lemma sample_marshal:
  "\<exists>json. marshal issue_sample_codec (sample_created n) = Inr json \<and> length json < maximumRecordBytes"
proof (cases "n < 2 ^ 64")
  case True
  have "n < 10 ^ Suc 20" by (rule less_trans [OF True]) simp
  then have "length (print_nat n) \<le> Suc 20" by (rule print_nat_length)
  then show ?thesis using True by (simp add: issue_sample_codec_def)
qed (simp add: issue_sample_codec_def)

lemma sample_create_run:
  "\<exists>r t. issue_Create issue_sample_store sample_time sample_repo sample_issue sample_fs = (Inr r, t) \<and> faults t = []"
  by (rule issue_Create_ok [OF sample_fs_simps(1) sample_repo_wf(1) _ sample_fs_ok(1) sample_git_exists _ _ sample_issue_wf])
    (use sample_marshal in \<open>simp_all add: HasPrefix_def sample_fs_simps sample_fs_ok\<close>)

theorem issue_Create_succeeds_witness:
  "\<exists>r t. issue_Create issue_sample_store sample_time sample_repo sample_issue sample_fs = (Inr r, t)"
  by (rule issue_Create_succeeds [OF sample_fs_simps(1) sample_repo_wf(1) _ sample_fs_ok(1) sample_git_exists _ _ sample_issue_wf])
    (use sample_marshal in \<open>simp_all add: HasPrefix_def sample_fs_simps sample_fs_ok\<close>)

theorem issue_Create_effect_witness:
  "\<exists>r t. issue_Create issue_sample_store sample_time sample_repo sample_issue sample_fs = (Inr r, t) \<and>
     wf_issue sample_repo (ID r) r \<and> r = sample_created (ID r)"
proof -
  obtain r t where run: "issue_Create issue_sample_store sample_time sample_repo sample_issue sample_fs = (Inr r, t)"
    using sample_create_run by (elim exE conjE)
  from issue_Create_effect [OF run sample_repo_wf(1) sample_rooted sample_fs_ok(1)]
  show ?thesis using run by auto
qed

theorem issue_Create_Get_witness:
  "\<exists>r t. issue_Create issue_sample_store sample_time sample_repo sample_issue sample_fs = (Inr r, t) \<and>
     Get_record issue_sample_store sample_repo (ID r) t = (Inr r, t)"
proof -
  obtain r t where run: "issue_Create issue_sample_store sample_time sample_repo sample_issue sample_fs = (Inr r, t)"
    "faults t = []"
    using sample_create_run by (elim exE conjE)
  have "reproduces issue_sample_codec r"
  proof (rule sample_reproduces)
    have r: "ID r < 2 ^ 64" "r = sample_created (ID r)"
      using issue_Create_cases [OF run(1) sample_repo_wf(1) sample_rooted sample_fs_ok(1)] by simp_all
    then have "Repository r = ''g/r''" unfolding sample_created_simps by (metis issue.select_convs(2))
    with r show "ID r < 2 ^ 64" "r\<lparr>Repository := ''g/r''\<rparr> = sample_created (ID r)" "length (Repository r) < 300"
      by simp_all
  qed
  from issue_Create_Get [OF run(1) sample_repo_wf(1) sample_rooted sample_fs_ok(1) this run(2)] run(1)
  show ?thesis by blast
qed

theorem issue_Update_effect_witness:
  "\<exists>x t. issue_Update issue_sample_store sample_time sample_repo 1 Inr sample_fs = (x, t) \<and>
     (\<exists>e. x = Inl e) \<and> (\<forall>repo' p. view issue_sample_store repo' t p = view issue_sample_store repo' sample_fs p)"
proof -
  obtain x t where run: "issue_Update issue_sample_store sample_time sample_repo 1 Inr sample_fs = (x, t)" by fastforce
  have "get_record issue_sample_store sample_repo 1 sample_fs =
      (Inl (Wrap (print_nat 1) (Sentinel ''issue not found'')), sample_fs)"
    using get_missing [OF sample_fs_simps(1) repositoryDirectory_wf store_path_facts(1), where rid = 1,
      OF sample_repo_wf(1) issue_store_rooted sample_repo_wf(1) issue_store_rooted] sample_rooted
    by (simp add: sample_fs_simps sample_fs_ok)
  then have "\<exists>e. x = Inl e"
    using run by (auto simp: issue_Update_def update_record_def bindio_def with_locks_wf [OF issue_requests_wf])
  then show ?thesis
    using run issue_Update_effect [OF run sample_repo_wf(1) sample_rooted] by auto
qed

text \<open>A store that holds the sample issue under number 1.\<close>

definition issue_sample_contents :: string where
  "issue_sample_contents = print_nat 1 @ '' '' @ ''g/r'' @ [CHR 0x0A]"

definition issue_sample_fs :: file_system where
  "issue_sample_fs =
     \<lparr>dirs = [(''/g/r.issues'', [(record_name 1, Regular issue_sample_contents)])], plain_files = [], faults = []\<rparr>"

lemma issue_sample_path: "store_path issue_sample_store sample_repo = ''/g/r.issues''"
  by (simp add: store_path_def sample_repo_def rooted_clean_def rooted_path_def)

lemma issue_sample_tables: "tables_ok issue_sample_fs"
  by (simp add: tables_ok_def issue_sample_fs_def dir_at_def)

lemma issue_sample_decode:
  "decode_record issue_sample_store sample_repo rid issue_sample_contents = Inr r \<longleftrightarrow> rid = 1 \<and> r = sample_created 1"
proof -
  have "decode_first issue_sample_codec issue_sample_contents = Inr ((sample_created 1)\<lparr>Repository := ''g/r''\<rparr>)"
    using takeWhile_print_nat [of 1 "''g/r'' @ [CHR 0x0A]"]
    unfolding issue_sample_contents_def issue_sample_codec_def by simp
  moreover have "(sample_created 1)\<lparr>Repository := ''g/r''\<rparr> = sample_created 1" unfolding sample_created_simps by simp
  moreover have "issue_validate sample_repo rid (sample_created 1) = Inr () \<longleftrightarrow> rid = 1"
    using sample_issue_wf unfolding issue_validate_iff by (auto simp: wf_issue_def)
  moreover have "length issue_sample_contents \<le> maximumRecordBytes"
    using print_nat_length [of 1 0] by (simp add: issue_sample_contents_def)
  ultimately show ?thesis
    by (auto simp: decode_record_def issue_sample_codec_def split: sum.splits)
qed

lemma issue_sample_view:
  "view issue_sample_store sample_repo issue_sample_fs (store_path issue_sample_store sample_repo) rid = Some r \<longleftrightarrow>
     rid = 1 \<and> r = sample_created 1"
proof -
  have "dir_entry issue_sample_fs ''/g/r.issues'' (record_name rid) =
      (if rid = 1 then Some (Regular issue_sample_contents) else None)"
    by (simp add: dir_entry_def dir_at_def issue_sample_fs_def)
  then show ?thesis
    unfolding view_iff issue_sample_path using issue_sample_decode [of rid r] by auto
qed

theorem issue_Relocate_refines_witness:
  "\<exists>x t. Relocate issue_sample_store sample_repo other_repo issue_sample_fs = (x, t) \<and>
     relocated issue_sample_store sample_repo other_repo x issue_sample_fs t \<and>
     view issue_sample_store sample_repo issue_sample_fs (store_path issue_sample_store sample_repo) 1 = Some (sample_created 1)"
proof -
  obtain x t where run: "Relocate issue_sample_store sample_repo other_repo issue_sample_fs = (x, t)" by fastforce
  have ne: "sample_repo \<noteq> other_repo" by (simp add: sample_repo_def other_repo_def)
  have "reproduces issue_sample_codec (issue_normalize ((sample_created 1)\<lparr>Repository := Full other_repo\<rparr>))"
    unfolding sample_created_simps
    by (rule sample_reproduces)
      (simp_all add: sample_created_simps issue_normalize_def UTC_sample Full_def Group_def other_repo_def)
  then have "relocated issue_sample_store sample_repo other_repo x issue_sample_fs t"
    by (intro issue_Relocate_refines [OF run sample_repo_wf ne sample_rooted issue_sample_tables])
      (simp add: issue_sample_view)
  then show ?thesis using run issue_sample_view by blast
qed

theorem issue_List_exact_witness:
  "\<exists>rs. List_records issue_sample_store sample_repo issue_sample_fs = (Inr rs, issue_sample_fs) \<and> sample_created 1 \<in> set rs"
proof -
  have "faults issue_sample_fs = []" "store_path issue_sample_store sample_repo \<notin> set (plain_files issue_sample_fs)"
    by (simp_all add: issue_sample_fs_def)
  from issue_List_exact [OF this(1) sample_repo_wf(1) sample_rooted issue_sample_tables this(2)]
  show ?thesis using issue_sample_view by blast
qed

end
