(* ===== verification/Review.thy ===== *)
theory Review
  imports StoreLive GoTime
begin

text \<open>
  Merge requests, \<^verbatim>\<open>src/internal/review\<close>: the record with its approvals, threads and merge
  claim, its normaliser and validator, the store as an instance of the record stores, its
  operations with the check for duplicate open requests, and the move transactions.
\<close>

section \<open>Records\<close>

abbreviation StateOpen :: string where "StateOpen \<equiv> ''open''"
abbreviation StateClosed :: string where "StateClosed \<equiv> ''closed''"
abbreviation StateMerged :: string where "StateMerged \<equiv> ''merged''"

record review_comment =
  CommentID :: nat
  CommentAuthor :: string
  CommentBody :: string
  CommentCreatedAt :: gotime

record thread =
  ThreadID :: nat
  ThreadCreatedAt :: gotime
  Resolved :: bool
  ResolvedBy :: string
  ResolvedAt :: "gotime option"
  ThreadComments :: "review_comment list option"

record approval =
  ApprovalAuthor :: string
  ApprovalHeadCommit :: string
  ApprovalCreatedAt :: gotime
  SelfApproval :: bool

record merge_request =
  ID :: nat
  Repository :: string
  Title :: string
  Description :: string
  Target :: string
  Source :: string
  Author :: string
  State :: string
  CreatedAt :: gotime
  UpdatedAt :: gotime
  BaseCommit :: string
  HeadCommit :: string
  RequiredApprovals :: int
  Approvals :: "approval list option"
  Threads :: "thread list option"
  MergedCommit :: string
  MergedStrategy :: string
  MergedBy :: string
  MergedAt :: "gotime option"
  ClosedBy :: string
  ClosedAt :: "gotime option"
  MergeInProgress :: bool
  MergeClaimID :: string
  MergeOwnerID :: string
  MergeHeadCommit :: string
  MergeTargetCommit :: string
  MergeResultCommit :: string
  MergeResultStrategy :: string
  MergeStartedBy :: string
  MergeStartedAt :: "gotime option"

section \<open>Normalising\<close>

definition normalize_thread :: "thread \<Rightarrow> thread" where
  "normalize_thread t = t\<lparr>
     ThreadCreatedAt := UTC (ThreadCreatedAt t),
     ResolvedAt := map_option UTC (ResolvedAt t),
     ThreadComments := map_option (map (\<lambda>c. c\<lparr>CommentCreatedAt := UTC (CommentCreatedAt c)\<rparr>))
       (non_nil (ThreadComments t))\<rparr>"

definition review_normalize :: "merge_request \<Rightarrow> merge_request" where
  "review_normalize r = r\<lparr>
     CreatedAt := UTC (CreatedAt r),
     UpdatedAt := UTC (UpdatedAt r),
     MergedAt := map_option UTC (MergedAt r),
     ClosedAt := map_option UTC (ClosedAt r),
     MergeStartedAt := map_option UTC (MergeStartedAt r),
     Approvals := map_option (map (\<lambda>a. a\<lparr>ApprovalCreatedAt := UTC (ApprovalCreatedAt a)\<rparr>)) (non_nil (Approvals r)),
     Threads := map_option (map normalize_thread) (non_nil (Threads r))\<rparr>"

section \<open>Validating\<close>

text \<open>Forty characters that \<^verbatim>\<open>hex.DecodeString\<close> accepts: an even number of hexadecimal digits.\<close>

definition validCommitHash :: "string \<Rightarrow> bool" where
  "validCommitHash v = (if length v \<noteq> 40 then False else even (length v) \<and> list_all is_hex v)"

fun validate_approvals :: "string \<Rightarrow> nat \<Rightarrow> string list \<Rightarrow> approval list \<Rightarrow> unit result" where
  "validate_approvals author index seen [] = Inr ()"
| "validate_approvals author index seen (a # as) =
     (if TrimSpace (ApprovalAuthor a) = [] \<or> TrimSpace (ApprovalHeadCommit a) = [] \<or>
        IsZero (ApprovalCreatedAt a) \<or> \<not> validCommitHash (ApprovalHeadCommit a)
      then Inl (Errorf (''approval '' @ print_nat index @ '' is malformed''))
      else if ApprovalAuthor a = author \<and> \<not> SelfApproval a
      then Inl (Errorf (''approval '' @ print_nat index @ '' was made by the merge request author''))
      else if SelfApproval a \<and> ApprovalAuthor a \<noteq> author
      then Inl (Errorf (''approval '' @ print_nat index @ '' has an invalid self-approval override''))
      else if ApprovalAuthor a \<in> set seen then Inl (Errorf (''duplicate approval by '' @ ApprovalAuthor a))
      else validate_approvals author (index + 1) (ApprovalAuthor a # seen) as)"

fun validate_thread_comments :: "nat \<Rightarrow> nat \<Rightarrow> nat list \<Rightarrow> review_comment list \<Rightarrow> unit result" where
  "validate_thread_comments tid index seen [] = Inr ()"
| "validate_thread_comments tid index seen (c # cs) =
     (if CommentID c = 0
      then Inl (Errorf (''thread '' @ print_nat tid @ '' comment '' @ print_nat index @ '' has a zero ID''))
      else if CommentID c \<in> set seen
      then Inl (Errorf (''thread '' @ print_nat tid @ '' has duplicate comment ID '' @ print_nat (CommentID c)))
      else if TrimSpace (CommentAuthor c) = [] \<or> TrimSpace (CommentBody c) = [] \<or> IsZero (CommentCreatedAt c)
      then Inl (Errorf (''thread '' @ print_nat tid @ '' comment '' @ print_nat (CommentID c) @ '' is malformed''))
      else validate_thread_comments tid (index + 1) (CommentID c # seen) cs)"

definition validate_resolution :: "thread \<Rightarrow> unit result" where
  "validate_resolution t =
     (if Resolved t then
        (if TrimSpace (ResolvedBy t) = [] \<or> ResolvedAt t = None
         then Inl (Errorf (''resolved thread '' @ print_nat (ThreadID t) @ '' lacks resolution metadata'')) else Inr ())
      else if ResolvedBy t \<noteq> [] \<or> ResolvedAt t \<noteq> None
      then Inl (Errorf (''unresolved thread '' @ print_nat (ThreadID t) @ '' has resolution metadata''))
      else Inr ())"

fun validate_threads :: "nat \<Rightarrow> nat list \<Rightarrow> thread list \<Rightarrow> unit result" where
  "validate_threads index seen [] = Inr ()"
| "validate_threads index seen (t # ts) =
     (if ThreadID t = 0 then Inl (Errorf (''thread '' @ print_nat index @ '' has a zero ID''))
      else if ThreadID t \<in> set seen then Inl (Errorf (''duplicate thread ID '' @ print_nat (ThreadID t)))
      else case ThreadComments t of
        None \<Rightarrow> Inl (Errorf (''thread '' @ print_nat (ThreadID t) @ '' is malformed''))
      | Some comments \<Rightarrow>
          if IsZero (ThreadCreatedAt t) then Inl (Errorf (''thread '' @ print_nat (ThreadID t) @ '' is malformed''))
          else bindr (validate_resolution t) (\<lambda>_.
               bindr (validate_thread_comments (ThreadID t) 0 [] comments) (\<lambda>_.
                 validate_threads (index + 1) (ThreadID t # seen) ts)))"

text \<open>The fields each state asks for or excludes.\<close>

definition validate_completion :: "merge_request \<Rightarrow> unit result" where
  "validate_completion r =
     (if State r = StateOpen then
        (if MergedCommit r \<noteq> [] \<or> MergedStrategy r \<noteq> [] \<or> MergedBy r \<noteq> [] \<or> MergedAt r \<noteq> None \<or>
           ClosedBy r \<noteq> [] \<or> ClosedAt r \<noteq> None
         then Inl (Errorf ''open merge request has completion metadata'') else Inr ())
      else if State r = StateClosed then
        (if TrimSpace (ClosedBy r) = [] \<or> ClosedAt r = None
         then Inl (Errorf ''closed merge request lacks closure metadata'')
         else if MergedCommit r \<noteq> [] \<or> MergedStrategy r \<noteq> [] \<or> MergedBy r \<noteq> [] \<or> MergedAt r \<noteq> None
         then Inl (Errorf ''closed merge request has merge metadata'') else Inr ())
      else if State r = StateMerged then
        (if TrimSpace (MergedCommit r) = [] \<or> TrimSpace (MergedStrategy r) = [] \<or> TrimSpace (MergedBy r) = [] \<or>
           MergedAt r = None \<or> \<not> validCommitHash (MergedCommit r)
         then Inl (Errorf ''merged merge request lacks merge metadata'')
         else if ClosedBy r \<noteq> [] \<or> ClosedAt r \<noteq> None
         then Inl (Errorf ''merged merge request has closure metadata'') else Inr ())
      else Inr ())"

definition count_set :: "bool list \<Rightarrow> nat" where
  "count_set bs = length (filter (\<lambda>b. b) bs)"

definition validate_claim :: "merge_request \<Rightarrow> unit result" where
  "validate_claim r =
     (let mergeClaimFields = count_set [MergeClaimID r \<noteq> [], MergeOwnerID r \<noteq> [], MergeHeadCommit r \<noteq> [],
            MergeStartedBy r \<noteq> [], MergeStartedAt r \<noteq> None];
          mergeResultFields = count_set [MergeTargetCommit r \<noteq> [], MergeResultCommit r \<noteq> [], MergeResultStrategy r \<noteq> []]
      in if MergeInProgress r then
           (if State r \<noteq> StateOpen \<or> mergeClaimFields \<noteq> 5 \<or> \<not> validCommitHash (MergeHeadCommit r)
            then Inl (Errorf ''merge request has malformed merge-in-progress metadata'')
            else if mergeResultFields \<noteq> 0 \<and> mergeResultFields \<noteq> 3
            then Inl (Errorf ''merge request has incomplete planned merge metadata'')
            else if mergeResultFields = 3 then
              (if \<not> validCommitHash (MergeTargetCommit r) \<or> \<not> validCommitHash (MergeResultCommit r)
               then Inl (Errorf ''merge request has malformed planned merge commits'')
               else if MergeResultStrategy r \<notin> {''already-up-to-date'', ''fast-forward'', ''merge-commit''}
               then Inl (Errorf ''merge request has an invalid planned merge strategy'') else Inr ())
            else Inr ())
         else if mergeClaimFields \<noteq> 0 \<or> mergeResultFields \<noteq> 0
         then Inl (Errorf ''merge request has merge intent metadata without an active merge'')
         else Inr ())"

definition review_validate :: "repository \<Rightarrow> nat \<Rightarrow> merge_request \<Rightarrow> unit result" where
  "review_validate repo expectedID r =
     (if expectedID = 0 \<or> ID r = 0 then Inl (Errorf ''merge request ID must be greater than zero'')
      else if ID r \<noteq> expectedID
      then Inl (Errorf (''merge request ID is '' @ print_nat (ID r) @ '', expected '' @ print_nat expectedID))
      else if Repository r \<noteq> Full repo
      then Inl (Errorf (''merge request repository is '' @ Repository r @ '', expected '' @ Full repo))
      else if TrimSpace (Title r) = [] then Inl (Errorf ''merge request title is required'')
      else if TrimSpace (Target r) = [] \<or> TrimSpace (Source r) = []
      then Inl (Errorf ''merge request target and source are required'')
      else if Target r = Source r then Inl (Errorf ''merge request target and source must be different'')
      else if TrimSpace (Author r) = [] then Inl (Errorf ''merge request author is required'')
      else if State r \<noteq> StateOpen \<and> State r \<noteq> StateClosed \<and> State r \<noteq> StateMerged
      then Inl (Errorf (''invalid merge request state '' @ State r))
      else if IsZero (CreatedAt r) \<or> IsZero (UpdatedAt r) then Inl (Errorf ''merge request timestamps are required'')
      else if Before (UpdatedAt r) (CreatedAt r)
      then Inl (Errorf ''merge request update time precedes its creation time'')
      else if TrimSpace (BaseCommit r) = [] \<or> TrimSpace (HeadCommit r) = []
      then Inl (Errorf ''merge request base and head commits are required'')
      else if \<not> validCommitHash (BaseCommit r) \<or> \<not> validCommitHash (HeadCommit r)
      then Inl (Errorf ''merge request base and head commits must be complete Git hashes'')
      else if RequiredApprovals r < 1 then Inl (Errorf ''merge request must require at least one approval'')
      else case (Approvals r, Threads r) of
        (Some approvals, Some threads) \<Rightarrow>
          bindr (validate_approvals (Author r) 0 [] approvals) (\<lambda>_.
          bindr (validate_threads 0 [] threads) (\<lambda>_.
          bindr (validate_completion r) (\<lambda>_.
            validate_claim r)))
      | _ \<Rightarrow> Inl (Errorf ''merge request approval and thread arrays are required''))"

section \<open>The store\<close>

definition review_store :: "string \<Rightarrow> lock_env \<Rightarrow> merge_request codec \<Rightarrow> merge_request store" where
  "review_store root env cd =
     \<lparr>store_root = root, store_env = env, store_suffix = ''.reviews'', noun = ''merge request'', store_noun = ''review'',
      file_stem = ''.review-'', relocate_stem = ''.reviews-relocate-'', rewrite_stem = ''.reviews-rewrite-'',
      walk_skips = [''.git'', ''.lfs'', ''.build''], codec = cd, record_id = ID,
      set_repository = (\<lambda>full r. r\<lparr>Repository := full\<rparr>), normalize = review_normalize, validate = review_validate,
      repository_locks = ReviewRepositoryRequests env root, group_locks = ReviewGroupRequests env root\<rparr>"

text \<open>The loop over the existing requests of \<^verbatim>\<open>Create\<close>, and that of \<^verbatim>\<open>Update\<close>, which leaves out the request itself.\<close>

definition duplicate_error :: "merge_request \<Rightarrow> goerror" where
  "duplicate_error candidate =
     Wrap (''!'' @ print_nat (ID candidate)) (Sentinel ''an open merge request already exists for these branches'')"

fun find_duplicate :: "string \<Rightarrow> string \<Rightarrow> merge_request list \<Rightarrow> unit result" where
  "find_duplicate target source [] = Inr ()"
| "find_duplicate target source (candidate # existing) =
     (if State candidate = StateOpen \<and> Target candidate = target \<and> Source candidate = source
      then Inl (duplicate_error candidate) else find_duplicate target source existing)"

fun find_other_duplicate :: "merge_request \<Rightarrow> merge_request list \<Rightarrow> unit result" where
  "find_other_duplicate r [] = Inr ()"
| "find_other_duplicate r (candidate # existing) =
     (if ID candidate \<noteq> ID r \<and> State candidate = StateOpen \<and> Target candidate = Target r \<and> Source candidate = Source r
      then Inl (duplicate_error candidate) else find_other_duplicate r existing)"

definition review_defaults :: "gotime \<Rightarrow> repository \<Rightarrow> nat \<Rightarrow> merge_request \<Rightarrow> merge_request" where
  "review_defaults now repo nextID r =
     (let r1 = r\<lparr>ID := nextID\<rparr>;
          r2 = (if Repository r1 = [] then r1\<lparr>Repository := Full repo\<rparr> else r1);
          r3 = (if State r2 = [] then r2\<lparr>State := StateOpen\<rparr> else r2);
          r4 = (if IsZero (CreatedAt r3) then r3\<lparr>CreatedAt := UTC now\<rparr> else r3);
          r5 = (if IsZero (UpdatedAt r4) then r4\<lparr>UpdatedAt := CreatedAt r4\<rparr> else r4)
      in if RequiredApprovals r5 = 0 then r5\<lparr>RequiredApprovals := 1\<rparr> else r5)"

definition review_Create :: "merge_request store \<Rightarrow> gotime \<Rightarrow> repository \<Rightarrow> merge_request \<Rightarrow> merge_request io" where
  "review_Create st now repo request =
     create_record st repo (find_duplicate (Target request) (Source request))
       (\<lambda>nextID. review_defaults now repo nextID request)"

definition review_Update ::
    "merge_request store \<Rightarrow> gotime \<Rightarrow> repository \<Rightarrow> nat \<Rightarrow> (merge_request \<Rightarrow> merge_request result) \<Rightarrow> merge_request io" where
  "review_Update st now repo rid update =
     update_record st repo rid
       (\<lambda>request. bindr (update request) (\<lambda>updated. Inr (updated\<lparr>UpdatedAt := UTC now\<rparr>)))
       (\<lambda>request.
          if State request = StateOpen
          then bindio (list_records st repo) (\<lambda>existing. lift_io (find_other_duplicate request existing))
          else return_io ())"

text \<open>The remaining operations of the store, which the two packages share.\<close>

definition review_List :: "string \<Rightarrow> lock_env \<Rightarrow> merge_request codec \<Rightarrow> repository \<Rightarrow> merge_request list io" where
  "review_List root env cd repo = List_records (review_store root env cd) repo"

definition review_Get :: "string \<Rightarrow> lock_env \<Rightarrow> merge_request codec \<Rightarrow> repository \<Rightarrow> nat \<Rightarrow> merge_request io" where
  "review_Get root env cd repo rid = Get_record (review_store root env cd) repo rid"

definition review_Relocate :: "string \<Rightarrow> lock_env \<Rightarrow> merge_request codec \<Rightarrow> repository \<Rightarrow> repository \<Rightarrow> unit io" where
  "review_Relocate root env cd repo destination = Relocate (review_store root env cd) repo destination"

definition review_relocate :: "string \<Rightarrow> lock_env \<Rightarrow> merge_request codec \<Rightarrow> repository \<Rightarrow> repository \<Rightarrow> unit io" where
  "review_relocate root env cd repo destination = relocate (review_store root env cd) repo destination"

definition review_RewriteGroup :: "string \<Rightarrow> lock_env \<Rightarrow> merge_request codec \<Rightarrow> string \<Rightarrow> string \<Rightarrow> unit io" where
  "review_RewriteGroup root env cd sourceGroup destinationGroup =
     RewriteGroup (review_store root env cd) sourceGroup destinationGroup"

definition review_rewriteGroup :: "string \<Rightarrow> lock_env \<Rightarrow> merge_request codec \<Rightarrow> string \<Rightarrow> string \<Rightarrow> unit io" where
  "review_rewriteGroup root env cd sourceGroup destinationGroup =
     rewriteGroup (review_store root env cd) sourceGroup destinationGroup"

definition review_listValid :: "string \<Rightarrow> lock_env \<Rightarrow> merge_request codec \<Rightarrow> repository \<Rightarrow> (merge_request list \<times> nat) io" where
  "review_listValid root env cd repo = listValid (review_store root env cd) repo"

definition review_scanDirectory ::
    "string \<Rightarrow> lock_env \<Rightarrow> merge_request codec \<Rightarrow> string \<Rightarrow> repository \<Rightarrow> bool \<Rightarrow> (merge_request list \<times> nat) io" where
  "review_scanDirectory root env cd directory repo skipInvalid =
     scanDirectory (review_store root env cd) directory repo skipInvalid"

definition review_nextRecordID :: "string \<Rightarrow> lock_env \<Rightarrow> merge_request codec \<Rightarrow> repository \<Rightarrow> nat \<Rightarrow> nat io" where
  "review_nextRecordID root env cd repo maximumID = nextRecordID (review_store root env cd) repo maximumID"

definition review_rewriteDirectory ::
    "string \<Rightarrow> lock_env \<Rightarrow> merge_request codec \<Rightarrow> string \<Rightarrow> repository \<Rightarrow> repository \<Rightarrow> unit io" where
  "review_rewriteDirectory root env cd directory source destination =
     rewriteDirectory (review_store root env cd) directory source destination"

definition review_get :: "string \<Rightarrow> lock_env \<Rightarrow> merge_request codec \<Rightarrow> repository \<Rightarrow> nat \<Rightarrow> merge_request io" where
  "review_get root env cd repo rid = get_record (review_store root env cd) repo rid"

definition review_save :: "string \<Rightarrow> lock_env \<Rightarrow> merge_request codec \<Rightarrow> repository \<Rightarrow> merge_request \<Rightarrow> unit io" where
  "review_save root env cd repo request = save (review_store root env cd) repo request"

definition review_writeRecord :: "string \<Rightarrow> lock_env \<Rightarrow> merge_request codec \<Rightarrow> string \<Rightarrow> merge_request \<Rightarrow> unit io" where
  "review_writeRecord root env cd directory request = writeRecord (review_store root env cd) directory request"

definition review_repositoryDirectory :: "string \<Rightarrow> lock_env \<Rightarrow> merge_request codec \<Rightarrow> repository \<Rightarrow> string result" where
  "review_repositoryDirectory root env cd repo = repositoryDirectory (review_store root env cd) repo"

definition review_readRecord ::
    "string \<Rightarrow> lock_env \<Rightarrow> merge_request codec \<Rightarrow> string \<Rightarrow> repository \<Rightarrow> nat \<Rightarrow> merge_request io" where
  "review_readRecord root env cd directory repo rid = readRecord (review_store root env cd) directory repo rid"

definition review_list :: "string \<Rightarrow> lock_env \<Rightarrow> merge_request codec \<Rightarrow> repository \<Rightarrow> merge_request list io" where
  "review_list root env cd repo = list_records (review_store root env cd) repo"

definition review_listDirectory ::
    "string \<Rightarrow> lock_env \<Rightarrow> merge_request codec \<Rightarrow> string \<Rightarrow> repository \<Rightarrow> merge_request list io" where
  "review_listDirectory root env cd directory repo = listDirectory (review_store root env cd) directory repo"

definition review_repositoryGitDirectory :: "string \<Rightarrow> lock_env \<Rightarrow> merge_request codec \<Rightarrow> repository \<Rightarrow> string result" where
  "review_repositoryGitDirectory root env cd repo = repositoryGitDirectory (review_store root env cd) repo"

definition review_recordPath :: "string \<Rightarrow> lock_env \<Rightarrow> merge_request codec \<Rightarrow> string \<Rightarrow> nat \<Rightarrow> string result" where
  "review_recordPath root env cd directory rid = recordPath (review_store root env cd) directory rid"

definition review_parseRecordName :: "string \<Rightarrow> lock_env \<Rightarrow> merge_request codec \<Rightarrow> string \<Rightarrow> nat result" where
  "review_parseRecordName root env cd name = parseRecordName (review_store root env cd) name"

section \<open>Locks and moves\<close>

text \<open>
  \<^verbatim>\<open>src/internal/review/lifecycle.go\<close> and \<^verbatim>\<open>merge_lock.go\<close>; \<open>action\<close>, \<open>move\<close> and \<open>rollback\<close> are the
  caller's.
\<close>

definition review_lockLifecycle :: "lock_env \<Rightarrow> string \<Rightarrow> request list" where
  "review_lockLifecycle env root = [CatalogRequest env root Exclusive, ReviewCatalogRequest env root Exclusive]"

definition WithLifecycleLock :: "merge_request store \<Rightarrow> 'a io option \<Rightarrow> 'a io" where
  "WithLifecycleLock st action =
     required ''review lifecycle action is required'' action
       (with_locks (review_lockLifecycle (store_env st) (store_root st)))"

definition WithLifecycleLockHeld :: "merge_request store \<Rightarrow> 'a io option \<Rightarrow> 'a io" where
  "WithLifecycleLockHeld st action =
     required ''review lifecycle action is required'' action
       (with_locks [ReviewCatalogRequest (store_env st) (store_root st) Exclusive])"

definition review_WithRepositoryLocks :: "merge_request store \<Rightarrow> repository list \<Rightarrow> 'a io option \<Rightarrow> 'a io" where
  "review_WithRepositoryLocks st repositories action =
     required ''review repository action is required'' action (with_locks (repository_locks st repositories))"

definition review_WithGroupLocks :: "merge_request store \<Rightarrow> string list \<Rightarrow> 'a io option \<Rightarrow> 'a io" where
  "review_WithGroupLocks st grps action =
     required ''review group action is required'' action (with_locks (group_locks st grps))"

definition moveRepository :: "merge_request store \<Rightarrow> repository \<Rightarrow> repository \<Rightarrow> unit io \<Rightarrow> unit io \<Rightarrow> unit io" where
  "moveRepository st source destination move rollback =
     move_repository (Wrap ''restore repository data'') st source destination move rollback"

definition review_MoveRepositoryLocked ::
    "merge_request store \<Rightarrow> repository \<Rightarrow> repository \<Rightarrow> unit io option \<Rightarrow> unit io option \<Rightarrow> unit io" where
  "review_MoveRepositoryLocked st source destination move rollback =
     required_both ''repository move and rollback actions are required'' move rollback (\<lambda>move rollback.
       with_locks (repository_locks st [source, destination]) (moveRepository st source destination move rollback))"

definition review_MoveRepository ::
    "merge_request store \<Rightarrow> repository \<Rightarrow> repository \<Rightarrow> unit io option \<Rightarrow> unit io option \<Rightarrow> unit io" where
  "review_MoveRepository st source destination move rollback =
     required_both ''repository move and rollback actions are required'' move rollback (\<lambda>_ _.
       with_locks (RepositoryRequests (store_env st) (store_root st) [source, destination] Exclusive)
         (review_MoveRepositoryLocked st source destination move rollback))"

definition moveGroup :: "merge_request store \<Rightarrow> string \<Rightarrow> string \<Rightarrow> unit io \<Rightarrow> unit io \<Rightarrow> unit io" where
  "moveGroup st sourceGroup destinationGroup move rollback =
     move_group (Wrap ''restore group directory'') st sourceGroup destinationGroup move rollback"

definition review_MoveGroupLocked ::
    "merge_request store \<Rightarrow> string \<Rightarrow> string \<Rightarrow> unit io option \<Rightarrow> unit io option \<Rightarrow> unit io" where
  "review_MoveGroupLocked st sourceGroup destinationGroup move rollback =
     required_both ''group move and rollback actions are required'' move rollback (\<lambda>move rollback.
       with_locks (group_locks st [sourceGroup, destinationGroup])
         (moveGroup st sourceGroup destinationGroup move rollback))"

definition review_MoveGroup ::
    "merge_request store \<Rightarrow> string \<Rightarrow> string \<Rightarrow> unit io option \<Rightarrow> unit io option \<Rightarrow> unit io" where
  "review_MoveGroup st sourceGroup destinationGroup move rollback =
     required_both ''group move and rollback actions are required'' move rollback (\<lambda>_ _.
       with_locks (GroupRequests (store_env st) (store_root st) [sourceGroup, destinationGroup] Exclusive)
         (review_MoveGroupLocked st sourceGroup destinationGroup move rollback))"

definition review_lockRepositories :: "merge_request store \<Rightarrow> repository list \<Rightarrow> request list result" where
  "review_lockRepositories st repositories = normalizeRequests (repository_locks st repositories)"

definition review_lockGroups :: "merge_request store \<Rightarrow> string list \<Rightarrow> request list result" where
  "review_lockGroups st grps = normalizeRequests (group_locks st grps)"

text \<open>The locks the merge code takes: the requests as the lock manager acquires them.\<close>

definition AcquireMergeLock :: "merge_request store \<Rightarrow> repository \<Rightarrow> request list result" where
  "AcquireMergeLock st repo =
     bindr (validateRepository repo) (\<lambda>_.
       normalizeRequests [MergeRequest (store_env st) (store_root st) repo])"

definition AcquireOperationLock :: "merge_request store \<Rightarrow> request list result" where
  "AcquireOperationLock st = normalizeRequests [CatalogRequest (store_env st) (store_root st) Exclusive]"

section \<open>Well-formed merge requests\<close>

definition wf_approval :: "string \<Rightarrow> approval \<Rightarrow> bool" where
  "wf_approval author a \<longleftrightarrow> TrimSpace (ApprovalAuthor a) \<noteq> [] \<and> TrimSpace (ApprovalHeadCommit a) \<noteq> [] \<and>
     \<not> IsZero (ApprovalCreatedAt a) \<and> validCommitHash (ApprovalHeadCommit a) \<and>
     (SelfApproval a \<longleftrightarrow> ApprovalAuthor a = author)"

definition wf_thread_comment :: "review_comment \<Rightarrow> bool" where
  "wf_thread_comment c \<longleftrightarrow> 0 < CommentID c \<and> TrimSpace (CommentAuthor c) \<noteq> [] \<and> TrimSpace (CommentBody c) \<noteq> [] \<and>
     \<not> IsZero (CommentCreatedAt c)"

definition wf_thread :: "thread \<Rightarrow> bool" where
  "wf_thread t \<longleftrightarrow> 0 < ThreadID t \<and> \<not> IsZero (ThreadCreatedAt t) \<and>
     (if Resolved t then TrimSpace (ResolvedBy t) \<noteq> [] \<and> ResolvedAt t \<noteq> None
      else ResolvedBy t = [] \<and> ResolvedAt t = None) \<and>
     (\<exists>cs. ThreadComments t = Some cs \<and> distinct (map CommentID cs) \<and> (\<forall>c\<in>set cs. wf_thread_comment c))"

definition not_merged :: "merge_request \<Rightarrow> bool" where
  "not_merged r \<longleftrightarrow> MergedCommit r = [] \<and> MergedStrategy r = [] \<and> MergedBy r = [] \<and> MergedAt r = None"

definition not_closed :: "merge_request \<Rightarrow> bool" where
  "not_closed r \<longleftrightarrow> ClosedBy r = [] \<and> ClosedAt r = None"

definition wf_completion :: "merge_request \<Rightarrow> bool" where
  "wf_completion r \<longleftrightarrow>
     (State r = StateOpen \<and> not_merged r \<and> not_closed r) \<or>
     (State r = StateClosed \<and> not_merged r \<and> TrimSpace (ClosedBy r) \<noteq> [] \<and> ClosedAt r \<noteq> None) \<or>
     (State r = StateMerged \<and> not_closed r \<and> TrimSpace (MergedCommit r) \<noteq> [] \<and> validCommitHash (MergedCommit r) \<and>
      TrimSpace (MergedStrategy r) \<noteq> [] \<and> TrimSpace (MergedBy r) \<noteq> [] \<and> MergedAt r \<noteq> None)"

text \<open>
  A merge claim is complete or absent, on an open request only; a planned result is complete or
  absent, and needs a claim.
\<close>

definition no_plan :: "merge_request \<Rightarrow> bool" where
  "no_plan r \<longleftrightarrow> MergeTargetCommit r = [] \<and> MergeResultCommit r = [] \<and> MergeResultStrategy r = []"

definition wf_claim :: "merge_request \<Rightarrow> bool" where
  "wf_claim r \<longleftrightarrow>
     (\<not> MergeInProgress r \<and> no_plan r \<and> MergeClaimID r = [] \<and> MergeOwnerID r = [] \<and> MergeHeadCommit r = [] \<and>
      MergeStartedBy r = [] \<and> MergeStartedAt r = None) \<or>
     (MergeInProgress r \<and> State r = StateOpen \<and> MergeClaimID r \<noteq> [] \<and> MergeOwnerID r \<noteq> [] \<and>
      validCommitHash (MergeHeadCommit r) \<and> MergeStartedBy r \<noteq> [] \<and> MergeStartedAt r \<noteq> None \<and>
      (no_plan r \<or> (validCommitHash (MergeTargetCommit r) \<and> validCommitHash (MergeResultCommit r) \<and>
         MergeResultStrategy r \<in> {''already-up-to-date'', ''fast-forward'', ''merge-commit''})))"

definition wf_merge_request :: "repository \<Rightarrow> nat \<Rightarrow> merge_request \<Rightarrow> bool" where
  "wf_merge_request repo rid r \<longleftrightarrow>
     0 < rid \<and> ID r = rid \<and> Repository r = Full repo \<and> TrimSpace (Title r) \<noteq> [] \<and>
     TrimSpace (Target r) \<noteq> [] \<and> TrimSpace (Source r) \<noteq> [] \<and> Target r \<noteq> Source r \<and> TrimSpace (Author r) \<noteq> [] \<and>
     \<not> IsZero (CreatedAt r) \<and> \<not> IsZero (UpdatedAt r) \<and> \<not> Before (UpdatedAt r) (CreatedAt r) \<and>
     TrimSpace (BaseCommit r) \<noteq> [] \<and> validCommitHash (BaseCommit r) \<and>
     TrimSpace (HeadCommit r) \<noteq> [] \<and> validCommitHash (HeadCommit r) \<and> 1 \<le> RequiredApprovals r \<and>
     (\<exists>as. Approvals r = Some as \<and> distinct (map ApprovalAuthor as) \<and> (\<forall>a\<in>set as. wf_approval (Author r) a)) \<and>
     (\<exists>ts. Threads r = Some ts \<and> distinct (map ThreadID ts) \<and> (\<forall>t\<in>set ts. wf_thread t)) \<and>
     wf_completion r \<and> wf_claim r"

lemma validate_approvals_iff:
  "validate_approvals author i seen as = Inr () \<longleftrightarrow> distinct (map ApprovalAuthor as) \<and>
     (\<forall>a\<in>set as. wf_approval author a \<and> ApprovalAuthor a \<notin> set seen)"
  by (induction as arbitrary: i seen) (auto simp: wf_approval_def image_iff)

lemma validate_thread_comments_iff:
  "validate_thread_comments tid i seen cs = Inr () \<longleftrightarrow> distinct (map CommentID cs) \<and>
     (\<forall>c\<in>set cs. wf_thread_comment c \<and> CommentID c \<notin> set seen)"
  by (induction cs arbitrary: i seen) (auto simp: wf_thread_comment_def image_iff)

lemma validate_resolution_iff:
  "validate_resolution t = Inr () \<longleftrightarrow>
     (if Resolved t then TrimSpace (ResolvedBy t) \<noteq> [] \<and> ResolvedAt t \<noteq> None
      else ResolvedBy t = [] \<and> ResolvedAt t = None)"
  by (simp add: validate_resolution_def)

lemma validate_threads_iff:
  "validate_threads i seen ts = Inr () \<longleftrightarrow> distinct (map ThreadID ts) \<and>
     (\<forall>t\<in>set ts. wf_thread t \<and> ThreadID t \<notin> set seen)"
proof (induction ts arbitrary: i seen)
  case (Cons t ts)
  have "validate_threads i seen (t # ts) = Inr () \<longleftrightarrow>
      wf_thread t \<and> ThreadID t \<notin> set seen \<and> validate_threads (i + 1) (ThreadID t # seen) ts = Inr ()"
    by (auto simp: unit_result_bind validate_resolution_iff validate_thread_comments_iff wf_thread_def split: option.split)
  then show ?case unfolding Cons.IH by (auto simp: image_iff)
qed simp

lemma validate_completion_iff:
  "State r \<in> {StateOpen, StateClosed, StateMerged} \<Longrightarrow> validate_completion r = Inr () \<longleftrightarrow> wf_completion r"
  by (elim insertE) (auto simp: validate_completion_def wf_completion_def not_merged_def not_closed_def)

lemma validate_claim_iff: "validate_claim r = Inr () \<longleftrightarrow> wf_claim r"
proof (cases "MergeInProgress r")
  case True
  have "validCommitHash [] = False" by (simp add: validCommitHash_def)
  then show ?thesis
    using True by (auto simp: validate_claim_def wf_claim_def no_plan_def count_set_def Let_def)
next
  case False
  then show ?thesis by (auto simp: validate_claim_def wf_claim_def no_plan_def count_set_def Let_def)
qed

lemma review_validate_iff: "review_validate repo rid r = Inr () \<longleftrightarrow> wf_merge_request repo rid r"
proof -
  have "wf_completion r \<Longrightarrow> State r \<in> {StateOpen, StateClosed, StateMerged}"
    unfolding wf_completion_def by blast
  then show ?thesis
    unfolding review_validate_def wf_merge_request_def
    by (simp add: unit_result_bind validate_approvals_iff validate_threads_iff validate_claim_iff split: option.split)
      (auto simp: validate_completion_iff)
qed

section \<open>The store's laws\<close>

lemma review_store_simps [simp]:
  "store_root (review_store root env cd) = root" "store_env (review_store root env cd) = env"
  "store_suffix (review_store root env cd) = ''.reviews''" "noun (review_store root env cd) = ''merge request''"
  "codec (review_store root env cd) = cd" "record_id (review_store root env cd) = ID"
  "set_repository (review_store root env cd) = (\<lambda>full r. r\<lparr>Repository := full\<rparr>)"
  "normalize (review_store root env cd) = review_normalize" "validate (review_store root env cd) = review_validate"
  "repository_locks (review_store root env cd) = ReviewRepositoryRequests env root"
  "group_locks (review_store root env cd) = ReviewGroupRequests env root"
  by (simp_all add: review_store_def)

lemma normalize_thread_idem: "normalize_thread (normalize_thread t) = normalize_thread t"
  by (cases "ThreadComments t") (simp_all add: normalize_thread_def o_def)

lemma review_normalize_idem: "review_normalize (review_normalize r) = review_normalize r"
  by (cases "Approvals r"; cases "Threads r")
    (simp_all add: review_normalize_def o_def normalize_thread_idem)

interpretation reviews: record_store "review_store root env cd" for root env cd
proof
  fix repo rid r u
  assume "validate (review_store root env cd) repo rid r = Inr u"
  then show "record_id (review_store root env cd) r = rid \<and> 0 < rid"
    using review_validate_iff [of repo rid r] by (simp add: wf_merge_request_def)
qed (simp_all add: review_normalize_idem, simp_all add: review_normalize_def)

lemma review_store_rooted: "HasPrefix root ''/'' \<Longrightarrow> rooted_store (review_store root env cd)"
  by (simp add: rooted_store_def is_digit_def)

lemma review_requests_wf: "\<forall>q\<in>set (ReviewRepositoryRequests env root rs). wf_request q"
  by (auto simp: ReviewRepositoryRequests_def ReviewCatalogRequest_def reviewGroupAncestryRequests_def wf_request_def
    resourceKey_def Let_def)

lemma review_defaults_simps [simp]:
  "ID (review_defaults now repo n r) = n" "Target (review_defaults now repo n r) = Target r"
  "Source (review_defaults now repo n r) = Source r"
  by (simp_all add: review_defaults_def Let_def)

lemma review_normalize_simps [simp]:
  "ID (review_normalize r) = ID r" "Target (review_normalize r) = Target r" "Source (review_normalize r) = Source r"
  "State (review_normalize r) = State r"
  by (simp_all add: review_normalize_def)

definition review_created :: "gotime \<Rightarrow> repository \<Rightarrow> merge_request \<Rightarrow> nat \<Rightarrow> merge_request" where
  "review_created now repo request n = review_normalize (review_defaults now repo n request)"

lemma find_duplicate_iff:
  "find_duplicate target source rs = Inr () \<longleftrightarrow>
     (\<forall>r\<in>set rs. \<not> (State r = StateOpen \<and> Target r = target \<and> Source r = source))"
  by (induction rs) auto

lemma find_other_duplicate_iff:
  "find_other_duplicate r rs = Inr () \<longleftrightarrow>
     (\<forall>q\<in>set rs. \<not> (ID q \<noteq> ID r \<and> State q = StateOpen \<and> Target q = Target r \<and> Source q = Source r))"
  by (induction rs) auto

section \<open>Open requests\<close>

text \<open>No two open merge requests of a repository are for the same branches.\<close>

definition unique_open :: "(nat \<rightharpoonup> merge_request) \<Rightarrow> bool" where
  "unique_open m \<longleftrightarrow> (\<forall>a b r q. m a = Some r \<longrightarrow> m b = Some q \<longrightarrow> State r = StateOpen \<longrightarrow> State q = StateOpen \<longrightarrow>
     Target r = Target q \<longrightarrow> Source r = Source q \<longrightarrow> a = b)"

lemma unique_open_upd:
  assumes "unique_open m"
    "State r = StateOpen \<Longrightarrow> (\<And>b q. m b = Some q \<Longrightarrow> b \<noteq> k \<Longrightarrow> State q = StateOpen \<Longrightarrow> Target q = Target r \<Longrightarrow> Source q = Source r \<Longrightarrow> False)"
  shows "unique_open (m(k \<mapsto> r))"
  unfolding unique_open_def
proof (intro allI impI)
  fix a b r1 r2
  assume h: "(m(k \<mapsto> r)) a = Some r1" "(m(k \<mapsto> r)) b = Some r2" "State r1 = StateOpen" "State r2 = StateOpen"
    "Target r1 = Target r2" "Source r1 = Source r2"
  show "a = b"
  proof (cases "a = k"; cases "b = k")
    assume "a = k" "b \<noteq> k"
    with h assms(2) [of b r2] show ?thesis by simp
  next
    assume "a \<noteq> k" "b = k"
    with h assms(2) [of a r1] show ?thesis by simp
  next
    assume "a \<noteq> k" "b \<noteq> k"
    with h assms(1) show ?thesis unfolding unique_open_def by (metis fun_upd_other)
  qed simp
qed

lemma review_Create_cases:
  assumes "review_Create (review_store root env cd) now repo request s = (x, t)"
    "wf_repository repo" "HasPrefix root ''/''" "tables_ok s"
  shows "case x of
      Inl _ \<Rightarrow> same_records s t
    | Inr r \<Rightarrow> r = review_created now repo request (ID r) \<and> wf_merge_request repo (ID r) r \<and> ID r < 2 ^ 64 \<and>
        (\<forall>k q. view (review_store root env cd) repo s (store_path (review_store root env cd) repo) k = Some q \<longrightarrow>
           k < ID r \<and> \<not> (State q = StateOpen \<and> Target q = Target request \<and> Source q = Source request)) \<and>
        dir_entry s (store_path (review_store root env cd) repo) (record_name (ID r)) = None \<and>
        stored_record (review_store root env cd) repo r s t"
proof -
  let ?st = "review_store root env cd"
  have out: "case x of Inl _ \<Rightarrow> same_records s t
    | Inr r \<Rightarrow> (\<exists>n rs. r = normalize ?st (review_defaults now repo n request) \<and> record_id ?st r = n \<and> 0 < n \<and> n < 2 ^ 64 \<and>
        validate ?st repo n r = Inr () \<and> find_duplicate (Target request) (Source request) rs = Inr () \<and>
        dir_entry s (store_path ?st repo) (record_name n) = None \<and>
        (\<forall>k q. view ?st repo s (store_path ?st repo) k = Some q \<longrightarrow> k < n) \<and>
        (\<forall>k q. view ?st repo s (store_path ?st repo) k = Some q \<longleftrightarrow> q \<in> set rs \<and> record_id ?st q = k) \<and>
        stored_record ?st repo r s t)"
    using reviews.create_outcome [OF assms(1) [unfolded review_Create_def] assms(2) review_store_rooted [OF assms(3)] assms(4)]
      review_requests_wf by simp
  then show ?thesis
    by (cases x) (auto simp: review_validate_iff review_created_def find_duplicate_iff)
qed

lemma list_records_view:
  assumes "list_records (review_store root env cd) repo s = (Inr rs, t)"
    "wf_repository repo" "HasPrefix root ''/''" "tables_ok s"
  shows "view (review_store root env cd) repo s (store_path (review_store root env cd) repo) k = Some q \<longleftrightarrow>
    q \<in> set rs \<and> ID q = k"
proof -
  let ?st = "review_store root env cd"
  note rooted = review_store_rooted [OF assms(3), of env cd]
  obtain m where "scanDirectory ?st (store_path ?st repo) repo True s = (Inr (rs, m), t)"
    using assms(1) repositoryDirectory_wf [OF assms(2) rooted]
    by (auto simp: list_records_def listValid_def elim!: bindio_cases)
  from reviews.scan_view(1) [OF this store_path_facts(1) [OF assms(2) rooted] assms(4)] show ?thesis by simp
qed

lemma review_Update_cases:
  assumes "review_Update (review_store root env cd) now repo rid update s = (x, t)"
    "wf_repository repo" "HasPrefix root ''/''" "tables_ok s"
  shows "case x of
      Inl _ \<Rightarrow> same_records s t
    | Inr r \<Rightarrow> wf_merge_request repo rid r \<and> review_normalize r = r \<and> UpdatedAt r = UTC now \<and>
        (\<exists>old changed s1. get_record (review_store root env cd) repo rid s = (Inr old, s1) \<and> update old = Inr changed \<and>
           r = review_normalize (changed\<lparr>UpdatedAt := UTC now\<rparr>)) \<and>
        (State r = StateOpen \<longrightarrow>
          (\<forall>k q. view (review_store root env cd) repo s (store_path (review_store root env cd) repo) k = Some q \<longrightarrow>
             k \<noteq> rid \<longrightarrow> \<not> (State q = StateOpen \<and> Target q = Target r \<and> Source q = Source r))) \<and>
        stored_record (review_store root env cd) repo r s t"
proof -
  let ?st = "review_store root env cd"
  let ?change = "\<lambda>request. bindr (update request) (\<lambda>updated. Inr (updated\<lparr>UpdatedAt := UTC now\<rparr>))"
  let ?check = "\<lambda>request. if State request = StateOpen
          then bindio (list_records ?st repo) (\<lambda>existing. lift_io (find_other_duplicate request existing))
          else return_io ()"
  have q: "quiet (?check r)" for r by (auto intro!: quiet_bind)
  have out: "case x of Inl _ \<Rightarrow> same_records s t
    | Inr r \<Rightarrow> (\<exists>old changed s1 s2. get_record ?st repo rid s = (Inr old, s1) \<and> ?change old = Inr changed \<and>
        r = normalize ?st changed \<and> validate ?st repo rid r = Inr () \<and> record_id ?st r = rid \<and> 0 < rid \<and>
        ?check r s1 = (Inr (), s2) \<and> stored_record ?st repo r s t)"
    using reviews.update_outcome [OF assms(1) [unfolded review_Update_def] assms(2) review_store_rooted [OF assms(3)] _ q]
      review_requests_wf by simp
  show ?thesis
  proof (cases x)
    case (Inl e)
    then show ?thesis using out by simp
  next
    case (Inr r)
    from out [unfolded Inr sum.case]
    obtain old c s1 s2 where o: "get_record ?st repo rid s = (Inr old, s1)" "?change old = Inr c"
      "r = normalize ?st c" "validate ?st repo rid r = Inr ()" "record_id ?st r = rid"
      "?check r s1 = (Inr (), s2)" "stored_record ?st repo r s t"
      by (elim exE conjE)
    obtain changed where ch: "update old = Inr changed" "c = changed\<lparr>UpdatedAt := UTC now\<rparr>"
      using o(2) by (cases "update old") simp_all
    have r: "get_record ?st repo rid s = (Inr old, s1)" "update old = Inr changed"
      "r = review_normalize (changed\<lparr>UpdatedAt := UTC now\<rparr>)" "review_validate repo rid r = Inr ()" "ID r = rid"
      "?check r s1 = (Inr (), s2)" "stored_record ?st repo r s t"
      using o(1,6,7) ch(1) o(3-5) [unfolded ch(2)] by simp_all
    have same: "same_records s s1" by (rule same_records_quiet [OF quiet_get_record r(1)])
    have "\<not> (State q = StateOpen \<and> Target q = Target r \<and> Source q = Source r)"
      if op: "State r = StateOpen" and that: "view ?st repo s (store_path ?st repo) k = Some q" "k \<noteq> rid" for k q
    proof -
      obtain rs where rs: "list_records ?st repo s1 = (Inr rs, s2)" "find_other_duplicate r rs = Inr ()"
        using r(6) op by (auto elim!: bindio_cases)
      have "tables_ok s1" using same assms(4) by (simp add: same_records_def)
      from list_records_view [OF rs(1) assms(2,3) this] that(1) have "q \<in> set rs" "ID q = k"
        by (simp_all add: same_records_view [OF same])
      then show ?thesis using rs(2) that(2) r(5) unfolding find_other_duplicate_iff by auto
    qed
    moreover have "UpdatedAt r = UTC now" by (simp add: r(3) review_normalize_def)
    moreover have "wf_merge_request repo rid r" using r(4) review_validate_iff by simp
    moreover have "review_normalize r = r" by (simp add: r(3) review_normalize_idem)
    moreover have "\<exists>old changed s1. get_record ?st repo rid s = (Inr old, s1) \<and> update old = Inr changed \<and>
        r = review_normalize (changed\<lparr>UpdatedAt := UTC now\<rparr>)"
      by (intro exI conjI, rule r(1), rule r(2), rule r(3))
    ultimately show ?thesis unfolding Inr sum.case using r(7) by simp
  qed
qed

section \<open>Normal form\<close>

text \<open>The invariant the normaliser establishes: every time in UTC, no nil slice.\<close>

definition normalized_thread :: "thread \<Rightarrow> bool" where
  "normalized_thread t \<longleftrightarrow> in_utc (ThreadCreatedAt t) \<and> pred_option in_utc (ResolvedAt t) \<and>
     (\<exists>cs. ThreadComments t = Some cs \<and> (\<forall>c\<in>set cs. in_utc (CommentCreatedAt c)))"

definition normalized_request :: "merge_request \<Rightarrow> bool" where
  "normalized_request r \<longleftrightarrow> in_utc (CreatedAt r) \<and> in_utc (UpdatedAt r) \<and> pred_option in_utc (MergedAt r) \<and>
     pred_option in_utc (ClosedAt r) \<and> pred_option in_utc (MergeStartedAt r) \<and>
     (\<exists>as. Approvals r = Some as \<and> (\<forall>a\<in>set as. in_utc (ApprovalCreatedAt a))) \<and>
     (\<exists>ts. Threads r = Some ts \<and> (\<forall>t\<in>set ts. normalized_thread t))"

lemma map_option_UTC_id: "pred_option in_utc x \<Longrightarrow> map_option UTC x = x"
  by (cases x) (simp_all add: UTC_id)

lemma pred_option_UTC [simp]: "pred_option in_utc (map_option UTC x)"
  by (cases x) simp_all

lemma normalized_thread_normalize: "normalized_thread (normalize_thread t)"
  by (cases "ThreadComments t") (auto simp: normalized_thread_def normalize_thread_def)

lemma normalize_thread_id: "normalized_thread t \<Longrightarrow> normalize_thread t = t"
proof -
  assume n: "normalized_thread t"
  obtain cs where cs: "ThreadComments t = Some cs" "\<forall>c\<in>set cs. in_utc (CommentCreatedAt c)"
    using n unfolding normalized_thread_def by blast
  have "map (\<lambda>c. c\<lparr>CommentCreatedAt := UTC (CommentCreatedAt c)\<rparr>) cs = cs"
    using cs(2) by (simp add: map_idI UTC_id [THEN iffD2])
  then show ?thesis using n cs(1) unfolding normalized_thread_def
    by (simp add: normalize_thread_def map_option_UTC_id UTC_id [THEN iffD2])
qed

lemma normalized_normalize: "normalized_request (review_normalize r)"
  by (cases "Approvals r"; cases "Threads r")
    (auto simp: normalized_request_def review_normalize_def normalized_thread_normalize)

lemma normalize_id_iff: "review_normalize r = r \<longleftrightarrow> normalized_request r"
proof
  assume "review_normalize r = r"
  then show "normalized_request r" using normalized_normalize [of r] by simp
next
  assume n: "normalized_request r"
  obtain as ts where a: "Approvals r = Some as" "\<forall>a\<in>set as. in_utc (ApprovalCreatedAt a)"
    "Threads r = Some ts" "\<forall>t\<in>set ts. normalized_thread t"
    using n unfolding normalized_request_def by blast
  have "map (\<lambda>a. a\<lparr>ApprovalCreatedAt := UTC (ApprovalCreatedAt a)\<rparr>) as = as"
    using a(2) by (simp add: map_idI UTC_id [THEN iffD2])
  moreover have "map normalize_thread ts = ts" using a(4) by (simp add: map_idI normalize_thread_id)
  ultimately show "review_normalize r = r"
    using n a(1,3) unfolding normalized_request_def
    by (simp add: review_normalize_def map_option_UTC_id UTC_id [THEN iffD2])
qed

section \<open>Texts of any length\<close>

definition sample_hash :: string where
  "sample_hash = replicate 40 (CHR ''0'')"

lemma sample_hash_plain: "TrimSpace sample_hash = sample_hash" "validCommitHash sample_hash" "sample_hash \<noteq> []"
proof -
  show "TrimSpace sample_hash = sample_hash" by (rule TrimSpace_plain) (simp add: sample_hash_def plain_char_def list_all_iff)
  show "validCommitHash sample_hash" by (simp add: validCommitHash_def sample_hash_def list_all_iff is_hex_def)
  show "sample_hash \<noteq> []" by (simp add: sample_hash_def)
qed

definition long_comment :: "nat \<Rightarrow> review_comment" where
  "long_comment n = \<lparr>CommentID = 1, CommentAuthor = ''a'', CommentBody = replicate (Suc n) (CHR ''x''),
     CommentCreatedAt = sample_time\<rparr>"

definition long_thread :: "nat \<Rightarrow> thread" where
  "long_thread n = \<lparr>ThreadID = 1, ThreadCreatedAt = sample_time, Resolved = False, ResolvedBy = [], ResolvedAt = None,
     ThreadComments = Some [long_comment n]\<rparr>"

definition long_request :: "string \<Rightarrow> nat \<Rightarrow> merge_request" where
  "long_request full n = \<lparr>ID = 1, Repository = full, Title = replicate (Suc n) (CHR ''x''),
     Description = replicate n (CHR ''x''), Target = ''main'', Source = ''dev'',
     Author = ''a'', State = StateOpen, CreatedAt = sample_time, UpdatedAt = sample_time, BaseCommit = sample_hash,
     HeadCommit = sample_hash, RequiredApprovals = 1, Approvals = Some [], Threads = Some [long_thread n], MergedCommit = [],
     MergedStrategy = [], MergedBy = [], MergedAt = None, ClosedBy = [], ClosedAt = None, MergeInProgress = False,
     MergeClaimID = [], MergeOwnerID = [], MergeHeadCommit = [], MergeTargetCommit = [], MergeResultCommit = [],
     MergeResultStrategy = [], MergeStartedBy = [], MergeStartedAt = None\<rparr>"

lemma long_request_wf: "wf_merge_request repo 1 (long_request (Full repo) n)"
proof -
  have "TrimSpace ''a'' = ''a''" "TrimSpace ''main'' = ''main''" "TrimSpace ''dev'' = ''dev''"
    by (rule TrimSpace_plain; simp add: plain_char_def)+
  moreover have "TrimSpace (replicate (Suc n) (CHR ''x'')) = replicate (Suc n) (CHR ''x'')"
    by (rule TrimSpace_plain) (simp add: plain_char_def list_all_iff)
  moreover have "wf_thread (long_thread n)"
    using calculation by (simp add: wf_thread_def long_thread_def wf_thread_comment_def long_comment_def IsZero_def sample_time_def)
  ultimately show ?thesis
    by (simp add: wf_merge_request_def long_request_def sample_hash_plain IsZero_def Before_def sample_time_def
      wf_completion_def not_merged_def not_closed_def wf_claim_def no_plan_def)
qed

lemma long_request_accepted:
  "\<exists>q t c. review_validate repo 1 q = Inr () \<and> length (Title q) = Suc n \<and> length (Description q) = n \<and>
     Threads q = Some [t] \<and> ThreadComments t = Some [c] \<and> length (CommentBody c) = Suc n"
proof (intro exI conjI)
  show "review_validate repo 1 (long_request (Full repo) n) = Inr ()"
    unfolding review_validate_iff by (rule long_request_wf)
  show "ThreadComments (long_thread n) = Some [long_comment n]" by (simp add: long_thread_def)
qed (simp_all add: long_request_def long_comment_def)

lemma description_unchecked: "review_validate repo rid (r\<lparr>Description := d\<rparr>) = review_validate repo rid r"
proof -
  have "validate_completion (r\<lparr>Description := d\<rparr>) = validate_completion r"
    "validate_claim (r\<lparr>Description := d\<rparr>) = validate_claim r"
    by (cases r; simp only: validate_completion_def validate_claim_def merge_request.simps)+
  then show ?thesis by (cases r) (simp only: review_validate_def merge_request.simps)
qed

section \<open>Properties\<close>

text \<open>
  Property C31. The merge request validator accepts exactly the well-formed requests: different
  non-blank branches, complete commit hashes, at most one approval per person with the override
  flag set exactly for the author's own, consistent threads, the completion fields its state asks
  for and no others, and a merge claim that is complete or absent, on an open request only. It
  puts no bound on the length of any text: the description has no part in the verdict at all, and for
  every length there is an accepted request whose title, description and comment body are that long.
  The comment in \<^verbatim>\<open>src/internal/issue/model.go\<close> that the review store enforces limits on the title and
  body of a merge request is therefore not true of this validator; what the store bounds is the whole
  encoded record, at eight mebibytes, when it writes it.
\<close>

theorem review_validate_exact:
  "(review_validate repo rid r = Inr () \<longleftrightarrow> wf_merge_request repo rid r) \<and>
   review_validate repo rid (r\<lparr>Description := d\<rparr>) = review_validate repo rid r \<and>
   (\<exists>q t c. review_validate repo 1 q = Inr () \<and> length (Title q) = Suc n \<and> length (Description q) = n \<and>
      Threads q = Some [t] \<and> ThreadComments t = Some [c] \<and> length (CommentBody c) = Suc n)"
proof (intro conjI)
  show "review_validate repo rid r = Inr () \<longleftrightarrow> wf_merge_request repo rid r" by (rule review_validate_iff)
  show "review_validate repo rid (r\<lparr>Description := d\<rparr>) = review_validate repo rid r" by (rule description_unchecked)
  show "\<exists>q t c. review_validate repo 1 q = Inr () \<and> length (Title q) = Suc n \<and> length (Description q) = n \<and>
      Threads q = Some [t] \<and> ThreadComments t = Some [c] \<and> length (CommentBody c) = Suc n"
    by (rule long_request_accepted)
qed

text \<open>
  Property C32. The normaliser brings every request into normal form (all times in UTC, no nil
  slices), and the requests it leaves as they are are exactly those in normal form.
\<close>

theorem review_normalize_form:
  "normalized_request (review_normalize r) \<and> (review_normalize r = r \<longleftrightarrow> normalized_request r)"
  by (intro conjI normalized_normalize normalize_id_iff)

text \<open>
  Further property. A second open request for the same branches is refused: without faults, in an
  existing repository, creating it returns the duplicate error for a stored open request with
  these branches, and changes nothing.
\<close>

theorem review_Create_refuses_duplicate:
  assumes "faults s = []" "wf_repository repo" "HasPrefix root ''/''" "tables_ok s"
    "dir_at s (git_path (review_store root env cd) repo) \<noteq> None"
    "store_path (review_store root env cd) repo \<notin> set (plain_files s)"
    "view (review_store root env cd) repo s (store_path (review_store root env cd) repo) k = Some q"
    "State q = StateOpen" "Target q = Target request" "Source q = Source request"
  shows "\<exists>k' q'. view (review_store root env cd) repo s (store_path (review_store root env cd) repo) k' = Some q' \<and>
    State q' = StateOpen \<and> Target q' = Target request \<and> Source q' = Source request \<and>
    review_Create (review_store root env cd) now repo request s = (Inl (duplicate_error q'), s)"
proof -
  let ?st = "review_store root env cd"
  note rooted = review_store_rooted [OF assms(3), of env cd]
  note path = store_path_facts(1) [OF assms(2) rooted]
  obtain rs m where sc: "scanDirectory ?st (store_path ?st repo) repo True s = (Inr (rs, m), s)"
    using scanDirectory_ok [OF assms(1) path assms(4,6)] by blast
  note v = reviews.scan_view(1) [OF sc path assms(4)]
  have dup: "\<exists>q'\<in>set rs. find_duplicate target source rs = Inl (duplicate_error q') \<and> State q' = StateOpen \<and>
      Target q' = target \<and> Source q' = source"
    if "q \<in> set rs" "State q = StateOpen" "Target q = target" "Source q = source" for rs target source
    using that by (induction rs) auto
  have "q \<in> set rs" using v [THEN iffD1, OF assms(7)] by simp
  from dup [OF this assms(8-10)] obtain q' where q': "q' \<in> set rs"
    "find_duplicate (Target request) (Source request) rs = Inl (duplicate_error q')" "State q' = StateOpen"
    "Target q' = Target request" "Source q' = Source request" by blast
  have g: "require_repository ?st repo s = (Inr (), s)"
    using assms(1,5) repositoryGitDirectory_wf [OF assms(2) rooted]
    by (simp add: require_repository_def bindio_attempt Stat_def)
  have "listValid ?st repo s = (Inr (rs, m), s)"
    using sc repositoryDirectory_wf [OF assms(2) rooted] by (simp add: listValid_def)
  then have "review_Create ?st now repo request s = (Inl (duplicate_error q'), s)"
    using g q'(2)
    by (simp add: review_Create_def create_record_def with_locks_wf review_requests_wf bindio_def)
  moreover have "view ?st repo s (store_path ?st repo) (ID q') = Some q'" using v [of "ID q'" q'] q'(1) by simp
  ultimately show ?thesis using q' by blast
qed

text \<open>
  Further property. Relocating merge requests refines moving a map, with the same outcomes as for
  issues under every pattern of faults.
\<close>

theorem review_Relocate_refines:
  assumes "review_Relocate root env cd repo dest s = (x, t)" "wf_repository repo" "wf_repository dest"
    "repo \<noteq> dest" "HasPrefix root ''/''" "tables_ok s"
    "\<forall>rid r. view (review_store root env cd) repo s (store_path (review_store root env cd) repo) rid = Some r \<longrightarrow>
       reproduces cd (review_normalize (r\<lparr>Repository := Full dest\<rparr>))"
  shows "relocated (review_store root env cd) repo dest x s t"
  by (rule reviews.Relocate_outcome [OF assms(1) [unfolded review_Relocate_def] assms(2-4) review_store_rooted [OF assms(5)] assms(6)])
    (use review_requests_wf assms(7) in \<open>simp_all add: rewritten_def\<close>)

section \<open>Instances\<close>

definition sample_request :: merge_request where
  "sample_request = \<lparr>ID = 1, Repository = ''g/r'', Title = ''t'', Description = [], Target = ''main'', Source = ''dev'',
     Author = ''a'', State = StateOpen, CreatedAt = sample_time, UpdatedAt = sample_time, BaseCommit = sample_hash,
     HeadCommit = sample_hash, RequiredApprovals = 1, Approvals = Some [], Threads = Some [], MergedCommit = [],
     MergedStrategy = [], MergedBy = [], MergedAt = None, ClosedBy = [], ClosedAt = None, MergeInProgress = False,
     MergeClaimID = [], MergeOwnerID = [], MergeHeadCommit = [], MergeTargetCommit = [], MergeResultCommit = [],
     MergeResultStrategy = [], MergeStartedBy = [], MergeStartedAt = None\<rparr>"

text \<open>An encoding of the sample request with any repository: the repository.\<close>

definition review_sample_codec :: "merge_request codec" where
  "review_sample_codec = \<lparr>marshal = (\<lambda>r. if r\<lparr>Repository := ''g/r''\<rparr> = sample_request then Inr (Repository r)
       else Inl (Errorf ''unknown request'')),
     decode_first = (\<lambda>c. Inr (sample_request\<lparr>Repository := butlast c\<rparr>)), decode_rest = (\<lambda>_. None)\<rparr>"

definition review_sample_fs :: file_system where
  "review_sample_fs =
     \<lparr>dirs = [(''/g/r.git'', []), (''/g/r.reviews'', [(record_name 1, Regular (''g/r'' @ [CHR 0x0A]))])],
      plain_files = [], faults = []\<rparr>"

abbreviation review_sample_store :: "merge_request store" where
  "review_sample_store \<equiv> review_store ''/'' sample_locks review_sample_codec"

lemma sample_request_wf: "wf_merge_request sample_repo 1 sample_request"
proof -
  have "TrimSpace ''t'' = ''t''" "TrimSpace ''a'' = ''a''" "TrimSpace ''main'' = ''main''" "TrimSpace ''dev'' = ''dev''"
    by (rule TrimSpace_plain; simp add: plain_char_def)+
  then show ?thesis
    by (simp add: wf_merge_request_def sample_request_def sample_hash_plain IsZero_def Before_def sample_time_def
      Full_def Group_def sample_repo_def wf_completion_def not_merged_def not_closed_def wf_claim_def no_plan_def)
qed

lemma review_sample_reproduces: "reproduces review_sample_codec r"
proof -
  have "sample_request\<lparr>Repository := Repository r\<rparr> = r" if "r\<lparr>Repository := ''g/r''\<rparr> = sample_request"
    unfolding that [symmetric] by simp
  then show ?thesis by (simp add: reproduces_def review_sample_codec_def)
qed

lemma review_sample_path:
  "store_path review_sample_store sample_repo = ''/g/r.reviews''" "git_path review_sample_store sample_repo = ''/g/r.git''"
  by (simp_all add: store_path_def git_path_def sample_repo_def rooted_clean_def rooted_path_def)

lemma review_sample_ok: "tables_ok review_sample_fs" "faults review_sample_fs = []" "plain_files review_sample_fs = []"
  "dir_at review_sample_fs ''/g/r.git'' \<noteq> None"
  by (simp_all add: tables_ok_def review_sample_fs_def dir_at_def)

lemma review_sample_decode:
  "decode_record review_sample_store sample_repo rid (''g/r'' @ [CHR 0x0A]) = Inr r \<longleftrightarrow> rid = 1 \<and> r = sample_request"
proof -
  have "decode_first review_sample_codec (''g/r'' @ [CHR 0x0A]) = Inr sample_request"
    by (simp add: review_sample_codec_def sample_request_def)
  moreover have "review_validate sample_repo rid sample_request = Inr () \<longleftrightarrow> rid = 1"
    using sample_request_wf unfolding review_validate_iff by (auto simp: wf_merge_request_def)
  ultimately show ?thesis
    by (auto simp: decode_record_def review_sample_codec_def split: sum.splits)
qed

lemma review_sample_view:
  "view review_sample_store sample_repo review_sample_fs (store_path review_sample_store sample_repo) rid = Some r \<longleftrightarrow>
     rid = 1 \<and> r = sample_request"
proof -
  have "dir_entry review_sample_fs ''/g/r.reviews'' (record_name rid) =
      (if rid = 1 then Some (Regular (''g/r'' @ [CHR 0x0A])) else None)"
    by (simp add: dir_entry_def dir_at_def review_sample_fs_def)
  then show ?thesis
    unfolding view_iff review_sample_path using review_sample_decode [of rid r] by auto
qed

theorem review_Create_refuses_duplicate_witness:
  "review_Create review_sample_store sample_time sample_repo sample_request review_sample_fs =
     (Inl (duplicate_error sample_request), review_sample_fs)"
proof -
  have v: "view review_sample_store sample_repo review_sample_fs (store_path review_sample_store sample_repo) 1 = Some sample_request"
    using review_sample_view by simp
  have "dir_at review_sample_fs (git_path review_sample_store sample_repo) \<noteq> None"
    "store_path review_sample_store sample_repo \<notin> set (plain_files review_sample_fs)"
    using review_sample_ok by (simp_all add: review_sample_path)
  from review_Create_refuses_duplicate [OF review_sample_ok(2) sample_repo_wf(1) sample_rooted review_sample_ok(1) this v, of sample_request sample_time]
  show ?thesis by (auto simp: review_sample_view sample_request_def)
qed

theorem review_Relocate_refines_witness:
  "\<exists>x t. review_Relocate ''/'' sample_locks review_sample_codec sample_repo other_repo review_sample_fs = (x, t) \<and>
     relocated review_sample_store sample_repo other_repo x review_sample_fs t"
proof -
  obtain x t where run: "review_Relocate ''/'' sample_locks review_sample_codec sample_repo other_repo review_sample_fs = (x, t)"
    by fastforce
  have ne: "sample_repo \<noteq> other_repo" by (simp add: sample_repo_def other_repo_def)
  from review_Relocate_refines [OF run sample_repo_wf ne sample_rooted review_sample_ok(1)] run show ?thesis
    using review_sample_reproduces by blast
qed

end
