(* ===== verification/ReviewOpen.thy ===== *)
theory ReviewOpen
  imports Review
begin

text \<open>
  Open merge requests across everything that writes them: what \<^verbatim>\<open>encoding/json\<close> does to the strings
  of a request, the steps of the store and of the code that moves its directories, and the invariant
  that no directory holds two open requests for the same branches. At the end, a codec that satisfies
  the hypothesis on \<^verbatim>\<open>encoding/json\<close> for every request.
\<close>

section \<open>UTF-8\<close>

text \<open>
  \<open>rune_length\<close> is the number of bytes of the encoded character a byte string starts with, by the
  table of well-formed sequences of \<^verbatim>\<open>unicode/utf8\<close>, and 0 if it starts with none.
\<close>

definition byte_in :: "nat \<Rightarrow> nat \<Rightarrow> char \<Rightarrow> bool" where
  "byte_in lo hi c \<longleftrightarrow> lo \<le> of_char c \<and> of_char c \<le> hi"

fun rune_length :: "string \<Rightarrow> nat" where
  "rune_length [] = 0"
| "rune_length (a # s) =
     (if byte_in 0x00 0x7F a then 1 else case s of [] \<Rightarrow> 0 | b # s \<Rightarrow>
      if byte_in 0xC2 0xDF a then (if byte_in 0x80 0xBF b then 2 else 0) else case s of [] \<Rightarrow> 0 | c # s \<Rightarrow>
      if byte_in 0xE0 0xEF a then
        (if byte_in (if byte_in 0xE0 0xE0 a then 0xA0 else 0x80) (if byte_in 0xED 0xED a then 0x9F else 0xBF) b \<and>
            byte_in 0x80 0xBF c then 3 else 0)
      else case s of [] \<Rightarrow> 0 | d # _ \<Rightarrow>
      if byte_in 0xF0 0xF4 a \<and>
        byte_in (if byte_in 0xF0 0xF0 a then 0x90 else 0x80) (if byte_in 0xF4 0xF4 a then 0x8F else 0xBF) b \<and>
        byte_in 0x80 0xBF c \<and> byte_in 0x80 0xBF d then 4 else 0)"

text \<open>
  The coercion of a string to valid UTF-8 when it is encoded or decoded: every byte that belongs to no
  encoded character becomes the replacement character U+FFFD.
\<close>

definition replacement :: string where
  "replacement = [CHR 0xEF, CHR 0xBF, CHR 0xBD]"

function coerce_utf8 :: "string \<Rightarrow> string" where
  "coerce_utf8 s =
     (if s = [] then []
      else if rune_length s = 0 then replacement @ coerce_utf8 (drop 1 s)
      else take (rune_length s) s @ coerce_utf8 (drop (rune_length s) s))"
  by pat_completeness auto

termination
  by (relation "measure length") (auto simp: length_greater_0_conv)

declare coerce_utf8.simps [simp del]

definition valid_utf8 :: "string \<Rightarrow> bool" where
  "valid_utf8 s \<longleftrightarrow> coerce_utf8 s = s"

lemma rune_length_le: "rune_length s \<le> length s"
  by (cases s rule: rune_length.cases) (auto split: list.split)

lemma rune_length_ext: "rune_length s \<noteq> 0 \<Longrightarrow> rune_length (take (rune_length s) s @ t) = rune_length s"
  by (cases s rule: rune_length.cases) (auto split: list.split_asm if_split_asm)

lemma rune_length_replacement: "rune_length (replacement @ t) = 3"
  by (simp add: replacement_def byte_in_def)

lemma coerce_Nil [simp]: "coerce_utf8 [] = []"
  by (simp add: coerce_utf8.simps)

lemma coerce_rune:
  assumes "rune_length (r @ t) = length r" "r \<noteq> []"
  shows "coerce_utf8 (r @ t) = r @ coerce_utf8 t"
  using assms by (subst coerce_utf8.simps) simp

lemma coerce_valid [simp]: "valid_utf8 (coerce_utf8 s)"
proof (induction s rule: coerce_utf8.induct)
  case (1 s)
  consider "s = []" | "s \<noteq> []" "rune_length s = 0" | "s \<noteq> []" "rune_length s \<noteq> 0" by blast
  then show ?case
  proof cases
    case 1
    then show ?thesis by (simp add: valid_utf8_def)
  next
    case 2
    then have c: "coerce_utf8 s = replacement @ coerce_utf8 (drop 1 s)" by (subst coerce_utf8.simps) simp
    have "coerce_utf8 (replacement @ coerce_utf8 (drop 1 s)) = replacement @ coerce_utf8 (coerce_utf8 (drop 1 s))"
      by (rule coerce_rune) (simp_all only: rune_length_replacement, simp_all add: replacement_def)
    then show ?thesis using "1.IH"(1) [OF 2] by (simp add: valid_utf8_def c)
  next
    case 3
    let ?n = "rune_length s"
    have c: "coerce_utf8 s = take ?n s @ coerce_utf8 (drop ?n s)" using 3 by (subst coerce_utf8.simps) simp
    have "coerce_utf8 (take ?n s @ coerce_utf8 (drop ?n s)) = take ?n s @ coerce_utf8 (coerce_utf8 (drop ?n s))"
      using 3 rune_length_le [of s] by (intro coerce_rune) (simp_all add: rune_length_ext)
    then show ?thesis using "1.IH"(2) [OF 3] by (simp add: valid_utf8_def c)
  qed
qed

lemma coerce_id: "valid_utf8 s \<Longrightarrow> coerce_utf8 s = s"
  by (simp add: valid_utf8_def)

lemma coerce_idem [simp]: "coerce_utf8 (coerce_utf8 s) = coerce_utf8 s"
  using coerce_valid [of s] by (simp only: valid_utf8_def)

lemma ascii_valid: "list_all (byte_in 0 127) s \<Longrightarrow> valid_utf8 s"
proof (induction s)
  case (Cons a s)
  have "coerce_utf8 ([a] @ s) = [a] @ coerce_utf8 s"
    using Cons.prems by (intro coerce_rune) simp_all
  with Cons show ?case by (simp add: valid_utf8_def)
qed (simp add: valid_utf8_def)

lemma wf_full_valid: "wf_repository repo \<Longrightarrow> valid_utf8 (Full repo)"
proof -
  assume wf: "wf_repository repo"
  have char: "byte_in 0 127 c" if "valid_char c" for c
    using that by (auto simp: valid_char_def byte_in_def less_eq_char_def)
  have seg: "byte_in 0 127 c" if "valid x" "c \<in> set x" for x c
    using that char by (auto simp: valid_def list_all_iff split: if_splits)
  have slash: "byte_in 0 127 (CHR ''/'')" by (simp add: byte_in_def)
  have "set (Full repo) \<subseteq> \<Union> (set ` set (Groups repo @ [Name repo])) \<union> set ''/''"
    unfolding Full_Join [OF conjunct1 [OF wf [unfolded wf_repository_def]]] by (rule set_Join_subset)
  then have "byte_in 0 127 c" if "c \<in> set (Full repo)" for c
    using that wf seg slash by (force simp: wf_repository_def list_all_iff)
  then show ?thesis by (intro ascii_valid) (simp add: list_all_iff)
qed

section \<open>What encoding/json does to a request\<close>

definition coerce_approval :: "approval \<Rightarrow> approval" where
  "coerce_approval a = a\<lparr>ApprovalAuthor := coerce_utf8 (ApprovalAuthor a),
     ApprovalHeadCommit := coerce_utf8 (ApprovalHeadCommit a)\<rparr>"

definition coerce_comment :: "review_comment \<Rightarrow> review_comment" where
  "coerce_comment c = c\<lparr>CommentAuthor := coerce_utf8 (CommentAuthor c), CommentBody := coerce_utf8 (CommentBody c)\<rparr>"

definition coerce_thread :: "thread \<Rightarrow> thread" where
  "coerce_thread t = t\<lparr>ResolvedBy := coerce_utf8 (ResolvedBy t),
     ThreadComments := map_option (map coerce_comment) (ThreadComments t)\<rparr>"

definition coerce_request :: "merge_request \<Rightarrow> merge_request" where
  "coerce_request r = r\<lparr>
     Repository := coerce_utf8 (Repository r), Title := coerce_utf8 (Title r), Description := coerce_utf8 (Description r),
     Target := coerce_utf8 (Target r), Source := coerce_utf8 (Source r), Author := coerce_utf8 (Author r),
     State := coerce_utf8 (State r), BaseCommit := coerce_utf8 (BaseCommit r), HeadCommit := coerce_utf8 (HeadCommit r),
     Approvals := map_option (map coerce_approval) (Approvals r),
     Threads := map_option (map coerce_thread) (Threads r),
     MergedCommit := coerce_utf8 (MergedCommit r), MergedStrategy := coerce_utf8 (MergedStrategy r),
     MergedBy := coerce_utf8 (MergedBy r), ClosedBy := coerce_utf8 (ClosedBy r),
     MergeClaimID := coerce_utf8 (MergeClaimID r), MergeOwnerID := coerce_utf8 (MergeOwnerID r),
     MergeHeadCommit := coerce_utf8 (MergeHeadCommit r), MergeTargetCommit := coerce_utf8 (MergeTargetCommit r),
     MergeResultCommit := coerce_utf8 (MergeResultCommit r), MergeResultStrategy := coerce_utf8 (MergeResultStrategy r),
     MergeStartedBy := coerce_utf8 (MergeStartedBy r)\<rparr>"

text \<open>The numbers of a request are those of Go: \<^verbatim>\<open>uint64\<close> identifiers and an \<^verbatim>\<open>int\<close> of 64 bits.\<close>

definition go_thread :: "thread \<Rightarrow> bool" where
  "go_thread t \<longleftrightarrow> ThreadID t < 2 ^ 64 \<and>
     (case ThreadComments t of None \<Rightarrow> True | Some cs \<Rightarrow> list_all (\<lambda>c. CommentID c < 2 ^ 64) cs)"

definition go_request :: "merge_request \<Rightarrow> bool" where
  "go_request r \<longleftrightarrow> ID r < 2 ^ 64 \<and> - (2 ^ 63) \<le> RequiredApprovals r \<and> RequiredApprovals r < 2 ^ 63 \<and>
     (case Threads r of None \<Rightarrow> True | Some ts \<Rightarrow> list_all go_thread ts)"

text \<open>
  The documented behaviour of \<^verbatim>\<open>encoding/json\<close> that the store relies on. Strings are coerced to valid
  UTF-8 when they are encoded, and nothing else is lost: what a request in normal form is encoded to
  decodes, with the newline the store appends, to the coerced request, and nothing follows it. Strings
  that were decoded are valid UTF-8, and decoded numbers are in the range of their types. Encoding may
  fail, as it does for years of more than four digits.
\<close>

definition json_codec :: "merge_request codec \<Rightarrow> bool" where
  "json_codec cd \<longleftrightarrow>
     (\<forall>r json. go_request r \<longrightarrow> review_normalize r = r \<longrightarrow> marshal cd r = Inr json \<longrightarrow>
        decode_first cd (json @ [CHR 0x0A]) = Inr (coerce_request r) \<and> decode_rest cd (json @ [CHR 0x0A]) = None) \<and>
     (\<forall>contents r. decode_first cd contents = Inr r \<longrightarrow> go_request r \<and> coerce_request r = r)"

text \<open>A request whose branch names are valid UTF-8.\<close>

definition utf8_branches :: "merge_request \<Rightarrow> bool" where
  "utf8_branches r \<longleftrightarrow> valid_utf8 (Target r) \<and> valid_utf8 (Source r)"

lemma coerce_request_simps [simp]:
  "ID (coerce_request r) = ID r" "Target (coerce_request r) = coerce_utf8 (Target r)"
  "Source (coerce_request r) = coerce_utf8 (Source r)" "State (coerce_request r) = coerce_utf8 (State r)"
  "Repository (coerce_request r) = coerce_utf8 (Repository r)"
  by (simp_all add: coerce_request_def)

lemma json_decoded:
  assumes "json_codec cd" "decode_first cd contents = Inr r"
  shows "go_request r" "utf8_branches r"
proof -
  have h: "go_request r" "coerce_request r = r" using assms unfolding json_codec_def by blast+
  then show "go_request r" by simp
  have "coerce_utf8 (Target r) = Target r" "coerce_utf8 (Source r) = Source r"
    using h(2) coerce_request_simps(2,3) [of r] by simp_all
  then show "utf8_branches r" by (simp add: utf8_branches_def valid_utf8_def)
qed

lemma record_decoded:
  assumes "json_codec cd" "decode_record (review_store root env cd) repo k contents = Inr r"
  shows "go_request r" "utf8_branches r"
proof -
  have "decode_first cd contents = Inr r"
    using assms(2) by (auto simp: decode_record_def split: if_splits sum.splits option.splits)
  from json_decoded [OF assms(1) this] show "go_request r" "utf8_branches r" .
qed

lemma go_normalize: "go_request r \<Longrightarrow> go_request (review_normalize r)"
proof -
  have "go_thread t \<Longrightarrow> go_thread (normalize_thread t)" for t
    by (cases "ThreadComments t") (auto simp: go_thread_def normalize_thread_def list_all_iff)
  then show "go_request r \<Longrightarrow> go_request (review_normalize r)"
    by (cases "Threads r") (auto simp: go_request_def review_normalize_def list_all_iff)
qed

lemma go_changes:
  "go_request r \<Longrightarrow> go_request (r\<lparr>Repository := x\<rparr>)" "go_request r \<Longrightarrow> go_request (r\<lparr>UpdatedAt := y\<rparr>)"
  "go_request r \<Longrightarrow> n < 2 ^ 64 \<Longrightarrow> go_request (review_defaults now repo n r)"
  by (simp_all add: go_request_def review_defaults_def Let_def)

lemma state_valid: "wf_merge_request repo rid r \<Longrightarrow> valid_utf8 (State r)"
  by (auto simp: wf_merge_request_def wf_completion_def byte_in_def intro!: ascii_valid)

section \<open>The invariant\<close>

text \<open>
  No directory holds two open requests for the same branches, for whatever repository its records are
  read; the store of a repository, a staged copy and a directory set aside are all directories.
\<close>

definition single_open :: "merge_request store \<Rightarrow> file_system \<Rightarrow> bool" where
  "single_open st s \<longleftrightarrow> tables_ok s \<and> (\<forall>repo d. unique_open (view st repo s d))"

lemma single_openD: "single_open st s \<Longrightarrow> tables_ok s" "single_open st s \<Longrightarrow> unique_open (view st repo s d)"
  by (simp_all add: single_open_def)

definition keeps :: "merge_request store \<Rightarrow> 'a io \<Rightarrow> bool" where
  "keeps st m \<longleftrightarrow> (\<forall>s x t. m s = (x, t) \<longrightarrow> single_open st s \<longrightarrow> single_open st t)"

lemma keepsI: "(\<And>s x t. m s = (x, t) \<Longrightarrow> single_open st s \<Longrightarrow> single_open st t) \<Longrightarrow> keeps st m"
  by (simp add: keeps_def)

lemma keepsD: "keeps st m \<Longrightarrow> m s = (x, t) \<Longrightarrow> single_open st s \<Longrightarrow> single_open st t"
  by (simp add: keeps_def)

text \<open>
  The directories of \<open>t\<close> are directories of \<open>s\<close>, perhaps under other names, or empty: what renaming,
  removing and creating directories gives.
\<close>

definition rearranged :: "file_system \<Rightarrow> file_system \<Rightarrow> bool" where
  "rearranged s t \<longleftrightarrow> (\<forall>p tab. dir_at t p = Some tab \<longrightarrow> tab = [] \<or> (\<exists>q. dir_at s q = Some tab))"

definition rearranging :: "'a io \<Rightarrow> bool" where
  "rearranging m \<longleftrightarrow> (\<forall>s x t. m s = (x, t) \<longrightarrow> rearranged s t)"

lemma view_empty: "dir_at s d = None \<or> dir_at s d = Some [] \<Longrightarrow> view st repo s d = Map.empty"
  by (auto simp: view_def stored_def fun_eq_iff)

lemma unique_open_empty [simp]: "unique_open Map.empty"
  by (simp add: unique_open_def)

lemma single_open_rearranged:
  assumes "rearranged s t" "single_open st s"
  shows "single_open st t"
  unfolding single_open_def
proof (intro conjI allI)
  show "tables_ok t"
    using assms(1) single_openD(1) [OF assms(2)] unfolding rearranged_def tables_ok_def
    by (metis distinct.simps(1) list.map(1))
  fix repo d
  show "unique_open (view st repo t d)"
  proof (cases "dir_at t d = None \<or> dir_at t d = Some []")
    case True
    then show ?thesis by (simp add: view_empty)
  next
    case False
    then obtain tab q where "dir_at t d = Some tab" "dir_at s q = Some tab"
      using assms(1) unfolding rearranged_def by (metis not_None_eq)
    then have "view st repo t d = view st repo s q" by (intro view_dir_at) simp
    then show ?thesis using single_openD(2) [OF assms(2)] by simp
  qed
qed

lemma single_open_same: "same_records s t \<Longrightarrow> single_open st s \<Longrightarrow> single_open st t"
  by (simp add: single_open_def same_records_view) (simp add: same_records_def)

lemma rearranged_dirs:
  "(\<And>p. dir_at t p = None \<or> dir_at t p = Some [] \<or> (\<exists>q. dir_at t p = dir_at s q)) \<Longrightarrow> rearranged s t"
  unfolding rearranged_def by (metis option.distinct(1) option.inject)

lemma keeps_rearranging: "rearranging m \<Longrightarrow> keeps st m"
  unfolding rearranging_def by (intro keepsI) (blast intro: single_open_rearranged)

lemma keeps_quiet: "quiet m \<Longrightarrow> keeps st m"
  by (rule keepsI) (blast intro: single_open_same same_records_quiet)

lemma keeps_basic [simp]: "keeps st (return_io x)" "keeps st (lift_io r)" "keeps st (Stat p)" "keeps st Touch"
  by (rule keeps_quiet, simp)+

lemma keeps_bind: "keeps st m \<Longrightarrow> (\<And>x. keeps st (f x)) \<Longrightarrow> keeps st (bindio m f)"
  by (rule keepsI, erule bindio_cases) (blast dest: keepsD)+

lemma keeps_attempt: "keeps st m \<Longrightarrow> keeps st (attempt m)"
  by (rule keepsI, erule attempt_cases) (blast dest: keepsD)

lemma keeps_cleanup:
  assumes "keeps st m" "keeps st c"
  shows "keeps st (cleanup m c)"
proof (rule keepsI)
  fix s x t assume h: "cleanup m c s = (x, t)" "single_open st s"
  obtain y u where u: "m s = (y, u)" by fastforce
  obtain z v where v: "c u = (z, v)" by fastforce
  have "t = v" using h(1) u v by (simp add: cleanup_def)
  then show "single_open st t" using keepsD [OF assms(2) v keepsD [OF assms(1) u h(2)]] by simp
qed

lemma keeps_RenameDir [simp]: "keeps st (RenameDir a b)"
proof (rule keepsI)
  fix s x t assume h: "RenameDir a b s = (x, t)" "single_open st s"
  from h(1) have "rearranged s t"
    by (cases rule: RenameDir_cases) (rule rearranged_dirs; metis)+
  then show "single_open st t" using h(2) by (rule single_open_rearranged)
qed

lemma keeps_RemoveAll [simp]: "keeps st (RemoveAll p)"
proof (rule keepsI)
  fix s x t assume h: "RemoveAll p s = (x, t)" "single_open st s"
  have "rearranged s t" using RemoveAll_cases [OF h(1)] by (intro rearranged_dirs) (metis fun_upd_apply)
  then show "single_open st t" using h(2) by (rule single_open_rearranged)
qed

lemma keeps_MkdirAll [simp]: "keeps st (MkdirAll p)"
  by (rule keepsI) (blast intro: single_open_same same_records_MkdirAll)

lemma keeps_swap_in: "keeps st (swap_in st' src staged dst)"
  unfolding swap_in_def Let_def
  by (intro keeps_bind keeps_attempt; simp split: sum.split; intro conjI allI impI keeps_bind keeps_attempt; simp split: sum.split)

section \<open>Writing a request\<close>

lemma view_written:
  assumes "wrote (review_store root env cd) d r json s t" "json_codec cd" "go_request r" "review_normalize r = r"
    "view (review_store root env cd) any t d k = Some q"
  shows "k = ID r \<and> q = coerce_request r \<and> review_validate any k q = Inr () \<or>
    k \<noteq> ID r \<and> view (review_store root env cd) any s d k = Some q"
proof (cases "k = ID r")
  case True
  let ?c = "json @ [CHR 0x0A]"
  have w: "dir_entry t d (record_name k) = Some (Regular ?c)" and m: "marshal cd r = Inr json"
    using assms(1) record_name_not_tmp [of k] True unfolding wrote_def file_replaced_def by simp_all
  have "decode_first cd ?c = Inr (coerce_request r)" "decode_rest cd ?c = None"
    using assms(2) m assms(3,4) unfolding json_codec_def by blast+
  moreover have "decode_record (review_store root env cd) any k ?c = Inr q"
    using assms(5) unfolding view_iff w by simp
  ultimately show ?thesis
    using True by (auto simp: decode_record_def split: if_splits sum.splits)
next
  case False
  have "dir_entry t d (record_name k) = dir_entry s d (record_name k)"
    using assms(1) record_name_not_tmp [of k] False unfolding wrote_def file_replaced_def by simp
  then show ?thesis using assms(5) False by (simp only: view_iff) simp
qed

lemma single_open_written:
  assumes "wrote (review_store root env cd) d r json s t" "single_open (review_store root env cd) s"
    "\<And>any. unique_open (view (review_store root env cd) any t d)"
  shows "single_open (review_store root env cd) t"
  unfolding single_open_def
proof (intro conjI allI)
  show "tables_ok t" using wrote_frame [OF assms(1)] single_openD(1) [OF assms(2)] by simp
  fix any p
  show "unique_open (view (review_store root env cd) any t p)"
  proof (cases "p = d")
    case True
    then show ?thesis using assms(3) by simp
  next
    case False
    show ?thesis unfolding view_wrote_other [OF assms(1) False] by (rule single_openD(2) [OF assms(2)])
  qed
qed

section \<open>Staging\<close>

text \<open>The requests of a list that are open and for the same branches have the same number.\<close>

definition distinct_open :: "merge_request list \<Rightarrow> bool" where
  "distinct_open rs \<longleftrightarrow> (\<forall>r\<in>set rs. \<forall>q\<in>set rs. State r = StateOpen \<longrightarrow> State q = StateOpen \<longrightarrow>
     Target r = Target q \<longrightarrow> Source r = Source q \<longrightarrow> ID r = ID q)"

text \<open>The directory holds, up to the repository, requests of the list only.\<close>

definition holds_of :: "merge_request store \<Rightarrow> file_system \<Rightarrow> string \<Rightarrow> merge_request list \<Rightarrow> bool" where
  "holds_of st s d rs \<longleftrightarrow> (\<forall>any k q. view st any s d k = Some q \<longrightarrow>
     (\<exists>r\<in>set rs. ID r = k \<and> State q = State r \<and> Target q = Target r \<and> Source q = Source r))"

lemma unique_holds:
  assumes "holds_of st s d rs" "distinct_open rs"
  shows "unique_open (view st any s d)"
  unfolding unique_open_def
proof (intro allI impI)
  fix a b r q
  assume h: "view st any s d a = Some r" "view st any s d b = Some q" "State r = StateOpen" "State q = StateOpen"
    "Target r = Target q" "Source r = Source q"
  obtain r' where r': "r' \<in> set rs" "ID r' = a" "State r = State r'" "Target r = Target r'" "Source r = Source r'"
    using assms(1) h(1) unfolding holds_of_def by meson
  obtain q' where q': "q' \<in> set rs" "ID q' = b" "State q = State q'" "Target q = Target q'" "Source q = Source q'"
    using assms(1) h(2) unfolding holds_of_def by meson
  have "ID r' = ID q'"
    using assms(2) r'(1) q'(1) h(3-6) r'(3-5) q'(3-5) unfolding distinct_open_def by (metis (no_types))
  then show "a = b" using r'(2) q'(2) by simp
qed

lemma write_rewritten_keeps:
  assumes "json_codec cd"
  shows "write_rewritten (review_store root env cd) d dest rs s = (x, t) \<Longrightarrow>
    single_open (review_store root env cd) s \<Longrightarrow> holds_of (review_store root env cd) s d ds \<Longrightarrow>
    distinct_open (ds @ rs) \<Longrightarrow> \<forall>r\<in>set rs. go_request r \<and> utf8_branches r \<Longrightarrow>
    single_open (review_store root env cd) t"
proof (induction rs arbitrary: s ds)
  case Nil
  then show ?case by simp
next
  case (Cons r rs)
  let ?st = "review_store root env cd"
  define r' where "r' = review_normalize (r\<lparr>Repository := Full dest\<rparr>)"
  have run: "bindio (lift_io (review_validate dest (ID r') r')) (\<lambda>_.
      bindio (writeRecord ?st d r') (\<lambda>_. write_rewritten ?st d dest rs)) s = (x, t)"
    using Cons.prems(1) by (simp add: r'_def Let_def)
  have r': "ID r' = ID r" "State r' = State r" "Target r' = Target r" "Source r' = Source r" "review_normalize r' = r'"
    by (simp_all add: r'_def review_normalize_idem)
  have go: "go_request r'" using Cons.prems(5) by (simp add: r'_def go_normalize go_changes)
  show ?case
  proof (cases "review_validate dest (ID r') r'")
    case (Inl e)
    then show ?thesis using run Cons.prems(2) by simp
  next
    case (Inr u)
    then have "wf_merge_request dest (ID r') r'" using review_validate_iff by simp
    then have st: "coerce_utf8 (State r') = State r'" by (intro coerce_id) (rule state_valid)
    have br: "coerce_utf8 (Target r') = Target r'" "coerce_utf8 (Source r') = Source r'"
      using Cons.prems(5) by (simp_all add: utf8_branches_def coerce_id r')
    have "bindio (writeRecord ?st d r') (\<lambda>_. write_rewritten ?st d dest rs) s = (x, t)" using run Inr by simp
    then show ?thesis
    proof (cases rule: bindio_cases)
      case (failed e)
      from failed(1) show ?thesis
        by (cases rule: writeRecord_cases) (auto intro: single_open_same same_records_only_temp Cons.prems(2))
    next
      case (went_on y v)
      obtain json where w: "wrote ?st d r' json s v"
        using went_on(1) by (cases rule: writeRecord_cases) auto
      have holds: "holds_of ?st v d (ds @ [r])"
        unfolding holds_of_def
      proof (intro allI impI)
        fix any k q assume "view ?st any v d k = Some q"
        from view_written [OF w assms go r'(5) this]
        show "\<exists>a\<in>set (ds @ [r]). ID a = k \<and> State q = State a \<and> Target q = Target a \<and> Source q = Source a"
        proof (elim disjE conjE)
          assume "k = ID r'" "q = coerce_request r'"
          then show ?thesis using st br r' by simp
        next
          assume "view ?st any s d k = Some q"
          with Cons.prems(3) obtain a where "a \<in> set ds" "ID a = k" "State q = State a" "Target q = Target a" "Source q = Source a"
            unfolding holds_of_def by meson
          then show ?thesis by auto
        qed
      qed
      have dis: "distinct_open (ds @ [r])" using Cons.prems(4) by (simp add: distinct_open_def)
      have "single_open ?st v" by (rule single_open_written [OF w Cons.prems(2) unique_holds [OF holds dis]])
      from Cons.IH [OF went_on(2) this holds] show ?thesis using Cons.prems(4,5) by simp
    qed
  qed
qed

text \<open>What a strict scan of a directory returns was stored in it.\<close>

lemma scan_entries_stored:
  assumes "scan_entries st d repo False es (rs, m) s = (Inr (rs', m'), t)"
    "\<forall>(name, n)\<in>set es. dir_entry s d name = Some n" "r \<in> set rs'"
  shows "r \<in> set rs \<or> (\<exists>k. view st repo s d k = Some r)"
  using assms
proof (induction es arbitrary: rs m s)
  case Nil
  then show ?case by simp
next
  case (Cons e es)
  obtain name n where e: "e = (name, n)" by fastforce
  have de: "dir_entry s d name = Some n" using Cons.prems(2) e by simp
  show ?case
  proof (cases "HasSuffix name ''.json''")
    case False
    then have "scan_entries st d repo False es (rs, m) s = (Inr (rs', m'), t)"
      using Cons.prems(1) by (simp add: e Let_def)
    then show ?thesis using Cons.IH Cons.prems(2,3) by (simp add: e)
  next
    case True
    obtain u v rid r1 c where h: "Touch s = (Inr (), u)" "n = Regular c" "parseRecordName st name = Inr rid"
      "readRecord st d repo rid u = (Inr r1, v)" "scan_entries st d repo False es (rs @ [r1], max rid m) v = (Inr (rs', m'), t)"
      using Cons.prems(1) True
      by (auto simp: e Let_def bindio_def attempt_def split: prod.splits sum.splits node.splits)
    have eu: "dir_entry u = dir_entry s" by (rule dir_entry_quiet [where m = Touch, OF quiet_reads(5) h(1)])
    have ev: "dir_entry v = dir_entry s" using dir_entry_quiet [OF quiet_readRecord h(4)] eu by simp
    have name: "name = record_name rid" "0 < rid" "rid < 2 ^ 64" using parseRecordName_iff [OF True] h(3) by auto
    obtain c' where "open_node (dir_entry u d (record_name rid)) = Inr (Some c')" "decode_record st repo rid c' = Inr r1"
      using readRecord_Inr [OF h(4)] by blast
    then have "view st repo s d rid = Some r1"
      unfolding view_iff using de name h(2) eu by (simp add: open_node_def)
    moreover have "view st repo v d = view st repo s d" by (rule view_cong) (simp add: ev)
    moreover have "r \<in> set (rs @ [r1]) \<or> (\<exists>k. view st repo v d k = Some r)"
      using Cons.IH [OF h(5)] Cons.prems(2,3) ev by (simp add: e)
    ultimately show ?thesis by auto
  qed
qed

lemma listDirectory_stored:
  assumes "listDirectory st d repo s = (Inr rs, t)" "tables_ok s" "r \<in> set rs"
  shows "\<exists>k. view st repo s d k = Some r"
proof -
  obtain x u where x: "ReadDir d s = (x, u)" by fastforce
  have same: "dir_entry u = dir_entry s" by (rule dir_entry_quiet [OF quiet_reads(2) x])
  show ?thesis
  proof (cases x)
    case (Inl e)
    then have "rs = []" using assms(1) x
      by (auto simp: listDirectory_def scanDirectory_def bindio_def attempt_def split: if_splits)
    then show ?thesis using assms(3) by simp
  next
    case (Inr es)
    obtain rs' m' where sc: "scan_entries st d repo False es ([], 0) u = (Inr (rs', m'), t)" "set rs = set rs'"
      using assms(1) x Inr
      by (auto simp: listDirectory_def scanDirectory_def bindio_def attempt_def split: prod.splits sum.splits)
    obtain tab where tab: "dir_at s d = Some tab" "es = sort_key fst tab"
      using x Inr unfolding ReadDir_def by (elim call_io_cases) (auto split: option.splits)
    have "\<forall>(name, n)\<in>set es. dir_entry u d name = Some n"
      using tab tables_okD [OF assms(2) tab(1)] same by (auto simp: dir_entry_def map_of_eq_Some_iff)
    from scan_entries_stored [OF sc(1) this] assms(3) sc(2) obtain k where "view st repo u d k = Some r" by auto
    moreover have "view st repo u d = view st repo s d" by (rule view_cong) (simp add: same)
    ultimately show ?thesis by auto
  qed
qed

lemma listed_requests:
  assumes "listDirectory (review_store root env cd) d repo s = (Inr rs, t)" "single_open (review_store root env cd) s"
    "json_codec cd"
  shows "distinct_open rs" "\<forall>r\<in>set rs. go_request r \<and> utf8_branches r"
proof -
  let ?st = "review_store root env cd"
  have v: "view ?st repo s d (ID r) = Some r \<and> go_request r \<and> utf8_branches r" if r: "r \<in> set rs" for r
  proof -
    obtain k where k: "view ?st repo s d k = Some r"
      using listDirectory_stored [OF assms(1) single_openD(1) [OF assms(2)] r] by blast
    then obtain c where c: "decode_record ?st repo k c = Inr r" unfolding view_iff by blast
    then show ?thesis using record_decoded [OF assms(3) c] reviews.decode_id [OF c] k by simp
  qed
  then show "\<forall>r\<in>set rs. go_request r \<and> utf8_branches r" by blast
  show "distinct_open rs"
    unfolding distinct_open_def
  proof (intro ballI impI)
    fix r q assume h: "r \<in> set rs" "q \<in> set rs" "State r = StateOpen" "State q = StateOpen" "Target r = Target q" "Source r = Source q"
    show "ID r = ID q"
      using single_openD(2) [OF assms(2), of repo d, unfolded unique_open_def, rule_format, of "ID r" r "ID q" q]
        v [OF h(1)] v [OF h(2)] h(3-6) by blast
  qed
qed

lemma stage_and_swap_keeps:
  assumes "stage_and_swap (review_store root env cd) parent stem src dst dest rs s = (x, t)"
    "single_open (review_store root env cd) s" "json_codec cd" "distinct_open rs"
    "\<forall>r\<in>set rs. go_request r \<and> utf8_branches r"
  shows "single_open (review_store root env cd) t"
  using assms(1) [unfolded stage_and_swap_def]
proof (cases rule: bindio_cases)
  case (failed e)
  from failed(1) have "rearranged s t" by (cases rule: MkdirTemp_cases) (rule rearranged_dirs; auto)+
  then show ?thesis using assms(2) by (rule single_open_rearranged)
next
  case (went_on staged u)
  let ?st = "review_store root env cd"
  from went_on(1) have u: "dir_at u = (dir_at s)(staged := Some [])" by (cases rule: MkdirTemp_cases) auto
  have "rearranged s u" by (rule rearranged_dirs) (auto simp: u)
  then have su: "single_open ?st u" using assms(2) by (rule single_open_rearranged)
  have "view ?st any u staged = Map.empty" for any by (rule view_empty) (simp add: u)
  then have hu: "holds_of ?st u staged []" by (simp add: holds_of_def)
  let ?body = "bindio Touch (\<lambda>_. bindio (write_rewritten ?st staged dest rs) (\<lambda>_. swap_in ?st src staged dst))"
  obtain y w where w: "?body u = (y, w)" by fastforce
  from w have "single_open ?st w"
  proof (cases rule: bindio_cases)
    case (failed e)
    then show ?thesis using keepsD [OF keeps_basic(4) _ su] by blast
  next
    case touched: (went_on z v)
    have same: "same_records u v" by (rule same_records_quiet [OF quiet_reads(5) touched(1)])
    have sv: "single_open ?st v" by (rule single_open_same [OF same su])
    have hv: "holds_of ?st v staged []" using hu by (simp add: holds_of_def same_records_view [OF same])
    note written = write_rewritten_keeps [OF assms(3) _ sv hv, simplified, OF _ assms(4,5)]
    from touched(2) show ?thesis
    proof (cases rule: bindio_cases)
      case (failed e)
      then show ?thesis using written by blast
    next
      case (went_on z' v')
      then show ?thesis using keepsD [OF keeps_swap_in _ written [OF went_on(1)]] by blast
    qed
  qed
  moreover have "t = snd (RemoveAll staged w)" using went_on(2) w by (simp add: cleanup_def)
  ultimately show ?thesis using keepsD [OF keeps_RemoveAll, of staged w _ t] by (metis prod.collapse)
qed

section \<open>Moving requests\<close>

lemma relocate_keeps: "json_codec cd \<Longrightarrow> keeps (review_store root env cd) (relocate (review_store root env cd) repo dest)"
proof (rule keepsI)
  let ?st = "review_store root env cd"
  fix s x t assume cd: "json_codec cd" and run: "relocate ?st repo dest s = (x, t)" and so: "single_open ?st s"
  have body: "keeps ?st (bindio (listDirectory ?st src repo) (\<lambda>records. bindio (MkdirAll p) (\<lambda>_.
      stage_and_swap ?st p stem src dst dest records)))" for src p stem dst
  proof (rule keepsI)
    fix s x t assume h: "bindio (listDirectory ?st src repo) (\<lambda>records. bindio (MkdirAll p) (\<lambda>_.
      stage_and_swap ?st p stem src dst dest records)) s = (x, t)" "single_open ?st s"
    from h(1) show "single_open ?st t"
    proof (cases rule: bindio_cases)
      case (failed e)
      then show ?thesis using keepsD [OF keeps_quiet [OF quiet_lists(1)] _ h(2)] by blast
    next
      case (went_on rs u)
      note rs = listed_requests [OF went_on(1) h(2) cd]
      have su: "single_open ?st u" by (rule keepsD [OF keeps_quiet [OF quiet_lists(1)] went_on(1) h(2)])
      from went_on(2) show ?thesis
      proof (cases rule: bindio_cases)
        case (failed e)
        then show ?thesis using keepsD [OF keeps_MkdirAll _ su] by blast
      next
        case made: (went_on y v)
        show ?thesis by (rule stage_and_swap_keeps [OF made(2) keepsD [OF keeps_MkdirAll made(1) su] cd rs])
      qed
    qed
  qed
  have "keeps ?st (relocate ?st repo dest)"
    unfolding relocate_def
    by (intro keeps_bind keeps_basic, simp, intro impI keeps_bind keeps_attempt keeps_basic, simp split: sum.split,
        intro conjI allI impI keeps_bind keeps_attempt keeps_basic, simp split: sum.split add: body)
  from keepsD [OF this run so] show "single_open ?st t" .
qed

lemma rewriteDirectory_keeps:
  "json_codec cd \<Longrightarrow> keeps (review_store root env cd) (rewriteDirectory (review_store root env cd) d src dest)"
proof (rule keepsI)
  let ?st = "review_store root env cd"
  fix s x t assume h: "json_codec cd" "rewriteDirectory ?st d src dest s = (x, t)" "single_open ?st s"
  from h(2) [unfolded rewriteDirectory_def] show "single_open ?st t"
  proof (cases rule: bindio_cases)
    case (failed e)
    then show ?thesis using keepsD [OF keeps_quiet [OF quiet_lists(1)] _ h(3)] by blast
  next
    case (went_on rs u)
    have su: "single_open ?st u" by (rule keepsD [OF keeps_quiet [OF quiet_lists(1)] went_on(1) h(3)])
    show ?thesis by (rule stage_and_swap_keeps [OF went_on(2) su h(1) listed_requests [OF went_on(1) h(3,1)]])
  qed
qed

lemma rollback_rewrites_keeps:
  "json_codec cd \<Longrightarrow> keeps (review_store root env cd) (rollback_rewrites (review_store root env cd) rws err)"
  by (induction rws arbitrary: err)
    (auto intro!: keeps_bind keeps_attempt rewriteDirectory_keeps split: sum.split)

lemma rewrite_each_keeps:
  "json_codec cd \<Longrightarrow> keeps (review_store root env cd) (rewrite_each (review_store root env cd) completed rws)"
  by (induction rws arbitrary: completed)
    (auto intro!: keeps_bind keeps_attempt rewriteDirectory_keeps rollback_rewrites_keeps split: sum.split)

lemma rewriteGroup_keeps:
  "json_codec cd \<Longrightarrow> keeps (review_store root env cd) (rewriteGroup (review_store root env cd) src dest)"
proof -
  assume cd: "json_codec cd"
  have "quiet (walk_group (review_store root env cd) a b c)" for a b c
    unfolding walk_group_def by (intro quiet_call) (simp add: quiet_def)
  then have "keeps (review_store root env cd) (walk_group (review_store root env cd) a b c)" for a b c
    by (rule keeps_quiet)
  then show ?thesis
    unfolding rewriteGroup_def
    by (auto intro!: keeps_bind keeps_attempt rewrite_each_keeps [OF cd] split: sum.split)
qed

lemma with_locks_keeps: "keeps st m \<Longrightarrow> keeps st (with_locks requests m)"
  unfolding with_locks_def by (intro keeps_bind) simp_all

lemma required_both_keeps:
  assumes "\<And>a b. x = Some a \<Longrightarrow> y = Some b \<Longrightarrow> keeps st (f a b)"
  shows "keeps st (required_both message x y f)"
  using assms by (auto simp: required_both_def split: option.split)

lemma move_repository_keeps:
  assumes "json_codec cd" "rearranging move" "rearranging rollback"
  shows "keeps (review_store root env cd) (moveRepository (review_store root env cd) src dest move rollback)"
  unfolding moveRepository_def move_repository_def
  by (auto intro!: keeps_bind keeps_attempt relocate_keeps [OF assms(1)] keeps_rearranging [OF assms(2)]
    keeps_rearranging [OF assms(3)] split: sum.split)

lemma move_group_keeps:
  assumes "json_codec cd" "rearranging move" "rearranging rollback"
  shows "keeps (review_store root env cd) (moveGroup (review_store root env cd) src dest move rollback)"
  unfolding moveGroup_def move_group_def
  by (auto intro!: keeps_bind keeps_attempt rewriteGroup_keeps [OF assms(1)] keeps_rearranging [OF assms(2)]
    keeps_rearranging [OF assms(3)] split: sum.split)

section \<open>Creating and updating\<close>

lemma view_Full: "Full any = Full repo \<Longrightarrow> view (review_store root env cd) any s d = view (review_store root env cd) repo s d"
proof -
  assume "Full any = Full repo"
  then have "review_validate any = review_validate repo" by (intro ext) (simp add: review_validate_def)
  then have "decode_record (review_store root env cd) any = decode_record (review_store root env cd) repo"
    by (intro ext) (simp only: decode_record_def review_store_simps)
  then show ?thesis by (intro ext option_ext) (simp only: view_iff)
qed

lemma single_open_stored:
  assumes "wrote (review_store root env cd) d r json s t" "json_codec cd" "single_open (review_store root env cd) s"
    "go_request r" "review_normalize r = r" "utf8_branches r" "wf_repository repo" "wf_merge_request repo (ID r) r"
    "State r = StateOpen \<Longrightarrow> \<forall>k q. view (review_store root env cd) repo s d k = Some q \<longrightarrow> k \<noteq> ID r \<longrightarrow>
       \<not> (State q = StateOpen \<and> Target q = Target r \<and> Source q = Source r)"
  shows "single_open (review_store root env cd) t"
proof (rule single_open_written [OF assms(1,3)])
  let ?st = "review_store root env cd"
  have co: "State (coerce_request r) = State r" "Target (coerce_request r) = Target r" "Source (coerce_request r) = Source r"
    using coerce_id [OF state_valid [OF assms(8)]] assms(6) by (simp_all add: utf8_branches_def coerce_id)
  have repo: "Repository (coerce_request r) = Full repo"
    using assms(8) coerce_id [OF wf_full_valid [OF assms(7)]] by (simp add: wf_merge_request_def)
  fix any
  have clash: False if h: "review_validate any k (coerce_request r) = Inr ()" "view ?st any s d b = Some q" "b \<noteq> ID r"
      "State r = StateOpen" "State q = StateOpen" "Target q = Target r" "Source q = Source r" for k b q
  proof -
    have "Repository (coerce_request r) = Full any"
      using h(1) unfolding review_validate_iff wf_merge_request_def by (elim conjE)
    then have "Full any = Full repo" using repo by simp
    from h(2) [unfolded view_Full [OF this]] show False using assms(9) [OF h(4)] h(3,5-7) by blast
  qed
  note cases = view_written [OF assms(1,2,4,5)]
  show "unique_open (view ?st any t d)"
    unfolding unique_open_def
  proof (intro allI impI)
    fix a b r1 r2
    assume h: "view ?st any t d a = Some r1" "view ?st any t d b = Some r2" "State r1 = StateOpen" "State r2 = StateOpen"
      "Target r1 = Target r2" "Source r1 = Source r2"
    from cases [OF h(1)] cases [OF h(2)] show "a = b"
    proof (elim disjE conjE)
      assume n: "b = ID r" "r2 = coerce_request r" "review_validate any b r2 = Inr ()"
        "a \<noteq> ID r" "view ?st any s d a = Some r1"
      from clash [OF n(3) [unfolded n(2)] n(5,4)] h(3-6) co show ?thesis by (simp add: n(2))
    next
      assume n: "a = ID r" "r1 = coerce_request r" "review_validate any a r1 = Inr ()"
        "b \<noteq> ID r" "view ?st any s d b = Some r2"
      from clash [OF n(3) [unfolded n(2)] n(5,4)] h(3-6) co show ?thesis by (simp add: n(2))
    next
      assume n: "view ?st any s d a = Some r1" "view ?st any s d b = Some r2"
      show ?thesis
        using single_openD(2) [OF assms(3), of any d, unfolded unique_open_def, rule_format, OF n h(3-6)] .
    qed simp
  qed
qed

lemma review_Create_keeps:
  assumes "review_Create (review_store root env cd) now repo request s = (x, t)" "single_open (review_store root env cd) s"
    "json_codec cd" "wf_repository repo" "HasPrefix root ''/''" "go_request request" "utf8_branches request"
  shows "single_open (review_store root env cd) t"
proof (cases x)
  case (Inl e)
  then have "same_records s t" using review_Create_cases [OF assms(1,4,5) single_openD(1) [OF assms(2)]] by simp
  then show ?thesis using assms(2) by (rule single_open_same)
next
  case (Inr r)
  let ?st = "review_store root env cd"
  note c = review_Create_cases [OF assms(1,4,5) single_openD(1) [OF assms(2)], unfolded Inr sum.case]
  define r' where "r' = review_created now repo request (ID r)"
  have eq: "r = r'" using c by (simp add: r'_def)
  have r': "review_normalize r' = r'" "Target r' = Target request" "Source r' = Source request" "go_request r'"
    using conjunct1 [OF conjunct2 [OF conjunct2 [OF c]]] assms(6)
    by (simp_all add: r'_def review_created_def review_normalize_idem go_normalize go_changes)
  obtain u json where u: "same_records s u" "wrote ?st (store_path ?st repo) r json u t"
    using c by (auto simp: stored_record_def)
  have old: "view ?st repo u d k = view ?st repo s d k" for d k using same_records_view [OF u(1), of ?st repo d] by simp
  show ?thesis
  proof (rule single_open_stored [OF u(2) assms(3) single_open_same [OF u(1) assms(2)] _ _ _ assms(4)])
    show "go_request r" "review_normalize r = r" "utf8_branches r"
      using r' assms(7) by (simp_all add: eq utf8_branches_def)
    show "wf_merge_request repo (ID r) r" using c by simp
    show "\<forall>k q. view ?st repo u (store_path ?st repo) k = Some q \<longrightarrow> k \<noteq> ID r \<longrightarrow>
       \<not> (State q = StateOpen \<and> Target q = Target r \<and> Source q = Source r)"
      using c r'(2,3) unfolding old eq [symmetric] by (metis (no_types))
  qed
qed

text \<open>A change of a request that leaves it a Go value with branch names in UTF-8.\<close>

definition proper_change :: "(merge_request \<Rightarrow> merge_request result) \<Rightarrow> bool" where
  "proper_change change \<longleftrightarrow> (\<forall>old new. go_request old \<and> utf8_branches old \<and> change old = Inr new \<longrightarrow>
     go_request new \<and> utf8_branches new)"

lemma get_decoded:
  assumes "get_record (review_store root env cd) repo rid s = (Inr r, t)" "json_codec cd"
  shows "go_request r" "utf8_branches r"
proof -
  obtain d where "readRecord (review_store root env cd) d repo rid s = (Inr r, t)"
    using assms(1) unfolding get_record_def
    by (auto simp: bindio_def attempt_def split: prod.splits sum.splits if_splits)
  from readRecord_Inr [OF this] obtain c where "decode_record (review_store root env cd) repo rid c = Inr r" by blast
  from record_decoded [OF assms(2) this] show "go_request r" "utf8_branches r" .
qed

lemma review_Update_keeps:
  assumes "review_Update (review_store root env cd) now repo rid change s = (x, t)" "single_open (review_store root env cd) s"
    "json_codec cd" "wf_repository repo" "HasPrefix root ''/''" "proper_change change"
  shows "single_open (review_store root env cd) t"
proof (cases x)
  case (Inl e)
  then have "same_records s t" using review_Update_cases [OF assms(1,4,5) single_openD(1) [OF assms(2)]] by simp
  then show ?thesis using assms(2) by (rule single_open_same)
next
  case (Inr r)
  let ?st = "review_store root env cd"
  note c = review_Update_cases [OF assms(1,4,5) single_openD(1) [OF assms(2)], unfolded Inr sum.case]
  obtain old new s1 where o: "get_record ?st repo rid s = (Inr old, s1)" "change old = Inr new"
      "r = review_normalize (new\<lparr>UpdatedAt := UTC now\<rparr>)"
    using c by (elim conjE exE)
  have new: "go_request new" "utf8_branches new"
    using assms(6) o(2) get_decoded [OF o(1) assms(3)] unfolding proper_change_def by blast+
  obtain u json where u: "same_records s u" "wrote ?st (store_path ?st repo) r json u t"
    using c by (auto simp: stored_record_def)
  have rid: "ID r = rid" using c by (simp add: wf_merge_request_def)
  have view_u: "view ?st repo u d k = view ?st repo s d k" for d k using same_records_view [OF u(1), of ?st repo d] by simp
  show ?thesis
  proof (rule single_open_stored [OF u(2) assms(3) single_open_same [OF u(1) assms(2)] _ _ _ assms(4)])
    show "go_request r" using new(1) by (simp add: o(3) go_normalize go_changes)
    show "utf8_branches r" using new(2) by (simp add: o(3) utf8_branches_def)
    show "review_normalize r = r" "wf_merge_request repo (ID r) r" using c rid by simp_all
    show "\<forall>k q. view ?st repo u (store_path ?st repo) k = Some q \<longrightarrow> k \<noteq> ID r \<longrightarrow>
       \<not> (State q = StateOpen \<and> Target q = Target r \<and> Source q = Source r)" if "State r = StateOpen"
      using c that unfolding view_u rid by blast
  qed
qed

section \<open>Steps\<close>

text \<open>
  Everything that writes merge requests or moves their directories, one operation after the other and
  each under any faults: the operations of the store, its move transactions with the caller's actions
  on the rest of the repository or group, and the other components, which rename, remove and create
  whole directories.
\<close>

inductive review_step :: "string \<Rightarrow> lock_env \<Rightarrow> merge_request codec \<Rightarrow> file_system \<Rightarrow> file_system \<Rightarrow> bool"
  for root env cd where
  create: "review_Create (review_store root env cd) now repo request s = (x, t) \<Longrightarrow> wf_repository repo \<Longrightarrow>
    go_request request \<Longrightarrow> utf8_branches request \<Longrightarrow> review_step root env cd s t"
| update: "review_Update (review_store root env cd) now repo rid change s = (x, t) \<Longrightarrow> wf_repository repo \<Longrightarrow>
    proper_change change \<Longrightarrow> review_step root env cd s t"
| list: "review_List root env cd repo s = (rs, t) \<Longrightarrow> review_step root env cd s t"
| get: "review_Get root env cd repo rid s = (x, t) \<Longrightarrow> review_step root env cd s t"
| relocate: "review_Relocate root env cd repo dest s = (u, t) \<Longrightarrow> review_step root env cd s t"
| rewrite_group: "review_RewriteGroup root env cd src dst s = (u, t) \<Longrightarrow> review_step root env cd s t"
| move_repository: "review_MoveRepository (review_store root env cd) repo dest move rollback s = (u, t) \<Longrightarrow>
    pred_option rearranging move \<Longrightarrow> pred_option rearranging rollback \<Longrightarrow> review_step root env cd s t"
| move_group: "review_MoveGroup (review_store root env cd) src dst move rollback s = (u, t) \<Longrightarrow>
    pred_option rearranging move \<Longrightarrow> pred_option rearranging rollback \<Longrightarrow> review_step root env cd s t"
| directories: "rearranged s t \<Longrightarrow> review_step root env cd s t"

lemma quiet_with_locks: "quiet m \<Longrightarrow> quiet (with_locks requests m)"
  unfolding with_locks_def by (intro quiet_bind quiet_return)

lemma review_reads_quiet: "quiet (review_List root env cd repo)" "quiet (review_Get root env cd repo rid)"
  unfolding review_List_def review_Get_def List_records_def Get_record_def
  by (auto intro: quiet_with_locks)

lemma review_moves_keep:
  assumes "json_codec cd"
  shows "keeps (review_store root env cd) (review_Relocate root env cd repo dest)"
    "keeps (review_store root env cd) (review_RewriteGroup root env cd src dst)"
    "pred_option rearranging move \<Longrightarrow> pred_option rearranging rollback \<Longrightarrow>
       keeps (review_store root env cd) (review_MoveRepository (review_store root env cd) repo dest move rollback)"
    "pred_option rearranging move \<Longrightarrow> pred_option rearranging rollback \<Longrightarrow>
       keeps (review_store root env cd) (review_MoveGroup (review_store root env cd) src dst move rollback)"
  unfolding review_Relocate_def Relocate_def review_RewriteGroup_def RewriteGroup_def review_MoveRepository_def
    review_MoveRepositoryLocked_def review_MoveGroup_def review_MoveGroupLocked_def
  by (intro with_locks_keeps required_both_keeps relocate_keeps rewriteGroup_keeps move_repository_keeps move_group_keeps
    assms; simp)+

lemma review_step_keeps:
  assumes "review_step root env cd s t" "single_open (review_store root env cd) s" "json_codec cd" "HasPrefix root ''/''"
  shows "single_open (review_store root env cd) t"
  using assms(1)
proof cases
  case (create now repo request x)
  then show ?thesis using review_Create_keeps assms(2-4) by blast
next
  case (update now repo rid change x)
  then show ?thesis using review_Update_keeps assms(2-4) by blast
next
  case (list repo rs)
  show ?thesis by (rule keepsD [OF keeps_quiet [OF review_reads_quiet(1)] list assms(2)])
next
  case (get repo rid x)
  show ?thesis by (rule keepsD [OF keeps_quiet [OF review_reads_quiet(2)] get assms(2)])
next
  case (relocate repo dest u)
  show ?thesis by (rule keepsD [OF review_moves_keep(1) [OF assms(3)] relocate assms(2)])
next
  case (rewrite_group src dst u)
  show ?thesis by (rule keepsD [OF review_moves_keep(2) [OF assms(3)] rewrite_group assms(2)])
next
  case (move_repository repo dest move rollback u)
  show ?thesis by (rule keepsD [OF review_moves_keep(3) [OF assms(3) move_repository(2,3)] move_repository(1) assms(2)])
next
  case (move_group src dst move rollback u)
  show ?thesis by (rule keepsD [OF review_moves_keep(4) [OF assms(3) move_group(2,3)] move_group(1) assms(2)])
next
  case directories
  then show ?thesis using assms(2) by (rule single_open_rearranged)
qed

section \<open>Properties\<close>

text \<open>
  Property C8. No sequence of creations, updates, reads, relocations, group rewrites and moves of
  merge requests, and of directories renamed, removed or created by the other components, leads
  from a state in which no directory holds two open merge requests for the same branches of a
  repository to a state in which one does, whatever system calls fail. Of \<^verbatim>\<open>encoding/json\<close> this uses
  that it loses nothing but invalid UTF-8, which it replaces; requests are created for, and changed
  to, branches with names in valid UTF-8. Without that the claim fails: the duplicate check
  compares the names before they are encoded, so a second request for a branch with an invalid byte
  in its name does not match the first one, whose name has been replaced.
\<close>

theorem open_requests_unique:
  assumes "rtranclp (review_step root env cd) s t" "json_codec cd" "HasPrefix root ''/''" "tables_ok s"
    "\<And>repo d. unique_open (view (review_store root env cd) repo s d)"
  shows "unique_open (view (review_store root env cd) repo t d)"
proof -
  have "single_open (review_store root env cd) t"
    using assms(1)
  proof (induction rule: rtranclp_induct)
    case base
    show ?case unfolding single_open_def using assms(4,5) by blast
  next
    case (step u v)
    then show ?case using review_step_keeps [OF step(2) _ assms(2,3)] by blast
  qed
  then show ?thesis by (rule single_openD(2))
qed

section \<open>A codec\<close>

text \<open>
  An encoding of every merge request that has the properties of \<^verbatim>\<open>encoding/json\<close> above: a request is the
  list of its thirty fields, a list is its items one after the other, and an item is its characters,
  each marked by a dot, and an exclamation mark. Strings are coerced when they are encoded.
\<close>

definition put_items :: "string list \<Rightarrow> string" where
  "put_items xs = concat (map (\<lambda>x. concat (map (\<lambda>c. [CHR ''.'', c]) x) @ ''!'') xs)"

fun get_items :: "string \<Rightarrow> string list" where
  "get_items [] = []"
| "get_items [_] = [[]]"
| "get_items (mark # c # s) =
     (if mark = CHR ''.'' then (case get_items s of [] \<Rightarrow> [[c]] | x # xs \<Rightarrow> (c # x) # xs)
      else [] # get_items (c # s))"

lemma get_put_item: "get_items (concat (map (\<lambda>c. [CHR ''.'', c]) x) @ CHR ''!'' # s) = x # get_items s"
proof (induction x)
  case Nil
  then show ?case by (cases s) simp_all
qed simp

lemma get_put_items [simp]: "get_items (put_items xs) = xs"
proof (induction xs)
  case (Cons x xs)
  have "put_items (x # xs) = concat (map (\<lambda>c. [CHR ''.'', c]) x) @ CHR ''!'' # put_items xs" by (simp add: put_items_def)
  then show ?case using Cons get_put_item by simp
qed (simp add: put_items_def)

text \<open>Each kind of field, with its round trip.\<close>

definition put_int :: "int \<Rightarrow> string" where
  "put_int i = (if i < 0 then CHR ''-'' else CHR ''+'') # print_nat (nat \<bar>i\<bar>)"

definition get_int :: "string \<Rightarrow> int" where
  "get_int s = (case s of [] \<Rightarrow> 0 | c # cs \<Rightarrow>
     if c = CHR ''-'' then - int (decimal_value cs) else int (decimal_value cs))"

definition put_bool :: "bool \<Rightarrow> string" where
  "put_bool b = (if b then ''true'' else ''false'')"

definition get_bool :: "string \<Rightarrow> bool" where
  "get_bool s \<longleftrightarrow> s = ''true''"

definition put_time :: "gotime \<Rightarrow> string" where
  "put_time t = put_items [put_int (instant t), put_bool (in_utc t)]"

definition get_time :: "string \<Rightarrow> gotime" where
  "get_time s = (case get_items s of [i, b] \<Rightarrow> \<lparr>instant = get_int i, in_utc = get_bool b\<rparr> | _ \<Rightarrow> zero_time)"

definition put_option :: "('a \<Rightarrow> string) \<Rightarrow> 'a option \<Rightarrow> string" where
  "put_option f x = put_items (case x of None \<Rightarrow> [] | Some y \<Rightarrow> [f y])"

definition get_option :: "(string \<Rightarrow> 'a) \<Rightarrow> string \<Rightarrow> 'a option" where
  "get_option g s = (case get_items s of [x] \<Rightarrow> Some (g x) | _ \<Rightarrow> None)"

definition put_slice :: "('a \<Rightarrow> string) \<Rightarrow> 'a list option \<Rightarrow> string" where
  "put_slice f = put_option (\<lambda>xs. put_items (map f xs))"

definition get_slice :: "(string \<Rightarrow> 'a) \<Rightarrow> string \<Rightarrow> 'a list option" where
  "get_slice g = get_option (\<lambda>s. map g (get_items s))"

lemma get_put_scalars [simp]: "get_int (put_int i) = i" "get_bool (put_bool b) = b" "get_time (put_time t) = t"
  by (simp_all add: put_int_def get_int_def put_bool_def get_bool_def put_time_def get_time_def)

lemma get_put_option: "(\<And>x. g (f x) = x) \<Longrightarrow> get_option g (put_option f x) = x"
  by (simp add: get_option_def put_option_def split: option.split)

lemma get_put_slice: "(\<And>x. g (f x) = x) \<Longrightarrow> get_slice g (put_slice f x) = x"
  unfolding get_slice_def put_slice_def by (rule get_put_option) (simp add: map_idI)

definition put_approval :: "approval \<Rightarrow> string" where
  "put_approval a = put_items [ApprovalAuthor a, ApprovalHeadCommit a, put_time (ApprovalCreatedAt a), put_bool (SelfApproval a)]"

definition get_approval :: "string \<Rightarrow> approval" where
  "get_approval s = (let xs = get_items s @ replicate 4 [] in
     \<lparr>ApprovalAuthor = xs ! 0, ApprovalHeadCommit = xs ! 1, ApprovalCreatedAt = get_time (xs ! 2), SelfApproval = get_bool (xs ! 3)\<rparr>)"

definition put_comment :: "review_comment \<Rightarrow> string" where
  "put_comment c = put_items [print_nat (CommentID c), CommentAuthor c, CommentBody c, put_time (CommentCreatedAt c)]"

definition get_comment :: "string \<Rightarrow> review_comment" where
  "get_comment s = (let xs = get_items s @ replicate 4 [] in
     \<lparr>CommentID = decimal_value (xs ! 0), CommentAuthor = xs ! 1, CommentBody = xs ! 2, CommentCreatedAt = get_time (xs ! 3)\<rparr>)"

definition put_thread :: "thread \<Rightarrow> string" where
  "put_thread t = put_items [print_nat (ThreadID t), put_time (ThreadCreatedAt t), put_bool (Resolved t), ResolvedBy t,
     put_option put_time (ResolvedAt t), put_slice put_comment (ThreadComments t)]"

definition get_thread :: "string \<Rightarrow> thread" where
  "get_thread s = (let xs = get_items s @ replicate 6 [] in
     \<lparr>ThreadID = decimal_value (xs ! 0), ThreadCreatedAt = get_time (xs ! 1), Resolved = get_bool (xs ! 2), ResolvedBy = xs ! 3,
      ResolvedAt = get_option get_time (xs ! 4), ThreadComments = get_slice get_comment (xs ! 5)\<rparr>)"

definition request_fields :: "merge_request \<Rightarrow> string list" where
  "request_fields r =
     [print_nat (ID r), Repository r, Title r, Description r, Target r, Source r, Author r, State r,
      put_time (CreatedAt r), put_time (UpdatedAt r), BaseCommit r, HeadCommit r, put_int (RequiredApprovals r),
      put_slice put_approval (Approvals r), put_slice put_thread (Threads r), MergedCommit r, MergedStrategy r, MergedBy r,
      put_option put_time (MergedAt r), ClosedBy r, put_option put_time (ClosedAt r), put_bool (MergeInProgress r),
      MergeClaimID r, MergeOwnerID r, MergeHeadCommit r, MergeTargetCommit r, MergeResultCommit r, MergeResultStrategy r,
      MergeStartedBy r, put_option put_time (MergeStartedAt r)]"

definition request_of :: "string list \<Rightarrow> merge_request" where
  "request_of xs =
     \<lparr>ID = decimal_value (xs ! 0), Repository = xs ! 1, Title = xs ! 2, Description = xs ! 3, Target = xs ! 4, Source = xs ! 5,
      Author = xs ! 6, State = xs ! 7, CreatedAt = get_time (xs ! 8), UpdatedAt = get_time (xs ! 9), BaseCommit = xs ! 10,
      HeadCommit = xs ! 11, RequiredApprovals = get_int (xs ! 12), Approvals = get_slice get_approval (xs ! 13),
      Threads = get_slice get_thread (xs ! 14), MergedCommit = xs ! 15, MergedStrategy = xs ! 16, MergedBy = xs ! 17,
      MergedAt = get_option get_time (xs ! 18), ClosedBy = xs ! 19, ClosedAt = get_option get_time (xs ! 20),
      MergeInProgress = get_bool (xs ! 21), MergeClaimID = xs ! 22, MergeOwnerID = xs ! 23, MergeHeadCommit = xs ! 24,
      MergeTargetCommit = xs ! 25, MergeResultCommit = xs ! 26, MergeResultStrategy = xs ! 27, MergeStartedBy = xs ! 28,
      MergeStartedAt = get_option get_time (xs ! 29)\<rparr>"

definition text_codec :: "merge_request codec" where
  "text_codec = \<lparr>marshal = (\<lambda>r. Inr (put_items (request_fields (coerce_request r)))),
     decode_first = (\<lambda>contents.
       let xs = get_items (butlast contents); r = request_of xs in
       if length xs = 30 \<and> go_request r \<and> coerce_request r = r then Inr r else Inl (Errorf ''malformed merge request'')),
     decode_rest = (\<lambda>_. None)\<rparr>"

lemma get_put_approval [simp]: "get_approval (put_approval a) = a"
  by (simp add: get_approval_def put_approval_def Let_def)

lemma get_put_comment [simp]: "get_comment (put_comment c) = c"
  by (simp add: get_comment_def put_comment_def Let_def)

lemma get_put_thread [simp]: "get_thread (put_thread t) = t"
  by (simp add: get_thread_def put_thread_def Let_def get_put_option get_put_slice)

lemma request_of_fields [simp]: "request_of (request_fields r) = r"
  by (simp add: request_of_def request_fields_def get_put_option get_put_slice)

lemma coerce_request_idem: "coerce_request (coerce_request r) = coerce_request r"
proof -
  have c: "coerce_comment (coerce_comment c) = coerce_comment c" for c by (simp add: coerce_comment_def)
  have a: "coerce_approval (coerce_approval a) = coerce_approval a" for a by (simp add: coerce_approval_def)
  have t: "coerce_thread (coerce_thread t) = coerce_thread t" for t
    by (cases "ThreadComments t") (simp_all add: coerce_thread_def c)
  show ?thesis by (cases "Approvals r"; cases "Threads r") (simp_all add: coerce_request_def a t)
qed

lemma go_coerce: "go_request r \<Longrightarrow> go_request (coerce_request r)"
proof -
  have "go_thread t \<Longrightarrow> go_thread (coerce_thread t)" for t
    by (cases "ThreadComments t") (auto simp: go_thread_def coerce_thread_def coerce_comment_def list_all_iff)
  then show "go_request r \<Longrightarrow> go_request (coerce_request r)"
    by (cases "Threads r") (auto simp: go_request_def coerce_request_def list_all_iff)
qed

lemma text_codec_json: "json_codec text_codec"
  unfolding json_codec_def
proof (intro conjI allI impI)
  fix r json assume h: "go_request r" "marshal text_codec r = Inr json"
  then have "json = put_items (request_fields (coerce_request r))" by (simp add: text_codec_def)
  moreover have "length (request_fields (coerce_request r)) = 30" by (simp add: request_fields_def)
  ultimately show "decode_first text_codec (json @ [CHR 0x0A]) = Inr (coerce_request r)"
    using go_coerce [OF h(1)] coerce_request_idem [of r] by (simp add: text_codec_def)
  show "decode_rest text_codec (json @ [CHR 0x0A]) = None" by (simp add: text_codec_def)
next
  fix contents r assume "decode_first text_codec contents = Inr r"
  then show "go_request r" "coerce_request r = r" by (auto simp: text_codec_def Let_def split: if_splits)
qed

section \<open>Instances\<close>

abbreviation text_store :: "merge_request store" where
  "text_store \<equiv> review_store ''/'' sample_locks text_codec"

definition open_fs :: file_system where
  "open_fs = \<lparr>dirs = [(''/g/r.git'', [(''HEAD'', Regular [])])], plain_files = [], faults = []\<rparr>"

definition request_from :: "string \<Rightarrow> nat \<Rightarrow> merge_request" where
  "request_from branch n = sample_request\<lparr>Source := branch, ID := n\<rparr>"

lemma text_paths:
  "store_path text_store sample_repo = ''/g/r.reviews''" "git_path text_store sample_repo = ''/g/r.git''"
  by (simp_all add: store_path_def git_path_def sample_repo_def rooted_clean_def rooted_path_def)

lemma request_from_simps [simp]:
  "ID (request_from b n) = n" "Source (request_from b n) = b" "Target (request_from b n) = ''main''"
  "State (request_from b n) = StateOpen"
  by (simp_all add: request_from_def sample_request_def)

lemma request_from_created:
  "review_created sample_time sample_repo (request_from b k) n = request_from b n"
  by (simp add: review_created_def review_defaults_def review_normalize_def request_from_def sample_request_def Let_def
    UTC_sample IsZero_def sample_time_def UTC_def)

lemma request_from_wf:
  assumes "TrimSpace b \<noteq> []" "b \<noteq> ''main''" "0 < n"
  shows "wf_merge_request sample_repo n (request_from b n)"
proof -
  have "TrimSpace ''t'' = ''t''" "TrimSpace ''a'' = ''a''" "TrimSpace ''main'' = ''main''"
    by (rule TrimSpace_plain; simp add: plain_char_def)+
  then show ?thesis using assms
    by (simp add: wf_merge_request_def request_from_def sample_request_def sample_hash_plain IsZero_def Before_def sample_time_def
      Full_def Group_def sample_repo_def wf_completion_def not_merged_def not_closed_def wf_claim_def no_plan_def)
qed

lemma request_from_go: "n < 2 ^ 64 \<Longrightarrow> go_request (request_from b n)"
  by (simp add: go_request_def request_from_def sample_request_def)

lemma coerce_literals:
  "coerce_utf8 ''g/r'' = ''g/r''" "coerce_utf8 ''t'' = ''t''" "coerce_utf8 ''a'' = ''a''" "coerce_utf8 ''main'' = ''main''"
  "coerce_utf8 ''open'' = ''open''" "coerce_utf8 sample_hash = sample_hash" "coerce_utf8 ''dev'' = ''dev''"
  by (rule coerce_id, rule ascii_valid, simp add: byte_in_def sample_hash_def list_all_iff)+

lemma request_from_coerce: "coerce_request (request_from b n) = request_from (coerce_utf8 b) n"
  by (simp add: coerce_request_def request_from_def sample_request_def coerce_literals)

lemma request_from_normal: "review_normalize (request_from b n) = request_from b n"
  by (simp add: review_normalize_def request_from_def sample_request_def UTC_sample)

lemma length_put_items: "length (put_items xs) = sum_list (map (\<lambda>x. 2 * length x + 1) xs)"
  by (induction xs) (simp_all add: put_items_def length_concat o_def sum_list_triv)

lemma coerce_length: "length (coerce_utf8 s) \<le> 3 * length s"
proof (induction s rule: coerce_utf8.induct)
  case (1 s)
  consider "s = []" | "s \<noteq> []" "rune_length s = 0" | "s \<noteq> []" "rune_length s \<noteq> 0" by blast
  then show ?case
  proof cases
    case 2
    then have "coerce_utf8 s = replacement @ coerce_utf8 (drop 1 s)" by (subst coerce_utf8.simps) simp
    then show ?thesis using "1.IH"(1) [OF 2] 2(1) by (cases s) (simp_all add: replacement_def)
  next
    case 3
    then have "coerce_utf8 s = take (rune_length s) s @ coerce_utf8 (drop (rune_length s) s)" by (subst coerce_utf8.simps) simp
    then show ?thesis using "1.IH"(2) [OF 3] rune_length_le [of s] by simp
  qed simp
qed

lemma request_from_small:
  assumes "n < 2 ^ 64" "length b \<le> 15"
  shows "length (put_items (request_fields (request_from b n))) < maximumRecordBytes"
proof -
  have "n < 10 ^ Suc 19" using assms(1) by (rule order.strict_trans2) simp
  then have "length (print_nat n) \<le> Suc 19" by (rule print_nat_length)
  moreover have "length (put_time sample_time) = 14" "length (put_int 1) = 2"
    "put_option put_time None = []" "length (put_bool False) = 5"
    "length (put_slice put_approval (Some [])) = 1" "length (put_slice put_thread (Some [])) = 1" by code_simp+
  moreover have "length sample_hash = 40" by (simp add: sample_hash_def)
  ultimately show ?thesis using assms(2)
    by (simp add: length_put_items request_fields_def request_from_def sample_request_def)
qed

lemma view_written_new:
  assumes "wrote (review_store root env cd) d r json s t" "json_codec cd" "go_request r" "review_normalize r = r"
    "review_validate any (ID r) (coerce_request r) = Inr ()"
  shows "view (review_store root env cd) any t d (ID r) = Some (coerce_request r)"
proof -
  let ?c = "json @ [CHR 0x0A]"
  have w: "dir_entry t d (record_name (ID r)) = Some (Regular ?c)" and m: "marshal cd r = Inr json" "length json < maximumRecordBytes" "0 < ID r"
    using assms(1) record_name_not_tmp [of "ID r"] unfolding wrote_def file_replaced_def by simp_all
  have "decode_first cd ?c = Inr (coerce_request r)" "decode_rest cd ?c = None"
    using assms(2) m(1) assms(3,4) unfolding json_codec_def by blast+
  then have "decode_record (review_store root env cd) any (ID r) ?c = Inr (coerce_request r)"
    using m(2) assms(5) by (simp add: decode_record_def)
  then show ?thesis unfolding view_iff using w m(3) assms(3) by (simp add: go_request_def)
qed

text \<open>The sample repository with no other files than those of its requests, the numbers at most \<open>m\<close>.\<close>

definition few_requests :: "nat \<Rightarrow> file_system \<Rightarrow> bool" where
  "few_requests m s \<longleftrightarrow> faults s = [] \<and> plain_files s = [] \<and> tables_ok s \<and> dir_entry s ''/g/r.git'' ''HEAD'' \<noteq> None \<and>
     (\<forall>k. dir_entry s ''/g/r.reviews'' (record_name k) \<noteq> None \<longrightarrow> k \<le> m)"

lemma request_created:
  assumes "few_requests m s" "m < 100" "TrimSpace b \<noteq> []" "b \<noteq> ''main''" "length b \<le> 5"
    "TrimSpace (coerce_utf8 b) \<noteq> []" "coerce_utf8 b \<noteq> ''main''"
    "\<And>k q. view text_store sample_repo s ''/g/r.reviews'' k = Some q \<Longrightarrow> State q = StateOpen \<Longrightarrow> Source q \<noteq> b"
  shows "\<exists>n t. review_Create text_store sample_time sample_repo (request_from b 0) s = (Inr (request_from b n), t) \<and>
    few_requests (Suc m) t \<and> n \<le> Suc m \<and>
    view text_store sample_repo t ''/g/r.reviews'' n = Some (request_from (coerce_utf8 b) n) \<and>
    (\<forall>k q. view text_store sample_repo s ''/g/r.reviews'' k = Some q \<longrightarrow>
       k < n \<and> view text_store sample_repo t ''/g/r.reviews'' k = Some q)"
proof -
  let ?d = "''/g/r.reviews''"
  note rooted = review_store_rooted [OF sample_rooted, of sample_locks text_codec]
  have s: "faults s = []" "plain_files s = []" "tables_ok s" "dir_entry s ''/g/r.git'' ''HEAD'' \<noteq> None"
    "\<forall>k. dir_entry s ?d (record_name k) \<noteq> None \<longrightarrow> k \<le> m" using assms(1) by (simp_all add: few_requests_def)
  have git: "dir_at s (git_path text_store sample_repo) \<noteq> None"
    using s(4) unfolding text_paths by (cases "dir_at s ''/g/r.git''") (simp_all add: dir_entry_def)
  have fill: "review_normalize (review_defaults sample_time sample_repo n (request_from b 0)) = request_from b n" for n
    using request_from_created [of b 0 n] by (simp only: review_created_def)
  have "\<exists>r t. create_record text_store sample_repo (find_duplicate (Target (request_from b 0)) (Source (request_from b 0)))
      (\<lambda>n. review_defaults sample_time sample_repo n (request_from b 0)) s = (Inr r, t) \<and> faults t = [] \<and>
      (\<forall>k. (\<forall>j. dir_entry s (store_path text_store sample_repo) (record_name j) \<noteq> None \<longrightarrow> j \<le> k) \<longrightarrow> record_id text_store r \<le> Suc k)"
  proof (rule reviews.create_runs [OF s(1) sample_repo_wf(1) rooted s(3) _ git])
    show "\<forall>q\<in>set (repository_locks text_store [sample_repo]). wf_request q" using review_requests_wf by simp
    show "store_path text_store sample_repo \<notin> set (plain_files s)" by (simp add: s(2))
    show "k < 2 ^ 64 - 1" if "dir_entry s (store_path text_store sample_repo) (record_name k) \<noteq> None" for k
    proof -
      have "k \<le> m" using s(5) that unfolding text_paths by blast
      then show ?thesis using assms(2) by simp
    qed
    show "find_duplicate (Target (request_from b 0)) (Source (request_from b 0)) rs = Inr ()"
      if "\<And>r. r \<in> set rs \<Longrightarrow> view text_store sample_repo s (store_path text_store sample_repo) (record_id text_store r) = Some r" for rs
      unfolding find_duplicate_iff using that assms(8) unfolding text_paths by (metis request_from_simps(2))
    show "record_id text_store (review_defaults sample_time sample_repo n (request_from b 0)) = n" for n by simp
    show "validate text_store sample_repo n (normalize text_store (review_defaults sample_time sample_repo n (request_from b 0))) = Inr ()"
      if "0 < n" for n
      using request_from_wf [OF assms(3,4) that] by (simp only: review_store_simps fill review_validate_iff)
    show "\<exists>json. marshal (codec text_store) (normalize text_store (review_defaults sample_time sample_repo n (request_from b 0))) = Inr json \<and>
        length json < maximumRecordBytes" if "n < 2 ^ 64" for n
      using request_from_small [OF that, of "coerce_utf8 b"] coerce_length [of b] assms(5)
      by (simp only: review_store_simps fill) (simp add: text_codec_def request_from_coerce)
  qed
  then obtain r t where run: "review_Create text_store sample_time sample_repo (request_from b 0) s = (Inr r, t)" "faults t = []"
    "ID r \<le> Suc m" using s(5) unfolding review_Create_def text_paths by (simp only: review_store_simps) blast
  note c = review_Create_cases [OF run(1) sample_repo_wf(1) sample_rooted s(3), unfolded sum.case request_from_created text_paths]
  define n where "n = ID r"
  have r: "r = request_from b n" using c by (simp add: n_def)
  have n: "0 < n" "n < 2 ^ 64" using c by (simp_all add: n_def wf_merge_request_def)
  obtain u json where u: "same_records s u" "wrote text_store ?d (request_from b n) json u t"
    using c unfolding stored_record_def text_paths r [symmetric] by blast
  have entries: "dir_entry t ?d (record_name k) = (if k = n then Some (Regular (json @ [CHR 0x0A])) else dir_entry s ?d (record_name k))" for k
    using u record_name_not_tmp [of k] unfolding wrote_def file_replaced_def same_records_def by simp
  have heads: "dir_entry t ''/g/r.git'' ''HEAD'' = dir_entry s ''/g/r.git'' ''HEAD''"
    using u(1) wrote_frame [OF u(2)] by (simp add: same_records_def dir_entry_def HasSuffix_def suffix_to_prefix)
  have "tables_ok t" "plain_files t = []"
    using wrote_frame [OF u(2)] u(1) s(2,3) by (simp_all add: same_records_def)
  then have few: "few_requests (Suc m) t"
    using heads s(4,5) run(2,3) unfolding few_requests_def entries n_def [symmetric] by auto
  have wf: "review_validate sample_repo (ID (request_from b n)) (coerce_request (request_from b n)) = Inr ()"
    unfolding review_validate_iff request_from_coerce request_from_simps by (rule request_from_wf [OF assms(6,7) n(1)])
  have new: "view text_store sample_repo t ?d n = Some (request_from (coerce_utf8 b) n)"
    using view_written_new [OF u(2) text_codec_json request_from_go [OF n(2)] request_from_normal wf]
    by (simp add: request_from_coerce)
  have old: "k < n \<and> view text_store sample_repo t ?d k = Some q" if k: "view text_store sample_repo s ?d k = Some q" for k q
  proof -
    have "k < n" using c k by (simp add: n_def)
    then show ?thesis using k unfolding view_iff entries by simp
  qed
  show ?thesis using run(1,3) few new old unfolding r n_def [symmetric] by (intro exI [of _ n] exI [of _ t]) simp
qed

lemma open_fs_entries: "dir_at open_fs p = (if p = ''/g/r.git'' then Some [(''HEAD'', Regular [])] else None)"
  by (simp add: open_fs_def dir_at_def)

lemma open_fs_few: "few_requests 0 open_fs"
  by (auto simp: few_requests_def tables_ok_def dir_entry_def open_fs_entries split: if_splits) (simp_all add: open_fs_def)

lemma open_fs_view: "view text_store repo open_fs d = Map.empty"
proof -
  have "record_name k \<noteq> ''HEAD''" for k
    using record_name_json [of k] by (auto simp: HasSuffix_def suffix_to_prefix)
  then show ?thesis
    by (intro ext option_ext) (auto simp: view_iff dir_entry_def open_fs_entries)
qed

theorem open_requests_unique_witness:
  "\<exists>n t. review_Create text_store sample_time sample_repo (request_from ''dev'' 0) open_fs = (Inr (request_from ''dev'' n), t) \<and>
     rtranclp (review_step ''/'' sample_locks text_codec) open_fs t \<and>
     view text_store sample_repo t ''/g/r.reviews'' n = Some (request_from ''dev'' n) \<and>
     unique_open (view text_store sample_repo t ''/g/r.reviews'')"
proof -
  have dev: "TrimSpace ''dev'' \<noteq> []" using TrimSpace_plain [of "''dev''"] by (simp add: plain_char_def)
  then obtain n t where run: "review_Create text_store sample_time sample_repo (request_from ''dev'' 0) open_fs = (Inr (request_from ''dev'' n), t)"
    "view text_store sample_repo t ''/g/r.reviews'' n = Some (request_from ''dev'' n)"
    using request_created [OF open_fs_few, of "''dev''"] by (auto simp: coerce_literals open_fs_view)
  have "utf8_branches (request_from ''dev'' 0)" by (simp add: utf8_branches_def valid_utf8_def coerce_literals)
  then have step: "rtranclp (review_step ''/'' sample_locks text_codec) open_fs t"
    using review_step.create [OF run(1) sample_repo_wf(1) request_from_go] by simp
  have "unique_open (view text_store repo open_fs d)" for repo d by (simp add: open_fs_view)
  moreover have "tables_ok open_fs" using open_fs_few by (simp add: few_requests_def)
  ultimately show ?thesis
    using open_requests_unique [OF step text_codec_json sample_rooted, of sample_repo "''/g/r.reviews''"] run step by blast
qed

text \<open>
  The hypothesis on the branch names is needed: two requests from a branch with an invalid byte in its
  name are both created, without any fault, and both are open with the same branches afterwards.
\<close>

lemma invalid_branch_twice:
  defines "b \<equiv> [CHR ''d'', CHR 0xFF, CHR ''v'']"
  shows "\<exists>n k s t.
    review_Create text_store sample_time sample_repo (request_from b 0) open_fs = (Inr (request_from b n), s) \<and>
    review_Create text_store sample_time sample_repo (request_from b 0) s = (Inr (request_from b k), t) \<and>
    \<not> unique_open (view text_store sample_repo t ''/g/r.reviews'')"
proof -
  let ?v = "\<lambda>s. view text_store sample_repo s ''/g/r.reviews''"
  have c: "coerce_utf8 b = [CHR ''d'', CHR 0xEF, CHR 0xBF, CHR 0xBD, CHR ''v'']" unfolding b_def by code_simp
  have "TrimSpace b = b" "TrimSpace (coerce_utf8 b) = coerce_utf8 b" "b \<noteq> ''main''" "coerce_utf8 b \<noteq> ''main''" "length b \<le> 5"
    unfolding c by (simp_all add: TrimSpace_plain plain_char_def b_def)
  then have b: "TrimSpace b \<noteq> []" "b \<noteq> ''main''" "length b \<le> 5" "TrimSpace (coerce_utf8 b) \<noteq> []" "coerce_utf8 b \<noteq> ''main''"
    unfolding c by (simp_all add: b_def)
  have new: "Source q \<noteq> b" if h: "?v s k = Some q" for s k q
  proof -
    obtain contents where "decode_record text_store sample_repo k contents = Inr q"
      using h unfolding view_iff by blast
    then have "coerce_utf8 (Source q) = Source q"
      using record_decoded(2) [OF text_codec_json] unfolding utf8_branches_def valid_utf8_def by blast
    then show ?thesis using c by (auto simp: b_def)
  qed
  obtain n s where s: "review_Create text_store sample_time sample_repo (request_from b 0) open_fs = (Inr (request_from b n), s)"
    "few_requests (Suc 0) s" "?v s n = Some (request_from (coerce_utf8 b) n)"
    using request_created [OF open_fs_few _ b] new by auto
  obtain k t where t: "review_Create text_store sample_time sample_repo (request_from b 0) s = (Inr (request_from b k), t)"
    "?v t k = Some (request_from (coerce_utf8 b) k)" "n < k" "?v t n = Some (request_from (coerce_utf8 b) n)"
    using request_created [OF s(2) _ b] new s(3) by fastforce
  have "\<not> unique_open (?v t)"
    using t(2-4) unfolding unique_open_def by (metis nat_neq_iff request_from_simps(2-4))
  then show ?thesis using s(1) t(1) by blast
qed

end
