(* ===== verification/JobStore.thy ===== *)
theory JobStore
  imports FileLaws SafePath GoTime "HOL-Library.Product_Lexorder"
begin

text \<open>
  The build records of the runner, \<^verbatim>\<open>src/internal/runner/store.go\<close>: one JSON file and one log
  file per build in the directory \<^verbatim>\<open><repo>.build\<close>, over the file-system model. JSON is a
  parameter. The lemmas give what the operations do to the map from build identifiers to builds
  and to the logs, under every pattern of faults.
\<close>

section \<open>Builds\<close>

abbreviation StatusManual :: string where "StatusManual \<equiv> ''manual''"
abbreviation StatusWaiting :: string where "StatusWaiting \<equiv> ''waiting''"
abbreviation StatusQueued :: string where "StatusQueued \<equiv> ''queued''"
abbreviation StatusRunning :: string where "StatusRunning \<equiv> ''running''"
abbreviation StatusSucceeded :: string where "StatusSucceeded \<equiv> ''succeeded''"
abbreviation StatusFailed :: string where "StatusFailed \<equiv> ''failed''"
abbreviation StatusCanceled :: string where "StatusCanceled \<equiv> ''canceled''"

record job_dependency =
  NeedName :: string
  NeedID :: string

record job =
  JobID :: string
  JobName :: string
  JobRepository :: string
  JobBranch :: string
  JobCommit :: string
  JobImage :: string
  JobNeeds :: "job_dependency list"
  Status :: string
  JobCreatedAt :: gotime
  StartedAt :: "gotime option"
  FinishedAt :: "gotime option"
  JobError :: string
  RunnerID :: string
  Attempt :: int
  LeaseExpiresAt :: "gotime option"
  RerunOf :: string

text \<open>
  The store: its root, the working directory, what \<^verbatim>\<open>encoding/json\<close> makes of a build and of a file,
  and how many bytes a failing write to a log leaves behind.
\<close>

record job_store =
  state_root :: string
  state_getwd :: "string result"
  job_marshal :: "job \<Rightarrow> string result"
  job_decode :: "string \<Rightarrow> job result"
  short_write :: "string \<Rightarrow> nat"

abbreviation maximumLogBytes :: nat where "maximumLogBytes \<equiv> 1048576"
abbreviation MaximumStoredLogBytes :: nat where "MaximumStoredLogBytes \<equiv> 10485760"

section \<open>Paths\<close>

definition job_char :: "char \<Rightarrow> bool" where
  "job_char c \<longleftrightarrow> (CHR ''a'' \<le> c \<and> c \<le> CHR ''z'') \<or> (CHR ''A'' \<le> c \<and> c \<le> CHR ''Z'') \<or>
     (CHR ''0'' \<le> c \<and> c \<le> CHR ''9'') \<or> c = CHR ''-'' \<or> c = CHR ''_''"

definition validJobID :: "string \<Rightarrow> bool" where
  "validJobID jid = (if jid = [] \<or> length jid > 100 then False else list_all job_char jid)"

definition buildPath :: "job_store \<Rightarrow> string \<Rightarrow> string \<Rightarrow> string \<Rightarrow> string result" where
  "buildPath st directory jid ending =
     (if \<not> validJobID jid then Inl (Errorf ''invalid build ID'')
      else SafeJoin (state_getwd st) directory [jid @ ending])"

definition job_directory :: "job_store \<Rightarrow> repository \<Rightarrow> string result" where
  "job_directory st repo =
     SafeJoin (state_getwd st) (state_root st) (Groups repo @ [Name repo @ ''.build''])"

definition jobPath :: "job_store \<Rightarrow> repository \<Rightarrow> string \<Rightarrow> string \<Rightarrow> string result" where
  "jobPath st repo jid ending = bindr (job_directory st repo) (\<lambda>directory. buildPath st directory jid ending)"

definition workRoot :: "job_store \<Rightarrow> string result" where
  "workRoot st = SafeJoin (state_getwd st) (state_root st) [''.gitone'', ''work'']"

section \<open>Reading builds\<close>

text \<open>\<^verbatim>\<open>os.ReadFile\<close>: opening, then reading, which fails on a directory.\<close>

definition ReadFile :: "string \<Rightarrow> string \<Rightarrow> string io" where
  "ReadFile d name =
     bindio (Open d name) (\<lambda>file.
     bindio Touch (\<lambda>_. lift_io (case file of None \<Rightarrow> Inl ErrIO | Some c \<Rightarrow> Inr c)))"

definition readJob :: "job_store \<Rightarrow> string \<Rightarrow> string \<Rightarrow> job io" where
  "readJob st directory jid =
     bindio (lift_io (buildPath st directory jid ''.json'')) (\<lambda>_.
     bindio (ReadFile directory (jid @ ''.json'')) (\<lambda>contents.
       lift_io (case job_decode st contents of
         Inl err \<Rightarrow> Inl (Wrap (''read build '' @ jid) err)
       | Inr j \<Rightarrow> Inr j)))"

fun read_jobs :: "job_store \<Rightarrow> string \<Rightarrow> FileSystem.directory \<Rightarrow> job list io" where
  "read_jobs st directory [] = return_io []"
| "read_jobs st directory ((name, node) # entries) =
     (if node = Subdir \<or> \<not> HasSuffix name ''.json'' then read_jobs st directory entries
      else bindio (readJob st directory (TrimSuffix name ''.json'')) (\<lambda>j.
           bindio (read_jobs st directory entries) (\<lambda>js. return_io (j # js))))"

text \<open>
  Newest first, then by name. Builds with the same instant and name keep the directory's order
  (Go's sort leaves their order open).
\<close>

definition job_order :: "job \<Rightarrow> int \<times> string" where
  "job_order j = (- instant (JobCreatedAt j), JobName j)"

definition list_jobs :: "job_store \<Rightarrow> repository \<Rightarrow> job list io" where
  "list_jobs st repo =
     bindio (lift_io (job_directory st repo)) (\<lambda>directory.
     bindio (attempt (ReadDir directory)) (\<lambda>r.
       case r of
         Inl err \<Rightarrow> if errors_is err ErrNotExist then return_io [] else lift_io (Inl err)
       | Inr entries \<Rightarrow>
           bindio (read_jobs st directory entries) (\<lambda>jobs. return_io (sort_key job_order jobs))))"

definition get_job :: "job_store \<Rightarrow> repository \<Rightarrow> string \<Rightarrow> job io" where
  "get_job st repo jid =
     bindio (lift_io (job_directory st repo)) (\<lambda>directory. readJob st directory jid)"

section \<open>Writing builds\<close>

definition save_job :: "job_store \<Rightarrow> repository \<Rightarrow> job \<Rightarrow> unit io" where
  "save_job st repo j =
     bindio (lift_io (job_directory st repo)) (\<lambda>directory.
     bindio (lift_io (buildPath st directory (JobID j) ''.json'')) (\<lambda>_.
     bindio (MkdirAll directory) (\<lambda>_.
     bindio (lift_io (job_marshal st j)) (\<lambda>json.
       replace_file directory ''.build-''
         (\<lambda>temporary. bindio Touch (\<lambda>_. WriteFile directory temporary (json @ [CHR 0x0A])))
         (JobID j @ ''.json'')))))"

section \<open>Logs\<close>

text \<open>What an open log file holds: links are followed.\<close>

definition node_contents :: "node \<Rightarrow> string" where
  "node_contents n = (case n of Regular c \<Rightarrow> c | Link (Some c) \<Rightarrow> c | _ \<Rightarrow> [])"

definition with_contents :: "node \<Rightarrow> string \<Rightarrow> node" where
  "with_contents n c = (case n of Link _ \<Rightarrow> Link (Some c) | _ \<Rightarrow> Regular c)"

text \<open>
  \<^verbatim>\<open>os.OpenFile\<close> with \<^verbatim>\<open>O_CREATE|O_WRONLY\<close>, and \<^verbatim>\<open>O_TRUNC\<close> when \<open>fresh\<close>: the file exists afterwards.
\<close>

definition OpenFile :: "bool \<Rightarrow> string \<Rightarrow> string \<Rightarrow> unit io" where
  "OpenFile fresh d name = call_io (\<lambda>s. (case dir_at s d of
     None \<Rightarrow> (Inl ErrNotExist, s)
   | Some t \<Rightarrow>
       (case map_of t name of
          Some Subdir \<Rightarrow> (Inl ErrIO, s)
        | None \<Rightarrow> (Inr (), put_dir d (AList.update name (Regular []) t) s)
        | Some n \<Rightarrow> (Inr (), put_dir d (AList.update name (if fresh then with_contents n [] else with_contents n (node_contents n)) t) s))))"

text \<open>\<^verbatim>\<open>file.Stat\<close> and a write at the end of the open file. A write that fails may have stored a prefix.\<close>

definition FileSize :: "string \<Rightarrow> string \<Rightarrow> nat io" where
  "FileSize d name = call_io (\<lambda>s. (case dir_at s d of
     None \<Rightarrow> Inl ErrNotExist
   | Some t \<Rightarrow> (case map_of t name of None \<Rightarrow> Inl ErrNotExist | Some n \<Rightarrow> Inr (length (node_contents n))), s))"

definition append_node :: "string \<Rightarrow> string \<Rightarrow> string \<Rightarrow> unit io" where
  "append_node d name c s = (case dir_at s d of
     None \<Rightarrow> (Inl ErrNotExist, s)
   | Some t \<Rightarrow>
       (case map_of t name of
          None \<Rightarrow> (Inl ErrNotExist, s)
        | Some n \<Rightarrow> (Inr (), put_dir d (AList.update name (with_contents n (node_contents n @ c)) t) s)))"

definition AppendFile :: "(string \<Rightarrow> nat) \<Rightarrow> string \<Rightarrow> string \<Rightarrow> string \<Rightarrow> unit io" where
  "AppendFile short d name c s = (case syscall s of
     (Inr _, t) \<Rightarrow> append_node d name c t
   | (Inl e, t) \<Rightarrow> (Inl e, snd (append_node d name (take (short c) c) t)))"

definition read_log :: "string \<Rightarrow> string" where
  "read_log contents =
     (let c = take (maximumLogBytes + 1) contents in
      if length c > maximumLogBytes
      then take maximumLogBytes c @ [CHR 0x0A] @ ''[log truncated by GitOne]'' @ [CHR 0x0A] else c)"

definition job_log :: "job_store \<Rightarrow> repository \<Rightarrow> string \<Rightarrow> string io" where
  "job_log st repo jid =
     bindio (lift_io (job_directory st repo)) (\<lambda>directory.
     bindio (lift_io (buildPath st directory jid ''.log'')) (\<lambda>_.
     bindio (attempt (Open directory (jid @ ''.log''))) (\<lambda>r.
       case r of
         Inl err \<Rightarrow> if errors_is err ErrNotExist then return_io [] else lift_io (Inl err)
       | Inr file \<Rightarrow>
           bindio Touch (\<lambda>_. lift_io (case file of None \<Rightarrow> Inl ErrIO | Some c \<Rightarrow> Inr (read_log c))))))"

definition createLog :: "job_store \<Rightarrow> repository \<Rightarrow> string \<Rightarrow> string io" where
  "createLog st repo jid =
     bindio (lift_io (job_directory st repo)) (\<lambda>directory.
     bindio (lift_io (buildPath st directory jid ''.log'')) (\<lambda>_.
     bindio (MkdirAll directory) (\<lambda>_.
     bindio (OpenFile True directory (jid @ ''.log'')) (\<lambda>_. return_io directory))))"

definition logSize :: "job_store \<Rightarrow> repository \<Rightarrow> string \<Rightarrow> nat io" where
  "logSize st repo jid =
     bindio (lift_io (job_directory st repo)) (\<lambda>directory.
     bindio (lift_io (buildPath st directory jid ''.log'')) (\<lambda>_.
     bindio (attempt (FileSize directory (jid @ ''.log''))) (\<lambda>r.
       case r of
         Inl err \<Rightarrow> if errors_is err ErrNotExist then return_io 0 else lift_io (Inl err)
       | Inr n \<Rightarrow> return_io n)))"

text \<open>
  Appending at an offset: the result is the new size. (With a wrong offset the code also returns the
  size beside the error; its caller discards it.)
\<close>

definition print_int :: "int \<Rightarrow> string" where
  "print_int i = (if i < 0 then ''-'' @ print_nat (nat (- i)) else print_nat (nat i))"

definition appendLog :: "job_store \<Rightarrow> repository \<Rightarrow> string \<Rightarrow> int \<Rightarrow> string \<Rightarrow> nat io" where
  "appendLog st repo jid offset contents =
     bindio (lift_io (job_directory st repo)) (\<lambda>directory.
     bindio (lift_io (buildPath st directory jid ''.log'')) (\<lambda>_.
     bindio (MkdirAll directory) (\<lambda>_.
     bindio (OpenFile False directory (jid @ ''.log'')) (\<lambda>_.
     bindio (FileSize directory (jid @ ''.log'')) (\<lambda>file_size.
       if int file_size \<noteq> offset
       then lift_io (Inl (Errorf (''build log offset is '' @ print_nat file_size @ '', not '' @ print_int offset)))
       else if file_size \<ge> MaximumStoredLogBytes then return_io file_size
       else let c = take (MaximumStoredLogBytes - file_size) contents in
         bindio Touch (\<lambda>_.
         bindio (AppendFile (short_write st) directory (jid @ ''.log'') c) (\<lambda>_. return_io (file_size + length c))))))))"

section \<open>Names\<close>

lemma job_names [simp]:
  "\<not> HasSuffix (a @ ''.json'') ''.tmp''" "\<not> HasSuffix (a @ ''.log'') ''.tmp''"
  "a @ ''.log'' \<noteq> b @ ''.json''" "b @ ''.json'' \<noteq> a @ ''.log''"
proof -
  have last: "last (a @ x) = last x" if "x \<noteq> []" for a x :: string using that by simp
  show "\<not> HasSuffix (a @ ''.json'') ''.tmp''"
  proof
    assume "HasSuffix (a @ ''.json'') ''.tmp''"
    then obtain t where "a @ ''.json'' = t @ ''.tmp''" by (rule HasSuffixE)
    then have "last (a @ ''.json'') = last (t @ ''.tmp'')" by simp
    then show False by simp
  qed
  show "\<not> HasSuffix (a @ ''.log'') ''.tmp''"
  proof
    assume "HasSuffix (a @ ''.log'') ''.tmp''"
    then obtain t where "a @ ''.log'' = t @ ''.tmp''" by (rule HasSuffixE)
    then have "last (a @ ''.log'') = last (t @ ''.tmp'')" by simp
    then show False by simp
  qed
  show "a @ ''.log'' \<noteq> b @ ''.json''"
  proof
    assume "a @ ''.log'' = b @ ''.json''"
    then have "last (a @ ''.log'') = last (b @ ''.json'')" by simp
    then show False by simp
  qed
  then show "b @ ''.json'' \<noteq> a @ ''.log''" by (rule not_sym)
qed

section \<open>The map of builds\<close>

text \<open>The build a directory holds under an identifier, and the contents of its log.\<close>

definition job_view :: "job_store \<Rightarrow> file_system \<Rightarrow> string \<Rightarrow> string \<rightharpoonup> job" where
  "job_view st s d jid =
     (if \<not> validJobID jid then None
      else case open_node (dir_entry s d (jid @ ''.json'')) of
        Inr (Some c) \<Rightarrow> (case job_decode st c of Inr j \<Rightarrow> Some j | Inl _ \<Rightarrow> None)
      | _ \<Rightarrow> None)"

definition log_view :: "file_system \<Rightarrow> string \<Rightarrow> string \<Rightarrow> string" where
  "log_view s d jid = (case dir_entry s d (jid @ ''.log'') of None \<Rightarrow> [] | Some n \<Rightarrow> node_contents n)"

text \<open>Nothing but temporary names changed, in any directory.\<close>

definition same_files :: "file_system \<Rightarrow> file_system \<Rightarrow> bool" where
  "same_files s t \<longleftrightarrow> plain_files t = plain_files s \<and> (tables_ok s \<longrightarrow> tables_ok t) \<and>
     (\<forall>d name. \<not> HasSuffix name ''.tmp'' \<longrightarrow> dir_entry t d name = dir_entry s d name)"

lemma same_files_refl [simp, intro]: "same_files s s"
  by (simp add: same_files_def)

lemma same_files_trans [trans]: "same_files s t \<Longrightarrow> same_files t u \<Longrightarrow> same_files s u"
  by (simp add: same_files_def)

lemma same_files_quiet: "quiet m \<Longrightarrow> m s = (x, t) \<Longrightarrow> same_files s t"
  by (simp add: same_files_def quietD tables_ok_quiet dir_entry_quiet)

lemma same_files_only_temp: "only_temp d s t \<Longrightarrow> same_files s t"
  unfolding only_temp_def same_files_def by (auto simp: dir_entry_def)

lemma same_files_MkdirAll: "MkdirAll p s = (x, t) \<Longrightarrow> same_files s t"
  by (auto simp: same_files_def MkdirAll_entries)

lemma same_files_views: "same_files s t \<Longrightarrow> job_view st t = job_view st s" "same_files s t \<Longrightarrow> log_view t = log_view s"
  by (simp_all add: fun_eq_iff job_view_def log_view_def same_files_def)

lemma quiet_ReadFile [intro, simp]: "quiet (ReadFile d name)"
  unfolding ReadFile_def by (intro quiet_bind quiet_reads quiet_return)

lemma quiet_readJob [intro, simp]: "quiet (readJob st d jid)"
  unfolding readJob_def by (intro quiet_bind quiet_return) auto

lemma quiet_read_jobs: "quiet (read_jobs st d es)"
  by (induction st d es rule: read_jobs.induct) (auto intro!: quiet_bind)

lemma quiet_jobs [intro, simp]: "quiet (list_jobs st repo)" "quiet (get_job st repo jid)" "quiet (job_log st repo jid)"
  "quiet (logSize st repo jid)"
proof -
  show "quiet (list_jobs st repo)" unfolding list_jobs_def
    by (intro quiet_bind quiet_attempt quiet_reads quiet_return) (auto intro!: quiet_bind quiet_read_jobs split: sum.split)
  show "quiet (get_job st repo jid)" unfolding get_job_def by (intro quiet_bind quiet_return quiet_readJob)
  show "quiet (job_log st repo jid)" unfolding job_log_def
    by (intro quiet_bind quiet_attempt quiet_reads quiet_return) (auto intro!: quiet_bind split: sum.split)
  have "quiet (FileSize d name)" for d name unfolding FileSize_def by (intro quiet_call) (simp add: quiet_def)
  then show "quiet (logSize st repo jid)" unfolding logSize_def
    by (intro quiet_bind quiet_attempt quiet_return) (auto split: sum.split)
qed

lemma ReadFile_Inr:
  assumes "ReadFile d name s = (Inr c, t)"
  shows "open_node (dir_entry s d name) = Inr (Some c)"
  using assms unfolding ReadFile_def
  by (elim bindio_cases) (auto split: option.splits dest!: Open_Inr)

lemma readJob_Inr:
  assumes "readJob st d jid s = (Inr j, t)"
  shows "job_view st s d jid = Some j"
proof -
  have v: "validJobID jid" using assms by (cases "validJobID jid") (simp_all add: readJob_def buildPath_def)
  obtain p where "buildPath st d jid ''.json'' = Inr p" using assms by (cases "buildPath st d jid ''.json''") (auto simp: readJob_def)
  then obtain c s' where c: "ReadFile d (jid @ ''.json'') s = (Inr c, s')" "job_decode st c = Inr j"
    using assms unfolding readJob_def by (auto elim!: bindio_cases split: sum.splits)
  then show ?thesis using v ReadFile_Inr [OF c(1)] by (simp add: job_view_def)
qed

lemma get_job_Inr:
  assumes "get_job st repo jid s = (Inr j, t)" "job_directory st repo = Inr d"
  shows "job_view st s d jid = Some j" "same_files s t"
proof -
  have "readJob st d jid s = (Inr j, t)" using assms by (simp add: get_job_def)
  then show "job_view st s d jid = Some j" by (rule readJob_Inr)
  show "same_files s t" by (rule same_files_quiet [OF quiet_jobs(2) assms(1)])
qed

text \<open>A saved build: the map is updated at its identifier; logs and other directories are unchanged.\<close>

definition saved_job :: "job_store \<Rightarrow> string \<Rightarrow> job \<Rightarrow> file_system \<Rightarrow> file_system \<Rightarrow> bool" where
  "saved_job st d j s t \<longleftrightarrow> (tables_ok s \<longrightarrow> tables_ok t) \<and> plain_files t = plain_files s \<and> validJobID (JobID j) \<and>
     log_view t = log_view s \<and> (\<forall>p. p \<noteq> d \<longrightarrow> job_view st t p = job_view st s p) \<and>
     (\<exists>json. job_marshal st j = Inr json \<and>
       job_view st t d = (job_view st s d)(JobID j :=
         (case job_decode st (json @ [CHR 0x0A]) of Inr k \<Rightarrow> Some k | Inl _ \<Rightarrow> None)))"

lemma save_job_cases:
  assumes "save_job st repo j s = (x, t)" "job_directory st repo = Inr d"
  obtains (failed) e where "x = Inl e" "same_files s t"
    | (saved) "x = Inr ()" "saved_job st d j s t"
proof (cases "buildPath st d (JobID j) ''.json''")
  case (Inl e)
  then have "x = Inl e" "t = s" using assms by (simp_all add: save_job_def)
  then show ?thesis using failed by simp
next
  case path: (Inr p)
  then have v: "validJobID (JobID j)" by (auto simp: buildPath_def split: if_splits)
  have "bindio (MkdirAll d) (\<lambda>_. bindio (lift_io (job_marshal st j)) (\<lambda>json.
       replace_file d ''.build-'' (\<lambda>temporary. bindio Touch (\<lambda>_. WriteFile d temporary (json @ [CHR 0x0A])))
         (JobID j @ ''.json''))) s = (x, t)"
    using assms path by (simp add: save_job_def)
  then show ?thesis
  proof (cases rule: bindio_cases)
    case (failed e)
    then show ?thesis using that(1) same_files_MkdirAll by blast
  next
    case (went_on _ s1)
    note m = same_files_MkdirAll [OF went_on(1)]
    show ?thesis
    proof (cases "job_marshal st j")
      case (Inl e)
      then have "x = Inl e" "t = s1" using went_on(2) by simp_all
      then show ?thesis using m that(1) by simp
    next
      case json: (Inr json)
      have f: "fills d (json @ [CHR 0x0A]) (\<lambda>temporary. bindio Touch (\<lambda>_. WriteFile d temporary (json @ [CHR 0x0A])))"
        by (intro fills_before fills_WriteFile quiet_reads)
      have "replace_file d ''.build-'' (\<lambda>temporary. bindio Touch (\<lambda>_. WriteFile d temporary (json @ [CHR 0x0A])))
         (JobID j @ ''.json'') s1 = (x, t)" using went_on(2) json by simp
      then show ?thesis using f job_names(1)
      proof (cases rule: replace_file_cases)
        case (failed e)
        then show ?thesis using that(1) same_files_trans [OF m same_files_only_temp] by blast
      next
        case replaced
        note r = replaced(2) [unfolded file_replaced_def]
        have other: "dir_entry t p name = dir_entry s1 p name" if "p \<noteq> d" for p name
          using r that by (simp add: dir_entry_def)
        have here: "dir_entry t d name = (if name = JobID j @ ''.json'' then Some (Regular (json @ [CHR 0x0A])) else dir_entry s1 d name)"
          if "\<not> HasSuffix name ''.tmp''" for name using r that by simp
        have "log_view t p jid = log_view s1 p jid" for p jid
          by (cases "p = d") (simp_all add: log_view_def here other)
        moreover have "job_view st t p = job_view st s1 p" if "p \<noteq> d" for p
          by (simp add: fun_eq_iff job_view_def other [OF that])
        moreover have "job_view st t d = (job_view st s1 d)(JobID j :=
            (case job_decode st (json @ [CHR 0x0A]) of Inr k \<Rightarrow> Some k | Inl _ \<Rightarrow> None))"
          using v by (auto simp: fun_eq_iff job_view_def here open_node_def split: sum.splits)
        ultimately have "saved_job st d j s t"
          using r m v json same_files_views [OF m] by (auto simp: saved_job_def same_files_def fun_eq_iff)
        then show ?thesis using that(2) replaced(1) by simp
      qed
    qed
  qed
qed

section \<open>Logs under appending\<close>

text \<open>\<open>log_set d jid c s t\<close>: the log has the contents \<open>c\<close>, and no build and no other log changed.\<close>

definition log_set :: "job_store \<Rightarrow> string \<Rightarrow> string \<Rightarrow> string \<Rightarrow> file_system \<Rightarrow> file_system \<Rightarrow> bool" where
  "log_set st d jid c s t \<longleftrightarrow> job_view st t = job_view st s \<and>
     log_view t = (log_view s)(d := (log_view s d)(jid := c)) \<and> (tables_ok s \<longrightarrow> tables_ok t)"

lemma log_set_same: "same_files s t \<Longrightarrow> c = log_view s d jid \<Longrightarrow> log_set st d jid c s t"
  by (simp add: log_set_def same_files_views) (simp add: same_files_def)

lemma log_set_trans: "log_set st d jid c s t \<Longrightarrow> log_set st d jid c' t u \<Longrightarrow> log_set st d jid c' s u"
  by (simp add: log_set_def)

text \<open>Writing an entry of a directory that holds a log.\<close>

lemma log_set_put:
  assumes "dir_at s d = Some tab"
  shows "log_set st d jid (node_contents n) s (put_dir d (AList.update (jid @ ''.log'') n tab) (s\<lparr>faults := fs\<rparr>))"
proof -
  let ?t = "put_dir d (AList.update (jid @ ''.log'') n tab) (s\<lparr>faults := fs\<rparr>)"
  have e: "dir_entry ?t p name = (if p = d \<and> name = jid @ ''.log'' then Some n else dir_entry s p name)" for p name
    using assms by (simp add: dir_entry_def update_conv')
  have "job_view st ?t = job_view st s" by (simp add: fun_eq_iff job_view_def e)
  moreover have "log_view ?t = (log_view s)(d := (log_view s d)(jid := node_contents n))"
    by (simp add: fun_eq_iff log_view_def e)
  moreover have "tables_ok s \<Longrightarrow> tables_ok ?t"
    using tables_okD [OF _ assms] by (intro tables_ok_put) (simp_all add: distinct_update)
  ultimately show ?thesis by (simp add: log_set_def)
qed

lemma with_contents_contents [simp]: "n \<noteq> Subdir \<Longrightarrow> node_contents (with_contents n c) = c"
  by (cases n) (simp_all add: node_contents_def with_contents_def)

lemma OpenFile_log:
  assumes "OpenFile False d (jid @ ''.log'') s = (x, t)"
  shows "log_set st d jid (log_view s d jid) s t \<and>
    (x = Inr () \<longrightarrow> dir_entry t d (jid @ ''.log'') \<notin> {None, Some Subdir})"
  using assms unfolding OpenFile_def
proof (rule call_io_cases)
  fix fs
  assume "x = Inl ErrIO" "t = s\<lparr>faults := fs\<rparr>"
  then show ?thesis by (simp add: log_set_def fun_eq_iff job_view_def log_view_def)
next
  fix fs
  let ?s = "s\<lparr>faults := fs\<rparr>" and ?n = "jid @ ''.log''"
  have same: "log_set st d jid (log_view s d jid) s ?s" by (simp add: log_set_def fun_eq_iff job_view_def log_view_def)
  assume h: "(case dir_at ?s d of None \<Rightarrow> (Inl ErrNotExist, ?s)
   | Some t \<Rightarrow> (case map_of t ?n of Some Subdir \<Rightarrow> (Inl ErrIO, ?s)
        | None \<Rightarrow> (Inr (), put_dir d (AList.update ?n (Regular []) t) ?s)
        | Some n \<Rightarrow> (Inr (), put_dir d (AList.update ?n (if False then with_contents n [] else with_contents n (node_contents n)) t) ?s))) = (x, t)"
  show ?thesis
  proof (cases "dir_at s d")
    case None
    then show ?thesis using h same by auto
  next
    case (Some tab)
    have old: "dir_entry s d ?n = map_of tab ?n" by (simp add: dir_entry_def Some)
    show ?thesis
    proof (cases "map_of tab ?n")
      case None
      then have "x = Inr ()" "t = put_dir d (AList.update ?n (Regular []) tab) ?s" using h Some by simp_all
      then show ?thesis
        using log_set_put [OF Some, of st jid "Regular []" fs] old None
        by (simp add: log_view_def node_contents_def) (simp add: dir_entry_def update_conv')
    next
      case node: (Some n)
      show ?thesis
      proof (cases "n = Subdir")
        case True
        then have "x = Inl ErrIO" "t = ?s" using h Some node by simp_all
        then show ?thesis using same by simp
      next
        case False
        then have "x = Inr ()" "t = put_dir d (AList.update ?n (with_contents n (node_contents n)) tab) ?s"
          using h Some node by (auto split: node.splits)
        moreover have "with_contents n c \<noteq> Subdir" for c by (cases n) (simp_all add: with_contents_def)
        ultimately show ?thesis
          using log_set_put [OF Some, of st jid "with_contents n (node_contents n)" fs] old node False
          by (simp add: log_view_def) (simp add: dir_entry_def update_conv')
      qed
    qed
  qed
qed

lemma FileSize_log:
  assumes "FileSize d (jid @ ''.log'') s = (x, t)"
  shows "same_files s t \<and> (\<forall>n. x = Inr n \<longrightarrow> n = length (log_view s d jid))"
proof -
  have "quiet (FileSize d name)" for name unfolding FileSize_def by (intro quiet_call) (simp add: quiet_def)
  from same_files_quiet [OF this assms] have "same_files s t" .
  moreover have "\<forall>n. x = Inr n \<longrightarrow> n = length (log_view s d jid)"
    using assms unfolding FileSize_def
    by (elim call_io_cases) (auto simp: log_view_def dir_entry_def split: option.splits)
  ultimately show ?thesis by simp
qed

lemma append_node_log:
  assumes "dir_entry s d (jid @ ''.log'') \<notin> {None, Some Subdir}"
  shows "\<exists>t. append_node d (jid @ ''.log'') c s = (Inr (), t) \<and> log_set st d jid (log_view s d jid @ c) s t"
proof -
  obtain tab n where tab: "dir_at s d = Some tab" "map_of tab (jid @ ''.log'') = Some n" "n \<noteq> Subdir"
    using assms by (auto simp: dir_entry_def split: option.splits)
  moreover have "log_view s d jid = node_contents n" using tab by (simp add: log_view_def dir_entry_def)
  moreover have "s\<lparr>faults := faults s\<rparr> = s" by simp
  ultimately show ?thesis
    using log_set_put [OF tab(1), of st jid "with_contents n (node_contents n @ c)" "faults s"] by (simp add: append_node_def)
qed

lemma AppendFile_log:
  assumes "AppendFile short d (jid @ ''.log'') c s = (x, t)" "dir_entry s d (jid @ ''.log'') \<notin> {None, Some Subdir}"
  shows "(\<exists>e k. x = Inl e \<and> log_set st d jid (log_view s d jid @ take k c) s t) \<or>
    (x = Inr () \<and> log_set st d jid (log_view s d jid @ c) s t)"
proof -
  obtain y u where y: "syscall s = (y, u)" by fastforce
  then have q: "same_files s u" by (rule same_files_quiet [OF quiet_syscall])
  then have e: "dir_entry u d (jid @ ''.log'') \<notin> {None, Some Subdir}" using assms(2) by (simp add: same_files_def)
  have v: "log_view u d jid = log_view s d jid" using q by (simp add: same_files_views)
  have step: "log_set st d jid c' s t'" if "log_set st d jid c' u t'" for c' t'
    using log_set_trans [OF log_set_same [OF q refl] that] .
  show ?thesis
  proof (cases y)
    case (Inl err)
    obtain t' where "append_node d (jid @ ''.log'') (take (short c) c) u = (Inr (), t')"
      "log_set st d jid (log_view s d jid @ take (short c) c) u t'"
      using append_node_log [OF e, of "take (short c) c" st] v by auto
    then show ?thesis using assms(1) y Inl step by (auto simp: AppendFile_def)
  next
    case (Inr _)
    obtain t' where "append_node d (jid @ ''.log'') c u = (Inr (), t')" "log_set st d jid (log_view s d jid @ c) u t'"
      using append_node_log [OF e, of c st] v by auto
    then show ?thesis using assms(1) y Inr step by (auto simp: AppendFile_def)
  qed
qed

lemma appendLog_cases:
  assumes "appendLog st repo jid offset contents s = (x, t)" "job_directory st repo = Inr d"
  shows "(\<exists>e. x = Inl e \<and> log_set st d jid (log_view s d jid) s t) \<or>
    (\<exists>e k c. x = Inl e \<and> log_set st d jid (log_view s d jid @ take k c) s t \<and>
      offset = int (length (log_view s d jid)) \<and> c = take (MaximumStoredLogBytes - length (log_view s d jid)) contents) \<or>
    (\<exists>c. x = Inr (length (log_view s d jid @ c)) \<and> log_set st d jid (log_view s d jid @ c) s t \<and>
      offset = int (length (log_view s d jid)) \<and> c = take (MaximumStoredLogBytes - length (log_view s d jid)) contents)"
proof (cases "buildPath st d jid ''.log''")
  case (Inl e)
  then have "x = Inl e" "t = s" using assms by (simp_all add: appendLog_def)
  then show ?thesis using log_set_same [of s s] by simp
next
  case (Inr p)
  let ?n = "jid @ ''.log''" and ?old = "log_view s d jid"
  have "bindio (MkdirAll d) (\<lambda>_. bindio (OpenFile False d ?n) (\<lambda>_. bindio (FileSize d ?n) (\<lambda>file_size.
       if int file_size \<noteq> offset
       then lift_io (Inl (Errorf (''build log offset is '' @ print_nat file_size @ '', not '' @ print_int offset)))
       else if file_size \<ge> MaximumStoredLogBytes then return_io file_size
       else let c = take (MaximumStoredLogBytes - file_size) contents in
         bindio Touch (\<lambda>_. bindio (AppendFile (short_write st) d ?n c) (\<lambda>_. return_io (file_size + length c)))))) s = (x, t)"
    using assms Inr by (simp add: appendLog_def)
  then show ?thesis
  proof (cases rule: bindio_cases)
    case (failed e)
    then show ?thesis using log_set_same [OF same_files_MkdirAll [OF failed(1)] refl] by simp
  next
    case (went_on _ s1)
    have l1: "log_set st d jid ?old s s1" by (rule log_set_same [OF same_files_MkdirAll [OF went_on(1)] refl])
    then have v1: "log_view s1 d jid = ?old" by (simp add: log_set_def)
    from went_on(2) show ?thesis
    proof (cases rule: bindio_cases)
      case (failed e)
      then show ?thesis using OpenFile_log [OF failed(1), of st] log_set_trans [OF l1] v1 by simp
    next
      case op: (went_on _ s2)
      note o2 = OpenFile_log [OF op(1), of st, unfolded v1]
      have l2: "log_set st d jid ?old s s2" using o2 log_set_trans [OF l1] by blast
      then have v2: "log_view s2 d jid = ?old" by (simp add: log_set_def)
      from op(2) show ?thesis
      proof (cases rule: bindio_cases)
        case (failed e)
        then show ?thesis using FileSize_log [OF failed(1)] log_set_trans [OF l2 log_set_same] v2 by auto
      next
        case sz: (went_on n s3)
        note f3 = FileSize_log [OF sz(1), unfolded v2]
        have l3: "log_set st d jid ?old s s3" using f3 log_set_trans [OF l2 log_set_same] v2 by auto
        then have v3: "log_view s3 d jid = ?old" by (simp add: log_set_def)
        have n: "n = length ?old" using f3 by simp
        consider "int n \<noteq> offset" | "int n = offset" "n \<ge> MaximumStoredLogBytes" | "int n = offset" "n < MaximumStoredLogBytes"
          by linarith
        then show ?thesis
        proof cases
          case 1
          then show ?thesis using sz(2) l3 by auto
        next
          case 2
          then have "x = Inr n" "t = s3" using sz(2) by simp_all
          then show ?thesis using 2 l3 n by simp
        next
          case 3
          define c where "c = take (MaximumStoredLogBytes - n) contents"
          have "bindio Touch (\<lambda>_. bindio (AppendFile (short_write st) d ?n c) (\<lambda>_. return_io (n + length c))) s3 = (x, t)"
            using sz(2) 3 by (simp add: c_def)
          then show ?thesis
          proof (cases rule: bindio_cases)
            case (failed e)
            then show ?thesis
              using log_set_trans [OF l3 log_set_same [OF same_files_quiet [OF quiet_reads(5) failed(1)]]] v3 by simp
          next
            case (went_on _ s4)
            note q4 = same_files_quiet [OF quiet_reads(5) went_on(1)]
            have l4: "log_set st d jid ?old s s4" using log_set_trans [OF l3 log_set_same [OF q4]] v3 by simp
            then have v4: "log_view s4 d jid = ?old" by (simp add: log_set_def)
            have e4: "dir_entry s4 d ?n \<notin> {None, Some Subdir}"
              using q4 f3 o2 by (simp add: same_files_def)
            from went_on(2) show ?thesis
            proof (cases rule: bindio_cases)
              case (failed e)
              then obtain k where "log_set st d jid (?old @ take k c) s t" "x = Inl e"
                using AppendFile_log [OF failed(1) e4, of st] log_set_trans [OF l4] v4 by auto
              then show ?thesis using 3 n c_def by blast
            next
              case (went_on _ s5)
              then have "log_set st d jid (?old @ c) s s5" "x = Inr (n + length c)" "t = s5"
                using AppendFile_log [OF went_on(1) e4, of st] log_set_trans [OF l4] v4 by auto
              then show ?thesis using 3 n c_def by auto
            qed
          qed
        qed
      qed
    qed
  qed
qed

section \<open>Properties\<close>

text \<open>
  Property C33. Appending to a build log under any faults: no build and no other log changes, and a
  log within the stored limit stays within it. Success requires the offset to be the log's length,
  adds the contents cut at the limit, and returns the new length. After an error the log is what it
  was, or, when a write at the right offset broke off, what it was and a prefix of the contents.
\<close>

theorem appendLog_exact:
  assumes "appendLog st repo jid offset contents s = (x, t)" "job_directory st repo = Inr d"
    "length (log_view s d jid) \<le> MaximumStoredLogBytes"
  shows "job_view st t = job_view st s \<and>
    (\<forall>p k. (p, k) \<noteq> (d, jid) \<longrightarrow> log_view t p k = log_view s p k) \<and>
    length (log_view t d jid) \<le> MaximumStoredLogBytes \<and>
    (case x of
       Inl _ \<Rightarrow> log_view t d jid = log_view s d jid \<or>
         (offset = int (length (log_view s d jid)) \<and> (\<exists>k. log_view t d jid = log_view s d jid @ take k contents))
     | Inr n \<Rightarrow> offset = int (length (log_view s d jid)) \<and> n = length (log_view t d jid) \<and>
         log_view t d jid = log_view s d jid @ take (MaximumStoredLogBytes - length (log_view s d jid)) contents)"
  using appendLog_cases [OF assms(1,2)]
proof (elim disjE exE conjE)
  fix e assume "x = Inl e" "log_set st d jid (log_view s d jid) s t"
  then show ?thesis using assms(3) by (auto simp: log_set_def)
next
  fix e k c assume h: "x = Inl e" "log_set st d jid (log_view s d jid @ take k c) s t"
    "offset = int (length (log_view s d jid))" "c = take (MaximumStoredLogBytes - length (log_view s d jid)) contents"
  have "length (take k c) \<le> MaximumStoredLogBytes - length (log_view s d jid)" by (simp add: h(4))
  then have "length (log_view s d jid @ take k c) \<le> MaximumStoredLogBytes" using assms(3) by simp
  moreover have "take k c = take (min k (MaximumStoredLogBytes - length (log_view s d jid))) contents" by (simp add: h(4))
  ultimately show ?thesis using h(1-3) by (auto simp: log_set_def simp del: take_take)
next
  fix c assume h: "x = Inr (length (log_view s d jid @ c))" "log_set st d jid (log_view s d jid @ c) s t"
    "offset = int (length (log_view s d jid))" "c = take (MaximumStoredLogBytes - length (log_view s d jid)) contents"
  have "length c \<le> MaximumStoredLogBytes - length (log_view s d jid)" by (simp add: h(4))
  then show ?thesis using h assms(3) by (auto simp: log_set_def)
qed

definition sample_job_store :: job_store where
  "sample_job_store = \<lparr>state_root = ''/'', state_getwd = Inr ''/'', job_marshal = (\<lambda>_. Inl ErrIO), job_decode = (\<lambda>_. Inl ErrIO), short_write = (\<lambda>_. 0)\<rparr>"

definition sample_job_fs :: file_system where
  "sample_job_fs = \<lparr>dirs = [(''/g/r.build'', [(''b.log'', Regular ''one'')])], plain_files = [], faults = []\<rparr>"

lemma sample_job_directory: "job_directory sample_job_store \<lparr>Groups = [''g''], Name = ''r''\<rparr> = Inr ''/g/r.build''"
proof -
  have "list_all normal [''g'', ''r.build'']" by (simp add: normal_def)
  then have "SafeJoin (Inr ''/'') ''/'' [''g'', ''r.build''] = Inr (rooted_path (abs_parts ''/'' ''/'' @ [''g'', ''r.build'']))"
    by (intro SafeJoin_normal) (simp_all add: HasPrefix_def)
  then show ?thesis
    by (simp add: job_directory_def sample_job_store_def abs_parts_def rooted_clean_def rooted_path_def HasPrefix_def)
qed

theorem appendLog_exact_witness:
  "\<exists>x t. appendLog sample_job_store \<lparr>Groups = [''g''], Name = ''r''\<rparr> ''b'' 3 ''two'' sample_job_fs = (x, t) \<and>
     length (log_view t ''/g/r.build'' ''b'') \<le> MaximumStoredLogBytes \<and>
     (\<forall>n. x = Inr n \<longrightarrow> n = length (log_view t ''/g/r.build'' ''b'') \<and> log_view t ''/g/r.build'' ''b'' = ''onetwo'')"
proof -
  obtain x t where run: "appendLog sample_job_store \<lparr>Groups = [''g''], Name = ''r''\<rparr> ''b'' 3 ''two'' sample_job_fs = (x, t)"
    by fastforce
  have l: "log_view sample_job_fs ''/g/r.build'' ''b'' = ''one''"
    by (simp add: log_view_def dir_entry_def dir_at_def sample_job_fs_def node_contents_def)
  show ?thesis
    using run appendLog_exact [OF run sample_job_directory] l by (cases x) simp_all
qed

end
