(* ===== verification/Dependencies.thy ===== *)
theory Dependencies
  imports JobStore RepoConfig
begin

text \<open>
  Build dependencies, \<^verbatim>\<open>src/internal/runner/dependencies.go\<close>: the builds a configuration gives
  for a branch, the readiness of a build, and the reconciliation that releases waiting builds and
  fails those whose dependencies failed. The reconciliation's loop runs until a pass makes no
  progress; its termination is proved with the number of unsettled builds as measure.
\<close>

section \<open>Readiness\<close>

text \<open>The verb \<^verbatim>\<open>%q\<close> on a string of printable characters.\<close>

definition quoted :: "string \<Rightarrow> string" where
  "quoted s = CHR 0x22 # concat (map (\<lambda>c. if c = CHR 0x22 \<or> c = CHR 0x5C then [CHR 0x5C, c] else [c]) s) @ [CHR 0x22]"

text \<open>The table of builds by identifier: of builds with the same identifier the last one counts.\<close>

definition by_id :: "job list \<Rightarrow> string \<rightharpoonup> job" where
  "by_id jobs = map_of (rev (map (\<lambda>j. (JobID j, j)) jobs))"

fun readiness :: "(string \<rightharpoonup> job) \<Rightarrow> bool \<Rightarrow> job_dependency list \<Rightarrow> bool result" where
  "readiness jobs ready [] = Inr ready"
| "readiness jobs ready (need # needs) =
     (case jobs (NeedID need) of
        None \<Rightarrow> Inl (Errorf (''dependency '' @ quoted (NeedName need) @ '' is missing''))
      | Some dependency \<Rightarrow>
          if Status dependency = StatusSucceeded then readiness jobs ready needs
          else if Status dependency = StatusFailed then Inl (Errorf (''dependency '' @ quoted (NeedName need) @ '' failed''))
          else if Status dependency = StatusCanceled
          then Inl (Errorf (''dependency '' @ quoted (NeedName need) @ '' was canceled''))
          else readiness jobs False needs)"

definition dependencyReadiness :: "job \<Rightarrow> (string \<rightharpoonup> job) \<Rightarrow> bool result" where
  "dependencyReadiness j jobs = readiness jobs True (JobNeeds j)"

definition jobDependenciesReady :: "job \<Rightarrow> job list \<Rightarrow> bool result" where
  "jobDependenciesReady j jobs = dependencyReadiness j (by_id jobs)"

section \<open>Scheduling a configuration\<close>

text \<open>The identifiers, one per name in order; \<open>ids\<close> is what the random source gives.\<close>

fun assign_ids :: "string result list \<Rightarrow> string list \<Rightarrow> (string \<times> string) list result" where
  "assign_ids ids [] = Inr []"
| "assign_ids [] (name # names) = Inl ErrIO"
| "assign_ids (r # ids) (name # names) =
     bindr r (\<lambda>jid. bindr (assign_ids ids names) (\<lambda>rest. Inr ((name, jid) # rest)))"

definition configured_job ::
    "repository \<Rightarrow> string \<Rightarrow> string \<Rightarrow> gotime \<Rightarrow> (string \<rightharpoonup> string) \<Rightarrow> string \<Rightarrow> job_config \<Rightarrow> job" where
  "configured_job repo branch commit created ids name cfg =
     (let needs = map (\<lambda>need. \<lparr>NeedName = need, NeedID = (case ids need of None \<Rightarrow> [] | Some jid \<Rightarrow> jid)\<rparr>) (Needs cfg);
          base = \<lparr>JobID = (case ids name of None \<Rightarrow> [] | Some jid \<Rightarrow> jid), JobName = name, JobRepository = Full repo,
            JobBranch = branch, JobCommit = commit, JobImage = Image cfg, JobNeeds = needs, Status = StatusQueued,
            JobCreatedAt = created, StartedAt = None, FinishedAt = None, JobError = [], RunnerID = [], Attempt = 0,
            LeaseExpiresAt = None, RerunOf = []\<rparr>
      in case find (\<lambda>need. ids need = None) (Needs cfg) of
           Some missing \<Rightarrow> base\<lparr>Status := StatusFailed, FinishedAt := Some created,
             JobError := ''dependency '' @ quoted missing @ '' does not run on branch '' @ quoted branch\<rparr>
         | None \<Rightarrow>
             if Manual cfg then base\<lparr>Status := StatusManual\<rparr>
             else if needs \<noteq> [] then base\<lparr>Status := StatusWaiting\<rparr> else base)"

definition configuredJobs ::
    "glob \<Rightarrow> string result list \<Rightarrow> repository \<Rightarrow> string \<Rightarrow> string \<Rightarrow> config \<Rightarrow> gotime \<Rightarrow> job list result" where
  "configuredJobs match random repo branch commit cfg created =
     (let names = sort (map fst (filter (\<lambda>(_, job). MatchesBranch match job branch) (Jobs cfg)))
      in bindr (assign_ids random names) (\<lambda>ids.
           Inr (map (\<lambda>name. configured_job repo branch commit created (map_of ids) name (the (map_of (Jobs cfg) name))) names)))"

section \<open>Reruns\<close>

fun successfulDependencies :: "string list \<Rightarrow> job \<Rightarrow> job list \<Rightarrow> job_dependency list result" where
  "successfulDependencies [] j jobs = Inr []"
| "successfulDependencies (name # names) j jobs =
     (case find (\<lambda>c. JobName c = name \<and> JobBranch c = JobBranch j \<and> JobCommit c = JobCommit j \<and> Status c = StatusSucceeded) jobs of
        None \<Rightarrow> Inl (Errorf (''dependency '' @ quoted name @ '' has no successful run''))
      | Some c \<Rightarrow> bindr (successfulDependencies names j jobs) (\<lambda>ds. Inr (\<lparr>NeedName = name, NeedID = JobID c\<rparr> # ds)))"

definition dependencyNames :: "job \<Rightarrow> string" where
  "dependencyNames j = (if JobNeeds j = [] then ''none'' else Join (map NeedName (JobNeeds j)) '', '')"

section \<open>Reconciliation\<close>

text \<open>A build the reconciliation still looks at.\<close>

definition unsettled :: "job \<Rightarrow> bool" where
  "unsettled j \<longleftrightarrow> JobNeeds j \<noteq> [] \<and> (Status j = StatusWaiting \<or> Status j = StatusManual)"

text \<open>
  The loop's state: the builds, which of them changed, the promoted builds, and whether the pass
  made progress. One step looks at one index.
\<close>

record reconciliation =
  all_jobs :: "job list"
  changed_ids :: "string list"
  promoted_jobs :: "job list"
  made_progress :: bool

definition reconcile_at :: "gotime \<Rightarrow> nat \<Rightarrow> reconciliation \<Rightarrow> reconciliation" where
  "reconcile_at now i r =
     (let j = all_jobs r ! i in
      if \<not> unsettled j then r
      else case dependencyReadiness j (by_id (all_jobs r)) of
        Inl err \<Rightarrow>
          r\<lparr>all_jobs := (all_jobs r)[i := j\<lparr>Status := StatusFailed, FinishedAt := Some now, JobError := error_text err\<rparr>],
            changed_ids := changed_ids r @ [JobID j], made_progress := True\<rparr>
      | Inr ready \<Rightarrow>
          if ready \<and> Status j = StatusWaiting
          then let queued = j\<lparr>Status := StatusQueued\<rparr> in
            r\<lparr>all_jobs := (all_jobs r)[i := queued], changed_ids := changed_ids r @ [JobID j],
              promoted_jobs := promoted_jobs r @ [queued], made_progress := True\<rparr>
          else r)"

definition reconcile_pass :: "gotime \<Rightarrow> reconciliation \<Rightarrow> reconciliation" where
  "reconcile_pass now r = fold (reconcile_at now) [0..<length (all_jobs r)] (r\<lparr>made_progress := False\<rparr>)"

text \<open>The number of unsettled builds bounds the passes.\<close>

definition unsettled_count :: "reconciliation \<Rightarrow> nat" where
  "unsettled_count r = length (filter unsettled (all_jobs r))"

lemma filter_update_settled:
  assumes "i < length xs" "P (xs ! i)" "\<not> P y"
  shows "length (filter P (xs[i := y])) < length (filter P xs)"
proof -
  have "xs = take i xs @ xs ! i # drop (Suc i) xs" by (rule id_take_nth_drop [OF assms(1)])
  then have "length (filter P xs) = length (filter P (take i xs)) + Suc (length (filter P (drop (Suc i) xs)))"
    using assms(2) by (metis (no_types) filter.simps(2) filter_append length_Cons length_append)
  moreover have "length (filter P (xs[i := y])) = length (filter P (take i xs)) + length (filter P (drop (Suc i) xs))"
    using assms(3) by (simp add: upd_conv_take_nth_drop [OF assms(1)])
  ultimately show ?thesis by simp
qed

lemma reconcile_at_length [simp]: "length (all_jobs (reconcile_at now i r)) = length (all_jobs r)"
  by (simp add: reconcile_at_def Let_def split: sum.split)

lemma reconcile_at_count:
  assumes "i < length (all_jobs r)"
  shows "unsettled_count (reconcile_at now i r) \<le> unsettled_count r \<and>
    (made_progress (reconcile_at now i r) \<longrightarrow>
       made_progress r \<or> unsettled_count (reconcile_at now i r) < unsettled_count r)"
proof -
  have "length (filter unsettled ((all_jobs r)[i := k])) < length (filter unsettled (all_jobs r))"
    if "unsettled (all_jobs r ! i)" "\<not> unsettled k" for k
    using filter_update_settled [OF assms that] .
  moreover have "\<not> unsettled (j\<lparr>Status := StatusQueued\<rparr>)"
    "\<not> unsettled (j\<lparr>Status := StatusFailed, FinishedAt := a, JobError := b\<rparr>)" for j a b
    by (simp_all add: unsettled_def)
  ultimately show ?thesis
    by (auto simp: reconcile_at_def Let_def unsettled_count_def less_imp_le split: sum.split)
qed

lemma fold_reconcile_count:
  assumes "\<forall>i\<in>set is. i < length (all_jobs r)"
  shows "unsettled_count (fold (reconcile_at now) is r) \<le> unsettled_count r \<and>
    (made_progress (fold (reconcile_at now) is r) \<longrightarrow>
       made_progress r \<or> unsettled_count (fold (reconcile_at now) is r) < unsettled_count r)"
  using assms
proof (induction "is" arbitrary: r)
  case (Cons i "is")
  have "unsettled_count (reconcile_at now i r) \<le> unsettled_count r \<and>
    (made_progress (reconcile_at now i r) \<longrightarrow> made_progress r \<or> unsettled_count (reconcile_at now i r) < unsettled_count r)"
    using Cons.prems by (intro reconcile_at_count) simp
  moreover have "unsettled_count (fold (reconcile_at now) is (reconcile_at now i r)) \<le> unsettled_count (reconcile_at now i r) \<and>
    (made_progress (fold (reconcile_at now) is (reconcile_at now i r)) \<longrightarrow> made_progress (reconcile_at now i r) \<or>
       unsettled_count (fold (reconcile_at now) is (reconcile_at now i r)) < unsettled_count (reconcile_at now i r))"
    using Cons.prems by (intro Cons.IH) simp
  ultimately show ?case by auto
qed simp

lemma reconcile_pass_progress:
  "made_progress (reconcile_pass now r) \<Longrightarrow> unsettled_count (reconcile_pass now r) < unsettled_count r"
  using fold_reconcile_count [of "[0..<length (all_jobs r)]" "r\<lparr>made_progress := False\<rparr>" now]
  by (simp add: reconcile_pass_def unsettled_count_def)

function reconcile_loop :: "gotime \<Rightarrow> reconciliation \<Rightarrow> reconciliation" where
  "reconcile_loop now r =
     (let r' = reconcile_pass now r in if made_progress r' then reconcile_loop now r' else r')"
  by pat_completeness auto
termination
  by (relation "measure (\<lambda>(now, r). unsettled_count r)") (auto intro: reconcile_pass_progress)

declare reconcile_loop.simps [simp del]

definition reconciled :: "gotime \<Rightarrow> job list \<Rightarrow> reconciliation" where
  "reconciled now jobs =
     reconcile_loop now \<lparr>all_jobs = jobs, changed_ids = [], promoted_jobs = [], made_progress = False\<rparr>"

definition reconcileJobDependencies :: "job list \<Rightarrow> gotime \<Rightarrow> job list \<times> job list" where
  "reconcileJobDependencies jobs now =
     (let r = reconciled now jobs in
      (filter (\<lambda>j. JobID j \<in> set (changed_ids r)) (all_jobs r), promoted_jobs r))"

section \<open>What a reconciliation does\<close>

definition all_succeeded :: "job list \<Rightarrow> job \<Rightarrow> bool" where
  "all_succeeded jobs j \<longleftrightarrow>
     (\<forall>need\<in>set (JobNeeds j). \<exists>d. by_id jobs (NeedID need) = Some d \<and> Status d = StatusSucceeded)"

definition blocked :: "job list \<Rightarrow> job \<Rightarrow> bool" where
  "blocked jobs j \<longleftrightarrow> (\<exists>need\<in>set (JobNeeds j). case by_id jobs (NeedID need) of
     None \<Rightarrow> True | Some d \<Rightarrow> Status d = StatusFailed \<or> Status d = StatusCanceled)"

lemma readiness_spec:
  "(\<exists>e. readiness jobs ready needs = Inl e) \<longleftrightarrow>
     (\<exists>need\<in>set needs. case jobs (NeedID need) of None \<Rightarrow> True | Some d \<Rightarrow> Status d = StatusFailed \<or> Status d = StatusCanceled)"
  "readiness jobs ready needs = Inr True \<longleftrightarrow>
     ready \<and> (\<forall>need\<in>set needs. \<exists>d. jobs (NeedID need) = Some d \<and> Status d = StatusSucceeded)"
  by (induction needs arbitrary: ready) (auto split: option.splits)

lemma readiness_blocked: "(\<exists>e. dependencyReadiness j (by_id jobs) = Inl e) \<longleftrightarrow> blocked jobs j"
  by (simp add: dependencyReadiness_def readiness_spec(1) blocked_def)

lemma readiness_succeeded: "dependencyReadiness j (by_id jobs) = Inr True \<longleftrightarrow> all_succeeded jobs j"
  by (simp add: dependencyReadiness_def readiness_spec(2) all_succeeded_def)

lemma by_id_snoc: "by_id (js @ [a]) = (by_id js)(JobID a \<mapsto> a)"
  by (simp add: by_id_def)

lemma by_id_update:
  assumes "i < length js" "JobID k = JobID (js ! i)"
  shows "by_id (js[i := k]) x = by_id js x \<or> (by_id js x = Some (js ! i) \<and> by_id (js[i := k]) x = Some k)"
  using assms
proof (induction js rule: rev_induct)
  case (snoc a js)
  show ?case
  proof (cases "i = length js")
    case True
    then show ?thesis using snoc.prems by (auto simp: by_id_snoc)
  next
    case False
    then have "i < length js" "JobID k = JobID (js ! i)" using snoc.prems by (simp_all add: nth_append)
    from snoc.IH [OF this] this(1) show ?thesis by (auto simp: by_id_snoc list_update_append nth_append)
  qed
qed simp

text \<open>Changing an unsettled build leaves what other builds see of settled ones.\<close>

lemma update_unsettled:
  assumes "i < length js" "JobID k = JobID (js ! i)" "unsettled (js ! i)"
  shows "all_succeeded js j \<Longrightarrow> all_succeeded (js[i := k]) j" "blocked js j \<Longrightarrow> blocked (js[i := k]) j"
proof -
  have st: "by_id (js[i := k]) x = by_id js x \<or>
      (\<exists>d. by_id js x = Some d \<and> (Status d = StatusWaiting \<or> Status d = StatusManual))" for x
    using by_id_update [OF assms(1,2), of x] assms(3) by (auto simp: unsettled_def)
  have same: "by_id (js[i := k]) x = Some d" if "by_id js x = Some d" "Status d \<noteq> StatusWaiting" "Status d \<noteq> StatusManual" for x d
    using st [of x] that by auto
  have none: "by_id (js[i := k]) x = None" if "by_id js x = None" for x using st [of x] that by auto
  show "all_succeeded js j \<Longrightarrow> all_succeeded (js[i := k]) j"
    unfolding all_succeeded_def using same by fastforce
  show "blocked js j \<Longrightarrow> blocked (js[i := k]) j"
    unfolding blocked_def
  proof (elim bexE)
    fix need assume n: "need \<in> set (JobNeeds j)"
      "case by_id js (NeedID need) of None \<Rightarrow> True | Some d \<Rightarrow> Status d = StatusFailed \<or> Status d = StatusCanceled"
    have "case by_id (js[i := k]) (NeedID need) of None \<Rightarrow> True | Some d \<Rightarrow> Status d = StatusFailed \<or> Status d = StatusCanceled"
    proof (cases "by_id js (NeedID need)")
      case None
      then show ?thesis using none by simp
    next
      case (Some d)
      then show ?thesis using n(2) same [OF Some] by auto
    qed
    then show "\<exists>need\<in>set (JobNeeds j). case by_id (js[i := k]) (NeedID need) of None \<Rightarrow> True
        | Some d \<Rightarrow> Status d = StatusFailed \<or> Status d = StatusCanceled" using n(1) by blast
  qed
qed

text \<open>What became of a build, with the builds as they are now.\<close>

definition outcome :: "gotime \<Rightarrow> job list \<Rightarrow> job \<Rightarrow> job \<Rightarrow> bool" where
  "outcome now jobs j k \<longleftrightarrow> k = j \<or>
     (unsettled j \<and> Status j = StatusWaiting \<and> k = j\<lparr>Status := StatusQueued\<rparr> \<and> all_succeeded jobs j) \<or>
     (unsettled j \<and> blocked jobs j \<and>
      (\<exists>m. k = j\<lparr>Status := StatusFailed, FinishedAt := Some now, JobError := m\<rparr>))"

definition outcomes :: "gotime \<Rightarrow> job list \<Rightarrow> job list \<Rightarrow> bool" where
  "outcomes now jobs js \<longleftrightarrow> length js = length jobs \<and> (\<forall>i < length jobs. outcome now js (jobs ! i) (js ! i))"

lemma outcome_unsettled: "outcome now js j k \<Longrightarrow> unsettled k \<Longrightarrow> k = j"
  by (auto simp: outcome_def unsettled_def)

lemma outcomes_update:
  assumes "outcomes now jobs js" "i < length js" "unsettled (js ! i)" "JobID k = JobID (js ! i)"
    "outcome now (js[i := k]) (js ! i) k"
  shows "outcomes now jobs (js[i := k])"
  unfolding outcomes_def
proof (intro conjI allI impI)
  show "length (js[i := k]) = length jobs" using assms(1) by (simp add: outcomes_def)
  fix l assume l: "l < length jobs"
  then have o: "outcome now js (jobs ! l) (js ! l)" using assms(1) by (simp add: outcomes_def)
  show "outcome now (js[i := k]) (jobs ! l) (js[i := k] ! l)"
  proof (cases "l = i")
    case True
    then have "js ! i = jobs ! i" using outcome_unsettled [OF o] assms(3) by simp
    then show ?thesis using True assms(2,5) by simp
  next
    case False
    then show ?thesis
      using o update_unsettled [OF assms(2,4,3)] unfolding outcome_def by auto
  qed
qed

lemma reconcile_at_outcomes:
  assumes "outcomes now jobs (all_jobs r)" "i < length (all_jobs r)"
  shows "outcomes now jobs (all_jobs (reconcile_at now i r))"
proof (cases "unsettled (all_jobs r ! i)")
  case False
  then show ?thesis using assms(1) by (simp add: reconcile_at_def Let_def)
next
  case un: True
  let ?j = "all_jobs r ! i"
  show ?thesis
  proof (cases "dependencyReadiness ?j (by_id (all_jobs r))")
    case (Inl e)
    let ?k = "?j\<lparr>Status := StatusFailed, FinishedAt := Some now, JobError := error_text e\<rparr>"
    have "blocked (all_jobs r) ?j" using Inl readiness_blocked by blast
    then have "blocked ((all_jobs r)[i := ?k]) ?j" by (rule update_unsettled(2) [OF assms(2) _ un, rotated]) simp
    then have "outcome now ((all_jobs r)[i := ?k]) ?j ?k" using un unfolding outcome_def by blast
    then have "outcomes now jobs ((all_jobs r)[i := ?k])" by (intro outcomes_update [OF assms(1,2) un]) simp_all
    then show ?thesis using un Inl by (simp add: reconcile_at_def Let_def)
  next
    case (Inr ready)
    show ?thesis
    proof (cases "ready \<and> Status ?j = StatusWaiting")
      case True
      let ?k = "?j\<lparr>Status := StatusQueued\<rparr>"
      have "all_succeeded (all_jobs r) ?j" using Inr True readiness_succeeded by simp
      then have "all_succeeded ((all_jobs r)[i := ?k]) ?j" by (rule update_unsettled(1) [OF assms(2) _ un, rotated]) simp
      then have "outcome now ((all_jobs r)[i := ?k]) ?j ?k" using un True unfolding outcome_def by blast
      then have "outcomes now jobs ((all_jobs r)[i := ?k])" by (intro outcomes_update [OF assms(1,2) un]) simp_all
      then show ?thesis using un Inr True by (simp add: reconcile_at_def Let_def)
    next
      case False
      then show ?thesis using un Inr assms(1) by (auto simp: reconcile_at_def Let_def)
    qed
  qed
qed

lemma fold_reconcile_outcomes:
  assumes "outcomes now jobs (all_jobs r)" "\<forall>i\<in>set is. i < length (all_jobs r)"
  shows "outcomes now jobs (all_jobs (fold (reconcile_at now) is r))"
  using assms
proof (induction "is" arbitrary: r)
  case (Cons i "is")
  have "outcomes now jobs (all_jobs (reconcile_at now i r))" using Cons.prems by (intro reconcile_at_outcomes) simp_all
  then have "outcomes now jobs (all_jobs (fold (reconcile_at now) is (reconcile_at now i r)))"
    using Cons.prems(2) by (intro Cons.IH) simp_all
  then show ?case by simp
qed simp

lemma reconcile_pass_outcomes:
  "outcomes now jobs (all_jobs r) \<Longrightarrow> outcomes now jobs (all_jobs (reconcile_pass now r))"
  unfolding reconcile_pass_def by (rule fold_reconcile_outcomes) simp_all

text \<open>A build no pass changes: it waits for a dependency, or for a person.\<close>

definition at_rest :: "job list \<Rightarrow> job \<Rightarrow> bool" where
  "at_rest jobs j \<longleftrightarrow> unsettled j \<longrightarrow>
     \<not> blocked jobs j \<and> (all_succeeded jobs j \<longrightarrow> Status j = StatusManual)"

lemma reconcile_at_progress: "made_progress r \<Longrightarrow> made_progress (reconcile_at now i r)"
  by (simp add: reconcile_at_def Let_def split: sum.split)

lemma fold_reconcile_progress: "made_progress r \<Longrightarrow> made_progress (fold (reconcile_at now) is r)"
  by (induction "is" arbitrary: r) (simp_all add: reconcile_at_progress)

lemma reconcile_at_rest:
  assumes "\<not> made_progress (reconcile_at now i r)"
  shows "reconcile_at now i r = r \<and> at_rest (all_jobs r) (all_jobs r ! i)"
proof (cases "unsettled (all_jobs r ! i)")
  case False
  then show ?thesis by (simp add: reconcile_at_def at_rest_def)
next
  case True
  then obtain ready where "dependencyReadiness (all_jobs r ! i) (by_id (all_jobs r)) = Inr ready"
    using assms by (cases "dependencyReadiness (all_jobs r ! i) (by_id (all_jobs r))") (simp_all add: reconcile_at_def Let_def)
  moreover from this have "\<not> (ready \<and> Status (all_jobs r ! i) = StatusWaiting)"
    using assms True by (auto simp: reconcile_at_def Let_def)
  ultimately show ?thesis using True
    unfolding at_rest_def readiness_blocked [symmetric] readiness_succeeded [symmetric]
    by (auto simp: reconcile_at_def Let_def unsettled_def)
qed

lemma fold_reconcile_rest:
  "\<not> made_progress (fold (reconcile_at now) is r) \<Longrightarrow>
     fold (reconcile_at now) is r = r \<and> (\<forall>i\<in>set is. at_rest (all_jobs r) (all_jobs r ! i))"
proof (induction "is" arbitrary: r)
  case (Cons i "is")
  then have "\<not> made_progress (reconcile_at now i r)" using fold_reconcile_progress by auto
  from reconcile_at_rest [OF this] Cons show ?case by auto
qed simp

lemma reconcile_pass_rest:
  assumes "\<not> made_progress (reconcile_pass now r)"
  shows "\<forall>j\<in>set (all_jobs (reconcile_pass now r)). at_rest (all_jobs (reconcile_pass now r)) j"
proof -
  note f = fold_reconcile_rest [OF assms [unfolded reconcile_pass_def]]
  then have "reconcile_pass now r = r\<lparr>made_progress := False\<rparr>" by (simp add: reconcile_pass_def)
  with f show ?thesis by (auto simp: in_set_conv_nth)
qed

lemma reconcile_loop_final:
  assumes "outcomes now jobs (all_jobs r)"
  shows "outcomes now jobs (all_jobs (reconcile_loop now r)) \<and>
    (\<forall>j\<in>set (all_jobs (reconcile_loop now r)). at_rest (all_jobs (reconcile_loop now r)) j)"
  using assms
proof (induction now r rule: reconcile_loop.induct)
  case (1 now r)
  show ?case
  proof (cases "made_progress (reconcile_pass now r)")
    case True
    then have "reconcile_loop now r = reconcile_loop now (reconcile_pass now r)"
      by (subst reconcile_loop.simps) (simp add: Let_def)
    then show ?thesis using 1(1) [OF refl True] reconcile_pass_outcomes [OF 1(2)] by simp
  next
    case False
    then have "reconcile_loop now r = reconcile_pass now r"
      by (subst reconcile_loop.simps) (simp add: Let_def)
    then show ?thesis using reconcile_pass_rest [OF False] reconcile_pass_outcomes [OF 1(2)] by simp
  qed
qed

lemma reconciled_final:
  "outcomes now jobs (all_jobs (reconciled now jobs))"
  "j \<in> set (all_jobs (reconciled now jobs)) \<Longrightarrow> at_rest (all_jobs (reconciled now jobs)) j"
proof -
  have "outcomes now jobs jobs" by (simp add: outcomes_def outcome_def)
  then show "outcomes now jobs (all_jobs (reconciled now jobs))"
    "j \<in> set (all_jobs (reconciled now jobs)) \<Longrightarrow> at_rest (all_jobs (reconciled now jobs)) j"
    using reconcile_loop_final [of now jobs "\<lparr>all_jobs = jobs, changed_ids = [], promoted_jobs = [], made_progress = False\<rparr>"]
    unfolding reconciled_def by simp_all
qed

text \<open>The identifiers of changed builds and the promoted builds, as the pass records them.\<close>

definition tracked :: "job list \<Rightarrow> reconciliation \<Rightarrow> bool" where
  "tracked jobs r \<longleftrightarrow>
     set (changed_ids r) = {JobID (jobs ! i) | i. i < length jobs \<and> all_jobs r ! i \<noteq> jobs ! i} \<and>
     set (promoted_jobs r) = {all_jobs r ! i | i. i < length jobs \<and> all_jobs r ! i \<noteq> jobs ! i \<and> Status (all_jobs r ! i) = StatusQueued}"

lemma tracked_step:
  assumes "tracked jobs r" "length (all_jobs r) = length jobs" "i < length jobs" "all_jobs r ! i = jobs ! i" "k \<noteq> jobs ! i"
  shows "tracked jobs (r\<lparr>all_jobs := (all_jobs r)[i := k], changed_ids := changed_ids r @ [JobID (all_jobs r ! i)],
      promoted_jobs := promoted_jobs r @ (if Status k = StatusQueued then [k] else []), made_progress := b\<rparr>)"
proof -
  have "{JobID (jobs ! l) | l. l < length jobs \<and> (all_jobs r)[i := k] ! l \<noteq> jobs ! l} =
      insert (JobID (jobs ! i)) {JobID (jobs ! l) | l. l < length jobs \<and> all_jobs r ! l \<noteq> jobs ! l}"
    using assms(2-) by (auto simp: nth_list_update)
  moreover have "{(all_jobs r)[i := k] ! l | l. l < length jobs \<and> (all_jobs r)[i := k] ! l \<noteq> jobs ! l \<and> Status ((all_jobs r)[i := k] ! l) = StatusQueued} =
      (if Status k = StatusQueued then {k} else {}) \<union>
      {all_jobs r ! l | l. l < length jobs \<and> all_jobs r ! l \<noteq> jobs ! l \<and> Status (all_jobs r ! l) = StatusQueued}" (is "?l = ?r")
  proof (intro equalityI subsetI)
    fix x assume "x \<in> ?l"
    then obtain l where "x = (all_jobs r)[i := k] ! l" "l < length jobs" "x \<noteq> jobs ! l" "Status x = StatusQueued" by blast
    then show "x \<in> ?r" using assms(2) by (cases "l = i") auto
  next
    fix x assume "x \<in> ?r"
    then consider "x = k" "Status k = StatusQueued" | l where "x = all_jobs r ! l" "l < length jobs" "all_jobs r ! l \<noteq> jobs ! l" "Status x = StatusQueued"
      by (auto split: if_splits)
    then show "x \<in> ?l"
    proof cases
      case 1
      then show ?thesis using assms(2,3,5) by (intro CollectI exI [of _ i]) simp
    next
      case (2 l)
      then have "l \<noteq> i" using assms(4) by auto
      then show ?thesis using 2 by (intro CollectI exI [of _ l]) simp
    qed
  qed
  ultimately show ?thesis using assms(1,4) unfolding tracked_def by simp
qed

lemma reconcile_at_tracked:
  assumes "outcomes now jobs (all_jobs r)" "tracked jobs r" "i < length (all_jobs r)"
  shows "tracked jobs (reconcile_at now i r)"
proof (cases "unsettled (all_jobs r ! i)")
  case False
  then show ?thesis using assms(2) by (simp add: reconcile_at_def)
next
  case un: True
  have len: "length (all_jobs r) = length jobs" using assms(1) by (simp add: outcomes_def)
  then have "outcome now (all_jobs r) (jobs ! i) (all_jobs r ! i)" using assms(1,3) by (simp add: outcomes_def)
  then have same: "all_jobs r ! i = jobs ! i" by (rule outcome_unsettled [OF _ un])
  have st: "Status (jobs ! i) \<noteq> StatusFailed" "Status (jobs ! i) \<noteq> StatusQueued" using un same by (auto simp: unsettled_def)
  note step = tracked_step [OF assms(2) len assms(3) [unfolded len] same]
  show ?thesis
  proof (cases "dependencyReadiness (all_jobs r ! i) (by_id (all_jobs r))")
    case (Inl e)
    let ?k = "(jobs ! i)\<lparr>Status := StatusFailed, FinishedAt := Some now, JobError := error_text e\<rparr>"
    have "?k \<noteq> jobs ! i" using st(1) by (metis job.select_convs(8) job.surjective job.update_convs(8,11,12))
    from step [OF this, of True] show ?thesis using un Inl same by (simp add: reconcile_at_def Let_def)
  next
    case (Inr ready)
    let ?k = "(jobs ! i)\<lparr>Status := StatusQueued\<rparr>"
    have "?k \<noteq> jobs ! i" using st(2) by (metis job.select_convs(8) job.surjective job.update_convs(8))
    from step [OF this, of True] show ?thesis using un Inr same assms(2) by (simp add: reconcile_at_def Let_def)
  qed
qed

lemma fold_reconcile_tracked:
  assumes "outcomes now jobs (all_jobs r)" "tracked jobs r" "\<forall>i\<in>set is. i < length (all_jobs r)"
  shows "tracked jobs (fold (reconcile_at now) is r)"
  using assms
proof (induction "is" arbitrary: r)
  case (Cons i "is")
  then have "outcomes now jobs (all_jobs (reconcile_at now i r))" "tracked jobs (reconcile_at now i r)"
    by (simp_all add: reconcile_at_outcomes reconcile_at_tracked)
  then have "tracked jobs (fold (reconcile_at now) is (reconcile_at now i r))"
    using Cons.prems(3) by (intro Cons.IH) simp_all
  then show ?case by simp
qed simp

lemma reconcile_pass_tracked:
  assumes "outcomes now jobs (all_jobs r)" "tracked jobs r"
  shows "tracked jobs (reconcile_pass now r)"
  unfolding reconcile_pass_def using assms by (intro fold_reconcile_tracked) (simp_all add: tracked_def)

lemma reconcile_loop_tracked:
  "outcomes now jobs (all_jobs r) \<Longrightarrow> tracked jobs r \<Longrightarrow> tracked jobs (reconcile_loop now r)"
proof (induction now r rule: reconcile_loop.induct)
  case (1 now r)
  then show ?case
    by (subst reconcile_loop.simps) (simp add: Let_def reconcile_pass_tracked reconcile_pass_outcomes)
qed

lemma reconciled_tracked: "tracked jobs (reconciled now jobs)"
  unfolding reconciled_def by (rule reconcile_loop_tracked) (simp_all add: tracked_def outcomes_def outcome_def)

lemma outcome_JobID: "outcome now js j k \<Longrightarrow> JobID k = JobID j"
  by (auto simp: outcome_def)

lemma outcomes_ids: "outcomes now jobs js \<Longrightarrow> map JobID js = map JobID jobs"
  by (rule nth_equalityI) (auto simp: outcomes_def dest!: outcome_JobID spec)

text \<open>With distinct identifiers the updates are exactly the builds that changed, in the stored order.\<close>

lemma reconcile_updates:
  assumes "distinct (map JobID jobs)"
  shows "fst (reconcileJobDependencies jobs now) =
    map (\<lambda>i. all_jobs (reconciled now jobs) ! i)
      (filter (\<lambda>i. all_jobs (reconciled now jobs) ! i \<noteq> jobs ! i) [0..<length jobs])"
proof -
  let ?js = "all_jobs (reconciled now jobs)"
  have o: "outcomes now jobs ?js" by (rule reconciled_final)
  have len: "length ?js = length jobs" using o by (simp add: outcomes_def)
  have ids: "JobID (?js ! i) = JobID (jobs ! i)" if "i < length jobs" for i
    using outcome_JobID o that by (auto simp: outcomes_def)
  have "JobID (?js ! i) \<in> set (changed_ids (reconciled now jobs)) \<longleftrightarrow> ?js ! i \<noteq> jobs ! i" if i: "i < length jobs" for i
  proof -
    have "JobID (jobs ! i) = JobID (jobs ! l) \<longleftrightarrow> i = l" if "l < length jobs" for l
      using nth_eq_iff_index_eq [OF assms] i that by auto
    then show ?thesis using reconciled_tracked [of jobs now] i unfolding tracked_def ids [OF i] by auto
  qed
  then have "filter (\<lambda>i. JobID (?js ! i) \<in> set (changed_ids (reconciled now jobs))) [0..<length jobs] =
      filter (\<lambda>i. ?js ! i \<noteq> jobs ! i) [0..<length jobs]" by (intro filter_cong) simp_all
  moreover have "filter (\<lambda>j. JobID j \<in> set (changed_ids (reconciled now jobs))) ?js =
      map (\<lambda>i. ?js ! i) (filter (\<lambda>i. JobID (?js ! i) \<in> set (changed_ids (reconciled now jobs))) [0..<length jobs])"
    using arg_cong [OF map_nth [of ?js], of "filter (\<lambda>j. JobID j \<in> set (changed_ids (reconciled now jobs)))"]
    by (simp add: filter_map o_def len)
  ultimately show ?thesis by (simp add: reconcileJobDependencies_def Let_def)
qed

lemma reconcile_pass_again:
  assumes "\<not> made_progress (reconcile_pass now r)"
  shows "reconcile_pass now (reconcile_pass now r) = reconcile_pass now r"
proof -
  have "reconcile_pass now r = r\<lparr>made_progress := False\<rparr>"
    using fold_reconcile_rest [OF assms [unfolded reconcile_pass_def]] by (simp add: reconcile_pass_def)
  moreover have "reconcile_pass now (r\<lparr>made_progress := False\<rparr>) = reconcile_pass now r" by (simp add: reconcile_pass_def)
  ultimately show ?thesis by simp
qed

lemma reconcile_loop_steps:
  "\<exists>n \<le> unsettled_count r. reconcile_loop now r = (reconcile_pass now ^^ Suc n) r \<and>
     reconcile_pass now (reconcile_loop now r) = reconcile_loop now r"
proof (induction now r rule: reconcile_loop.induct)
  case (1 now r)
  show ?case
  proof (cases "made_progress (reconcile_pass now r)")
    case True
    then have step: "reconcile_loop now r = reconcile_loop now (reconcile_pass now r)"
      by (subst reconcile_loop.simps) (simp add: Let_def)
    obtain n where n: "n \<le> unsettled_count (reconcile_pass now r)"
      "reconcile_loop now (reconcile_pass now r) = (reconcile_pass now ^^ Suc n) (reconcile_pass now r)"
      "reconcile_pass now (reconcile_loop now (reconcile_pass now r)) = reconcile_loop now (reconcile_pass now r)"
      using 1 [OF refl True] by blast
    have "Suc n \<le> unsettled_count r" using n(1) reconcile_pass_progress [OF True] by simp
    moreover have "reconcile_loop now r = (reconcile_pass now ^^ Suc (Suc n)) r"
      using n(2) step by (simp only: funpow_Suc_right o_apply)
    ultimately show ?thesis using n(3) step by metis
  next
    case False
    then have "reconcile_loop now r = (reconcile_pass now ^^ Suc 0) r"
      by (subst reconcile_loop.simps) (simp add: Let_def)
    then show ?thesis using reconcile_pass_again [OF False] by auto
  qed
qed

text \<open>
  Property C11. Reconciling the dependencies of stored builds with distinct identifiers: every build
  is left as it was, or it waited, all its dependencies succeeded and it is queued, or one of its
  dependencies is missing, failed or canceled and it fails at the given time; afterwards nothing is
  left to do: no waiting or manual build has a failed dependency, and a build whose dependencies all
  succeeded waits only when it is started by hand. The updates are exactly the changed builds, in
  the stored order, and the promoted builds are the queued ones among them.
\<close>

theorem reconcile_exact:
  assumes "distinct (map JobID jobs)" "reconcileJobDependencies jobs now = (updates, promoted)"
  shows "\<exists>js. length js = length jobs \<and> (\<forall>i < length jobs. outcome now js (jobs ! i) (js ! i)) \<and>
    (\<forall>j\<in>set js. at_rest js j) \<and>
    updates = map (\<lambda>i. js ! i) (filter (\<lambda>i. js ! i \<noteq> jobs ! i) [0..<length jobs]) \<and>
    set promoted = {k \<in> set updates. Status k = StatusQueued}"
proof (intro exI conjI)
  let ?js = "all_jobs (reconciled now jobs)"
  show "length ?js = length jobs" "\<forall>i < length jobs. outcome now ?js (jobs ! i) (?js ! i)"
    using reconciled_final(1) [of now jobs] by (simp_all add: outcomes_def)
  show "\<forall>j\<in>set ?js. at_rest ?js j" using reconciled_final(2) by blast
  show up: "updates = map (\<lambda>i. ?js ! i) (filter (\<lambda>i. ?js ! i \<noteq> jobs ! i) [0..<length jobs])"
    using reconcile_updates [OF assms(1), of now] assms(2) by simp
  have "promoted = promoted_jobs (reconciled now jobs)" using assms(2) by (simp add: reconcileJobDependencies_def Let_def)
  then show "set promoted = {k \<in> set updates. Status k = StatusQueued}"
    using reconciled_tracked [of jobs now] unfolding tracked_def up by auto
qed

definition sample_job :: "string \<Rightarrow> job_dependency list \<Rightarrow> string \<Rightarrow> job" where
  "sample_job jid needs status =
     \<lparr>JobID = jid, JobName = jid, JobRepository = ''g/r'', JobBranch = ''main'', JobCommit = ''c'', JobImage = ''i'',
      JobNeeds = needs, Status = status, JobCreatedAt = sample_time, StartedAt = None, FinishedAt = None, JobError = [],
      RunnerID = [], Attempt = 0, LeaseExpiresAt = None, RerunOf = []\<rparr>"

definition sample_jobs :: "job list" where
  "sample_jobs = [sample_job ''c'' [\<lparr>NeedName = ''b'', NeedID = ''b''\<rparr>] StatusWaiting,
     sample_job ''b'' [\<lparr>NeedName = ''a'', NeedID = ''a''\<rparr>, \<lparr>NeedName = ''x'', NeedID = ''x''\<rparr>] StatusManual,
     sample_job ''d'' [\<lparr>NeedName = ''a'', NeedID = ''a''\<rparr>] StatusWaiting, sample_job ''a'' [] StatusSucceeded]"

theorem reconcile_exact_witness:
  "map (\<lambda>j. (JobID j, Status j)) (fst (reconcileJobDependencies sample_jobs sample_time)) =
     [(''c'', StatusFailed), (''b'', StatusFailed), (''d'', StatusQueued)] \<and>
   set (snd (reconcileJobDependencies sample_jobs sample_time)) =
     {k \<in> set (fst (reconcileJobDependencies sample_jobs sample_time)). Status k = StatusQueued}"
proof
  show "map (\<lambda>j. (JobID j, Status j)) (fst (reconcileJobDependencies sample_jobs sample_time)) =
     [(''c'', StatusFailed), (''b'', StatusFailed), (''d'', StatusQueued)]" by code_simp
  have "distinct (map JobID sample_jobs)" by (simp add: sample_jobs_def sample_job_def)
  from reconcile_exact [OF this, of sample_time, OF prod.collapse [symmetric]]
  show "set (snd (reconcileJobDependencies sample_jobs sample_time)) =
     {k \<in> set (fst (reconcileJobDependencies sample_jobs sample_time)). Status k = StatusQueued}" by (elim exE conjE)
qed

text \<open>
  Further property. The reconciliation's loop ends: it is at most one pass more than the number of
  builds that wait for their dependencies, whatever the dependencies are (also when they form a
  cycle or name missing builds), and a further pass would change nothing.
\<close>

theorem reconcile_loop_passes:
  "\<exists>n \<le> length (filter unsettled jobs). reconciled now jobs =
      (reconcile_pass now ^^ Suc n) \<lparr>all_jobs = jobs, changed_ids = [], promoted_jobs = [], made_progress = False\<rparr> \<and>
    reconcile_pass now (reconciled now jobs) = reconciled now jobs"
  using reconcile_loop_steps [of "\<lparr>all_jobs = jobs, changed_ids = [], promoted_jobs = [], made_progress = False\<rparr>" now]
  unfolding reconciled_def unsettled_count_def by auto

end
