(* ===== verification/Coordinator.thy ===== *)
theory Coordinator
  imports Dependencies RecordStore
begin

text \<open>
  The build coordinator, \<^verbatim>\<open>src/internal/runner/coordinator.go\<close> with \<^verbatim>\<open>operations.go\<close>: scheduling,
  starting, rerunning and canceling builds, and the operations remote runners call to claim a
  build, keep its lease, send its log and complete it. Every operation is one action on the file
  system under its locks. The clock's readings, the random identifiers and the group listing of the
  storage package are arguments; go-git is a parameter of the coordinator. The reconciliation loop
  runs on fuel, and the lemmas of the theory BuildCycle show how much is enough.
\<close>

section \<open>Coordinator\<close>

text \<open>
  \<open>plain_open\<close> is \<^verbatim>\<open>git.PlainOpen\<close> with what go-git answers for the repository, \<open>new_hash\<close> is
  \<^verbatim>\<open>plumbing.NewHash\<close>. \<open>others\<close> is what other operations did to the files while the reconciliation
  waited for a build's lock.
\<close>

record coordinator =
  storage_root :: string
  job_state :: job_store
  leaseDuration :: int
  lock_environment :: lock_env
  plain_open :: "string \<Rightarrow> config_view result"
  new_hash :: "string \<Rightarrow> string"
  branch_glob :: glob
  others :: "nat \<Rightarrow> file_system \<Rightarrow> file_system"

record lease =
  LeasedJob :: job
  LeaseConfig :: job_config
  LogOffset :: nat
  LeaseSeconds :: int

record heartbeat_result =
  ResultExpiresAt :: gotime
  Canceled :: bool

abbreviation second :: int where "second \<equiv> 1000000000"
abbreviation defaultLeaseDuration :: int where "defaultLeaseDuration \<equiv> 30 * second"
abbreviation maximumRunnerIDLength :: nat where "maximumRunnerIDLength \<equiv> 100"

abbreviation ErrBuildNotFound :: goerror where "ErrBuildNotFound \<equiv> Sentinel ''build not found''"
abbreviation ErrBuildNotStartable :: goerror where
  "ErrBuildNotStartable \<equiv> Sentinel ''build is not waiting for manual start''"
abbreviation ErrBuildNotRerunnable :: goerror where
  "ErrBuildNotRerunnable \<equiv> Sentinel ''only a completed build can be rerun''"
abbreviation ErrBuildNotCancelable :: goerror where
  "ErrBuildNotCancelable \<equiv> Sentinel ''completed build cannot be canceled''"
abbreviation ErrBuildDependenciesUnmet :: goerror where
  "ErrBuildDependenciesUnmet \<equiv> Sentinel ''build dependencies have not succeeded''"

definition NewCoordinator :: "coordinator \<Rightarrow> coordinator result" where
  "NewCoordinator c =
     (if storage_root c = [] then Inl (Errorf ''repository storage root is required'')
      else if state_root (job_state c) = [] then Inl (Errorf ''build state root is required'')
      else let duration = if leaseDuration c = 0 then defaultLeaseDuration else leaseDuration c in
        if duration < 5 * second \<or> duration > 600 * second
        then Inl (Errorf ''runner lease duration must be between 5 seconds and 10 minutes'')
        else Inr (c\<lparr>leaseDuration := duration\<rparr>))"

definition Add :: "gotime \<Rightarrow> int \<Rightarrow> gotime" where
  "Add t d = t\<lparr>instant := instant t + d\<rparr>"

section \<open>Locks and repositories\<close>

definition GitPath :: "coordinator \<Rightarrow> repository \<Rightarrow> string result" where
  "GitPath c repo = SafeJoin (getwd (lock_environment c)) (storage_root c) (Groups repo @ [Name repo @ ''.git''])"

definition acquireBuildOperationLock :: "coordinator \<Rightarrow> repository \<Rightarrow> string list \<Rightarrow> 'a io \<Rightarrow> 'a io" where
  "acquireBuildOperationLock c repo jobIDs action =
     with_locks (RepositoryRequests (lock_environment c) (storage_root c) [repo] Shared @
       map (JobRequest (lock_environment c) (storage_root c) repo) jobIDs) action"

definition openRepositoryForBuild :: "coordinator \<Rightarrow> repository \<Rightarrow> config_view result" where
  "openRepositoryForBuild c repo = bindr (GitPath c repo) (plain_open c)"

definition acquireRepositoryBuildLock :: "coordinator \<Rightarrow> repository \<Rightarrow> string list \<Rightarrow> 'a io \<Rightarrow> 'a io" where
  "acquireRepositoryBuildLock c repo jobIDs action =
     acquireBuildOperationLock c repo jobIDs
       (bindio (lift_io (openRepositoryForBuild c repo)) (\<lambda>_. action))"

definition jobConfig :: "coordinator \<Rightarrow> repository \<Rightarrow> job \<Rightarrow> job_config result" where
  "jobConfig c repo j =
     bindr (GitPath c repo) (\<lambda>gitPath.
     bindr (plain_open c gitPath) (\<lambda>view.
       case Read view (new_hash c (JobCommit j)) of
         (_, _, Some err) \<Rightarrow> Inl err
       | (cfg, found, None) \<Rightarrow>
           if \<not> found then Inl (Errorf ''job configuration is missing'')
           else bindr (Config_Validate (branch_glob c) cfg) (\<lambda>_.
             case map_of (Jobs cfg) (JobName j) of
               None \<Rightarrow> Inl (Errorf (''job '' @ quoted (JobName j) @ '' is missing''))
             | Some build \<Rightarrow> Inr build)))"

text \<open>\<^verbatim>\<open>state.Get\<close> with a missing file reported as a missing build, as most operations start.\<close>

definition find_build :: "coordinator \<Rightarrow> repository \<Rightarrow> string \<Rightarrow> job io" where
  "find_build c repo jid =
     bindio (attempt (get_job (job_state c) repo jid)) (\<lambda>r.
       lift_io (case r of
         Inl err \<Rightarrow> Inl (if errors_is err ErrNotExist then ErrBuildNotFound else err)
       | Inr j \<Rightarrow> Inr j))"

section \<open>Reconciling stored builds\<close>

definition wait_for_lock :: "coordinator \<Rightarrow> nat \<Rightarrow> unit io" where
  "wait_for_lock c n s = (Inr (), others c n s)"

text \<open>
  One unit of fuel is one round: a scan that selects a build, its lock, a second scan under the lock
  and the save. \<open>clock\<close> gives the time of every scan. Running out of fuel stands for a loop that
  has not ended.
\<close>

abbreviation out_of_fuel :: goerror where "out_of_fuel \<equiv> Sentinel ''out of fuel''"

fun reconcileDependenciesWithLockedJob ::
    "coordinator \<Rightarrow> (nat \<Rightarrow> gotime) \<Rightarrow> nat \<Rightarrow> repository \<Rightarrow> string \<Rightarrow> unit io" where
  "reconcileDependenciesWithLockedJob c clock 0 repo lockedJobID = lift_io (Inl out_of_fuel)"
| "reconcileDependenciesWithLockedJob c clock (Suc n) repo lockedJobID =
     bindio (list_jobs (job_state c) repo) (\<lambda>jobs.
       case fst (reconcileJobDependencies jobs (UTC (clock (2 * n + 1)))) of
         [] \<Rightarrow> return_io ()
       | selected # _ \<Rightarrow>
           bindio (if JobID selected \<noteq> lockedJobID
             then with_locks [JobRequest (lock_environment c) (storage_root c) repo (JobID selected)] (return_io ())
             else return_io ()) (\<lambda>_.
           bindio (wait_for_lock c n) (\<lambda>_.
           bindio (list_jobs (job_state c) repo) (\<lambda>jobs.
           bindio (case find (\<lambda>update. JobID update = JobID selected)
                (fst (reconcileJobDependencies jobs (UTC (clock (2 * n))))) of
              None \<Rightarrow> return_io ()
            | Some update \<Rightarrow> save_job (job_state c) repo update) (\<lambda>_.
             reconcileDependenciesWithLockedJob c clock n repo lockedJobID)))))"

definition reconcileDependencies :: "coordinator \<Rightarrow> (nat \<Rightarrow> gotime) \<Rightarrow> nat \<Rightarrow> repository \<Rightarrow> unit io" where
  "reconcileDependencies c clock fuel repo = reconcileDependenciesWithLockedJob c clock fuel repo []"

section \<open>Scheduling\<close>

definition failedConfigurationJob ::
    "coordinator \<Rightarrow> string result \<Rightarrow> gotime \<Rightarrow> repository \<Rightarrow> string \<Rightarrow> string \<Rightarrow> goerror \<Rightarrow> job io" where
  "failedConfigurationJob c random now repo branch commit configurationErr =
     (case random of
        Inl idErr \<Rightarrow> lift_io (Inl (JoinErr configurationErr idErr))
      | Inr jid \<Rightarrow>
          let finished = UTC now;
              j = \<lparr>JobID = jid, JobName = ''configuration'', JobRepository = Full repo, JobBranch = branch,
                JobCommit = commit, JobImage = [], JobNeeds = [], Status = StatusFailed, JobCreatedAt = finished,
                StartedAt = None, FinishedAt = Some finished,
                JobError = ''invalid .gitone.yaml jobs: '' @ error_text configurationErr, RunnerID = [], Attempt = 0,
                LeaseExpiresAt = None, RerunOf = []\<rparr>
          in bindio (attempt (save_job (job_state c) repo j)) (\<lambda>saved.
               case saved of
                 Inl err \<Rightarrow> lift_io (Inl (JoinErr configurationErr err))
               | Inr _ \<Rightarrow>
                   bindio (attempt (bindio (createLog (job_state c) repo jid) (\<lambda>directory.
                     AppendFile (short_write (job_state c)) directory (jid @ ''.log'') (JobError j @ [CHR 0x0A])))) (\<lambda>_.
                   return_io j)))"

definition failedConfigurationJobs ::
    "coordinator \<Rightarrow> string result \<Rightarrow> gotime \<Rightarrow> repository \<Rightarrow> string \<Rightarrow> string \<Rightarrow> goerror \<Rightarrow> job list io" where
  "failedConfigurationJobs c random now repo branch commit configurationErr =
     bindio (failedConfigurationJob c random now repo branch commit configurationErr) (\<lambda>j. return_io [j])"

fun save_all :: "job_store \<Rightarrow> repository \<Rightarrow> job list \<Rightarrow> unit io" where
  "save_all st repo [] = return_io ()"
| "save_all st repo (j # js) = bindio (save_job st repo j) (\<lambda>_. save_all st repo js)"

fun reload_all :: "job_store \<Rightarrow> repository \<Rightarrow> job list \<Rightarrow> job list io" where
  "reload_all st repo [] = return_io []"
| "reload_all st repo (j # js) =
     bindio (attempt (get_job st repo (JobID j))) (\<lambda>r.
     bindio (reload_all st repo js) (\<lambda>rest. return_io ((case r of Inl _ \<Rightarrow> j | Inr stored \<Rightarrow> stored) # rest)))"

definition ScheduleLocked ::
    "coordinator \<Rightarrow> string result list \<Rightarrow> gotime \<Rightarrow> (nat \<Rightarrow> gotime) \<Rightarrow> nat \<Rightarrow> repository \<Rightarrow> string \<Rightarrow> string \<Rightarrow> job list io" where
  "ScheduleLocked c random now clock fuel repo branch commit =
     bindio (lift_io (openRepositoryForBuild c repo)) (\<lambda>view.
       let failed = failedConfigurationJobs c (case random of [] \<Rightarrow> Inl ErrIO | r # _ \<Rightarrow> r) now repo branch commit in
       case Read view commit of
         (_, _, Some err) \<Rightarrow> failed err
       | (cfg, found, None) \<Rightarrow>
           if \<not> found \<or> Jobs cfg = [] then return_io []
           else case Config_Validate (branch_glob c) cfg of
             Inl err \<Rightarrow> failed err
           | Inr _ \<Rightarrow>
               bindio (lift_io (configuredJobs (branch_glob c) random repo branch commit cfg (UTC now))) (\<lambda>jobs.
               bindio (save_all (job_state c) repo jobs) (\<lambda>_.
               bindio (reconcileDependencies c clock fuel repo) (\<lambda>_.
                 reload_all (job_state c) repo jobs))))"

definition Schedule ::
    "coordinator \<Rightarrow> string result list \<Rightarrow> gotime \<Rightarrow> (nat \<Rightarrow> gotime) \<Rightarrow> nat \<Rightarrow> repository \<Rightarrow> string \<Rightarrow> string \<Rightarrow> job list io" where
  "Schedule c random now clock fuel repo branch commit =
     acquireBuildOperationLock c repo [] (ScheduleLocked c random now clock fuel repo branch commit)"

section \<open>Operations of users\<close>

definition Start :: "coordinator \<Rightarrow> (nat \<Rightarrow> gotime) \<Rightarrow> nat \<Rightarrow> repository \<Rightarrow> string \<Rightarrow> job io" where
  "Start c clock fuel repo jid =
     acquireRepositoryBuildLock c repo [jid]
       (bindio (find_build c repo jid) (\<lambda>j.
        if Status j \<noteq> StatusManual then lift_io (Inl ErrBuildNotStartable)
        else case jobConfig c repo j of
          Inl err \<Rightarrow> lift_io (Inl (Wrap ''prepare manual build'' err))
        | Inr build \<Rightarrow>
            if \<not> Manual build then lift_io (Inl (Errorf ''build configuration is not manual''))
            else bindio (list_jobs (job_state c) repo) (\<lambda>jobs.
              case jobDependenciesReady j jobs of
                Inl err \<Rightarrow> lift_io (Inl (JoinErr ErrBuildDependenciesUnmet err))
              | Inr ready \<Rightarrow>
                  if \<not> ready then lift_io (Inl ErrBuildDependenciesUnmet)
                  else let queued = j\<lparr>Status := StatusQueued\<rparr> in
                    bindio (save_job (job_state c) repo queued) (\<lambda>_.
                    bindio (reconcileDependenciesWithLockedJob c clock fuel repo jid) (\<lambda>_.
                    return_io queued)))))"

definition terminalStatus :: "string \<Rightarrow> bool" where
  "terminalStatus status \<longleftrightarrow> status = StatusSucceeded \<or> status = StatusFailed \<or> status = StatusCanceled"

definition Rerun :: "coordinator \<Rightarrow> string result \<Rightarrow> gotime \<Rightarrow> repository \<Rightarrow> string \<Rightarrow> job io" where
  "Rerun c random now repo jid =
     acquireRepositoryBuildLock c repo [jid]
       (bindio (find_build c repo jid) (\<lambda>original.
        if \<not> terminalStatus (Status original) then lift_io (Inl ErrBuildNotRerunnable)
        else case jobConfig c repo original of
          Inl err \<Rightarrow> lift_io (Inl (Wrap ''prepare build rerun'' err))
        | Inr build \<Rightarrow>
            bindio (list_jobs (job_state c) repo) (\<lambda>jobs.
              case successfulDependencies (Needs build) original jobs of
                Inl err \<Rightarrow> lift_io (Inl (JoinErr ErrBuildDependenciesUnmet err))
              | Inr dependencies \<Rightarrow>
                  bindio (lift_io random) (\<lambda>newID.
                    let j = \<lparr>JobID = newID, JobName = JobName original, JobRepository = Full repo,
                      JobBranch = JobBranch original, JobCommit = JobCommit original, JobImage = Image build,
                      JobNeeds = dependencies, Status = StatusQueued, JobCreatedAt = UTC now, StartedAt = None,
                      FinishedAt = None, JobError = [], RunnerID = [], Attempt = 0, LeaseExpiresAt = None,
                      RerunOf = JobID original\<rparr>
                    in bindio (save_job (job_state c) repo j) (\<lambda>_. return_io j)))))"

definition Cancel :: "coordinator \<Rightarrow> gotime \<Rightarrow> (nat \<Rightarrow> gotime) \<Rightarrow> nat \<Rightarrow> repository \<Rightarrow> string \<Rightarrow> job io" where
  "Cancel c now clock fuel repo jid =
     acquireRepositoryBuildLock c repo [jid]
       (bindio (find_build c repo jid) (\<lambda>j.
        if Status j = StatusCanceled then return_io j
        else if Status j \<noteq> StatusWaiting \<and> Status j \<noteq> StatusQueued \<and> Status j \<noteq> StatusRunning
        then lift_io (Inl ErrBuildNotCancelable)
        else let canceled = j\<lparr>Status := StatusCanceled, FinishedAt := Some (UTC now), LeaseExpiresAt := None, JobError := []\<rparr> in
          bindio (save_job (job_state c) repo canceled) (\<lambda>_.
          bindio (reconcileDependenciesWithLockedJob c clock fuel repo jid) (\<lambda>_.
          return_io canceled))))"

section \<open>Operations of runners\<close>

definition runner_char :: "char \<Rightarrow> bool" where
  "runner_char ch \<longleftrightarrow> job_char ch \<or> ch = CHR ''.''"

definition validRunnerID :: "string \<Rightarrow> bool" where
  "validRunnerID rid =
     (let trimmed = TrimSpace rid in
      if trimmed = [] \<or> length trimmed > maximumRunnerIDLength then False else list_all runner_char trimmed)"

definition ownedJob :: "coordinator \<Rightarrow> repository \<Rightarrow> string \<Rightarrow> string \<Rightarrow> job io" where
  "ownedJob c repo jid runnerID =
     (if \<not> validRunnerID runnerID then lift_io (Inl (Errorf ''invalid runner ID''))
      else bindio (find_build c repo jid) (\<lambda>j.
        if RunnerID j \<noteq> runnerID then lift_io (Inl (Errorf ''build is leased by another runner''))
        else return_io j))"

definition ownedRunningJob :: "coordinator \<Rightarrow> repository \<Rightarrow> string \<Rightarrow> string \<Rightarrow> job io" where
  "ownedRunningJob c repo jid runnerID =
     bindio (ownedJob c repo jid runnerID) (\<lambda>j.
       if Status j \<noteq> StatusRunning then lift_io (Inl (Errorf ''build is not running'')) else return_io j)"

text \<open>\<^verbatim>\<open>jobCandidate\<close> is a pair of a repository and a build.\<close>

definition claimable :: "gotime \<Rightarrow> job \<Rightarrow> bool" where
  "claimable now j \<longleftrightarrow> Status j = StatusQueued \<or>
     (Status j = StatusRunning \<and> (case LeaseExpiresAt j of None \<Rightarrow> True | Some expires \<Rightarrow> \<not> Before now expires))"

fun repository_candidates ::
    "coordinator \<Rightarrow> (nat \<Rightarrow> gotime) \<Rightarrow> nat \<Rightarrow> gotime \<Rightarrow> string list \<Rightarrow> string list \<Rightarrow> (repository \<times> job) list io" where
  "repository_candidates c clock fuel now parts [] = return_io []"
| "repository_candidates c clock fuel now parts (name # names) =
     (let repo = \<lparr>Groups = parts, Name = name\<rparr> in
      bindio (reconcileDependencies c clock fuel repo) (\<lambda>_.
      bindio (list_jobs (job_state c) repo) (\<lambda>jobs.
      bindio (repository_candidates c clock fuel now parts names) (\<lambda>rest.
        return_io (map (Pair repo) (filter (claimable now) jobs) @ rest)))))"

fun group_candidates ::
    "coordinator \<Rightarrow> (nat \<Rightarrow> gotime) \<Rightarrow> nat \<Rightarrow> gotime \<Rightarrow> (string \<times> string list) list \<Rightarrow> (repository \<times> job) list io" where
  "group_candidates c clock fuel now [] = return_io []"
| "group_candidates c clock fuel now ((path, repositories) # groups) =
     bindio (lift_io (ParseGroup path)) (\<lambda>parts.
     bindio (repository_candidates c clock fuel now parts repositories) (\<lambda>found.
     bindio (group_candidates c clock fuel now groups) (\<lambda>rest. return_io (found @ rest))))"

text \<open>The oldest build first, then by repository and name. Ties keep the order in which they were found.\<close>

definition candidate_order :: "repository \<times> job \<Rightarrow> int \<times> string \<times> string" where
  "candidate_order = (\<lambda>(repo, j). (instant (JobCreatedAt j), Full repo, JobName j))"

definition candidates ::
    "coordinator \<Rightarrow> (nat \<Rightarrow> gotime) \<Rightarrow> nat \<Rightarrow> (string \<times> string list) list result \<Rightarrow> gotime \<Rightarrow> (repository \<times> job) list io" where
  "candidates c clock fuel listing now =
     bindio (lift_io listing) (\<lambda>groups.
     bindio (group_candidates c clock fuel now groups) (\<lambda>found. return_io (sort_key candidate_order found)))"

definition claimed :: "coordinator \<Rightarrow> string \<Rightarrow> gotime \<Rightarrow> repository \<Rightarrow> job \<Rightarrow> job" where
  "claimed c runnerID now repo j =
     j\<lparr>JobRepository := Full repo, Status := StatusRunning,
       StartedAt := (case StartedAt j of None \<Rightarrow> Some now | Some started \<Rightarrow> Some started),
       RunnerID := runnerID, Attempt := Attempt j + 1, LeaseExpiresAt := Some (Add now (leaseDuration c))\<rparr>"

text \<open>\<open>reading n\<close> is the clock when the \<open>n\<close>-th candidate from the end is tried.\<close>

fun claim_first ::
    "coordinator \<Rightarrow> string \<Rightarrow> (nat \<Rightarrow> gotime) \<Rightarrow> (nat \<Rightarrow> gotime) \<Rightarrow> nat \<Rightarrow> (repository \<times> job) list \<Rightarrow> lease option io" where
  "claim_first c runnerID reading clock fuel [] = return_io None"
| "claim_first c runnerID reading clock fuel ((repo, j) # rest) =
     (let now = UTC (reading (length rest)) in
      case jobConfig c repo j of
        Inl configErr \<Rightarrow>
          let failed = j\<lparr>Status := StatusFailed, FinishedAt := Some now,
            JobError := ''prepare remote build: '' @ error_text configErr, LeaseExpiresAt := None\<rparr>
          in bindio (attempt (save_job (job_state c) repo failed)) (\<lambda>r.
               case r of
                 Inl saveErr \<Rightarrow> lift_io (Inl (JoinErr configErr saveErr))
               | Inr _ \<Rightarrow>
                   bindio (reconcileDependencies c clock fuel repo) (\<lambda>_.
                   claim_first c runnerID reading clock fuel rest))
      | Inr cfg \<Rightarrow>
          let taken = claimed c runnerID now repo j in
          bindio (save_job (job_state c) repo taken) (\<lambda>_.
          bindio (logSize (job_state c) repo (JobID taken)) (\<lambda>offset.
            return_io (Some \<lparr>LeasedJob = taken, LeaseConfig = cfg, LogOffset = offset,
              LeaseSeconds = leaseDuration c div second\<rparr>))))"

definition Claim ::
    "coordinator \<Rightarrow> (string \<times> string list) list result \<Rightarrow> gotime \<Rightarrow> (nat \<Rightarrow> gotime) \<Rightarrow> (nat \<Rightarrow> gotime) \<Rightarrow> nat \<Rightarrow>
     string \<Rightarrow> lease option io" where
  "Claim c listing now reading clock fuel runnerID =
     (if \<not> validRunnerID runnerID then lift_io (Inl (Errorf ''invalid runner ID''))
      else with_locks [CatalogRequest (lock_environment c) (storage_root c) Exclusive,
          QueueRequest (lock_environment c) (storage_root c)]
        (bindio (candidates c clock fuel listing (UTC now)) (\<lambda>found.
          claim_first c runnerID reading clock fuel found)))"

definition HeartbeatState :: "coordinator \<Rightarrow> gotime \<Rightarrow> repository \<Rightarrow> string \<Rightarrow> string \<Rightarrow> heartbeat_result io" where
  "HeartbeatState c now repo jid runnerID =
     acquireRepositoryBuildLock c repo [jid]
       (bindio (ownedJob c repo jid runnerID) (\<lambda>j.
        if terminalStatus (Status j)
        then lift_io (case FinishedAt j of
          None \<Rightarrow> Inl (Errorf ''completed build has no finish time'')
        | Some finished \<Rightarrow> Inr \<lparr>ResultExpiresAt = finished, Canceled = (Status j = StatusCanceled)\<rparr>)
        else if Status j \<noteq> StatusRunning then lift_io (Inl (Errorf ''build is not running''))
        else let expires = Add (UTC now) (leaseDuration c) in
          bindio (save_job (job_state c) repo (j\<lparr>LeaseExpiresAt := Some expires\<rparr>)) (\<lambda>_.
          return_io \<lparr>ResultExpiresAt = expires, Canceled = False\<rparr>)))"

definition Heartbeat :: "coordinator \<Rightarrow> gotime \<Rightarrow> repository \<Rightarrow> string \<Rightarrow> string \<Rightarrow> gotime io" where
  "Heartbeat c now repo jid runnerID =
     bindio (HeartbeatState c now repo jid runnerID) (\<lambda>result. return_io (ResultExpiresAt result))"

definition AppendLog :: "coordinator \<Rightarrow> gotime \<Rightarrow> repository \<Rightarrow> string \<Rightarrow> string \<Rightarrow> int \<Rightarrow> string \<Rightarrow> nat io" where
  "AppendLog c now repo jid runnerID offset contents =
     acquireRepositoryBuildLock c repo [jid]
       (bindio (ownedRunningJob c repo jid runnerID) (\<lambda>j.
        bindio (appendLog (job_state c) repo jid offset contents) (\<lambda>nextOffset.
        bindio (save_job (job_state c) repo (j\<lparr>LeaseExpiresAt := Some (Add (UTC now) (leaseDuration c))\<rparr>)) (\<lambda>_.
        return_io nextOffset))))"

definition Complete ::
    "coordinator \<Rightarrow> gotime \<Rightarrow> (nat \<Rightarrow> gotime) \<Rightarrow> nat \<Rightarrow> repository \<Rightarrow> string \<Rightarrow> string \<Rightarrow> string \<Rightarrow> job io" where
  "Complete c now clock fuel repo jid runnerID buildError =
     acquireRepositoryBuildLock c repo [jid]
       (bindio (ownedJob c repo jid runnerID) (\<lambda>j.
        let expectedStatus = if buildError \<noteq> [] then StatusFailed else StatusSucceeded in
        if Status j = StatusCanceled then return_io j
        else if Status j = StatusSucceeded \<or> Status j = StatusFailed
        then if Status j = expectedStatus \<and> JobError j = buildError then return_io j
          else lift_io (Inl (Errorf ''build was already completed with a different result''))
        else if Status j \<noteq> StatusRunning then lift_io (Inl (Errorf ''build is not running''))
        else let finished = j\<lparr>FinishedAt := Some (UTC now), LeaseExpiresAt := None, Status := expectedStatus,
            JobError := buildError\<rparr> in
          bindio (save_job (job_state c) repo finished) (\<lambda>_.
          bindio (reconcileDependenciesWithLockedJob c clock fuel repo jid) (\<lambda>_.
          return_io finished))))"

definition SourceJob :: "coordinator \<Rightarrow> repository \<Rightarrow> string \<Rightarrow> string \<Rightarrow> job io" where
  "SourceJob c repo jid runnerID =
     acquireRepositoryBuildLock c repo [jid] (ownedRunningJob c repo jid runnerID)"

end
