(* ===== verification/BuildCycle.thy ===== *)
theory BuildCycle
  imports Coordinator
begin

text \<open>
  The life cycle of a build as an abstract relation on stored builds, and the proof that every
  operation of the coordinator follows it, for every pattern of faults and also when other
  operations run while the reconciliation waits for a lock. The theory BuildClaim has the claims of
  remote runners, the theory BuildRest the end of the reconciliation loop.
\<close>

section \<open>The list of stored builds\<close>

definition job_ids :: "FileSystem.directory \<Rightarrow> string list" where
  "job_ids es = map (\<lambda>(name, _). TrimSuffix name ''.json'') (filter (\<lambda>(name, node). node \<noteq> Subdir \<and> HasSuffix name ''.json'') es)"

lemma job_ids_simps [simp]:
  "job_ids [] = []"
  "job_ids ((name, node) # es) =
     (if node \<noteq> Subdir \<and> HasSuffix name ''.json'' then TrimSuffix name ''.json'' # job_ids es else job_ids es)"
  by (simp_all add: job_ids_def)

lemma job_ids_mem: "jid \<in> set (job_ids es) \<longleftrightarrow> (\<exists>node. node \<noteq> Subdir \<and> (jid @ ''.json'', node) \<in> set es)"
proof (induction es)
  case (Cons e es)
  obtain name node where e: "e = (name, node)" by fastforce
  have "TrimSuffix name ''.json'' = jid \<longleftrightarrow> name = jid @ ''.json''" if "HasSuffix name ''.json''"
    using that by (auto elim!: HasSuffixE)
  then show ?case using Cons e by auto
qed simp

lemma job_ids_distinct: "distinct (map fst es) \<Longrightarrow> distinct (job_ids es)"
proof (induction es)
  case (Cons e es)
  obtain name node where e: "e = (name, node)" by fastforce
  have "TrimSuffix name ''.json'' \<notin> set (job_ids es)" if suf: "HasSuffix name ''.json''"
  proof
    from suf obtain t where "name = t @ ''.json''" by (rule HasSuffixE)
    moreover assume "TrimSuffix name ''.json'' \<in> set (job_ids es)"
    ultimately obtain n where "(name, n) \<in> set es" by (auto simp: job_ids_mem)
    then show False using Cons.prems e by force
  qed
  then show ?case using Cons e by auto
qed simp

lemma read_jobs_Inr:
  assumes "read_jobs st d es s = (Inr js, t)"
  shows "list_all2 (\<lambda>jid j. job_view st s d jid = Some j) (job_ids es) js"
  using assms
proof (induction st d es arbitrary: js s rule: read_jobs.induct)
  case (2 st d name node es)
  show ?case
  proof (cases "node = Subdir \<or> \<not> HasSuffix name ''.json''")
    case True
    then show ?thesis using 2 by auto
  next
    case False
    then obtain j rest s1 where j: "readJob st d (TrimSuffix name ''.json'') s = (Inr j, s1)"
      "read_jobs st d es s1 = (Inr rest, t)" "js = j # rest"
      using 2(3) by (auto elim!: bindio_cases)
    have v: "job_view st s1 = job_view st s" by (rule same_files_views [OF same_files_quiet [OF quiet_readJob j(1)]])
    show ?thesis using False 2(2) [OF False j(2)] readJob_Inr [OF j(1)] j(3) v by simp
  qed
qed simp

text \<open>The builds a directory holds, in the listed order.\<close>

definition well_stored :: "job_store \<Rightarrow> file_system \<Rightarrow> bool" where
  "well_stored st s \<longleftrightarrow> tables_ok s \<and> (\<forall>d jid j. job_view st s d jid = Some j \<longrightarrow> JobID j = jid)"

lemma job_view_entry:
  assumes "job_view st s d jid = Some j"
  obtains tab node where "dir_at s d = Some tab" "map_of tab (jid @ ''.json'') = Some node" "node \<noteq> Subdir"
  using assms by (auto simp: job_view_def dir_entry_def open_node_def split: if_splits option.splits sum.splits node.splits)

lemma list_jobs_Inr:
  assumes "list_jobs st repo s = (Inr jobs, t)" "job_directory st repo = Inr d" "well_stored st s"
  shows "distinct (map JobID jobs)" "j \<in> set jobs \<longleftrightarrow> job_view st s d (JobID j) = Some j"
proof -
  have run: "bindio (attempt (ReadDir d)) (\<lambda>r.
       case r of Inl err \<Rightarrow> if errors_is err ErrNotExist then return_io [] else lift_io (Inl err)
       | Inr entries \<Rightarrow> bindio (read_jobs st d entries) (\<lambda>jobs. return_io (sort_key job_order jobs))) s = (Inr jobs, t)"
    using assms(1,2) by (simp add: list_jobs_def)
  obtain r s1 where r: "ReadDir d s = (r, s1)" by fastforce
  have v: "job_view st s1 = job_view st s" by (rule same_files_views [OF same_files_quiet [OF quiet_reads(2) r]])
  have "distinct (map JobID jobs) \<and> (j \<in> set jobs \<longleftrightarrow> job_view st s d (JobID j) = Some j)"
  proof (cases r)
    case (Inl err)
    then have "errors_is err ErrNotExist" "jobs = []" using run r by (auto simp: bindio_attempt split: if_splits)
    moreover from this have "err = ErrNotExist \<and> dir_at s d = None"
      using r Inl unfolding ReadDir_def by (elim call_io_cases) (auto split: option.splits if_splits)
    ultimately show ?thesis by (auto elim: job_view_entry)
  next
    case (Inr es)
    then obtain tab where tab: "dir_at s d = Some tab" "es = sort_key fst tab"
      using r unfolding ReadDir_def by (elim call_io_cases) (auto split: option.splits)
    obtain js where js: "read_jobs st d es s1 = (Inr js, t)" "jobs = sort_key job_order js"
      using run r Inr by (auto simp: bindio_attempt elim!: bindio_cases)
    have all: "list_all2 (\<lambda>jid j. job_view st s d jid = Some j) (job_ids es) js"
      using read_jobs_Inr [OF js(1)] v by simp
    have ids: "map JobID js = job_ids es"
      using all assms(3) by (auto simp: list_all2_conv_all_nth well_stored_def intro!: nth_equalityI)
    have names: "distinct (map fst tab)" using assms(3) tab(1) by (auto simp: well_stored_def tables_ok_def)
    then have "distinct (map fst es)" unfolding tab(2) by (metis distinct_map distinct_sort set_sort)
    then have "distinct (map JobID js)" unfolding ids by (rule job_ids_distinct)
    then have "distinct (map JobID jobs)" unfolding js(2) by (metis distinct_map distinct_sort set_sort)
    moreover have "j \<in> set js \<longleftrightarrow> job_view st s d (JobID j) = Some j"
    proof
      assume "j \<in> set js"
      then show "job_view st s d (JobID j) = Some j"
        using all [unfolded ids [symmetric]] by (induction js) auto
    next
      assume view: "job_view st s d (JobID j) = Some j"
      then obtain node where "map_of tab (JobID j @ ''.json'') = Some node" "node \<noteq> Subdir"
        using tab(1) by (auto elim: job_view_entry)
      then have "JobID j \<in> set (job_ids es)" unfolding job_ids_mem tab(2) by (auto dest: map_of_SomeD)
      then obtain i where i: "i < length js" "job_ids es ! i = JobID j"
        using ids by (metis in_set_conv_nth length_map)
      then have "job_view st s d (JobID j) = Some (js ! i)" using list_all2_nthD2 [OF all i(1)] by simp
      then show "j \<in> set js" using view i(1) by simp
    qed
    ultimately show ?thesis using js(2) by simp
  qed
  then show "distinct (map JobID jobs)" "j \<in> set jobs \<longleftrightarrow> job_view st s d (JobID j) = Some j" by simp_all
qed

section \<open>The life cycle\<close>

text \<open>
  What may become of the build stored under an identifier. A reconciliation queues a waiting build
  or fails one that waits or is started by hand; the other moves are those of the operations.
\<close>

inductive reconcile_move :: "job option \<Rightarrow> job option \<Rightarrow> bool" where
  release: "Status j = StatusWaiting \<Longrightarrow> reconcile_move (Some j) (Some (j\<lparr>Status := StatusQueued\<rparr>))"
| block: "Status j \<in> {StatusWaiting, StatusManual} \<Longrightarrow>
    reconcile_move (Some j) (Some (j\<lparr>Status := StatusFailed, FinishedAt := Some now, JobError := m\<rparr>))"

inductive build_move :: "job option \<Rightarrow> job option \<Rightarrow> bool" where
  created: "Status j \<in> {StatusManual, StatusWaiting, StatusQueued, StatusFailed} \<Longrightarrow> build_move None (Some j)"
| by_reconciliation: "reconcile_move a b \<Longrightarrow> build_move a b"
| started: "Status j = StatusManual \<Longrightarrow> build_move (Some j) (Some (j\<lparr>Status := StatusQueued\<rparr>))"
| canceled: "Status j \<in> {StatusWaiting, StatusQueued, StatusRunning} \<Longrightarrow>
    build_move (Some j) (Some (j\<lparr>Status := StatusCanceled, FinishedAt := Some now, LeaseExpiresAt := None, JobError := []\<rparr>))"
| unprepared: "Status j \<in> {StatusQueued, StatusRunning} \<Longrightarrow>
    build_move (Some j) (Some (j\<lparr>Status := StatusFailed, FinishedAt := Some now, JobError := m, LeaseExpiresAt := None\<rparr>))"
| taken: "Status j \<in> {StatusQueued, StatusRunning} \<Longrightarrow>
    build_move (Some j) (Some (j\<lparr>JobRepository := r, Status := StatusRunning, StartedAt := Some started, RunnerID := runner,
      Attempt := Attempt j + 1, LeaseExpiresAt := Some expires\<rparr>))"
| extended: "Status j = StatusRunning \<Longrightarrow> build_move (Some j) (Some (j\<lparr>LeaseExpiresAt := Some expires\<rparr>))"
| completed: "Status j = StatusRunning \<Longrightarrow> status \<in> {StatusSucceeded, StatusFailed} \<Longrightarrow>
    build_move (Some j) (Some (j\<lparr>FinishedAt := Some now, LeaseExpiresAt := None, Status := status, JobError := m\<rparr>))"

inductive_cases reconcile_moveE: "reconcile_move a b"
inductive_cases build_moveE: "build_move (Some j) b"

lemma reconcile_move_status:
  "reconcile_move (Some j) b \<Longrightarrow> Status j = StatusWaiting \<or> Status j = StatusManual"
  by (auto elim: reconcile_moveE)

lemma build_move_unfinished: "build_move (Some j) b \<Longrightarrow> \<not> terminalStatus (Status j)"
  by (auto simp: terminalStatus_def elim!: build_moveE dest: reconcile_move_status)

lemma build_move_JobID: "build_move (Some j) b \<Longrightarrow> \<exists>k. b = Some k \<and> JobID k = JobID j"
  by (auto elim!: build_moveE reconcile_moveE)

text \<open>Nothing moves a finished build, and a build stays one with its identifier.\<close>

lemma moves_finished: "build_move\<^sup>*\<^sup>* (Some j) b \<Longrightarrow> terminalStatus (Status j) \<Longrightarrow> b = Some j"
  by (metis build_move_unfinished converse_rtranclpE)

lemma moves_Some: "build_move\<^sup>*\<^sup>* (Some j) b \<Longrightarrow> \<exists>k. b = Some k \<and> JobID k = JobID j"
proof (induction rule: rtranclp_induct)
  case (step b c)
  then obtain k where k: "b = Some k" "JobID k = JobID j" by blast
  show ?case using build_move_JobID [OF step(2) [unfolded k(1)]] k(2) by auto
qed simp

section \<open>Steps of the stored builds\<close>

text \<open>
  \<open>moved move st s t\<close>: from \<open>s\<close> to \<open>t\<close> the stored builds follow the relation \<open>move\<close>, and they stay
  stored under their identifiers.
\<close>

definition moved :: "(job option \<Rightarrow> job option \<Rightarrow> bool) \<Rightarrow> job_store \<Rightarrow> file_system \<Rightarrow> file_system \<Rightarrow> bool" where
  "moved move st s t \<longleftrightarrow> (well_stored st s \<longrightarrow> well_stored st t \<and>
     (\<forall>d jid. move\<^sup>*\<^sup>* (job_view st s d jid) (job_view st t d jid)))"

text \<open>What \<^verbatim>\<open>encoding/json\<close> promises for the build records.\<close>

definition json_ok :: "job_store \<Rightarrow> bool" where
  "json_ok st \<longleftrightarrow> (\<forall>j json. job_marshal st j = Inr json \<longrightarrow> job_decode st (json @ [CHR 0x0A]) = Inr j)"

lemma moved_refl [simp, intro]: "moved move st s s"
  by (simp add: moved_def)

lemma moved_trans [trans]: "moved move st s t \<Longrightarrow> moved move st t u \<Longrightarrow> moved move st s u"
  unfolding moved_def by (meson rtranclp_trans)

lemma moved_views: "job_view st t = job_view st s \<Longrightarrow> (tables_ok s \<Longrightarrow> tables_ok t) \<Longrightarrow> moved move st s t"
  by (auto simp: moved_def well_stored_def)

lemma moved_same_files: "same_files s t \<Longrightarrow> moved move st s t"
  by (rule moved_views) (simp_all add: same_files_views, simp add: same_files_def)

lemma moved_quiet: "quiet m \<Longrightarrow> m s = (x, t) \<Longrightarrow> moved move st s t"
  by (rule moved_same_files [OF same_files_quiet])

lemma moved_well: "moved move st s t \<Longrightarrow> well_stored st s \<Longrightarrow> well_stored st t"
  by (simp add: moved_def)

lemma moved_mono: "moved move st s t \<Longrightarrow> (\<And>a b. move a b \<Longrightarrow> move' a b) \<Longrightarrow> moved move' st s t"
  unfolding moved_def by (metis mono_rtranclp)

lemma save_moves:
  assumes "json_ok st" "save_job st repo j s = (x, t)"
    and move: "\<And>d. job_directory st repo = Inr d \<Longrightarrow> well_stored st s \<Longrightarrow> move\<^sup>*\<^sup>* (job_view st s d (JobID j)) (Some j)"
  shows "moved move st s t"
    "x = Inr () \<Longrightarrow> job_directory st repo = Inr d \<Longrightarrow> job_view st t d = (job_view st s d)(JobID j \<mapsto> j) \<and>
       (\<forall>p. p \<noteq> d \<longrightarrow> job_view st t p = job_view st s p)"
proof -
  show "moved move st s t"
  proof (cases "job_directory st repo")
    case (Inl e)
    then have "t = s" using assms(2) by (simp add: save_job_def)
    then show ?thesis by simp
  next
    case (Inr d)
    from assms(2) Inr show ?thesis
    proof (cases rule: save_job_cases)
      case (failed e)
      then show ?thesis by (simp add: moved_same_files)
    next
      case saved
      then have here: "job_view st t d = (job_view st s d)(JobID j \<mapsto> j)"
        and other: "p \<noteq> d \<Longrightarrow> job_view st t p = job_view st s p" and tables: "tables_ok s \<Longrightarrow> tables_ok t" for p
        using assms(1) by (auto simp: saved_job_def json_ok_def)
      have view: "job_view st t p jid = (if p = d \<and> jid = JobID j then Some j else job_view st s p jid)" for p jid
        using here other by (cases "p = d") auto
      show ?thesis unfolding moved_def
        using move [OF Inr] tables by (auto simp: well_stored_def view)
    qed
  qed
  assume "x = Inr ()" and d: "job_directory st repo = Inr d"
  with assms(2) d show "job_view st t d = (job_view st s d)(JobID j \<mapsto> j) \<and> (\<forall>p. p \<noteq> d \<longrightarrow> job_view st t p = job_view st s p)"
    by (elim save_job_cases) (use assms(1) in \<open>auto simp: saved_job_def json_ok_def\<close>)
qed

section \<open>Reconciliation of stored builds\<close>

lemma outcome_moves: "outcome now js j k \<Longrightarrow> reconcile_move\<^sup>*\<^sup>* (Some j) (Some k)"
  by (auto simp: outcome_def unsettled_def intro: r_into_rtranclp reconcile_move.intros)

lemma updates_outcome:
  assumes "update \<in> set (fst (reconcileJobDependencies jobs now))"
  obtains j js where "j \<in> set jobs" "outcome now js j update" "JobID j = JobID update"
proof -
  have o: "outcomes now jobs (all_jobs (reconciled now jobs))" by (rule reconciled_final)
  have "update \<in> set (all_jobs (reconciled now jobs))"
    using assms by (auto simp: reconcileJobDependencies_def Let_def)
  then obtain i where i: "i < length jobs" "update = all_jobs (reconciled now jobs) ! i"
    using o by (auto simp: in_set_conv_nth outcomes_def)
  then have "outcome now (all_jobs (reconciled now jobs)) (jobs ! i) update" using o by (simp add: outcomes_def)
  then show ?thesis using that [of "jobs ! i"] i(1) outcome_JobID by simp
qed

text \<open>
  A life cycle contains the moves of a reconciliation; then the stored reconciliation follows it,
  as long as the operations that run while it waits for a lock do.
\<close>

locale life_cycle =
  fixes move :: "job option \<Rightarrow> job option \<Rightarrow> bool"
  assumes reconciles: "reconcile_move a b \<Longrightarrow> move a b"
begin

lemma update_moves:
  assumes "list_jobs st repo s = (Inr jobs, s')" "update \<in> set (fst (reconcileJobDependencies jobs now))"
    "job_directory st repo = Inr d" "well_stored st s"
  shows "move\<^sup>*\<^sup>* (job_view st s d (JobID update)) (Some update)"
proof -
  obtain j js where j: "j \<in> set jobs" "outcome now js j update" "JobID j = JobID update"
    using assms(2) by (rule updates_outcome)
  have "reconcile_move\<^sup>*\<^sup>* (Some j) (Some update)" by (rule outcome_moves [OF j(2)])
  then have "move\<^sup>*\<^sup>* (Some j) (Some update)" by (rule mono_rtranclp [rule_format, rotated]) (rule reconciles)
  moreover have "job_view st s d (JobID update) = Some j"
    using list_jobs_Inr(2) [OF assms(1,3,4), of j] j(1,3) by simp
  ultimately show ?thesis by simp
qed

lemma reconcile_moves:
  assumes "json_ok (job_state c)" "\<And>n s. moved move (job_state c) s (others c n s)"
    "reconcileDependenciesWithLockedJob c clock fuel repo locked s = (x, t)"
  shows "moved move (job_state c) s t"
  using assms(3)
proof (induction fuel arbitrary: s)
  case (Suc n)
  let ?st = "job_state c"
  from Suc.prems show ?case unfolding reconcileDependenciesWithLockedJob.simps
  proof (cases rule: bindio_cases)
    case (failed e)
    then show ?thesis by (rule_tac moved_quiet [OF quiet_jobs(1)])
  next
    case (went_on jobs s1)
    have m1: "moved move ?st s s1" by (rule moved_quiet [OF quiet_jobs(1) went_on(1)])
    show ?thesis
    proof (cases "fst (reconcileJobDependencies jobs (UTC (clock (2 * n + 1))))")
      case Nil
      then show ?thesis using went_on(2) m1 by simp
    next
      case (Cons selected rest)
      let ?acquire = "if JobID selected \<noteq> locked
         then with_locks [JobRequest (lock_environment c) (storage_root c) repo (JobID selected)] (return_io ())
         else return_io ()"
      let ?save = "\<lambda>jobs. case find (\<lambda>update. JobID update = JobID selected)
           (fst (reconcileJobDependencies jobs (UTC (clock (2 * n))))) of
         None \<Rightarrow> return_io () | Some update \<Rightarrow> save_job ?st repo update"
      have acquire: "u = s1" if "?acquire s1 = (y, u)" for y u
        using that by (auto simp: with_locks_def split: if_splits sum.splits)
      have run: "bindio ?acquire (\<lambda>_. bindio (wait_for_lock c n) (\<lambda>_. bindio (list_jobs ?st repo) (\<lambda>jobs.
         bindio (?save jobs) (\<lambda>_. reconcileDependenciesWithLockedJob c clock n repo locked)))) s1 = (x, t)"
        using went_on(2) Cons by simp
      then show ?thesis
      proof (cases rule: bindio_cases)
        case (failed e)
        then show ?thesis using m1 acquire by blast
      next
        case locked: (went_on y u)
        have u: "u = s1" by (rule acquire [OF locked(1)])
        define s2 where "s2 = others c n s1"
        have m2: "moved move ?st s s2" using m1 assms(2) unfolding s2_def by (rule moved_trans)
        have "bindio (list_jobs ?st repo) (\<lambda>jobs. bindio (?save jobs)
            (\<lambda>_. reconcileDependenciesWithLockedJob c clock n repo locked)) s2 = (x, t)"
          using locked(2) u by (simp add: wait_for_lock_def bindio_def s2_def)
        then show ?thesis
        proof (cases rule: bindio_cases)
          case (failed e)
          then show ?thesis using m2 moved_quiet [OF quiet_jobs(1)] moved_trans by blast
        next
          case again: (went_on jobs2 s3)
          have m3: "moved move ?st s s3" using m2 moved_quiet [OF quiet_jobs(1) again(1)] by (rule moved_trans)
          have same: "same_files s2 s3" by (rule same_files_quiet [OF quiet_jobs(1) again(1)])
          have saves: "moved move ?st s3 s4" if "?save jobs2 s3 = (y, s4)" for y s4
          proof (cases "find (\<lambda>update. JobID update = JobID selected) (fst (reconcileJobDependencies jobs2 (UTC (clock (2 * n)))))")
            case None
            then show ?thesis using that by simp
          next
            case (Some update)
            then have up: "update \<in> set (fst (reconcileJobDependencies jobs2 (UTC (clock (2 * n)))))"
              by (auto simp: find_Some_iff)
            have "save_job ?st repo update s3 = (y, s4)" using that Some by simp
            then show ?thesis
            proof (rule save_moves(1) [OF assms(1)])
              fix d assume d: "job_directory ?st repo = Inr d" "well_stored ?st s3"
              have w: "well_stored ?st s2"
                using d(2) same tables_ok_quiet [OF quiet_jobs(1) again(1)] by (simp add: well_stored_def same_files_views)
              show "move\<^sup>*\<^sup>* (job_view ?st s3 d (JobID update)) (Some update)"
                using update_moves [OF again(1) up d(1) w] same by (simp add: same_files_views)
            qed
          qed
          from again(2) show ?thesis
          proof (cases rule: bindio_cases)
            case (failed e)
            then show ?thesis using m3 saves moved_trans by blast
          next
            case (went_on y s4)
            then show ?thesis using m3 saves [OF went_on(1)] Suc.IH [OF went_on(2)] moved_trans by blast
          qed
        qed
      qed
    qed
  qed
qed simp

end

interpretation full_cycle: life_cycle build_move
  by unfold_locales (rule by_reconciliation)

interpretation reconciling: life_cycle reconcile_move
  by unfold_locales

section \<open>Operations\<close>

lemma locked_cases:
  assumes "acquireRepositoryBuildLock c repo ids action s = (x, t)"
  obtains e where "t = s" "x = Inl e" | "action s = (x, t)"
  using assms by (auto simp: acquireRepositoryBuildLock_def acquireBuildOperationLock_def with_locks_def split: sum.splits)

lemma quiet_find_build [intro, simp]: "quiet (find_build c repo jid)"
  unfolding find_build_def by (intro quiet_bind quiet_attempt quiet_jobs quiet_return)

lemma find_build_Inr:
  assumes "find_build c repo jid s = (Inr j, t)"
  obtains d where "job_directory (job_state c) repo = Inr d" "job_view (job_state c) t d jid = Some j" "same_files s t"
proof -
  have g: "get_job (job_state c) repo jid s = (Inr j, t)"
    using assms by (auto simp: find_build_def bindio_attempt split: prod.splits sum.splits)
  then obtain d where d: "job_directory (job_state c) repo = Inr d"
    by (cases "job_directory (job_state c) repo") (simp_all add: get_job_def)
  show ?thesis using that [OF d] get_job_Inr [OF g d] by (simp add: same_files_views)
qed

lemma quiet_owned [intro, simp]: "quiet (ownedJob c repo jid runner)" "quiet (ownedRunningJob c repo jid runner)"
proof -
  show "quiet (ownedJob c repo jid runner)" unfolding ownedJob_def by (auto intro!: quiet_bind)
  then show "quiet (ownedRunningJob c repo jid runner)" unfolding ownedRunningJob_def by (auto intro!: quiet_bind)
qed

lemma ownedJob_Inr:
  assumes "ownedJob c repo jid runner s = (Inr j, t)"
  obtains d where "job_directory (job_state c) repo = Inr d" "job_view (job_state c) t d jid = Some j" "same_files s t"
    "RunnerID j = runner" "validRunnerID runner"
proof -
  have v: "validRunnerID runner" using assms by (auto simp: ownedJob_def split: if_splits)
  then obtain u where u: "find_build c repo jid s = (Inr j, u)" "RunnerID j = runner" "u = t"
    using assms by (auto simp: ownedJob_def elim!: bindio_cases split: if_splits)
  from find_build_Inr [OF u(1)] show ?thesis using that u v by metis
qed

lemma ownedRunningJob_Inr:
  assumes "ownedRunningJob c repo jid runner s = (Inr j, t)"
  obtains "ownedJob c repo jid runner s = (Inr j, t)" "Status j = StatusRunning"
  using assms by (auto simp: ownedRunningJob_def elim!: bindio_cases split: if_splits)

lemma save_found:
  assumes "json_ok st" "job_directory st repo = Inr d" "job_view st s d jid = Some j" "save_job st repo k s = (y, t)"
    "JobID k = JobID j" "build_move (Some j) (Some k)"
  shows "moved build_move st s t"
proof (rule save_moves(1) [OF assms(1,4)])
  fix p assume "job_directory st repo = Inr p" "well_stored st s"
  then have "p = d" "JobID j = jid" using assms(2,3) by (auto simp: well_stored_def)
  then show "build_move\<^sup>*\<^sup>* (job_view st s p (JobID k)) (Some k)" using assms(3,5,6) by auto
qed

text \<open>
  What the operations rely on: JSON, that the jobs of a decoded configuration are a map, and the
  other operations during a wait.
\<close>

definition maps_ok :: "coordinator \<Rightarrow> bool" where
  "maps_ok c \<longleftrightarrow> (\<forall>p view y cfg. plain_open c p = Inr view \<longrightarrow> decode_yaml view y = Inr cfg \<longrightarrow> distinct (map fst (Jobs cfg)))"

definition coordinator_ok :: "coordinator \<Rightarrow> bool" where
  "coordinator_ok c \<longleftrightarrow> json_ok (job_state c) \<and> maps_ok c \<and> (\<forall>n s. moved build_move (job_state c) s (others c n s))"

lemma coordinator_okD: "coordinator_ok c \<Longrightarrow> json_ok (job_state c)"
  "coordinator_ok c \<Longrightarrow> moved build_move (job_state c) s (others c n s)" "coordinator_ok c \<Longrightarrow> maps_ok c"
  by (simp_all add: coordinator_ok_def)

lemma coordinator_reconciles:
  assumes "coordinator_ok c" "reconcileDependenciesWithLockedJob c clock fuel repo locked s = (x, t)"
  shows "moved build_move (job_state c) s t"
  by (rule full_cycle.reconcile_moves [OF coordinator_okD(1) [OF assms(1)] _ assms(2)])
    (rule coordinator_okD(2) [OF assms(1)])

text \<open>A save of the build found, followed by the reconciliation.\<close>

lemma save_and_reconcile:
  assumes "coordinator_ok c" "job_directory (job_state c) repo = Inr d" "job_view (job_state c) s d jid = Some j"
    "bindio (save_job (job_state c) repo k) (\<lambda>_. bindio (reconcileDependenciesWithLockedJob c clock fuel repo jid) (\<lambda>_.
       return_io k)) s = (x, t)"
    "JobID k = JobID j" "build_move (Some j) (Some k)"
  shows "moved build_move (job_state c) s t"
proof -
  note save = save_found [OF coordinator_okD(1) [OF assms(1)] assms(2,3) _ assms(5,6)]
  from assms(4) show ?thesis
  proof (cases rule: bindio_cases)
    case (failed e)
    then show ?thesis using save by blast
  next
    case (went_on y u)
    from went_on(2) have "\<exists>z. reconcileDependenciesWithLockedJob c clock fuel repo jid u = (z, t)"
      by (auto elim!: bindio_cases)
    then show ?thesis using save [OF went_on(1)] coordinator_reconciles [OF assms(1)] moved_trans by blast
  qed
qed

lemma Start_moves:
  assumes "coordinator_ok c" "Start c clock fuel repo jid s = (x, t)"
  shows "moved build_move (job_state c) s t"
  using assms(2) unfolding Start_def
proof (cases rule: locked_cases)
  case 2
  then show ?thesis
  proof (cases rule: bindio_cases)
    case (failed e)
    then show ?thesis using moved_quiet by blast
  next
    case (went_on j s1)
    obtain d where d: "job_directory (job_state c) repo = Inr d" "job_view (job_state c) s1 d jid = Some j" "same_files s s1"
      using went_on(1) by (rule find_build_Inr)
    have m1: "moved build_move (job_state c) s s1" by (rule moved_same_files [OF d(3)])
    show ?thesis
    proof (cases "Status j = StatusManual \<and> (\<exists>b. jobConfig c repo j = Inr b \<and> Manual b)")
      case False
      then show ?thesis using went_on(2) m1 by (auto split: if_splits sum.splits)
    next
      case True
      then obtain b where b: "Status j = StatusManual" "jobConfig c repo j = Inr b" "Manual b" by blast
      let ?k = "j\<lparr>Status := StatusQueued\<rparr>"
      have "bindio (list_jobs (job_state c) repo) (\<lambda>jobs. case jobDependenciesReady j jobs of
          Inl err \<Rightarrow> lift_io (Inl (JoinErr ErrBuildDependenciesUnmet err))
        | Inr ready \<Rightarrow> if \<not> ready then lift_io (Inl ErrBuildDependenciesUnmet)
            else bindio (save_job (job_state c) repo ?k) (\<lambda>_.
              bindio (reconcileDependenciesWithLockedJob c clock fuel repo jid) (\<lambda>_. return_io ?k))) s1 = (x, t)"
        using went_on(2) [unfolded Let_def] b by simp
      then show ?thesis
      proof (cases rule: bindio_cases)
        case (failed e)
        then show ?thesis using m1 moved_quiet [OF quiet_jobs(1)] moved_trans by blast
      next
        case listed: (went_on jobs s2)
        have q: "same_files s1 s2" by (rule same_files_quiet [OF quiet_jobs(1) listed(1)])
        have m2: "moved build_move (job_state c) s s2" using m1 moved_same_files [OF q] by (rule moved_trans)
        have v2: "job_view (job_state c) s2 d jid = Some j" using d(2) q by (simp add: same_files_views)
        show ?thesis
        proof (cases "jobDependenciesReady j jobs = Inr True")
          case True
          then have "moved build_move (job_state c) s2 t"
            using listed(2) by (intro save_and_reconcile [OF assms(1) d(1) v2, where k = ?k]) (simp_all add: started [OF b(1)])
          with m2 show ?thesis by (rule moved_trans)
        next
          case False
          then show ?thesis using listed(2) m2 by (auto split: sum.splits if_splits)
        qed
      qed
    qed
  qed
qed simp

lemma Cancel_moves:
  assumes "coordinator_ok c" "Cancel c now clock fuel repo jid s = (x, t)"
  shows "moved build_move (job_state c) s t"
  using assms(2) unfolding Cancel_def
proof (cases rule: locked_cases)
  case 2
  then show ?thesis
  proof (cases rule: bindio_cases)
    case (failed e)
    then show ?thesis using moved_quiet by blast
  next
    case (went_on j s1)
    obtain d where d: "job_directory (job_state c) repo = Inr d" "job_view (job_state c) s1 d jid = Some j" "same_files s s1"
      using went_on(1) by (rule find_build_Inr)
    have m1: "moved build_move (job_state c) s s1" by (rule moved_same_files [OF d(3)])
    show ?thesis
    proof (cases "Status j \<in> {StatusWaiting, StatusQueued, StatusRunning}")
      case True
      define k where "k = j\<lparr>Status := StatusCanceled, FinishedAt := Some (UTC now), LeaseExpiresAt := None, JobError := []\<rparr>"
      have "build_move (Some j) (Some k)" unfolding k_def by (rule canceled [OF True])
      moreover have "bindio (save_job (job_state c) repo k) (\<lambda>_.
          bindio (reconcileDependenciesWithLockedJob c clock fuel repo jid) (\<lambda>_. return_io k)) s1 = (x, t)"
        using went_on(2) True unfolding Let_def k_def by (auto split: if_splits)
      ultimately have "moved build_move (job_state c) s1 t"
        by (intro save_and_reconcile [OF assms(1) d(1,2)]) (simp_all add: k_def)
      with m1 show ?thesis by (rule moved_trans)
    next
      case False
      then show ?thesis using went_on(2) m1 by (auto split: if_splits)
    qed
  qed
qed simp

lemma Complete_moves:
  assumes "coordinator_ok c" "Complete c now clock fuel repo jid runner buildError s = (x, t)"
  shows "moved build_move (job_state c) s t"
  using assms(2) unfolding Complete_def
proof (cases rule: locked_cases)
  case 2
  then show ?thesis
  proof (cases rule: bindio_cases)
    case (failed e)
    then show ?thesis using moved_quiet by blast
  next
    case (went_on j s1)
    obtain d where d: "job_directory (job_state c) repo = Inr d" "job_view (job_state c) s1 d jid = Some j" "same_files s s1"
      using went_on(1) by (rule ownedJob_Inr)
    have m1: "moved build_move (job_state c) s s1" by (rule moved_same_files [OF d(3)])
    show ?thesis
    proof (cases "Status j = StatusRunning")
      case True
      define k where "k = j\<lparr>FinishedAt := Some (UTC now), LeaseExpiresAt := None,
        Status := if buildError \<noteq> [] then StatusFailed else StatusSucceeded, JobError := buildError\<rparr>"
      have "build_move (Some j) (Some k)" unfolding k_def by (rule completed [OF True]) simp
      moreover have "bindio (save_job (job_state c) repo k) (\<lambda>_.
          bindio (reconcileDependenciesWithLockedJob c clock fuel repo jid) (\<lambda>_. return_io k)) s1 = (x, t)"
        using went_on(2) True by (simp add: Let_def k_def)
      ultimately have "moved build_move (job_state c) s1 t"
        by (intro save_and_reconcile [OF assms(1) d(1,2)]) (simp_all add: k_def)
      with m1 show ?thesis by (rule moved_trans)
    next
      case False
      then show ?thesis using went_on(2) m1 by (auto simp: Let_def split: if_splits)
    qed
  qed
qed simp

lemma HeartbeatState_moves:
  assumes "coordinator_ok c" "HeartbeatState c now repo jid runner s = (x, t)"
  shows "moved build_move (job_state c) s t"
  using assms(2) unfolding HeartbeatState_def
proof (cases rule: locked_cases)
  case 2
  then show ?thesis
  proof (cases rule: bindio_cases)
    case (failed e)
    then show ?thesis using moved_quiet by blast
  next
    case (went_on j s1)
    obtain d where d: "job_directory (job_state c) repo = Inr d" "job_view (job_state c) s1 d jid = Some j" "same_files s s1"
      using went_on(1) by (rule ownedJob_Inr)
    have m1: "moved build_move (job_state c) s s1" by (rule moved_same_files [OF d(3)])
    show ?thesis
    proof (cases "Status j = StatusRunning")
      case True
      define k where "k = j\<lparr>LeaseExpiresAt := Some (Add (UTC now) (leaseDuration c))\<rparr>"
      obtain y where "save_job (job_state c) repo k s1 = (y, t)"
        using went_on(2) True by (auto simp: Let_def k_def terminalStatus_def elim!: bindio_cases)
      moreover have "build_move (Some j) (Some k)" unfolding k_def by (rule extended [OF True])
      ultimately have "moved build_move (job_state c) s1 t"
        by (intro save_found [OF coordinator_okD(1) [OF assms(1)] d(1,2)]) (simp_all add: k_def)
      with m1 show ?thesis by (rule moved_trans)
    next
      case False
      then show ?thesis using went_on(2) m1 by (auto split: if_splits)
    qed
  qed
qed simp

lemma AppendLog_moves:
  assumes "coordinator_ok c" "AppendLog c now repo jid runner offset contents s = (x, t)"
  shows "moved build_move (job_state c) s t"
  using assms(2) unfolding AppendLog_def
proof (cases rule: locked_cases)
  case 2
  then show ?thesis
  proof (cases rule: bindio_cases)
    case (failed e)
    then show ?thesis using moved_quiet by blast
  next
    case (went_on j s1)
    have own: "ownedJob c repo jid runner s = (Inr j, s1)" and run: "Status j = StatusRunning"
      using ownedRunningJob_Inr [OF went_on(1)] by blast+
    obtain d where d: "job_directory (job_state c) repo = Inr d" "job_view (job_state c) s1 d jid = Some j" "same_files s s1"
      using own by (rule ownedJob_Inr)
    have m1: "moved build_move (job_state c) s s1" by (rule moved_same_files [OF d(3)])
    have append: "job_view (job_state c) u = job_view (job_state c) s1 \<and> moved build_move (job_state c) s1 u"
      if "appendLog (job_state c) repo jid offset contents s1 = (y, u)" for y u
      using appendLog_cases [OF that d(1)] by (auto simp: log_set_def intro!: moved_views)
    from went_on(2) show ?thesis
    proof (cases rule: bindio_cases)
      case (failed e)
      then show ?thesis using m1 append moved_trans by blast
    next
      case appended: (went_on n s2)
      define k where "k = j\<lparr>LeaseExpiresAt := Some (Add (UTC now) (leaseDuration c))\<rparr>"
      obtain y where "save_job (job_state c) repo k s2 = (y, t)"
        using appended(2) by (auto simp: k_def elim!: bindio_cases)
      moreover have "build_move (Some j) (Some k)" unfolding k_def by (rule extended [OF run])
      moreover have "job_view (job_state c) s2 d jid = Some j" using append [OF appended(1)] d(2) by simp
      ultimately have "moved build_move (job_state c) s2 t"
        by (intro save_found [OF coordinator_okD(1) [OF assms(1)] d(1), of s2 jid j]) (simp_all add: k_def)
      then show ?thesis using m1 append [OF appended(1)] moved_trans by blast
    qed
  qed
qed simp

text \<open>New builds, under identifiers that are not in use.\<close>

definition unused_id :: "coordinator \<Rightarrow> repository \<Rightarrow> file_system \<Rightarrow> string \<Rightarrow> bool" where
  "unused_id c repo s jid \<longleftrightarrow> (\<forall>d. job_directory (job_state c) repo = Inr d \<longrightarrow> job_view (job_state c) s d jid = None)"

abbreviation initial :: "job \<Rightarrow> bool" where
  "initial j \<equiv> Status j \<in> {StatusManual, StatusWaiting, StatusQueued, StatusFailed}"

lemma unused_id_same: "same_files s t \<Longrightarrow> unused_id c repo t jid = unused_id c repo s jid"
  by (simp add: unused_id_def same_files_views)

lemma save_new:
  assumes "coordinator_ok c" "save_job (job_state c) repo j s = (x, t)" "unused_id c repo s (JobID j)" "initial j"
  shows "moved build_move (job_state c) s t"
    "jid \<noteq> JobID j \<Longrightarrow> unused_id c repo s jid \<Longrightarrow> unused_id c repo t jid"
proof -
  show "moved build_move (job_state c) s t"
  proof (rule save_moves(1) [OF coordinator_okD(1) [OF assms(1)] assms(2)])
    fix d assume "job_directory (job_state c) repo = Inr d"
    then have "job_view (job_state c) s d (JobID j) = None" using assms(3) by (simp add: unused_id_def)
    then show "build_move\<^sup>*\<^sup>* (job_view (job_state c) s d (JobID j)) (Some j)"
      using created [OF assms(4)] by auto
  qed
  assume "jid \<noteq> JobID j" "unused_id c repo s jid"
  then show "unused_id c repo t jid" unfolding unused_id_def
    using assms(2) by (auto elim!: save_job_cases simp: same_files_views saved_job_def)
qed

lemma save_all_moves:
  assumes "coordinator_ok c" "save_all (job_state c) repo js s = (x, t)" "distinct (map JobID js)"
    "\<forall>j\<in>set js. unused_id c repo s (JobID j) \<and> initial j"
  shows "moved build_move (job_state c) s t"
  using assms(2-)
proof (induction js arbitrary: s)
  case (Cons j js)
  have new: "unused_id c repo s (JobID j)" "initial j" using Cons.prems(3) by simp_all
  from Cons.prems(1) have "bindio (save_job (job_state c) repo j) (\<lambda>_. save_all (job_state c) repo js) s = (x, t)" by simp
  then show ?case
  proof (cases rule: bindio_cases)
    case (failed e)
    then show ?thesis using save_new(1) [OF assms(1) _ new] by blast
  next
    case (went_on y u)
    have "moved build_move (job_state c) u t"
    proof (rule Cons.IH [OF went_on(2)])
      show "distinct (map JobID js)" using Cons.prems(2) by simp
      show "\<forall>k\<in>set js. unused_id c repo u (JobID k) \<and> initial k"
      proof
        fix k assume k: "k \<in> set js"
        then have "JobID k \<in> JobID ` set js" by simp
        then have "JobID k \<noteq> JobID j" using Cons.prems(2) by auto
        then show "unused_id c repo u (JobID k) \<and> initial k"
          using save_new(2) [OF assms(1) went_on(1) new, of "JobID k"] Cons.prems(3) k by simp
      qed
    qed
    then show ?thesis using save_new(1) [OF assms(1) went_on(1) new] moved_trans by blast
  qed
qed simp

lemma Rerun_moves:
  assumes "coordinator_ok c" "Rerun c random now repo jid s = (x, t)" "\<And>n. random = Inr n \<Longrightarrow> unused_id c repo s n"
  shows "moved build_move (job_state c) s t"
  using assms(2) unfolding Rerun_def
proof (cases rule: locked_cases)
  case 2
  then show ?thesis
  proof (cases rule: bindio_cases)
    case (failed e)
    then show ?thesis using moved_quiet by blast
  next
    case (went_on j s1)
    have q1: "same_files s s1" by (rule same_files_quiet [OF quiet_find_build went_on(1)])
    show ?thesis
    proof (cases "terminalStatus (Status j) \<and> (\<exists>b. jobConfig c repo j = Inr b)")
      case False
      then show ?thesis using went_on(2) moved_same_files [OF q1] by (auto split: if_splits sum.splits)
    next
      case True
      then obtain b where b: "terminalStatus (Status j)" "jobConfig c repo j = Inr b" by blast
      obtain y s2 where y: "list_jobs (job_state c) repo s1 = (y, s2)" by fastforce
      have q2: "same_files s s2" using q1 same_files_quiet [OF quiet_jobs(1) y] by (rule same_files_trans)
      show ?thesis
      proof (cases "\<exists>jobs ds n. y = Inr jobs \<and> successfulDependencies (Needs b) j jobs = Inr ds \<and> random = Inr n")
        case False
        then have "t = s2" using went_on(2) b y
          by (cases y; cases random) (auto simp: bindio_def split: sum.splits)
        then show ?thesis using moved_same_files [OF q2] by simp
      next
        case True
        then obtain jobs ds n where n: "y = Inr jobs" "successfulDependencies (Needs b) j jobs = Inr ds" "random = Inr n" by blast
        define k where "k = \<lparr>JobID = n, JobName = JobName j, JobRepository = Full repo,
          JobBranch = JobBranch j, JobCommit = JobCommit j, JobImage = Image b, JobNeeds = ds, Status = StatusQueued,
          JobCreatedAt = UTC now, StartedAt = None, FinishedAt = None, JobError = [], RunnerID = [], Attempt = 0,
          LeaseExpiresAt = None, RerunOf = JobID j\<rparr>"
        have "bindio (save_job (job_state c) repo k) (\<lambda>_. return_io k) s2 = (x, t)"
          using went_on(2) b y n by (simp add: bindio_def k_def Let_def)
        then obtain z where "save_job (job_state c) repo k s2 = (z, t)" by (auto elim!: bindio_cases)
        moreover have "unused_id c repo s2 (JobID k)" using assms(3) [OF n(3)] unused_id_same [OF q2] by (simp add: k_def)
        ultimately have "moved build_move (job_state c) s2 t" by (rule save_new(1) [OF assms(1)]) (simp add: k_def)
        then show ?thesis using moved_same_files [OF q2] moved_trans by blast
      qed
    qed
  qed
qed simp

section \<open>Scheduling\<close>

lemma assign_ids_Inr:
  "assign_ids random names = Inr ids \<Longrightarrow> map fst ids = names \<and> map (\<lambda>p. Inr (snd p)) ids = take (length names) random"
  by (induction random names arbitrary: ids rule: assign_ids.induct) (auto simp: bindr_def split: sum.splits)

lemma configured_job_initial: "initial (configured_job repo branch commit created ids name cfg)"
  by (simp add: configured_job_def Let_def split: option.split)

lemma configured_job_JobID:
  "ids name = Some jid \<Longrightarrow> JobID (configured_job repo branch commit created ids name cfg) = jid"
  by (simp add: configured_job_def Let_def split: option.split)

lemma configuredJobs_ids:
  assumes "configuredJobs match random repo branch commit cfg created = Inr jobs" "distinct (map fst (Jobs cfg))"
  shows "map (\<lambda>j. Inr (JobID j)) jobs = take (length jobs) random" "\<forall>j\<in>set jobs. initial j"
proof -
  define names where "names = sort (map fst (filter (\<lambda>(_, job). MatchesBranch match job branch) (Jobs cfg)))"
  define make where "make = (\<lambda>ids name. configured_job repo branch commit created ids name (the (map_of (Jobs cfg) name)))"
  obtain ids where ids: "assign_ids random names = Inr ids" "jobs = map (make (map_of ids)) names"
    using assms(1) by (auto simp: configuredJobs_def Let_def bindr_def names_def make_def split: sum.splits)
  note a = assign_ids_Inr [OF ids(1)]
  have len: "length ids = length names" using a by (metis length_map)
  have d: "distinct (map fst ids)" using a assms(2) by (simp add: names_def distinct_map_filter)
  have "map JobID jobs = map snd ids"
  proof (rule nth_equalityI)
    show "length (map JobID jobs) = length (map snd ids)" using ids(2) len by simp
    fix i assume "i < length (map JobID jobs)"
    then have i: "i < length ids" using ids(2) len by simp
    then have "names ! i = fst (ids ! i)" using a by (metis nth_map)
    then have "map_of ids (names ! i) = Some (snd (ids ! i))" using d i by (simp add: map_of_eq_Some_iff)
    then show "map JobID jobs ! i = map snd ids ! i"
      using i ids(2) len by (simp add: make_def configured_job_JobID)
  qed
  then have "map (Inr :: string \<Rightarrow> string result) (map JobID jobs) = map Inr (map snd ids)" by (rule arg_cong)
  then have "map (\<lambda>j. Inr (JobID j) :: string result) jobs = map (\<lambda>p. Inr (snd p)) ids" by (simp add: o_def)
  moreover have "length jobs = length names" using ids(2) by simp
  ultimately show "map (\<lambda>j. Inr (JobID j)) jobs = take (length jobs) random" using a by simp
  show "\<forall>j\<in>set jobs. initial j" unfolding ids(2) make_def using configured_job_initial by fastforce
qed

lemma OpenFile_moves:
  assumes "OpenFile fresh d (jid @ ''.log'') s = (x, t)"
  shows "moved move st s t"
  using assms unfolding OpenFile_def
proof (rule call_io_cases)
  fix fs assume "t = s\<lparr>faults := fs\<rparr>"
  then show ?thesis by (intro moved_views) (simp_all add: fun_eq_iff job_view_def)
next
  fix fs
  let ?s = "s\<lparr>faults := fs\<rparr>" and ?n = "jid @ ''.log''"
  assume h: "(case dir_at ?s d of None \<Rightarrow> (Inl ErrNotExist, ?s)
   | Some t \<Rightarrow> (case map_of t ?n of Some Subdir \<Rightarrow> (Inl ErrIO, ?s)
        | None \<Rightarrow> (Inr (), put_dir d (AList.update ?n (Regular []) t) ?s)
        | Some n \<Rightarrow> (Inr (), put_dir d (AList.update ?n (if fresh then with_contents n [] else with_contents n (node_contents n)) t) ?s))) = (x, t)"
  have same: "moved move st s ?s" by (intro moved_views) (simp_all add: fun_eq_iff job_view_def)
  show ?thesis
  proof (cases "dir_at s d")
    case None
    then show ?thesis using h same by simp
  next
    case (Some tab)
    have "moved move st s (put_dir d (AList.update ?n node tab) ?s)" for node
      using log_set_put [OF Some, of st jid node fs] by (intro moved_views) (simp_all add: log_set_def)
    then show ?thesis using h same Some by (auto split: option.splits node.splits)
  qed
qed

lemma AppendFile_moves:
  assumes "AppendFile short d (jid @ ''.log'') c s = (x, t)"
  shows "moved move st s t"
proof -
  have node: "moved move st u (snd (append_node d (jid @ ''.log'') c' u))" for c' u
  proof (cases "dir_at u d")
    case (Some tab)
    have "moved move st u (put_dir d (AList.update (jid @ ''.log'') n tab) u)" for n
      using log_set_put [OF Some, of st jid n "faults u"] by (intro moved_views) (simp_all add: log_set_def)
    then show ?thesis using Some by (simp add: append_node_def split: option.split)
  qed (simp add: append_node_def)
  obtain y u where y: "syscall s = (y, u)" by fastforce
  have "moved move st s u" by (rule moved_quiet [OF quiet_syscall y])
  moreover have "moved move st u t" using assms y node by (auto simp: AppendFile_def split: sum.splits) (metis snd_conv)
  ultimately show ?thesis by (rule moved_trans)
qed

lemma createLog_moves:
  assumes "createLog st repo jid s = (x, t)"
  shows "moved move st s t"
  using assms unfolding createLog_def
  by (auto elim!: bindio_cases split: sum.splits
      intro: moved_trans [OF moved_same_files [OF same_files_MkdirAll] OpenFile_moves] moved_same_files same_files_MkdirAll)

lemma failedConfigurationJobs_moves:
  assumes "coordinator_ok c" "failedConfigurationJobs c random now repo branch commit err s = (x, t)"
    "\<And>n. random = Inr n \<Longrightarrow> unused_id c repo s n"
  shows "moved build_move (job_state c) s t"
proof (cases random)
  case (Inl e)
  then show ?thesis using assms(2) by (simp add: failedConfigurationJobs_def failedConfigurationJob_def bindio_def)
next
  case (Inr n)
  define k where "k = \<lparr>JobID = n, JobName = ''configuration'', JobRepository = Full repo, JobBranch = branch,
    JobCommit = commit, JobImage = [], JobNeeds = [], Status = StatusFailed, JobCreatedAt = UTC now, StartedAt = None,
    FinishedAt = Some (UTC now), JobError = ''invalid .gitone.yaml jobs: '' @ error_text err, RunnerID = [], Attempt = 0,
    LeaseExpiresAt = None, RerunOf = []\<rparr>"
  define log where "log = bindio (createLog (job_state c) repo n) (\<lambda>directory.
    AppendFile (short_write (job_state c)) directory (n @ ''.log'') (JobError k @ [CHR 0x0A]))"
  have body: "failedConfigurationJob c random now repo branch commit err =
      bindio (attempt (save_job (job_state c) repo k)) (\<lambda>saved. case saved of
        Inl e \<Rightarrow> lift_io (Inl (JoinErr err e)) | Inr _ \<Rightarrow> bindio (attempt log) (\<lambda>_. return_io k))"
    by (simp only: failedConfigurationJob_def Inr sum.case Let_def k_def log_def)
  obtain y u where y: "save_job (job_state c) repo k s = (y, u)" by fastforce
  have m: "moved build_move (job_state c) s u"
    by (rule save_new(1) [OF assms(1) y]) (use assms(3) [OF Inr] in \<open>simp_all add: k_def\<close>)
  obtain z v where z: "log u = (z, v)" by fastforce
  have l: "moved build_move (job_state c) u v" using z unfolding log_def
    by (auto elim!: bindio_cases intro: createLog_moves moved_trans [OF createLog_moves AppendFile_moves])
  have "t = u \<or> t = v" using assms(2) y z unfolding failedConfigurationJobs_def body
    by (cases y) (simp_all add: attempt_def bindio_def)
  then show ?thesis using m l moved_trans by blast
qed

lemma quiet_reload_all: "quiet (reload_all st repo js)"
  by (induction js) (auto intro!: quiet_bind quiet_attempt)

lemma Read_jobs_distinct:
  assumes "maps_ok c" "plain_open c p = Inr view" "Read view revision = (cfg, found, e)"
  shows "distinct (map fst (Jobs cfg))"
proof -
  have "cfg = empty_config \<or> (\<exists>y. decode_yaml view y = Inr cfg)"
    using assms(3) by (auto simp: Read_def split: sum.splits prod.splits if_splits)
  then show ?thesis using assms(1,2) unfolding maps_ok_def by (auto simp: empty_config_def)
qed

text \<open>The random source gives identifiers that are not in use, each once.\<close>

definition fresh_ids :: "coordinator \<Rightarrow> repository \<Rightarrow> file_system \<Rightarrow> string result list \<Rightarrow> bool" where
  "fresh_ids c repo s random \<longleftrightarrow> (\<forall>n. Inr n \<in> set random \<longrightarrow> unused_id c repo s n) \<and>
     (\<forall>k. \<forall>ids. take k random = map Inr ids \<longrightarrow> distinct ids)"

lemma ScheduleLocked_moves:
  assumes "coordinator_ok c" "ScheduleLocked c random now clock fuel repo branch commit s = (x, t)"
    "fresh_ids c repo s random"
  shows "moved build_move (job_state c) s t"
proof (cases "openRepositoryForBuild c repo")
  case (Inl e)
  then show ?thesis using assms(2) by (simp add: ScheduleLocked_def)
next
  case (Inr view)
  then obtain p where p: "plain_open c p = Inr view"
    by (auto simp: openRepositoryForBuild_def bindr_def split: sum.splits)
  obtain cfg found e where r: "Read view commit = (cfg, found, e)" by (cases "Read view commit") auto
  let ?random = "case random of [] \<Rightarrow> Inl ErrIO | r # _ \<Rightarrow> r"
  have failed: "moved build_move (job_state c) s t"
    if "failedConfigurationJobs c ?random now repo branch commit err s = (x, t)" for err
    using that
  proof (rule failedConfigurationJobs_moves [OF assms(1)])
    show "\<And>n. ?random = Inr n \<Longrightarrow> unused_id c repo s n"
      using assms(3) by (cases random) (auto simp: fresh_ids_def)
  qed
  have scheduled: "moved build_move (job_state c) s t"
    if h: "bindio (lift_io (configuredJobs (branch_glob c) random repo branch commit cfg (UTC now))) (\<lambda>jobs.
        bindio (save_all (job_state c) repo jobs) (\<lambda>_. bindio (reconcileDependencies c clock fuel repo) (\<lambda>_.
        reload_all (job_state c) repo jobs))) s = (x, t)"
  proof (cases "configuredJobs (branch_glob c) random repo branch commit cfg (UTC now)")
    case (Inl e)
    then show ?thesis using h by simp
  next
    case (Inr jobs)
    note ids = configuredJobs_ids [OF Inr Read_jobs_distinct [OF coordinator_okD(3) [OF assms(1)] p r]]
    have "take (length jobs) random = map Inr (map JobID jobs)" using ids(1) by (simp add: o_def)
    then have d: "distinct (map JobID jobs)" using assms(3) unfolding fresh_ids_def by blast
    have u: "unused_id c repo s (JobID j)" if "j \<in> set jobs" for j
    proof -
      have "Inr (JobID j) \<in> set (map (\<lambda>j. Inr (JobID j) :: string result) jobs)" using that by simp
      then have "Inr (JobID j) \<in> set random" unfolding ids(1) by (rule in_set_takeD)
      then show ?thesis using assms(3) by (simp add: fresh_ids_def)
    qed
    have saves: "moved build_move (job_state c) s v" if "save_all (job_state c) repo jobs s = (y, v)" for y v
      by (rule save_all_moves [OF assms(1) that d]) (use u ids(2) in blast)
    have "bindio (save_all (job_state c) repo jobs) (\<lambda>_. bindio (reconcileDependencies c clock fuel repo) (\<lambda>_.
        reload_all (job_state c) repo jobs)) s = (x, t)" using h Inr by simp
    then show ?thesis
    proof (cases rule: bindio_cases)
      case (failed e)
      then show ?thesis using saves by blast
    next
      case (went_on y v)
      have "moved build_move (job_state c) v t" using went_on(2) unfolding reconcileDependencies_def
        by (auto elim!: bindio_cases intro: coordinator_reconciles [OF assms(1)]
            moved_trans [OF coordinator_reconciles [OF assms(1)] moved_quiet [OF quiet_reload_all]])
      with saves [OF went_on(1)] show ?thesis by (rule moved_trans)
    qed
  qed
  show ?thesis
  proof (cases e)
    case (Some err)
    then show ?thesis using assms(2) Inr r failed by (simp add: ScheduleLocked_def Let_def)
  next
    case None
    show ?thesis
    proof (cases "\<not> found \<or> Jobs cfg = []")
      case True
      then show ?thesis using assms(2) Inr r None by (auto simp: ScheduleLocked_def Let_def)
    next
      case False
      then show ?thesis using assms(2) Inr r None failed scheduled
        by (cases "Config_Validate (branch_glob c) cfg") (auto simp: ScheduleLocked_def Let_def)
    qed
  qed
qed

lemma Schedule_moves:
  assumes "coordinator_ok c" "Schedule c random now clock fuel repo branch commit s = (x, t)" "fresh_ids c repo s random"
  shows "moved build_move (job_state c) s t"
  using assms(2) ScheduleLocked_moves [OF assms(1) _ assms(3)]
  by (auto simp: Schedule_def acquireBuildOperationLock_def with_locks_def split: sum.splits)

end
