(* ===== verification/BuildClaim.thy ===== *)
theory BuildClaim
  imports BuildCycle
begin

text \<open>
  Claims of remote runners: collecting candidates, trying them in order, and what a claim takes.
  Then the operations of the coordinator as one step relation, and the life cycle of builds along
  every sequence of operations.
\<close>

section \<open>Claims\<close>

text \<open>
  A claim holds the catalog lock exclusively and every other operation takes it shared, so nothing
  else runs while a claim reconciles.
\<close>

definition runs_alone :: "coordinator \<Rightarrow> bool" where
  "runs_alone c \<longleftrightarrow> json_ok (job_state c) \<and> (\<forall>n s. others c n s = s)"

lemma reconcile_alone:
  assumes "runs_alone c" "reconcileDependenciesWithLockedJob c clock fuel repo locked s = (x, t)"
  shows "moved reconcile_move (job_state c) s t"
  by (rule reconciling.reconcile_moves [OF _ _ assms(2)]) (use assms(1) in \<open>simp_all add: runs_alone_def\<close>)

text \<open>A candidate as the store has it, and where it is stored.\<close>

definition stored_candidate :: "job_store \<Rightarrow> file_system \<Rightarrow> repository \<times> job \<Rightarrow> bool" where
  "stored_candidate st s = (\<lambda>(repo, j). Status j \<in> {StatusQueued, StatusRunning} \<and>
     (\<exists>d. job_directory st repo = Inr d \<and> job_view st s d (JobID j) = Some j))"

definition place :: "job_store \<Rightarrow> repository \<times> job \<Rightarrow> string result \<times> string" where
  "place st = (\<lambda>(repo, j). (job_directory st repo, JobID j))"

lemma reconcile_moves_active:
  assumes "reconcile_move\<^sup>*\<^sup>* (Some j) b" "Status j \<in> {StatusQueued, StatusRunning}"
  shows "b = Some j"
  using assms(1)
proof (cases rule: converse_rtranclpE)
  case (step y)
  then show ?thesis using reconcile_move_status assms(2) by fastforce
qed simp

lemma stored_candidate_kept:
  assumes "moved reconcile_move st s t" "well_stored st s" "stored_candidate st s p"
  shows "stored_candidate st t p"
proof -
  obtain repo j d where p: "p = (repo, j)" "Status j \<in> {StatusQueued, StatusRunning}" "job_directory st repo = Inr d"
    "job_view st s d (JobID j) = Some j"
    using assms(3) by (auto simp: stored_candidate_def)
  have "reconcile_move\<^sup>*\<^sup>* (Some j) (job_view st t d (JobID j))" using assms(1,2) p(4) unfolding moved_def by metis
  then have "job_view st t d (JobID j) = Some j" by (rule reconcile_moves_active [OF _ p(2)])
  then show ?thesis using p by (auto simp: stored_candidate_def)
qed

definition listed :: "(string \<times> string list) list \<Rightarrow> repository list" where
  "listed groups = concat (map (\<lambda>(path, names). case ParseGroup path of
     Inl _ \<Rightarrow> [] | Inr parts \<Rightarrow> map (\<lambda>name. \<lparr>Groups = parts, Name = name\<rparr>) names) groups)"

text \<open>What collecting candidates of some repositories gives.\<close>

definition collected :: "coordinator \<Rightarrow> gotime \<Rightarrow> repository list \<Rightarrow> (repository \<times> job) list \<Rightarrow> file_system \<Rightarrow> file_system \<Rightarrow> bool" where
  "collected c now repos found s t \<longleftrightarrow> moved reconcile_move (job_state c) s t \<and>
     (well_stored (job_state c) s \<longrightarrow> fst ` set found \<subseteq> set repos \<and>
       (\<forall>p\<in>set found. stored_candidate (job_state c) t p \<and> claimable now (snd p)) \<and>
       (distinct (map (job_directory (job_state c)) repos) \<longrightarrow> distinct (map (place (job_state c)) found)))"

lemma collected_append:
  assumes "collected c now repos found s t" "collected c now repos' found' t u"
  shows "collected c now (repos @ repos') (found @ found') s u"
  unfolding collected_def
proof (intro conjI impI)
  let ?st = "job_state c"
  have m: "moved reconcile_move ?st s t" "moved reconcile_move ?st t u" using assms by (simp_all add: collected_def)
  then show "moved reconcile_move ?st s u" by (rule moved_trans)
  assume w: "well_stored ?st s"
  have wt: "well_stored ?st t" using m(1) w by (rule moved_well)
  have f: "fst ` set found \<subseteq> set repos" "\<forall>p\<in>set found. stored_candidate ?st t p \<and> claimable now (snd p)"
    "fst ` set found' \<subseteq> set repos'" "\<forall>p\<in>set found'. stored_candidate ?st u p \<and> claimable now (snd p)"
    using assms w wt by (simp_all add: collected_def)
  then show "fst ` set (found @ found') \<subseteq> set (repos @ repos')" by auto
  have "stored_candidate ?st u p" if "p \<in> set found" for p
    using stored_candidate_kept [OF m(2) wt] f(2) that by blast
  then show "\<forall>p\<in>set (found @ found'). stored_candidate ?st u p \<and> claimable now (snd p)" using f(2,4) by auto
  assume d: "distinct (map (job_directory ?st) (repos @ repos'))"
  have "distinct (map (place ?st) found)" "distinct (map (place ?st) found')"
    using assms w wt d unfolding collected_def by simp_all
  moreover have "place ?st p \<noteq> place ?st q" if "p \<in> set found" "q \<in> set found'" for p q
  proof -
    have "fst p \<in> set repos" "fst q \<in> set repos'" using f(1,3) that by auto
    then have "job_directory ?st (fst p) \<noteq> job_directory ?st (fst q)" using d by auto
    then show ?thesis by (auto simp: place_def split: prod.splits)
  qed
  ultimately show "distinct (map (place ?st) (found @ found'))" by (simp add: disjoint_iff_not_equal)
qed

lemma repository_candidates_collected:
  assumes "runs_alone c" "repository_candidates c clock fuel now parts names s = (x, t)"
  shows "moved reconcile_move (job_state c) s t"
    "x = Inr found \<Longrightarrow> collected c now (map (\<lambda>name. \<lparr>Groups = parts, Name = name\<rparr>) names) found s t"
proof -
  have "moved reconcile_move (job_state c) s t \<and>
    (\<forall>found. x = Inr found \<longrightarrow> collected c now (map (\<lambda>name. \<lparr>Groups = parts, Name = name\<rparr>) names) found s t)"
    using assms(2)
  proof (induction names arbitrary: s x)
    case Nil
    then show ?case by (auto simp: collected_def)
  next
    case (Cons name names)
    let ?st = "job_state c" and ?repo = "\<lparr>Groups = parts, Name = name\<rparr>"
    from Cons.prems have "bindio (reconcileDependencies c clock fuel ?repo) (\<lambda>_. bindio (list_jobs ?st ?repo) (\<lambda>jobs.
        bindio (repository_candidates c clock fuel now parts names) (\<lambda>rest.
        return_io (map (Pair ?repo) (filter (claimable now) jobs) @ rest)))) s = (x, t)" by (simp add: Let_def)
    then show ?case
    proof (cases rule: bindio_cases)
      case (failed e)
      then show ?thesis using reconcile_alone [OF assms(1)] by (simp add: reconcileDependencies_def)
    next
      case (went_on y s1)
      have m1: "moved reconcile_move ?st s s1"
        using went_on(1) unfolding reconcileDependencies_def by (rule reconcile_alone [OF assms(1)])
      from went_on(2) show ?thesis
      proof (cases rule: bindio_cases)
        case (failed e)
        then show ?thesis using m1 moved_quiet [OF quiet_jobs(1)] moved_trans by blast
      next
        case jobs: (went_on jobs s2)
        have m2: "moved reconcile_move ?st s s2" using m1 moved_quiet [OF quiet_jobs(1) jobs(1)] by (rule moved_trans)
        have here: "collected c now [?repo] (map (Pair ?repo) (filter (claimable now) jobs)) s s2"
          unfolding collected_def
        proof (intro conjI impI)
          show "moved reconcile_move ?st s s2" by (rule m2)
          assume "well_stored ?st s"
          then have w: "well_stored ?st s1" by (rule moved_well [OF m1])
          obtain d where d: "job_directory ?st ?repo = Inr d"
            using jobs(1) by (cases "job_directory ?st ?repo") (simp_all add: list_jobs_def)
          note l = list_jobs_Inr [OF jobs(1) d w]
          have v: "job_view ?st s2 = job_view ?st s1"
            by (rule same_files_views [OF same_files_quiet [OF quiet_jobs(1) jobs(1)]])
          show "fst ` set (map (Pair ?repo) (filter (claimable now) jobs)) \<subseteq> set [?repo]" by auto
          show "\<forall>p\<in>set (map (Pair ?repo) (filter (claimable now) jobs)). stored_candidate ?st s2 p \<and> claimable now (snd p)"
            using l(2) d v by (auto simp: stored_candidate_def claimable_def)
          have "distinct (map JobID (filter (claimable now) jobs))" using l(1) by (rule distinct_map_filter)
          then show "distinct (map (place ?st) (map (Pair ?repo) (filter (claimable now) jobs)))"
            by (auto simp: distinct_map inj_on_def place_def)
        qed
        from jobs(2) show ?thesis
        proof (cases rule: bindio_cases)
          case (failed e)
          then show ?thesis using m2 Cons.IH moved_trans by blast
        next
          case (went_on rest s3)
          then have x: "x = Inr (map (Pair ?repo) (filter (claimable now) jobs) @ rest)" and t: "t = s3" by simp_all
          have "collected c now (map (\<lambda>name. \<lparr>Groups = parts, Name = name\<rparr>) names) rest s2 t"
            using Cons.IH [of s2 "Inr rest"] went_on(1) t by simp
          from collected_append [OF here this] show ?thesis using x by (auto simp: collected_def)
        qed
      qed
    qed
  qed
  then show "moved reconcile_move (job_state c) s t"
    "x = Inr found \<Longrightarrow> collected c now (map (\<lambda>name. \<lparr>Groups = parts, Name = name\<rparr>) names) found s t" by simp_all
qed

lemma group_candidates_collected:
  assumes "runs_alone c" "group_candidates c clock fuel now groups s = (x, t)"
  shows "moved reconcile_move (job_state c) s t \<and> (\<forall>found. x = Inr found \<longrightarrow> collected c now (listed groups) found s t)"
  using assms(2)
proof (induction groups arbitrary: s x)
  case Nil
  then show ?case by (auto simp: collected_def listed_def)
next
  case (Cons g groups)
  obtain path names where g: "g = (path, names)" by fastforce
  show ?case
  proof (cases "ParseGroup path")
    case (Inl e)
    then show ?thesis using Cons.prems g by auto
  next
    case (Inr parts)
    let ?repos = "map (\<lambda>name. \<lparr>Groups = parts, Name = name\<rparr>) names"
    have l: "listed (g # groups) = ?repos @ listed groups" using g Inr by (simp add: listed_def)
    from Cons.prems have "bindio (repository_candidates c clock fuel now parts names) (\<lambda>found.
        bindio (group_candidates c clock fuel now groups) (\<lambda>rest. return_io (found @ rest))) s = (x, t)"
      using g Inr by simp
    then show ?thesis
    proof (cases rule: bindio_cases)
      case (failed e)
      then show ?thesis using repository_candidates_collected(1) [OF assms(1)] by blast
    next
      case (went_on found s1)
      have here: "collected c now ?repos found s s1"
        by (rule repository_candidates_collected(2) [OF assms(1) went_on(1) refl])
      then have m1: "moved reconcile_move (job_state c) s s1" by (simp add: collected_def)
      from went_on(2) show ?thesis
      proof (cases rule: bindio_cases)
        case (failed e)
        then show ?thesis using m1 Cons.IH moved_trans by blast
      next
        case (went_on rest s2)
        then have x: "x = Inr (found @ rest)" and t: "t = s2" by simp_all
        have "collected c now (listed groups) rest s1 t" using Cons.IH [of s1 "Inr rest"] went_on(1) t by simp
        from collected_append [OF here this] show ?thesis using x l by (simp add: collected_def)
      qed
    qed
  qed
qed

lemma candidates_collected:
  assumes "runs_alone c" "candidates c clock fuel listing now s = (x, t)"
  shows "moved reconcile_move (job_state c) s t"
    "x = Inr found \<Longrightarrow> listing = Inr groups \<Longrightarrow> collected c now (listed groups) found s t"
proof -
  have "moved reconcile_move (job_state c) s t \<and>
    (\<forall>groups found. x = Inr found \<longrightarrow> listing = Inr groups \<longrightarrow> collected c now (listed groups) found s t)"
  proof (cases listing)
    case (Inl e)
    then show ?thesis using assms(2) by (simp add: candidates_def)
  next
    case (Inr groups)
    then have "bindio (group_candidates c clock fuel now groups) (\<lambda>found. return_io (sort_key candidate_order found)) s = (x, t)"
      using assms(2) by (simp add: candidates_def)
    then show ?thesis
    proof (cases rule: bindio_cases)
      case (failed e)
      then show ?thesis using group_candidates_collected [OF assms(1)] by blast
    next
      case (went_on raw s1)
      have r: "collected c now (listed groups) raw s s1" using group_candidates_collected [OF assms(1) went_on(1)] by simp
      have "distinct (map (place (job_state c)) (sort_key candidate_order raw)) = distinct (map (place (job_state c)) raw)"
        by (metis distinct_map distinct_sort set_sort)
      then have "collected c now (listed groups) (sort_key candidate_order raw) s s1"
        using r unfolding collected_def by simp
      moreover have "moved reconcile_move (job_state c) s s1" using r by (simp add: collected_def)
      moreover have "x = Inr (sort_key candidate_order raw)" "t = s1" using went_on(2) by simp_all
      ultimately show ?thesis using Inr by simp
    qed
  qed
  then show "moved reconcile_move (job_state c) s t"
    "x = Inr found \<Longrightarrow> listing = Inr groups \<Longrightarrow> collected c now (listed groups) found s t" by simp_all
qed

text \<open>Trying the candidates in order. \<open>leased\<close>: the lease is on one of the candidates, and it is stored.\<close>

definition leased :: "coordinator \<Rightarrow> string \<Rightarrow> (nat \<Rightarrow> gotime) \<Rightarrow> (repository \<times> job) list \<Rightarrow> file_system \<Rightarrow> lease \<Rightarrow> bool" where
  "leased c runner reading found t l \<longleftrightarrow> (\<exists>repo j d n. (repo, j) \<in> set found \<and> job_directory (job_state c) repo = Inr d \<and>
     job_view (job_state c) t d (JobID j) = Some (LeasedJob l) \<and> LeasedJob l = claimed c runner (UTC (reading n)) repo j \<and>
     jobConfig c repo j = Inr (LeaseConfig l))"

lemma leased_Cons: "leased c runner reading found t l \<Longrightarrow> leased c runner reading (p # found) t l"
  by (auto simp: leased_def)

lemma claim_first_effect:
  assumes "runs_alone c" "claim_first c runner reading clock fuel found s = (x, t)" "well_stored (job_state c) s"
    "\<forall>p\<in>set found. stored_candidate (job_state c) s p" "distinct (map (place (job_state c)) found)"
  shows "moved build_move (job_state c) s t \<and>
    (\<forall>l. x = Inr (Some l) \<longrightarrow> leased c runner reading found t l)"
  using assms(2-)
proof (induction found arbitrary: s)
  case (Cons p found)
  let ?st = "job_state c"
  have json: "json_ok ?st" using assms(1) by (simp add: runs_alone_def)
  obtain repo j d where p: "p = (repo, j)" "Status j \<in> {StatusQueued, StatusRunning}" "job_directory ?st repo = Inr d"
    "job_view ?st s d (JobID j) = Some j"
    using Cons.prems(3) by (auto simp: stored_candidate_def)
  define now where "now = UTC (reading (length found))"
  show ?case
  proof (cases "jobConfig c repo j")
    case (Inl configErr)
    define k where "k = j\<lparr>Status := StatusFailed, FinishedAt := Some now,
      JobError := ''prepare remote build: '' @ error_text configErr, LeaseExpiresAt := None\<rparr>"
    have k: "JobID k = JobID j" "build_move (Some j) (Some k)" unfolding k_def by (simp, rule unprepared [OF p(2)])
    obtain y s1 where y: "save_job ?st repo k s = (y, s1)" by fastforce
    note m1 = save_found [OF json p(3,4) y k]
    have run: "(case y of Inl e \<Rightarrow> lift_io (Inl (JoinErr configErr e)) | Inr _ \<Rightarrow>
        bindio (reconcileDependencies c clock fuel repo) (\<lambda>_. claim_first c runner reading clock fuel found)) s1 = (x, t)"
      using Cons.prems(1) p(1) Inl y by (simp add: Let_def bindio_attempt now_def k_def)
    show ?thesis
    proof (cases y)
      case (Inl e)
      then show ?thesis using run m1 by auto
    next
      case (Inr u)
      have w1: "well_stored ?st s1" using m1 Cons.prems(2) by (rule moved_well)
      have kept1: "\<forall>q\<in>set found. stored_candidate ?st s1 q"
      proof
        fix q assume q: "q \<in> set found"
        then obtain r i e where r: "q = (r, i)" "Status i \<in> {StatusQueued, StatusRunning}" "job_directory ?st r = Inr e"
          "job_view ?st s e (JobID i) = Some i" using Cons.prems(3) by (auto simp: stored_candidate_def)
        have "place ?st q \<in> place ?st ` set found" using q by simp
        then have "place ?st q \<noteq> place ?st p" using Cons.prems(4) by auto
        then have "(e, JobID i) \<noteq> (d, JobID j)" using p(1,3) r(1,3) by (auto simp: place_def)
        moreover have "job_view ?st s1 d = (job_view ?st s d)(JobID k \<mapsto> k)" "\<forall>b. b \<noteq> d \<longrightarrow> job_view ?st s1 b = job_view ?st s b"
          using y Inr p(3) json by (auto elim!: save_job_cases simp: saved_job_def json_ok_def)
        ultimately have "job_view ?st s1 e (JobID i) = Some i" using r(4) k(1) by (cases "e = d") auto
        then show "stored_candidate ?st s1 q" using r by (auto simp: stored_candidate_def)
      qed
      have "bindio (reconcileDependencies c clock fuel repo) (\<lambda>_. claim_first c runner reading clock fuel found) s1 = (x, t)"
        using run Inr by simp
      then show ?thesis
      proof (cases rule: bindio_cases)
        case (failed e)
        then have "moved reconcile_move ?st s1 t" using reconcile_alone [OF assms(1)] by (simp add: reconcileDependencies_def)
        then have "moved build_move ?st s1 t" by (rule moved_mono) (rule by_reconciliation)
        then show ?thesis using m1 failed(2) moved_trans by auto
      next
        case (went_on z s2)
        have r2: "moved reconcile_move ?st s1 s2"
          using went_on(1) unfolding reconcileDependencies_def by (rule reconcile_alone [OF assms(1)])
        then have m2: "moved build_move ?st s1 s2" by (rule moved_mono) (rule by_reconciliation)
        have w2: "well_stored ?st s2" using m2 w1 by (rule moved_well)
        have kept2: "\<forall>q\<in>set found. stored_candidate ?st s2 q" using kept1 stored_candidate_kept [OF r2 w1] by blast
        have "distinct (map (place ?st) found)" using Cons.prems(4) by simp
        from Cons.IH [OF went_on(2) w2 kept2 this] have ih: "moved build_move ?st s2 t"
          "\<forall>l. x = Inr (Some l) \<longrightarrow> leased c runner reading found t l" by blast+
        have "moved build_move ?st s t" using moved_trans [OF moved_trans [OF m1 m2] ih(1)] .
        then show ?thesis using ih(2) leased_Cons by blast
      qed
    qed
  next
    case (Inr cfg)
    define k where "k = claimed c runner now repo j"
    have k: "JobID k = JobID j" by (simp add: k_def claimed_def)
    have "build_move (Some j) (Some k)"
    proof (cases "StartedAt j")
      case None
      then have "k = j\<lparr>JobRepository := Full repo, Status := StatusRunning, StartedAt := Some now, RunnerID := runner,
          Attempt := Attempt j + 1, LeaseExpiresAt := Some (Add now (leaseDuration c))\<rparr>" by (simp add: k_def claimed_def)
      then show ?thesis using taken [OF p(2)] by simp
    next
      case (Some started)
      then have "k = j\<lparr>JobRepository := Full repo, Status := StatusRunning, StartedAt := Some started, RunnerID := runner,
          Attempt := Attempt j + 1, LeaseExpiresAt := Some (Add now (leaseDuration c))\<rparr>" by (simp add: k_def claimed_def)
      then show ?thesis using taken [OF p(2)] by simp
    qed
    note save = save_found [OF json p(3,4) _ k this]
    have "bindio (save_job ?st repo k) (\<lambda>_. bindio (logSize ?st repo (JobID k)) (\<lambda>offset.
        return_io (Some \<lparr>LeasedJob = k, LeaseConfig = cfg, LogOffset = offset, LeaseSeconds = leaseDuration c div second\<rparr>))) s = (x, t)"
      using Cons.prems(1) p(1) Inr by (simp add: Let_def now_def k_def)
    then show ?thesis
    proof (cases rule: bindio_cases)
      case (failed e)
      then show ?thesis using save by auto
    next
      case (went_on y s1)
      have v1: "job_view ?st s1 d (JobID j) = Some k"
        using went_on(1) p(3) json k by (auto elim!: save_job_cases simp: saved_job_def json_ok_def)
      obtain z s2 where z: "logSize ?st repo (JobID k) s1 = (z, s2)" by fastforce
      have q: "same_files s1 s2" by (rule same_files_quiet [OF quiet_jobs(4) z])
      have t: "t = s2" "x = Inr (Some l) \<Longrightarrow> LeasedJob l = k \<and> LeaseConfig l = cfg" for l
        using went_on(2) z by (auto simp: bindio_def split: sum.splits)
      have "job_view ?st t d (JobID j) = Some k" using v1 q t(1) by (simp add: same_files_views)
      moreover have "moved build_move ?st s t"
        unfolding t(1) using save [OF went_on(1)] moved_same_files [OF q] by (rule moved_trans)
      ultimately show ?thesis using t(2) Inr p(1,3) unfolding k_def now_def leased_def by auto
    qed
  qed
qed auto

lemma Claim_effect:
  assumes "runs_alone c" "Claim c (Inr groups) now reading clock fuel runner s = (x, t)" "well_stored (job_state c) s"
    "distinct (map (job_directory (job_state c)) (listed groups))"
  shows "moved build_move (job_state c) s t"
    "x = Inr (Some l) \<Longrightarrow> \<exists>found u. collected c (UTC now) (listed groups) found s u \<and> leased c runner reading found t l"
proof -
  let ?st = "job_state c"
  have "moved build_move ?st s t \<and> (\<forall>l. x = Inr (Some l) \<longrightarrow>
      (\<exists>found u. collected c (UTC now) (listed groups) found s u \<and> leased c runner reading found t l))"
  proof (cases "t = s \<and> (\<exists>e. x = Inl e)")
    case True
    then show ?thesis by auto
  next
    case False
    then have "bindio (candidates c clock fuel (Inr groups) (UTC now)) (\<lambda>found.
        claim_first c runner reading clock fuel found) s = (x, t)"
      using assms(2) by (auto simp: Claim_def with_locks_def split: if_splits sum.splits)
    then show ?thesis
    proof (cases rule: bindio_cases)
      case (failed e)
      have "moved reconcile_move ?st s t" by (rule candidates_collected(1) [OF assms(1) failed(1)])
      then have "moved build_move ?st s t" by (rule moved_mono) (rule by_reconciliation)
      then show ?thesis using failed(2) by auto
    next
      case (went_on found u)
      have c: "collected c (UTC now) (listed groups) found s u"
        by (rule candidates_collected(2) [OF assms(1) went_on(1) refl refl])
      then have r: "moved reconcile_move ?st s u" by (simp add: collected_def)
      then have m: "moved build_move ?st s u" by (rule moved_mono) (rule by_reconciliation)
      have w: "well_stored ?st u" using m assms(3) by (rule moved_well)
      have "\<forall>p\<in>set found. stored_candidate ?st u p" "distinct (map (place ?st) found)"
        using c assms(3,4) by (simp_all add: collected_def)
      from claim_first_effect [OF assms(1) went_on(2) w this] show ?thesis using c m moved_trans by blast
    qed
  qed
  then show "moved build_move ?st s t"
    "x = Inr (Some l) \<Longrightarrow> \<exists>found u. collected c (UTC now) (listed groups) found s u \<and> leased c runner reading found t l"
    by simp_all
qed

section \<open>Sequences of operations\<close>

text \<open>
  One operation of the coordinator, whatever its result. New identifiers are not in use, and the
  repositories of a listing have different directories.
\<close>

inductive coordinator_step :: "coordinator \<Rightarrow> file_system \<Rightarrow> file_system \<Rightarrow> bool" for c where
  schedule: "Schedule c random now clock fuel repo branch commit s = (x, t) \<Longrightarrow> fresh_ids c repo s random \<Longrightarrow>
    coordinator_step c s t"
| start: "Start c clock fuel repo jid s = (x, t) \<Longrightarrow> coordinator_step c s t"
| rerun: "Rerun c random now repo jid s = (x, t) \<Longrightarrow> fresh_ids c repo s [random] \<Longrightarrow> coordinator_step c s t"
| cancel: "Cancel c now clock fuel repo jid s = (x, t) \<Longrightarrow> coordinator_step c s t"
| claim: "Claim (c\<lparr>others := (\<lambda>_ s. s)\<rparr>) (Inr groups) now reading clock fuel runner s = (x, t) \<Longrightarrow>
    distinct (map (job_directory (job_state c)) (listed groups)) \<Longrightarrow> coordinator_step c s t"
| heartbeat: "Heartbeat c now repo jid runner s = (x, t) \<Longrightarrow> coordinator_step c s t"
| append_log: "AppendLog c now repo jid runner offset contents s = (x, t) \<Longrightarrow> coordinator_step c s t"
| complete: "Complete c now clock fuel repo jid runner buildError s = (x, t) \<Longrightarrow> coordinator_step c s t"
| source_job: "SourceJob c repo jid runner s = (x, t) \<Longrightarrow> coordinator_step c s t"

lemma coordinator_step_moves:
  assumes "coordinator_step c s t" "coordinator_ok c"
  shows "moved build_move (job_state c) s t"
  using assms(1)
proof cases
  case (schedule random now clock fuel repo branch commit x)
  then show ?thesis by (intro Schedule_moves [OF assms(2)])
next
  case (start clock fuel repo jid x)
  then show ?thesis by (intro Start_moves [OF assms(2)])
next
  case (rerun random now repo jid x)
  then show ?thesis by (intro Rerun_moves [OF assms(2)]) (auto simp: fresh_ids_def)
next
  case (cancel now clock fuel repo jid x)
  then show ?thesis by (intro Cancel_moves [OF assms(2)])
next
  case (claim groups now reading clock fuel runner x)
  let ?c = "c\<lparr>others := (\<lambda>_ s. s)\<rparr>"
  have alone: "runs_alone ?c" using assms(2) by (simp add: runs_alone_def coordinator_ok_def)
  have "well_stored (job_state c) s \<Longrightarrow> moved build_move (job_state c) s t"
    using Claim_effect(1) [OF alone claim(1)] claim(2) by simp
  then show ?thesis by (auto simp: moved_def)
next
  case (heartbeat now repo jid runner x)
  then obtain y where "HeartbeatState c now repo jid runner s = (y, t)" by (auto simp: Heartbeat_def elim!: bindio_cases)
  then show ?thesis by (rule HeartbeatState_moves [OF assms(2)])
next
  case (append_log now repo jid runner offset contents x)
  then show ?thesis by (intro AppendLog_moves [OF assms(2)])
next
  case (complete now clock fuel repo jid runner buildError x)
  then show ?thesis by (intro Complete_moves [OF assms(2)])
next
  case (source_job repo jid runner x)
  then show ?thesis unfolding SourceJob_def
    by (auto elim!: locked_cases intro: moved_quiet [OF quiet_owned(2)])
qed

section \<open>Properties\<close>

text \<open>
  Property C2. Along every sequence of operations of the coordinator, whatever calls fail and also
  when operations run while another one waits for a build's lock: every build stays stored under its
  identifier and follows the life cycle (manual or waiting to queued, queued to running, running to
  succeeded or failed, canceled before it is finished), and a build that succeeded, failed or was
  canceled is never changed again.
\<close>

theorem builds_follow_life_cycle:
  assumes "coordinator_ok c" "well_stored (job_state c) s" "(coordinator_step c)\<^sup>*\<^sup>* s t"
  shows "well_stored (job_state c) t \<and>
    (\<forall>d jid. build_move\<^sup>*\<^sup>* (job_view (job_state c) s d jid) (job_view (job_state c) t d jid)) \<and>
    (\<forall>d jid j. job_view (job_state c) s d jid = Some j \<longrightarrow> terminalStatus (Status j) \<longrightarrow>
       job_view (job_state c) t d jid = Some j)"
proof -
  have "moved build_move (job_state c) s t" using assms(3)
  proof (induction rule: rtranclp_induct)
    case (step u v)
    then show ?case using coordinator_step_moves [OF step(2) assms(1)] moved_trans by blast
  qed simp
  then have m: "well_stored (job_state c) t" "build_move\<^sup>*\<^sup>* (job_view (job_state c) s d jid) (job_view (job_state c) t d jid)" for d jid
    using assms(2) by (simp_all add: moved_def)
  moreover have "job_view (job_state c) t d jid = Some j"
    if "job_view (job_state c) s d jid = Some j" "terminalStatus (Status j)" for d jid j
    using moves_finished [of j] m(2) [of d jid] that by simp
  ultimately show ?thesis by blast
qed

text \<open>
  Property C12. A claim, while nothing else runs: the leased build belongs to a listed repository and
  was free before the claim, that is queued, or running with a lease that was over at the time of
  the claim, or waiting with its dependencies done so that the reconciliation queued it; its
  configuration could be read; and it is stored as running for this runner, with one more attempt
  and a lease of the coordinator's duration. The other builds follow the life cycle.
\<close>

theorem Claim_takes_free_build:
  assumes "runs_alone c" "well_stored (job_state c) s" "distinct (map (job_directory (job_state c)) (listed groups))"
    "Claim c (Inr groups) now reading clock fuel runner s = (x, t)"
  shows "moved build_move (job_state c) s t \<and>
    (\<forall>l. x = Inr (Some l) \<longrightarrow> (\<exists>repo d j n. repo \<in> set (listed groups) \<and> job_directory (job_state c) repo = Inr d \<and>
       (Status j = StatusQueued \<or> (Status j = StatusRunning \<and>
          (\<forall>expires. LeaseExpiresAt j = Some expires \<longrightarrow> instant expires \<le> instant now))) \<and>
       reconcile_move\<^sup>*\<^sup>* (job_view (job_state c) s d (JobID j)) (Some j) \<and>
       jobConfig c repo j = Inr (LeaseConfig l) \<and>
       LeasedJob l = j\<lparr>JobRepository := Full repo, Status := StatusRunning,
         StartedAt := (if StartedAt j = None then Some (UTC (reading n)) else StartedAt j), RunnerID := runner,
         Attempt := Attempt j + 1, LeaseExpiresAt := Some (Add (UTC (reading n)) (leaseDuration c))\<rparr> \<and>
       job_view (job_state c) t d (JobID j) = Some (LeasedJob l)))"
proof (intro conjI allI impI)
  show "moved build_move (job_state c) s t" by (rule Claim_effect(1) [OF assms(1,4,2,3)])
  fix l assume "x = Inr (Some l)"
  then obtain found u where f: "collected c (UTC now) (listed groups) found s u" "leased c runner reading found t l"
    using Claim_effect(2) [OF assms(1,4,2,3)] by blast
  then obtain repo j d n where l: "(repo, j) \<in> set found" "job_directory (job_state c) repo = Inr d"
    "job_view (job_state c) t d (JobID j) = Some (LeasedJob l)" "LeasedJob l = claimed c runner (UTC (reading n)) repo j"
    "jobConfig c repo j = Inr (LeaseConfig l)" by (auto simp: leased_def)
  have "stored_candidate (job_state c) u (repo, j)" "claimable (UTC now) j" "repo \<in> set (listed groups)"
    using f(1) l(1) assms(2) by (force simp: collected_def)+
  moreover from this l(2) have "job_view (job_state c) u d (JobID j) = Some j" by (simp add: stored_candidate_def)
  moreover have "reconcile_move\<^sup>*\<^sup>* (job_view (job_state c) s d (JobID j)) (job_view (job_state c) u d (JobID j))"
    using f(1) assms(2) by (simp add: collected_def moved_def)
  moreover have "claimed c runner (UTC (reading n)) repo j = j\<lparr>JobRepository := Full repo, Status := StatusRunning,
         StartedAt := (if StartedAt j = None then Some (UTC (reading n)) else StartedAt j), RunnerID := runner,
         Attempt := Attempt j + 1, LeaseExpiresAt := Some (Add (UTC (reading n)) (leaseDuration c))\<rparr>"
    by (cases "StartedAt j") (simp_all add: claimed_def)
  moreover have "Status j = StatusQueued \<or> (Status j = StatusRunning \<and>
      (\<forall>expires. LeaseExpiresAt j = Some expires \<longrightarrow> instant expires \<le> instant now))"
    using \<open>claimable (UTC now) j\<close> by (auto simp: claimable_def Before_def)
  ultimately show "\<exists>repo d j n. repo \<in> set (listed groups) \<and> job_directory (job_state c) repo = Inr d \<and>
       (Status j = StatusQueued \<or> (Status j = StatusRunning \<and>
          (\<forall>expires. LeaseExpiresAt j = Some expires \<longrightarrow> instant expires \<le> instant now))) \<and>
       reconcile_move\<^sup>*\<^sup>* (job_view (job_state c) s d (JobID j)) (Some j) \<and>
       jobConfig c repo j = Inr (LeaseConfig l) \<and>
       LeasedJob l = j\<lparr>JobRepository := Full repo, Status := StatusRunning,
         StartedAt := (if StartedAt j = None then Some (UTC (reading n)) else StartedAt j), RunnerID := runner,
         Attempt := Attempt j + 1, LeaseExpiresAt := Some (Add (UTC (reading n)) (leaseDuration c))\<rparr> \<and>
       job_view (job_state c) t d (JobID j) = Some (LeasedJob l)"
    using l by (intro exI [of _ repo] exI [of _ d] exI [of _ j] exI [of _ n]) simp
qed

section \<open>Instances\<close>

text \<open>A store with a finite table for a codec, and a repository whose configuration has one job.\<close>

definition table_store :: "(job \<times> string) list \<Rightarrow> job_store" where
  "table_store table = \<lparr>state_root = ''/'', state_getwd = Inr ''/'',
     job_marshal = (\<lambda>j. case map_of table j of None \<Rightarrow> Inl ErrIO | Some text \<Rightarrow> Inr text),
     job_decode = (\<lambda>text. case find (\<lambda>(_, known). known @ [CHR 0x0A] = text) table of None \<Rightarrow> Inl ErrIO | Some (j, _) \<Rightarrow> Inr j),
     short_write = (\<lambda>_. 0)\<rparr>"

definition sample_config :: config where
  "sample_config = \<lparr>ConfigDescription = [], Jobs = [(''a'', \<lparr>Image = ''i'', Script = [''x''], Needs = [], Manual = False,
     Branches = [], Environment = [], TimeoutSeconds = 0\<rparr>)]\<rparr>"

definition table_coordinator :: "(job \<times> string) list \<Rightarrow> coordinator" where
  "table_coordinator table = \<lparr>storage_root = ''/'', job_state = table_store table, leaseDuration = 30 * second,
     lock_environment = \<lparr>getwd = Inr ''/'', eval_symlinks = Inr, sha256_hex = (\<lambda>_. ''h'')\<rparr>,
     plain_open = (\<lambda>_. Inr \<lparr>commit_object = (\<lambda>_. Inr ()), config_file = (\<lambda>_. Inr (1, Inr ''c'')), decode_yaml = (\<lambda>_. Inr sample_config)\<rparr>),
     new_hash = (\<lambda>h. h), branch_glob = (\<lambda>_ _. Inr True), others = (\<lambda>_ s. s)\<rparr>"

definition sample_queued :: job where "sample_queued = sample_job ''a'' [] StatusQueued"

definition sample_leased :: job where
  "sample_leased = sample_queued\<lparr>Status := StatusRunning, StartedAt := Some sample_time, RunnerID := ''r'', Attempt := 1,
     LeaseExpiresAt := Some (Add sample_time (30 * second))\<rparr>"

definition sample_finished :: job where "sample_finished = sample_job ''b'' [] StatusSucceeded"

definition sample_table :: "(job \<times> string) list" where
  "sample_table = [(sample_queued, ''1''), (sample_leased, ''2''), (sample_finished, ''3'')]"

definition sample_build_fs :: file_system where
  "sample_build_fs = \<lparr>dirs = [(''/g/r.build'', [(''a.json'', Regular [CHR ''1'', CHR 0x0A]), (''b.json'', Regular [CHR ''3'', CHR 0x0A])])],
     plain_files = [], faults = []\<rparr>"

abbreviation sample_coordinator :: coordinator where "sample_coordinator \<equiv> table_coordinator sample_table"
abbreviation sample_build_repo :: repository where "sample_build_repo \<equiv> \<lparr>Groups = [''g''], Name = ''r''\<rparr>"
abbreviation sample_clock :: "nat \<Rightarrow> gotime" where "sample_clock \<equiv> (\<lambda>_. sample_time)"

lemma sample_config_valid: "Config_Validate (\<lambda>_ _. Inr True) sample_config = Inr ()"
proof -
  let ?job = "\<lparr>Image = ''i'', Script = [''x''], Needs = [], Manual = False, Branches = [], Environment = [], TimeoutSeconds = 0\<rparr>"
  have trim: "TrimSpace ''i'' = ''i''" "TrimSpace ''x'' = ''x''" by (auto intro!: TrimSpace_plain simp: plain_char_def)
  have v: "JobConfig_Validate (\<lambda>_ _. Inr True) ?job = Inr ()"
    unfolding JobConfig_Validate_Inr by (simp add: wf_job_def trim)
  have "jobName ''a''" by (simp add: jobName_def is_letter_def less_eq_char_def)
  then show ?thesis using v by (simp add: Config_Validate_def Config_Validate_within_def sample_config_def job_of_def Let_def)
qed

lemma sample_jobConfig: "jobConfig sample_coordinator sample_build_repo sample_queued = Inr (snd (hd (Jobs sample_config)))"
proof -
  have "GitPath sample_coordinator sample_build_repo = Inr ''/g/r.git''" by code_simp
  moreover have "Jobs sample_config = [(''a'', snd (hd (Jobs sample_config)))]" by (simp add: sample_config_def)
  moreover have "JobName sample_queued = ''a''" by (simp add: sample_queued_def sample_job_def)
  moreover have "map_of (Jobs sample_config) ''a'' = Some (snd (hd (Jobs sample_config)))" by (simp add: sample_config_def)
  ultimately show ?thesis
    using sample_config_valid by (simp add: jobConfig_def table_coordinator_def Read_def)
qed

lemma sample_candidates:
  "candidates sample_coordinator sample_clock 1 (Inr [(''g'', [''r''])]) (UTC sample_time) sample_build_fs =
     (Inr [(sample_build_repo, sample_queued)], sample_build_fs)"
  by code_simp

lemma sample_saved:
  "fst (bindio (save_job (job_state sample_coordinator) sample_build_repo sample_leased)
     (\<lambda>_. logSize (job_state sample_coordinator) sample_build_repo ''a'') sample_build_fs) = Inr 0"
  by code_simp

lemma sample_claimed: "claimed sample_coordinator ''r'' (UTC sample_time) sample_build_repo sample_queued = sample_leased"
  by code_simp

lemma table_store_json: "distinct (map snd table) \<Longrightarrow> json_ok (table_store table)"
  unfolding json_ok_def
proof (intro allI impI)
  fix j json assume d: "distinct (map snd table)" and m: "job_marshal (table_store table) j = Inr json"
  then have j: "(j, json) \<in> set table" by (auto simp: table_store_def split: option.splits dest: map_of_SomeD)
  then obtain k x where f: "find (\<lambda>(_, known). known @ [CHR 0x0A] = json @ [CHR 0x0A]) table = Some (k, x)"
    by (cases "find (\<lambda>(_, known). known @ [CHR 0x0A] = json @ [CHR 0x0A]) table") (auto simp: find_None_iff)
  then have "(k, x) \<in> set table" "x = json" unfolding find_Some_iff by (auto, metis nth_mem)
  then have "k = j" using d j by (metis eq_key_imp_eq_value map_of_SomeD distinct_map inj_on_def prod.inject snd_conv)
  then show "job_decode (table_store table) (json @ [CHR 0x0A]) = Inr j" using f by (simp add: table_store_def)
qed

lemma sample_coordinator_ok: "coordinator_ok sample_coordinator" "runs_alone sample_coordinator"
proof -
  have "json_ok (table_store sample_table)" by (rule table_store_json) (simp add: sample_table_def)
  then show "coordinator_ok sample_coordinator" "runs_alone sample_coordinator"
    by (simp_all add: coordinator_ok_def runs_alone_def maps_ok_def table_coordinator_def sample_config_def)
qed

lemma sample_views:
  "job_view (table_store sample_table) sample_build_fs d jid =
     (if d = ''/g/r.build'' \<and> jid = ''a'' then Some sample_queued
      else if d = ''/g/r.build'' \<and> jid = ''b'' then Some sample_finished else None)"
proof -
  have e: "jid @ ''.json'' = ''a.json'' \<longleftrightarrow> jid = ''a''" "jid @ ''.json'' = ''b.json'' \<longleftrightarrow> jid = ''b''"
    using append_same_eq [of jid "''.json''" "''a''"] append_same_eq [of jid "''.json''" "''b''"] by simp_all
  have v: "validJobID ''a''" "validJobID ''b''" by code_simp+
  have n: "dir_entry sample_build_fs d (jid @ ''.json'') = (if d \<noteq> ''/g/r.build'' then None
      else if jid = ''a'' then Some (Regular [CHR ''1'', CHR 0x0A]) else if jid = ''b'' then Some (Regular [CHR ''3'', CHR 0x0A]) else None)"
    by (simp add: dir_entry_def dir_at_def sample_build_fs_def e del: append_Cons)
  have c: "job_decode (table_store sample_table) [CHR ''1'', CHR 0x0A] = Inr sample_queued"
    "job_decode (table_store sample_table) [CHR ''3'', CHR 0x0A] = Inr sample_finished" by code_simp+
  show ?thesis unfolding job_view_def n by (simp add: open_node_def c v)
qed

lemma sample_well_stored: "well_stored (table_store sample_table) sample_build_fs"
proof -
  have "tables_ok sample_build_fs" by (simp add: tables_ok_def dir_at_def sample_build_fs_def)
  then show ?thesis
    by (auto simp: well_stored_def sample_views sample_queued_def sample_finished_def sample_job_def split: if_splits)
qed

lemma sample_listed: "distinct (map (job_directory (job_state sample_coordinator)) (listed [(''g'', [''r''])]))"
proof -
  have "ParseGroup ''g'' = Inr [''g'']" by code_simp
  then show ?thesis by (simp add: listed_def)
qed

lemma sample_claim:
  "\<exists>l t. Claim sample_coordinator (Inr [(''g'', [''r''])]) sample_time sample_clock sample_clock 1 ''r'' sample_build_fs = (Inr (Some l), t) \<and>
     LeasedJob l = sample_leased"
proof -
  have v: "validRunnerID ''r''" by code_simp
  have n: "case normalizeRequests [CatalogRequest (lock_environment sample_coordinator) (storage_root sample_coordinator) Exclusive,
      QueueRequest (lock_environment sample_coordinator) (storage_root sample_coordinator)] of Inl _ \<Rightarrow> False | Inr _ \<Rightarrow> True"
    by code_simp
  define rest where "rest = claim_first sample_coordinator ''r'' sample_clock sample_clock 1 [(sample_build_repo, sample_queued)] sample_build_fs"
  obtain ws where ws: "normalizeRequests [CatalogRequest (lock_environment sample_coordinator) (storage_root sample_coordinator) Exclusive,
      QueueRequest (lock_environment sample_coordinator) (storage_root sample_coordinator)] = Inr ws"
    using n by (auto split: sum.splits)
  have b: "bindio (candidates sample_coordinator sample_clock 1 (Inr [(''g'', [''r''])]) (UTC sample_time))
      (claim_first sample_coordinator ''r'' sample_clock sample_clock 1) sample_build_fs = rest"
    unfolding rest_def by (rule bindio_Inr, rule sample_candidates)
  have run: "Claim sample_coordinator (Inr [(''g'', [''r''])]) sample_time sample_clock sample_clock 1 ''r'' sample_build_fs = rest"
    by (simp only: Claim_def with_locks_def bindio_lift ws v b not_True_eq_False if_False sum.case)
  have i: "JobID sample_leased = ''a''" by (simp add: sample_leased_def sample_queued_def sample_job_def)
  obtain t u where t: "save_job (job_state sample_coordinator) sample_build_repo sample_leased sample_build_fs = (Inr (), t)"
    "logSize (job_state sample_coordinator) sample_build_repo ''a'' t = (Inr 0, u)"
    using sample_saved by (auto simp: bindio_def split: prod.splits sum.splits) (metis prod.collapse)
  have "rest = (Inr (Some \<lparr>LeasedJob = sample_leased, LeaseConfig = snd (hd (Jobs sample_config)), LogOffset = 0,
      LeaseSeconds = leaseDuration sample_coordinator div second\<rparr>), u)"
    unfolding rest_def by (simp add: Let_def sample_jobConfig sample_claimed i bindio_def t)
  then show ?thesis using run by auto
qed

theorem builds_follow_life_cycle_witness:
  "\<exists>t. coordinator_step sample_coordinator sample_build_fs t \<and> well_stored (job_state sample_coordinator) t \<and>
     job_view (job_state sample_coordinator) t ''/g/r.build'' ''b'' = Some sample_finished"
proof -
  obtain x t where run: "Claim sample_coordinator (Inr [(''g'', [''r''])]) sample_time sample_clock sample_clock 1 ''r'' sample_build_fs = (x, t)"
    by fastforce
  have same: "sample_coordinator\<lparr>others := (\<lambda>_ s. s)\<rparr> = sample_coordinator" by (simp add: table_coordinator_def)
  have step: "coordinator_step sample_coordinator sample_build_fs t"
    by (rule claim [OF _ sample_listed, of sample_time sample_clock sample_clock 1 "''r''"]) (simp only: same run)
  have st: "job_state sample_coordinator = table_store sample_table" by (simp add: table_coordinator_def)
  have "job_view (job_state sample_coordinator) sample_build_fs ''/g/r.build'' ''b'' = Some sample_finished"
    by (simp add: st sample_views)
  moreover have "terminalStatus (Status sample_finished)" by (simp add: sample_finished_def sample_job_def terminalStatus_def)
  ultimately show ?thesis
    using builds_follow_life_cycle [OF sample_coordinator_ok(1) sample_well_stored [folded st] r_into_rtranclp, OF step] step by blast
qed

theorem Claim_takes_free_build_witness:
  "\<exists>l t. Claim sample_coordinator (Inr [(''g'', [''r''])]) sample_time sample_clock sample_clock 1 ''r'' sample_build_fs = (Inr (Some l), t) \<and>
     LeasedJob l = sample_leased \<and>
     (\<exists>repo d. \<exists>j :: job. repo \<in> set (listed [(''g'', [''r''])]) \<and> job_directory (job_state sample_coordinator) repo = Inr d \<and>
       job_view (job_state sample_coordinator) t d (JobID j) = Some (LeasedJob l))"
proof -
  obtain l t where l: "Claim sample_coordinator (Inr [(''g'', [''r''])]) sample_time sample_clock sample_clock 1 ''r'' sample_build_fs = (Inr (Some l), t)"
    "LeasedJob l = sample_leased"
    using sample_claim by blast
  have st: "job_state sample_coordinator = table_store sample_table" by (simp add: table_coordinator_def)
  note c = Claim_takes_free_build [OF sample_coordinator_ok(2) sample_well_stored [folded st] sample_listed l(1)]
  obtain repo d and j :: job where "repo \<in> set (listed [(''g'', [''r''])])" "job_directory (job_state sample_coordinator) repo = Inr d"
    "job_view (job_state sample_coordinator) t d (JobID j) = Some (LeasedJob l)"
    using conjunct2 [OF c, THEN spec, THEN mp, OF refl] by (elim exE conjE) (rule that)
  then show ?thesis using l by (intro exI [of _ l] exI [of _ t] conjI exI [of _ repo] exI [of _ d] exI [of _ j])
qed

end
