(* ===== verification/BuildRest.thy ===== *)
theory BuildRest
  imports BuildClaim "HOL-Library.Countable"
begin

text \<open>
  The reconciliation of stored builds ends: without faults and without other operations, a round
  more than there are unsettled builds is enough fuel, and afterwards no stored build is left for a
  reconciliation to change.
\<close>

section \<open>The time of a reconciliation does not matter\<close>

text \<open>Two scans of the same builds at different times select the same builds.\<close>

definition timeless :: "job \<Rightarrow> job" where
  "timeless j = j\<lparr>FinishedAt := None\<rparr>"

definition same_but_time :: "reconciliation \<Rightarrow> reconciliation \<Rightarrow> bool" where
  "same_but_time r q \<longleftrightarrow> map timeless (all_jobs r) = map timeless (all_jobs q) \<and> changed_ids r = changed_ids q \<and>
     made_progress r = made_progress q"

lemma timeless_fields:
  assumes "timeless j = timeless k"
  shows "JobID j = JobID k" "Status j = Status k" "JobNeeds j = JobNeeds k"
proof -
  have "JobID (timeless j) = JobID (timeless k)" "Status (timeless j) = Status (timeless k)"
    "JobNeeds (timeless j) = JobNeeds (timeless k)" using assms by simp_all
  then show "JobID j = JobID k" "Status j = Status k" "JobNeeds j = JobNeeds k" by (simp_all add: timeless_def)
qed

lemma timeless_updates:
  assumes "timeless j = timeless k"
  shows "timeless (j\<lparr>Status := a\<rparr>) = timeless (k\<lparr>Status := a\<rparr>)"
    "timeless (j\<lparr>Status := a, FinishedAt := b, JobError := e\<rparr>) = timeless (k\<lparr>Status := a, FinishedAt := b', JobError := e\<rparr>)"
proof -
  have "timeless (j\<lparr>Status := a\<rparr>) = (timeless j)\<lparr>Status := a\<rparr>" "timeless (k\<lparr>Status := a\<rparr>) = (timeless k)\<lparr>Status := a\<rparr>"
    "timeless (j\<lparr>Status := a, FinishedAt := b, JobError := e\<rparr>) = (timeless j)\<lparr>Status := a, JobError := e\<rparr>"
    "timeless (k\<lparr>Status := a, FinishedAt := b', JobError := e\<rparr>) = (timeless k)\<lparr>Status := a, JobError := e\<rparr>"
    by (simp_all add: timeless_def)
  then show "timeless (j\<lparr>Status := a\<rparr>) = timeless (k\<lparr>Status := a\<rparr>)"
    "timeless (j\<lparr>Status := a, FinishedAt := b, JobError := e\<rparr>) = timeless (k\<lparr>Status := a, FinishedAt := b', JobError := e\<rparr>)"
    using assms by simp_all
qed

lemma by_id_timeless:
  "map timeless js = map timeless ks \<Longrightarrow> map_option timeless (by_id js x) = map_option timeless (by_id ks x)"
proof (induction js arbitrary: ks rule: rev_induct)
  case (snoc j js)
  then obtain k ks' where k: "ks = ks' @ [k]" "map timeless js = map timeless ks'" "timeless j = timeless k"
    by (cases ks rule: rev_cases) auto
  then show ?case using snoc.IH [OF k(2)] timeless_fields(1) [OF k(3)] by (simp add: by_id_snoc)
qed (simp add: by_id_def)

lemma readiness_timeless:
  "(\<And>x. map_option timeless (m x) = map_option timeless (m' x)) \<Longrightarrow> readiness m ready needs = readiness m' ready needs"
proof (induction needs arbitrary: ready)
  case (Cons need needs)
  note e = Cons.prems [of "NeedID need"] and ih = Cons.IH [OF Cons.prems]
  show ?case
  proof (cases "m (NeedID need)")
    case None
    then show ?thesis using e by simp
  next
    case (Some a)
    then obtain b where b: "m' (NeedID need) = Some b" "timeless a = timeless b"
      using e by (cases "m' (NeedID need)") auto
    then show ?thesis using Some timeless_fields(2) [OF b(2)] by (simp add: ih)
  qed
qed simp

lemma same_but_time_length:
  assumes "same_but_time r q"
  shows "length (all_jobs r) = length (all_jobs q)"
proof -
  have "length (map timeless (all_jobs r)) = length (map timeless (all_jobs q))"
    using assms by (simp only: same_but_time_def)
  then show ?thesis by simp
qed

lemma reconcile_at_time:
  assumes "same_but_time r q" "i < length (all_jobs r)"
  shows "same_but_time (reconcile_at now i r) (reconcile_at now' i q)"
proof -
  let ?j = "all_jobs r ! i" and ?k = "all_jobs q ! i"
  note len = same_but_time_length [OF assms(1)]
  have "map timeless (all_jobs r) ! i = map timeless (all_jobs q) ! i" using assms(1) by (simp add: same_but_time_def)
  then have jk: "timeless ?j = timeless ?k" using assms(2) len by simp
  note f = timeless_fields [OF jk] and u = timeless_updates [OF jk]
  have un: "unsettled ?j = unsettled ?k" using f by (simp add: unsettled_def)
  have "map_option timeless (by_id (all_jobs r) x) = map_option timeless (by_id (all_jobs q) x)" for x
    by (rule by_id_timeless) (use assms(1) in \<open>simp only: same_but_time_def\<close>)
  then have rd: "dependencyReadiness ?j (by_id (all_jobs r)) = dependencyReadiness ?k (by_id (all_jobs q))"
    unfolding dependencyReadiness_def f(3) by (rule readiness_timeless)
  have upd: "map timeless ((all_jobs r)[i := a]) = map timeless ((all_jobs q)[i := b])" if "timeless a = timeless b" for a b
    using that assms(1) by (simp add: map_update same_but_time_def)
  show ?thesis
  proof (cases "unsettled ?j")
    case False
    then show ?thesis using un assms(1) by (simp add: reconcile_at_def)
  next
    case True
    show ?thesis
    proof (cases "dependencyReadiness ?k (by_id (all_jobs q))")
      case (Inl e)
      note upd [OF u(2) [where a = StatusFailed and b = "Some now" and e = "error_text e" and b' = "Some now'"]]
      then show ?thesis using True un rd Inl f(1) assms(1) by (simp add: reconcile_at_def Let_def same_but_time_def)
    next
      case (Inr ready)
      note upd [OF u(1) [of StatusQueued]]
      then show ?thesis using True un rd Inr f(1,2) assms(1) by (simp add: reconcile_at_def Let_def same_but_time_def)
    qed
  qed
qed

lemma reconcile_pass_time:
  assumes "same_but_time r q"
  shows "same_but_time (reconcile_pass now r) (reconcile_pass now' q)"
proof -
  note len = same_but_time_length [OF assms]
  have "same_but_time (fold (reconcile_at now) is a) (fold (reconcile_at now') is b)"
    if "same_but_time a b" "\<forall>i\<in>set is. i < length (all_jobs a)" for "is" a b
    using that
  proof (induction "is" arbitrary: a b)
    case (Cons i "is")
    have "same_but_time (reconcile_at now i a) (reconcile_at now' i b)" using Cons.prems by (intro reconcile_at_time) simp_all
    then show ?case using Cons.IH Cons.prems(2) by simp
  qed simp
  from this [of "r\<lparr>made_progress := False\<rparr>" "q\<lparr>made_progress := False\<rparr>" "[0..<length (all_jobs r)]"] show ?thesis
    using assms len by (simp add: reconcile_pass_def same_but_time_def)
qed

lemma reconcile_loop_time:
  "same_but_time r q \<Longrightarrow> same_but_time (reconcile_loop now r) (reconcile_loop now' q)"
proof (induction now r arbitrary: q rule: reconcile_loop.induct)
  case (1 now r)
  note p = reconcile_pass_time [OF 1(2), of now now']
  then have m: "made_progress (reconcile_pass now r) = made_progress (reconcile_pass now' q)" by (simp add: same_but_time_def)
  show ?case
  proof (cases "made_progress (reconcile_pass now r)")
    case True
    then have "same_but_time (reconcile_loop now (reconcile_pass now r)) (reconcile_loop now' (reconcile_pass now' q))"
      using 1(1) [OF refl True p] by simp
    then show ?thesis using True m
      by (subst (1 2) reconcile_loop.simps) (simp add: Let_def)
  next
    case False
    then show ?thesis using m p by (subst (1 2) reconcile_loop.simps) (simp add: Let_def)
  qed
qed

lemma reconciled_changed_time: "changed_ids (reconciled now jobs) = changed_ids (reconciled now' jobs)"
  using reconcile_loop_time [of "\<lparr>all_jobs = jobs, changed_ids = [], promoted_jobs = [], made_progress = False\<rparr>"
      "\<lparr>all_jobs = jobs, changed_ids = [], promoted_jobs = [], made_progress = False\<rparr>" now now']
  unfolding reconciled_def by (simp add: same_but_time_def)

text \<open>The build a scan selects is found and settled by the next scan.\<close>

lemma selected_again:
  assumes "distinct (map JobID jobs)" "selected \<in> set (fst (reconcileJobDependencies jobs now))"
  obtains update j where "find (\<lambda>u. JobID u = JobID selected) (fst (reconcileJobDependencies jobs now')) = Some update"
    "j \<in> set jobs" "unsettled j" "JobID j = JobID update" "\<not> unsettled update"
proof -
  let ?js = "all_jobs (reconciled now' jobs)"
  have o: "outcomes now' jobs ?js" "outcomes now jobs (all_jobs (reconciled now jobs))" by (rule reconciled_final)+
  have "JobID selected \<in> set (changed_ids (reconciled now jobs))"
    using assms(2) by (auto simp: reconcileJobDependencies_def Let_def)
  then have ch: "JobID selected \<in> set (changed_ids (reconciled now' jobs))" using reconciled_changed_time [of now jobs now'] by simp
  then obtain i where i: "i < length jobs" "JobID selected = JobID (jobs ! i)" "?js ! i \<noteq> jobs ! i"
    using reconciled_tracked [of jobs now'] unfolding tracked_def by auto
  have out: "outcome now' ?js (jobs ! i) (?js ! i)" using o(1) i(1) by (simp add: outcomes_def)
  have "?js ! i \<in> set (fst (reconcileJobDependencies jobs now'))"
    unfolding reconcile_updates [OF assms(1)] using i by auto
  moreover have "JobID (?js ! i) = JobID selected" using outcome_JobID [OF out] i(2) by simp
  ultimately obtain update where f: "find (\<lambda>u. JobID u = JobID selected) (fst (reconcileJobDependencies jobs now')) = Some update"
    by (cases "find (\<lambda>u. JobID u = JobID selected) (fst (reconcileJobDependencies jobs now'))") (auto simp: find_None_iff)
  then have u: "update \<in> set (fst (reconcileJobDependencies jobs now'))" "JobID update = JobID selected"
    by (auto simp: find_Some_iff)
  then obtain l where l: "l < length jobs" "update = ?js ! l" "?js ! l \<noteq> jobs ! l"
    unfolding reconcile_updates [OF assms(1)] by auto
  have lo: "outcome now' ?js (jobs ! l) update" using o(1) l by (simp add: outcomes_def)
  have "unsettled (jobs ! l)" "\<not> unsettled update" using lo l(2,3) by (auto simp: outcome_def unsettled_def)
  moreover have "JobID (jobs ! l) = JobID update" using outcome_JobID [OF lo] by simp
  ultimately show ?thesis using that [OF f nth_mem [OF l(1)]] by simp
qed

section \<open>Reading and saving without faults\<close>

definition rooted_jobs :: "job_store \<Rightarrow> bool" where
  "rooted_jobs st \<longleftrightarrow> (\<exists>wd. state_getwd st = Inr wd \<and> HasPrefix wd ''/'') \<and> (\<forall>j. \<exists>json. job_marshal st j = Inr json)"

lemma buildPath_ok:
  assumes "rooted_jobs st" "validJobID jid"
  shows "\<exists>p. buildPath st d jid ''.json'' = Inr p"
proof -
  obtain wd where wd: "state_getwd st = Inr wd" "HasPrefix wd ''/''" using assms(1) by (auto simp: rooted_jobs_def)
  have "CHR ''/'' \<notin> set jid" using assms(2) by (auto simp: validJobID_def list_all_iff job_char_def less_eq_char_def split: if_splits)
  then have "list_all normal [jid @ ''.json'']" by (auto simp: normal_def append_eq_Cons_conv)
  then have "\<exists>p. SafeJoin (Inr wd) d [jid @ ''.json''] = Inr p" using SafeJoin_normal [OF wd(2)] by blast
  then show ?thesis using assms(2) wd(1) by (simp add: buildPath_def)
qed

lemma job_view_Some:
  assumes "job_view st s d jid = Some j"
  shows "validJobID jid" "\<exists>c. open_node (dir_entry s d (jid @ ''.json'')) = Inr (Some c) \<and> job_decode st c = Inr j"
  using assms by (auto simp: job_view_def split: if_splits sum.splits option.splits)

lemma readJob_ok:
  assumes "faults s = []" "rooted_jobs st" "job_view st s d jid = Some j"
  shows "readJob st d jid s = (Inr j, s)"
proof -
  obtain p where p: "buildPath st d jid ''.json'' = Inr p" using buildPath_ok [OF assms(2) job_view_Some(1) [OF assms(3)]] by blast
  obtain c where c: "open_node (dir_entry s d (jid @ ''.json'')) = Inr (Some c)" "job_decode st c = Inr j"
    using job_view_Some(2) [OF assms(3)] by blast
  then obtain node where n: "dir_entry s d (jid @ ''.json'') = Some node"
    by (cases "dir_entry s d (jid @ ''.json'')") (auto simp: open_node_def)
  have "ReadFile d (jid @ ''.json'') s = (Inr c, s)"
    using Open_no_faults [OF assms(1) n] c(1) n assms(1) by (simp add: ReadFile_def bindio_def)
  then show ?thesis using p c(2) by (simp add: readJob_def bindio_def)
qed

text \<open>Every record file of the directory holds a build.\<close>

definition readable :: "job_store \<Rightarrow> file_system \<Rightarrow> string \<Rightarrow> bool" where
  "readable st s d \<longleftrightarrow> d \<notin> set (plain_files s) \<and> (\<forall>jid node. dir_entry s d (jid @ ''.json'') = Some node \<longrightarrow> node \<noteq> Subdir \<longrightarrow>
     job_view st s d jid \<noteq> None)"

lemma read_jobs_ok:
  assumes "faults s = []" "rooted_jobs st" "\<forall>jid\<in>set (job_ids es). job_view st s d jid \<noteq> None"
  shows "\<exists>js. read_jobs st d es s = (Inr js, s)"
  using assms(3)
proof (induction es)
  case (Cons e es)
  obtain name node where e: "e = (name, node)" by fastforce
  obtain js where js: "read_jobs st d es s = (Inr js, s)" using Cons by (auto simp: e split: if_splits)
  show ?case
  proof (cases "node = Subdir \<or> \<not> HasSuffix name ''.json''")
    case True
    then show ?thesis using js e by auto
  next
    case False
    then obtain j where "job_view st s d (TrimSuffix name ''.json'') = Some j" using Cons.prems e by auto
    then have "readJob st d (TrimSuffix name ''.json'') s = (Inr j, s)" by (rule readJob_ok [OF assms(1,2)])
    then show ?thesis using False js e by (simp add: bindio_def)
  qed
qed simp

lemma list_jobs_ok:
  assumes "faults s = []" "rooted_jobs st" "readable st s d" "tables_ok s" "job_directory st repo = Inr d"
  shows "\<exists>jobs. list_jobs st repo s = (Inr jobs, s)"
proof (cases "dir_at s d")
  case None
  then have "ReadDir d s = (Inl ErrNotExist, s)" using assms(1,3) by (simp add: ReadDir_def readable_def)
  then show ?thesis using assms(5) by (simp add: list_jobs_def bindio_attempt)
next
  case (Some tab)
  have "ReadDir d s = (Inr (sort_key fst tab), s)" using Some assms(1) by (simp add: ReadDir_def)
  moreover have "\<forall>jid\<in>set (job_ids (sort_key fst tab)). job_view st s d jid \<noteq> None"
  proof
    fix jid assume "jid \<in> set (job_ids (sort_key fst tab))"
    then obtain node where n: "node \<noteq> Subdir" "(jid @ ''.json'', node) \<in> set tab" by (auto simp: job_ids_mem)
    then have "dir_entry s d (jid @ ''.json'') = Some node"
      using Some tables_okD [OF assms(4) Some] by (simp add: dir_entry_def)
    then show "job_view st s d jid \<noteq> None" using assms(3) n(1) unfolding readable_def by blast
  qed
  from read_jobs_ok [OF assms(1,2) this] obtain js where "read_jobs st d (sort_key fst tab) s = (Inr js, s)" by blast
  ultimately show ?thesis using assms(5) by (simp add: list_jobs_def bindio_attempt) (simp add: bindio_def)
qed

lemma bindio_lift_Inr: "bindio (lift_io (Inr x)) f = f x"
  by (simp add: fun_eq_iff)

lemma save_job_entries:
  assumes "save_job st repo j s = (x, t)" "job_directory st repo = Inr d" "jid \<noteq> JobID j"
  shows "dir_entry t d (jid @ ''.json'') = dir_entry s d (jid @ ''.json'')"
proof (cases "\<exists>p json. buildPath st d (JobID j) ''.json'' = Inr p \<and> job_marshal st j = Inr json")
  case False
  then have "t = s \<or> (\<exists>y. MkdirAll d s = (y, t))"
    using assms(1,2) by (auto simp: save_job_def elim!: bindio_cases split: sum.splits)
  then show ?thesis using MkdirAll_entries(4) by metis
next
  case True
  then obtain p json where pj: "buildPath st d (JobID j) ''.json'' = Inr p" "job_marshal st j = Inr json" by blast
  have f: "fills d (json @ [CHR 0x0A]) (\<lambda>temporary. bindio Touch (\<lambda>_. WriteFile d temporary (json @ [CHR 0x0A])))"
    by (intro fills_before fills_WriteFile quiet_reads)
  have "bindio (MkdirAll d) (\<lambda>_. replace_file d ''.build-'' (\<lambda>temporary. bindio Touch (\<lambda>_. WriteFile d temporary (json @ [CHR 0x0A])))
      (JobID j @ ''.json'')) s = (x, t)" using assms(1,2) pj by (simp add: save_job_def bindio_lift_Inr)
  then show ?thesis
  proof (cases rule: bindio_cases)
    case (failed e)
    then show ?thesis using MkdirAll_entries(4) by simp
  next
    case (went_on y u)
    have m: "dir_entry u = dir_entry s" by (rule MkdirAll_entries(4) [OF went_on(1)])
    from went_on(2) f job_names(1) show ?thesis
      by (cases rule: replace_file_cases) (use m assms(3) in \<open>auto simp: only_temp_def file_replaced_def\<close>)
  qed
qed

lemma save_job_ok:
  assumes "faults s = []" "rooted_jobs st" "readable st s d" "job_directory st repo = Inr d" "validJobID (JobID j)"
    "dir_entry s d (JobID j @ ''.json'') \<noteq> Some Subdir"
  shows "\<exists>t. save_job st repo j s = (Inr (), t) \<and> faults t = []"
proof -
  obtain p json where pj: "buildPath st d (JobID j) ''.json'' = Inr p" "job_marshal st j = Inr json"
    using buildPath_ok [OF assms(2,5)] assms(2) unfolding rooted_jobs_def by blast
  define u where "u = (if dir_at s d = None then put_dir d [] s else s)"
  have "d \<notin> set (plain_files s)" using assms(3) by (simp add: readable_def)
  from MkdirAll_ok_run [OF assms(1) this] have m: "MkdirAll d s = (Inr (), u)" by (simp add: u_def)
  obtain tab where tab: "dir_at u d = Some tab" by (cases "dir_at s d") (auto simp: u_def)
  have fu: "faults u = []" using assms(1) by (simp add: u_def)
  have "map_of tab (JobID j @ ''.json'') \<noteq> Some Subdir"
    using MkdirAll_entries(4) [OF m] assms(6) tab by (metis dir_entry_def option.case(2))
  from replace_file_ok [OF fu tab this job_names(1), where fill = "\<lambda>temporary. bindio Touch (\<lambda>_. WriteFile d temporary (json @ [CHR 0x0A]))"
      and c = "json @ [CHR 0x0A]" and stem = "''.build-''"]
  obtain t where "replace_file d ''.build-'' (\<lambda>temporary. bindio Touch (\<lambda>_. WriteFile d temporary (json @ [CHR 0x0A])))
      (JobID j @ ''.json'') u = (Inr (), t)" "faults t = []" by (auto simp: bindio_def)
  then show ?thesis using assms(4) pj m by (simp add: save_job_def) (simp add: bindio_def)
qed

section \<open>The loop\<close>

definition rest_ok :: "coordinator \<Rightarrow> repository \<Rightarrow> string \<Rightarrow> file_system \<Rightarrow> bool" where
  "rest_ok c repo d s \<longleftrightarrow> faults s = [] \<and> well_stored (job_state c) s \<and> readable (job_state c) s d \<and>
     job_directory (job_state c) repo = Inr d"

lemma lock_ok: "with_locks [JobRequest env root repo jid] m s = m s"
  by (simp add: with_locks_def normalizeRequests_def JobRequest_def resourceKey_def Let_def bindr_def)

lemma unsettled_decreases:
  assumes "distinct (map JobID jobs)" "distinct (map JobID jobs')" "j \<in> set jobs" "unsettled j"
    "\<And>k. k \<in> set jobs' \<Longrightarrow> unsettled k \<Longrightarrow> k \<in> set jobs \<and> k \<noteq> j"
  shows "length (filter unsettled jobs') < length (filter unsettled jobs)"
proof -
  have card: "length (filter unsettled js) = card {k \<in> set js. unsettled k}" if "distinct (map JobID js)" for js
    using distinct_card [of "filter unsettled js"] that by (simp add: distinct_map)
  have "{k \<in> set jobs'. unsettled k} \<subset> {k \<in> set jobs. unsettled k}" using assms(3-5) by auto
  then show ?thesis unfolding card [OF assms(1)] card [OF assms(2)] by (rule psubset_card_mono [rotated]) simp
qed

text \<open>One round that selects a build settles it.\<close>

lemma reconcile_round:
  assumes "json_ok (job_state c)" "rooted_jobs (job_state c)" "rest_ok c repo d s" "list_jobs (job_state c) repo s = (Inr jobs, s)"
    "selected \<in> set (fst (reconcileJobDependencies jobs now))"
  obtains update t jobs' where
    "find (\<lambda>u. JobID u = JobID selected) (fst (reconcileJobDependencies jobs now')) = Some update"
    "save_job (job_state c) repo update s = (Inr (), t)" "rest_ok c repo d t"
    "list_jobs (job_state c) repo t = (Inr jobs', t)" "length (filter unsettled jobs') < length (filter unsettled jobs)"
proof -
  let ?st = "job_state c"
  have ok: "faults s = []" "well_stored ?st s" "readable ?st s d" "job_directory ?st repo = Inr d"
    using assms(3) by (simp_all add: rest_ok_def)
  note l = list_jobs_Inr [OF assms(4) ok(4,2)]
  obtain update j where u: "find (\<lambda>u. JobID u = JobID selected) (fst (reconcileJobDependencies jobs now')) = Some update"
    "j \<in> set jobs" "unsettled j" "JobID j = JobID update" "\<not> unsettled update"
    by (rule selected_again [OF l(1) assms(5)])
  have v: "job_view ?st s d (JobID update) = Some j" using l(2) u(2,4) by simp
  obtain node where "dir_entry s d (JobID update @ ''.json'') = Some node" "node \<noteq> Subdir"
    using v by (rule job_view_entry) (auto simp: dir_entry_def)
  then have "dir_entry s d (JobID update @ ''.json'') \<noteq> Some Subdir" by simp
  from save_job_ok [OF ok(1) assms(2) ok(3,4) job_view_Some(1) [OF v] this]
  obtain t where t: "save_job ?st repo update s = (Inr (), t)" "faults t = []" by blast
  have saved: "job_view ?st t d = (job_view ?st s d)(JobID update \<mapsto> update)" "tables_ok t" "plain_files t = plain_files s"
    "\<forall>p. p \<noteq> d \<longrightarrow> job_view ?st t p = job_view ?st s p"
    using t(1) ok(4) assms(1) ok(2)
    by (auto elim!: save_job_cases simp: saved_job_def json_ok_def well_stored_def)
  have "JobID k = jid" if "job_view ?st t p jid = Some k" for p jid k
    using that saved(1,4) ok(2) by (cases "p = d") (auto simp: well_stored_def split: if_splits)
  then have w: "well_stored ?st t" using saved(2) by (simp add: well_stored_def)
  have r: "readable ?st t d" unfolding readable_def
  proof (intro conjI allI impI)
    show "d \<notin> set (plain_files t)" using ok(3) saved(3) by (simp add: readable_def)
    fix jid node assume n: "dir_entry t d (jid @ ''.json'') = Some node" "node \<noteq> Subdir"
    show "job_view ?st t d jid \<noteq> None"
    proof (cases "jid = JobID update")
      case True
      then show ?thesis using saved(1) by simp
    next
      case False
      then have "dir_entry s d (jid @ ''.json'') = Some node" using save_job_entries [OF t(1) ok(4) False] n(1) by simp
      then show ?thesis using ok(3) n(2) saved(1) False unfolding readable_def by auto
    qed
  qed
  have rest: "rest_ok c repo d t" using t(2) w r ok(4) by (simp add: rest_ok_def)
  obtain jobs' where j': "list_jobs ?st repo t = (Inr jobs', t)"
    using list_jobs_ok [OF t(2) assms(2) r saved(2) ok(4)] by blast
  note l' = list_jobs_Inr [OF j' ok(4) w]
  have "length (filter unsettled jobs') < length (filter unsettled jobs)"
  proof (rule unsettled_decreases [OF l(1) l'(1) u(2,3)])
    fix k assume k: "k \<in> set jobs'" "unsettled k"
    have kv: "job_view ?st t d (JobID k) = Some k" by (rule l'(2) [THEN iffD1, OF k(1)])
    have up: "job_view ?st t d (JobID update) = Some update" by (simp add: saved(1))
    have ne: "JobID k \<noteq> JobID update"
    proof
      assume "JobID k = JobID update"
      then have "Some k = Some update" using kv up by (simp only:)
      then have "k = update" by simp
      then show False using k(2) u(5) by simp
    qed
    then have "job_view ?st s d (JobID k) = Some k" using kv saved(1) by simp
    then have "k \<in> set jobs" by (rule l(2) [THEN iffD2])
    moreover have "k \<noteq> j" using ne u(4) by auto
    ultimately show "k \<in> set jobs \<and> k \<noteq> j" by simp
  qed
  then show ?thesis using that [OF u(1) t(1) rest j'] by simp
qed

lemma reconcile_rests:
  assumes "runs_alone c" "rooted_jobs (job_state c)" "rest_ok c repo d s" "list_jobs (job_state c) repo s = (Inr jobs, s)"
    "length (filter unsettled jobs) < fuel"
  shows "\<exists>t jobs'. reconcileDependenciesWithLockedJob c clock fuel repo locked s = (Inr (), t) \<and> rest_ok c repo d t \<and>
    list_jobs (job_state c) repo t = (Inr jobs', t) \<and> (\<forall>j\<in>set jobs'. at_rest jobs' j)"
  using assms(3-5)
proof (induction fuel arbitrary: s jobs)
  case (Suc n)
  let ?st = "job_state c"
  have json: "json_ok ?st" and alone: "others c n s = s" using assms(1) by (simp_all add: runs_alone_def)
  show ?case
  proof (cases "fst (reconcileJobDependencies jobs (UTC (clock (2 * n + 1))))")
    case Nil
    have "well_stored ?st s" "job_directory ?st repo = Inr d" using Suc.prems(1) by (simp_all add: rest_ok_def)
    then have d: "distinct (map JobID jobs)" using list_jobs_Inr(1) [OF Suc.prems(2)] by blast
    let ?js = "all_jobs (reconciled (UTC (clock (2 * n + 1))) jobs)"
    have "length ?js = length jobs" using reconciled_final(1) [of "UTC (clock (2 * n + 1))" jobs] by (simp add: outcomes_def)
    moreover have "?js ! i = jobs ! i" if "i < length jobs" for i
      using Nil that unfolding reconcile_updates [OF d] by (auto simp: filter_empty_conv)
    ultimately have "?js = jobs" by (intro nth_equalityI) simp_all
    then have "\<forall>j\<in>set jobs. at_rest jobs j" using reconciled_final(2) [of _ "UTC (clock (2 * n + 1))" jobs] by simp
    moreover have "reconcileDependenciesWithLockedJob c clock (Suc n) repo locked s = (Inr (), s)"
      using Suc.prems(2) Nil by (simp add: bindio_def)
    ultimately show ?thesis using Suc.prems(1,2) by blast
  next
    case (Cons selected more)
    then have sel: "selected \<in> set (fst (reconcileJobDependencies jobs (UTC (clock (2 * n + 1)))))" by simp
    obtain update t jobs' where r:
      "find (\<lambda>u. JobID u = JobID selected) (fst (reconcileJobDependencies jobs (UTC (clock (2 * n))))) = Some update"
      "save_job ?st repo update s = (Inr (), t)" "rest_ok c repo d t" "list_jobs ?st repo t = (Inr jobs', t)"
      "length (filter unsettled jobs') < length (filter unsettled jobs)"
      by (rule reconcile_round [OF json assms(2) Suc.prems(1,2) sel])
    have "reconcileDependenciesWithLockedJob c clock (Suc n) repo locked s =
        reconcileDependenciesWithLockedJob c clock n repo locked t"
      using Suc.prems(2) Cons r(1,2) alone
      by (cases "JobID selected = locked") (simp_all add: bindio_def lock_ok wait_for_lock_def)
    then show ?thesis using Suc.IH [OF r(3,4)] r(5) Suc.prems(3) by simp
  qed
qed simp

text \<open>
  Property C19. The coordinator's reconciliation of a repository's builds returns: when no system
  call fails, no other operation runs and every record file holds a build, one round more than
  there are builds that wait for their dependencies is enough. Afterwards the stored builds are
  such that a reconciliation has nothing left to do.
\<close>

theorem reconcileDependencies_returns:
  assumes "runs_alone c" "rooted_jobs (job_state c)" "rest_ok c repo d s"
  shows "\<exists>jobs. list_jobs (job_state c) repo s = (Inr jobs, s) \<and>
    (\<forall>fuel > length (filter unsettled jobs). \<exists>t jobs'.
       reconcileDependenciesWithLockedJob c clock fuel repo locked s = (Inr (), t) \<and> rest_ok c repo d t \<and>
       list_jobs (job_state c) repo t = (Inr jobs', t) \<and> (\<forall>j\<in>set jobs'. at_rest jobs' j))"
proof -
  obtain jobs where "list_jobs (job_state c) repo s = (Inr jobs, s)"
    using list_jobs_ok [of s "job_state c" d repo] assms(2,3) by (auto simp: rest_ok_def well_stored_def)
  then show ?thesis using reconcile_rests [OF assms] by blast
qed

section \<open>An instance\<close>

text \<open>A codec for all builds: a build is written as the number of its fields.\<close>

definition time_fields :: "gotime \<Rightarrow> int \<times> bool" where
  "time_fields t = (instant t, in_utc t)"

definition job_fields :: "job \<Rightarrow> (string list \<times> (string \<times> string) list) \<times> (int \<times> bool) \<times> (int \<times> bool) option list \<times> int" where
  "job_fields j = (([JobID j, JobName j, JobRepository j, JobBranch j, JobCommit j, JobImage j, Status j, JobError j, RunnerID j, RerunOf j],
      map (\<lambda>n. (NeedName n, NeedID n)) (JobNeeds j)), time_fields (JobCreatedAt j),
      [map_option time_fields (StartedAt j), map_option time_fields (FinishedAt j), map_option time_fields (LeaseExpiresAt j)], Attempt j)"

lemma time_fields_inj: "inj time_fields"
  by (rule injI) (simp add: time_fields_def)

lemma needs_inj: "inj (\<lambda>n :: job_dependency. (NeedName n, NeedID n))"
  by (rule injI) simp

lemma job_fields_inj: "inj job_fields"
proof (rule injI)
  fix j k assume e: "job_fields j = job_fields k"
  have "JobNeeds j = JobNeeds k" using e injD [OF inj_mapI [OF needs_inj]] by (simp add: job_fields_def)
  moreover have "JobCreatedAt j = JobCreatedAt k" using e injD [OF time_fields_inj] by (simp add: job_fields_def)
  moreover have "StartedAt j = StartedAt k" "FinishedAt j = FinishedAt k" "LeaseExpiresAt j = LeaseExpiresAt k"
    using e injD [OF option.inj_map [OF time_fields_inj]] by (simp_all add: job_fields_def)
  ultimately show "j = k" using e by (simp add: job_fields_def)
qed

definition job_text :: "job \<Rightarrow> string" where
  "job_text j = print_nat (to_nat (job_fields j))"

lemma job_text_inj: "job_text j = job_text k \<Longrightarrow> j = k"
  unfolding job_text_def by (metis print_nat_inj inj_to_nat injD job_fields_inj)

definition coded_store :: job_store where
  "coded_store = \<lparr>state_root = ''/'', state_getwd = Inr ''/'', job_marshal = (\<lambda>j. Inr (job_text j)),
     job_decode = (\<lambda>text. if \<exists>j. text = job_text j @ [CHR 0x0A] then Inr (THE j. text = job_text j @ [CHR 0x0A]) else Inl ErrIO),
     short_write = (\<lambda>_. 0)\<rparr>"

lemma coded_decode: "job_decode coded_store (job_text j @ [CHR 0x0A]) = Inr j"
  using job_text_inj by (auto simp: coded_store_def intro: the_equality)

definition coded_coordinator :: coordinator where
  "coded_coordinator = (table_coordinator [])\<lparr>job_state := coded_store\<rparr>"

definition waiting_job :: job where
  "waiting_job = sample_job ''a'' [\<lparr>NeedName = ''b'', NeedID = ''b''\<rparr>] StatusWaiting"

definition coded_fs :: file_system where
  "coded_fs = \<lparr>dirs = [(''/g/r.build'', [(''a.json'', Regular (job_text waiting_job @ [CHR 0x0A])),
       (''b.json'', Regular (job_text sample_finished @ [CHR 0x0A]))])], plain_files = [], faults = []\<rparr>"

lemma coded_entry:
  "dir_entry coded_fs d (jid @ ''.json'') = (if d \<noteq> ''/g/r.build'' then None
     else if jid = ''a'' then Some (Regular (job_text waiting_job @ [CHR 0x0A]))
     else if jid = ''b'' then Some (Regular (job_text sample_finished @ [CHR 0x0A])) else None)"
proof -
  have "jid @ ''.json'' = ''a.json'' \<longleftrightarrow> jid = ''a''" "jid @ ''.json'' = ''b.json'' \<longleftrightarrow> jid = ''b''"
    using append_same_eq [of jid "''.json''" "''a''"] append_same_eq [of jid "''.json''" "''b''"] by simp_all
  then show ?thesis by (simp add: dir_entry_def dir_at_def coded_fs_def del: append_Cons)
qed

lemma coded_views:
  "job_view coded_store coded_fs d jid = (if d = ''/g/r.build'' \<and> jid = ''a'' then Some waiting_job
     else if d = ''/g/r.build'' \<and> jid = ''b'' then Some sample_finished else None)"
proof -
  have "validJobID ''a''" "validJobID ''b''" by code_simp+
  then show ?thesis unfolding job_view_def coded_entry by (simp add: open_node_def coded_decode)
qed

lemma coded_rest_ok: "rest_ok coded_coordinator sample_build_repo ''/g/r.build'' coded_fs"
proof -
  have st: "job_state coded_coordinator = coded_store" by (simp add: coded_coordinator_def)
  have "tables_ok coded_fs" by (simp add: tables_ok_def dir_at_def coded_fs_def)
  then have "well_stored coded_store coded_fs"
    by (auto simp: well_stored_def coded_views waiting_job_def sample_finished_def sample_job_def split: if_splits)
  moreover have "readable coded_store coded_fs ''/g/r.build''"
  proof -
    have "plain_files coded_fs = []" by (simp add: coded_fs_def)
    then show ?thesis by (simp add: readable_def coded_entry coded_views)
  qed
  moreover have "job_directory coded_store sample_build_repo = Inr ''/g/r.build''"
    using sample_job_directory by (simp add: job_directory_def coded_store_def sample_job_store_def)
  moreover have "faults coded_fs = []" by (simp add: coded_fs_def)
  ultimately show ?thesis by (simp add: rest_ok_def st)
qed

theorem reconcileDependencies_returns_witness:
  "\<exists>fuel t. reconcileDependenciesWithLockedJob coded_coordinator sample_clock fuel sample_build_repo [] coded_fs = (Inr (), t) \<and>
     rest_ok coded_coordinator sample_build_repo ''/g/r.build'' t"
proof -
  have "json_ok coded_store" unfolding json_ok_def
  proof (intro allI impI)
    fix j json assume "job_marshal coded_store j = Inr json"
    then have "json = job_text j" by (simp add: coded_store_def)
    then show "job_decode coded_store (json @ [CHR 0x0A]) = Inr j" by (simp only: coded_decode)
  qed
  then have alone: "runs_alone coded_coordinator" by (simp add: runs_alone_def coded_coordinator_def table_coordinator_def)
  have rooted: "rooted_jobs (job_state coded_coordinator)"
    by (simp add: rooted_jobs_def coded_coordinator_def coded_store_def HasPrefix_def)
  obtain jobs where "\<forall>fuel > length (filter unsettled jobs). \<exists>t jobs'.
       reconcileDependenciesWithLockedJob coded_coordinator sample_clock fuel sample_build_repo [] coded_fs = (Inr (), t) \<and>
       rest_ok coded_coordinator sample_build_repo ''/g/r.build'' t \<and>
       list_jobs (job_state coded_coordinator) sample_build_repo t = (Inr jobs', t) \<and> (\<forall>j\<in>set jobs'. at_rest jobs' j)"
    using reconcileDependencies_returns [OF alone rooted coded_rest_ok, of sample_clock "[]"] by (elim exE conjE)
  from this [rule_format, of "Suc (length (filter unsettled jobs))"] show ?thesis by blast
qed

end
