(* ===== verification/TreeFS.thy ===== *)
theory TreeFS
  imports FileSystem SafePath "HOL-Library.State_Monad"
begin

text \<open>
  The operating system for the components that walk and rename whole directory trees: a tree of
  directories and regular files, the calls of Go's \<^verbatim>\<open>os\<close> package on absolute paths as
  operations of a state monad, and a script of faults as in the flat model of the record stores.
  The lemmas say what a lookup finds after an update, below, above and beside the changed path, and what a call
  does to the state, whatever the script says.
\<close>

section \<open>Trees\<close>

text \<open>The entries of a directory stand in the order \<^verbatim>\<open>os.ReadDir\<close> lists them, by name.\<close>

datatype tree = File string | Dir "(string \<times> tree) list"

fun insert_entry :: "string \<Rightarrow> 'a \<Rightarrow> (string \<times> 'a) list \<Rightarrow> (string \<times> 'a) list" where
  "insert_entry n x [] = [(n, x)]"
| "insert_entry n x ((m, y) # es) =
     (if n = m then (n, x) # es
      else if n < m \<and> n \<notin> set (map fst es) then (n, x) # (m, y) # es
      else (m, y) # insert_entry n x es)"

definition delete_entry :: "string \<Rightarrow> (string \<times> 'a) list \<Rightarrow> (string \<times> 'a) list" where
  "delete_entry n es = filter (\<lambda>e. fst e \<noteq> n) es"

text \<open>A path that runs through a regular file fails with \<^verbatim>\<open>ENOTDIR\<close>, which is not \<^verbatim>\<open>ErrNotExist\<close>.\<close>

fun find_at :: "tree \<Rightarrow> string list \<Rightarrow> tree result" where
  "find_at t [] = Inr t"
| "find_at (File c) (n # ns) = Inl ErrIO"
| "find_at (Dir es) (n # ns) = (case map_of es n of None \<Rightarrow> Inl ErrNotExist | Some t \<Rightarrow> find_at t ns)"

text \<open>Replace or, with \<^const>\<open>None\<close>, remove the entry at a path; nothing happens where its parent is missing.\<close>

fun update_at :: "string list \<Rightarrow> tree option \<Rightarrow> tree \<Rightarrow> tree" where
  "update_at [] v t = (case v of None \<Rightarrow> t | Some x \<Rightarrow> x)"
| "update_at (n # ns) v (File c) = File c"
| "update_at (n # ns) v (Dir es) =
     (if ns = [] then Dir (case v of None \<Rightarrow> delete_entry n es | Some x \<Rightarrow> insert_entry n x es)
      else case map_of es n of None \<Rightarrow> Dir es | Some t \<Rightarrow> Dir (insert_entry n (update_at ns v t) es))"

fun mkdirs :: "string list \<Rightarrow> tree \<Rightarrow> tree result" where
  "mkdirs ns (File c) = Inl ErrIO"
| "mkdirs [] (Dir es) = Inr (Dir es)"
| "mkdirs (n # ns) (Dir es) =
     bindr (mkdirs ns (case map_of es n of None \<Rightarrow> Dir [] | Some t \<Rightarrow> t)) (\<lambda>t. Inr (Dir (insert_entry n t es)))"

text \<open>
  \<^verbatim>\<open>os.Rename\<close>: a file replaces a file. A destination that is a directory is refused, also an empty one
  and the source itself, and nothing moves below itself.
\<close>

fun replaceable :: "tree \<Rightarrow> tree \<Rightarrow> bool" where
  "replaceable (File _) (File _) = True"
| "replaceable _ _ = False"

definition rename_tree :: "string list \<Rightarrow> string list \<Rightarrow> tree \<Rightarrow> tree result" where
  "rename_tree a b d =
     bindr (find_at d a) (\<lambda>x.
       if a = b then (case x of File _ \<Rightarrow> Inr d | Dir _ \<Rightarrow> Inl ErrIO)
       else if prefix a b \<or> prefix b a then Inl ErrIO
       else bindr (find_at d (butlast b)) (\<lambda>parent.
         case parent of
           File _ \<Rightarrow> Inl ErrIO
         | Dir _ \<Rightarrow>
             (case find_at d b of
                Inr y \<Rightarrow> if replaceable x y then Inr (update_at b (Some x) (update_at a None d)) else Inl ErrIO
              | Inl _ \<Rightarrow> Inr (update_at b (Some x) (update_at a None d)))))"

section \<open>Calls\<close>

text \<open>
  \<open>numbers\<close> has the random numbers that temporary names are made of, \<open>drawn\<close> counts those used up.
\<close>

record tree_fs =
  disk :: tree
  script :: "bool list"
  numbers :: "nat \<Rightarrow> nat"
  drawn :: nat

type_synonym ('z, 'a) tree_io = "('z tree_fs_scheme, 'a) state"

text \<open>A call consults the script: \<^const>\<open>True\<close> fails it before it has any effect.\<close>

definition fs_call :: "(tree \<Rightarrow> 'a result \<times> tree) \<Rightarrow> ('z, 'a result) tree_io" where
  "fs_call f = State (\<lambda>s.
     if script s \<noteq> [] \<and> hd (script s) then (Inl ErrIO, s\<lparr>script := tl (script s)\<rparr>)
     else case f (disk s) of (r, d) \<Rightarrow> (r, s\<lparr>disk := d, script := tl (script s)\<rparr>))"

text \<open>A call that reads, and one that changes the tree when it succeeds.\<close>

definition fs_read :: "(tree \<Rightarrow> 'a result) \<Rightarrow> ('z, 'a result) tree_io" where
  "fs_read f = fs_call (\<lambda>d. (f d, d))"

definition fs_write :: "(tree \<Rightarrow> tree result) \<Rightarrow> ('z, unit result) tree_io" where
  "fs_write f = fs_call (\<lambda>d. case f d of Inl e \<Rightarrow> (Inl e, d) | Inr d' \<Rightarrow> (Inr (), d'))"

text \<open>\<^verbatim>\<open>os.Stat\<close>, \<^verbatim>\<open>os.Lstat\<close> and \<^verbatim>\<open>os.Open\<close> report the node; there are no links in the tree.\<close>

definition Stat_at :: "string \<Rightarrow> ('z, tree result) tree_io" where
  "Stat_at p = fs_read (\<lambda>d. if p = [] then Inl ErrNotExist else find_at d (path_parts p))"

definition MkdirAll_at :: "string \<Rightarrow> ('z, unit result) tree_io" where
  "MkdirAll_at p = fs_write (mkdirs (path_parts p))"

definition Rename_at :: "string \<Rightarrow> string \<Rightarrow> ('z, unit result) tree_io" where
  "Rename_at a b = fs_write (rename_tree (path_parts a) (path_parts b))"

text \<open>\<^verbatim>\<open>os.Remove\<close>: a file or an empty directory.\<close>

definition Remove_at :: "string \<Rightarrow> ('z, unit result) tree_io" where
  "Remove_at p = fs_write (\<lambda>d. bindr (find_at d (path_parts p)) (\<lambda>x.
     case x of
       Dir (_ # _) \<Rightarrow> Inl ErrIO
     | _ \<Rightarrow> Inr (update_at (path_parts p) None d)))"

text \<open>
  \<^verbatim>\<open>os.CreateTemp(dir, stem + "*")\<close>: an empty file with a new name, whose path is returned. A
  number whose name is taken is passed over, up to 10000 times.
\<close>

definition temp_name :: "string \<Rightarrow> (nat \<Rightarrow> nat) \<Rightarrow> nat \<Rightarrow> string" where
  "temp_name stem ns k = stem @ print_nat (ns k)"

function draw :: "string \<Rightarrow> (nat \<Rightarrow> nat) \<Rightarrow> string list \<Rightarrow> nat \<Rightarrow> nat \<Rightarrow> nat option" where
  "draw stem ns taken k limit =
     (if k \<ge> limit then None
      else if temp_name stem ns k \<notin> set taken then Some k
      else draw stem ns taken (Suc k) limit)"
  by pat_completeness auto
termination
  by (relation "measure (\<lambda>(stem, ns, taken, k, limit). limit - k)") auto

declare draw.simps [simp del]

definition CreateTemp_at :: "string \<Rightarrow> string \<Rightarrow> ('z, string result) tree_io" where
  "CreateTemp_at dir stem = State (\<lambda>s.
     if script s \<noteq> [] \<and> hd (script s) then (Inl ErrIO, s\<lparr>script := tl (script s)\<rparr>)
     else case find_at (disk s) (path_parts dir) of
       Inl e \<Rightarrow> (Inl e, s\<lparr>script := tl (script s)\<rparr>)
     | Inr (File _) \<Rightarrow> (Inl ErrIO, s\<lparr>script := tl (script s)\<rparr>)
     | Inr (Dir es) \<Rightarrow>
         (case draw stem (numbers s) (map fst es) (drawn s) (drawn s + 10000) of
            None \<Rightarrow> (Inl (Errorf ''file exists''), s\<lparr>script := tl (script s), drawn := drawn s + 10000\<rparr>)
          | Some k \<Rightarrow>
              (Inr (dir @ ''/'' @ temp_name stem (numbers s) k),
               s\<lparr>disk := update_at (path_parts dir @ [temp_name stem (numbers s) k]) (Some (File [])) (disk s),
                 script := tl (script s), drawn := Suc k\<rparr>)))"

lemma draw_Some:
  "draw stem ns taken k limit = Some n \<Longrightarrow> k \<le> n \<and> n < limit \<and> temp_name stem ns n \<notin> set taken"
proof (induction stem ns taken k limit rule: draw.induct)
  case (1 stem ns taken k limit)
  show ?case
  proof (cases "k \<ge> limit \<or> temp_name stem ns k \<notin> set taken")
    case True
    then show ?thesis using 1(2) by (subst (asm) draw.simps) (auto split: if_splits)
  next
    case False
    moreover from this have "draw stem ns taken (Suc k) limit = Some n"
      using 1(2) by (subst (asm) draw.simps) auto
    ultimately show ?thesis using 1(1) by fastforce
  qed
qed

text \<open>Writing the contents of an open file, and the calls that change nothing here.\<close>

definition Write_at :: "string \<Rightarrow> string \<Rightarrow> ('z, unit result) tree_io" where
  "Write_at p contents = fs_write (\<lambda>d. Inr (update_at (path_parts p) (Some (File contents)) d))"

definition Touch_at :: "('z, unit result) tree_io" where
  "Touch_at = fs_read (\<lambda>_. Inr ())"

section \<open>Entries\<close>

lemma map_of_insert_entry [simp]: "map_of (insert_entry n x es) = (map_of es)(n \<mapsto> x)"
  by (induction n x es rule: insert_entry.induct) (auto simp: fun_eq_iff)

lemma map_of_delete_entry [simp]: "map_of (delete_entry n es) = (map_of es)(n := None)"
  unfolding delete_entry_def by (induction es) (auto simp: fun_eq_iff)

lemma set_insert_entry: "fst ` set (insert_entry n x es) = insert n (fst ` set es)"
  by (induction n x es rule: insert_entry.induct) auto

text \<open>The listing order is kept.\<close>

lemma sorted_insert_entry:
  "sorted_wrt (<) (map fst es) \<Longrightarrow> sorted_wrt (<) (map fst (insert_entry n x es))"
proof (induction n x es rule: insert_entry.induct)
  case (2 n x m y es)
  have "n \<notin> set (map fst es)" if "n < m" using 2(2) that by auto
  moreover have "\<forall>k\<in>fst ` set (insert_entry n x es). m < k" if "n \<noteq> m" "\<not> n < m"
    using 2(2) that unfolding set_insert_entry by auto
  ultimately show ?case using 2 by auto
qed simp

text \<open>A sum over the entries loses what the name had and gains what it gets.\<close>

lemma sum_insert_entry:
  fixes f :: "string \<Rightarrow> 'a \<Rightarrow> int"
  shows "sum_list (map (\<lambda>(n, t). f n t) (insert_entry n x es)) =
    sum_list (map (\<lambda>(n, t). f n t) es) - (case map_of es n of None \<Rightarrow> 0 | Some y \<Rightarrow> f n y) + f n x"
proof (induction n x es rule: insert_entry.induct)
  case (2 n x m y es)
  have "n \<notin> set (map fst es) \<Longrightarrow> map_of es n = None" by (simp add: map_of_eq_None_iff)
  then show ?case using 2 by auto
qed simp

lemma sum_delete_entry:
  fixes f :: "string \<Rightarrow> 'a \<Rightarrow> int"
  assumes "\<And>n t. 0 \<le> f n t"
  shows "sum_list (map (\<lambda>(n, t). f n t) (delete_entry n es)) \<le> sum_list (map (\<lambda>(n, t). f n t) es)"
  unfolding delete_entry_def by (induction es) (auto simp: assms add_increasing)

lemma sorted_delete_entry:
  "sorted_wrt (<) (map fst es) \<Longrightarrow> sorted_wrt (<) (map fst (delete_entry n es))"
  unfolding delete_entry_def by (induction es) auto

section \<open>Lookups\<close>

lemma find_at_append: "find_at t (ps @ qs) = bindr (find_at t ps) (\<lambda>d. find_at d qs)"
  by (induction t ps rule: find_at.induct) (auto split: option.split)

lemma find_at_Cons: "find_at t (n # ns) = bindr (find_at t [n]) (\<lambda>d. find_at d ns)"
  using find_at_append [of t "[n]" ns] by simp

lemma find_at_parent: "find_at t (ps @ [n]) = Inr x \<Longrightarrow> \<exists>es. find_at t ps = Inr (Dir es)"
proof -
  assume "find_at t (ps @ [n]) = Inr x"
  then obtain d where "find_at t ps = Inr d" "find_at d [n] = Inr x"
    by (auto simp: find_at_append bindr_Inr_iff)
  then show ?thesis by (cases d) auto
qed

text \<open>An update beside a path changes nothing there.\<close>

lemma find_update_beside:
  "\<not> prefix ps qs \<Longrightarrow> \<not> prefix qs ps \<Longrightarrow> find_at (update_at ps v t) qs = find_at t qs"
proof (induction ps v t arbitrary: qs rule: update_at.induct)
  case (3 n ns v es)
  then obtain m ms where qs: "qs = m # ms" by (cases qs) auto
  show ?case
  proof (cases "n = m")
    case True
    then have ns: "ns \<noteq> []" "\<not> prefix ns ms" "\<not> prefix ms ns" using 3 qs by auto
    then have "find_at (update_at ns v t) ms = find_at t ms" if "map_of es n = Some t" for t
      using 3(1) [OF _ that, of ms] by simp
    then show ?thesis using True ns qs by (auto split: option.split)
  next
    case False
    then show ?thesis using qs by (auto split: option.split)
  qed
qed auto

text \<open>An update below a path shows there as the update of the subtree.\<close>

lemma find_update_above:
  "find_at t ps = Inr d \<Longrightarrow> qs \<noteq> [] \<Longrightarrow> find_at (update_at (ps @ qs) v t) ps = Inr (update_at qs v d)"
proof (induction t ps rule: find_at.induct)
  case (3 es n ns)
  then show ?case by (auto split: option.splits)
qed auto

lemma find_update_at:
  assumes "find_at t ps = Inr (Dir es)"
  shows "find_at (update_at (ps @ [n]) (Some x) t) (ps @ n # rest) = find_at x rest"
  using find_update_above [OF assms, of "[n]" "Some x"] by (simp add: find_at_append)

lemma find_removed: "ps \<noteq> [] \<Longrightarrow> \<exists>e. find_at (update_at ps None t) ps = Inl e"
proof (induction ps "None :: tree option" t rule: update_at.induct)
  case (3 n ns es)
  then show ?case by (cases "map_of es n") auto
qed auto

text \<open>Below a removed entry nothing is found, below a replaced one what the new subtree has.\<close>

lemma find_below_removed: "ps \<noteq> [] \<Longrightarrow> \<exists>e. find_at (update_at ps None t) (ps @ qs) = Inl e"
  using find_removed [of ps t] by (auto simp: find_at_append)

lemma find_removed_Inr:
  assumes "find_at (update_at ps None t) qs = Inr x" "ps \<noteq> []"
  shows "\<not> prefix ps qs"
proof
  assume "prefix ps qs"
  then obtain zs where "qs = ps @ zs" by (auto simp: prefix_def)
  with find_below_removed [OF assms(2), of t zs] assms(1) show False by auto
qed

section \<open>Directories made on the way\<close>

text \<open>\<^verbatim>\<open>MkdirAll\<close> makes the directory and touches no file.\<close>

lemma mkdirs_dir: "mkdirs ns t = Inr t' \<Longrightarrow> \<exists>es. find_at t' ns = Inr (Dir es)"
proof (induction ns t arbitrary: t' rule: mkdirs.induct)
  case (3 n ns es)
  then show ?case by (auto simp: bindr_Inr_iff)
qed auto

lemma mkdirs_isdir: "mkdirs ns t = Inr t' \<Longrightarrow> (\<exists>es. t = Dir es) \<and> (\<exists>es. t' = Dir es)"
  by (induction ns t rule: mkdirs.induct) (auto simp: bindr_Inr_iff)

lemma mkdirs_files:
  "mkdirs ns t = Inr t' \<Longrightarrow> find_at t' qs = Inr (File c) \<longleftrightarrow> find_at t qs = Inr (File c)"
proof (induction ns t arbitrary: t' qs rule: mkdirs.induct)
  case (3 n ns es)
  obtain u where u: "mkdirs ns (case map_of es n of None \<Rightarrow> Dir [] | Some t \<Rightarrow> t) = Inr u"
    and t': "t' = Dir (insert_entry n u es)" using 3(2) by (auto simp: bindr_Inr_iff)
  show ?case
  proof (cases qs)
    case (Cons m ms)
    show ?thesis
    proof (cases "m = n")
      case True
      then show ?thesis using Cons t' 3(1) [OF u, of ms] by (cases ms) (auto split: option.splits)
    qed (simp add: Cons t')
  qed (simp add: t')
qed auto

lemma mkdirs_present:
  "find_at t ns = Inr (Dir es) \<Longrightarrow> \<exists>t'. mkdirs ns t = Inr t'"
proof (induction t ns rule: find_at.induct)
  case (3 es n ns)
  then show ?case by (auto split: option.splits)
qed auto

text \<open>A path that exists keeps existing, with the same kind of node.\<close>

lemma mkdirs_keeps_dir:
  "mkdirs ns t = Inr t' \<Longrightarrow> find_at t qs = Inr (Dir es) \<Longrightarrow> \<exists>es'. find_at t' qs = Inr (Dir es')"
proof (induction ns t arbitrary: t' qs rule: mkdirs.induct)
  case (3 n ns fs)
  obtain u where u: "mkdirs ns (case map_of fs n of None \<Rightarrow> Dir [] | Some t \<Rightarrow> t) = Inr u"
    and t': "t' = Dir (insert_entry n u fs)" using 3(2) by (auto simp: bindr_Inr_iff)
  show ?case
  proof (cases qs)
    case (Cons m ms)
    then show ?thesis using t' 3(1) [OF u, of ms] 3(3) by (auto split: option.splits)
  qed (simp add: t')
qed auto

text \<open>Directories beside the path, and everything in them, are as before.\<close>

lemma mkdirs_beside:
  "mkdirs ns t = Inr t' \<Longrightarrow> \<not> prefix qs ns \<Longrightarrow> \<not> prefix ns qs \<Longrightarrow> find_at t' qs = find_at t qs"
proof (induction ns t arbitrary: t' qs rule: mkdirs.induct)
  case (3 n ns fs)
  obtain u where u: "mkdirs ns (case map_of fs n of None \<Rightarrow> Dir [] | Some t \<Rightarrow> t) = Inr u"
    and t': "t' = Dir (insert_entry n u fs)" using 3(2) by (auto simp: bindr_Inr_iff)
  obtain m ms where qs: "qs = m # ms" using 3(3) by (cases qs) auto
  show ?case
  proof (cases "m = n")
    case True
    then have "\<not> prefix ms ns" "\<not> prefix ns ms" using 3(3,4) qs by auto
    moreover from this have "ms \<noteq> []" by auto
    ultimately show ?thesis using 3(1) [OF u, of ms] t' qs True
      by (auto split: option.splits simp: neq_Nil_conv)
  qed (simp add: qs t')
qed auto

text \<open>What the directories on the way become.\<close>

lemma mkdirs_above:
  "mkdirs (ps @ qs) t = Inr t' \<Longrightarrow>
   \<exists>u. find_at t' ps = Inr u \<and> mkdirs qs (case find_at t ps of Inr x \<Rightarrow> x | Inl _ \<Rightarrow> Dir []) = Inr u"
proof (induction ps arbitrary: t t')
  case (Cons n ns)
  obtain es where t: "t = Dir es" using mkdirs_isdir [OF Cons.prems] by blast
  obtain u where u: "mkdirs (ns @ qs) (case map_of es n of None \<Rightarrow> Dir [] | Some t \<Rightarrow> t) = Inr u"
    and t': "t' = Dir (insert_entry n u es)" using Cons.prems t by (auto simp: bindr_Inr_iff)
  have "(case find_at t (n # ns) of Inr x \<Rightarrow> x | Inl _ \<Rightarrow> Dir []) =
      (case find_at (case map_of es n of None \<Rightarrow> Dir [] | Some t \<Rightarrow> t) ns of Inr x \<Rightarrow> x | Inl _ \<Rightarrow> Dir [])"
    by (cases ns) (auto simp: t split: option.split)
  then show ?case using Cons.IH [OF u] by (simp add: t')
qed simp

text \<open>Making a directory puts nothing into it.\<close>

lemma mkdirs_child:
  assumes "mkdirs ps t = Inr t'" "find_at t' (ps @ [n]) = Inr x"
  shows "\<exists>y. find_at t (ps @ [n]) = Inr y"
proof -
  obtain u where u: "find_at t' ps = Inr u" "mkdirs [] (case find_at t ps of Inr x \<Rightarrow> x | Inl _ \<Rightarrow> Dir []) = Inr u"
    using mkdirs_above [of ps "[]" t t'] assms(1) by auto
  have v: "u = (case find_at t ps of Inr x \<Rightarrow> x | Inl _ \<Rightarrow> Dir [])"
    using u(2) by (cases "case find_at t ps of Inr x \<Rightarrow> x | Inl _ \<Rightarrow> Dir []") auto
  have "find_at u [n] = Inr x" using assms(2) u(1) by (simp add: find_at_append)
  then show ?thesis using v by (cases "find_at t ps") (auto simp: find_at_append)
qed

section \<open>Renaming\<close>

lemma rename_tree_moved:
  assumes "rename_tree a b d = Inr d'" "a \<noteq> b"
  obtains x es where "find_at d a = Inr x" "find_at d (butlast b) = Inr (Dir es)"
    "d' = update_at b (Some x) (update_at a None d)"
proof -
  obtain x where x: "find_at d a = Inr x" using assms(1) by (auto simp: rename_tree_def bindr_Inr_iff)
  obtain p where p: "find_at d (butlast b) = Inr p"
    using assms x by (auto simp: rename_tree_def bindr_Inr_iff split: if_splits)
  show ?thesis
  proof (cases p)
    case (Dir es)
    then have "d' = update_at b (Some x) (update_at a None d)"
      using assms x p by (auto simp: rename_tree_def split: if_splits sum.splits)
    then show ?thesis using that x p Dir by blast
  qed (use assms x p in \<open>auto simp: rename_tree_def split: if_splits\<close>)
qed

section \<open>Errors\<close>

lemma find_at_error: "find_at t ps = Inl e \<Longrightarrow> e = ErrIO \<or> e = ErrNotExist"
  by (induction t ps rule: find_at.induct) (auto split: option.splits)

lemma mkdirs_error: "mkdirs ps t = Inl e \<Longrightarrow> e = ErrIO"
  by (induction ps t rule: mkdirs.induct) (auto simp: bindr_Inl_iff)

lemma rename_error: "rename_tree a b t = Inl e \<Longrightarrow> e = ErrIO \<or> e = ErrNotExist"
  by (auto simp: rename_tree_def bindr_Inl_iff dest: find_at_error split: if_splits tree.splits sum.splits)
    (metis tree.exhaust)+

section \<open>Calls that only read\<close>

definition reading :: "('z, 'a) tree_io \<Rightarrow> bool" where
  "reading m \<longleftrightarrow> (\<forall>s r t. run_state m s = (r, t) \<longrightarrow> (\<exists>sc. t = s\<lparr>script := sc\<rparr>))"

lemma readingD: "reading m \<Longrightarrow> run_state m s = (r, t) \<Longrightarrow> \<exists>sc. t = s\<lparr>script := sc\<rparr>"
  by (simp add: reading_def)

lemma reading_return [simp, intro]: "reading (State_Monad.return x)"
  unfolding reading_def
proof (intro allI impI)
  fix s t :: "'z tree_fs_scheme" and r assume "run_state (State_Monad.return x) s = (r, t)"
  then have "t = s\<lparr>script := script s\<rparr>" by simp
  then show "\<exists>sc. t = s\<lparr>script := sc\<rparr>" ..
qed

lemma reading_bind [intro]:
  assumes "reading m" "\<And>x. reading (f x)"
  shows "reading (m \<bind> f)"
  unfolding reading_def
proof (intro allI impI)
  fix s r t assume run: "run_state (m \<bind> f) s = (r, t)"
  obtain x u where u: "run_state m s = (x, u)" by fastforce
  with run have "run_state (f x) u = (r, t)" by simp
  then show "\<exists>sc. t = s\<lparr>script := sc\<rparr>"
    using readingD [OF assms(1) u] readingD [OF assms(2)] by fastforce
qed

lemma reading_fs_read [simp, intro]: "reading (fs_read f)"
  by (auto simp: reading_def fs_read_def fs_call_def split: if_splits)

lemma reading_calls [simp, intro]: "reading (Stat_at p)" "reading Touch_at"
  by (simp_all add: Stat_at_def Touch_at_def)

lemma fs_read_result:
  "fst (run_state (fs_read f) s) = Inl ErrIO \<or> fst (run_state (fs_read f) s) = f (disk s)"
  by (simp add: fs_read_def fs_call_def)

lemma fs_read_ok: "script s = [] \<Longrightarrow> run_state (fs_read f) s = (f (disk s), s)"
  by (simp add: fs_read_def fs_call_def)

lemma Touch_result: "run_state Touch_at s = (Inl e, t) \<Longrightarrow> e = ErrIO"
  by (auto simp: Touch_at_def fs_read_def fs_call_def split: if_splits)

section \<open>Running calls\<close>

lemma fs_call_cases:
  assumes "run_state (fs_call f) s = (r, t)"
  obtains (fault) sc where "r = Inl ErrIO" "t = s\<lparr>script := sc\<rparr>"
    | (effect) d sc where "f (disk s) = (r, d)" "t = s\<lparr>disk := d, script := sc\<rparr>"
proof (cases "script s \<noteq> [] \<and> hd (script s)")
  case True
  then show ?thesis using assms fault by (auto simp: fs_call_def)
next
  case False
  obtain r' d where "f (disk s) = (r', d)" by fastforce
  then show ?thesis using False assms effect by (auto simp: fs_call_def)
qed

lemma fs_write_cases:
  assumes "run_state (fs_write f) s = (r, t)"
  obtains (failed) e sc where "r = Inl e" "t = s\<lparr>script := sc\<rparr>"
    | (written) d sc where "r = Inr ()" "f (disk s) = Inr d" "t = s\<lparr>disk := d, script := sc\<rparr>"
  using assms unfolding fs_write_def
proof (cases rule: fs_call_cases)
  case (fault sc)
  then show ?thesis using failed by simp
next
  case (effect d sc)
  then show ?thesis
    using failed [of _ sc] written [of d sc] by (cases "f (disk s)") auto
qed

lemma run_bindE:
  assumes "run_state (m \<bind> f) s = (r, t)"
  obtains x u where "run_state m s = (x, u)" "run_state (f x) u = (r, t)"
  using assms by (auto split: prod.splits)

end
