(* ===== verification/StoragePaths.thy ===== *)
theory StoragePaths
  imports TreeFS
begin

text \<open>
  Where the storage package keeps things, \<^verbatim>\<open>src/internal/storage/storage.go\<close>: the paths of a
  repository and of its sidecar directories below the storage root, and the path of a group. The
  lemmas give the components of each path, from which it follows
  that different repositories, sidecars and root groups never share one.
\<close>

section \<open>Operations\<close>

text \<open>\<open>working_dir\<close> is what \<^verbatim>\<open>os.Getwd\<close> reports; \<open>Root\<close> is the configured storage root.\<close>

record git_store =
  working_dir :: "string result"
  Root :: string

definition GitPath :: "git_store \<Rightarrow> repository \<Rightarrow> string result" where
  "GitPath s r = SafeJoin (working_dir s) (Root s) (Groups r @ [Name r @ ''.git''])"

definition LFSPath :: "git_store \<Rightarrow> repository \<Rightarrow> string result" where
  "LFSPath s r = SafeJoin (working_dir s) (Root s) (Groups r @ [Name r @ ''.lfs''])"

definition BuildPath :: "git_store \<Rightarrow> repository \<Rightarrow> string result" where
  "BuildPath s r = SafeJoin (working_dir s) (Root s) (Groups r @ [Name r @ ''.build''])"

definition ReviewPath :: "git_store \<Rightarrow> repository \<Rightarrow> string result" where
  "ReviewPath s r = SafeJoin (working_dir s) (Root s) (Groups r @ [Name r @ ''.reviews''])"

definition IssuePath :: "git_store \<Rightarrow> repository \<Rightarrow> string result" where
  "IssuePath s r = SafeJoin (working_dir s) (Root s) (Groups r @ [Name r @ ''.issues''])"

definition GroupPath :: "git_store \<Rightarrow> string \<Rightarrow> string result" where
  "GroupPath s grp = bindr (ParseGroup grp) (\<lambda>parts. SafeJoin (working_dir s) (Root s) parts)"

section \<open>Components of the paths\<close>

text \<open>The absolute components of the root, when the working directory is known and absolute.\<close>

definition store_parts :: "git_store \<Rightarrow> string list" where
  "store_parts s = (case working_dir s of Inr wd \<Rightarrow> abs_parts wd (Root s) | Inl _ \<Rightarrow> [])"

definition absolute_store :: "git_store \<Rightarrow> bool" where
  "absolute_store s \<longleftrightarrow> (case working_dir s of Inr wd \<Rightarrow> HasPrefix wd ''/'' | Inl _ \<Rightarrow> False)"

lemma store_join:
  assumes "absolute_store s" "es \<noteq> []" "list_all normal es"
  shows "SafeJoin (working_dir s) (Root s) es = Inr (rooted_path (store_parts s @ es))"
  using assms SafeJoin_normal [of _ es "Root s"]
  by (auto simp: absolute_store_def store_parts_def split: sum.splits)

lemma git_parts_normal: "absolute_store s \<Longrightarrow> list_all normal (store_parts s)"
  using abs_parts_normal by (auto simp: absolute_store_def store_parts_def split: sum.splits)

lemma normal_append: "valid p \<Longrightarrow> CHR ''/'' \<notin> set q \<Longrightarrow> 2 \<le> length q \<Longrightarrow> normal (p @ q)"
  using valid_no_slash [of p] by (auto simp: normal_def valid_def append_eq_Cons_conv split: if_splits)

text \<open>The directory of a repository with the given ending.\<close>

definition repository_parts :: "git_store \<Rightarrow> repository \<Rightarrow> string \<Rightarrow> string list" where
  "repository_parts s r ending = store_parts s @ Groups r @ [Name r @ ending]"

lemma wf_groups_normal: "wf_repository r \<Longrightarrow> list_all normal (Groups r)"
  using valid_normal by (auto simp: wf_repository_def list_all_iff)

lemma repository_parts_normal:
  assumes "absolute_store s" "wf_repository r" "CHR ''/'' \<notin> set ending" "2 \<le> length ending"
  shows "list_all normal (repository_parts s r ending)"
  using assms git_parts_normal wf_groups_normal normal_append [of "Name r" ending]
  by (simp add: repository_parts_def wf_repository_def)

lemma repository_path:
  assumes "absolute_store s" "wf_repository r" "CHR ''/'' \<notin> set ending" "2 \<le> length ending"
  shows "SafeJoin (working_dir s) (Root s) (Groups r @ [Name r @ ending]) =
    Inr (rooted_path (repository_parts s r ending))"
  using assms store_join [OF assms(1), of "Groups r @ [Name r @ ending]"] wf_groups_normal
    normal_append [of "Name r" ending]
  by (simp add: repository_parts_def wf_repository_def)

lemma repository_parts_inj:
  "repository_parts s r e = repository_parts s r' e \<longleftrightarrow> r = r'"
  by (cases r; cases r') (auto simp: repository_parts_def)

lemma root_group_path:
  assumes "absolute_store s" "wf_repository r"
  shows "GroupPath s (Repository_RootGroup r) = Inr (rooted_path (store_parts s @ [hd (Groups r)]))"
proof -
  obtain g gs where g: "Groups r = g # gs" "valid g"
    using assms(2) by (cases "Groups r") (auto simp: wf_repository_def)
  have "ParseGroup g = Inr [g]" using ParseGroup_Join [of "[g]"] g(2) by simp
  then show ?thesis
    using store_join [OF assms(1), of "[g]"] valid_normal [OF g(2)] g
    by (simp add: GroupPath_def Repository_RootGroup_def)
qed

end
