(* ===== verification/Lfs.thy ===== *)
theory Lfs
  imports StoragePaths RecordStore LfsPointer Control
begin

text \<open>
  The Git LFS server, \<^verbatim>\<open>src/internal/lfs/lfs.go\<close>: the batch interface with its quota decisions,
  uploads (admission with a quota reservation, staging with the digest check, publication),
  downloads, verification, and the walk that measures the storage of a root group. State passing
  is the state monad over the tree file system and the table of upload reservations. The closures
  of the handler (authorisation, policy, opening the Git repository) are fields of the request,
  with the number of the call as an argument because each call may answer differently; JSON
  decoding is a field of the handler. Replies carry the error value whose text is sent.
\<close>

section \<open>Data\<close>

definition maximumUploadBytes :: int where
  "maximumUploadBytes = 107374182400"

definition maximumMetadataBytes :: int where
  "maximumMetadataBytes = 1048576"

abbreviation ErrInvalidObject :: goerror where "ErrInvalidObject \<equiv> Sentinel ''invalid LFS object''"
abbreviation ErrObjectSizeMismatch :: goerror where "ErrObjectSizeMismatch \<equiv> Sentinel ''LFS object size mismatch''"
abbreviation ErrObjectStorage :: goerror where "ErrObjectStorage \<equiv> Sentinel ''LFS object storage error''"
abbreviation MaxBytesError :: goerror where "MaxBytesError \<equiv> Sentinel ''http: request body too large''"
abbreviation object_limit :: goerror where "object_limit \<equiv> Errorf ''object exceeds the group LFS object limit''"
abbreviation storage_limit :: goerror where "storage_limit \<equiv> Errorf ''object exceeds the group LFS storage limit''"

record action =
  Href :: string
  Header :: "(string \<times> string) list"

text \<open>\<open>Actions\<close> is \<^const>\<open>None\<close> for the nil map; an object decoded from a request may carry any of the fields.\<close>

record lfs_object =
  ObjectOID :: string
  ObjectSize :: int
  Actions :: "(string \<times> action) list option"
  ObjectError :: "(int \<times> string) option"

record batch_request =
  Operation :: string
  Transfers :: "string list"
  Objects :: "lfs_object list"

record verify_request =
  VerifyOID :: string
  VerifySize :: int

text \<open>What reading a JSON body to its end gives: too many bytes, something else wrong, or the value.\<close>

datatype 'a decoded = TooLarge | Malformed | Decoded 'a

text \<open>A request body: the bytes it delivers, then its end or an error.\<close>

type_synonym body = "string \<times> goerror option"

record authorization =
  authenticated :: bool
  allowed :: bool
  retry_after :: "int option"

record lfs_handler =
  Storage :: git_store
  PublicURL :: string
  lock_environment :: lock_env
  unicode_lower :: "string \<Rightarrow> string"
  decode_batch :: "body \<Rightarrow> batch_request decoded"
  decode_verify :: "body \<Rightarrow> verify_request decoded"

record lfs_request =
  URL_Path :: string
  Method :: string
  ContentLength :: int
  Body :: body
  Authorize :: "(nat \<Rightarrow> repository \<Rightarrow> bool \<Rightarrow> authorization) option"
  Policy :: "(nat \<Rightarrow> repository \<Rightarrow> lfs_policy result) option"
  PlainOpen :: "string \<Rightarrow> unit result"

text \<open>
  A reply: an error with its status and extra headers, a bare status, the objects of a batch, or a
  stored object (the node that was opened, and whether its contents are sent).
\<close>

datatype lfs_response =
    Failure int "(string \<times> string) list" goerror
  | StatusOnly int
  | BatchReply "lfs_object list"
  | ObjectReply string tree bool

record lfs_system = tree_fs +
  reserved :: "(string \<times> int) list"

type_synonym 'a lfs_io = "(lfs_system, 'a) state"

abbreviation fail_reply :: "int \<Rightarrow> goerror \<Rightarrow> lfs_response" where "fail_reply code e \<equiv> Failure code [] e"

definition NotFound :: lfs_response where
  "NotFound = Failure 404 [] (Errorf ''404 page not found'')"

section \<open>Object names and paths\<close>

definition validOID :: "(string \<Rightarrow> string) \<Rightarrow> string \<Rightarrow> bool" where
  "validOID lower s =
     (if length s \<noteq> 64 then False
      else (even (length s) \<and> list_all is_hex s) \<and> ToLower lower s = s)"

definition objectPath :: "git_store \<Rightarrow> repository \<Rightarrow> string \<Rightarrow> string result" where
  "objectPath store repo oid =
     bindr (LFSPath store repo) (\<lambda>root.
       SafeJoin (working_dir store) root [''objects'', take 2 oid, take 2 (drop 2 oid), oid])"

section \<open>Measuring the storage of a group\<close>

text \<open>
  The inner walk over an \<^verbatim>\<open>objects\<close> directory: every regular file whose name is an object id
  counts. Reading a directory and the second look at a file (\<^verbatim>\<open>Info\<close>) can fail.
\<close>

fun walk_objects :: "(string \<Rightarrow> string) \<Rightarrow> string \<Rightarrow> tree \<Rightarrow> int \<Rightarrow> ('z, int result) tree_io"
and walk_object_entries :: "(string \<Rightarrow> string) \<Rightarrow> (string \<times> tree) list \<Rightarrow> int \<Rightarrow> ('z, int result) tree_io"
where
  "walk_objects lower name (File c) tot =
     (if \<not> validOID lower name then State_Monad.return (Inr tot)
      else do {
        info \<leftarrow> Touch_at;
        case info of
          Inl err \<Rightarrow> State_Monad.return (Inl err)
        | Inr _ \<Rightarrow> State_Monad.return (Inr (wrap64 (tot + int (length c))))
      })"
| "walk_objects lower name (Dir es) tot = do {
     listed \<leftarrow> Touch_at;
     case listed of
       Inl err \<Rightarrow> State_Monad.return (if errors_is err ErrNotExist then Inr tot else Inl err)
     | Inr _ \<Rightarrow> walk_object_entries lower es tot
   }"
| "walk_object_entries lower [] tot = State_Monad.return (Inr tot)"
| "walk_object_entries lower ((n, t) # es) tot = do {
     r \<leftarrow> walk_objects lower n t tot;
     case r of Inl err \<Rightarrow> State_Monad.return (Inl err) | Inr tot' \<Rightarrow> walk_object_entries lower es tot'
   }"

text \<open>Where the outer walk skips a directory; \<open>is_root\<close> tells the group's own directory.\<close>

definition skipped_directory :: "bool \<Rightarrow> string \<Rightarrow> bool" where
  "skipped_directory is_root name \<longleftrightarrow>
     (\<not> is_root \<and> HasPrefix name ''.'') \<or>
     HasSuffix name ''.git'' \<or> HasSuffix name ''.build'' \<or> HasSuffix name ''.reviews'' \<or>
     (\<not> HasSuffix name ''.lfs'' \<and> \<not> is_root \<and> (case ParseGroup name of Inl _ \<Rightarrow> True | Inr _ \<Rightarrow> False))"

fun walk_group :: "(string \<Rightarrow> string) \<Rightarrow> bool \<Rightarrow> string \<Rightarrow> tree \<Rightarrow> int \<Rightarrow> ('z, int result) tree_io"
and walk_group_entries :: "(string \<Rightarrow> string) \<Rightarrow> (string \<times> tree) list \<Rightarrow> int \<Rightarrow> ('z, int result) tree_io"
where
  "walk_group lower is_root name (File c) tot = State_Monad.return (Inr tot)"
| "walk_group lower is_root name (Dir es) tot =
     (if skipped_directory is_root name then State_Monad.return (Inr tot)
      else if HasSuffix name ''.lfs'' then do {
        objects \<leftarrow> fs_read (\<lambda>_. find_at (Dir es) [''objects'']);
        case objects of
          Inl err \<Rightarrow> State_Monad.return (if errors_is err ErrNotExist then Inr tot else Inl err)
        | Inr t \<Rightarrow> walk_objects lower ''objects'' t tot
      }
      else do {
        listed \<leftarrow> Touch_at;
        case listed of
          Inl err \<Rightarrow> State_Monad.return (Inl err)
        | Inr _ \<Rightarrow> walk_group_entries lower es tot
      })"
| "walk_group_entries lower [] tot = State_Monad.return (Inr tot)"
| "walk_group_entries lower ((n, t) # es) tot = do {
     r \<leftarrow> walk_group lower False n t tot;
     case r of Inl err \<Rightarrow> State_Monad.return (Inl err) | Inr tot' \<Rightarrow> walk_group_entries lower es tot'
   }"

definition groupStorageUsage :: "lfs_handler \<Rightarrow> string \<Rightarrow> ('z, int result) tree_io" where
  "groupStorageUsage h grp =
     (case GroupPath (Storage h) grp of
        Inl err \<Rightarrow> State_Monad.return (Inl err)
      | Inr root \<Rightarrow> do {
          info \<leftarrow> Stat_at root;
          case info of
            Inl err \<Rightarrow> State_Monad.return (Inl err)
          | Inr t \<Rightarrow> walk_group (unicode_lower h) True (last (path_parts root)) t 0
        })"

section \<open>Authorisation and policy\<close>

definition authorize :: "lfs_request \<Rightarrow> nat \<Rightarrow> repository \<Rightarrow> bool \<Rightarrow> lfs_response + unit" where
  "authorize r call repo write =
     (case Authorize r of
        None \<Rightarrow> Inr ()
      | Some f \<Rightarrow>
          let a = f call repo write in
          if allowed a then Inr ()
          else case retry_after a of
            Some retryAfter \<Rightarrow>
              let seconds = max 1 (wrap64 (wrap64 (retryAfter + second) - 1) div second) in
              Inl (Failure 429 [(''Retry-After'', print_nat (nat seconds))] (Errorf ''too many authentication attempts''))
          | None \<Rightarrow>
              if \<not> authenticated a
              then Inl (Failure 401 [(''WWW-Authenticate'', ''Basic realm=\"GitOne\"'')] (Errorf ''authentication required''))
              else Inl (fail_reply 403 (Errorf ''forbidden'')))"

definition policy :: "lfs_request \<Rightarrow> nat \<Rightarrow> repository \<Rightarrow> lfs_response + lfs_policy" where
  "policy r call repo =
     (case Policy r of
        None \<Rightarrow> Inr \<lparr>Enabled = True, MaximumObjectBytes = 0, MaximumStorageBytes = 0\<rparr>
      | Some f \<Rightarrow>
          (case f call repo of
             Inl _ \<Rightarrow> Inl (fail_reply 500 (Errorf ''could not load group LFS policy''))
           | Inr p \<Rightarrow>
               if \<not> Enabled p then Inl (fail_reply 403 (Errorf ''Git LFS is disabled for this group''))
               else Inr p))"

section \<open>The batch interface\<close>

definition pendingBytes :: "(string \<times> int) list \<Rightarrow> int" where
  "pendingBytes objects = fold (\<lambda>(_, size) tot. wrap64 (tot + size)) objects 0"

text \<open>The size of a regular file; that of a directory is nowhere looked at.\<close>

definition node_size :: "tree \<Rightarrow> int" where
  "node_size t = (case t of File c \<Rightarrow> int (length c) | Dir es \<Rightarrow> 0)"

definition is_regular :: "tree \<Rightarrow> bool" where
  "is_regular t \<longleftrightarrow> (case t of File _ \<Rightarrow> True | Dir _ \<Rightarrow> False)"

definition add_action :: "string \<Rightarrow> string \<Rightarrow> lfs_object \<Rightarrow> lfs_object" where
  "add_action name href o' =
     o'\<lparr>Actions := Some (AList.update name \<lparr>Href = href, Header = []\<rparr> (case Actions o' of None \<Rightarrow> [] | Some as \<Rightarrow> as))\<rparr>"

text \<open>The quota decision for an object that is asked for upload and not stored yet.\<close>

definition admit_object ::
    "lfs_policy \<Rightarrow> int \<Rightarrow> (string \<times> int) list \<Rightarrow> string \<Rightarrow> string \<Rightarrow> lfs_object \<Rightarrow> lfs_object \<times> (string \<times> int) list" where
  "admit_object pol storageBytes pending base verifyURL ob =
     (let additionalBytes = (if map_of pending (ObjectOID ob) = None then ObjectSize ob else 0) in
      if MaximumObjectBytes pol > 0 \<and> ObjectSize ob > MaximumObjectBytes pol
      then (ob\<lparr>ObjectError := Some (422, ''object exceeds the group LFS object limit'')\<rparr>, pending)
      else if MaximumStorageBytes pol > 0 \<and> ObjectSize ob > MaximumStorageBytes pol
      then (ob\<lparr>ObjectError := Some (422, ''object exceeds the group LFS storage limit'')\<rparr>, pending)
      else if MaximumStorageBytes pol > 0 \<and>
        wrap64 (wrap64 (storageBytes + pendingBytes pending) + additionalBytes) > MaximumStorageBytes pol
      then (ob\<lparr>ObjectError := Some (422, ''object exceeds the group LFS storage limit'')\<rparr>, pending)
      else (add_action ''verify'' verifyURL (add_action ''upload'' base ob),
            AList.update (ObjectOID ob) (ObjectSize ob) pending))"

text \<open>One turn of the loop, after the object was looked up.\<close>

definition batch_object ::
    "string \<Rightarrow> lfs_policy \<Rightarrow> int \<Rightarrow> (string \<times> int) list \<Rightarrow> string \<Rightarrow> string \<Rightarrow> tree result \<Rightarrow> lfs_object \<Rightarrow>
     lfs_object \<times> (string \<times> int) list" where
  "batch_object operation pol storageBytes pending base verifyURL info ob0 =
     (let ob = ob0\<lparr>Actions := Some []\<rparr>;
          missing = (case info of Inl e \<Rightarrow> errors_is e ErrNotExist | Inr _ \<Rightarrow> False) in
      if (case info of Inl e \<Rightarrow> \<not> errors_is e ErrNotExist | Inr _ \<Rightarrow> False)
      then (ob\<lparr>ObjectError := Some (500, ''could not inspect object''), Actions := None\<rparr>, pending)
      else if (case info of Inl _ \<Rightarrow> False | Inr t \<Rightarrow> \<not> is_regular t \<or> node_size t \<noteq> ObjectSize ob)
      then (ob\<lparr>ObjectError := Some (422, ''stored object size does not match requested size''), Actions := None\<rparr>, pending)
      else case (if operation = ''upload'' \<and> missing
                 then admit_object pol storageBytes pending base verifyURL ob else (ob, pending)) of
        (ob, pending) \<Rightarrow>
          let ob = (if operation = ''download''
                    then if missing then ob\<lparr>ObjectError := Some (404, ''object not found'')\<rparr>
                         else add_action ''download'' base ob
                    else ob)
          in (if Actions ob = Some [] then ob\<lparr>Actions := None\<rparr> else ob, pending))"

definition object_url :: "lfs_handler \<Rightarrow> repository \<Rightarrow> string \<Rightarrow> string" where
  "object_url h repo name =
     rev (dropWhile (\<lambda>c. c = CHR ''/'') (rev (PublicURL h))) @ ''/'' @ Full repo @ ''.git/info/lfs/objects/'' @ name"

fun batch_loop ::
    "lfs_handler \<Rightarrow> repository \<Rightarrow> string \<Rightarrow> lfs_policy \<Rightarrow> int \<Rightarrow> (string \<times> int) list \<Rightarrow> lfs_object list \<Rightarrow> lfs_object list lfs_io" where
  "batch_loop h repo operation pol storageBytes pending [] = State_Monad.return []"
| "batch_loop h repo operation pol storageBytes pending (ob # obs) =
     (if \<not> validOID (unicode_lower h) (ObjectOID ob) \<or> ObjectSize ob < 0 then do {
        rest \<leftarrow> batch_loop h repo operation pol storageBytes pending obs;
        State_Monad.return (ob\<lparr>ObjectError := Some (422, ''invalid object'')\<rparr> # rest)
      }
      else do {
        info \<leftarrow> Stat_at (case objectPath (Storage h) repo (ObjectOID ob) of Inl _ \<Rightarrow> [] | Inr p \<Rightarrow> p);
        case batch_object operation pol storageBytes pending (object_url h repo (ObjectOID ob))
            (object_url h repo ''verify'') info ob of
          (ob', pending') \<Rightarrow> do {
            rest \<leftarrow> batch_loop h repo operation pol storageBytes pending' obs;
            State_Monad.return (ob' # rest)
          }
      })"

definition batch :: "lfs_handler \<Rightarrow> lfs_request \<Rightarrow> repository \<Rightarrow> lfs_response lfs_io" where
  "batch h r repo =
     (case decode_batch h (Body r) of
        TooLarge \<Rightarrow> State_Monad.return (fail_reply 413 (Errorf ''LFS batch request is too large''))
      | Malformed \<Rightarrow> State_Monad.return (fail_reply 400 (Errorf ''invalid JSON''))
      | Decoded q \<Rightarrow>
          (case authorize r 0 repo (Operation q = ''upload'') of
             Inl reply \<Rightarrow> State_Monad.return reply
           | Inr _ \<Rightarrow>
               if Operation q \<noteq> ''upload'' \<and> Operation q \<noteq> ''download''
               then State_Monad.return (fail_reply 422 (Errorf ''unsupported LFS operation''))
               else case policy r 0 repo of
                 Inl reply \<Rightarrow> State_Monad.return reply
               | Inr pol \<Rightarrow> do {
                   usage \<leftarrow> (if Operation q = ''upload'' \<and> MaximumStorageBytes pol > 0
                            then groupStorageUsage h (Repository_RootGroup repo) else State_Monad.return (Inr 0));
                   case usage of
                     Inl _ \<Rightarrow> State_Monad.return (fail_reply 500 (Errorf ''could not inspect LFS storage''))
                   | Inr storageBytes \<Rightarrow> do {
                       objects \<leftarrow> batch_loop h repo (Operation q) pol storageBytes [] (Objects q);
                       State_Monad.return (BatchReply objects)
                     }
                 }))"

section \<open>Verification\<close>

definition OpenObject :: "lfs_handler \<Rightarrow> repository \<Rightarrow> string \<Rightarrow> ('z, tree result) tree_io" where
  "OpenObject h repo oid =
     (if \<not> validOID (unicode_lower h) oid then State_Monad.return (Inl ErrInvalidObject)
      else case objectPath (Storage h) repo oid of
        Inl err \<Rightarrow> State_Monad.return (Inl err)
      | Inr path \<Rightarrow> Stat_at path)"

definition VerifyObject :: "lfs_handler \<Rightarrow> repository \<Rightarrow> string \<Rightarrow> int \<Rightarrow> ('z, unit result) tree_io" where
  "VerifyObject h repo oid expectedSize =
     (if \<not> validOID (unicode_lower h) oid \<or> expectedSize < 0 then State_Monad.return (Inl ErrInvalidObject)
      else do {
        opened \<leftarrow> OpenObject h repo oid;
        case opened of
          Inl err \<Rightarrow> State_Monad.return (Inl
            (if errors_is err ErrNotExist then Wrap (''LFS object '' @ oid @ '' not found'') ErrNotExist
             else Wrap (''could not open object '' @ oid) ErrObjectStorage))
        | Inr file \<Rightarrow> do {
            info \<leftarrow> Touch_at;
            case info of
              Inl _ \<Rightarrow> State_Monad.return (Inl (Wrap (''could not inspect object '' @ oid) ErrObjectStorage))
            | Inr _ \<Rightarrow> State_Monad.return
                (if \<not> is_regular file then Inl (Wrap ''stored object is not a regular file'' ErrInvalidObject)
                 else if node_size file \<noteq> expectedSize
                 then Inl (Wrap (''expected '' @ print_nat (nat expectedSize) @ '' bytes, found '' @ print_nat (nat (node_size file)))
                        ErrObjectSizeMismatch)
                 else Inr ())
          }
      })"

definition verify :: "lfs_handler \<Rightarrow> lfs_request \<Rightarrow> repository \<Rightarrow> lfs_response lfs_io" where
  "verify h r repo =
     (if Method r \<noteq> ''POST'' then State_Monad.return (StatusOnly 405)
      else case authorize r 0 repo True of
        Inl reply \<Rightarrow> State_Monad.return reply
      | Inr _ \<Rightarrow>
          (case policy r 0 repo of
             Inl reply \<Rightarrow> State_Monad.return reply
           | Inr _ \<Rightarrow>
               (case decode_verify h (Body r) of
                  TooLarge \<Rightarrow> State_Monad.return (fail_reply 413 (Errorf ''LFS verify request is too large''))
                | Malformed \<Rightarrow> State_Monad.return (fail_reply 400 (Errorf ''invalid JSON''))
                | Decoded q \<Rightarrow> do {
                    checked \<leftarrow> VerifyObject h repo (VerifyOID q) (VerifySize q);
                    State_Monad.return (case checked of
                      Inl err \<Rightarrow>
                        if errors_is err ErrNotExist then fail_reply 404 (Errorf ''object not found'')
                        else if errors_is err ErrInvalidObject \<or> errors_is err ErrObjectSizeMismatch then fail_reply 422 err
                        else fail_reply 500 (Errorf ''could not inspect LFS object'')
                    | Inr _ \<Rightarrow> StatusOnly 200)
                  })))"

section \<open>Quota reservations\<close>

definition reserved_bytes :: "lfs_system \<Rightarrow> string \<Rightarrow> int" where
  "reserved_bytes s key = (case map_of (reserved s) key of None \<Rightarrow> 0 | Some n \<Rightarrow> n)"

text \<open>
  The result is the number of bytes the upload may stage and, where bytes were set aside, the
  reservation that the returned closure gives back.
\<close>

definition reserve ::
    "string \<Rightarrow> int \<Rightarrow> int \<Rightarrow> int \<Rightarrow> int \<Rightarrow> (int \<times> (string \<times> int) option) result lfs_io" where
  "reserve key usage quota maximum contentLength = State (\<lambda>s.
     let available =
           (if usage < quota then
              let room = wrap64 (quota - usage) in
              if reserved_bytes s key < room then wrap64 (room - reserved_bytes s key) else 0
            else 0);
         reservation =
           (if contentLength \<ge> 0 then contentLength
            else if maximum > available then available else maximum)
     in if contentLength \<ge> 0 \<and> contentLength > available then (Inl storage_limit, s)
        else if reservation = 0 then (Inr (0, None), s)
        else (Inr (reservation, Some (key, reservation)),
              s\<lparr>reserved := AList.update key (wrap64 (reserved_bytes s key + reservation)) (reserved s)\<rparr>))"

text \<open>The closure; it runs at most once, so a reservation that was given back is \<^const>\<open>None\<close> from then on.\<close>

definition release :: "(string \<times> int) option \<Rightarrow> unit lfs_io" where
  "release reservation = (case reservation of
     None \<Rightarrow> State_Monad.return ()
   | Some (key, amount) \<Rightarrow> State (\<lambda>s.
       let left = wrap64 (reserved_bytes s key - amount)
       in ((), s\<lparr>reserved := (if left = 0 then AList.delete key (reserved s) else AList.update key left (reserved s))\<rparr>)))"

section \<open>Uploads\<close>

text \<open>
  An upload has three sections. Admission runs under the group's LFS lock, staging under no lock,
  publication under the repository lock and the LFS lock; each section is one definition here.
  What passes from one to the next is the \<open>grant\<close> and the staged file.
\<close>

record grant =
  stage_limit :: int
  limit_error :: goerror
  reservation :: "(string \<times> int) option"

definition admit :: "lfs_handler \<Rightarrow> lfs_request \<Rightarrow> repository \<Rightarrow> (lfs_response + grant) lfs_io" where
  "admit h r repo =
     (case policy r 1 repo of
        Inl reply \<Rightarrow> State_Monad.return (Inl reply)
      | Inr early \<Rightarrow>
          if MaximumObjectBytes early > 0 \<and> ContentLength r > MaximumObjectBytes early
          then State_Monad.return (Inl (fail_reply 422 object_limit))
          else if MaximumStorageBytes early > 0 \<and> ContentLength r > MaximumStorageBytes early
          then State_Monad.return (Inl (fail_reply 422 storage_limit))
          else case normalizeRequests (LFSRequests (lock_environment h) (Root (Storage h)) (Repository_RootGroup repo)) of
            Inl _ \<Rightarrow> State_Monad.return (Inl (fail_reply 500 (Errorf ''could not lock LFS quota admission'')))
          | Inr _ \<Rightarrow>
              (case policy r 2 repo of
                 Inl reply \<Rightarrow> State_Monad.return (Inl reply)
               | Inr pol \<Rightarrow>
                   let stageLimit = (if MaximumObjectBytes pol > 0 \<and> MaximumObjectBytes pol < maximumUploadBytes
                                     then MaximumObjectBytes pol else maximumUploadBytes) in
                   if ContentLength r \<ge> 0 \<and> ContentLength r > stageLimit
                   then State_Monad.return (Inl (fail_reply 422 object_limit))
                   else if \<not> MaximumStorageBytes pol > 0
                   then State_Monad.return (Inr \<lparr>stage_limit = stageLimit, limit_error = object_limit, reservation = None\<rparr>)
                   else do {
                     measured \<leftarrow> groupStorageUsage h (Repository_RootGroup repo);
                     case measured of
                       Inl _ \<Rightarrow> State_Monad.return (Inl (fail_reply 500 (Errorf ''could not inspect LFS storage'')))
                     | Inr usage \<Rightarrow>
                         (case GroupPath (Storage h) (Repository_RootGroup repo) of
                            Inl _ \<Rightarrow> State_Monad.return (Inl (fail_reply 400 (Errorf ''bad path'')))
                          | Inr groupRoot \<Rightarrow> do {
                              granted \<leftarrow> reserve groupRoot usage (MaximumStorageBytes pol) stageLimit (ContentLength r);
                              case granted of
                                Inl err \<Rightarrow> State_Monad.return (Inl (fail_reply 422 err))
                              | Inr (limit, res) \<Rightarrow> State_Monad.return (Inr
                                  \<lparr>stage_limit = limit,
                                   limit_error =
                                     (if limit < maximumUploadBytes \<and> (MaximumObjectBytes pol = 0 \<or> limit < MaximumObjectBytes pol)
                                      then storage_limit else object_limit),
                                   reservation = res\<rparr>)
                            })
                   }))"

text \<open>
  The staging section. The copy stops at the limit and one more byte is asked for; a body that
  has it is too long. A failed write leaves the temporary file for the removal that follows.
\<close>

definition discard :: "string \<Rightarrow> goerror \<Rightarrow> ('z, 'a result) tree_io" where
  "discard name err = do { _ \<leftarrow> Remove_at name; State_Monad.return (Inl err) }"

definition stageUpload :: "lfs_handler \<Rightarrow> lfs_request \<Rightarrow> string \<Rightarrow> int \<Rightarrow> goerror \<Rightarrow> (string \<times> int) result lfs_io" where
  "stageUpload h r oid limit limitError =
     (case SafeJoin (working_dir (Storage h)) (Root (Storage h)) [''.gitone'', ''uploads''] of
        Inl err \<Rightarrow> State_Monad.return (Inl err)
      | Inr root \<Rightarrow> do {
          made \<leftarrow> MkdirAll_at root;
          case made of
            Inl err \<Rightarrow> State_Monad.return (Inl err)
          | Inr _ \<Rightarrow> do {
              created \<leftarrow> CreateTemp_at root ''object-'';
              case created of
                Inl err \<Rightarrow> State_Monad.return (Inl err)
              | Inr name \<Rightarrow> do {
                  let contents = take (nat limit) (fst (Body r));
                  written \<leftarrow> Write_at name contents;
                  case (case written of
                          Inl err \<Rightarrow> Some err
                        | Inr _ \<Rightarrow> if length (fst (Body r)) > nat limit then Some limitError else snd (Body r)) of
                    Some err \<Rightarrow> discard name err
                  | None \<Rightarrow> do {
                      synced \<leftarrow> Touch_at;
                      case synced of
                        Inl err \<Rightarrow> discard name err
                      | Inr _ \<Rightarrow> do {
                          closed \<leftarrow> Touch_at;
                          case closed of
                            Inl err \<Rightarrow> discard name err
                          | Inr _ \<Rightarrow>
                              if sha256_hex (lock_environment h) contents \<noteq> oid
                              then discard name (Errorf ''sha256 mismatch'')
                              else State_Monad.return (Inr (name, int (length contents)))
                        }
                    }
                }
            }
        })"

text \<open>What the client sees of a staging error.\<close>

definition stage_reply :: "goerror \<Rightarrow> lfs_response" where
  "stage_reply err =
     (if errors_is err MaxBytesError then fail_reply 413 (Errorf ''LFS object is too large'') else fail_reply 422 err)"

definition publishUpload ::
    "lfs_handler \<Rightarrow> repository \<Rightarrow> string \<Rightarrow> string \<Rightarrow> int \<Rightarrow> lfs_policy \<Rightarrow> unit result lfs_io" where
  "publishUpload h repo p stagedPath stagedSize pol = do {
     found \<leftarrow> Stat_at p;
     case found of
       Inr _ \<Rightarrow> State_Monad.return (Inr ())
     | Inl _ \<Rightarrow> do {
         usage \<leftarrow> (if MaximumStorageBytes pol > 0 then groupStorageUsage h (Repository_RootGroup repo)
                  else State_Monad.return (Inr 0));
         case usage of
           Inl err \<Rightarrow> State_Monad.return (Inl err)
         | Inr used \<Rightarrow>
             if MaximumStorageBytes pol > 0 \<and> wrap64 (used + stagedSize) > MaximumStorageBytes pol
             then State_Monad.return (Inl storage_limit)
             else do {
               made \<leftarrow> MkdirAll_at (path_Dir p);
               case made of
                 Inl err \<Rightarrow> State_Monad.return (Inl err)
               | Inr _ \<Rightarrow> do {
                   again \<leftarrow> Stat_at p;
                   case again of
                     Inr _ \<Rightarrow> State_Monad.return (Inr ())
                   | Inl _ \<Rightarrow> Rename_at stagedPath p
                 }
             }
       }
   }"

text \<open>The publication section: the reply, and the reservation that is still to be given back.\<close>

definition publish ::
    "lfs_handler \<Rightarrow> lfs_request \<Rightarrow> repository \<Rightarrow> string \<Rightarrow> string \<Rightarrow> int \<Rightarrow> (string \<times> int) option \<Rightarrow>
     (lfs_response \<times> (string \<times> int) option) lfs_io" where
  "publish h r repo oid stagedPath stagedSize res =
     (let requests = RepositoryRequests (lock_environment h) (Root (Storage h)) [repo] Shared @
            LFSRequests (lock_environment h) (Root (Storage h)) (Repository_RootGroup repo) in
      case normalizeRequests requests of
        Inl _ \<Rightarrow> State_Monad.return (fail_reply 500 (Errorf ''could not lock repository operations''), res)
      | Inr _ \<Rightarrow>
          (case authorize r 1 repo True of
             Inl reply \<Rightarrow> State_Monad.return (reply, res)
           | Inr _ \<Rightarrow>
               (case policy r 3 repo of
                  Inl reply \<Rightarrow> State_Monad.return (reply, res)
                | Inr pol \<Rightarrow>
                    (case GitPath (Storage h) repo of
                       Inl _ \<Rightarrow> State_Monad.return (fail_reply 400 (Errorf ''bad path''), res)
                     | Inr gitPath \<Rightarrow>
                         (case PlainOpen r gitPath of
                            Inl _ \<Rightarrow> State_Monad.return (NotFound, res)
                          | Inr _ \<Rightarrow>
                              (case objectPath (Storage h) repo oid of
                                 Inl _ \<Rightarrow> State_Monad.return (fail_reply 400 (Errorf ''bad path''), res)
                               | Inr p \<Rightarrow>
                                   if MaximumObjectBytes pol > 0 \<and> stagedSize > MaximumObjectBytes pol
                                   then State_Monad.return (fail_reply 422 object_limit, res)
                                   else do {
                                     published \<leftarrow> publishUpload h repo p stagedPath stagedSize pol;
                                     case published of
                                       Inl err \<Rightarrow> State_Monad.return (fail_reply 422 err, res)
                                     | Inr _ \<Rightarrow> do {
                                         _ \<leftarrow> release res;
                                         State_Monad.return (StatusOnly 200, None)
                                       }
                                   }))))))"

text \<open>The deferred clean-up of an upload that was staged.\<close>

definition leave_upload :: "string \<Rightarrow> (string \<times> int) option \<Rightarrow> unit lfs_io" where
  "leave_upload stagedPath res = do { _ \<leftarrow> Remove_at stagedPath; release res }"

definition put_object :: "lfs_handler \<Rightarrow> lfs_request \<Rightarrow> repository \<Rightarrow> string \<Rightarrow> lfs_response lfs_io" where
  "put_object h r repo oid = do {
     admitted \<leftarrow> admit h r repo;
     case admitted of
       Inl reply \<Rightarrow> State_Monad.return reply
     | Inr g \<Rightarrow> do {
         staged \<leftarrow> stageUpload h r oid (stage_limit g) (limit_error g);
         case staged of
           Inl err \<Rightarrow> do { _ \<leftarrow> release (reservation g); State_Monad.return (stage_reply err) }
         | Inr (stagedPath, stagedSize) \<Rightarrow> do {
             result \<leftarrow> publish h r repo oid stagedPath stagedSize (reservation g);
             _ \<leftarrow> leave_upload stagedPath (snd result);
             State_Monad.return (fst result)
           }
       }
   }"

section \<open>Requests\<close>

definition object_request :: "lfs_handler \<Rightarrow> lfs_request \<Rightarrow> repository \<Rightarrow> string \<Rightarrow> lfs_response lfs_io" where
  "object_request h r repo oid =
     (if \<not> validOID (unicode_lower h) oid then State_Monad.return (fail_reply 400 (Errorf ''invalid oid''))
      else if Method r = ''PUT'' then put_object h r repo oid
      else if Method r = ''GET'' \<or> Method r = ''HEAD'' then
        (case objectPath (Storage h) repo oid of
           Inl _ \<Rightarrow> State_Monad.return (fail_reply 400 (Errorf ''bad path''))
         | Inr p \<Rightarrow> do {
             opened \<leftarrow> Stat_at p;
             case opened of
               Inl err \<Rightarrow> State_Monad.return
                 (if errors_is err ErrNotExist then NotFound else fail_reply 500 (Errorf ''storage error''))
             | Inr file \<Rightarrow> do {
                 info \<leftarrow> Touch_at;
                 case info of
                   Inl _ \<Rightarrow> State_Monad.return (fail_reply 500 (Errorf ''storage error''))
                 | Inr _ \<Rightarrow> State_Monad.return (ObjectReply oid file (Method r = ''GET''))
               }
           })
      else State_Monad.return (StatusOnly 405))"

text \<open>The body limit of \<^verbatim>\<open>httpio.Protect\<close>: reading past it gives an error.\<close>

definition protect_body :: "int \<Rightarrow> body \<Rightarrow> body" where
  "protect_body maximum b =
     (if maximum \<ge> 0 \<and> length (fst b) > nat maximum then (take (nat maximum) (fst b), Some MaxBytesError) else b)"

definition body_limit :: "lfs_request \<Rightarrow> string \<Rightarrow> int" where
  "body_limit r suff =
     (if suff = ''/info/lfs/objects/batch'' \<or> suff = ''/info/lfs/objects/verify'' then maximumMetadataBytes
      else if HasPrefix suff ''/info/lfs/objects/'' \<and> Method r = ''PUT'' then maximumUploadBytes else 0)"

definition ServeHTTP :: "lfs_handler \<Rightarrow> lfs_request \<Rightarrow> lfs_response lfs_io" where
  "ServeHTTP h r0 =
     (case ParseGitRequestPath (URL_Path r0) of
        Inl e \<Rightarrow> State_Monad.return (fail_reply 400 e)
      | Inr (repo, suff) \<Rightarrow>
          let maximumBodyBytes = body_limit r0 suff; r = r0\<lparr>Body := protect_body maximumBodyBytes (Body r0)\<rparr> in
          if Name repo = ''control'' then State_Monad.return NotFound
          else if ContentLength r > maximumBodyBytes
          then State_Monad.return (fail_reply 413 (Errorf ''LFS request body is too large''))
          else if suff = ''/info/lfs/objects/batch'' then batch h r repo
          else if suff = ''/info/lfs/objects/verify'' then verify h r repo
          else if HasPrefix suff ''/info/lfs/objects/'' then
            (case authorize r 0 repo (Method r = ''PUT'') of
               Inl reply \<Rightarrow> State_Monad.return reply
             | Inr _ \<Rightarrow>
                 (case policy r 0 repo of
                    Inl reply \<Rightarrow> State_Monad.return reply
                  | Inr _ \<Rightarrow> object_request h r repo (TrimPrefix suff ''/info/lfs/objects/'')))
          else State_Monad.return NotFound)"

end
