(* ===== verification/LfsLaws.thy ===== *)
theory LfsLaws
  imports Lfs
begin

text \<open>
  Facts about the LFS handler that the properties rest on: what the storage walk counts, how the
  count reacts to changes of the tree, and what each section of an upload does to the disk and to
  the reservations, whatever the fault script says.
\<close>

section \<open>The bytes of a group\<close>

text \<open>What the walks count, as functions of the tree.\<close>

fun object_bytes :: "(string \<Rightarrow> string) \<Rightarrow> string \<Rightarrow> tree \<Rightarrow> int"
and object_bytes_entries :: "(string \<Rightarrow> string) \<Rightarrow> (string \<times> tree) list \<Rightarrow> int" where
  "object_bytes lower name (File c) = (if validOID lower name then int (length c) else 0)"
| "object_bytes lower name (Dir es) = object_bytes_entries lower es"
| "object_bytes_entries lower [] = 0"
| "object_bytes_entries lower ((n, t) # es) = object_bytes lower n t + object_bytes_entries lower es"

fun group_bytes :: "(string \<Rightarrow> string) \<Rightarrow> bool \<Rightarrow> string \<Rightarrow> tree \<Rightarrow> int"
and group_bytes_entries :: "(string \<Rightarrow> string) \<Rightarrow> (string \<times> tree) list \<Rightarrow> int" where
  "group_bytes lower is_root name (File c) = 0"
| "group_bytes lower is_root name (Dir es) =
     (if skipped_directory is_root name then 0
      else if HasSuffix name ''.lfs'' then
        (case map_of es ''objects'' of None \<Rightarrow> 0 | Some t \<Rightarrow> object_bytes lower ''objects'' t)
      else group_bytes_entries lower es)"
| "group_bytes_entries lower [] = 0"
| "group_bytes_entries lower ((n, t) # es) = group_bytes lower False n t + group_bytes_entries lower es"

lemma object_bytes_sum: "object_bytes_entries lower es = sum_list (map (\<lambda>(n, t). object_bytes lower n t) es)"
  by (induction es) auto

lemma group_bytes_sum: "group_bytes_entries lower es = sum_list (map (\<lambda>(n, t). group_bytes lower False n t) es)"
  by (induction es) auto

lemma object_bytes_nonneg: "0 \<le> object_bytes lower name t" "0 \<le> object_bytes_entries lower es"
  by (induction lower name t and lower es rule: object_bytes_object_bytes_entries.induct) auto

lemma group_bytes_nonneg: "0 \<le> group_bytes lower is_root name t" "0 \<le> group_bytes_entries lower es"
  by (induction lower is_root name t and lower es rule: group_bytes_group_bytes_entries.induct)
    (auto simp: object_bytes_nonneg split: option.split)

text \<open>A file put somewhere adds at most its own size; removing something adds nothing.\<close>

lemma object_bytes_update:
  "object_bytes lower name (update_at ps (Some (File c)) t) \<le> object_bytes lower name t + int (length c)"
proof (induction ps "Some (File c)" t arbitrary: name rule: update_at.induct)
  case (1 t)
  then show ?case using object_bytes_nonneg(1) [of lower name t] by simp
next
  case (3 n ns es)
  show ?case
  proof (cases "ns = []")
    case True
    have "0 \<le> (case map_of es n of None \<Rightarrow> 0 | Some y \<Rightarrow> object_bytes lower n y)"
      using object_bytes_nonneg(1) by (auto split: option.split)
    moreover have "object_bytes lower n (File c) \<le> int (length c)" by simp
    ultimately show ?thesis
      using True sum_insert_entry [of "object_bytes lower" n "File c" es] by (simp add: object_bytes_sum)
  next
    case False
    show ?thesis
    proof (cases "map_of es n")
      case (Some t)
      have "object_bytes lower n (update_at ns (Some (File c)) t) \<le> object_bytes lower n t + int (length c)"
        using 3(1) [OF False Some] .
      then show ?thesis
        using False Some sum_insert_entry [of "object_bytes lower" n "update_at ns (Some (File c)) t" es]
        by (simp add: object_bytes_sum)
    qed (use False in simp)
  qed
qed simp

lemma object_bytes_remove: "object_bytes lower name (update_at ps None t) \<le> object_bytes lower name t"
proof (induction ps "None :: tree option" t arbitrary: name rule: update_at.induct)
  case (3 n ns es)
  show ?case
  proof (cases "ns = []")
    case True
    then show ?thesis
      using sum_delete_entry [of "object_bytes lower" n es] object_bytes_nonneg(1) by (simp add: object_bytes_sum)
  next
    case False
    show ?thesis
    proof (cases "map_of es n")
      case (Some t)
      have "object_bytes lower n (update_at ns None t) \<le> object_bytes lower n t" using 3(1) [OF False Some] .
      then show ?thesis
        using False Some sum_insert_entry [of "object_bytes lower" n "update_at ns None t" es]
        by (simp add: object_bytes_sum)
    qed (use False in simp)
  qed
qed simp_all

lemma group_bytes_update:
  "group_bytes lower is_root name (update_at ps (Some (File c)) t) \<le> group_bytes lower is_root name t + int (length c)"
proof (induction ps "Some (File c)" t arbitrary: is_root name rule: update_at.induct)
  case (1 t)
  then show ?case using group_bytes_nonneg(1) [of lower is_root name t] by simp
next
  case (3 n ns es)
  consider "skipped_directory is_root name" | (lfs) "\<not> skipped_directory is_root name" "HasSuffix name ''.lfs''"
    | (plain) "\<not> skipped_directory is_root name" "\<not> HasSuffix name ''.lfs''" by blast
  then show ?case
  proof cases
    case 1
    then show ?thesis by (auto split: option.split)
  next
    case lfs
    have "object_bytes lower ''objects'' (update_at ns (Some (File c)) t) \<le> object_bytes lower ''objects'' t + int (length c)" for t
      by (rule object_bytes_update)
    then show ?thesis using lfs object_bytes_nonneg(1) by (auto split: option.split simp: add_increasing)
  next
    case plain
    show ?thesis
    proof (cases "ns = []")
      case True
      have "0 \<le> (case map_of es n of None \<Rightarrow> 0 | Some y \<Rightarrow> group_bytes lower False n y)"
        using group_bytes_nonneg(1) by (auto split: option.split)
      then show ?thesis
        using True plain sum_insert_entry [of "group_bytes lower False" n "File c" es] by (simp add: group_bytes_sum)
    next
      case False
      show ?thesis
      proof (cases "map_of es n")
        case (Some t)
        have "group_bytes lower False n (update_at ns (Some (File c)) t) \<le> group_bytes lower False n t + int (length c)"
          using 3(1) [OF False Some] .
        then show ?thesis
          using False Some plain sum_insert_entry [of "group_bytes lower False" n "update_at ns (Some (File c)) t" es]
          by (simp add: group_bytes_sum)
      qed (use False plain in simp)
    qed
  qed
qed simp

lemma object_bytes_mkdirs: "mkdirs ps t = Inr t' \<Longrightarrow> object_bytes lower name t' = object_bytes lower name t"
proof (induction ps t arbitrary: t' name rule: mkdirs.induct)
  case (3 n ns es)
  obtain u where u: "mkdirs ns (case map_of es n of None \<Rightarrow> Dir [] | Some t \<Rightarrow> t) = Inr u"
    and t': "t' = Dir (insert_entry n u es)" using 3(2) by (auto simp: bindr_Inr_iff)
  show ?case
    using 3(1) [OF u, of n] sum_insert_entry [of "object_bytes lower" n u es]
    by (auto simp: t' object_bytes_sum split: option.splits)
qed auto

lemma group_bytes_mkdirs: "mkdirs ps t = Inr t' \<Longrightarrow> group_bytes lower is_root name t' = group_bytes lower is_root name t"
proof (induction ps t arbitrary: t' is_root name rule: mkdirs.induct)
  case (3 n ns es)
  obtain u where u: "mkdirs ns (case map_of es n of None \<Rightarrow> Dir [] | Some t \<Rightarrow> t) = Inr u"
    and t': "t' = Dir (insert_entry n u es)" using 3(2) by (auto simp: bindr_Inr_iff)
  have "group_bytes lower False n u = (case map_of es n of None \<Rightarrow> 0 | Some t \<Rightarrow> group_bytes lower False n t)"
    using 3(1) [OF u, of False n] by (auto split: option.splits)
  moreover have "object_bytes lower n u = (case map_of es n of None \<Rightarrow> 0 | Some t \<Rightarrow> object_bytes lower n t)"
    using object_bytes_mkdirs [OF u] by (auto split: option.splits)
  ultimately show ?case
    using sum_insert_entry [of "group_bytes lower False" n u es]
    by (auto simp: t' group_bytes_sum split: option.splits)
qed auto

section \<open>The walks only read\<close>

lemma reading_walk_objects:
  fixes tot :: int
  shows "reading (walk_objects lower n t tot :: ('z, int result) tree_io)"
    and "reading (walk_object_entries lower es tot :: ('z, int result) tree_io)"
  by (induction lower n t tot and lower es tot rule: walk_objects_walk_object_entries.induct)
    (auto intro!: reading_bind split: sum.split)

lemma reading_walk_group:
  fixes tot :: int
  shows "reading (walk_group lower is_root n t tot :: ('z, int result) tree_io)"
    and "reading (walk_group_entries lower es tot :: ('z, int result) tree_io)"
  by (induction lower is_root n t tot and lower es tot rule: walk_group_walk_group_entries.induct)
    (auto intro!: reading_bind reading_walk_objects split: sum.split)

lemma reading_usage: "reading (groupStorageUsage h grp)"
  unfolding groupStorageUsage_def
  by (auto intro!: reading_bind reading_walk_group split: sum.split)

section \<open>The value of the walks\<close>

lemma wrap64_add: "wrap64 (wrap64 a + b) = wrap64 (a + b)"
proof -
  have "((a + 2 ^ 63) mod 2 ^ 64 - 2 ^ 63 + b + 2 ^ 63) mod 2 ^ 64 = (a + b + 2 ^ 63) mod (2 ^ 64 :: int)"
    using mod_add_left_eq [of "a + 2 ^ 63" "2 ^ 64" b] by (simp add: algebra_simps)
  then show ?thesis by (simp add: wrap64_def)
qed

text \<open>An outcome of a walk: the wrapped sum, or an input/output error.\<close>

definition counted :: "int \<Rightarrow> int \<Rightarrow> int result \<Rightarrow> bool" where
  "counted tot n r \<longleftrightarrow> r = Inl ErrIO \<or> r = Inr (wrap64 (tot + n))"

lemma counted_next:
  assumes "counted tot a r" "\<And>v. r = Inr v \<Longrightarrow> in_int64 v \<Longrightarrow> counted v b (f v)"
  shows "counted tot (a + b) (case r of Inl e \<Rightarrow> Inl e | Inr v \<Rightarrow> f v)"
  using assms wrap64_add [of "tot + a" b] by (auto simp: counted_def add.assoc split: sum.splits)

lemma counted_bind:
  assumes "counted tot a (fst (run_state m s))" "\<And>v u. in_int64 v \<Longrightarrow> counted v b (fst (run_state (f v) u))"
  shows "counted tot (a + b)
    (fst (run_state (m \<bind> (\<lambda>r. case r of Inl e \<Rightarrow> State_Monad.return (Inl e) | Inr v \<Rightarrow> f v)) s))"
proof -
  obtain r u where u: "run_state m s = (r, u)" by fastforce
  show ?thesis
  proof (cases r)
    case (Inl e)
    then show ?thesis using assms(1) u by (simp add: counted_def)
  next
    case (Inr v)
    then have v: "v = wrap64 (tot + a)" using assms(1) u by (simp add: counted_def)
    then have "counted v b (fst (run_state (f v) u))" using assms(2) by simp
    then show ?thesis using u Inr v wrap64_add [of "tot + a" b] by (simp add: counted_def add.assoc)
  qed
qed

text \<open>A walk that starts with reading a directory.\<close>

lemma counted_after_read:
  assumes "\<And>u x. disk u = disk s \<Longrightarrow> f (disk s) = Inr x \<Longrightarrow> counted tot n (fst (run_state (k x) u))"
    "\<And>u e. f (disk s) = Inl e \<Longrightarrow> counted tot n (fst (run_state (k' e) u))"
    "\<And>u. counted tot n (fst (run_state (k' ErrIO) u))"
  shows "counted tot n (fst (run_state (fs_read f \<bind> (\<lambda>r. case r of Inl e \<Rightarrow> k' e | Inr x \<Rightarrow> k x)) s))"
proof -
  obtain r u where u: "run_state (fs_read f) s = (r, u)" by fastforce
  then have "disk u = disk s" using readingD [OF reading_fs_read u] by auto
  moreover have "r = Inl ErrIO \<or> r = f (disk s)" using fs_read_result [of f s] u by simp
  ultimately show ?thesis using u assms by (auto split: sum.split)
qed

lemma walk_objects_counts:
  fixes tot :: int
  shows "in_int64 tot \<Longrightarrow> counted tot (object_bytes lower n t) (fst (run_state (walk_objects lower n t tot) (s :: 'z tree_fs_scheme)))"
    and "in_int64 tot \<Longrightarrow> counted tot (object_bytes_entries lower es) (fst (run_state (walk_object_entries lower es tot) (s :: 'z tree_fs_scheme)))"
proof (induction lower n t tot and lower es tot arbitrary: s and s rule: walk_objects_walk_object_entries.induct)
  case (1 lower name c tot)
  show ?case
  proof (cases "validOID lower name")
    case True
    then show ?thesis unfolding walk_objects.simps Touch_at_def
      by (simp del: State_Monad.run_state_bind, intro counted_after_read) (simp_all add: counted_def)
  next
    case False
    then show ?thesis using 1 by (simp add: counted_def)
  qed
next
  case (2 lower name es tot)
  show ?case unfolding walk_objects.simps object_bytes.simps Touch_at_def
    by (rule counted_after_read) (use 2 in \<open>auto simp: counted_def\<close>)
next
  case (4 lower n t es tot)
  show ?case unfolding walk_object_entries.simps object_bytes_entries.simps
    by (rule counted_bind) (use 4 in auto)
qed (simp add: counted_def)

lemma walk_group_counts:
  fixes tot :: int
  shows "in_int64 tot \<Longrightarrow> counted tot (group_bytes lower is_root n t) (fst (run_state (walk_group lower is_root n t tot) (s :: 'z tree_fs_scheme)))"
    and "in_int64 tot \<Longrightarrow> counted tot (group_bytes_entries lower es) (fst (run_state (walk_group_entries lower es tot) (s :: 'z tree_fs_scheme)))"
proof (induction lower is_root n t tot and lower es tot arbitrary: s and s rule: walk_group_walk_group_entries.induct)
  case (2 lower is_root name es tot)
  consider (skip) "skipped_directory is_root name" | (lfs) "\<not> skipped_directory is_root name" "HasSuffix name ''.lfs''"
    | (plain) "\<not> skipped_directory is_root name" "\<not> HasSuffix name ''.lfs''" by blast
  then show ?case
  proof cases
    case lfs
    then show ?thesis unfolding walk_group.simps group_bytes.simps if_not_P [OF lfs(1)] if_P [OF lfs(2)]
      by (intro counted_after_read)
        (use 2 in \<open>auto simp: counted_def walk_objects_counts [unfolded counted_def] split: option.splits\<close>)
  next
    case plain
    then show ?thesis unfolding walk_group.simps group_bytes.simps if_not_P [OF plain(1)] if_not_P [OF plain(2)] Touch_at_def
      by (intro counted_after_read) (use 2 in \<open>auto simp: counted_def\<close>)
  qed (use 2 in \<open>simp add: counted_def\<close>)
next
  case (4 lower n t es tot)
  show ?case unfolding walk_group_entries.simps group_bytes_entries.simps
    by (rule counted_bind) (use 4 in auto)
qed (simp_all add: counted_def)

text \<open>The bytes a root group has on disk.\<close>

definition disk_usage :: "lfs_handler \<Rightarrow> tree \<Rightarrow> string \<Rightarrow> int" where
  "disk_usage h d grp =
     (case find_at d (store_parts (Storage h) @ [grp]) of
        Inl _ \<Rightarrow> 0 | Inr t \<Rightarrow> group_bytes (unicode_lower h) True grp t)"

lemma disk_usage_nonneg: "0 \<le> disk_usage h d grp"
  by (auto simp: disk_usage_def group_bytes_nonneg split: sum.split)

lemma usage_value:
  assumes "absolute_store (Storage h)" "wf_repository repo"
    "run_state (groupStorageUsage h (Repository_RootGroup repo)) s = (Inr v, t)"
  shows "v = wrap64 (disk_usage h (disk s) (hd (Groups repo)))"
proof -
  let ?g = "hd (Groups repo)" and ?root = "rooted_path (store_parts (Storage h) @ [hd (Groups repo)])"
  have g: "normal ?g" using assms(2) valid_normal by (cases "Groups repo") (auto simp: wf_repository_def)
  then have parts: "path_parts ?root = store_parts (Storage h) @ [?g]"
    using git_parts_normal [OF assms(1)] by (intro path_parts_rooted) simp
  have path: "GroupPath (Storage h) (Repository_RootGroup repo) = Inr ?root" using root_group_path assms by simp
  obtain info u where u: "run_state (Stat_at ?root) s = (info, u)" by fastforce
  have "?root \<noteq> []" by (simp add: rooted_path_def)
  then have info: "info = Inl ErrIO \<or> info = find_at (disk s) (store_parts (Storage h) @ [?g])"
    using fs_read_result [of "\<lambda>d. if ?root = [] then Inl ErrNotExist else find_at d (path_parts ?root)" s] u parts
    by (simp add: Stat_at_def)
  show ?thesis
  proof (cases info)
    case (Inl e)
    then show ?thesis using assms(3) path u by (simp add: groupStorageUsage_def)
  next
    case (Inr d)
    then have "run_state (walk_group (unicode_lower h) True ?g d 0) u = (Inr v, t)"
      using assms(3) path u parts by (simp add: groupStorageUsage_def)
    then have "v = wrap64 (group_bytes (unicode_lower h) True ?g d)"
      using walk_group_counts(1) [of 0 "unicode_lower h" True ?g d u] by (simp add: counted_def in_int64_def)
    moreover have "find_at (disk s) (store_parts (Storage h) @ [?g]) = Inr d" using info Inr by auto
    ultimately show ?thesis by (simp add: disk_usage_def)
  qed
qed

text \<open>The walk fails with an input/output error or because the group is missing.\<close>

lemma usage_error:
  assumes "absolute_store (Storage h)" "wf_repository repo"
    "run_state (groupStorageUsage h (Repository_RootGroup repo)) s = (Inl e, t)"
  shows "e = ErrIO \<or> e = ErrNotExist"
proof -
  let ?root = "rooted_path (store_parts (Storage h) @ [hd (Groups repo)])"
  obtain info u where u: "run_state (Stat_at ?root) s = (info, u)" by fastforce
  have run: "run_state (case info of Inl err \<Rightarrow> State_Monad.return (Inl err)
      | Inr d \<Rightarrow> walk_group (unicode_lower h) True (last (path_parts ?root)) d 0) u = (Inl e, t)"
    using assms(3) u root_group_path [OF assms(1,2)] by (simp add: groupStorageUsage_def)
  show ?thesis
  proof (cases info)
    case (Inl err)
    then have "fst (run_state (Stat_at ?root) s) = Inl e" using run u by simp
    then show ?thesis
      using fs_read_result [of "\<lambda>d. if ?root = [] then Inl ErrNotExist else find_at d (path_parts ?root)" s]
        find_at_error [of "disk s" "path_parts ?root" e]
      by (auto simp: Stat_at_def split: if_splits)
  next
    case (Inr d)
    then show ?thesis
      using run walk_group_counts(1) [of 0 "unicode_lower h" True "last (path_parts ?root)" d u]
      by (simp add: counted_def in_int64_def)
  qed
qed

end
