(* ===== verification/LfsUpload.thy ===== *)
theory LfsUpload
  imports LfsLaws
begin

text \<open>
  What the sections of an upload do to the disk: staging touches the upload area only, publication
  adds at most the staged object, and neither disturbs the staged files of other uploads. The
  reservations a section takes or gives back are described as well.
\<close>

section \<open>Paths\<close>

definition uploads_parts :: "lfs_handler \<Rightarrow> string list" where
  "uploads_parts h = store_parts (Storage h) @ [''.gitone'', ''uploads'']"

definition object_parts :: "lfs_handler \<Rightarrow> repository \<Rightarrow> string \<Rightarrow> string list" where
  "object_parts h repo oid =
     repository_parts (Storage h) repo ''.lfs'' @ [''objects'', take 2 oid, take 2 (drop 2 oid), oid]"

lemma valid_not_dot: "valid g \<Longrightarrow> g \<noteq> ''.gitone''"
  by (auto simp: valid_def HasPrefix_def)

lemma validOID_iff: "validOID lower v \<longleftrightarrow> length v = 64 \<and> list_all lower_hex v"
proof -
  have "validOID lower v \<longleftrightarrow> ValidOID lower v" by (auto simp: validOID_def ValidOID_def)
  then show ?thesis by (simp only: ValidOID_iff)
qed

lemma lower_hex_normal: "list_all lower_hex v \<Longrightarrow> v \<noteq> [] \<Longrightarrow> normal v"
  by (cases v) (auto simp: normal_def list_all_iff lower_hex_def is_digit_def)

lemma object_parts_normal:
  assumes "absolute_store (Storage h)" "wf_repository repo" "validOID lower oid"
  shows "list_all normal (object_parts h repo oid)"
proof -
  have oid: "length oid = 64" "list_all lower_hex oid" using assms(3) by (simp_all add: validOID_iff)
  then have "normal (take 2 oid)" "normal (take 2 (drop 2 oid))" "normal oid"
    by (intro lower_hex_normal; auto simp: list_all_iff dest!: in_set_takeD in_set_dropD)+
  moreover have "normal ''objects''" by (simp add: normal_def)
  ultimately show ?thesis
    using repository_parts_normal [OF assms(1,2), of "''.lfs''"] by (simp add: object_parts_def)
qed

lemma abs_parts_rooted: "list_all normal ps \<Longrightarrow> abs_parts wd (rooted_path ps) = ps"
  using Clean_rooted_path [of ps] Clean_rooted [of "rooted_path ps"] rooted_path_inj [of "rooted_clean (rooted_path ps)" ps]
    abs_parts_normal [of wd "rooted_path ps"]
  by (simp add: abs_parts_def rooted_path_def HasPrefix_def)

lemma objectPath_parts:
  assumes "absolute_store (Storage h)" "wf_repository repo" "validOID lower oid"
  shows "objectPath (Storage h) repo oid = Inr (rooted_path (object_parts h repo oid))"
proof -
  obtain wd where wd: "working_dir (Storage h) = Inr wd" "HasPrefix wd ''/''"
    using assms(1) by (auto simp: absolute_store_def split: sum.splits)
  let ?r = "repository_parts (Storage h) repo ''.lfs''" and ?es = "[''objects'', take 2 oid, take 2 (drop 2 oid), oid]"
  have n: "list_all normal ?r" "list_all normal ?es"
    using object_parts_normal [OF assms] by (simp_all add: object_parts_def)
  have "LFSPath (Storage h) repo = Inr (rooted_path ?r)"
    unfolding LFSPath_def by (rule repository_path) (use assms in auto)
  moreover have "SafeJoin (Inr wd) (rooted_path ?r) ?es = Inr (rooted_path (?r @ ?es))"
    using SafeJoin_normal [OF wd(2) _ n(2), of "rooted_path ?r"] abs_parts_rooted [OF n(1)] by simp
  ultimately show ?thesis by (simp add: objectPath_def object_parts_def wd(1))
qed

lemma object_parts_group:
  "wf_repository repo \<Longrightarrow> \<exists>rest. object_parts h repo oid = store_parts (Storage h) @ hd (Groups repo) # rest"
  by (cases "Groups repo") (auto simp: object_parts_def repository_parts_def wf_repository_def)

lemma object_parts_inj:
  assumes "object_parts h repo oid = object_parts h repo' oid'"
  shows "repo = repo' \<and> oid = oid'"
  using assms by (auto simp: object_parts_def repository_parts_inj)

lemma uploads_path:
  assumes "absolute_store (Storage h)"
  shows "SafeJoin (working_dir (Storage h)) (Root (Storage h)) [''.gitone'', ''uploads''] = Inr (rooted_path (uploads_parts h))"
    and "list_all normal (uploads_parts h)"
proof -
  have n: "list_all normal [''.gitone'', ''uploads'']" by (simp add: normal_def)
  show "SafeJoin (working_dir (Storage h)) (Root (Storage h)) [''.gitone'', ''uploads''] = Inr (rooted_path (uploads_parts h))"
    unfolding uploads_parts_def by (rule store_join [OF assms _ n]) simp
  show "list_all normal (uploads_parts h)"
    using n git_parts_normal [OF assms] by (simp add: uploads_parts_def)
qed

section \<open>Frames\<close>

text \<open>Nothing changed in any group, and the temporary files outside the given set are as they were.\<close>

definition groups_kept :: "lfs_handler \<Rightarrow> tree \<Rightarrow> tree \<Rightarrow> bool" where
  "groups_kept h d d' \<longleftrightarrow>
     (\<forall>g rest. valid g \<longrightarrow> find_at d' (store_parts (Storage h) @ g # rest) = find_at d (store_parts (Storage h) @ g # rest))"

definition temps_kept :: "lfs_handler \<Rightarrow> string set \<Rightarrow> tree \<Rightarrow> tree \<Rightarrow> bool" where
  "temps_kept h X d d' \<longleftrightarrow>
     (\<forall>nm c. nm \<notin> X \<longrightarrow> find_at d (uploads_parts h @ [nm]) = Inr (File c) \<longrightarrow>
        find_at d' (uploads_parts h @ [nm]) = Inr (File c))"

lemma groups_kept_refl [simp, intro]: "groups_kept h d d"
  by (simp add: groups_kept_def)

lemma groups_kept_trans [trans]: "groups_kept h d d' \<Longrightarrow> groups_kept h d' d'' \<Longrightarrow> groups_kept h d d''"
  by (simp add: groups_kept_def)

lemma temps_kept_refl [simp, intro]: "temps_kept h X d d"
  by (simp add: temps_kept_def)

lemma temps_kept_trans: "temps_kept h X d d' \<Longrightarrow> temps_kept h Y d' d'' \<Longrightarrow> temps_kept h (X \<union> Y) d d''"
  by (simp add: temps_kept_def)

lemma temps_kept_same: "temps_kept h X d d' \<Longrightarrow> temps_kept h X d' d'' \<Longrightarrow> temps_kept h X d d''"
  by (simp add: temps_kept_def)

lemma temps_kept_mono: "temps_kept h X d d' \<Longrightarrow> X \<subseteq> Y \<Longrightarrow> temps_kept h Y d d'"
  by (auto simp: temps_kept_def)

lemma groups_kept_usage: "groups_kept h d d' \<Longrightarrow> valid g \<Longrightarrow> disk_usage h d' g = disk_usage h d g"
  by (simp add: groups_kept_def disk_usage_def)

lemma groups_kept_object:
  "groups_kept h d d' \<Longrightarrow> wf_repository repo \<Longrightarrow> find_at d' (object_parts h repo oid) = find_at d (object_parts h repo oid)"
  using object_parts_group [of repo h oid]
  by (cases "Groups repo") (auto simp: groups_kept_def wf_repository_def)

text \<open>A group path and a path of the upload area are beside each other.\<close>

lemma upload_area_beside:
  assumes "valid g"
  shows "\<not> prefix (uploads_parts h @ xs) (store_parts (Storage h) @ g # rest)"
    "\<not> prefix (store_parts (Storage h) @ g # rest) (uploads_parts h @ xs)"
  using valid_not_dot [OF assms] by (auto simp: uploads_parts_def)

lemma groups_kept_update: "groups_kept h d (update_at (uploads_parts h @ xs) v d)"
  unfolding groups_kept_def using find_update_beside upload_area_beside by blast

lemma groups_kept_mkdirs: "mkdirs (uploads_parts h) d = Inr d' \<Longrightarrow> groups_kept h d d'"
  unfolding groups_kept_def
proof (intro allI impI)
  fix g rest assume h: "mkdirs (uploads_parts h) d = Inr d'" "valid g"
  show "find_at d' (store_parts (Storage h) @ g # rest) = find_at d (store_parts (Storage h) @ g # rest)"
    using mkdirs_beside [OF h(1)] upload_area_beside [OF h(2), where xs = "[]"] by simp
qed

lemma temps_kept_mkdirs: "mkdirs ps d = Inr d' \<Longrightarrow> temps_kept h X d d'"
  unfolding temps_kept_def using mkdirs_files by blast

lemma temps_kept_update: "temps_kept h {nm} d (update_at (uploads_parts h @ [nm]) v d)"
  unfolding temps_kept_def by (auto simp: find_update_beside)

text \<open>A change inside a group leaves the upload area alone.\<close>

lemma temps_kept_group_update:
  assumes "valid g"
  shows "temps_kept h X d (update_at (store_parts (Storage h) @ g # rest) v d)"
  unfolding temps_kept_def
  by (simp add: find_update_beside [OF upload_area_beside(2,1) [OF assms]])

section \<open>Single calls\<close>

lemma reading_keeps:
  fixes s t :: lfs_system
  assumes "reading m" "run_state m s = (r, t)"
  shows "disk t = disk s \<and> reserved t = reserved s \<and> numbers t = numbers s \<and> drawn t = drawn s"
  using readingD [OF assms] by auto

section \<open>Staging\<close>

text \<open>The state while a temporary file exists: it is new, everything else is as before.\<close>

definition staging :: "lfs_handler \<Rightarrow> string \<Rightarrow> string \<Rightarrow> lfs_system \<Rightarrow> lfs_system \<Rightarrow> bool" where
  "staging h nm c s t \<longleftrightarrow>
     reserved t = reserved s \<and> numbers t = numbers s \<and>
     groups_kept h (disk s) (disk t) \<and> temps_kept h {} (disk s) (disk t) \<and>
     (\<exists>k. nm = temp_name ''object-'' (numbers s) k \<and> drawn s \<le> k \<and> k < drawn t) \<and>
     (\<forall>x. find_at (disk s) (uploads_parts h @ [nm]) \<noteq> Inr x) \<and>
     find_at (disk t) (uploads_parts h @ [nm]) = Inr (File c)"

definition temp_path :: "lfs_handler \<Rightarrow> string \<Rightarrow> string" where
  "temp_path h nm = rooted_path (uploads_parts h @ [nm])"

lemma temp_name_normal: "normal (temp_name ''object-'' ns k)"
  using print_nat_digits [of "ns k"] by (auto simp: temp_name_def normal_def list_all_iff is_digit_def)

lemma temp_name_inj: "inj ns \<Longrightarrow> temp_name stem ns j = temp_name stem ns k \<longleftrightarrow> j = k"
  by (auto simp: temp_name_def dest: print_nat_inj injD)

lemma temp_path_parts:
  assumes "absolute_store (Storage h)" "normal nm"
  shows "path_parts (temp_path h nm) = uploads_parts h @ [nm]"
  unfolding temp_path_def using uploads_path(2) [OF assms(1)] assms(2) by (intro path_parts_rooted) simp

lemma temp_path_join: "rooted_path (uploads_parts h) @ ''/'' @ nm = temp_path h nm"
  using Join_append [of "uploads_parts h" "[nm]" "''/''"] by (simp add: temp_path_def rooted_path_def uploads_parts_def)

lemma kept_nothing_lost:
  assumes "temps_kept h {nm} d d'" "\<forall>x. find_at d (uploads_parts h @ [nm]) \<noteq> Inr x"
  shows "temps_kept h {} d d'"
  using assms unfolding temps_kept_def by (metis singletonD)

lemma make_and_create:
  assumes "absolute_store (Storage h)"
    "run_state (MkdirAll_at (rooted_path (uploads_parts h))) s = (Inr u, s1)"
    "run_state (CreateTemp_at (rooted_path (uploads_parts h)) ''object-'') s1 = (Inr name, s2)"
  obtains nm where "name = temp_path h nm" "normal nm" "staging h nm [] s s2"
proof -
  let ?up = "uploads_parts h"
  have parts: "path_parts (rooted_path ?up) = ?up" using uploads_path(2) [OF assms(1)] by (rule path_parts_rooted)
  obtain d1 sc1 where s1: "mkdirs ?up (disk s) = Inr d1" "s1 = s\<lparr>disk := d1, script := sc1\<rparr>"
    using assms(2) unfolding MkdirAll_at_def by (rule fs_write_cases) (use parts in auto)
  obtain es where es: "find_at d1 ?up = Inr (Dir es)" using mkdirs_dir [OF s1(1)] by blast
  have "\<exists>k sc. draw ''object-'' (numbers s1) (map fst es) (drawn s1) (drawn s1 + 10000) = Some k \<and>
      name = rooted_path ?up @ ''/'' @ temp_name ''object-'' (numbers s1) k \<and>
      s2 = s1\<lparr>disk := update_at (?up @ [temp_name ''object-'' (numbers s1) k]) (Some (File [])) d1, script := sc, drawn := Suc k\<rparr>"
    using assms(3) parts s1(2) es by (auto simp: CreateTemp_at_def split: if_splits option.splits)
  then obtain k sc2 where k: "draw ''object-'' (numbers s1) (map fst es) (drawn s1) (drawn s1 + 10000) = Some k"
      and name: "name = temp_path h (temp_name ''object-'' (numbers s1) k)"
      and s2: "s2 = s1\<lparr>disk := update_at (?up @ [temp_name ''object-'' (numbers s1) k]) (Some (File [])) d1, script := sc2, drawn := Suc k\<rparr>"
    using temp_path_join by auto
  let ?nm = "temp_name ''object-'' (numbers s1) k"
  have "map_of es ?nm = None" using draw_Some [OF k] by (simp add: map_of_eq_None_iff)
  then have new: "find_at d1 (?up @ [?nm]) = Inl ErrNotExist" using es by (simp add: find_at_append)
  have fresh: "find_at (disk s) (?up @ [?nm]) \<noteq> Inr x" for x
  proof
    assume "find_at (disk s) (?up @ [?nm]) = Inr x"
    then show False
      using mkdirs_files [OF s1(1), of "?up @ [?nm]"] mkdirs_keeps_dir [OF s1(1), of "?up @ [?nm]"] new
      by (cases x) auto
  qed
  have "temps_kept h {?nm} (disk s) (disk s2)"
    using temps_kept_same [OF temps_kept_mkdirs [OF s1(1)] temps_kept_update] s2 by simp
  moreover have "groups_kept h (disk s) (disk s2)"
    using groups_kept_trans [OF groups_kept_mkdirs [OF s1(1)] groups_kept_update] s2 by simp
  moreover have "find_at (disk s2) (?up @ [?nm]) = Inr (File [])"
    using find_update_at [OF es, of ?nm "File []" "[]"] s2 by simp
  moreover have "\<exists>j. ?nm = temp_name ''object-'' (numbers s) j \<and> drawn s \<le> j \<and> j < drawn s2"
    using draw_Some [OF k] s1(2) s2 by (intro exI [of _ k]) simp
  ultimately have "staging h ?nm [] s s2"
    using kept_nothing_lost fresh s1 s2 by (simp add: staging_def)
  then show ?thesis by (rule that [OF name temp_name_normal])
qed

lemma staging_update:
  assumes "staging h nm c s t" "disk u = update_at (uploads_parts h @ [nm]) v (disk t)" "reserved u = reserved t"
    "numbers u = numbers t" "drawn u = drawn t"
  shows "reserved u = reserved s" "numbers u = numbers s" "drawn s \<le> drawn u"
    "groups_kept h (disk s) (disk u)" "temps_kept h {} (disk s) (disk u)"
proof -
  show "reserved u = reserved s" "numbers u = numbers s" "drawn s \<le> drawn u" using assms by (auto simp: staging_def)
  show "groups_kept h (disk s) (disk u)"
    using groups_kept_trans [OF _ groups_kept_update] assms by (simp add: staging_def)
  have "temps_kept h {nm} (disk s) (disk u)"
    using temps_kept_same [OF temps_kept_mono [of h "{}"] temps_kept_update] assms by (simp add: staging_def)
  then show "temps_kept h {} (disk s) (disk u)"
    using kept_nothing_lost assms(1) by (simp add: staging_def)
qed

lemma staging_write:
  assumes "absolute_store (Storage h)" "normal nm" "staging h nm c s t"
    "run_state (Write_at (temp_path h nm) c') t = (r, u)"
  shows "staging h nm (case r of Inl _ \<Rightarrow> c | Inr _ \<Rightarrow> c') s u"
proof -
  have parts: "path_parts (temp_path h nm) = uploads_parts h @ [nm]" by (rule temp_path_parts [OF assms(1,2)])
  obtain es where es: "find_at (disk t) (uploads_parts h) = Inr (Dir es)"
    using assms(3) find_at_parent unfolding staging_def by blast
  show ?thesis
    using assms(4) unfolding Write_at_def
  proof (cases rule: fs_write_cases)
    case (failed e sc)
    then show ?thesis using assms(3) by (simp add: staging_def)
  next
    case (written d sc)
    then have d: "disk u = update_at (uploads_parts h @ [nm]) (Some (File c')) (disk t)" "reserved u = reserved t"
        "numbers u = numbers t" "drawn u = drawn t"
      using parts by simp_all
    show ?thesis
      using staging_update [OF assms(3) d] find_update_at [OF es, of nm "File c'" "[]"] assms(3) written(1) d
      by (simp add: staging_def)
  qed
qed

lemma staging_reading:
  "staging h nm c s t \<Longrightarrow> reading m \<Longrightarrow> run_state m t = (r, u) \<Longrightarrow> staging h nm c s u"
  using reading_keeps [of m t r u] by (auto simp: staging_def)

text \<open>Removing a temporary file.\<close>

lemma remove_temp:
  assumes "absolute_store (Storage h)" "normal nm" "run_state (Remove_at (temp_path h nm)) (t :: lfs_system) = (r, u)"
  shows "reserved u = reserved t" "disk u = disk t \<or> disk u = update_at (uploads_parts h @ [nm]) None (disk t)"
    "numbers u = numbers t" "drawn u = drawn t"
proof -
  have parts: "path_parts (temp_path h nm) = uploads_parts h @ [nm]" by (rule temp_path_parts [OF assms(1,2)])
  have "reserved u = reserved t \<and> (disk u = disk t \<or> disk u = update_at (uploads_parts h @ [nm]) None (disk t)) \<and>
      numbers u = numbers t \<and> drawn u = drawn t"
    using assms(3) unfolding Remove_at_def
  proof (cases rule: fs_write_cases)
    case (written d sc)
    then obtain x where "find_at (disk t) (uploads_parts h @ [nm]) = Inr x"
        "(case x of Dir (_ # _) \<Rightarrow> Inl ErrIO | _ \<Rightarrow> Inr (update_at (uploads_parts h @ [nm]) None (disk t))) = Inr d"
      by (auto simp: parts bindr_Inr_iff)
    then have "d = update_at (uploads_parts h @ [nm]) None (disk t)"
      by (cases x rule: tree.exhaust) (auto split: list.splits)
    with written show ?thesis by simp
  qed simp
  then show "reserved u = reserved t" "disk u = disk t \<or> disk u = update_at (uploads_parts h @ [nm]) None (disk t)"
    "numbers u = numbers t" "drawn u = drawn t"
    by simp_all
qed

definition stage_failed :: "lfs_handler \<Rightarrow> lfs_system \<Rightarrow> lfs_system \<Rightarrow> bool" where
  "stage_failed h s t \<longleftrightarrow>
     reserved t = reserved s \<and> numbers t = numbers s \<and> drawn s \<le> drawn t \<and>
     groups_kept h (disk s) (disk t) \<and> temps_kept h {} (disk s) (disk t)"

lemma staging_discard:
  assumes "absolute_store (Storage h)" "normal nm" "staging h nm c s t"
    "run_state (discard (temp_path h nm) e) t = (r, u)"
  shows "r = Inl e \<and> stage_failed h s u"
proof -
  obtain x where x: "run_state (Remove_at (temp_path h nm)) t = (x, u)" "r = Inl e"
    using assms(4) unfolding discard_def by (rule run_bindE) simp
  note rm = remove_temp [OF assms(1,2) x(1)]
  from rm(2) show ?thesis
  proof
    assume "disk u = disk t"
    then show ?thesis using assms(3) rm(1,3,4) x(2) by (auto simp: stage_failed_def staging_def)
  next
    assume "disk u = update_at (uploads_parts h @ [nm]) None (disk t)"
    from staging_update [OF assms(3) this rm(1,3,4)] show ?thesis using x(2) by (simp add: stage_failed_def)
  qed
qed

text \<open>The whole section.\<close>

lemma stage_effect:
  assumes "absolute_store (Storage h)" "run_state (stageUpload h r oid limit lerr) s = (res, t)"
  shows "case res of
    Inl e \<Rightarrow> stage_failed h s t
  | Inr (p, n) \<Rightarrow> \<exists>nm c. p = temp_path h nm \<and> normal nm \<and> staging h nm c s t \<and>
      sha256_hex (lock_environment h) c = oid \<and> n = int (length c) \<and> c = fst (Body r) \<and> length c \<le> nat limit"
proof -
  let ?root = "rooted_path (uploads_parts h)" and ?c = "take (nat limit) (fst (Body r))"
  have root: "SafeJoin (working_dir (Storage h)) (Root (Storage h)) [''.gitone'', ''uploads''] = Inr ?root"
    by (rule uploads_path(1) [OF assms(1)])
  obtain made s1 where made: "run_state (MkdirAll_at ?root) s = (made, s1)" by fastforce
  show ?thesis
  proof (cases made)
    case (Inl e)
    have "stage_failed h s s1"
      using made Inl unfolding MkdirAll_at_def by (cases rule: fs_write_cases) (auto simp: stage_failed_def)
    moreover have "res = Inl e" "t = s1" using assms(2) made Inl root by (simp_all add: stageUpload_def)
    ultimately show ?thesis by simp
  next
    case (Inr u1)
    obtain created s2 where created: "run_state (CreateTemp_at ?root ''object-'') s1 = (created, s2)" by fastforce
    show ?thesis
    proof (cases created)
      case created_err: (Inl e)
      have s1: "reserved s1 = reserved s \<and> numbers s1 = numbers s \<and> drawn s1 = drawn s \<and> groups_kept h (disk s) (disk s1) \<and> temps_kept h {} (disk s) (disk s1)"
        using made Inr path_parts_rooted [OF uploads_path(2) [OF assms(1)]] unfolding MkdirAll_at_def
        by (cases rule: fs_write_cases) (auto intro: groups_kept_mkdirs temps_kept_mkdirs)
      have s2: "reserved s2 = reserved s1 \<and> disk s2 = disk s1 \<and> numbers s2 = numbers s1 \<and> drawn s1 \<le> drawn s2"
        using created created_err by (auto simp: CreateTemp_at_def split: if_splits sum.splits tree.splits option.splits)
      have "stage_failed h s s2" unfolding stage_failed_def using s1 s2 by simp
      moreover have "res = Inl e" "t = s2"
        using assms(2) made Inr created created_err root by (simp_all add: stageUpload_def)
      ultimately show ?thesis by simp
    next
      case created_ok: (Inr name)
      obtain nm where nm: "name = temp_path h nm" "normal nm" "staging h nm [] s s2"
        using make_and_create [OF assms(1) made [unfolded Inr] created [unfolded created_ok]] by blast
      obtain written s3 where written: "run_state (Write_at name ?c) s2 = (written, s3)" by fastforce
      note st3 = staging_write [OF assms(1) nm(2,3) written [unfolded nm(1)]]
      let ?problem = "case written of Inl err \<Rightarrow> Some err
        | Inr _ \<Rightarrow> if length (fst (Body r)) > nat limit then Some lerr else snd (Body r)"
      show ?thesis
      proof (cases ?problem)
        case (Some err)
        then have "run_state (discard name err) s3 = (res, t)"
          using assms(2) made Inr created created_ok root written by (simp add: stageUpload_def Let_def)
        from staging_discard [OF assms(1) nm(2) st3 this [unfolded nm(1)]] show ?thesis by simp
      next
        case None
        then obtain u3 where w: "written = Inr u3" "\<not> length (fst (Body r)) > nat limit"
          by (auto split: sum.splits if_splits)
        obtain synced s4 where synced: "run_state Touch_at s3 = (synced, s4)" by fastforce
        obtain closed s5 where closed: "run_state Touch_at s4 = (closed, s5)" by fastforce
        have st4: "staging h nm ?c s s4" using staging_reading [OF _ _ synced] st3 w(1) by simp
        have st5: "staging h nm ?c s s5" using staging_reading [OF st4 _ closed] by simp
        have run: "(case synced of Inl err \<Rightarrow> run_state (discard name err) s4
            | Inr _ \<Rightarrow> (case closed of Inl err \<Rightarrow> run_state (discard name err) s5
              | Inr _ \<Rightarrow> if sha256_hex (lock_environment h) ?c \<noteq> oid
                  then run_state (discard name (Errorf ''sha256 mismatch'')) s5
                  else (Inr (name, int (length ?c)), s5))) = (res, t)"
          using assms(2) made Inr created created_ok root written None synced closed
          by (simp add: stageUpload_def Let_def split: sum.splits if_splits)
        have c: "?c = fst (Body r)" "length ?c \<le> nat limit" using w(2) by simp_all
        consider (bad) e u where "run_state (discard name e) u = (res, t)" "staging h nm ?c s u"
          | (good) "sha256_hex (lock_environment h) ?c = oid" "res = Inr (name, int (length ?c))" "t = s5"
          using run st4 st5 by (auto split: sum.splits if_splits)
        then show ?thesis
        proof cases
          case bad
          from staging_discard [OF assms(1) nm(2) bad(2) bad(1) [unfolded nm(1)]] show ?thesis by simp
        next
          case good
          then show ?thesis using c st5 nm by auto
        qed
      qed
    qed
  qed
qed

end
