(* ===== verification/LfsPublish.thy ===== *)
theory LfsPublish
  imports LfsUpload
begin

text \<open>
  The publication section of an upload: at most the staged object is added to the group, every
  other object and staged file is as before, and the reservation is given back exactly when the
  upload succeeds. The admission section: what a grant promises.
\<close>

section \<open>Publishing the staged file\<close>

definition publication :: "lfs_handler \<Rightarrow> repository \<Rightarrow> string \<Rightarrow> string \<Rightarrow> string \<Rightarrow> bool \<Rightarrow> tree \<Rightarrow> tree \<Rightarrow> bool" where
  "publication h repo oid nm c moved d d' \<longleftrightarrow>
     (\<forall>g. valid g \<longrightarrow>
        disk_usage h d' g \<le> disk_usage h d g + (if moved \<and> g = hd (Groups repo) then int (length c) else 0)) \<and>
     (\<forall>repo' oid' c'. wf_repository repo' \<longrightarrow> find_at d' (object_parts h repo' oid') = Inr (File c') \<longrightarrow>
        find_at d (object_parts h repo' oid') = Inr (File c') \<or> (moved \<and> repo' = repo \<and> oid' = oid \<and> c' = c)) \<and>
     temps_kept h {nm} d d'"

lemma publication_same [simp]: "publication h repo oid nm c False d d"
  by (simp add: publication_def)

lemma publication_unmoved: "publication h repo oid nm c False d d' \<Longrightarrow> \<exists>moved. publication h repo oid nm c moved d d' \<and> (moved \<longrightarrow> P)"
  by blast

lemma wf_root_valid: "wf_repository repo \<Longrightarrow> valid (hd (Groups repo))"
  by (cases "Groups repo") (auto simp: wf_repository_def)

lemma object_parts_split:
  assumes "wf_repository repo"
  obtains mid where "object_parts h repo oid = store_parts (Storage h) @ hd (Groups repo) # mid @ [oid]"
    "butlast (object_parts h repo oid) = store_parts (Storage h) @ hd (Groups repo) # mid"
proof -
  obtain g gs where "Groups repo = g # gs" using assms by (cases "Groups repo") (auto simp: wf_repository_def)
  then have b: "object_parts h repo oid = store_parts (Storage h) @ hd (Groups repo) #
      (gs @ [Name repo @ ''.lfs'', ''objects'', take 2 oid, take 2 (drop 2 oid)]) @ [oid]"
    by (simp add: object_parts_def repository_parts_def)
  then show ?thesis by (rule that) (simp add: b butlast_append)
qed

lemma disk_usage_mkdirs:
  assumes "mkdirs (store_parts (Storage h) @ g0 # rest) d = Inr d'"
  shows "disk_usage h d' g = disk_usage h d g"
proof (cases "g = g0")
  case True
  obtain u where u: "find_at d' (store_parts (Storage h) @ [g]) = Inr u"
      "mkdirs rest (case find_at d (store_parts (Storage h) @ [g]) of Inr x \<Rightarrow> x | Inl _ \<Rightarrow> Dir []) = Inr u"
    using mkdirs_above [of "store_parts (Storage h) @ [g]" rest d d'] assms True by auto
  have "group_bytes (unicode_lower h) True g (Dir []) = 0" by simp
  then show ?thesis using u(1) group_bytes_mkdirs [OF u(2), of "unicode_lower h" True g]
    by (auto simp: disk_usage_def split: sum.splits)
next
  case False
  then show ?thesis using mkdirs_beside [OF assms, of "store_parts (Storage h) @ [g]"] by (simp add: disk_usage_def)
qed

lemma disk_usage_update:
  assumes "find_at d (store_parts (Storage h) @ [g0]) = Inr t0" "rest \<noteq> []"
  shows "disk_usage h (update_at (store_parts (Storage h) @ g0 # rest) (Some (File c)) d) g
    \<le> disk_usage h d g + (if g = g0 then int (length c) else 0)"
proof (cases "g = g0")
  case True
  have "find_at (update_at (store_parts (Storage h) @ g0 # rest) (Some (File c)) d) (store_parts (Storage h) @ [g0]) =
      Inr (update_at rest (Some (File c)) t0)"
    using find_update_above [OF assms] by simp
  then show ?thesis using assms(1) True group_bytes_update by (simp add: disk_usage_def)
next
  case False
  have "find_at (update_at (store_parts (Storage h) @ g0 # rest) (Some (File c)) d) (store_parts (Storage h) @ [g]) =
      find_at d (store_parts (Storage h) @ [g])"
    by (rule find_update_beside) (use False in auto)
  then show ?thesis using False by (simp add: disk_usage_def)
qed

lemma publication_mkdirs:
  assumes "wf_repository repo" "mkdirs (butlast (object_parts h repo oid)) d = Inr d'"
  shows "publication h repo oid nm c False d d'"
proof -
  obtain rest where "butlast (object_parts h repo oid) = store_parts (Storage h) @ hd (Groups repo) # rest"
    using object_parts_split [OF assms(1), of h oid] by metis
  then have "disk_usage h d' g = disk_usage h d g" for g using disk_usage_mkdirs assms(2) by metis
  then show ?thesis using mkdirs_files [OF assms(2)] temps_kept_mkdirs [OF assms(2)] by (simp add: publication_def)
qed

lemma publication_rename:
  assumes "wf_repository repo"
    "find_at d (uploads_parts h @ [nm]) = Inr (File c)"
    "rename_tree (uploads_parts h @ [nm]) (object_parts h repo oid) d = Inr d'"
  shows "publication h repo oid nm c True d d'" "find_at d' (object_parts h repo oid) = Inr (File c)"
proof -
  let ?a = "uploads_parts h @ [nm]" and ?b = "object_parts h repo oid"
  let ?g = "hd (Groups repo)" and ?base = "store_parts (Storage h)"
  have g: "valid ?g" using wf_root_valid [OF assms(1)] .
  obtain mid where mid: "?b = ?base @ ?g # mid @ [oid]" "butlast ?b = ?base @ ?g # mid"
    using object_parts_split [OF assms(1), of h oid] by metis
  define rest where "rest = mid @ [oid]"
  have b: "?b = ?base @ ?g # rest" using mid(1) by (simp add: rest_def)
  have rest: "rest \<noteq> []" "butlast ?b = ?base @ ?g # butlast rest" "?b = butlast ?b @ [oid]"
    using mid by (simp_all add: rest_def)
  have beside: "\<not> prefix ?a ?b" "\<not> prefix ?b ?a" unfolding b using upload_area_beside [OF g] by blast+
  then have "?a \<noteq> ?b" by auto
  then obtain es where es: "find_at d (butlast ?b) = Inr (Dir es)"
      and d': "d' = update_at ?b (Some (File c)) (update_at ?a None d)"
    using rename_tree_moved [OF assms(3)] assms(2) by (metis Inr_inject)
  let ?d = "update_at ?a None d"
  have kept: "groups_kept h d ?d" by (rule groups_kept_update)
  then have es': "find_at ?d (butlast ?b) = Inr (Dir es)" using es g rest(2) by (simp add: groups_kept_def)
  have "\<exists>t0. find_at ?d (?base @ [?g]) = Inr t0"
    using es' rest(2) find_at_append [of ?d "?base @ [?g]" "butlast rest"] by (cases "find_at ?d (?base @ [?g])") auto
  then obtain t0 where t0: "find_at ?d (?base @ [?g]) = Inr t0" ..
  have usage: "disk_usage h d' g' \<le> disk_usage h d g' + (if g' = ?g then int (length c) else 0)" if "valid g'" for g'
    using disk_usage_update [OF t0 rest(1), of c g'] groups_kept_usage [OF kept that] b d' by simp
  show new: "find_at d' ?b = Inr (File c)"
    using find_update_at [OF es', of oid "File c" "[]"] rest(3) d' by simp
  have objects: "find_at d (object_parts h repo' oid') = Inr (File c') \<or> (repo' = repo \<and> oid' = oid \<and> c' = c)"
    if r: "wf_repository repo'" "find_at d' (object_parts h repo' oid') = Inr (File c')" for repo' oid' c'
  proof (cases "prefix ?b (object_parts h repo' oid') \<or> prefix (object_parts h repo' oid') ?b")
    case True
    then have "object_parts h repo' oid' = ?b"
    proof
      assume "prefix ?b (object_parts h repo' oid')"
      then obtain ys where ys: "object_parts h repo' oid' = ?b @ ys" by (auto simp: prefix_def)
      then have "find_at (File c) ys = Inr (File c')" using r(2) new by (simp add: find_at_append)
      then show ?thesis using ys by (cases ys) auto
    next
      assume "prefix (object_parts h repo' oid') ?b"
      then obtain ys where ys: "?b = object_parts h repo' oid' @ ys" by (auto simp: prefix_def)
      then have "find_at (File c') ys = Inr (File c)" using r(2) new by (simp add: find_at_append)
      then show ?thesis using ys by (cases ys) auto
    qed
    then show ?thesis using r(2) new object_parts_inj by (metis Inr_inject tree.inject(1))
  next
    case False
    then have "find_at d' (object_parts h repo' oid') = find_at ?d (object_parts h repo' oid')"
      unfolding d' by (intro find_update_beside) auto
    then show ?thesis using groups_kept_object [OF kept r(1)] r(2) by simp
  qed
  have "temps_kept h {nm} d ?d" by (rule temps_kept_update)
  moreover have "temps_kept h {nm} ?d d'" unfolding d' b by (rule temps_kept_group_update [OF g])
  ultimately have "temps_kept h {nm} d d'" by (rule temps_kept_same)
  then show "publication h repo oid nm c True d d'" using usage objects by (simp add: publication_def)
qed

lemma publication_trans:
  assumes "publication h repo oid nm c False d d'" "publication h repo oid nm c moved d' d''"
  shows "publication h repo oid nm c moved d d''"
proof -
  have "disk_usage h d'' g \<le> disk_usage h d g + (if moved \<and> g = hd (Groups repo) then int (length c) else 0)"
    if "valid g" for g
    using assms that unfolding publication_def by fastforce
  then show ?thesis using assms temps_kept_same unfolding publication_def by blast
qed

lemma Stat_at_cases:
  fixes s t :: lfs_system
  assumes "run_state (Stat_at p) s = (r, t)" "p \<noteq> []"
  shows "(r = Inl ErrIO \<or> r = find_at (disk s) (path_parts p)) \<and> disk t = disk s \<and> reserved t = reserved s"
  using assms reading_keeps [of "Stat_at p" s r t]
    fs_read_result [of "\<lambda>d. if p = [] then Inl ErrNotExist else find_at d (path_parts p)" s]
  by (simp add: Stat_at_def)

lemma object_parts_last: "butlast (object_parts h repo oid) @ [oid] = object_parts h repo oid"
  by (simp add: object_parts_def butlast_append)

text \<open>The last steps of the publication: the directories, a second look, the rename.\<close>

lemma publish_move:
  fixes s t :: lfs_system
  assumes "absolute_store (Storage h)" "wf_repository repo" "validOID (unicode_lower h) oid" "normal nm"
    "find_at (disk s) (uploads_parts h @ [nm]) = Inr (File c)" "p = rooted_path (object_parts h repo oid)"
    "run_state (MkdirAll_at (path_Dir p) \<bind> (\<lambda>made. case made of Inl err \<Rightarrow> State_Monad.return (Inl err)
       | Inr _ \<Rightarrow> Stat_at p \<bind> (\<lambda>again. case again of Inr _ \<Rightarrow> State_Monad.return (Inr ())
           | Inl _ \<Rightarrow> Rename_at (temp_path h nm) p))) s = (res, t)"
  shows "reserved t = reserved s \<and> res \<noteq> Inl storage_limit \<and>
    (\<exists>moved. publication h repo oid nm c moved (disk s) (disk t) \<and> (moved \<longrightarrow> res = Inr ())) \<and>
    (res = Inr () \<longrightarrow> (\<exists>x. find_at (disk t) (object_parts h repo oid) = Inr x \<and>
      (x = File c \<or> (\<exists>y. find_at (disk s) (object_parts h repo oid) = Inr y))))"
proof -
  have n: "list_all normal (object_parts h repo oid)" by (rule object_parts_normal [OF assms(1-3)])
  have p: "path_parts p = object_parts h repo oid" "p \<noteq> []"
    using path_parts_rooted [OF n] assms(6) by (simp_all add: rooted_path_def)
  have dir: "path_parts (path_Dir p) = butlast (object_parts h repo oid)"
    unfolding path_Dir_def p(1) using n by (intro path_parts_rooted) (auto simp: list_all_iff dest: in_set_butlastD)
  obtain made s1 where made: "run_state (MkdirAll_at (path_Dir p)) s = (made, s1)" by fastforce
  show ?thesis
  proof (cases made)
    case (Inl e)
    have "disk s1 = disk s \<and> reserved s1 = reserved s \<and> e = ErrIO"
      using made Inl mkdirs_error unfolding MkdirAll_at_def fs_write_def
      by (cases rule: fs_call_cases) (auto split: sum.splits)
    moreover have "res = Inl e" "t = s1" using assms(7) made Inl by simp_all
    ultimately show ?thesis by (auto intro: exI [of _ False])
  next
    case (Inr u)
    obtain d1 sc where d1: "mkdirs (butlast (object_parts h repo oid)) (disk s) = Inr d1"
        "s1 = s\<lparr>disk := d1, script := sc\<rparr>"
      using made Inr dir unfolding MkdirAll_at_def by (cases rule: fs_write_cases) auto
    have pub1: "publication h repo oid nm c False (disk s) (disk s1)"
      using publication_mkdirs [OF assms(2) d1(1)] d1(2) by simp
    have c1: "find_at (disk s1) (uploads_parts h @ [nm]) = Inr (File c)"
      using mkdirs_files [OF d1(1)] assms(5) d1(2) by simp
    obtain again s2 where again: "run_state (Stat_at p) s1 = (again, s2)" by fastforce
    note st = Stat_at_cases [OF again p(2)]
    show ?thesis
    proof (cases again)
      case found: (Inr x)
      have "res = Inr ()" "t = s2" using assms(7) made Inr again found by simp_all
      moreover have x: "find_at (disk s1) (object_parts h repo oid) = Inr x" using st found p(1) by auto
      moreover have "\<exists>y. find_at (disk s) (object_parts h repo oid) = Inr y"
        using mkdirs_child [OF d1(1), of oid] x d1(2) object_parts_last [of h repo oid] by auto
      ultimately show ?thesis using st publication_unmoved [OF pub1] d1(2) by auto
    next
      case missing: (Inl e)
      have "run_state (Rename_at (temp_path h nm) p) s2 = (res, t)"
        using assms(7) made Inr again missing by simp
      then show ?thesis unfolding Rename_at_def fs_write_def
      proof (cases rule: fs_call_cases)
        case (fault sc)
        then show ?thesis using st publication_unmoved [OF pub1] d1(2) by auto
      next
        case (effect d sc)
        note parts = temp_path_parts [OF assms(1,4)] p(1)
        show ?thesis
        proof (cases "rename_tree (uploads_parts h @ [nm]) (object_parts h repo oid) (disk s1)")
          case (Inl e)
          then have "d = disk s1" "res = Inl e" using effect(1) st parts by simp_all
          then show ?thesis using rename_error [OF Inl] effect(2) st publication_unmoved [OF pub1] d1(2) by auto
        next
          case (Inr d')
          then have d: "d = d'" "res = Inr ()" using effect(1) st parts by simp_all
          have "publication h repo oid nm c True (disk s) d'"
            using publication_trans [OF pub1 publication_rename(1) [OF assms(2) c1 Inr]] .
          then show ?thesis using publication_rename(2) [OF assms(2) c1 Inr] d effect(2) st d1(2) by auto
        qed
      qed
    qed
  qed
qed

text \<open>
  The routine: what it may add, and that it refuses for the storage limit only when the measured
  bytes and the staged ones exceed it.
\<close>

lemma publishUpload_effect:
  assumes "absolute_store (Storage h)" "wf_repository repo" "validOID (unicode_lower h) oid" "normal nm"
    "find_at (disk s) (uploads_parts h @ [nm]) = Inr (File c)" "p = rooted_path (object_parts h repo oid)"
    "run_state (publishUpload h repo p (temp_path h nm) n pol) s = (res, t)"
  shows "reserved t = reserved s \<and>
    (\<exists>moved. publication h repo oid nm c moved (disk s) (disk t) \<and> (moved \<longrightarrow> res = Inr ())) \<and>
    (res = Inr () \<longrightarrow> (\<exists>x. find_at (disk t) (object_parts h repo oid) = Inr x \<and>
      (x = File c \<or> (\<exists>y. find_at (disk s) (object_parts h repo oid) = Inr y)))) \<and>
    (res = Inl storage_limit \<longrightarrow> MaximumStorageBytes pol > 0 \<and>
      wrap64 (wrap64 (disk_usage h (disk s) (hd (Groups repo))) + n) > MaximumStorageBytes pol)"
proof -
  have n: "list_all normal (object_parts h repo oid)" by (rule object_parts_normal [OF assms(1-3)])
  have p: "path_parts p = object_parts h repo oid" "p \<noteq> []"
    using path_parts_rooted [OF n] assms(6) by (simp_all add: rooted_path_def)
  obtain found s1 where found: "run_state (Stat_at p) s = (found, s1)" by fastforce
  note st = Stat_at_cases [OF found p(2)]
  show ?thesis
  proof (cases found)
    case (Inr x)
    then have "res = Inr ()" "t = s1" using assms(7) found by (simp_all add: publishUpload_def)
    moreover have "find_at (disk s1) (object_parts h repo oid) = Inr x" using st Inr p(1) by auto
    ultimately show ?thesis using st by (auto intro: exI [of _ False])
  next
    case missing: (Inl e)
    let ?measure = "if MaximumStorageBytes pol > 0 then groupStorageUsage h (Repository_RootGroup repo)
      else State_Monad.return (Inr 0)"
    obtain usage s2 where usage: "run_state ?measure s1 = (usage, s2)" by fastforce
    have "reading ?measure" using reading_usage by (cases "MaximumStorageBytes pol > 0") auto
    from reading_keeps [OF this usage] have s2: "disk s2 = disk s" "reserved s2 = reserved s" using st by simp_all
    show ?thesis
    proof (cases usage)
      case (Inl e')
      have "e' \<noteq> storage_limit"
        using usage Inl usage_error [OF assms(1,2)] by (cases "MaximumStorageBytes pol > 0") auto
      moreover have "res = Inl e'" "t = s2" using assms(7) found missing usage Inl by (simp_all add: publishUpload_def)
      ultimately show ?thesis using s2 by (auto intro: exI [of _ False])
    next
      case (Inr used)
      show ?thesis
      proof (cases "MaximumStorageBytes pol > 0 \<and> wrap64 (used + n) > MaximumStorageBytes pol")
        case True
        then have "run_state (groupStorageUsage h (Repository_RootGroup repo)) s1 = (Inr used, s2)"
          using usage Inr by simp
        from usage_value [OF assms(1,2) this] have "used = wrap64 (disk_usage h (disk s) (hd (Groups repo)))"
          using st by simp
        moreover have "res = Inl storage_limit" "t = s2"
          using assms(7) found missing usage Inr True by (simp_all add: publishUpload_def)
        ultimately show ?thesis using s2 True by (auto intro: exI [of _ False])
      next
        case False
        have run: "run_state (MkdirAll_at (path_Dir p) \<bind> (\<lambda>made. case made of Inl err \<Rightarrow> State_Monad.return (Inl err)
            | Inr _ \<Rightarrow> Stat_at p \<bind> (\<lambda>again. case again of Inr _ \<Rightarrow> State_Monad.return (Inr ())
              | Inl _ \<Rightarrow> Rename_at (temp_path h nm) p))) s2 = (res, t)"
          using assms(7) found missing usage Inr False by (simp add: publishUpload_def)
        have "find_at (disk s2) (uploads_parts h @ [nm]) = Inr (File c)" using assms(5) s2 by simp
        from publish_move [OF assms(1-4) this assms(6) run] show ?thesis unfolding s2 by simp
      qed
    qed
  qed
qed

section \<open>Reservations\<close>

definition bytes_of :: "(string \<times> int) list \<Rightarrow> string \<Rightarrow> int" where
  "bytes_of rs key = (case map_of rs key of None \<Rightarrow> 0 | Some n \<Rightarrow> n)"

lemma reserved_bytes_of: "reserved_bytes s key = bytes_of (reserved s) key"
  by (simp add: reserved_bytes_def bytes_of_def)

definition released :: "(string \<times> int) option \<Rightarrow> (string \<times> int) list \<Rightarrow> (string \<times> int) list" where
  "released res rs = (case res of
     None \<Rightarrow> rs
   | Some (key, amount) \<Rightarrow>
       let left = wrap64 (bytes_of rs key - amount) in if left = 0 then AList.delete key rs else AList.update key left rs)"

lemma run_release: "run_state (release res) s = ((), s\<lparr>reserved := released res (reserved s)\<rparr>)"
  by (cases res) (auto simp: release_def released_def reserved_bytes_of Let_def)

lemma bytes_of_released:
  "bytes_of (released res rs) k =
     (case res of None \<Rightarrow> bytes_of rs k
      | Some (key, amount) \<Rightarrow> if k = key then wrap64 (bytes_of rs key - amount) else bytes_of rs k)"
  by (cases res) (auto simp: released_def bytes_of_def Let_def update_conv' delete_conv')

text \<open>The amount a reservation holds for a key.\<close>

definition held :: "string \<Rightarrow> (string \<times> int) option \<Rightarrow> int" where
  "held key res = (case res of None \<Rightarrow> 0 | Some (k, n) \<Rightarrow> if k = key then n else 0)"

lemma held_None [simp]: "held key None = 0"
  by (simp add: held_def)

text \<open>
  What a reservation sets aside: it fits into the room that the used and the reserved bytes leave,
  no sum overflows, and the upload may stage exactly what was set aside.
\<close>

lemma reserve_spec:
  assumes "0 \<le> usage" "in_int64 quota" "0 \<le> bytes_of (reserved s) key" "0 \<le> maximum"
    "run_state (reserve key usage quota maximum cl) s = (Inr (limit, res), t)"
  shows "0 \<le> limit \<and> held key res = limit \<and> (\<forall>k. k \<noteq> key \<longrightarrow> held k res = 0) \<and> disk t = disk s \<and>
    (\<forall>k. bytes_of (reserved t) k = bytes_of (reserved s) k + held k res) \<and>
    (limit \<noteq> 0 \<longrightarrow> usage + bytes_of (reserved s) key + limit \<le> quota) \<and>
    (0 \<le> cl \<longrightarrow> limit = cl) \<and> (cl < 0 \<longrightarrow> limit \<le> maximum)"
proof -
  define room where "room = max 0 (quota - usage - bytes_of (reserved s) key)"
  have q: "quota < 2 ^ 63" using assms(2) by (simp add: in_int64_def)
  have room: "(if usage < quota then
      let room = wrap64 (quota - usage) in
      if reserved_bytes s key < room then wrap64 (room - reserved_bytes s key) else 0 else 0) = room"
    using assms(1,3) q by (auto simp: room_def reserved_bytes_of Let_def in_int64_def max_def)
  define n where "n = (if 0 \<le> cl then cl else if maximum > room then room else maximum)"
  have run: "run_state (reserve key usage quota maximum cl) s =
      (if 0 \<le> cl \<and> cl > room then (Inl storage_limit, s)
       else if n = 0 then (Inr (0, None), s)
       else (Inr (n, Some (key, n)),
             s\<lparr>reserved := AList.update key (wrap64 (bytes_of (reserved s) key + n)) (reserved s)\<rparr>))"
    unfolding reserve_def state.sel room by (simp add: Let_def n_def reserved_bytes_of)
  have ok: "\<not> (0 \<le> cl \<and> cl > room)" using assms(5) unfolding run by (auto split: if_splits)
  have n: "0 \<le> n" "n \<le> room" "0 \<le> cl \<longrightarrow> n = cl" "cl < 0 \<longrightarrow> n \<le> maximum"
    using ok assms(4) by (auto simp: n_def room_def)
  show ?thesis
  proof (cases "n = 0")
    case True
    then have "limit = 0" "res = None" "t = s" using assms(5) ok unfolding run by simp_all
    then show ?thesis using True n by simp
  next
    case False
    then have w: "wrap64 (bytes_of (reserved s) key + n) = bytes_of (reserved s) key + n"
      using n assms(1,3) q by (intro wrap64_id) (auto simp: room_def in_int64_def)
    have t: "limit = n" "res = Some (key, n)"
        "t = s\<lparr>reserved := AList.update key (wrap64 (bytes_of (reserved s) key + n)) (reserved s)\<rparr>"
      using assms(5) ok False unfolding run by auto
    have "bytes_of (reserved t) k = bytes_of (reserved s) k + held k res" for k
      using w by (simp add: t bytes_of_def held_def update_conv')
    then show ?thesis using n False t by (auto simp: held_def room_def)
  qed
qed

section \<open>The sections of an upload\<close>

definition group_key :: "lfs_handler \<Rightarrow> string \<Rightarrow> string" where
  "group_key h g = rooted_path (store_parts (Storage h) @ [g])"

lemma group_key_inj:
  assumes "absolute_store (Storage h)" "valid g" "valid g'"
  shows "group_key h g = group_key h g' \<longleftrightarrow> g = g'"
  unfolding group_key_def
  using rooted_path_inj [of "store_parts (Storage h) @ [g]" "store_parts (Storage h) @ [g']"]
    git_parts_normal [OF assms(1)] valid_normal assms by auto

lemma admit_effect:
  assumes "absolute_store (Storage h)" "wf_repository repo" "run_state (admit h r repo) s = (Inr g, t)"
  obtains (unlimited) pol where "policy r 2 repo = Inr pol" "MaximumStorageBytes pol \<le> 0"
      "reservation g = None" "t = s"
    | (limited) pol maximum u where "policy r 2 repo = Inr pol" "0 < MaximumStorageBytes pol" "0 \<le> maximum"
      "disk u = disk s" "reserved u = reserved s"
      "run_state (reserve (group_key h (hd (Groups repo))) (wrap64 (disk_usage h (disk s) (hd (Groups repo))))
         (MaximumStorageBytes pol) maximum (ContentLength r)) u = (Inr (stage_limit g, reservation g), t)"
proof -
  obtain pol where pol: "policy r 2 repo = Inr pol"
    using assms(3) by (auto simp: admit_def split: sum.splits if_splits)
  define maximum where "maximum = (if MaximumObjectBytes pol > 0 \<and> MaximumObjectBytes pol < maximumUploadBytes
    then MaximumObjectBytes pol else maximumUploadBytes)"
  have mx: "0 \<le> maximum" by (simp add: maximum_def maximumUploadBytes_def)
  show ?thesis
  proof (cases "MaximumStorageBytes pol > 0")
    case False
    then have "reservation g = None \<and> t = s"
      using assms(3) pol by (auto simp: admit_def Let_def split: sum.splits if_splits)
    then show ?thesis using unlimited pol False by simp
  next
    case True
    obtain measured u where m: "run_state (groupStorageUsage h (Repository_RootGroup repo)) s = (measured, u)" by fastforce
    have u: "disk u = disk s" "reserved u = reserved s" using reading_keeps [OF reading_usage m] by simp_all
    obtain usage where usage: "measured = Inr usage"
      using assms(3) pol True m by (cases measured) (auto simp: admit_def Let_def split: sum.splits if_splits)
    have v: "usage = wrap64 (disk_usage h (disk s) (hd (Groups repo)))"
      using usage_value [OF assms(1,2)] m usage by simp
    obtain granted w where granted: "run_state (reserve (group_key h (hd (Groups repo))) usage (MaximumStorageBytes pol)
        maximum (ContentLength r)) u = (granted, w)" by fastforce
    have "granted = Inr (stage_limit g, reservation g) \<and> w = t"
      using assms(3) pol True m usage granted root_group_path [OF assms(1,2)]
      by (auto simp: admit_def Let_def maximum_def group_key_def split: sum.splits if_splits)
    then show ?thesis using limited [OF pol True mx u] granted v by simp
  qed
qed

lemma admit_refused:
  assumes "absolute_store (Storage h)" "wf_repository repo" "run_state (admit h r repo) s = (Inl reply, t)"
  shows "disk t = disk s \<and> reserved t = reserved s"
proof -
  obtain measured u where m: "run_state (groupStorageUsage h (Repository_RootGroup repo)) s = (measured, u)" by fastforce
  have u: "disk u = disk s" "reserved u = reserved s" using reading_keeps [OF reading_usage m] by simp_all
  have "fst (run_state (reserve k v q mx cl) u) = Inl e \<Longrightarrow> snd (run_state (reserve k v q mx cl) u) = u" for k v q mx cl e
    by (auto simp: reserve_def Let_def split: if_splits)
  then have res: "run_state (reserve k v q mx cl) u = (Inl e, w) \<Longrightarrow> w = u" for k v q mx cl e w
    by (metis fst_conv snd_conv)
  show ?thesis
    using assms(3) m u root_group_path [OF assms(1,2)]
    by (auto simp: admit_def Let_def dest: res split: sum.splits if_splits prod.splits)
qed

lemma admit_disk:
  assumes "absolute_store (Storage h)" "wf_repository repo" "run_state (admit h r repo) s = (res, t)"
  shows "disk t = disk s"
proof (cases res)
  case (Inl reply)
  then show ?thesis using admit_refused assms by blast
next
  case (Inr g)
  have "disk w = disk u" if "run_state (reserve k v q mx cl) u = (x, w)" for k v q mx cl u w x
    using that by (auto simp: reserve_def Let_def split: if_splits)
  then show ?thesis using admit_effect [OF assms(1,2) assms(3) [unfolded Inr]] by metis
qed

lemma publish_effect:
  assumes "absolute_store (Storage h)" "wf_repository repo" "validOID (unicode_lower h) oid" "normal nm"
    "find_at (disk s) (uploads_parts h @ [nm]) = Inr (File c)"
    "run_state (publish h r repo oid (temp_path h nm) n res) s = ((reply, res'), t)"
  obtains (refused) "reply \<noteq> StatusOnly 200" "res' = res" "reserved t = reserved s"
      "publication h repo oid nm c False (disk s) (disk t)"
      "reply = fail_reply 422 storage_limit \<longrightarrow>
        (\<exists>pol. policy r 3 repo = Inr pol \<and> MaximumStorageBytes pol > 0 \<and>
          wrap64 (wrap64 (disk_usage h (disk s) (hd (Groups repo))) + n) > MaximumStorageBytes pol)"
    | (accepted) moved x where "reply = StatusOnly 200" "res' = None" "reserved t = released res (reserved s)"
      "publication h repo oid nm c moved (disk s) (disk t)" "find_at (disk t) (object_parts h repo oid) = Inr x"
      "x = File c \<or> (\<exists>y. find_at (disk s) (object_parts h repo oid) = Inr y)"
proof -
  let ?p = "rooted_path (object_parts h repo oid)"
  have path: "objectPath (Storage h) repo oid = Inr ?p" by (rule objectPath_parts [OF assms(1-3)])
  have early: "thesis" if "reply \<noteq> StatusOnly 200" "res' = res" "t = s" "reply \<noteq> fail_reply 422 storage_limit"
    using refused that by simp
  consider (early) "reply \<noteq> StatusOnly 200" "res' = res" "t = s" "reply \<noteq> fail_reply 422 storage_limit"
    | (late) pol where "policy r 3 repo = Inr pol"
      "run_state (publishUpload h repo ?p (temp_path h nm) n pol \<bind> (\<lambda>published. case published of
          Inl err \<Rightarrow> State_Monad.return (fail_reply 422 err, res)
        | Inr _ \<Rightarrow> do { _ \<leftarrow> release res; State_Monad.return (StatusOnly 200, None) })) s = ((reply, res'), t)"
    using assms(6) path
    by (auto simp: publish_def Let_def NotFound_def authorize_def policy_def split: sum.splits if_splits option.splits)
  then show ?thesis
  proof cases
    case early
    then show ?thesis using refused by simp
  next
    case late
    obtain published u where pu: "run_state (publishUpload h repo ?p (temp_path h nm) n pol) s = (published, u)" by fastforce
    note eff = publishUpload_effect [OF assms(1-5) refl pu]
    show ?thesis
    proof (cases published)
      case (Inl err)
      then have r: "reply = fail_reply 422 err" "res' = res" "t = u" using late(2) pu by simp_all
      have "publication h repo oid nm c False (disk s) (disk t)" using eff Inl r(3) by auto
      then show ?thesis using refused r eff Inl late(1) by auto
    next
      case (Inr y)
      then have r: "reply = StatusOnly 200" "res' = None" "t = u\<lparr>reserved := released res (reserved u)\<rparr>"
        using late(2) pu by (simp_all add: run_release)
      then show ?thesis using accepted eff Inr by auto
    qed
  qed
qed

end
