(* ===== verification/LfsSystem.thy ===== *)
theory LfsSystem
  imports LfsPublish
begin

text \<open>
  Many uploads at once. An upload goes through its sections one at a time; between two sections of
  one upload any number of sections of others run, and anything else may happen to the disk that
  adds no bytes to a group and leaves the upload area alone. A section is one step because it holds
  the group's LFS lock or, for staging and the clean-up, touches only its own temporary file and the
  reservation table, which has a mutex. The invariants: the bytes on disk and the reserved bytes
  of a group never exceed its quota together, and every stored object has the digest it is named by.
\<close>

section \<open>Steps\<close>

text \<open>Where an upload is; \<open>Leaving\<close> is the deferred clean-up.\<close>

datatype phase =
    Arrived
  | Admitted grant
  | Staged grant string int
  | Leaving "string option" "(string \<times> int) option" lfs_response
  | Answered lfs_response

record upload =
  up_request :: lfs_request
  up_repo :: repository
  up_oid :: string
  phase :: phase

definition advance :: "lfs_handler \<Rightarrow> upload \<Rightarrow> upload lfs_io" where
  "advance h u =
     (case phase u of
        Arrived \<Rightarrow> do {
          admitted \<leftarrow> admit h (up_request u) (up_repo u);
          State_Monad.return (u\<lparr>phase := (case admitted of Inl reply \<Rightarrow> Answered reply | Inr g \<Rightarrow> Admitted g)\<rparr>)
        }
      | Admitted g \<Rightarrow> do {
          staged \<leftarrow> stageUpload h (up_request u) (up_oid u) (stage_limit g) (limit_error g);
          State_Monad.return (u\<lparr>phase := (case staged of
              Inl err \<Rightarrow> Leaving None (reservation g) (stage_reply err)
            | Inr (stagedPath, stagedSize) \<Rightarrow> Staged g stagedPath stagedSize)\<rparr>)
        }
      | Staged g stagedPath stagedSize \<Rightarrow> do {
          result \<leftarrow> publish h (up_request u) (up_repo u) (up_oid u) stagedPath stagedSize (reservation g);
          State_Monad.return (u\<lparr>phase := Leaving (Some stagedPath) (snd result) (fst result)\<rparr>)
        }
      | Leaving staged res reply \<Rightarrow> do {
          _ \<leftarrow> (case staged of None \<Rightarrow> release res | Some stagedPath \<Rightarrow> leave_upload stagedPath res);
          State_Monad.return (u\<lparr>phase := Answered reply\<rparr>)
        }
      | Answered reply \<Rightarrow> State_Monad.return u)"

text \<open>What happens besides: no group grows, staged files stay, and a new object has its digest.\<close>

definition interference :: "lfs_handler \<Rightarrow> tree \<Rightarrow> tree \<Rightarrow> bool" where
  "interference h d d' \<longleftrightarrow>
     (\<forall>g. valid g \<longrightarrow> disk_usage h d' g \<le> disk_usage h d g) \<and> temps_kept h {} d d' \<and>
     (\<forall>repo oid c. wf_repository repo \<longrightarrow> find_at d' (object_parts h repo oid) = Inr (File c) \<longrightarrow>
        find_at d (object_parts h repo oid) = Inr (File c) \<or> sha256_hex (lock_environment h) c = oid)"

inductive lfs_step :: "lfs_handler \<Rightarrow> lfs_system \<times> upload list \<Rightarrow> lfs_system \<times> upload list \<Rightarrow> bool"
  for h :: lfs_handler where
  moves: "i < length us \<Longrightarrow> run_state (advance h (us ! i)) s = (u, t) \<Longrightarrow> lfs_step h (s, us) (t, us[i := u])"
| others: "interference h (disk s) d \<Longrightarrow> lfs_step h (s, us) (s\<lparr>disk := d, script := sc\<rparr>, us)"

inductive_cases lfs_stepE: "lfs_step h (s, us) (t, vs)"

section \<open>The sections are the handler\<close>

definition reply_of :: "upload \<Rightarrow> lfs_response option" where
  "reply_of u = (case phase u of Answered reply \<Rightarrow> Some reply | _ \<Rightarrow> None)"

text \<open>Four sections in a row.\<close>

definition alone :: "lfs_handler \<Rightarrow> upload \<Rightarrow> upload lfs_io" where
  "alone h u = do { u1 \<leftarrow> advance h u; u2 \<leftarrow> advance h u1; u3 \<leftarrow> advance h u2; advance h u3 }"

lemma advance_answered [simp]: "phase u = Answered reply \<Longrightarrow> advance h u = State_Monad.return u"
  by (simp add: advance_def)

section \<open>Steady operations\<close>

text \<open>Everything but the creation of temporary files leaves the random numbers alone.\<close>

definition steady :: "'a lfs_io \<Rightarrow> bool" where
  "steady m \<longleftrightarrow> (\<forall>s r t. run_state m s = (r, t) \<longrightarrow> numbers t = numbers s \<and> drawn t = drawn s)"

lemma steadyD: "steady m \<Longrightarrow> run_state m s = (r, t) \<Longrightarrow> numbers t = numbers s \<and> drawn t = drawn s"
  by (simp add: steady_def)

lemma steady_reading: "reading m \<Longrightarrow> steady m"
  unfolding steady_def by (auto dest: reading_keeps)

lemma steady_return [simp]: "steady (State_Monad.return x)"
  by (simp add: steady_def)

lemma steady_bind:
  assumes "steady m" "\<And>x. steady (f x)"
  shows "steady (m \<bind> f)"
  unfolding steady_def
proof (intro allI impI)
  fix s r t assume "run_state (m \<bind> f) s = (r, t)"
  then show "numbers t = numbers s \<and> drawn t = drawn s"
    by (rule run_bindE) (use steadyD [OF assms(1)] steadyD [OF assms(2)] in metis)
qed

lemma steady_write [simp]: "steady (fs_write f)"
  unfolding steady_def by (auto elim: fs_write_cases)

lemma steady_calls [simp]:
  "steady (Stat_at p)" "steady (MkdirAll_at p)" "steady (Rename_at p q)" "steady (Remove_at p)"
  "steady (groupStorageUsage h g)" "steady (release res)"
  by (simp_all add: steady_reading reading_usage MkdirAll_at_def Rename_at_def Remove_at_def)
    (simp add: steady_def run_release)

lemma steady_reserve [simp]: "steady (reserve k u q m c)"
  by (auto simp: steady_def reserve_def Let_def split: if_splits)

lemma steady_publish: "steady (publish h r repo oid p n res)"
  unfolding publish_def publishUpload_def Let_def
  by (auto intro!: steady_bind split: sum.split)

lemma steady_admit: "steady (admit h r repo)"
  unfolding admit_def Let_def
  by (auto intro!: steady_bind split: sum.split)

section \<open>One step of one upload\<close>

fun holding :: "phase \<Rightarrow> (string \<times> int) option" where
  "holding Arrived = None"
| "holding (Admitted g) = reservation g"
| "holding (Staged g _ _) = reservation g"
| "holding (Leaving _ res _) = res"
| "holding (Answered _) = None"

text \<open>The temporary file an upload still refers to.\<close>

fun slot :: "phase \<Rightarrow> string option" where
  "slot (Staged _ p _) = Some p"
| "slot (Leaving p _ _) = p"
| "slot _ = None"

definition up_group :: "upload \<Rightarrow> string" where
  "up_group u = hd (Groups (up_repo u))"

definition wf_upload :: "lfs_handler \<Rightarrow> upload \<Rightarrow> bool" where
  "wf_upload h u \<longleftrightarrow> wf_repository (up_repo u) \<and> validOID (unicode_lower h) (up_oid u)"

text \<open>The temporary file is one that was drawn, and a staged one has the announced digest and size.\<close>

definition temp_ok :: "lfs_handler \<Rightarrow> lfs_system \<Rightarrow> upload \<Rightarrow> bool" where
  "temp_ok h s u \<longleftrightarrow>
     (\<forall>p. slot (phase u) = Some p \<longrightarrow> (\<exists>k < drawn s. p = temp_path h (temp_name ''object-'' (numbers s) k))) \<and>
     (\<forall>g p n. phase u = Staged g p n \<longrightarrow>
        (\<exists>c. find_at (disk s) (path_parts p) = Inr (File c) \<and> sha256_hex (lock_environment h) c = up_oid u \<and> n = int (length c)))"

text \<open>What a step of an upload leaves alone, and what becomes of its temporary file.\<close>

definition step_frame :: "lfs_handler \<Rightarrow> upload \<Rightarrow> upload \<Rightarrow> lfs_system \<Rightarrow> lfs_system \<Rightarrow> bool" where
  "step_frame h u u' s t \<longleftrightarrow>
     numbers t = numbers s \<and> drawn s \<le> drawn t \<and>
     temps_kept h {nm. slot (phase u) = Some (temp_path h nm)} (disk s) (disk t) \<and>
     (\<forall>repo oid c. wf_repository repo \<longrightarrow> find_at (disk t) (object_parts h repo oid) = Inr (File c) \<longrightarrow>
        find_at (disk s) (object_parts h repo oid) = Inr (File c) \<or> sha256_hex (lock_environment h) c = oid) \<and>
     (slot (phase u') = None \<or> slot (phase u') = slot (phase u) \<or>
      (\<exists>k. drawn s \<le> k \<and> k < drawn t \<and> slot (phase u') = Some (temp_path h (temp_name ''object-'' (numbers s) k))))"

lemma advance_fields:
  assumes "run_state (advance h u) s = (u', t)"
  shows "up_request u' = up_request u" "up_repo u' = up_repo u" "up_oid u' = up_oid u"
  using assms by (auto simp: advance_def split: phase.splits prod.splits)

lemma temp_path_eq:
  assumes "absolute_store (Storage h)" "normal a" "normal b"
  shows "temp_path h a = temp_path h b \<longleftrightarrow> a = b"
  using temp_path_parts [OF assms(1,2)] temp_path_parts [OF assms(1,3)] by (metis append_same_eq last_snoc)

text \<open>A step that changes no group and only removes the upload's own file keeps the frame.\<close>

lemma frame_groups_kept:
  assumes "groups_kept h (disk s) (disk t)" "temps_kept h {nm. slot (phase u) = Some (temp_path h nm)} (disk s) (disk t)"
    "numbers t = numbers s" "drawn s \<le> drawn t"
    "slot (phase u') = None \<or> slot (phase u') = slot (phase u) \<or>
      (\<exists>k. drawn s \<le> k \<and> k < drawn t \<and> slot (phase u') = Some (temp_path h (temp_name ''object-'' (numbers s) k)))"
  shows "step_frame h u u' s t"
  using assms groups_kept_object [OF assms(1)] by (simp add: step_frame_def)

lemma leave_effect:
  assumes "absolute_store (Storage h)" "normal nm" "run_state (leave_upload (temp_path h nm) res) s = (x, t)"
  shows "groups_kept h (disk s) (disk t)" "temps_kept h {nm} (disk s) (disk t)"
    "numbers t = numbers s" "drawn t = drawn s" "reserved t = released res (reserved s)"
proof -
  obtain y u where y: "run_state (Remove_at (temp_path h nm)) s = (y, u)" "t = u\<lparr>reserved := released res (reserved u)\<rparr>"
    using assms(3) unfolding leave_upload_def by (rule run_bindE) (simp add: run_release)
  note rm = remove_temp [OF assms(1,2) y(1)]
  show "numbers t = numbers s" "drawn t = drawn s" "reserved t = released res (reserved s)" using rm y(2) by simp_all
  show "groups_kept h (disk s) (disk t)" using rm(2) y(2) groups_kept_update by auto
  show "temps_kept h {nm} (disk s) (disk t)" using rm(2) y(2) temps_kept_update by auto
qed

text \<open>Publication as the frame sees it.\<close>

lemma publication_frame:
  assumes "publication h repo oid nm c moved (disk s) (disk t)" "sha256_hex (lock_environment h) c = oid"
    "numbers t = numbers s" "drawn t = drawn s"
    "slot (phase u) = Some (temp_path h nm)" "slot (phase u') = slot (phase u)"
  shows "step_frame h u u' s t"
proof -
  have "temps_kept h {nm'. slot (phase u) = Some (temp_path h nm')} (disk s) (disk t)"
    by (rule temps_kept_mono [of h "{nm}"]) (use assms(1,5) in \<open>auto simp: publication_def\<close>)
  moreover have "find_at (disk s) (object_parts h repo' oid') = Inr (File c') \<or> sha256_hex (lock_environment h) c' = oid'"
    if "wf_repository repo'" "find_at (disk t) (object_parts h repo' oid') = Inr (File c')" for repo' oid' c'
    using assms(1,2) that by (auto simp: publication_def)
  ultimately show ?thesis using assms(3-6) by (simp add: step_frame_def)
qed

lemma advance_frame:
  assumes "absolute_store (Storage h)" "wf_upload h u" "temp_ok h s u" "run_state (advance h u) s = (u', t)"
  shows "step_frame h u u' s t \<and> temp_ok h t u'"
proof (cases "phase u")
  case Arrived
  obtain res where res: "run_state (admit h (up_request u) (up_repo u)) s = (res, t)"
      "u' = u\<lparr>phase := (case res of Inl reply \<Rightarrow> Answered reply | Inr g \<Rightarrow> Admitted g)\<rparr>"
    using assms(4) Arrived by (auto simp: advance_def split: prod.splits)
  have d: "disk t = disk s" using admit_disk [OF assms(1) _ res(1)] assms(2) by (simp add: wf_upload_def)
  then have "step_frame h u u' s t"
    using steadyD [OF steady_admit res(1)] res(2) by (intro frame_groups_kept) (auto split: sum.splits)
  moreover have "temp_ok h t u'" using res(2) by (auto simp: temp_ok_def split: sum.splits)
  ultimately show ?thesis ..
next
  case (Admitted g)
  obtain st where st: "run_state (stageUpload h (up_request u) (up_oid u) (stage_limit g) (limit_error g)) s = (st, t)"
      "u' = u\<lparr>phase := (case st of Inl err \<Rightarrow> Leaving None (reservation g) (stage_reply err)
        | Inr (p, n) \<Rightarrow> Staged g p n)\<rparr>"
    using assms(4) Admitted by (auto simp: advance_def split: prod.splits)
  note eff = stage_effect [OF assms(1) st(1)]
  show ?thesis
  proof (cases st)
    case (Inl e)
    then have "step_frame h u u' s t"
      using eff st(2) Admitted by (intro frame_groups_kept) (auto simp: stage_failed_def)
    moreover have "temp_ok h t u'" using st(2) Inl by (simp add: temp_ok_def)
    ultimately show ?thesis ..
  next
    case (Inr pn)
    obtain p n where pn: "pn = (p, n)" by (cases pn)
    obtain nm c where nm: "p = temp_path h nm" "normal nm" "staging h nm c s t"
        "sha256_hex (lock_environment h) c = up_oid u" "n = int (length c)"
      using eff Inr pn by auto
    obtain k where k: "nm = temp_name ''object-'' (numbers s) k" "drawn s \<le> k" "k < drawn t" "numbers t = numbers s"
      using nm(3) by (auto simp: staging_def)
    have "step_frame h u u' s t"
      using nm k st(2) Inr pn Admitted by (intro frame_groups_kept) (auto simp: staging_def)
    moreover have "temp_ok h t u'"
      using nm k st(2) Inr pn temp_path_parts [OF assms(1) nm(2)] by (auto simp: temp_ok_def staging_def)
    ultimately show ?thesis ..
  qed
next
  case (Staged g p n)
  obtain k where k: "k < drawn s" "p = temp_path h (temp_name ''object-'' (numbers s) k)"
    using assms(3) Staged by (auto simp: temp_ok_def)
  define nm where "nm = temp_name ''object-'' (numbers s) k"
  have nm: "normal nm" "p = temp_path h nm" using temp_name_normal k by (simp_all add: nm_def)
  obtain c where c: "find_at (disk s) (uploads_parts h @ [nm]) = Inr (File c)"
      "sha256_hex (lock_environment h) c = up_oid u"
    using assms(3) Staged temp_path_parts [OF assms(1) nm(1)] nm(2) by (auto simp: temp_ok_def)
  obtain reply res where pub: "run_state (publish h (up_request u) (up_repo u) (up_oid u) (temp_path h nm) n (reservation g)) s
      = ((reply, res), t)" "u' = u\<lparr>phase := Leaving (Some p) res reply\<rparr>"
    using assms(4) Staged nm(2) by (auto simp: advance_def split: prod.splits)
  obtain moved where "publication h (up_repo u) (up_oid u) nm c moved (disk s) (disk t)"
    using publish_effect [OF assms(1) _ _ nm(1) c(1) pub(1)] assms(2) by (auto simp: wf_upload_def)
  then have "step_frame h u u' s t"
    using publication_frame [OF _ c(2), of _ nm _ s t u u'] steadyD [OF steady_publish pub(1)] Staged pub(2) nm(2) by simp
  moreover have "temp_ok h t u'"
    using pub(2) k steadyD [OF steady_publish pub(1)] by (auto simp: temp_ok_def)
  ultimately show ?thesis ..
next
  case (Leaving staged res reply)
  show ?thesis
  proof (cases staged)
    case None
    then have "t = s\<lparr>reserved := released res (reserved s)\<rparr>" "u' = u\<lparr>phase := Answered reply\<rparr>"
      using assms(4) Leaving by (simp_all add: advance_def run_release)
    then show ?thesis by (auto simp: temp_ok_def intro!: frame_groups_kept)
  next
    case (Some p)
    obtain k where k: "k < drawn s" "p = temp_path h (temp_name ''object-'' (numbers s) k)"
      using assms(3) Leaving Some by (auto simp: temp_ok_def)
    define nm where "nm = temp_name ''object-'' (numbers s) k"
    have nm: "normal nm" "p = temp_path h nm" using temp_name_normal k by (simp_all add: nm_def)
    obtain x where x: "run_state (leave_upload (temp_path h nm) res) s = (x, t)" "u' = u\<lparr>phase := Answered reply\<rparr>"
      using assms(4) Leaving Some nm(2) by (auto simp: advance_def split: prod.splits)
    note eff = leave_effect [OF assms(1) nm(1) x(1)]
    have "temps_kept h {nm'. slot (phase u) = Some (temp_path h nm')} (disk s) (disk t)"
      by (rule temps_kept_mono [OF eff(2)]) (use Leaving Some nm(2) in auto)
    then have "step_frame h u u' s t" using eff x(2) by (intro frame_groups_kept) auto
    then show ?thesis using x(2) by (simp add: temp_ok_def)
  qed
next
  case (Answered reply)
  then show ?thesis using assms(3,4) by (auto simp: intro!: frame_groups_kept)
qed

section \<open>The quota\<close>

text \<open>The part of an upload in the bookkeeping of a group: what it holds and what it may still add.\<close>

fun fits :: "string \<Rightarrow> phase \<Rightarrow> bool" where
  "fits key (Admitted g) = (stage_limit g = held key (reservation g))"
| "fits key (Staged g p n) = (n \<le> held key (reservation g))"
| "fits key _ = True"

definition quota_ok :: "lfs_handler \<Rightarrow> string \<Rightarrow> upload \<Rightarrow> bool" where
  "quota_ok h g u \<longleftrightarrow>
     0 \<le> held (group_key h g) (holding (phase u)) \<and>
     (if up_group u = g then fits (group_key h g) (phase u) else held (group_key h g) (holding (phase u)) = 0)"

text \<open>The group's policy says the same quota to every upload of the group.\<close>

definition same_quota :: "string \<Rightarrow> int \<Rightarrow> upload \<Rightarrow> bool" where
  "same_quota g quota u \<longleftrightarrow>
     (up_group u = g \<longrightarrow>
        (\<forall>k pol. policy (up_request u) k (up_repo u) = Inr pol \<longrightarrow> MaximumStorageBytes pol = quota))"

definition within_quota :: "lfs_handler \<Rightarrow> string \<Rightarrow> int \<Rightarrow> lfs_system \<Rightarrow> bool" where
  "within_quota h g quota s \<longleftrightarrow> disk_usage h (disk s) g + bytes_of (reserved s) (group_key h g) \<le> quota"

text \<open>One step: the table changes by what the upload takes or gives back, and the sum stays within the quota.\<close>

definition quota_step :: "lfs_handler \<Rightarrow> string \<Rightarrow> int \<Rightarrow> upload \<Rightarrow> upload \<Rightarrow> lfs_system \<Rightarrow> lfs_system \<Rightarrow> bool" where
  "quota_step h g quota u u' s t \<longleftrightarrow>
     quota_ok h g u' \<and> within_quota h g quota t \<and>
     bytes_of (reserved t) (group_key h g) =
       bytes_of (reserved s) (group_key h g) - held (group_key h g) (holding (phase u)) + held (group_key h g) (holding (phase u'))"

lemma reserve_other:
  assumes "run_state (reserve key usage quota maximum cl) s = (Inr (limit, res), t)" "k \<noteq> key"
  shows "bytes_of (reserved t) k = bytes_of (reserved s) k" "held k res = 0"
  using assms by (auto simp: reserve_def Let_def bytes_of_def held_def update_conv' split: if_splits)

lemma admit_quota:
  assumes "absolute_store (Storage h)" "valid g" "0 < quota" "in_int64 quota" "wf_upload h u" "same_quota g quota u"
    "within_quota h g quota s" "0 \<le> bytes_of (reserved s) (group_key h g)" "phase u = Arrived"
    "run_state (admit h (up_request u) (up_repo u)) s = (Inr gr, t)"
  shows "quota_step h g quota u (u\<lparr>phase := Admitted gr\<rparr>) s t"
proof -
  have repo: "wf_repository (up_repo u)" using assms(5) by (simp add: wf_upload_def)
  have d: "disk t = disk s" by (rule admit_disk [OF assms(1) repo assms(10)])
  from assms(1) repo assms(10) show ?thesis
  proof (cases rule: admit_effect)
    case (unlimited pol)
    then have "up_group u \<noteq> g" using assms(3,6) by (auto simp: same_quota_def)
    then show ?thesis using unlimited assms(7,9) by (simp add: quota_step_def quota_ok_def up_group_def)
  next
    case (limited pol maximum v)
    show ?thesis
    proof (cases "up_group u = g")
      case True
      have "wrap64 (disk_usage h (disk s) g) = disk_usage h (disk s) g"
        using assms(4,7,8) disk_usage_nonneg [of h "disk s" g] by (intro wrap64_id) (auto simp: within_quota_def in_int64_def)
      moreover have "MaximumStorageBytes pol = quota" using assms(6) True limited(1) by (auto simp: same_quota_def)
      ultimately have run: "run_state (reserve (group_key h g) (disk_usage h (disk s) g) quota maximum (ContentLength (up_request u))) v =
          (Inr (stage_limit gr, reservation gr), t)"
        using limited(6) True by (simp add: up_group_def)
      have b: "0 \<le> bytes_of (reserved v) (group_key h g)" using assms(8) limited(5) by simp
      note spec = reserve_spec [OF disk_usage_nonneg assms(4) b limited(3) run]
      then show ?thesis
        using assms(7,9) True limited(5) d
        by (auto simp: quota_step_def quota_ok_def within_quota_def up_group_def)
    next
      case False
      have other: "group_key h g \<noteq> group_key h (hd (Groups (up_repo u)))"
        using group_key_inj [OF assms(1,2) wf_root_valid [OF repo]] False by (simp add: up_group_def)
      show ?thesis
        using reserve_other [OF limited(6) other] assms(7,9) False limited(5) d
        by (simp add: quota_step_def quota_ok_def within_quota_def up_group_def)
    qed
  qed
qed

text \<open>Giving back what is held never overflows while the table holds at least that much.\<close>

lemma release_bytes:
  assumes "0 \<le> held key res" "held key res \<le> bytes_of rs key" "bytes_of rs key < 2 ^ 63"
  shows "bytes_of (released res rs) key = bytes_of rs key - held key res"
proof (cases res)
  case (Some ka)
  obtain k a where ka: "ka = (k, a)" by (cases ka)
  show ?thesis
  proof (cases "k = key")
    case True
    then have "wrap64 (bytes_of rs key - a) = bytes_of rs key - a"
      using assms Some ka by (intro wrap64_id) (auto simp: in_int64_def held_def)
    then show ?thesis using Some ka True by (simp add: bytes_of_released held_def)
  qed (use Some ka in \<open>simp add: bytes_of_released held_def\<close>)
qed (simp add: bytes_of_released)

text \<open>A step that gives back everything and adds at most the given number of bytes.\<close>

lemma release_quota:
  assumes "0 \<le> held (group_key h g) (holding (phase u))"
    "held (group_key h g) (holding (phase u)) \<le> bytes_of (reserved s) (group_key h g)"
    "within_quota h g quota s" "in_int64 quota"
    "reserved t = released (holding (phase u)) (reserved s)"
    "disk_usage h (disk t) g \<le> disk_usage h (disk s) g + held (group_key h g) (holding (phase u))"
    "holding (phase u') = None" "fits (group_key h g) (phase u')"
  shows "quota_step h g quota u u' s t"
proof -
  have "bytes_of (reserved s) (group_key h g) < 2 ^ 63"
    using assms(3,4) disk_usage_nonneg [of h "disk s" g] by (auto simp: within_quota_def in_int64_def)
  from release_bytes [OF assms(1,2) this] show ?thesis
    using assms by (simp add: quota_step_def quota_ok_def within_quota_def)
qed

text \<open>A step that keeps the table and the reservation.\<close>

lemma keep_quota:
  assumes "quota_ok h g u" "within_quota h g quota s" "reserved t = reserved s"
    "disk_usage h (disk t) g \<le> disk_usage h (disk s) g" "holding (phase u') = holding (phase u)"
    "up_repo u' = up_repo u" "up_group u = g \<Longrightarrow> fits (group_key h g) (phase u')"
  shows "quota_step h g quota u u' s t"
  using assms by (auto simp: quota_step_def quota_ok_def within_quota_def up_group_def)

lemma advance_quota:
  assumes "absolute_store (Storage h)" "valid g" "0 < quota" "in_int64 quota" "wf_upload h u" "same_quota g quota u"
    "temp_ok h s u" "quota_ok h g u" "within_quota h g quota s"
    "held (group_key h g) (holding (phase u)) \<le> bytes_of (reserved s) (group_key h g)"
    "run_state (advance h u) s = (u', t)"
  shows "quota_step h g quota u u' s t"
proof (cases "phase u")
  case Arrived
  obtain res where res: "run_state (admit h (up_request u) (up_repo u)) s = (res, t)"
      "u' = u\<lparr>phase := (case res of Inl reply \<Rightarrow> Answered reply | Inr g \<Rightarrow> Admitted g)\<rparr>"
    using assms(11) Arrived by (auto simp: advance_def split: prod.splits)
  have b: "0 \<le> bytes_of (reserved s) (group_key h g)" using assms(10) Arrived by simp
  show ?thesis
  proof (cases res)
    case (Inl reply)
    then have "disk t = disk s \<and> reserved t = reserved s"
      using admit_refused [OF assms(1) _ res(1) [unfolded Inl]] assms(5) by (simp add: wf_upload_def)
    then show ?thesis using res(2) Inl Arrived assms(8,9) by (intro keep_quota) simp_all
  next
    case (Inr gr)
    then show ?thesis using admit_quota [OF assms(1-6,9) b Arrived res(1) [unfolded Inr]] res(2) by simp
  qed
next
  case (Admitted gr)
  obtain st where st: "run_state (stageUpload h (up_request u) (up_oid u) (stage_limit gr) (limit_error gr)) s = (st, t)"
      "u' = u\<lparr>phase := (case st of Inl err \<Rightarrow> Leaving None (reservation gr) (stage_reply err)
        | Inr (p, n) \<Rightarrow> Staged gr p n)\<rparr>"
    using assms(11) Admitted by (auto simp: advance_def split: prod.splits)
  note eff = stage_effect [OF assms(1) st(1)]
  have kept: "reserved t = reserved s" "groups_kept h (disk s) (disk t)"
    using eff by (auto simp: stage_failed_def staging_def split: sum.splits prod.splits)
  have "fits (group_key h g) (phase u')" if "up_group u = g"
    using eff st(2) that assms(8) Admitted by (auto simp: quota_ok_def split: sum.splits)
  then show ?thesis
    using kept groups_kept_usage [OF kept(2) assms(2)] st(2) Admitted assms(8,9)
    by (intro keep_quota) (auto split: sum.splits)
next
  case (Staged gr p n)
  obtain k where k: "p = temp_path h (temp_name ''object-'' (numbers s) k)"
    using assms(7) Staged by (auto simp: temp_ok_def)
  define nm where "nm = temp_name ''object-'' (numbers s) k"
  have nm: "normal nm" "p = temp_path h nm" using temp_name_normal k by (simp_all add: nm_def)
  obtain c where c: "find_at (disk s) (uploads_parts h @ [nm]) = Inr (File c)" "n = int (length c)"
    using assms(7) Staged temp_path_parts [OF assms(1) nm(1)] nm(2) by (auto simp: temp_ok_def)
  obtain reply res where pub: "run_state (publish h (up_request u) (up_repo u) (up_oid u) (temp_path h nm) n (reservation gr)) s
      = ((reply, res), t)" "u' = u\<lparr>phase := Leaving (Some p) res reply\<rparr>"
    using assms(11) Staged nm(2) by (auto simp: advance_def split: prod.splits)
  have wf: "wf_repository (up_repo u)" "validOID (unicode_lower h) (up_oid u)" using assms(5) by (simp_all add: wf_upload_def)
  from assms(1) wf nm(1) c(1) pub(1) show ?thesis
  proof (cases rule: publish_effect)
    case refused
    then have "disk_usage h (disk t) g \<le> disk_usage h (disk s) g" using assms(2) by (auto simp: publication_def)
    then show ?thesis using refused pub(2) Staged assms(8,9) by (intro keep_quota) simp_all
  next
    case (accepted moved x)
    have "disk_usage h (disk t) g \<le> disk_usage h (disk s) g + (if moved \<and> up_group u = g then n else 0)"
      using accepted(4) assms(2) c(2) by (auto simp: publication_def up_group_def)
    moreover have "(if moved \<and> up_group u = g then n else 0) \<le> held (group_key h g) (reservation gr)"
      using assms(8) Staged by (auto simp: quota_ok_def split: if_splits)
    ultimately show ?thesis
      using accepted pub(2) Staged assms(4,8,9,10)
      by (intro release_quota) (auto simp: quota_ok_def split: if_splits)
  qed
next
  case (Leaving staged res reply)
  have "reserved t = released res (reserved s) \<and> groups_kept h (disk s) (disk t) \<and> u' = u\<lparr>phase := Answered reply\<rparr>"
  proof (cases staged)
    case None
    then show ?thesis using assms(11) Leaving by (auto simp: advance_def run_release)
  next
    case (Some p)
    obtain k where k: "p = temp_path h (temp_name ''object-'' (numbers s) k)"
      using assms(7) Leaving Some by (auto simp: temp_ok_def)
    then show ?thesis
      using assms(11) Leaving Some leave_effect [OF assms(1) temp_name_normal, of "numbers s" k res s]
      by (auto simp: advance_def split: prod.splits)
  qed
  then show ?thesis
    using assms(4,8,9,10) Leaving groups_kept_usage [OF _ assms(2)]
    by (intro release_quota) (auto simp: quota_ok_def split: if_splits)
next
  case (Answered reply)
  then show ?thesis using assms(8,9,11) by (intro keep_quota) auto
qed

end
