(* ===== verification/LfsQuota.thy ===== *)
theory LfsQuota
  imports LfsSystem
begin

text \<open>
  The properties of the LFS server: the quota of a group under concurrent uploads, admitted uploads
  that are not refused later, stored objects with the digest they are named by, the sections as
  the whole handler, and the quota decisions of a batch.
\<close>

section \<open>Invariants of the system\<close>

definition distinct_slots :: "upload list \<Rightarrow> bool" where
  "distinct_slots us \<longleftrightarrow>
     (\<forall>i j p. i < length us \<longrightarrow> j < length us \<longrightarrow>
        slot (phase (us ! i)) = Some p \<longrightarrow> slot (phase (us ! j)) = Some p \<longrightarrow> i = j)"

definition intact :: "lfs_handler \<Rightarrow> tree \<Rightarrow> bool" where
  "intact h d \<longleftrightarrow>
     (\<forall>repo oid c. wf_repository repo \<longrightarrow> validOID (unicode_lower h) oid \<longrightarrow>
        find_at d (object_parts h repo oid) = Inr (File c) \<longrightarrow> sha256_hex (lock_environment h) c = oid)"

fun uploads_inv :: "lfs_handler \<Rightarrow> lfs_system \<times> upload list \<Rightarrow> bool" where
  "uploads_inv h (s, us) \<longleftrightarrow>
     inj (numbers s) \<and> (\<forall>u\<in>set us. wf_upload h u \<and> temp_ok h s u) \<and> distinct_slots us"

definition held_by :: "lfs_handler \<Rightarrow> string \<Rightarrow> upload list \<Rightarrow> int" where
  "held_by h g us = sum_list (map (\<lambda>u. held (group_key h g) (holding (phase u))) us)"

fun quota_inv :: "lfs_handler \<Rightarrow> string \<Rightarrow> int \<Rightarrow> lfs_system \<times> upload list \<Rightarrow> bool" where
  "quota_inv h g quota (s, us) \<longleftrightarrow>
     (\<forall>u\<in>set us. quota_ok h g u \<and> same_quota g quota u) \<and> within_quota h g quota s \<and>
     bytes_of (reserved s) (group_key h g) = held_by h g us"

text \<open>The temporary file of an upload survives the steps of the others.\<close>

lemma temp_ok_other:
  assumes "absolute_store (Storage h)" "temp_ok h s v" "numbers t = numbers s" "drawn s \<le> drawn t"
    "temps_kept h X (disk s) (disk t)" "\<And>nm. nm \<in> X \<Longrightarrow> slot (phase v) \<noteq> Some (temp_path h nm)"
  shows "temp_ok h t v"
  unfolding temp_ok_def
proof (intro conjI allI impI)
  fix p assume "slot (phase v) = Some p"
  then show "\<exists>k < drawn t. p = temp_path h (temp_name ''object-'' (numbers t) k)"
    using assms(2-4) unfolding temp_ok_def by (metis less_le_trans)
next
  fix g p n assume st: "phase v = Staged g p n"
  then obtain k where k: "p = temp_path h (temp_name ''object-'' (numbers s) k)" using assms(2) by (auto simp: temp_ok_def)
  define nm where "nm = temp_name ''object-'' (numbers s) k"
  have nm: "normal nm" "p = temp_path h nm" using temp_name_normal k by (simp_all add: nm_def)
  then have "nm \<notin> X" using assms(6) st by fastforce
  then show "\<exists>c. find_at (disk t) (path_parts p) = Inr (File c) \<and> sha256_hex (lock_environment h) c = up_oid v \<and> n = int (length c)"
    using assms(2,5) st temp_path_parts [OF assms(1) nm(1)] nm(2) by (auto simp: temp_ok_def temps_kept_def)
qed

lemma distinct_slots_update:
  assumes "distinct_slots us" "i < length us"
    "\<And>p j. slot (phase u) = Some p \<Longrightarrow> j < length us \<Longrightarrow> j \<noteq> i \<Longrightarrow> slot (phase (us ! j)) \<noteq> Some p"
  shows "distinct_slots (us[i := u])"
  unfolding distinct_slots_def
proof (intro allI impI)
  fix a b p
  assume h: "a < length (us[i := u])" "b < length (us[i := u])"
    "slot (phase (us[i := u] ! a)) = Some p" "slot (phase (us[i := u] ! b)) = Some p"
  show "a = b"
    using h assms(1,2) assms(3) [of p a] assms(3) [of p b] unfolding distinct_slots_def
    by (cases "a = i"; cases "b = i") auto
qed

lemma uploads_inv_step:
  assumes "absolute_store (Storage h)" "lfs_step h w w'" "uploads_inv h w"
  shows "uploads_inv h w'"
  using assms(2)
proof cases
  case (moves i us s u t)
  have inv: "inj (numbers s)" "\<forall>u\<in>set us. wf_upload h u \<and> temp_ok h s u" "distinct_slots us"
    using assms(3) moves(1) by simp_all
  have i: "us ! i \<in> set us" using moves(3) by simp
  have "step_frame h (us ! i) u s t \<and> temp_ok h t u"
    using advance_frame [OF assms(1) _ _ moves(4)] inv(2) i by blast
  then have fr: "step_frame h (us ! i) u s t" and tu: "temp_ok h t u" by simp_all
  have num: "numbers t = numbers s" "drawn s \<le> drawn t" using fr by (simp_all add: step_frame_def)
  have other: "temp_ok h t (us ! j)" if "j < length us" "j \<noteq> i" for j
  proof (rule temp_ok_other [OF assms(1) _ num])
    show "temp_ok h s (us ! j)" using inv(2) that by simp
    show "temps_kept h {nm. slot (phase (us ! i)) = Some (temp_path h nm)} (disk s) (disk t)"
      using fr by (simp add: step_frame_def)
    show "slot (phase (us ! j)) \<noteq> Some (temp_path h nm)" if "nm \<in> {nm. slot (phase (us ! i)) = Some (temp_path h nm)}" for nm
      using inv(3) moves(3) \<open>j < length us\<close> \<open>j \<noteq> i\<close> that unfolding distinct_slots_def by blast
  qed
  have wf: "wf_upload h u" using advance_fields [OF moves(4)] inv(2) i by (simp add: wf_upload_def)
  have "distinct_slots (us[i := u])"
  proof (rule distinct_slots_update [OF inv(3) moves(3)])
    fix p j assume p: "slot (phase u) = Some p" "j < length us" "j \<noteq> i"
    show "slot (phase (us ! j)) \<noteq> Some p"
    proof
      assume j: "slot (phase (us ! j)) = Some p"
      have "temp_ok h s (us ! j)" using inv(2) p(2) by simp
      then obtain k where k: "k < drawn s" "p = temp_path h (temp_name ''object-'' (numbers s) k)"
        using j by (auto simp: temp_ok_def)
      have "slot (phase (us ! i)) = Some p \<or>
          (\<exists>k'. drawn s \<le> k' \<and> p = temp_path h (temp_name ''object-'' (numbers s) k'))"
        using fr p(1) by (auto simp: step_frame_def)
      then show False
      proof
        assume "slot (phase (us ! i)) = Some p"
        then show False using inv(3) moves(3) p(2,3) j unfolding distinct_slots_def by blast
      next
        assume "\<exists>k'. drawn s \<le> k' \<and> p = temp_path h (temp_name ''object-'' (numbers s) k')"
        then obtain k' where k': "drawn s \<le> k'" "p = temp_path h (temp_name ''object-'' (numbers s) k')" by blast
        have "temp_name ''object-'' (numbers s) k = temp_name ''object-'' (numbers s) k'"
          using trans [OF sym [OF k(2)] k'(2)] unfolding temp_path_eq [OF assms(1) temp_name_normal temp_name_normal] .
        then have "k = k'" unfolding temp_name_inj [OF inv(1)] .
        then show False using k(1) k'(1) by simp
      qed
    qed
  qed
  moreover have "wf_upload h v \<and> temp_ok h t v" if v: "v \<in> set (us[i := u])" for v
  proof -
    obtain j where j: "j < length us" "v = us[i := u] ! j" using v unfolding in_set_conv_nth by auto
    show ?thesis using j other wf tu inv(2) moves(3) by (cases "j = i") auto
  qed
  ultimately show ?thesis using moves(2) num inv(1) by simp
next
  case (others s d us sc)
  have "temp_ok h (s\<lparr>disk := d, script := sc\<rparr>) v" if "v \<in> set us" for v
    by (rule temp_ok_other [OF assms(1), of s]) (use assms(3) others that in \<open>auto simp: interference_def\<close>)
  then show ?thesis using assms(3) others by simp
qed

lemma held_by_update:
  "i < length us \<Longrightarrow> held_by h g (us[i := u]) =
     held_by h g us - held (group_key h g) (holding (phase (us ! i))) + held (group_key h g) (holding (phase u))"
proof (induction us arbitrary: i)
  case (Cons v us)
  then show ?case by (cases i) (auto simp: held_by_def)
qed simp

lemma held_by_member:
  "\<forall>u\<in>set us. quota_ok h g u \<Longrightarrow> u \<in> set us \<Longrightarrow> held (group_key h g) (holding (phase u)) \<le> held_by h g us"
  unfolding held_by_def by (rule member_le_sum_list) (auto simp: quota_ok_def)

lemma quota_inv_step:
  assumes "absolute_store (Storage h)" "valid g" "0 < quota" "in_int64 quota"
    "lfs_step h w w'" "uploads_inv h w" "quota_inv h g quota w"
  shows "quota_inv h g quota w'"
  using assms(5)
proof cases
  case (moves i us s u t)
  have inv: "\<forall>u\<in>set us. quota_ok h g u \<and> same_quota g quota u" "within_quota h g quota s"
    "bytes_of (reserved s) (group_key h g) = held_by h g us"
    and up: "\<forall>u\<in>set us. wf_upload h u \<and> temp_ok h s u"
    using assms(6,7) moves(1) by simp_all
  have i: "us ! i \<in> set us" using moves(3) by simp
  have held: "held (group_key h g) (holding (phase (us ! i))) \<le> bytes_of (reserved s) (group_key h g)"
    using held_by_member [OF _ i, of h g] inv(1,3) by simp
  have st: "quota_step h g quota (us ! i) u s t"
    using advance_quota [OF assms(1-4) _ _ _ _ inv(2) held moves(4)] inv(1) up i by blast
  have same: "same_quota g quota u"
    using inv(1) i advance_fields [OF moves(4)] unfolding same_quota_def up_group_def by metis
  have "quota_ok h g v \<and> same_quota g quota v" if "v \<in> set (us[i := u])" for v
    using that st same inv(1) set_update_subset_insert [of us i u] by (auto simp: quota_step_def)
  then show ?thesis
    using moves(2) st held_by_update [OF moves(3), of h g u] inv(3) by (simp add: quota_step_def)
next
  case (others s d us sc)
  then show ?thesis using assms(2,7) by (auto simp: interference_def within_quota_def)
qed

text \<open>The invariants hold in every reachable state.\<close>

lemma reachable_invariants:
  assumes "absolute_store (Storage h)" "(lfs_step h)\<^sup>*\<^sup>* w w'" "uploads_inv h w"
  shows "uploads_inv h w'"
    and "valid g \<Longrightarrow> 0 < quota \<Longrightarrow> in_int64 quota \<Longrightarrow> quota_inv h g quota w \<Longrightarrow> quota_inv h g quota w'"
  using assms(2,3)
proof (induction rule: rtranclp_induct)
  case (step w1 w2)
  { case 1 then show ?case using uploads_inv_step [OF assms(1)] step by blast }
  { case 2 then show ?case using quota_inv_step [OF assms(1)] step by blast }
qed simp_all

text \<open>Where a system starts: all uploads have just arrived and nothing is reserved.\<close>

definition lfs_start :: "lfs_handler \<Rightarrow> lfs_system \<Rightarrow> upload list \<Rightarrow> bool" where
  "lfs_start h s us \<longleftrightarrow>
     absolute_store (Storage h) \<and> inj (numbers s) \<and> reserved s = [] \<and>
     (\<forall>u\<in>set us. phase u = Arrived \<and> wf_repository (up_repo u) \<and> validOID (unicode_lower h) (up_oid u))"

lemma start_uploads: "lfs_start h s us \<Longrightarrow> uploads_inv h (s, us)"
  by (auto simp: lfs_start_def wf_upload_def temp_ok_def distinct_slots_def)

lemma start_quota:
  assumes "lfs_start h s us" "disk_usage h (disk s) g \<le> quota" "\<forall>u\<in>set us. same_quota g quota u"
  shows "quota_inv h g quota (s, us)"
proof -
  have "held_by h g us = 0" using assms(1) by (induction us) (auto simp: held_by_def lfs_start_def)
  then show ?thesis using assms by (auto simp: lfs_start_def quota_ok_def within_quota_def bytes_of_def)
qed

section \<open>The quota decisions of a batch\<close>

text \<open>An object of the reply that the client may upload.\<close>

definition offered :: "lfs_handler \<Rightarrow> lfs_object \<Rightarrow> bool" where
  "offered h ob \<longleftrightarrow>
     validOID (unicode_lower h) (ObjectOID ob) \<and> 0 \<le> ObjectSize ob \<and>
     (case Actions ob of None \<Rightarrow> False | Some as \<Rightarrow> map_of as ''upload'' \<noteq> None)"

definition offered_bytes :: "lfs_handler \<Rightarrow> lfs_object list \<Rightarrow> int" where
  "offered_bytes h obs = sum_list (map ObjectSize (filter (offered h) obs))"

lemma pendingBytes_sum:
  assumes "\<forall>e\<in>set P. 0 \<le> snd e" "sum_list (map snd P) < 2 ^ 63"
  shows "pendingBytes P = sum_list (map snd P)"
proof -
  have "fold (\<lambda>(_, size) tot. wrap64 (tot + size)) P a = a + sum_list (map snd P)"
    if "0 \<le> a" "a + sum_list (map snd P) < 2 ^ 63" "\<forall>e\<in>set P. 0 \<le> snd e" for a :: int and P :: "(string \<times> int) list"
    using that
  proof (induction P arbitrary: a)
    case (Cons e P)
    have "0 \<le> sum_list (map snd P)" using Cons.prems(3) by (intro sum_list_nonneg) auto
    then have "wrap64 (a + snd e) = a + snd e" using Cons.prems by (intro wrap64_id) (auto simp: in_int64_def)
    then show ?case using Cons by (simp add: case_prod_beta)
  qed simp
  from this [of 0 P] show ?thesis using assms by (simp add: pendingBytes_def)
qed

lemma update_fresh: "map_of P k = None \<Longrightarrow> AList.update k v P = P @ [(k, v)]"
  by (induction P) (auto split: if_splits)

text \<open>What one turn of the loop offers: nothing, or an object that still fits.\<close>

lemma batch_object_offer:
  assumes "0 < quota" "quota = MaximumStorageBytes pol" "quota < 2 ^ 62" "0 \<le> storage" "storage \<le> 2 ^ 62"
    "P = [] \<or> storage + sum_list (map snd P) \<le> quota" "\<forall>e\<in>set P. 0 \<le> snd e"
    "map_of P (ObjectOID ob) = None" "0 \<le> ObjectSize ob"
    "batch_object ''upload'' pol storage P base url info ob = (ob', P')"
  shows "ObjectOID ob' = ObjectOID ob \<and> ObjectSize ob' = ObjectSize ob \<and>
    (\<not> offered h ob' \<and> P' = P \<or>
     P' = P @ [(ObjectOID ob, ObjectSize ob)] \<and> storage + sum_list (map snd P) + ObjectSize ob \<le> quota)"
proof -
  have nn: "0 \<le> sum_list (map snd P)" using assms(7) by (intro sum_list_nonneg) auto
  have small: "sum_list (map snd P) \<le> 2 ^ 62" using assms(3,4,6) by auto
  have pb: "pendingBytes P = sum_list (map snd P)" using pendingBytes_sum [OF assms(7)] small by simp
  have total: "wrap64 (wrap64 (storage + pendingBytes P) + ObjectSize ob) = storage + sum_list (map snd P) + ObjectSize ob"
    if "ObjectSize ob \<le> quota"
  proof -
    have "storage + sum_list (map snd P) \<le> 2 ^ 62" using assms(3,5,6) by auto
    then have "wrap64 (storage + pendingBytes P) = storage + sum_list (map snd P)"
      using pb assms(4) nn by (intro wrap64_id [THEN trans]) (auto simp: in_int64_def)
    moreover have "wrap64 (storage + sum_list (map snd P) + ObjectSize ob) = storage + sum_list (map snd P) + ObjectSize ob"
      using \<open>storage + sum_list (map snd P) \<le> 2 ^ 62\<close> that assms(3,4,9) nn by (intro wrap64_id) (auto simp: in_int64_def)
    ultimately show ?thesis by simp
  qed
  show ?thesis
    using assms(1,2,8,10) total
    by (auto simp: batch_object_def admit_object_def Let_def offered_def add_action_def update_fresh
        split: if_splits sum.splits)
qed

lemma batch_loop_offers:
  assumes "0 < MaximumStorageBytes pol" "MaximumStorageBytes pol < 2 ^ 62" "0 \<le> storage" "storage \<le> 2 ^ 62"
    "P = [] \<or> storage + sum_list (map snd P) \<le> MaximumStorageBytes pol" "\<forall>e\<in>set P. 0 \<le> snd e"
    "distinct (map ObjectOID obs)" "\<forall>ob\<in>set obs. map_of P (ObjectOID ob) = None"
    "run_state (batch_loop h repo ''upload'' pol storage P obs) s = (reply, t)"
  shows "filter (offered h) reply = [] \<or>
    storage + sum_list (map snd P) + offered_bytes h reply \<le> MaximumStorageBytes pol"
  using assms(5-9)
proof (induction obs arbitrary: P s reply t)
  case Nil
  then show ?case by simp
next
  case (Cons ob obs)
  show ?case
  proof (cases "\<not> validOID (unicode_lower h) (ObjectOID ob) \<or> ObjectSize ob < 0")
    case True
    then obtain rest where rest: "run_state (batch_loop h repo ''upload'' pol storage P obs) s = (rest, t)"
        "reply = ob\<lparr>ObjectError := Some (422, ''invalid object'')\<rparr> # rest"
      using Cons.prems(5) by (auto split: prod.splits)
    have "\<not> offered h (ob\<lparr>ObjectError := Some (422, ''invalid object'')\<rparr>)" using True by (auto simp: offered_def)
    then show ?thesis using Cons.IH [OF Cons.prems(1,2) _ _ rest(1)] Cons.prems(3,4) rest(2) by (simp add: offered_bytes_def)
  next
    case False
    let ?p = "case objectPath (Storage h) repo (ObjectOID ob) of Inl _ \<Rightarrow> [] | Inr p \<Rightarrow> p"
    obtain info u where info: "run_state (Stat_at ?p) s = (info, u)" by fastforce
    obtain ob' P' where one: "batch_object ''upload'' pol storage P (object_url h repo (ObjectOID ob))
        (object_url h repo ''verify'') info ob = (ob', P')" by fastforce
    obtain rest where rest: "run_state (batch_loop h repo ''upload'' pol storage P' obs) u = (rest, t)" "reply = ob' # rest"
      using Cons.prems(5) False info one by (auto split: prod.splits)
    have step: "ObjectOID ob' = ObjectOID ob \<and> ObjectSize ob' = ObjectSize ob \<and>
        (\<not> offered h ob' \<and> P' = P \<or>
         P' = P @ [(ObjectOID ob, ObjectSize ob)] \<and>
         storage + sum_list (map snd P) + ObjectSize ob \<le> MaximumStorageBytes pol)"
      by (rule batch_object_offer [OF assms(1) refl assms(2-4) Cons.prems(1,2) _ _ one])
        (use Cons.prems(4) False in auto)
    then consider (no) "\<not> offered h ob'" "P' = P"
      | (yes) "P' = P @ [(ObjectOID ob, ObjectSize ob)]" "ObjectSize ob' = ObjectSize ob"
        "storage + sum_list (map snd P) + ObjectSize ob \<le> MaximumStorageBytes pol" by blast
    then show ?thesis
    proof cases
      case no
      then show ?thesis using Cons.IH [OF Cons.prems(1,2) _ _ rest(1) [unfolded no(2)]] Cons.prems(3,4) rest(2)
        by (simp add: offered_bytes_def)
    next
      case yes
      have ne: "ObjectOID v \<noteq> ObjectOID ob" if "v \<in> set obs" for v using Cons.prems(3) that by (auto simp: image_iff)
      have "filter (offered h) rest = [] \<or>
          storage + sum_list (map snd P') + offered_bytes h rest \<le> MaximumStorageBytes pol"
      proof (rule Cons.IH [OF _ _ _ _ rest(1)])
        show "P' = [] \<or> storage + sum_list (map snd P') \<le> MaximumStorageBytes pol" using yes(1,3) by simp
        show "\<forall>e\<in>set P'. 0 \<le> snd e" "distinct (map ObjectOID obs)" using Cons.prems(2,3) yes(1) False by auto
        show "\<forall>v\<in>set obs. map_of P' (ObjectOID v) = None" using Cons.prems(4) yes(1) ne by (simp add: map_add_def)
      qed
      moreover have "offered_bytes h rest = 0" if "filter (offered h) rest = []" using that by (simp add: offered_bytes_def)
      ultimately have "storage + sum_list (map snd P) + ObjectSize ob + offered_bytes h rest \<le> MaximumStorageBytes pol"
        using yes by auto
      moreover have "offered_bytes h reply \<le> ObjectSize ob + offered_bytes h rest"
        using rest(2) yes(2) False by (simp add: offered_bytes_def)
      ultimately show ?thesis by simp
    qed
  qed
qed

section \<open>Consequences of the invariants\<close>

lemma reachable_intact:
  assumes "absolute_store (Storage h)" "(lfs_step h)\<^sup>*\<^sup>* (s, us) (t, vs)" "uploads_inv h (s, us)" "intact h (disk s)"
  shows "intact h (disk t)"
proof -
  have "uploads_inv h w \<and> intact h (disk (fst w))" if "(lfs_step h)\<^sup>*\<^sup>* (s, us) w" for w
    using that
  proof (induction rule: rtranclp_induct)
    case base
    then show ?case using assms(3,4) by simp
  next
    case (step w1 w2)
    have "intact h (disk (fst w2))" using step(2)
    proof cases
      case (moves i us s u t)
      have "us ! i \<in> set us" using moves(3) by simp
      then have "step_frame h (us ! i) u s t"
        using advance_frame [OF assms(1) _ _ moves(4)] step.IH moves(1) by auto
      then show ?thesis using step.IH moves(1,2) unfolding step_frame_def intact_def by fastforce
    next
      case (others s d us sc)
      then show ?thesis using step.IH unfolding interference_def intact_def by fastforce
    qed
    then show ?case using uploads_inv_step [OF assms(1) step(2)] step.IH by simp
  qed
  from this [OF assms(2)] show ?thesis by simp
qed

text \<open>The publication of a staged upload whose bytes are reserved.\<close>

lemma publish_keeps_promise:
  assumes "absolute_store (Storage h)" "0 < quota" "in_int64 quota" "wf_upload h u" "temp_ok h t u"
    "quota_ok h g u \<and> same_quota g quota u" "within_quota h g quota t"
    "held (group_key h g) (holding (phase u)) \<le> bytes_of (reserved t) (group_key h g)"
    "hd (Groups (up_repo u)) = g" "phase u = Staged gr p n"
    "run_state (publish h (up_request u) (up_repo u) (up_oid u) p n (reservation gr)) t = ((reply, res), t')"
  shows "reply \<noteq> fail_reply 422 storage_limit"
proof
  assume refused: "reply = fail_reply 422 storage_limit"
  obtain k where k: "p = temp_path h (temp_name ''object-'' (numbers t) k)" using assms(5,10) by (auto simp: temp_ok_def)
  define nm where "nm = temp_name ''object-'' (numbers t) k"
  have nm: "normal nm" "p = temp_path h nm" using temp_name_normal k by (simp_all add: nm_def)
  obtain c where c: "find_at (disk t) (uploads_parts h @ [nm]) = Inr (File c)" "n = int (length c)"
    using assms(5,10) temp_path_parts [OF assms(1) nm(1)] nm(2) by (auto simp: temp_ok_def)
  have wf: "wf_repository (up_repo u)" "validOID (unicode_lower h) (up_oid u)" using assms(4) by (simp_all add: wf_upload_def)
  obtain pol where pol: "policy (up_request u) 3 (up_repo u) = Inr pol"
      "wrap64 (wrap64 (disk_usage h (disk t) g) + n) > MaximumStorageBytes pol"
    using publish_effect [OF assms(1) wf nm(1) c(1) assms(11) [unfolded nm(2)]] refused assms(9) by auto
  have q: "MaximumStorageBytes pol = quota" using assms(6,9) pol(1) by (auto simp: same_quota_def up_group_def)
  have n: "n \<le> held (group_key h g) (holding (phase u))" using assms(6,9,10) by (simp add: quota_ok_def up_group_def)
  have "disk_usage h (disk t) g + n \<le> quota" using n assms(7,8) by (simp add: within_quota_def)
  moreover have "0 \<le> disk_usage h (disk t) g" "0 \<le> n" using disk_usage_nonneg c(2) by simp_all
  moreover have "quota < 2 ^ 63" using assms(3) by (simp add: in_int64_def)
  ultimately have "wrap64 (wrap64 (disk_usage h (disk t) g) + n) = disk_usage h (disk t) g + n"
    by (simp add: wrap64_add in_int64_def)
  then show False using pol(2) q \<open>disk_usage h (disk t) g + n \<le> quota\<close> by simp
qed

section \<open>Whole requests\<close>

lemma reading_batch: "reading (batch_loop h repo operation pol storageBytes pending obs)"
  by (induction obs arbitrary: pending) (auto intro!: reading_bind split: prod.split)

lemma reading_requests: "reading (batch h r repo)" "reading (verify h r repo)"
  "Method r \<noteq> ''PUT'' \<Longrightarrow> reading (object_request h r repo oid)"
  unfolding batch_def verify_def VerifyObject_def OpenObject_def object_request_def
  by (auto intro!: reading_bind reading_usage reading_batch split: decoded.split sum.split)

text \<open>Without the permission the publication does nothing.\<close>

lemma publish_denied:
  assumes "Authorize r = Some f" "\<not> allowed (f 1 repo True)"
  shows "\<exists>reply. run_state (publish h r repo oid p n res) s = ((reply, res), s)"
proof -
  have "\<exists>reply. authorize r 1 repo True = Inl reply"
    using assms by (simp add: authorize_def Let_def split: option.split)
  then obtain reply where "authorize r 1 repo True = Inl reply" ..
  then show ?thesis by (auto simp: publish_def Let_def split: sum.split)
qed

lemma stage_groups_kept:
  "absolute_store (Storage h) \<Longrightarrow> run_state (stageUpload h r oid limit lerr) s = (res, t) \<Longrightarrow> groups_kept h (disk s) (disk t)"
  using stage_effect [of h r oid limit lerr s res t]
  by (auto simp: stage_failed_def staging_def split: sum.splits prod.splits)

lemma put_denied:
  assumes "absolute_store (Storage h)" "wf_repository repo" "Authorize r = Some f" "\<not> allowed (f 1 repo True)"
    "run_state (put_object h r repo oid) s = (reply, t)"
  shows "groups_kept h (disk s) (disk t)"
proof -
  obtain a s1 where a: "run_state (admit h r repo) s = (a, s1)" by fastforce
  have d1: "disk s1 = disk s" by (rule admit_disk [OF assms(1,2) a])
  show ?thesis
  proof (cases a)
    case (Inl reply')
    then show ?thesis using assms(5) a d1 by (simp add: put_object_def)
  next
    case (Inr g)
    obtain st s2 where st: "run_state (stageUpload h r oid (stage_limit g) (limit_error g)) s1 = (st, s2)" by fastforce
    have k2: "groups_kept h (disk s) (disk s2)" using stage_groups_kept [OF assms(1) st] d1 by simp
    show ?thesis
    proof (cases st)
      case (Inl err)
      then have "t = s2\<lparr>reserved := released (reservation g) (reserved s2)\<rparr>"
        using assms(5) a Inr st by (auto simp: put_object_def run_release)
      then show ?thesis using k2 by simp
    next
      case staged: (Inr pn)
      obtain p n where pn: "pn = (p, n)" by (cases pn)
      obtain nm where nm: "p = temp_path h nm" "normal nm"
        using stage_effect [OF assms(1) st] staged pn by auto
      obtain reply' where pub: "run_state (publish h r repo oid p n (reservation g)) s2 = ((reply', reservation g), s2)"
        using publish_denied [OF assms(3,4)] by blast
      define s3 where "s3 = snd (run_state (leave_upload p (reservation g)) s2)"
      have x: "run_state (leave_upload p (reservation g)) s2 = ((), s3)" by (simp add: s3_def prod_eq_iff)
      have "t = s3" using assms(5) a Inr st staged pn pub x by (simp add: put_object_def)
      then show ?thesis using groups_kept_trans [OF k2] leave_effect(1) [OF assms(1) nm(2)] x nm(1) by blast
    qed
  qed
qed

lemma ServeHTTP_groups_kept:
  assumes "absolute_store (Storage h)" "ParseGitRequestPath (URL_Path r) = Inr (repo, suff)" "Authorize r = Some f"
    "\<not> (Method r = ''PUT'' \<and> allowed (f 0 repo True) \<and> allowed (f 1 repo True))"
    "run_state (ServeHTTP h r) s = (reply, t)"
  shows "groups_kept h (disk s) (disk t)"
proof -
  define r' where "r' = r\<lparr>Body := protect_body (body_limit r suff) (Body r)\<rparr>"
  have r': "Method r' = Method r" "Authorize r' = Some f" using assms(3) by (simp_all add: r'_def)
  have quiet: "groups_kept h (disk s) (disk t)" if "reading m" "run_state m s = (reply, t)" for m
    using reading_keeps [OF that] by simp
  have wf: "wf_repository repo" using parse_sound [OF assms(2)] by simp
  consider (reads) m where "reading m" "run_state m s = (reply, t)"
    | (writes) oid where "Method r = ''PUT''" "allowed (f 0 repo True)" "run_state (put_object h r' repo oid) s = (reply, t)"
  proof -
    define oid where "oid = TrimPrefix suff ''/info/lfs/objects/''"
    have m: "ServeHTTP h r = (if Name repo = ''control'' then State_Monad.return NotFound
        else if ContentLength r' > body_limit r suff
        then State_Monad.return (fail_reply 413 (Errorf ''LFS request body is too large''))
        else if suff = ''/info/lfs/objects/batch'' then batch h r' repo
        else if suff = ''/info/lfs/objects/verify'' then verify h r' repo
        else if HasPrefix suff ''/info/lfs/objects/'' then
          (case authorize r' 0 repo (Method r' = ''PUT'') of
             Inl reply \<Rightarrow> State_Monad.return reply
           | Inr _ \<Rightarrow> (case policy r' 0 repo of Inl reply \<Rightarrow> State_Monad.return reply
               | Inr _ \<Rightarrow> object_request h r' repo oid))
        else State_Monad.return NotFound)"
      unfolding ServeHTTP_def assms(2) Let_def r'_def oid_def by simp
    show ?thesis
    proof (cases "reading (ServeHTTP h r)")
      case True
      then show ?thesis using reads assms(5) by blast
    next
      case False
      then have "\<not> reading (object_request h r' repo oid)" "authorize r' 0 repo (Method r' = ''PUT'') = Inr ()"
          "ServeHTTP h r = object_request h r' repo oid"
        unfolding m using reading_requests(1,2) by (auto split: if_splits sum.splits)
      moreover from this have put: "Method r' = ''PUT''" using reading_requests(3) by blast
      ultimately have "validOID (unicode_lower h) oid" "allowed (f 0 repo True)"
        using r' by (auto simp: object_request_def authorize_def Let_def split: if_splits option.splits)
      then show ?thesis
        using writes [of oid] put r'(1) assms(5) \<open>ServeHTTP h r = object_request h r' repo oid\<close>
        by (simp add: object_request_def)
    qed
  qed
  then show ?thesis
  proof cases
    case (reads m)
    then show ?thesis using quiet by blast
  next
    case (writes oid)
    then show ?thesis using put_denied [OF assms(1) wf r'(2)] assms(4) by blast
  qed
qed

lemma admit_not_ok: "run_state (admit h r repo) s \<noteq> (Inl (StatusOnly n), t)"
  by (auto simp: admit_def Let_def policy_def split: sum.splits if_splits option.splits prod.splits)

text \<open>A successful upload of a new object stores its body.\<close>

lemma put_object_stores:
  assumes "absolute_store (Storage h)" "wf_repository repo" "validOID (unicode_lower h) oid"
    "find_at (disk s) (object_parts h repo oid) = Inl e"
    "run_state (put_object h r repo oid) s = (StatusOnly 200, t)"
  shows "find_at (disk t) (object_parts h repo oid) = Inr (File (fst (Body r)))"
proof -
  obtain a s1 where a: "run_state (admit h r repo) s = (a, s1)" by fastforce
  have d1: "disk s1 = disk s" by (rule admit_disk [OF assms(1,2) a])
  obtain g where g: "a = Inr g" using assms(5) a admit_not_ok [of h r repo s _ s1]
    by (cases a) (auto simp: put_object_def)
  obtain st s2 where st: "run_state (stageUpload h r oid (stage_limit g) (limit_error g)) s1 = (st, s2)" by fastforce
  note eff = stage_effect [OF assms(1) st]
  obtain p n where pn: "st = Inr (p, n)"
    using assms(5) a g st by (cases st) (auto simp: put_object_def stage_reply_def run_release split: if_splits)
  obtain nm c where nm: "p = temp_path h nm" "normal nm" "staging h nm c s1 s2" "c = fst (Body r)"
    using eff pn by auto
  have absent: "find_at (disk s2) (object_parts h repo oid) = Inl e"
    using groups_kept_object [OF stage_groups_kept [OF assms(1) st] assms(2)] d1 assms(4) by simp
  have c: "find_at (disk s2) (uploads_parts h @ [nm]) = Inr (File c)" using nm(3) by (simp add: staging_def)
  obtain reply res s3 where pub: "run_state (publish h r repo oid p n (reservation g)) s2 = ((reply, res), s3)"
    by (metis prod.exhaust)
  obtain x where x: "run_state (leave_upload p res) s3 = (x, t)" "reply = StatusOnly 200"
    using assms(5) a g st pn pub by (auto simp: put_object_def split: prod.splits)
  from assms(1-3) nm(2) c pub [unfolded nm(1)] have "find_at (disk s3) (object_parts h repo oid) = Inr (File c)"
    by (cases rule: publish_effect) (use x(2) absent in auto)
  then show ?thesis
    using groups_kept_object [OF leave_effect(1) [OF assms(1) nm(2)] assms(2)] x(1) nm(1,4) by simp
qed

lemma download_stored:
  assumes "absolute_store (Storage h)" "wf_repository repo" "validOID (unicode_lower h) oid"
    "find_at (disk t) (object_parts h repo oid) = Inr x" "script t = []" "Method get = ''GET''"
  shows "run_state (object_request h get repo oid) t = (ObjectReply oid x True, t)"
proof -
  have p: "path_parts (rooted_path (object_parts h repo oid)) = object_parts h repo oid"
    by (rule path_parts_rooted [OF object_parts_normal [OF assms(1-3)]])
  have "run_state (Stat_at (rooted_path (object_parts h repo oid))) t = (Inr x, t)" "run_state Touch_at t = (Inr (), t)"
    unfolding Stat_at_def Touch_at_def fs_read_ok [OF assms(5)] p using assms(4) by (simp_all add: rooted_path_def)
  then show ?thesis using assms(3,6) objectPath_parts [OF assms(1-3)] by (simp add: object_request_def)
qed

end
