(* ===== verification/LfsClaims.thy ===== *)
theory LfsClaims
  imports LfsQuota
begin

text \<open>The properties of the LFS server, with their witnesses on a small system.\<close>

section \<open>A small system\<close>

definition sample_lfs :: lfs_handler where
  "sample_lfs = \<lparr>Storage = \<lparr>working_dir = Inr ''/'', Root = ''/srv''\<rparr>, PublicURL = ''https://git'',
     lock_environment = \<lparr>getwd = Inr ''/'', eval_symlinks = Inr, sha256_hex = (\<lambda>_. replicate 64 (CHR ''a''))\<rparr>,
     unicode_lower = id, decode_batch = (\<lambda>_. Malformed), decode_verify = (\<lambda>_. Malformed)\<rparr>"

definition sample_oid :: string where
  "sample_oid = replicate 64 (CHR ''a'')"

definition sample_policy :: lfs_policy where
  "sample_policy = \<lparr>Enabled = True, MaximumObjectBytes = 0, MaximumStorageBytes = 10\<rparr>"

definition sample_put :: lfs_request where
  "sample_put = \<lparr>URL_Path = ''/g/r.git/info/lfs/objects/x'', Method = ''PUT'', ContentLength = 5,
     Body = (''hello'', None), Authorize = None, Policy = Some (\<lambda>_ _. Inr sample_policy), PlainOpen = (\<lambda>_. Inr ())\<rparr>"

definition sample_repository :: repository where
  "sample_repository = \<lparr>Groups = [''g''], Name = ''r''\<rparr>"

definition sample_upload :: upload where
  "sample_upload = \<lparr>up_request = sample_put, up_repo = sample_repository, up_oid = sample_oid, phase = Arrived\<rparr>"

definition sample_system :: lfs_system where
  "sample_system = \<lparr>disk = Dir [(''srv'', Dir [(''g'', Dir [(''r.git'', Dir [])])])],
     script = [], numbers = id, drawn = 0, reserved = []\<rparr>"

text \<open>The states of the upload that runs alone, after each of its sections.\<close>

definition sample_at :: "nat \<Rightarrow> upload \<times> lfs_system" where
  "sample_at n = ((\<lambda>(u, s). run_state (advance sample_lfs u) s) ^^ n) (sample_upload, sample_system)"

lemma sample_wf: "wf_repository sample_repository" "validOID id sample_oid" "valid ''g''"
proof -
  show "wf_repository sample_repository" "valid ''g''"
    by (simp_all add: sample_repository_def wf_repository_def valid_def valid_char_def HasPrefix_def)
  show "validOID id sample_oid" unfolding validOID_iff by (simp add: sample_oid_def list_all_iff lower_hex_def)
qed

lemma sample_start: "lfs_start sample_lfs sample_system [sample_upload]"
  using sample_wf
  by (simp add: lfs_start_def sample_lfs_def sample_system_def sample_upload_def absolute_store_def HasPrefix_def)

lemma sample_same_quota: "same_quota ''g'' 10 sample_upload"
  by (auto simp: same_quota_def sample_upload_def sample_put_def policy_def sample_policy_def split: if_splits)

lemma sample_usage: "disk_usage sample_lfs (disk sample_system) ''g'' = 0"
  by code_simp

lemma sample_Suc: "sample_at (Suc n) = run_state (advance sample_lfs (fst (sample_at n))) (snd (sample_at n))"
  by (simp add: sample_at_def case_prod_beta)

lemma sample_reach: "(lfs_step sample_lfs)\<^sup>*\<^sup>* (sample_system, [sample_upload]) (snd (sample_at n), [fst (sample_at n)])"
proof (induction n)
  case 0
  then show ?case by (simp add: sample_at_def)
next
  case (Suc n)
  obtain u s where at: "sample_at n = (u, s)" by fastforce
  then have next': "run_state (advance sample_lfs u) s = sample_at (Suc n)" by (simp add: sample_Suc)
  obtain v t where v: "sample_at (Suc n) = (v, t)" by fastforce
  have "lfs_step sample_lfs (s, [u]) (t, [u][0 := v])"
    by (rule lfs_step.moves) (use next' v in simp_all)
  then show ?case using Suc.IH at v by (simp add: rtranclp.rtrancl_into_rtrancl)
qed

lemma sample_fields:
  "up_request (fst (sample_at n)) = sample_put \<and> up_repo (fst (sample_at n)) = sample_repository \<and>
   up_oid (fst (sample_at n)) = sample_oid"
proof (induction n)
  case 0
  then show ?case by (simp add: sample_at_def sample_upload_def)
next
  case (Suc n)
  have "run_state (advance sample_lfs (fst (sample_at n))) (snd (sample_at n)) = (fst (sample_at (Suc n)), snd (sample_at (Suc n)))"
    by (simp add: sample_Suc)
  from advance_fields [OF this] show ?case using Suc by simp
qed

lemma find_empty: "xs \<noteq> [] \<Longrightarrow> find_at (Dir []) xs = Inl ErrNotExist"
  by (cases xs) simp_all

lemma sample_no_objects:
  assumes "wf_repository repo"
  shows "find_at (disk sample_system) (object_parts sample_lfs repo oid) \<noteq> Inr (File c)"
proof -
  have base: "store_parts (Storage sample_lfs) = [''srv'']" by code_simp
  obtain g gs where "Groups repo = g # gs" using assms by (cases "Groups repo") (auto simp: wf_repository_def)
  then show ?thesis
    by (cases gs) (auto simp: object_parts_def repository_parts_def base sample_system_def find_empty split: if_splits)
qed

section \<open>Properties\<close>

text \<open>
  Property C3. The quota of a root group holds under concurrent uploads: from a state in which all
  uploads have just arrived, nothing is reserved and the group is within its quota, whatever
  sections of uploads run in whatever order, whatever calls fail and whatever else happens that adds
  no bytes, the bytes on disk and the reserved bytes together never exceed the quota that the
  group's policy states, so the bytes on disk never do.
\<close>

theorem lfs_quota_respected:
  assumes "lfs_start h s us" "valid g" "0 < quota" "in_int64 quota" "disk_usage h (disk s) g \<le> quota"
    "\<And>u k pol. u \<in> set us \<Longrightarrow> hd (Groups (up_repo u)) = g \<Longrightarrow>
       policy (up_request u) k (up_repo u) = Inr pol \<Longrightarrow> MaximumStorageBytes pol = quota"
    "(lfs_step h)\<^sup>*\<^sup>* (s, us) (t, vs)"
  shows "disk_usage h (disk t) g + reserved_bytes t (rooted_path (store_parts (Storage h) @ [g])) \<le> quota \<and>
    0 \<le> reserved_bytes t (rooted_path (store_parts (Storage h) @ [g]))"
proof -
  have "\<forall>u\<in>set us. same_quota g quota u" using assms(6) unfolding same_quota_def up_group_def by blast
  note q0 = start_quota [OF assms(1,5) this]
  have abs: "absolute_store (Storage h)" using assms(1) by (simp add: lfs_start_def)
  have q: "quota_inv h g quota (t, vs)"
    by (rule reachable_invariants(2) [OF abs assms(7) start_uploads [OF assms(1)] assms(2-4) q0])
  have "0 \<le> held_by h g vs" unfolding held_by_def by (rule sum_list_nonneg) (use q in \<open>auto simp: quota_ok_def\<close>)
  then show ?thesis using q by (simp add: within_quota_def reserved_bytes_of group_key_def)
qed

theorem lfs_quota_respected_witness:
  "disk_usage sample_lfs (disk (snd (sample_at 4))) ''g'' = 5 \<and>
   disk_usage sample_lfs (disk (snd (sample_at 4))) ''g'' +
     reserved_bytes (snd (sample_at 4)) (rooted_path (store_parts (Storage sample_lfs) @ [''g''])) \<le> 10"
proof -
  have "disk_usage sample_lfs (disk (snd (sample_at 4))) ''g'' = 5" by code_simp
  moreover have "disk_usage sample_lfs (disk (snd (sample_at 4))) ''g'' +
      reserved_bytes (snd (sample_at 4)) (rooted_path (store_parts (Storage sample_lfs) @ [''g''])) \<le> 10"
    using lfs_quota_respected [OF sample_start sample_wf(3), of 10 "snd (sample_at 4)" "[fst (sample_at 4)]"]
      sample_reach [of 4] sample_usage sample_same_quota
    by (auto simp: in_int64_def same_quota_def up_group_def)
  ultimately show ?thesis ..
qed

text \<open>
  Property C34. An upload that was admitted and staged is not refused for the storage limit when it
  is published: with the policy unchanged, whatever ran in between, the publication section does
  not answer that the object exceeds the storage limit of the group.
\<close>

theorem admitted_upload_fits:
  assumes "lfs_start h s us" "valid g" "0 < quota" "in_int64 quota" "disk_usage h (disk s) g \<le> quota"
    "\<And>u k pol. u \<in> set us \<Longrightarrow> hd (Groups (up_repo u)) = g \<Longrightarrow>
       policy (up_request u) k (up_repo u) = Inr pol \<Longrightarrow> MaximumStorageBytes pol = quota"
    "(lfs_step h)\<^sup>*\<^sup>* (s, us) (t, vs)" "u \<in> set vs" "hd (Groups (up_repo u)) = g" "phase u = Staged gr p n"
  shows "fst (fst (run_state (publish h (up_request u) (up_repo u) (up_oid u) p n (reservation gr)) t))
    \<noteq> Failure 422 [] (Errorf ''object exceeds the group LFS storage limit'')"
proof -
  have "\<forall>u\<in>set us. same_quota g quota u" using assms(6) unfolding same_quota_def up_group_def by blast
  note q0 = start_quota [OF assms(1,5) this]
  have abs: "absolute_store (Storage h)" using assms(1) by (simp add: lfs_start_def)
  note up = start_uploads [OF assms(1)]
  have q: "quota_inv h g quota (t, vs)" by (rule reachable_invariants(2) [OF abs assms(7) up assms(2-4) q0])
  have "uploads_inv h (t, vs)" by (rule reachable_invariants(1) [OF abs assms(7) up])
  then have u: "wf_upload h u" "temp_ok h t u" using assms(8) by simp_all
  obtain reply res t' where pub: "run_state (publish h (up_request u) (up_repo u) (up_oid u) p n (reservation gr)) t = ((reply, res), t')"
    by (metis prod.exhaust)
  have "reply \<noteq> fail_reply 422 storage_limit"
    by (rule publish_keeps_promise [OF abs assms(3,4) u _ _ _ assms(9,10) pub])
      (use q assms(8) held_by_member [of vs h g u] in auto)
  then show ?thesis using pub by simp
qed

theorem admitted_upload_fits_witness:
  "\<exists>gr p n. phase (fst (sample_at 2)) = Staged gr p n \<and>
     fst (fst (run_state (publish sample_lfs sample_put sample_repository sample_oid p n (reservation gr)) (snd (sample_at 2))))
       \<noteq> Failure 422 [] (Errorf ''object exceeds the group LFS storage limit'')"
proof -
  let ?u = "fst (sample_at 2)"
  have "(case phase ?u of Staged _ _ _ \<Rightarrow> True | _ \<Rightarrow> False)" by code_simp
  then obtain gr p n where st: "phase ?u = Staged gr p n" by (auto split: phase.splits)
  have f: "up_request ?u = sample_put" "up_repo ?u = sample_repository" "up_oid ?u = sample_oid"
    using sample_fields [of 2] by simp_all
  have "fst (fst (run_state (publish sample_lfs (up_request ?u) (up_repo ?u) (up_oid ?u) p n (reservation gr)) (snd (sample_at 2))))
       \<noteq> Failure 422 [] (Errorf ''object exceeds the group LFS storage limit'')"
    by (rule admitted_upload_fits [OF sample_start sample_wf(3), of 10 "snd (sample_at 2)" "[?u]"])
      (use sample_reach [of 2] sample_usage sample_same_quota st f in
        \<open>auto simp: in_int64_def same_quota_def up_group_def sample_repository_def\<close>)
  then show ?thesis using st f by auto
qed

text \<open>
  Property C4. Stored objects are what their names say: if every object in the store has the digest
  it is named by, this stays true under concurrent uploads, also when calls fail at any point. The
  random numbers of temporary names do not repeat.
\<close>

theorem stored_objects_intact:
  assumes "lfs_start h s us" "(lfs_step h)\<^sup>*\<^sup>* (s, us) (t, vs)"
    "\<And>repo oid c. wf_repository repo \<Longrightarrow> validOID (unicode_lower h) oid \<Longrightarrow>
       find_at (disk s) (object_parts h repo oid) = Inr (File c) \<Longrightarrow> sha256_hex (lock_environment h) c = oid"
    "wf_repository repo" "validOID (unicode_lower h) oid" "find_at (disk t) (object_parts h repo oid) = Inr (File c)"
  shows "sha256_hex (lock_environment h) c = oid"
proof -
  have abs: "absolute_store (Storage h)" using assms(1) by (simp add: lfs_start_def)
  have "intact h (disk s)" using assms(3) unfolding intact_def by blast
  then have "intact h (disk t)" by (rule reachable_intact [OF abs assms(2) start_uploads [OF assms(1)]])
  then show ?thesis using assms(4-6) by (simp add: intact_def)
qed

theorem stored_objects_intact_witness:
  "find_at (disk (snd (sample_at 4))) (object_parts sample_lfs sample_repository sample_oid) = Inr (File ''hello'') \<and>
   sha256_hex (lock_environment sample_lfs) ''hello'' = sample_oid"
proof -
  have f: "find_at (disk (snd (sample_at 4))) (object_parts sample_lfs sample_repository sample_oid) = Inr (File ''hello'')"
    by code_simp
  have low: "unicode_lower sample_lfs = id" by (simp add: sample_lfs_def)
  have "sha256_hex (lock_environment sample_lfs) ''hello'' = sample_oid"
  proof (rule stored_objects_intact [OF sample_start sample_reach [of 4] _ sample_wf(1) _ f])
    show "validOID (unicode_lower sample_lfs) sample_oid" using sample_wf(2) low by simp
  next
    fix repo oid c
    assume "wf_repository repo" "find_at (disk sample_system) (object_parts sample_lfs repo oid) = Inr (File c)"
    then show "sha256_hex (lock_environment sample_lfs) c = oid" by (simp add: sample_no_objects)
  qed
  then show ?thesis using f by simp
qed

text \<open>
  Property C35. What was uploaded is what is downloaded: when an upload of an object that is not
  stored yet is answered with success, a download right after it, with no failing call, answers with
  exactly the bytes of the upload.
\<close>

theorem upload_then_download:
  assumes "absolute_store (Storage h)" "wf_repository repo" "validOID (unicode_lower h) oid"
    "find_at (disk s) (object_parts h repo oid) = Inl e"
    "run_state (put_object h r repo oid) s = (StatusOnly 200, t)"
    "script t = []" "Method get = ''GET''"
  shows "run_state (object_request h get repo oid) t = (ObjectReply oid (File (fst (Body r))) True, t)"
proof -
  have "find_at (disk t) (object_parts h repo oid) = Inr (File (fst (Body r)))"
    by (rule put_object_stores [OF assms(1-5)])
  then show ?thesis using download_stored [OF assms(1-3) _ assms(6,7)] by blast
qed

theorem upload_then_download_witness:
  "fst (run_state (put_object sample_lfs sample_put sample_repository sample_oid) sample_system) = StatusOnly 200 \<and>
   fst (run_state (object_request sample_lfs (sample_put\<lparr>Method := ''GET''\<rparr>) sample_repository sample_oid)
     (snd (run_state (put_object sample_lfs sample_put sample_repository sample_oid) sample_system)))
     = ObjectReply sample_oid (File ''hello'') True"
proof -
  let ?run = "run_state (put_object sample_lfs sample_put sample_repository sample_oid) sample_system"
  have ok: "fst ?run = StatusOnly 200" by code_simp
  have sc: "script (snd ?run) = []" by code_simp
  have absent: "find_at (disk sample_system) (object_parts sample_lfs sample_repository sample_oid) = Inl ErrNotExist" by code_simp
  have h: "absolute_store (Storage sample_lfs)" "unicode_lower sample_lfs = id"
    by (simp_all add: sample_lfs_def absolute_store_def HasPrefix_def)
  have "run_state (object_request sample_lfs (sample_put\<lparr>Method := ''GET''\<rparr>) sample_repository sample_oid) (snd ?run)
      = (ObjectReply sample_oid (File (fst (Body sample_put))) True, snd ?run)"
    by (rule upload_then_download [OF h(1) sample_wf(1) _ absent _ sc])
      (use sample_wf(2) h(2) ok in \<open>simp_all add: prod_eq_iff\<close>)
  then show ?thesis using ok by (simp add: sample_put_def)
qed

text \<open>
  Property C36. Only permitted uploads write: whatever the LFS handler answers, nothing in any group
  changes unless the request is a PUT and the authoriser allowed writing to the repository both
  when the request came in and under the publication locks.
\<close>

theorem lfs_write_authorized:
  assumes "absolute_store (Storage h)" "ParseGitRequestPath (URL_Path r) = Inr (repo, suff)" "Authorize r = Some f"
    "\<not> (Method r = ''PUT'' \<and> allowed (f 0 repo True) \<and> allowed (f 1 repo True))"
    "run_state (ServeHTTP h r) s = (reply, t)" "valid g"
  shows "find_at (disk t) (store_parts (Storage h) @ g # rest) = find_at (disk s) (store_parts (Storage h) @ g # rest)"
  using ServeHTTP_groups_kept [OF assms(1-5)] assms(6) by (simp add: groups_kept_def)

theorem lfs_write_authorized_witness:
  "let denied = \<lparr>authenticated = True, allowed = False, retry_after = None\<rparr>;
       r = sample_put\<lparr>URL_Path := ''/g/r.git/info/lfs/objects/'' @ sample_oid, Authorize := Some (\<lambda>_ _ _. denied)\<rparr>
   in find_at (disk (snd (run_state (ServeHTTP sample_lfs r) sample_system))) [''srv'', ''g'', ''r.lfs''] =
        find_at (disk sample_system) [''srv'', ''g'', ''r.lfs'']"
proof -
  define r where "r = sample_put\<lparr>URL_Path := ''/g/r.git/info/lfs/objects/'' @ sample_oid,
    Authorize := Some (\<lambda>_ _ _. \<lparr>authenticated = True, allowed = False, retry_after = None\<rparr>)\<rparr>"
  have base: "store_parts (Storage sample_lfs) = [''srv'']" by code_simp
  have "absolute_store (Storage sample_lfs)" by (simp add: sample_lfs_def absolute_store_def HasPrefix_def)
  moreover have "ParseGitRequestPath (''/g/r.git/info/lfs/objects/'' @ sample_oid)
      = Inr (sample_repository, ''/info/lfs/objects/'' @ sample_oid)" by code_simp
  ultimately have "find_at (disk (snd (run_state (ServeHTTP sample_lfs r) sample_system))) (store_parts (Storage sample_lfs) @ ''g'' # [''r.lfs''])
      = find_at (disk sample_system) (store_parts (Storage sample_lfs) @ ''g'' # [''r.lfs''])"
    by (intro lfs_write_authorized [where r = r and repo = sample_repository and suff = "''/info/lfs/objects/'' @ sample_oid" and
        reply = "fst (run_state (ServeHTTP sample_lfs r) sample_system)" and
        f = "\<lambda>_ _ _. \<lparr>authenticated = True, allowed = False, retry_after = None\<rparr>"])
      (use sample_wf(3) in \<open>simp_all add: r_def\<close>)
  then show ?thesis by (simp add: base r_def Let_def)
qed

text \<open>
  Further property. The sections are the handler: running the four sections of an upload one after the
  other gives the reply and the final state of the upload handler.
\<close>

theorem put_object_is_its_sections:
  "\<exists>u t. run_state (alone h \<lparr>up_request = r, up_repo = repo, up_oid = oid, phase = Arrived\<rparr>) s = (u, t) \<and>
     run_state (put_object h r repo oid) s = (case phase u of Answered reply \<Rightarrow> reply | _ \<Rightarrow> NotFound, t) \<and>
     reply_of u \<noteq> None"
  by (auto simp: alone_def put_object_def advance_def reply_of_def
      split: prod.splits sum.splits phase.splits)

text \<open>
  Property C37. The quota decisions of an upload batch add up: when the object ids of the batch are
  different and the quota is below 2^62 bytes, the bytes in the group and all the bytes that the
  reply offers to upload do not exceed the quota, unless nothing is offered.
\<close>

theorem batch_within_quota:
  assumes "0 < MaximumStorageBytes pol" "MaximumStorageBytes pol < 2 ^ 62" "0 \<le> storage" "storage \<le> 2 ^ 62"
    "distinct (map ObjectOID obs)"
    "run_state (batch_loop h repo ''upload'' pol storage [] obs) s = (reply, t)" "filter (offered h) reply \<noteq> []"
  shows "storage + sum_list (map ObjectSize (filter (offered h) reply)) \<le> MaximumStorageBytes pol"
  using batch_loop_offers [OF assms(1-4) _ _ assms(5) _ assms(6)] assms(7) by (simp add: offered_bytes_def)

definition sample_object :: "int \<Rightarrow> lfs_object" where
  "sample_object n = \<lparr>ObjectOID = sample_oid, ObjectSize = n, Actions = None, ObjectError = None\<rparr>"

theorem batch_within_quota_witness:
  "filter (offered sample_lfs) (fst (run_state (batch_loop sample_lfs sample_repository ''upload'' sample_policy 3 []
      [sample_object 7]) sample_system)) \<noteq> [] \<and>
   3 + sum_list (map ObjectSize (filter (offered sample_lfs) (fst (run_state (batch_loop sample_lfs sample_repository ''upload''
      sample_policy 3 [] [sample_object 7]) sample_system)))) \<le> 10"
proof -
  let ?run = "run_state (batch_loop sample_lfs sample_repository ''upload'' sample_policy 3 [] [sample_object 7]) sample_system"
  have ne: "filter (offered sample_lfs) (fst ?run) \<noteq> []" by code_simp
  have q: "MaximumStorageBytes sample_policy = 10" by (simp add: sample_policy_def)
  have "3 + sum_list (map ObjectSize (filter (offered sample_lfs) (fst ?run))) \<le> MaximumStorageBytes sample_policy"
    by (rule batch_within_quota [where t = "snd ?run" and s = sample_system and obs = "[sample_object 7]" and
        h = sample_lfs and repo = sample_repository]) (use ne in \<open>simp_all add: q\<close>)
  then show ?thesis using ne q by simp
qed

text \<open>
  With one object id twice the decisions do not add up: the second entry of a batch may announce a
  larger size than the first, and the group of ten bytes with five in use is offered ten more.
\<close>

theorem batch_duplicate_exceeds_quota:
  "let reply = fst (run_state (batch_loop sample_lfs sample_repository ''upload'' sample_policy 5 []
       [sample_object 1, sample_object 10]) sample_system)
   in map (offered sample_lfs) reply = [True, True] \<and> map ObjectSize reply = [1, 10] \<and>
     5 + ObjectSize (reply ! 1) > MaximumStorageBytes sample_policy"
  by code_simp

end
