(* ===== verification/ImportNetwork.thy ===== *)
theory ImportNetwork
  imports Prelude
begin

text \<open>
  Which hosts a remote import may contact, \<^verbatim>\<open>src/internal/storage/import_network.go\<close>: the
  allow list, the address filter, resolution, dialling and redirects. Addresses are words with the
  predicates of Go's \<^verbatim>\<open>net/netip\<close>. The parsers of addresses, prefixes and URLs, the resolver and the
  dialer are parameters; the resolver answers with the number of the call, since a name may resolve
  differently each time. The lemmas turn the bit tests into numeric ranges.
\<close>

unbundle bit_operations_syntax

section \<open>Addresses\<close>

text \<open>\<^verbatim>\<open>netip.Addr\<close>: the zero value, an IPv4 address, or an IPv6 address with its zone (empty for none).\<close>

datatype addr = NoAddr | V4 "32 word" | V6 "128 word" string

definition quad :: "nat \<Rightarrow> nat \<Rightarrow> nat \<Rightarrow> nat \<Rightarrow> nat" where
  "quad a b c d = ((a * 256 + b) * 256 + c) * 256 + d"

text \<open>The first two and the third group of an IPv6 address whose other groups are zero.\<close>

definition hextets :: "nat \<Rightarrow> nat \<Rightarrow> nat \<Rightarrow> nat" where
  "hextets a b c = ((a * 65536 + b) * 65536 + c) * 2 ^ 80"

definition Unmap :: "addr \<Rightarrow> addr" where
  "Unmap a = (case a of
     V6 w z \<Rightarrow> if drop_bit 32 w = 65535 then V4 (ucast w) else a
   | _ \<Rightarrow> a)"

definition byte4 :: "nat \<Rightarrow> 32 word \<Rightarrow> 32 word" where
  "byte4 i w = drop_bit (24 - 8 * i) w AND 255"

definition byte6 :: "nat \<Rightarrow> 128 word \<Rightarrow> 128 word" where
  "byte6 i w = drop_bit (120 - 8 * i) w AND 255"

definition IsUnspecified :: "addr \<Rightarrow> bool" where
  "IsUnspecified a \<longleftrightarrow> a = V4 0 \<or> a = V6 0 []"

definition IsLoopback :: "addr \<Rightarrow> bool" where
  "IsLoopback a = (case a of NoAddr \<Rightarrow> False | V4 w \<Rightarrow> byte4 0 w = 127 | V6 w z \<Rightarrow> w = 1)"

definition IsLinkLocalUnicast :: "addr \<Rightarrow> bool" where
  "IsLinkLocalUnicast a = (case a of
     NoAddr \<Rightarrow> False
   | V4 w \<Rightarrow> byte4 0 w = 169 \<and> byte4 1 w = 254
   | V6 w z \<Rightarrow> (drop_bit 112 w AND 0xffc0) = 0xfe80)"

definition IsLinkLocalMulticast :: "addr \<Rightarrow> bool" where
  "IsLinkLocalMulticast a = (case a of
     NoAddr \<Rightarrow> False
   | V4 w \<Rightarrow> byte4 0 w = 224 \<and> byte4 1 w = 0 \<and> byte4 2 w = 0
   | V6 w z \<Rightarrow> (drop_bit 112 w AND 0xff0f) = 0xff02)"

definition IsPrivate :: "addr \<Rightarrow> bool" where
  "IsPrivate a = (case a of
     NoAddr \<Rightarrow> False
   | V4 w \<Rightarrow> byte4 0 w = 10 \<or> (byte4 0 w = 172 \<and> (byte4 1 w AND 0xf0) = 16) \<or> (byte4 0 w = 192 \<and> byte4 1 w = 168)
   | V6 w z \<Rightarrow> (byte6 0 w AND 0xfe) = 0xfc)"

definition IsMulticast :: "addr \<Rightarrow> bool" where
  "IsMulticast a = (case a of NoAddr \<Rightarrow> False | V4 w \<Rightarrow> (byte4 0 w AND 0xf0) = 0xe0 | V6 w z \<Rightarrow> byte6 0 w = 0xff)"

definition IsGlobalUnicast :: "addr \<Rightarrow> bool" where
  "IsGlobalUnicast a \<longleftrightarrow>
     a \<noteq> NoAddr \<and> a \<noteq> V4 0 \<and> a \<noteq> V4 0xffffffff \<and> a \<noteq> V6 0 [] \<and>
     \<not> IsLoopback a \<and> \<not> IsMulticast a \<and> \<not> IsLinkLocalUnicast a"

text \<open>\<^verbatim>\<open>netip.Prefix\<close> and its methods: an address with a zone is in no prefix.\<close>

record ip_prefix =
  prefix_ip :: addr
  prefix_bits :: nat

definition mask6 :: "nat \<Rightarrow> 128 word" where
  "mask6 n = push_bit (128 - n) (mask n)"

definition prefix_Contains :: "ip_prefix \<Rightarrow> addr \<Rightarrow> bool" where
  "prefix_Contains p a = (case (prefix_ip p, a) of
     (V4 base, V4 w) \<Rightarrow> drop_bit (32 - prefix_bits p) (w XOR base) = 0
   | (V6 base _, V6 w z) \<Rightarrow> z = [] \<and> (w XOR base) AND mask6 (prefix_bits p) = 0
   | _ \<Rightarrow> False)"

definition Masked :: "ip_prefix \<Rightarrow> ip_prefix" where
  "Masked p = (case prefix_ip p of
     NoAddr \<Rightarrow> p
   | V4 base \<Rightarrow> p\<lparr>prefix_ip := V4 (push_bit (32 - prefix_bits p) (drop_bit (32 - prefix_bits p) base))\<rparr>
   | V6 base _ \<Rightarrow> p\<lparr>prefix_ip := V6 (base AND mask6 (prefix_bits p)) []\<rparr>)"

definition PrefixFrom :: "addr \<Rightarrow> nat \<Rightarrow> ip_prefix" where
  "PrefixFrom a bits = \<lparr>prefix_ip = (case a of V6 w _ \<Rightarrow> V6 w [] | _ \<Rightarrow> a), prefix_bits = bits\<rparr>"

section \<open>The policy\<close>

record import_policy =
  allowedHosts :: "string list"
  allowedPrefixes :: "ip_prefix list"

record url =
  URLScheme :: string
  URLHostname :: string
  URLPort :: string

record net_env =
  unicode_to_lower :: "string \<Rightarrow> string"
  unicode_equal_fold :: "string \<Rightarrow> string \<Rightarrow> bool"
  ParseAddr :: "string \<Rightarrow> addr option"
  ParsePrefix :: "string \<Rightarrow> ip_prefix option"
  parse_url :: "string \<Rightarrow> url option"
  LookupNetIP :: "nat \<Rightarrow> string \<Rightarrow> addr list result"
  DialContext :: "addr \<Rightarrow> string \<Rightarrow> string result"

definition ImportAddressError :: "string \<Rightarrow> string \<Rightarrow> goerror" where
  "ImportAddressError host reason = Errorf (''remote import host '' @ host @ '' is blocked: '' @ reason)"

definition normalizeImportHost :: "net_env \<Rightarrow> string \<Rightarrow> string" where
  "normalizeImportHost env host = TrimSuffix (ToLower (unicode_to_lower env) (TrimSpace host)) ''.''"

definition label_ok :: "string \<Rightarrow> bool" where
  "label_ok l \<longleftrightarrow>
     \<not> (length l = 0 \<or> length l > 63 \<or> hd l = CHR ''-'' \<or> last l = CHR ''-'') \<and>
     list_all (\<lambda>c. (c \<ge> CHR ''a'' \<and> c \<le> CHR ''z'') \<or> (c \<ge> CHR ''0'' \<and> c \<le> CHR ''9'') \<or> c = CHR ''-'') l"

definition validateImportAllowlistHostname :: "net_env \<Rightarrow> string \<Rightarrow> unit result" where
  "validateImportAllowlistHostname env host =
     (let err = Inl (Errorf (''invalid remote import allowlist entry '' @ host)) in
      if list_ex (\<lambda>c. c \<in> {CHR '' '', CHR 0x09, CHR 0x0D, CHR 0x0A, CHR ''/'', CHR ''@'', CHR ''['', CHR '']'', CHR '':''}) host \<or>
        HasPrefix host ''.'' \<or> Contains host ''..'' \<or> length host > 253
      then err
      else if \<not> list_all label_ok (Split (CHR ''.'') host) then err
      else case parse_url env (''http://'' @ host) of
        None \<Rightarrow> err
      | Some parsed \<Rightarrow> if URLHostname parsed \<noteq> host \<or> URLPort parsed \<noteq> [] then err else Inr ())"

fun add_entries :: "net_env \<Rightarrow> import_policy \<Rightarrow> string list \<Rightarrow> import_policy result" where
  "add_entries env p [] = Inr p"
| "add_entries env p (raw # rest) =
     (let entry = normalizeImportHost env raw in
      if entry = [] then add_entries env p rest
      else case ParsePrefix env entry of
        Some pre \<Rightarrow> add_entries env (p\<lparr>allowedPrefixes := allowedPrefixes p @ [Masked pre]\<rparr>) rest
      | None \<Rightarrow>
          (case ParseAddr env entry of
             Some a \<Rightarrow>
               let address = Unmap a; bits = (case address of V4 _ \<Rightarrow> 32 | _ \<Rightarrow> 128) in
               add_entries env (p\<lparr>allowedPrefixes := allowedPrefixes p @ [PrefixFrom address bits]\<rparr>) rest
           | None \<Rightarrow>
               (case validateImportAllowlistHostname env entry of
                  Inl err \<Rightarrow> Inl err
                | Inr _ \<Rightarrow> add_entries env (p\<lparr>allowedHosts := List.insert entry (allowedHosts p)\<rparr>) rest)))"

definition NewImportNetworkPolicy :: "net_env \<Rightarrow> string list \<Rightarrow> import_policy result" where
  "NewImportNetworkPolicy env allowlist = add_entries env \<lparr>allowedHosts = [], allowedPrefixes = []\<rparr> allowlist"

definition hostExplicitlyAllowed :: "net_env \<Rightarrow> import_policy \<Rightarrow> string \<Rightarrow> bool" where
  "hostExplicitlyAllowed env p host \<longleftrightarrow> normalizeImportHost env host \<in> set (allowedHosts p)"

definition addressExplicitlyAllowed :: "import_policy \<Rightarrow> addr \<Rightarrow> bool" where
  "addressExplicitlyAllowed p address = list_ex (\<lambda>pre. prefix_Contains pre (Unmap address)) (allowedPrefixes p)"

definition v4_prefix :: "nat \<Rightarrow> nat \<Rightarrow> ip_prefix" where
  "v4_prefix base bits = \<lparr>prefix_ip = V4 (of_nat base), prefix_bits = bits\<rparr>"

definition v6_prefix :: "nat \<Rightarrow> nat \<Rightarrow> ip_prefix" where
  "v6_prefix base bits = \<lparr>prefix_ip = V6 (of_nat base) [], prefix_bits = bits\<rparr>"

definition blockedImportPrefixes :: "ip_prefix list" where
  "blockedImportPrefixes =
     [v4_prefix (quad 0 0 0 0) 8,
      v4_prefix (quad 10 0 0 0) 8,
      v4_prefix (quad 100 64 0 0) 10,
      v4_prefix (quad 127 0 0 0) 8,
      v4_prefix (quad 169 254 0 0) 16,
      v4_prefix (quad 172 16 0 0) 12,
      v4_prefix (quad 192 0 0 0) 24,
      v4_prefix (quad 192 0 2 0) 24,
      v4_prefix (quad 192 168 0 0) 16,
      v4_prefix (quad 192 88 99 0) 24,
      v4_prefix (quad 198 18 0 0) 15,
      v4_prefix (quad 198 51 100 0) 24,
      v4_prefix (quad 203 0 113 0) 24,
      v4_prefix (quad 224 0 0 0) 4,
      v4_prefix (quad 240 0 0 0) 4,
      v6_prefix 0 128,
      v6_prefix 1 128,
      v6_prefix (hextets 0x64 0xff9b 0) 96,
      v6_prefix (hextets 0x64 0xff9b 1) 48,
      v6_prefix (hextets 0x100 0 0) 64,
      v6_prefix (hextets 0x2001 0 0) 32,
      v6_prefix (hextets 0x2001 2 0) 48,
      v6_prefix (hextets 0x2001 0xdb8 0) 32,
      v6_prefix (hextets 0x2002 0 0) 16,
      v6_prefix (hextets 0xfc00 0 0) 7,
      v6_prefix (hextets 0xfe80 0 0) 10,
      v6_prefix (hextets 0xff00 0 0) 8]"

definition blockedImportAddress :: "addr \<Rightarrow> bool" where
  "blockedImportAddress a =
     (let address = Unmap a in
      if address = NoAddr \<or> IsUnspecified address \<or> IsLoopback address \<or> IsLinkLocalUnicast address \<or>
        IsLinkLocalMulticast address \<or> IsPrivate address \<or> IsMulticast address \<or> \<not> IsGlobalUnicast address
      then True
      else list_ex (\<lambda>p. prefix_Contains p address) blockedImportPrefixes)"

section \<open>Resolving, dialling and redirects\<close>

text \<open>The loop over the resolved addresses: the first blocked one refuses the host.\<close>

fun filter_addresses :: "import_policy \<Rightarrow> string \<Rightarrow> bool \<Rightarrow> addr list \<Rightarrow> addr list result" where
  "filter_addresses p host hostAllowed [] = Inr []"
| "filter_addresses p host hostAllowed (a # as) =
     (let address = Unmap a in
      if \<not> hostAllowed \<and> \<not> addressExplicitlyAllowed p address \<and> blockedImportAddress address
      then Inl (ImportAddressError host ''it resolves to a non-public network address'')
      else bindr (filter_addresses p host hostAllowed as) (\<lambda>rest. Inr (address # rest)))"

definition resolveAllowed :: "net_env \<Rightarrow> import_policy \<Rightarrow> nat \<Rightarrow> string \<Rightarrow> addr list result" where
  "resolveAllowed env p call host =
     (let normalizedHost = normalizeImportHost env host in
      if normalizedHost = [] then Inl (ImportAddressError host ''host is empty'')
      else bindr
        (case ParseAddr env normalizedHost of
           Some literal \<Rightarrow> Inr [literal]
         | None \<Rightarrow>
             (case LookupNetIP env call normalizedHost of
                Inl resolveErr \<Rightarrow> Inl (Wrap (''resolve remote import host '' @ normalizedHost) resolveErr)
              | Inr resolved \<Rightarrow> Inr resolved))
        (\<lambda>addresses.
          if addresses = [] then Inl (Errorf (''remote import host '' @ normalizedHost @ '' resolved to no addresses''))
          else filter_addresses p normalizedHost (hostExplicitlyAllowed env p normalizedHost) addresses))"

definition ValidateURL :: "net_env \<Rightarrow> import_policy \<Rightarrow> nat \<Rightarrow> string \<Rightarrow> unit result" where
  "ValidateURL env p call rawURL =
     (case parse_url env rawURL of
        None \<Rightarrow> Inl (Errorf ''remote import URL has no host'')
      | Some parsed \<Rightarrow>
          if URLHostname parsed = [] then Inl (Errorf ''remote import URL has no host'')
          else if URLScheme parsed \<noteq> ''http'' \<and> URLScheme parsed \<noteq> ''https''
          then Inl (Errorf ''remote import URL must use HTTP or HTTPS'')
          else bindr (resolveAllowed env p call (URLHostname parsed)) (\<lambda>_. Inr ()))"

text \<open>\<^verbatim>\<open>errors.Join\<close> of a list, nil for the empty list.\<close>

fun join_errors :: "goerror list \<Rightarrow> goerror option" where
  "join_errors [] = None"
| "join_errors [e] = Some e"
| "join_errors (e # es) = map_option (JoinErr e) (join_errors es)"

text \<open>
  The candidates in order: the first connection is returned. Besides the outcome the model returns
  the addresses that were dialled.
\<close>

fun dial_candidates :: "net_env \<Rightarrow> string \<Rightarrow> goerror list \<Rightarrow> addr list \<Rightarrow> (goerror option + string) \<times> addr list" where
  "dial_candidates env port errs [] = (Inl (join_errors errs), [])"
| "dial_candidates env port errs (a # as) =
     (case DialContext env a port of
        Inr connection \<Rightarrow> (Inr connection, [a])
      | Inl dialErr \<Rightarrow> (case dial_candidates env port (errs @ [dialErr]) as of (r, dialled) \<Rightarrow> (r, a # dialled)))"

text \<open>\<open>hostport\<close> is what \<^verbatim>\<open>net.SplitHostPort\<close> makes of the address.\<close>

definition importDialContext ::
    "net_env \<Rightarrow> import_policy \<Rightarrow> nat \<Rightarrow> (string \<times> string) result \<Rightarrow> (goerror option + string) \<times> addr list" where
  "importDialContext env p call hostport =
     (case hostport of
        Inl err \<Rightarrow> (Inl (Some (Wrap ''parse remote import address'' err)), [])
      | Inr (host, port) \<Rightarrow>
          (case resolveAllowed env p call host of
             Inl err \<Rightarrow> (Inl (Some err), [])
           | Inr addresses \<Rightarrow> dial_candidates env port [] addresses))"

definition effectiveImportURLPort :: "url \<Rightarrow> string" where
  "effectiveImportURLPort u =
     (if URLPort u \<noteq> [] then URLPort u else if URLScheme u = ''https'' then ''443'' else ''80'')"

text \<open>\<^verbatim>\<open>strings.EqualFold\<close>; beyond ASCII the Unicode tables decide, a field of the environment.\<close>

definition EqualFold :: "net_env \<Rightarrow> string \<Rightarrow> string \<Rightarrow> bool" where
  "EqualFold env a b =
     (if list_all (\<lambda>c. (of_char c :: nat) < 128) (a @ b) then map ascii_lower a = map ascii_lower b
      else unicode_equal_fold env a b)"

definition sameImportURLOrigin :: "net_env \<Rightarrow> url \<Rightarrow> url \<Rightarrow> bool" where
  "sameImportURLOrigin env left right \<longleftrightarrow>
     EqualFold env (URLScheme left) (URLScheme right) \<and> EqualFold env (URLHostname left) (URLHostname right) \<and>
     effectiveImportURLPort left = effectiveImportURLPort right"

record http_request =
  RequestURL :: url
  RequestURL_String :: string
  RequestHeader :: "(string \<times> string) list"

text \<open>The requests followed so far, each with its URL if it has one; the result is the request that is sent next.\<close>

definition importCheckRedirect ::
    "net_env \<Rightarrow> import_policy \<Rightarrow> nat \<Rightarrow> http_request \<Rightarrow> url option list \<Rightarrow> http_request result" where
  "importCheckRedirect env p call request via =
     (if length via \<ge> 10 then Inl (Errorf ''remote import has too many redirects'')
      else case ValidateURL env p call (RequestURL_String request) of
        Inl err \<Rightarrow> Inl (Wrap ''remote import redirect rejected'' err)
      | Inr _ \<Rightarrow>
          Inr (case via of
                 Some first # _ \<Rightarrow>
                   if \<not> sameImportURLOrigin env first (RequestURL request)
                   then request\<lparr>RequestHeader := filter (\<lambda>(k, v). k \<noteq> ''Authorization'') (RequestHeader request)\<rparr>
                   else request
               | _ \<Rightarrow> request))"

end
