(* ===== verification/ImportClaims.thy ===== *)
theory ImportClaims
  imports ImportNetwork
begin

text \<open>
  The address filter of remote imports in numbers, and the properties of dialling and redirects:
  which addresses are blocked, that only permitted addresses are dialled, and that credentials stay
  with the origin they were given for.
\<close>

unbundle bit_operations_syntax

section \<open>Bits and ranges\<close>

lemma xor_zero_iff: "x XOR y = 0 \<longleftrightarrow> x = (y :: 'a::len word)"
  by (auto simp: bit_eq_iff bit_simps)

lemma drop_bit_range:
  fixes w b :: "'a::len word"
  assumes "2 ^ k dvd unat b"
  shows "drop_bit k (w XOR b) = 0 \<longleftrightarrow> unat b \<le> unat w \<and> unat w < unat b + 2 ^ k"
proof -
  have "drop_bit k (w XOR b) = 0 \<longleftrightarrow> drop_bit k w = drop_bit k b" by (simp add: xor_zero_iff)
  also have "\<dots> \<longleftrightarrow> unat (drop_bit k w) = unat (drop_bit k b)" by (simp add: word_unat_eq_iff)
  also have "\<dots> \<longleftrightarrow> unat w div 2 ^ k = unat b div 2 ^ k" by (simp only: unat_drop_bit_eq drop_bit_nat_def)
  also have "\<dots> \<longleftrightarrow> unat b \<le> unat w \<and> unat w < unat b + 2 ^ k"
  proof -
    obtain m where m: "unat b = 2 ^ k * m" using assms by (auto simp: dvd_def)
    have "unat w div 2 ^ k = m \<longleftrightarrow> 2 ^ k * m \<le> unat w \<and> unat w < 2 ^ k * m + 2 ^ k"
      using div_nat_eqI [of "2 ^ k" m "unat w"] dividend_less_times_div [of "2 ^ k" "unat w"]
      by (auto simp: mult.commute)
    then show ?thesis using m by simp
  qed
  finally show ?thesis .
qed

lemma and_high_mask: "x AND push_bit k (mask m) = push_bit k (take_bit m (drop_bit k (x :: 'a::len word)))"
  by (rule bit_word_eqI) (auto simp: bit_simps)

lemma mask6_zero: "n \<le> 128 \<Longrightarrow> x AND mask6 n = 0 \<longleftrightarrow> drop_bit (128 - n) x = 0"
proof -
  assume n: "n \<le> 128"
  have "x AND mask6 n = push_bit (128 - n) (drop_bit (128 - n) x)"
    unfolding mask6_def by (rule bit_word_eqI) (use n in \<open>auto simp: bit_simps\<close>)
  moreover have "drop_bit k x = 0" if "push_bit k (drop_bit k x) = 0" for k
  proof (rule bit_word_eqI)
    fix i
    have "bit (push_bit k (drop_bit k x)) (k + i) \<longleftrightarrow> bit x (k + i) \<and> k + i < 128" by (auto simp: bit_simps)
    then show "bit (drop_bit k x) i \<longleftrightarrow> bit (0 :: 128 word) i"
      using that bit_imp_le_length [of x "k + i"] by (auto simp: bit_simps)
  qed
  ultimately show ?thesis by auto
qed

section \<open>Blocked IPv4 addresses\<close>

text \<open>The special-purpose ranges, first and last address.\<close>

definition special_v4 :: "(nat \<times> nat) list" where
  "special_v4 =
     [(quad 0 0 0 0, quad 0 255 255 255), (quad 10 0 0 0, quad 10 255 255 255),
      (quad 100 64 0 0, quad 100 127 255 255), (quad 127 0 0 0, quad 127 255 255 255),
      (quad 169 254 0 0, quad 169 254 255 255), (quad 172 16 0 0, quad 172 31 255 255),
      (quad 192 0 0 0, quad 192 0 0 255), (quad 192 0 2 0, quad 192 0 2 255),
      (quad 192 168 0 0, quad 192 168 255 255), (quad 192 88 99 0, quad 192 88 99 255),
      (quad 198 18 0 0, quad 198 19 255 255), (quad 198 51 100 0, quad 198 51 100 255),
      (quad 203 0 113 0, quad 203 0 113 255), (quad 224 0 0 0, quad 239 255 255 255),
      (quad 240 0 0 0, quad 255 255 255 255)]"

definition within :: "(nat \<times> nat) list \<Rightarrow> nat \<Rightarrow> bool" where
  "within ranges n = list_ex (\<lambda>(lo, hi). lo \<le> n \<and> n \<le> hi) ranges"

lemma within_range: "lo \<le> n \<Longrightarrow> n \<le> hi \<Longrightarrow> (lo, hi) \<in> set ranges \<Longrightarrow> within ranges n"
  by (auto simp: within_def list_ex_iff)

lemma v4_prefix_range:
  assumes "base < 2 ^ 32" "2 ^ (32 - bits) dvd base"
  shows "prefix_Contains (v4_prefix base bits) (V4 w) \<longleftrightarrow> base \<le> unat w \<and> unat w \<le> base + (2 ^ (32 - bits) - 1)"
proof -
  have "unat (of_nat base :: 32 word) = base" using assms(1) by (simp add: unat_of_nat)
  moreover have "x < base + 2 ^ (32 - bits) \<longleftrightarrow> x \<le> base + (2 ^ (32 - bits) - 1)" for x :: nat
    by (cases "2 ^ (32 - bits) :: nat") auto
  ultimately show ?thesis using drop_bit_range [of "32 - bits" "of_nat base :: 32 word" w] assms(2)
    by (simp add: prefix_Contains_def v4_prefix_def)
qed

lemma v6_prefix_v4: "\<not> prefix_Contains (v6_prefix base bits) (V4 w)" "\<not> prefix_Contains (v4_prefix base bits) (V6 x z)"
  by (simp_all add: prefix_Contains_def v6_prefix_def v4_prefix_def)

lemma blocked_prefixes_v4:
  "list_ex (\<lambda>p. prefix_Contains p (V4 w)) blockedImportPrefixes \<longleftrightarrow> within special_v4 (unat w)"
  by (simp add: blockedImportPrefixes_def v4_prefix_range v6_prefix_v4 quad_def within_def special_v4_def)

lemma unat_byte4: "unat (byte4 i w) = (unat w div 2 ^ (24 - 8 * i)) mod 256"
proof -
  have m: "(255 :: 32 word) = mask 8" by (simp add: mask_eq_exp_minus_1)
  show ?thesis
    unfolding byte4_def m by (simp add: unsigned_take_bit_eq unat_drop_bit_eq drop_bit_nat_def take_bit_nat_def flip: take_bit_eq_mask)
qed

lemma byte4_const:
  "byte4 i w = numeral c \<longleftrightarrow> unat (byte4 i w) = unat (numeral c :: 32 word)" "byte4 i w = 0 \<longleftrightarrow> unat (byte4 i w) = 0"
  by (simp_all add: word_unat_eq_iff)

text \<open>The high four bits of a byte.\<close>

lemma and_240: "b < 256 \<Longrightarrow> b AND 240 = 16 * (b div 16)" for b :: nat
proof -
  assume b: "b < 256"
  have e: "(240 :: nat) = push_bit 4 (mask 4)" by (simp add: mask_eq_exp_minus_1 push_bit_eq_mult)
  have "b AND push_bit 4 (mask 4) = push_bit 4 (take_bit 4 (drop_bit 4 b))"
    by (rule bit_eqI) (auto simp: bit_simps)
  then have "b AND 240 = push_bit 4 (take_bit 4 (drop_bit 4 b))" unfolding e .
  then show ?thesis using b by (simp add: push_bit_eq_mult take_bit_eq_mod drop_bit_eq_div)
qed

lemma byte4_high: "unat (byte4 i w AND 240) = 16 * (unat (byte4 i w) div 16)"
proof -
  have "unat (byte4 i w AND 240) = unat (byte4 i w) AND 240" by (simp add: unsigned_and_eq)
  then show ?thesis using and_240 [of "unat (byte4 i w)"] by (simp add: unat_byte4)
qed

lemmas byte4_simps = byte4_const unat_byte4

text \<open>The tests of the predicates on the first two bytes.\<close>

definition v4_tests :: "nat \<Rightarrow> nat \<Rightarrow> nat \<Rightarrow> bool" where
  "v4_tests n a b \<longleftrightarrow> n = 0 \<or> n = 4294967295 \<or> a = 127 \<or> (a = 169 \<and> b = 254) \<or> a = 10 \<or>
     (a = 172 \<and> 16 * (b div 16) = 16) \<or> (a = 192 \<and> b = 168) \<or> 16 * (a div 16) = 224 \<or> a = 224"

lemma v4_tests_cases:
  assumes "v4_tests n (n div 16777216 mod 256) (n div 65536 mod 256)"
    "n = (a * 256 + b) * 65536 + c" "a < 256" "b < 256" "c < 65536"
  shows "n = 0 \<or> n = 4294967295 \<or> a = 127 \<or> (a = 169 \<and> b = 254) \<or> a = 10 \<or>
    (a = 172 \<and> 16 \<le> b \<and> b < 32) \<or> (a = 192 \<and> b = 168) \<or> (224 \<le> a \<and> a < 240)"
proof -
  have q: "n div 65536 = a * 256 + b" using assms(2,5) by simp
  then have "n div 16777216 = a" using assms(4) div_mult2_eq [of n 65536 256] by simp
  then have e: "n div 16777216 mod 256 = a" "n div 65536 mod 256 = b" using assms(3,4) q by simp_all
  have b: "16 * (b div 16) = 16 \<longrightarrow> 16 \<le> b \<and> b < 32" by linarith
  have a: "16 * (a div 16) = 224 \<longrightarrow> 224 \<le> a \<and> a < 240" by linarith
  have "a = 224 \<longrightarrow> 224 \<le> a \<and> a < 240" by simp
  then show ?thesis using a b assms(1) [unfolded e v4_tests_def] by blast
qed

text \<open>The predicates of the standard library add nothing to the ranges.\<close>

lemma special_v4_predicates:
  assumes "IsUnspecified (V4 w) \<or> IsLoopback (V4 w) \<or> IsLinkLocalUnicast (V4 w) \<or> IsLinkLocalMulticast (V4 w) \<or>
    IsPrivate (V4 w) \<or> IsMulticast (V4 w) \<or> \<not> IsGlobalUnicast (V4 w)"
  shows "within special_v4 (unat w)"
proof -
  define n where "n = unat w"
  have n: "n < 4294967296" using unsigned_less [of w, where ?'a = nat] by (simp add: n_def)
  have tests: "v4_tests n (n div 16777216 mod 256) (n div 65536 mod 256)"
    unfolding v4_tests_def using assms
    by (auto simp: IsUnspecified_def IsLoopback_def IsLinkLocalUnicast_def IsLinkLocalMulticast_def IsPrivate_def
        IsMulticast_def IsGlobalUnicast_def byte4_simps byte4_high word_unat_eq_iff n_def)
  obtain a b c where abc: "n = (a * 256 + b) * 65536 + c" "a < 256" "b < 256" "c < 65536"
  proof
    show "n = ((n div 16777216) * 256 + n div 65536 mod 256) * 65536 + n mod 65536"
      using div_mult_mod_eq [of "n div 65536" 256] div_mult_mod_eq [of n 65536] by (simp flip: div_mult2_eq)
    show "n div 16777216 < 256" using n by simp
  qed simp_all
  from v4_tests_cases [OF tests abc] have "within special_v4 n"
  proof (elim disjE conjE, goal_cases)
    case 1
    then show ?case by (intro within_range [of "quad 0 0 0 0" _ "quad 0 255 255 255"]) (simp_all add: special_v4_def, simp_all add: quad_def)
  next
    case 2
    then show ?case by (intro within_range [of "quad 240 0 0 0" _ "quad 255 255 255 255"]) (simp_all add: special_v4_def, simp_all add: quad_def)
  next
    case 3
    then have "quad 127 0 0 0 \<le> n" "n \<le> quad 127 255 255 255" using abc by (simp_all add: quad_def)
    then show ?case by (rule within_range) (simp add: special_v4_def)
  next
    case 4
    then have "quad 169 254 0 0 \<le> n" "n \<le> quad 169 254 255 255" using abc by (simp_all add: quad_def)
    then show ?case by (rule within_range) (simp add: special_v4_def)
  next
    case 5
    then have "quad 10 0 0 0 \<le> n" "n \<le> quad 10 255 255 255" using abc by (simp_all add: quad_def)
    then show ?case by (rule within_range) (simp add: special_v4_def)
  next
    case 6
    then have "quad 172 16 0 0 \<le> n" "n \<le> quad 172 31 255 255" using abc by (simp_all add: quad_def)
    then show ?case by (rule within_range) (simp add: special_v4_def)
  next
    case 7
    then have "quad 192 168 0 0 \<le> n" "n \<le> quad 192 168 255 255" using abc by (simp_all add: quad_def)
    then show ?case by (rule within_range) (simp add: special_v4_def)
  next
    case 8
    then have "quad 224 0 0 0 \<le> n" "n \<le> quad 239 255 255 255" using abc by (simp_all add: quad_def)
    then show ?case by (rule within_range) (simp add: special_v4_def)
  qed
  then show ?thesis by (simp add: n_def)
qed

section \<open>Blocked IPv6 addresses\<close>

text \<open>Ranges that are blocked with any zone, and those that are blocked without a zone only.\<close>

definition special_v6 :: "(nat \<times> nat) list" where
  "special_v6 =
     [(1, 1), (hextets 0xfc00 0 0, hextets 0xfe00 0 0 - 1), (hextets 0xfe80 0 0, hextets 0xfec0 0 0 - 1),
      (hextets 0xff00 0 0, hextets 0x10000 0 0 - 1)]"

definition special_v6_plain :: "(nat \<times> nat) list" where
  "special_v6_plain =
     [(0, 0),
      (hextets 0x64 0xff9b 0, hextets 0x64 0xff9b 0 + 0xffffffff), (hextets 0x64 0xff9b 1, hextets 0x64 0xff9b 2 - 1),
      (hextets 0x100 0 0, hextets 0x100 0 0 + 0xffffffffffffffff), (hextets 0x2001 0 0, hextets 0x2001 1 0 - 1),
      (hextets 0x2001 2 0, hextets 0x2001 2 1 - 1), (hextets 0x2001 0xdb8 0, hextets 0x2001 0xdb9 0 - 1),
      (hextets 0x2002 0 0, hextets 0x2003 0 0 - 1)]"

lemma v6_prefix_range:
  assumes "base < 2 ^ 128" "bits \<le> 128" "2 ^ (128 - bits) dvd base"
  shows "prefix_Contains (v6_prefix base bits) (V6 w z) \<longleftrightarrow>
    z = [] \<and> base \<le> unat w \<and> unat w \<le> base + (2 ^ (128 - bits) - 1)"
proof -
  have "unat (of_nat base :: 128 word) = base" using assms(1) by (simp add: unat_of_nat)
  moreover have "x < base + 2 ^ (128 - bits) \<longleftrightarrow> x \<le> base + (2 ^ (128 - bits) - 1)" for x :: nat
    by (cases "2 ^ (128 - bits) :: nat") auto
  ultimately show ?thesis
    using drop_bit_range [of "128 - bits" "of_nat base :: 128 word" w] assms(3) mask6_zero [OF assms(2)]
    by (simp add: prefix_Contains_def v6_prefix_def)
qed

lemma blocked_prefixes_v6:
  "list_ex (\<lambda>p. prefix_Contains p (V6 w z)) blockedImportPrefixes \<longleftrightarrow>
     z = [] \<and> (within special_v6 (unat w) \<or> within special_v6_plain (unat w))"
proof -
  have "list_ex (\<lambda>p. prefix_Contains p (V6 w z)) blockedImportPrefixes \<longleftrightarrow>
      z = [] \<and> within
        [(0, 0), (1, 1), (hextets 0x64 0xff9b 0, hextets 0x64 0xff9b 0 + 0xffffffff), (hextets 0x64 0xff9b 1, hextets 0x64 0xff9b 2 - 1),
         (hextets 0x100 0 0, hextets 0x100 0 0 + 0xffffffffffffffff), (hextets 0x2001 0 0, hextets 0x2001 1 0 - 1),
         (hextets 0x2001 2 0, hextets 0x2001 2 1 - 1), (hextets 0x2001 0xdb8 0, hextets 0x2001 0xdb9 0 - 1),
         (hextets 0x2002 0 0, hextets 0x2003 0 0 - 1), (hextets 0xfc00 0 0, hextets 0xfe00 0 0 - 1),
         (hextets 0xfe80 0 0, hextets 0xfec0 0 0 - 1), (hextets 0xff00 0 0, hextets 0x10000 0 0 - 1)] (unat w)"
    by (cases "z = []") (simp_all add: blockedImportPrefixes_def v6_prefix_range v6_prefix_v4 hextets_def within_def)
  also have "\<dots> \<longleftrightarrow> z = [] \<and> (within special_v6 (unat w) \<or> within special_v6_plain (unat w))"
    by (simp only: within_def special_v6_def special_v6_plain_def list_ex_iff list.set ball_simps bex_simps prod.case) blast
  finally show ?thesis .
qed

lemma and_high_nat:
  fixes b :: nat
  assumes "b < 2 ^ (k + m)"
  shows "b AND push_bit k (mask m) = 2 ^ k * (b div 2 ^ k)"
proof -
  have "b AND push_bit k (mask m) = push_bit k (take_bit m (drop_bit k b))"
    by (rule bit_eqI) (auto simp: bit_simps)
  moreover have "take_bit m (drop_bit k b) = drop_bit k b"
    using assms by (simp add: take_bit_nat_def drop_bit_nat_def less_mult_imp_div_less power_add mult.commute)
  ultimately show ?thesis by (simp add: push_bit_nat_def drop_bit_nat_def)
qed

lemma div_range:
  fixes n d q :: nat
  assumes "0 < d"
  shows "n div d = q \<longleftrightarrow> q * d \<le> n \<and> n \<le> q * d + (d - 1)"
proof
  assume "n div d = q"
  then have "n = q * d + n mod d" using div_mult_mod_eq [of n d] by simp
  moreover have "n mod d \<le> d - 1" using mod_less_divisor [OF assms, of n] by simp
  ultimately show "q * d \<le> n \<and> n \<le> q * d + (d - 1)" by linarith
next
  assume "q * d \<le> n \<and> n \<le> q * d + (d - 1)"
  then show "n div d = q" using assms by (intro div_nat_eqI) (auto simp: mult.commute)
qed

lemma unat_high6: "k \<le> 128 \<Longrightarrow> unat (drop_bit k w) < 2 ^ (128 - k)" for w :: "128 word"
  using unsigned_less [of w, where ?'a = nat]
  by (simp add: unat_drop_bit_eq drop_bit_nat_def less_mult_imp_div_less flip: power_add)

lemma linklocal_v6: "IsLinkLocalUnicast (V6 w z) \<longleftrightarrow> unat w div 2 ^ 118 = 0x3fa"
proof -
  have e: "(0xffc0 :: nat) = push_bit 6 (mask 10)" by (simp add: mask_eq_exp_minus_1 push_bit_eq_mult)
  have "IsLinkLocalUnicast (V6 w z) \<longleftrightarrow> unat (drop_bit 112 w AND 0xffc0) = 0xfe80"
    by (simp add: IsLinkLocalUnicast_def word_unat_eq_iff)
  also have "unat (drop_bit 112 w AND 0xffc0) = unat (drop_bit 112 w) AND 0xffc0" by (simp add: unsigned_and_eq)
  also have "\<dots> = 2 ^ 6 * (unat (drop_bit 112 w) div 2 ^ 6)"
    unfolding e by (rule and_high_nat) (use unat_high6 [of 112 w] in simp)
  also have "unat (drop_bit 112 w) div 2 ^ 6 = unat w div 2 ^ 118"
    by (simp add: unat_drop_bit_eq drop_bit_nat_def flip: div_mult2_eq)
  finally show ?thesis by auto
qed

lemma byte6_0: "unat (byte6 0 w) = unat w div 2 ^ 120"
proof -
  have m: "(255 :: 128 word) = mask 8" by (simp add: mask_eq_exp_minus_1)
  show ?thesis using unat_high6 [of 120 w] unfolding byte6_def m
    by (simp add: unsigned_take_bit_eq unat_drop_bit_eq drop_bit_nat_def take_bit_nat_def flip: take_bit_eq_mask)
qed

lemma private_v6: "IsPrivate (V6 w z) \<longleftrightarrow> unat w div 2 ^ 121 = 126"
proof -
  have e: "(0xfe :: nat) = push_bit 1 (mask 7)" by (simp add: mask_eq_exp_minus_1 push_bit_eq_mult)
  have b: "unat (byte6 0 w) < 256" using unat_high6 [of 120 w] by (simp add: byte6_0 unat_drop_bit_eq drop_bit_nat_def)
  have "IsPrivate (V6 w z) \<longleftrightarrow> unat (byte6 0 w AND 0xfe) = 0xfc" by (simp add: IsPrivate_def word_unat_eq_iff)
  also have "unat (byte6 0 w AND 0xfe) = unat (byte6 0 w) AND 0xfe" by (simp add: unsigned_and_eq)
  also have "\<dots> = 2 ^ 1 * (unat (byte6 0 w) div 2 ^ 1)" unfolding e by (rule and_high_nat) (use b in simp)
  also have "unat (byte6 0 w) div 2 ^ 1 = unat w div 2 ^ 121" by (simp add: byte6_0 flip: div_mult2_eq)
  finally show ?thesis by auto
qed

lemma multicast_v6: "IsMulticast (V6 w z) \<longleftrightarrow> unat w div 2 ^ 120 = 255"
  using byte6_0 [of w] by (simp add: IsMulticast_def word_unat_eq_iff)

lemma linklocal_multicast_v6: "IsLinkLocalMulticast (V6 w z) \<Longrightarrow> IsMulticast (V6 w z)"
proof -
  assume "IsLinkLocalMulticast (V6 w z)"
  then have "drop_bit 8 (drop_bit 112 w AND 0xff0f) = drop_bit 8 (0xff02 :: 128 word)"
    by (simp add: IsLinkLocalMulticast_def)
  then have "drop_bit 120 w AND 255 = (255 :: 128 word)" by (simp add: drop_bit_and)
  then show ?thesis by (simp add: IsMulticast_def byte6_def)
qed

text \<open>The predicates of the standard library on an IPv6 address: the unscoped zero address and \<open>special_v6\<close>.\<close>

lemma special_v6_predicates:
  "(IsUnspecified (V6 w z) \<or> IsLoopback (V6 w z) \<or> IsLinkLocalUnicast (V6 w z) \<or> IsLinkLocalMulticast (V6 w z) \<or>
     IsPrivate (V6 w z) \<or> IsMulticast (V6 w z) \<or> \<not> IsGlobalUnicast (V6 w z)) \<longleftrightarrow>
   within special_v6 (unat w) \<or> (unat w = 0 \<and> z = [])"
proof -
  have zero: "IsUnspecified (V6 w z) \<longleftrightarrow> unat w = 0 \<and> z = []" "IsLoopback (V6 w z) \<longleftrightarrow> unat w = 1"
    by (auto simp: IsUnspecified_def IsLoopback_def word_unat_eq_iff)
  have global: "\<not> IsGlobalUnicast (V6 w z) \<longleftrightarrow>
      IsUnspecified (V6 w z) \<or> IsLoopback (V6 w z) \<or> IsMulticast (V6 w z) \<or> IsLinkLocalUnicast (V6 w z)"
    by (auto simp: IsGlobalUnicast_def IsUnspecified_def)
  have special: "within special_v6 n \<longleftrightarrow> n = 1 \<or> n div 2 ^ 121 = 126 \<or> n div 2 ^ 118 = 0x3fa \<or> n div 2 ^ 120 = 255" for n
  proof -
    have "within special_v6 n \<longleftrightarrow> n = 1 \<or>
        (126 * 2 ^ 121 \<le> n \<and> n \<le> 126 * 2 ^ 121 + (2 ^ 121 - 1)) \<or>
        (0x3fa * 2 ^ 118 \<le> n \<and> n \<le> 0x3fa * 2 ^ 118 + (2 ^ 118 - 1)) \<or>
        (255 * 2 ^ 120 \<le> n \<and> n \<le> 255 * 2 ^ 120 + (2 ^ 120 - 1))"
      by (auto simp: within_def special_v6_def hextets_def)
    then show ?thesis by (simp only: div_range [of "2 ^ 121"] div_range [of "2 ^ 118"] div_range [of "2 ^ 120"] zero_less_power zero_less_numeral)
  qed
  show ?thesis unfolding global special zero linklocal_v6 [symmetric] private_v6 [symmetric] multicast_v6 [symmetric, of w z]
    using linklocal_multicast_v6 [of w z] linklocal_v6 [of w z] private_v6 [of w z] multicast_v6 [of w z] by argo
qed

lemma Unmap_v6:
  "Unmap (V6 w z) = (if unat w div 2 ^ 32 = 65535 then V4 (of_nat (unat w mod 2 ^ 32)) else V6 w z)"
proof -
  have u: "drop_bit 32 w = 65535 \<longleftrightarrow> unat w div 2 ^ 32 = 65535"
    by (simp add: word_unat_eq_iff unat_drop_bit_eq drop_bit_nat_def)
  have n: "unat (ucast w :: 32 word) = unat w mod 2 ^ 32" by (simp add: unsigned_ucast_eq take_bit_nat_def)
  have "of_nat (unat (ucast w :: 32 word)) = (ucast w :: 32 word)" by simp
  then have "(ucast w :: 32 word) = of_nat (unat w mod 2 ^ 32)" unfolding n by (rule sym)
  then show ?thesis unfolding Unmap_def addr.case u by (simp only:)
qed

lemma blocked_v4: "blockedImportAddress (V4 w) \<longleftrightarrow> within special_v4 (unat w)"
  using special_v4_predicates [of w] blocked_prefixes_v4 [of w]
  unfolding blockedImportAddress_def Unmap_def Let_def addr.case if_bool_eq_disj by blast

text \<open>
  The special-purpose addresses, which are no public destinations: the zone of an IPv6 address has
  no part in it. \<open>zone_exempt\<close> are those among them that the filter lets through because they carry a
  zone.
\<close>

definition special_address :: "addr \<Rightarrow> bool" where
  "special_address a = (case a of
     NoAddr \<Rightarrow> True
   | V4 w \<Rightarrow> within special_v4 (unat w)
   | V6 w z \<Rightarrow>
       if unat w div 2 ^ 32 = 0xffff then within special_v4 (unat w mod 2 ^ 32)
       else within special_v6 (unat w) \<or> within special_v6_plain (unat w))"

definition zone_exempt :: "addr \<Rightarrow> bool" where
  "zone_exempt a = (case a of
     V6 w z \<Rightarrow> z \<noteq> [] \<and> unat w div 2 ^ 32 \<noteq> 0xffff \<and> within special_v6_plain (unat w) \<and> \<not> within special_v6 (unat w)
   | _ \<Rightarrow> False)"

lemma zone_exempt_special: "zone_exempt a \<Longrightarrow> special_address a"
  by (cases a) (simp_all add: zone_exempt_def special_address_def)

lemma blocked_iff_special: "blockedImportAddress a \<longleftrightarrow> special_address a \<and> \<not> zone_exempt a"
proof (cases a)
  case NoAddr
  then show ?thesis by (simp add: blockedImportAddress_def special_address_def zone_exempt_def Unmap_def)
next
  case (V4 w)
  then show ?thesis by (simp add: blocked_v4 special_address_def zone_exempt_def)
next
  case (V6 w z)
  show ?thesis
  proof (cases "unat w div 2 ^ 32 = 65535")
    case True
    then have "Unmap a = Unmap (V4 (of_nat (unat w mod 2 ^ 32)))" using V6 Unmap_v6 [of w z] by (simp add: Unmap_def)
    then have "blockedImportAddress a = blockedImportAddress (V4 (of_nat (unat w mod 2 ^ 32)))"
      by (simp only: blockedImportAddress_def)
    also have "\<dots> \<longleftrightarrow> within special_v4 (unat w mod 2 ^ 32)"
      unfolding blocked_v4 by (simp add: unat_of_nat)
    finally show ?thesis using True by (simp add: special_address_def zone_exempt_def V6)
  next
    case False
    then have u: "Unmap a = V6 w z" using V6 Unmap_v6 [of w z] by simp
    have zero: "within special_v6_plain 0" by (simp add: within_def special_v6_plain_def)
    have "blockedImportAddress a \<longleftrightarrow> within special_v6 (unat w) \<or> (unat w = 0 \<and> z = []) \<or>
        (z = [] \<and> (within special_v6 (unat w) \<or> within special_v6_plain (unat w)))"
      using special_v6_predicates [of w z] blocked_prefixes_v6 [of w z]
      unfolding blockedImportAddress_def u Let_def if_bool_eq_disj by blast
    then show ?thesis using False zero by (auto simp: special_address_def zone_exempt_def V6)
  qed
qed

section \<open>Resolving and dialling\<close>

definition permitted :: "import_policy \<Rightarrow> bool \<Rightarrow> addr \<Rightarrow> bool" where
  "permitted p hostAllowed a \<longleftrightarrow>
     hostAllowed \<or> list_ex (\<lambda>pre. prefix_Contains pre a) (allowedPrefixes p) \<or>
     \<not> special_address a \<or> zone_exempt a"

lemma Unmap_Unmap [simp]: "Unmap (Unmap a) = Unmap a"
  by (cases a) (simp_all add: Unmap_def)

lemma filter_addresses_ok:
  "filter_addresses p host ha as = Inr bs \<longleftrightarrow> bs = map Unmap as \<and> list_all (permitted p ha) bs"
proof (induction as arbitrary: bs)
  case Nil
  then show ?case by auto
next
  case (Cons a as)
  have p: "permitted p ha (Unmap a) \<longleftrightarrow>
      \<not> (\<not> ha \<and> \<not> addressExplicitlyAllowed p (Unmap a) \<and> blockedImportAddress (Unmap a))"
    unfolding permitted_def addressExplicitlyAllowed_def Unmap_Unmap blocked_iff_special by blast
  show ?case
  proof (cases "permitted p ha (Unmap a)")
    case False
    then show ?thesis using p by auto
  next
    case True
    then have c: "\<not> (\<not> ha \<and> \<not> addressExplicitlyAllowed p (Unmap a) \<and> blockedImportAddress (Unmap a))" using p by blast
    have "filter_addresses p host ha (a # as) = bindr (filter_addresses p host ha as) (\<lambda>rest. Inr (Unmap a # rest))"
      unfolding filter_addresses.simps Let_def by (rule if_not_P [OF c])
    then show ?thesis using True by (auto simp: bindr_Inr_iff Cons.IH simp del: filter_addresses.simps)
  qed
qed

text \<open>The addresses of a host: the literal, or what the resolver answers.\<close>

definition host_addresses :: "net_env \<Rightarrow> nat \<Rightarrow> string \<Rightarrow> addr list \<Rightarrow> bool" where
  "host_addresses env call host as \<longleftrightarrow>
     (case ParseAddr env host of Some literal \<Rightarrow> as = [literal] | None \<Rightarrow> LookupNetIP env call host = Inr as)"

lemma resolveAllowed_ok:
  "resolveAllowed env p call host = Inr bs \<longleftrightarrow>
     normalizeImportHost env host \<noteq> [] \<and>
     (\<exists>as. host_addresses env call (normalizeImportHost env host) as \<and> as \<noteq> [] \<and> bs = map Unmap as \<and>
        list_all (permitted p (hostExplicitlyAllowed env p (normalizeImportHost env host))) bs)"
proof -
  define h where "h = normalizeImportHost env host"
  show ?thesis unfolding resolveAllowed_def Let_def h_def [symmetric] host_addresses_def
    by (auto simp: filter_addresses_ok simp del: filter_addresses.simps split: option.splits sum.splits)
qed

lemma dial_candidates_dialled:
  assumes "dial_candidates env port errs as = (r, dialled)"
  shows "\<exists>rest. as = dialled @ rest \<and>
    (\<forall>c. r = Inr c \<longrightarrow> dialled \<noteq> [] \<and> DialContext env (last dialled) port = Inr c) \<and>
    (\<forall>e. r = Inl e \<longrightarrow> rest = [] \<and> (\<forall>a \<in> set as. \<exists>e. DialContext env a port = Inl e))"
  using assms
proof (induction as arbitrary: errs r dialled)
  case Nil
  then show ?case by auto
next
  case (Cons a as)
  show ?case
  proof (cases "DialContext env a port")
    case (Inr c)
    then show ?thesis using Cons.prems by auto
  next
    case (Inl e)
    obtain r' d' where d: "dial_candidates env port (errs @ [e]) as = (r', d')" by fastforce
    then have "r = r'" "dialled = a # d'" using Cons.prems Inl by auto
    then show ?thesis using Cons.IH [OF d] Inl by auto
  qed
qed

section \<open>Redirects\<close>

lemma ValidateURL_ok:
  assumes "ValidateURL env p call raw = Inr ()"
  obtains u bs where "parse_url env raw = Some u" "URLHostname u \<noteq> []" "URLScheme u \<in> {''http'', ''https''}"
    "resolveAllowed env p call (URLHostname u) = Inr bs"
  using assms by (auto simp: ValidateURL_def bindr_Inr_iff split: option.splits if_splits)

lemma importCheckRedirect_validated:
  "importCheckRedirect env p call request via = Inr sent \<Longrightarrow> ValidateURL env p call (RequestURL_String request) = Inr ()"
  by (auto simp: importCheckRedirect_def split: sum.splits if_splits)

lemma importCheckRedirect_sent:
  assumes "importCheckRedirect env p call request via = Inr sent"
  shows "length via < 10 \<and> RequestURL sent = RequestURL request \<and>
    filter (\<lambda>h. fst h \<noteq> ''Authorization'') (RequestHeader sent) = filter (\<lambda>h. fst h \<noteq> ''Authorization'') (RequestHeader request) \<and>
    (\<forall>v first rest. (''Authorization'', v) \<in> set (RequestHeader sent) \<and> via = Some first # rest \<longrightarrow>
       (''Authorization'', v) \<in> set (RequestHeader request) \<and>
       EqualFold env (URLScheme first) (URLScheme (RequestURL request)) \<and>
       EqualFold env (URLHostname first) (URLHostname (RequestURL request)) \<and>
       effectiveImportURLPort first = effectiveImportURLPort (RequestURL request))"
proof -
  define auth where "auth = ''Authorization''"
  have "length via < 10" using assms by (auto simp: importCheckRedirect_def split: if_splits)
  moreover have "sent = (case via of
      Some first # _ \<Rightarrow> if \<not> sameImportURLOrigin env first (RequestURL request)
        then request\<lparr>RequestHeader := filter (\<lambda>(k, v). k \<noteq> auth) (RequestHeader request)\<rparr> else request
    | _ \<Rightarrow> request)"
    using assms unfolding auth_def by (simp add: importCheckRedirect_def split: if_splits sum.splits)
  ultimately show ?thesis unfolding auth_def [symmetric]
    by (auto simp: sameImportURLOrigin_def split_beta split: list.splits option.splits if_splits)
qed

section \<open>A sample network\<close>

text \<open>
  A name with the public addresses 93.184.216.34, which does not answer, and 93.184.216.35, given in
  its IPv6-mapped form; and a name that resolves also to 169.254.169.254, the metadata service of clouds.
\<close>

definition sample_net :: net_env where
  "sample_net =
     \<lparr>unicode_to_lower = id, unicode_equal_fold = (=),
      ParseAddr = (\<lambda>s. if s = ''::%lo'' then Some (V6 0 ''lo'') else None),
      ParsePrefix = (\<lambda>_. None),
      parse_url = (\<lambda>s. if s = ''https://cdn.example.com/r'' then Some \<lparr>URLScheme = ''https'', URLHostname = ''cdn.example.com'', URLPort = []\<rparr>
        else None),
      LookupNetIP = (\<lambda>_ s. if s = ''meta.example.com'' then Inr [V4 0x5db8d822, V4 0xa9fea9fe]
        else Inr [V4 0x5db8d822, V6 0xffff5db8d823 []]),
      DialContext = (\<lambda>a _. if a = V4 0x5db8d822 then Inl (Errorf ''connection refused'') else Inr ''connection'')\<rparr>"

definition sample_policy :: import_policy where
  "sample_policy = \<lparr>allowedHosts = [''git.internal''], allowedPrefixes = []\<rparr>"

definition sample_request :: http_request where
  "sample_request =
     \<lparr>RequestURL = \<lparr>URLScheme = ''https'', URLHostname = ''cdn.example.com'', URLPort = []\<rparr>,
      RequestURL_String = ''https://cdn.example.com/r'',
      RequestHeader = [(''Authorization'', ''Basic eDp5''), (''Accept'', ''x'')]\<rparr>"

lemma sample_hosts:
  "normalizeImportHost sample_net ''Example.COM.'' = ''example.com''" "normalizeImportHost sample_net ''example.com'' = ''example.com''"
  "normalizeImportHost sample_net ''cdn.example.com'' = ''cdn.example.com''"
  "normalizeImportHost sample_net ''meta.example.com'' = ''meta.example.com''" "normalizeImportHost sample_net ''::%lo'' = ''::%lo''"
proof -
  have "unicode_to_lower sample_net = id" by (simp add: sample_net_def)
  note n = normalizeImportHost_def [of sample_net, unfolded this]
  note simps = n TrimSpace_plain plain_char_def ToLower_def ascii_lower_def less_eq_char_def TrimSuffix_def HasSuffix_def suffix_to_prefix
  show "normalizeImportHost sample_net ''Example.COM.'' = ''example.com''" by (simp add: simps) code_simp
  show "normalizeImportHost sample_net ''example.com'' = ''example.com''" by (simp add: simps)
  show "normalizeImportHost sample_net ''cdn.example.com'' = ''cdn.example.com''" by (simp add: simps)
  show "normalizeImportHost sample_net ''meta.example.com'' = ''meta.example.com''" by (simp add: simps)
  show "normalizeImportHost sample_net ''::%lo'' = ''::%lo''" by (simp add: simps)
qed

lemma sample_addresses:
  "\<not> special_address (V4 0x5db8d822)" "\<not> special_address (V4 0x5db8d823)" "zone_exempt (V6 0 ''lo'')"
  "Unmap (V6 0xffff5db8d823 []) = V4 0x5db8d823" "Unmap (V4 w) = V4 w" "Unmap (V6 0 z) = V6 0 z"
  "special_address (V4 0xa9fea9fe)"
  by (simp_all add: special_address_def zone_exempt_def within_def special_v4_def special_v6_def special_v6_plain_def
    quad_def hextets_def Unmap_v6)
    (simp_all add: Unmap_def)

lemma sample_resolved:
  "resolveAllowed sample_net sample_policy n ''Example.COM.'' = Inr [V4 0x5db8d822, V4 0x5db8d823]"
  "resolveAllowed sample_net sample_policy n ''cdn.example.com'' = Inr [V4 0x5db8d822, V4 0x5db8d823]"
  "resolveAllowed sample_net sample_policy n ''::%lo'' = Inr [V6 0 ''lo'']"
  by (simp_all add: resolveAllowed_ok sample_hosts host_addresses_def sample_addresses permitted_def)
    (simp_all add: sample_net_def sample_addresses)

section \<open>Properties\<close>

text \<open>
  Property C16. The address filter in numbers: an import to an IPv4 address is blocked exactly when
  the address lies in one of the fifteen special-purpose ranges, also when it is written in its
  IPv6-mapped form; an IPv6 address is blocked exactly when it is the loopback address, unique local,
  link local or multicast, or when it has no zone and is the zero address or lies in a translation,
  discard, benchmarking, documentation or 6to4 range. With a zone the second group is let through.
\<close>

theorem blockedImportAddress_exact:
  "blockedImportAddress a = (case a of
     NoAddr \<Rightarrow> True
   | V4 w \<Rightarrow> within special_v4 (unat w)
   | V6 w z \<Rightarrow>
       if unat w div 2 ^ 32 = 0xffff then within special_v4 (unat w mod 2 ^ 32)
       else within special_v6 (unat w) \<or> (z = [] \<and> within special_v6_plain (unat w)))"
  unfolding blocked_iff_special special_address_def zone_exempt_def by (auto split: addr.split)

text \<open>
  Property C15. Where an import connects to: the addresses that are dialled are an initial part of the
  addresses of the host, in order and unmapped, where the host is normalized first and is either a
  literal or what the resolver answers to this very dial. None of them is dialled unless every one of
  them is permitted: the host is on the allow list, the address is in an allowed prefix, it is no
  special-purpose address, or it is a special-purpose IPv6 address that carries a zone and lies in one
  of the eight ranges the filter tests by prefix only (\<open>zone_exempt\<close>). The last case is a defect: the
  comment on \<^verbatim>\<open>ImportNetworkPolicy\<close> and the README say that non-public destinations are blocked unless
  they are allowed, and such an address is neither. Apart from it the claim is theirs. A connection is the one of
  the last address dialled; without one, all permitted addresses were tried.
\<close>

theorem import_dial_confined:
  assumes "importDialContext env p call hostport = (r, dialled)" "dialled \<noteq> []"
  shows "\<exists>host port as rest.
    hostport = Inr (host, port) \<and>
    host_addresses env call (normalizeImportHost env host) as \<and>
    map Unmap as = dialled @ rest \<and>
    (\<forall>a \<in> set as.
       normalizeImportHost env (normalizeImportHost env host) \<in> set (allowedHosts p) \<or>
       (\<exists>pre \<in> set (allowedPrefixes p). prefix_Contains pre (Unmap a)) \<or>
       \<not> special_address (Unmap a) \<or> zone_exempt (Unmap a)) \<and>
    (\<forall>c. r = Inr c \<longrightarrow> DialContext env (last dialled) port = Inr c) \<and>
    (\<forall>e. r = Inl e \<longrightarrow> rest = [])"
proof -
  obtain host port where hp: "hostport = Inr (host, port)"
    using assms by (cases hostport) (auto simp: importDialContext_def)
  define h where "h = normalizeImportHost env host"
  obtain bs where bs: "resolveAllowed env p call host = Inr bs" "dial_candidates env port [] bs = (r, dialled)"
    using assms hp by (cases "resolveAllowed env p call host") (auto simp: importDialContext_def)
  then obtain as where as: "host_addresses env call h as" "bs = map Unmap as"
      "list_all (permitted p (hostExplicitlyAllowed env p h)) bs"
    unfolding resolveAllowed_ok h_def [symmetric] by blast
  obtain rest where rest: "bs = dialled @ rest" "\<forall>c. r = Inr c \<longrightarrow> DialContext env (last dialled) port = Inr c"
      "\<forall>e. r = Inl e \<longrightarrow> rest = []"
    using dial_candidates_dialled [OF bs(2)] by blast
  have "permitted p (hostExplicitlyAllowed env p h) (Unmap a)" if "a \<in> set as" for a
    using as(2,3) that by (auto simp: list_all_iff)
  then have "\<forall>a \<in> set as. normalizeImportHost env h \<in> set (allowedHosts p) \<or>
      (\<exists>pre \<in> set (allowedPrefixes p). prefix_Contains pre (Unmap a)) \<or>
      \<not> special_address (Unmap a) \<or> zone_exempt (Unmap a)"
    by (simp add: permitted_def hostExplicitlyAllowed_def list_ex_iff)
  note addresses = this [unfolded h_def]
  show ?thesis
  proof (intro exI conjI)
    show "map Unmap as = dialled @ rest" using as(2) rest(1) by simp
  qed (fact hp as(1) [unfolded h_def] addresses rest)+
qed

theorem import_dial_confined_witness:
  "importDialContext sample_net sample_policy 0 (Inr (''Example.COM.'', ''443'')) =
     (Inr ''connection'', [V4 0x5db8d822, V4 0x5db8d823]) \<and>
   (\<exists>host port as rest. Inr (''Example.COM.'', ''443'') = (Inr (host, port) :: (string \<times> string) result) \<and>
     host_addresses sample_net 0 (normalizeImportHost sample_net host) as \<and>
     map Unmap as = [V4 0x5db8d822, V4 0x5db8d823] @ rest)"
proof -
  have run: "importDialContext sample_net sample_policy 0 (Inr (''Example.COM.'', ''443'')) =
     (Inr ''connection'', [V4 0x5db8d822, V4 0x5db8d823])"
    by (simp add: importDialContext_def sample_resolved) (simp add: sample_net_def)
  from import_dial_confined [OF run list.distinct(2)] show ?thesis
    by (elim exE conjE) (intro conjI exI run; assumption)
qed

text \<open>
  Property C38. A redirect is followed only as one of at most ten, to an HTTP or HTTPS URL whose host
  resolves to permitted addresses, in the sense of the filter with its exception for zones; the request keeps its URL and its headers, but an Authorization
  header is left in it only if the scheme, host and effective port are those of the first request.
\<close>

theorem import_redirect_safe:
  assumes "importCheckRedirect env p call request via = Inr sent"
  shows "length via < 10 \<and> RequestURL sent = RequestURL request \<and>
    (\<exists>u as. parse_url env (RequestURL_String request) = Some u \<and> URLHostname u \<noteq> [] \<and>
       URLScheme u \<in> {''http'', ''https''} \<and>
       host_addresses env call (normalizeImportHost env (URLHostname u)) as \<and> as \<noteq> [] \<and>
       (\<forall>a \<in> set as. permitted p (hostExplicitlyAllowed env p (normalizeImportHost env (URLHostname u))) (Unmap a))) \<and>
    filter (\<lambda>h. fst h \<noteq> ''Authorization'') (RequestHeader sent) = filter (\<lambda>h. fst h \<noteq> ''Authorization'') (RequestHeader request) \<and>
    (\<forall>v first rest. (''Authorization'', v) \<in> set (RequestHeader sent) \<and> via = Some first # rest \<longrightarrow>
       (''Authorization'', v) \<in> set (RequestHeader request) \<and>
       EqualFold env (URLScheme first) (URLScheme (RequestURL request)) \<and>
       EqualFold env (URLHostname first) (URLHostname (RequestURL request)) \<and>
       effectiveImportURLPort first = effectiveImportURLPort (RequestURL request))"
proof -
  obtain u bs where u: "parse_url env (RequestURL_String request) = Some u" "URLHostname u \<noteq> []"
      "URLScheme u \<in> {''http'', ''https''}" "resolveAllowed env p call (URLHostname u) = Inr bs"
    using importCheckRedirect_validated [OF assms] by (rule ValidateURL_ok)
  define h where "h = normalizeImportHost env (URLHostname u)"
  obtain as where as: "host_addresses env call h as" "as \<noteq> []" "bs = map Unmap as"
      "list_all (permitted p (hostExplicitlyAllowed env p h)) bs"
    using u(4) unfolding resolveAllowed_ok h_def [symmetric] by blast
  then have "\<forall>a \<in> set as. permitted p (hostExplicitlyAllowed env p h) (Unmap a)" by (auto simp: list_all_iff)
  note permitted = this [unfolded h_def] and sent = importCheckRedirect_sent [OF assms]
  show ?thesis
  proof (intro conjI exI [of _ u] exI [of _ as])
  qed (fact u as [unfolded h_def] permitted sent [THEN conjunct1] sent [THEN conjunct2, THEN conjunct1]
      sent [THEN conjunct2, THEN conjunct2, THEN conjunct1] sent [THEN conjunct2, THEN conjunct2, THEN conjunct2])+
qed

theorem import_redirect_safe_witness:
  "importCheckRedirect sample_net sample_policy 0 sample_request
     [Some \<lparr>URLScheme = ''https'', URLHostname = ''example.com'', URLPort = []\<rparr>] =
     Inr (sample_request\<lparr>RequestHeader := [(''Accept'', ''x'')]\<rparr>) \<and>
   parse_url sample_net (RequestURL_String sample_request) \<noteq> None"
proof -
  have "ValidateURL sample_net sample_policy 0 (RequestURL_String sample_request) = Inr ()"
    using sample_resolved(2) by (simp add: ValidateURL_def sample_net_def sample_request_def)
  moreover have "\<not> sameImportURLOrigin sample_net \<lparr>URLScheme = ''https'', URLHostname = ''example.com'', URLPort = []\<rparr> (RequestURL sample_request)"
    by (simp add: sameImportURLOrigin_def EqualFold_def sample_request_def ascii_lower_def less_eq_char_def)
  ultimately have run: "importCheckRedirect sample_net sample_policy 0 sample_request
     [Some \<lparr>URLScheme = ''https'', URLHostname = ''example.com'', URLPort = []\<rparr>] =
     Inr (sample_request\<lparr>RequestHeader := [(''Accept'', ''x'')]\<rparr>)"
    by (simp add: importCheckRedirect_def) (simp add: sample_request_def)
  obtain u where "parse_url sample_net (RequestURL_String sample_request) = Some u"
    using import_redirect_safe [OF run] by (elim conjE exE)
  then show ?thesis using run by simp
qed

text \<open>The zero address with a zone is a special-purpose address, passes the filter and is dialled.\<close>

lemma sample_zone_dialled:
  "importDialContext sample_net sample_policy 0 (Inr (''::%lo'', ''80'')) = (Inr ''connection'', [V6 0 ''lo''])"
  "special_address (V6 0 ''lo'')"
proof -
  show "importDialContext sample_net sample_policy 0 (Inr (''::%lo'', ''80'')) = (Inr ''connection'', [V6 0 ''lo''])"
    by (simp add: importDialContext_def sample_resolved) (simp add: sample_net_def)
  show "special_address (V6 0 ''lo'')" by (rule zone_exempt_special) (rule sample_addresses)
qed

end
