(* ===== verification/StorageOps.thy ===== *)
theory StorageOps
  imports StoragePaths LockMgr
begin

text \<open>
  Operations of the storage package on whole repositories and groups,
  \<^verbatim>\<open>src/internal/storage/storage.go\<close>: whether a group exists, the list of groups, moving a repository
  with its sidecar directories into the trash, and deleting an empty group. The directory of the
  trash is named after the time of the deletion; that name, as \<^verbatim>\<open>Format\<close> prints it, is an argument.
  A walk reads a tree that nobody changes meanwhile; every directory it opens can fail to open.
\<close>

section \<open>Directories\<close>

definition is_directory :: "tree \<Rightarrow> bool" where
  "is_directory t \<longleftrightarrow> (case t of File _ \<Rightarrow> False | Dir _ \<Rightarrow> True)"

definition reservedGroupDirectory :: "string \<Rightarrow> bool" where
  "reservedGroupDirectory name \<longleftrightarrow>
     HasSuffix name ''.git'' \<or> HasSuffix name ''.lfs'' \<or> HasSuffix name ''.build'' \<or>
     HasSuffix name ''.reviews'' \<or> HasSuffix name ''.issues''"

definition pathEntryExists :: "string \<Rightarrow> ('z, bool result) tree_io" where
  "pathEntryExists path = do {
     info \<leftarrow> Stat_at path;
     State_Monad.return (case info of
       Inr _ \<Rightarrow> Inr True
     | Inl err \<Rightarrow> if errors_is err ErrNotExist then Inr False else Inl err)
   }"

text \<open>\<^verbatim>\<open>os.ReadDir\<close>.\<close>

definition ReadDir_at :: "string \<Rightarrow> ('z, (string \<times> tree) list result) tree_io" where
  "ReadDir_at p = fs_read (\<lambda>d. bindr (find_at d (path_parts p)) (\<lambda>t. case t of File _ \<Rightarrow> Inl ErrIO | Dir es \<Rightarrow> Inr es))"

section \<open>Locks of the sidecar stores\<close>

text \<open>Taking locks fails only for requests that are not well formed; waiting is not visible here.\<close>

definition lock_around :: "request list \<Rightarrow> ('z, 'a result) tree_io \<Rightarrow> ('z, 'a result) tree_io" where
  "lock_around requests action =
     (case normalizeRequests requests of Inl err \<Rightarrow> State_Monad.return (Inl err) | Inr _ \<Rightarrow> action)"

definition withSidecarRepositoryLocks ::
    "lock_env \<Rightarrow> git_store \<Rightarrow> repository list \<Rightarrow> ('z, 'a result) tree_io \<Rightarrow> ('z, 'a result) tree_io" where
  "withSidecarRepositoryLocks env s repositories action =
     lock_around (ReviewRepositoryRequests env (Root s) repositories)
       (lock_around (IssueRepositoryRequests env (Root s) repositories) action)"

definition withSidecarGroupLocks ::
    "lock_env \<Rightarrow> git_store \<Rightarrow> string list \<Rightarrow> ('z, 'a result) tree_io \<Rightarrow> ('z, 'a result) tree_io" where
  "withSidecarGroupLocks env s grps action =
     lock_around (ReviewGroupRequests env (Root s) grps)
       (lock_around (IssueGroupRequests env (Root s) grps) action)"

section \<open>Groups\<close>

text \<open>A directory is there: no for a missing entry and for a file, an error for anything else.\<close>

definition directory_exists :: "string result \<Rightarrow> ('z, bool result) tree_io" where
  "directory_exists path =
     (case path of
        Inl err \<Rightarrow> State_Monad.return (Inl err)
      | Inr p \<Rightarrow> do {
          info \<leftarrow> Stat_at p;
          State_Monad.return (case info of
            Inl err \<Rightarrow> if errors_is err ErrNotExist then Inr False else Inl err
          | Inr t \<Rightarrow> Inr (is_directory t))
        })"

definition groupExists :: "git_store \<Rightarrow> string \<Rightarrow> ('z, bool result) tree_io" where
  "groupExists s grp =
     (case ParseGroup grp of
        Inl err \<Rightarrow> State_Monad.return (Inl err)
      | Inr parts \<Rightarrow>
          if list_ex reservedGroupDirectory parts then State_Monad.return (Inr False)
          else do {
            present \<leftarrow> directory_exists (SafeJoin (working_dir s) (Root s) parts);
            case present of
              Inl err \<Rightarrow> State_Monad.return (Inl err)
            | Inr ok \<Rightarrow>
                if \<not> ok then State_Monad.return (Inr False)
                else directory_exists (SafeJoin (working_dir s) (Root s) [parts ! 0, ''control.git''])
          })"

record group_info =
  GroupInfo_Path :: string
  Repositories :: "string list"

definition listed_repositories :: "(string \<times> tree) list \<Rightarrow> string list" where
  "listed_repositories entries =
     map (\<lambda>e. TrimSuffix (fst e) ''.git'')
       (filter (\<lambda>e. is_directory (snd e) \<and> HasSuffix (fst e) ''.git'' \<and> fst e \<noteq> ''control.git'') entries)"

definition ParseGroup_ok :: "string \<Rightarrow> bool" where
  "ParseGroup_ok p = (case ParseGroup p of Inl _ \<Rightarrow> False | Inr _ \<Rightarrow> True)"

fun walkGroup :: "string list \<Rightarrow> tree \<Rightarrow> ('z, group_info list result) tree_io"
and walk_subgroups :: "string list \<Rightarrow> (string \<times> tree) list \<Rightarrow> ('z, group_info list result) tree_io"
where
  "walkGroup parts (File c) = State_Monad.return (Inl ErrIO)"
| "walkGroup parts (Dir es) = do {
     listed \<leftarrow> Touch_at;
     case listed of
       Inl err \<Rightarrow> State_Monad.return (Inl err)
     | Inr _ \<Rightarrow> do {
         below \<leftarrow> walk_subgroups parts es;
         State_Monad.return (bindr below (\<lambda>gs.
           Inr (\<lparr>GroupInfo_Path = Join parts ''/'', Repositories = listed_repositories es\<rparr> # gs)))
       }
   }"
| "walk_subgroups parts [] = State_Monad.return (Inr [])"
| "walk_subgroups parts ((n, t) # es) =
     (if \<not> is_directory t \<or> reservedGroupDirectory n \<or> \<not> ParseGroup_ok (Join (parts @ [n]) ''/'')
      then walk_subgroups parts es
      else do {
        r \<leftarrow> walkGroup (parts @ [n]) t;
        case r of
          Inl err \<Rightarrow> State_Monad.return (Inl err)
        | Inr gs \<Rightarrow> do {
            rest \<leftarrow> walk_subgroups parts es;
            State_Monad.return (bindr rest (\<lambda>hs. Inr (gs @ hs)))
          }
      })"

text \<open>The loop over the entries of the storage root.\<close>

fun walk_root :: "(string \<times> tree) list \<Rightarrow> ('z, group_info list result) tree_io" where
  "walk_root [] = State_Monad.return (Inr [])"
| "walk_root ((n, t) # es) =
     (if \<not> is_directory t \<or> reservedGroupDirectory n \<or> \<not> ParseGroup_ok n then walk_root es
      else do {
        controlInfo \<leftarrow> fs_read (\<lambda>_. find_at t [''control.git'']);
        if (case controlInfo of Inl err \<Rightarrow> errors_is err ErrNotExist | Inr c \<Rightarrow> \<not> is_directory c)
        then walk_root es
        else case controlInfo of
          Inl err \<Rightarrow> State_Monad.return (Inl err)
        | Inr _ \<Rightarrow> do {
            r \<leftarrow> walkGroup [n] t;
            case r of
              Inl err \<Rightarrow> State_Monad.return (Inl err)
            | Inr gs \<Rightarrow> do {
                rest \<leftarrow> walk_root es;
                State_Monad.return (bindr rest (\<lambda>hs. Inr (gs @ hs)))
              }
          }
      })"

definition ListGroups :: "git_store \<Rightarrow> ('z, group_info list result) tree_io" where
  "ListGroups s =
     (case SafeJoin (working_dir s) (Root s) [] of
        Inl err \<Rightarrow> State_Monad.return (Inl err)
      | Inr root \<Rightarrow> do {
          info \<leftarrow> Stat_at root;
          case info of
            Inl err \<Rightarrow> State_Monad.return (if errors_is err ErrNotExist then Inr [] else Inl err)
          | Inr _ \<Rightarrow> do {
              entries \<leftarrow> ReadDir_at root;
              case entries of Inl err \<Rightarrow> State_Monad.return (Inl err) | Inr es \<Rightarrow> walk_root es
            }
        })"

section \<open>Deleting a repository\<close>

text \<open>A source and its destination.\<close>

type_synonym move = "string \<times> string"

fun sidecar_moves :: "move list \<Rightarrow> ('z, move list result) tree_io" where
  "sidecar_moves [] = State_Monad.return (Inr [])"
| "sidecar_moves (sidecar # rest) = do {
     exists \<leftarrow> pathEntryExists (fst sidecar);
     case exists of
       Inl statErr \<Rightarrow> State_Monad.return (Inl statErr)
     | Inr ok \<Rightarrow> do {
         moves \<leftarrow> sidecar_moves rest;
         State_Monad.return (bindr moves (\<lambda>ms. Inr (if ok then sidecar # ms else ms)))
       }
   }"

fun destinations_free :: "move list \<Rightarrow> ('z, unit result) tree_io" where
  "destinations_free [] = State_Monad.return (Inr ())"
| "destinations_free (move # rest) = do {
     exists \<leftarrow> pathEntryExists (snd move);
     case exists of
       Inl statErr \<Rightarrow> State_Monad.return (Inl statErr)
     | Inr ok \<Rightarrow>
         if ok then State_Monad.return (Inl (Errorf (''trash destination already exists: '' @ snd move)))
         else destinations_free rest
   }"

text \<open>Moving back, the last move first; the errors are joined.\<close>

fun restore_moves :: "move list \<Rightarrow> goerror option \<Rightarrow> ('z, goerror option) tree_io" where
  "restore_moves [] rollbackErr = State_Monad.return rollbackErr"
| "restore_moves (candidate # rest) rollbackErr = do {
     r \<leftarrow> Rename_at (snd candidate) (fst candidate);
     restore_moves rest (case r of
       Inr _ \<Rightarrow> rollbackErr
     | Inl restoreErr \<Rightarrow> Some (case rollbackErr of None \<Rightarrow> restoreErr | Some e \<Rightarrow> JoinErr e restoreErr))
   }"

text \<open>The first argument has the moves that are done, the last one first.\<close>

fun run_moves :: "move list \<Rightarrow> move list \<Rightarrow> ('z, unit result) tree_io" where
  "run_moves finished [] = State_Monad.return (Inr ())"
| "run_moves finished (move # rest) = do {
     r \<leftarrow> Rename_at (fst move) (snd move);
     case r of
       Inr _ \<Rightarrow> run_moves (move # finished) rest
     | Inl err \<Rightarrow> do {
         rollbackErr \<leftarrow> restore_moves finished None;
         State_Monad.return (Inl (case rollbackErr of
           None \<Rightarrow> err
         | Some e \<Rightarrow> JoinErr err (Wrap ''restore repository after failed delete'' e)))
       }
   }"

definition move_to_trash :: "string \<Rightarrow> move \<Rightarrow> move list \<Rightarrow> ('z, unit result) tree_io" where
  "move_to_trash trash git sidecars = do {
     made \<leftarrow> MkdirAll_at trash;
     case made of
       Inl err \<Rightarrow> State_Monad.return (Inl err)
     | Inr _ \<Rightarrow> do {
         present \<leftarrow> sidecar_moves sidecars;
         case present of
           Inl err \<Rightarrow> State_Monad.return (Inl err)
         | Inr ms \<Rightarrow> do {
             free \<leftarrow> destinations_free (git # ms);
             case free of
               Inl err \<Rightarrow> State_Monad.return (Inl err)
             | Inr _ \<Rightarrow> run_moves [] (git # ms)
           }
       }
   }"

definition DeleteRepositoryLocked :: "lock_env \<Rightarrow> git_store \<Rightarrow> string \<Rightarrow> repository \<Rightarrow> ('z, unit result) tree_io" where
  "DeleteRepositoryLocked env s stamp r =
     (case bindr (GitPath s r) (\<lambda>gitp.
           bindr (LFSPath s r) (\<lambda>lfsp.
           bindr (BuildPath s r) (\<lambda>buildp.
           bindr (ReviewPath s r) (\<lambda>reviewp.
           bindr (IssuePath s r) (\<lambda>issuep.
           bindr (SafeJoin (working_dir s) (Root s) [''.trash'', stamp, Group r]) (\<lambda>trash.
             Inr (trash,
               (gitp, path_join [trash, Name r @ ''.git'']),
               [(lfsp, path_join [trash, Name r @ ''.lfs'']),
                (buildp, path_join [trash, Name r @ ''.build'']),
                (reviewp, path_join [trash, Name r @ ''.reviews'']),
                (issuep, path_join [trash, Name r @ ''.issues''])]))))))) of
        Inl err \<Rightarrow> State_Monad.return (Inl err)
      | Inr (trash, git, sidecars) \<Rightarrow> withSidecarRepositoryLocks env s [r] (move_to_trash trash git sidecars))"

definition DeleteRepository :: "lock_env \<Rightarrow> git_store \<Rightarrow> string \<Rightarrow> repository \<Rightarrow> ('z, unit result) tree_io" where
  "DeleteRepository env s stamp r =
     lock_around (RepositoryRequests env (Root s) [r] Exclusive) (DeleteRepositoryLocked env s stamp r)"

section \<open>Deleting a group\<close>

definition deleteGroup :: "git_store \<Rightarrow> string \<Rightarrow> string \<Rightarrow> ('z, unit result) tree_io" where
  "deleteGroup s stamp grp = do {
     exists \<leftarrow> groupExists s grp;
     case exists of
       Inl err \<Rightarrow> State_Monad.return (Inl err)
     | Inr ok \<Rightarrow>
         if \<not> ok then State_Monad.return (Inl (Errorf ''group does not exist''))
         else case GroupPath s grp of
           Inl err \<Rightarrow> State_Monad.return (Inl err)
         | Inr gp \<Rightarrow> do {
             entries \<leftarrow> ReadDir_at gp;
             case entries of
               Inl err \<Rightarrow> State_Monad.return (Inl err)
             | Inr es \<Rightarrow>
                 if list_ex (\<lambda>e. fst e \<noteq> ''control.git'') es then State_Monad.return (Inl (Errorf ''group is not empty''))
                 else case SafeJoin (working_dir s) (Root s) [''.trash'', stamp] of
                   Inl err \<Rightarrow> State_Monad.return (Inl err)
                 | Inr trash \<Rightarrow> do {
                     made \<leftarrow> MkdirAll_at trash;
                     case made of
                       Inl err \<Rightarrow> State_Monad.return (Inl err)
                     | Inr _ \<Rightarrow>
                         Rename_at gp (path_join [trash, concat (map (\<lambda>c. if c = CHR ''/'' then ''__'' else [c]) grp)])
                   }
           }
   }"

definition DeleteGroupLocked :: "lock_env \<Rightarrow> git_store \<Rightarrow> string \<Rightarrow> string \<Rightarrow> ('z, unit result) tree_io" where
  "DeleteGroupLocked env s stamp grp = withSidecarGroupLocks env s [grp] (deleteGroup s stamp grp)"

definition DeleteGroup :: "lock_env \<Rightarrow> git_store \<Rightarrow> string \<Rightarrow> string \<Rightarrow> ('z, unit result) tree_io" where
  "DeleteGroup env s stamp grp =
     lock_around (GroupRequests env (Root s) [grp] Exclusive) (DeleteGroupLocked env s stamp grp)"

end
