(* ===== verification/StorageLaws.thy ===== *)
theory StorageLaws
  imports StorageOps
begin

text \<open>
  Facts about moving directories to the trash and about the listing of groups: what a single move
  does to the places involved and to all others, the invariant of a sequence of moves with its
  rollback under arbitrary faults, and which groups a walk visits.
\<close>

section \<open>Places\<close>

definition apart :: "string list \<Rightarrow> string list \<Rightarrow> bool" where
  "apart p q \<longleftrightarrow> \<not> prefix p q \<and> \<not> prefix q p"

lemma apart_sym: "apart p q \<Longrightarrow> apart q p"
  by (simp add: apart_def)

lemma apart_append: "apart p q \<Longrightarrow> apart p (q @ rest)"
  unfolding apart_def by (metis prefix_append prefix_order.trans prefixI prefix_same_cases)

lemma apart_siblings: "m \<noteq> n \<Longrightarrow> apart (ps @ m # qs) (ps @ n # rs)"
  by (simp add: apart_def)

text \<open>One rename: the node is at the new place and nowhere at the old one; places apart from both are as before.\<close>

lemma rename_places:
  assumes "rename_tree a b d = Inr d'" "apart a b"
  shows "find_at d' b = find_at d a" "\<exists>x. find_at d a = Inr x" "\<exists>e. find_at d' a = Inl e"
    "\<And>q. apart a q \<Longrightarrow> apart b q \<Longrightarrow> find_at d' q = find_at d q"
proof -
  have ne: "a \<noteq> b" "a \<noteq> []" "b \<noteq> []" using assms(2) by (auto simp: apart_def)
  obtain x es where x: "find_at d a = Inr x" "find_at d (butlast b) = Inr (Dir es)"
    "d' = update_at b (Some x) (update_at a None d)" by (rule rename_tree_moved [OF assms(1) ne(1)])
  define p n where "p = butlast b" and "n = last b"
  have b: "b = p @ [n]" using ne(3) by (simp add: p_def n_def)
  have "\<exists>fs. find_at (update_at a None d) p = Inr (Dir fs)"
  proof (cases "prefix p a")
    case True
    then obtain qs where qs: "a = p @ qs" by (auto simp: prefix_def)
    then have "qs \<noteq> []" using assms(2) b by (auto simp: apart_def)
    then have "find_at (update_at a None d) p = Inr (update_at qs None (Dir es))"
      using find_update_above [of d p "Dir es" qs None] x(2) qs by (simp add: p_def)
    then show ?thesis by (cases qs) (auto split: option.split)
  next
    case False
    moreover have "\<not> prefix a p" using assms(2) b by (auto simp: apart_def)
    ultimately show ?thesis using find_update_beside [of a p None d] x(2) by (simp add: p_def)
  qed
  then have "find_at d' b = Inr x" using find_update_at [of "update_at a None d" p _ n x "[]"] x(3) b by auto
  then show "find_at d' b = find_at d a" "\<exists>x. find_at d a = Inr x" using x(1) by simp_all
  have "find_at d' a = find_at (update_at a None d) a"
    using assms(2) unfolding x(3) by (intro find_update_beside) (simp_all add: apart_def)
  then show "\<exists>e. find_at d' a = Inl e" using find_removed [OF ne(2), of d] by simp
  show "find_at d' q = find_at d q" if "apart a q" "apart b q" for q
    using that unfolding x(3) apart_def by (simp add: find_update_beside)
qed

lemma Rename_places:
  assumes "run_state (Rename_at a b) s = (r, t)" "apart (path_parts a) (path_parts b)"
  obtains (failed) e where "r = Inl e" "disk t = disk s"
    | (moved) "r = Inr ()" "rename_tree (path_parts a) (path_parts b) (disk s) = Inr (disk t)"
  using assms(1) unfolding Rename_at_def by (cases rule: fs_write_cases) auto

section \<open>Sequences of moves\<close>

text \<open>The places of a move, and moves that do not interfere.\<close>

definition places :: "move \<Rightarrow> string list set" where
  "places m = {path_parts (fst m), path_parts (snd m)}"

definition independent :: "move list \<Rightarrow> bool" where
  "independent ms \<longleftrightarrow>
     (\<forall>m\<in>set ms. apart (path_parts (fst m)) (path_parts (snd m))) \<and>
     sorted_wrt (\<lambda>m n. \<forall>p\<in>places m. \<forall>q\<in>places n. apart p q) ms"

text \<open>
  What each move of a sequence has from the disk \<open>d0\<close>: still at its source, or at its destination
  and no longer at the source.
\<close>

definition at_source :: "tree \<Rightarrow> tree \<Rightarrow> move \<Rightarrow> bool" where
  "at_source d0 d m \<longleftrightarrow> find_at d (path_parts (fst m)) = find_at d0 (path_parts (fst m))"

definition at_destination :: "tree \<Rightarrow> tree \<Rightarrow> move \<Rightarrow> bool" where
  "at_destination d0 d m \<longleftrightarrow>
     find_at d (path_parts (snd m)) = find_at d0 (path_parts (fst m)) \<and> (\<exists>e. find_at d (path_parts (fst m)) = Inl e)"

definition untouched :: "move list \<Rightarrow> tree \<Rightarrow> tree \<Rightarrow> bool" where
  "untouched ms d0 d \<longleftrightarrow> (\<forall>q. (\<forall>m\<in>set ms. \<forall>p\<in>places m. apart p q) \<longrightarrow> find_at d q = find_at d0 q)"

lemma other_place:
  assumes "\<forall>p\<in>places m. \<forall>q\<in>places n. apart p q" "rename_tree a b d = Inr d'" "{a, b} = places m" "apart a b"
  shows "at_source d0 d' n = at_source d0 d n" "at_destination d0 d' n = at_destination d0 d n"
proof -
  have "find_at d' q = find_at d q" if "q \<in> places n" for q
    using rename_places(4) [OF assms(2,4)] assms(1,3) that by (metis insertI1 insert_commute)
  then have "find_at d' (path_parts (fst n)) = find_at d (path_parts (fst n))"
    "find_at d' (path_parts (snd n)) = find_at d (path_parts (snd n))" by (simp_all add: places_def)
  then show "at_source d0 d' n = at_source d0 d n" "at_destination d0 d' n = at_destination d0 d n"
    by (simp_all add: at_source_def at_destination_def)
qed

lemma untouched_refl [simp]: "untouched ms d d"
  by (simp add: untouched_def)

lemma untouched_trans: "untouched ms d0 d1 \<Longrightarrow> untouched ms d1 d2 \<Longrightarrow> untouched ms d0 d2"
  by (simp add: untouched_def)

lemma untouched_mono: "set ms \<subseteq> set ns \<Longrightarrow> untouched ms d0 d1 \<Longrightarrow> untouched ns d0 d1"
  unfolding untouched_def by blast

lemma untouched_rename:
  assumes "rename_tree a b d = Inr d'" "apart a b" "{a, b} = places m" "m \<in> set ms"
  shows "untouched ms d d'"
proof -
  have "find_at d' q = find_at d q" if "\<forall>m\<in>set ms. \<forall>p\<in>places m. apart p q" for q
    using rename_places(4) [OF assms(1,2), of q] that assms(3,4) by blast
  then show ?thesis by (simp add: untouched_def)
qed

lemma untouched_place:
  assumes "untouched ms d d'" "\<forall>n\<in>set ms. \<forall>p\<in>places m. \<forall>q\<in>places n. apart p q"
  shows "at_source d0 d' m = at_source d0 d m" "at_destination d0 d' m = at_destination d0 d m"
proof -
  have "find_at d' p = find_at d p" if "p \<in> places m" for p
    using assms that apart_sym unfolding untouched_def by blast
  then have "find_at d' (path_parts (fst m)) = find_at d (path_parts (fst m))"
    "find_at d' (path_parts (snd m)) = find_at d (path_parts (snd m))" by (simp_all add: places_def)
  then show "at_source d0 d' m = at_source d0 d m" "at_destination d0 d' m = at_destination d0 d m"
    by (simp_all add: at_source_def at_destination_def)
qed

lemma independent_Cons:
  "independent (m # ms) \<longleftrightarrow>
     apart (path_parts (fst m)) (path_parts (snd m)) \<and> (\<forall>n\<in>set ms. \<forall>p\<in>places m. \<forall>q\<in>places n. apart p q) \<and> independent ms"
  by (auto simp: independent_def)

text \<open>The rollback leaves every node at one of its places, and reports no error only if all are back.\<close>

lemma restore_moves_places:
  assumes "independent ms" "\<forall>m\<in>set ms. at_destination d0 (disk s) m" "run_state (restore_moves ms acc) s = (r, t)"
  shows "(\<forall>m\<in>set ms. at_source d0 (disk t) m \<or> at_destination d0 (disk t) m) \<and>
    (r = None \<longrightarrow> acc = None \<and> (\<forall>m\<in>set ms. at_source d0 (disk t) m)) \<and> untouched ms (disk s) (disk t)"
  using assms
proof (induction ms arbitrary: acc s)
  case Nil
  then show ?case by simp
next
  case (Cons m ms)
  define acc' where "acc' x = (case x of Inr _ \<Rightarrow> acc
     | Inl restoreErr \<Rightarrow> Some (case acc of None \<Rightarrow> restoreErr | Some e \<Rightarrow> JoinErr e restoreErr))" for x :: "unit result"
  obtain x u where x: "run_state (Rename_at (snd m) (fst m)) s = (x, u)" "run_state (restore_moves ms (acc' x)) u = (r, t)"
    using Cons.prems(3) unfolding restore_moves.simps acc'_def by (rule run_bindE)
  have ind: "apart (path_parts (snd m)) (path_parts (fst m))" "\<forall>n\<in>set ms. \<forall>p\<in>places m. \<forall>q\<in>places n. apart p q"
    "independent ms" using Cons.prems(1) apart_sym by (auto simp: independent_Cons)
  have first: "(\<forall>n\<in>set ms. at_destination d0 (disk u) n) \<and> untouched (m # ms) (disk s) (disk u) \<and>
      (case x of Inr _ \<Rightarrow> at_source d0 (disk u) m | Inl _ \<Rightarrow> at_destination d0 (disk u) m)"
    using x(1) ind(1)
  proof (cases rule: Rename_places)
    case (failed e)
    then show ?thesis using Cons.prems(2) by simp
  next
    case moved
    have pl: "{path_parts (snd m), path_parts (fst m)} = places m" by (auto simp: places_def)
    have "at_source d0 (disk u) m"
      using rename_places(1) [OF moved(2) ind(1)] Cons.prems(2) by (simp add: at_source_def at_destination_def)
    moreover have "at_destination d0 (disk u) n" if "n \<in> set ms" for n
      using other_place(2) [OF _ moved(2) pl ind(1)] ind(2) that Cons.prems(2) by simp
    ultimately show ?thesis using untouched_rename [OF moved(2) ind(1) pl, of "m # ms"] moved(1) by simp
  qed
  then have rest: "(\<forall>n\<in>set ms. at_source d0 (disk t) n \<or> at_destination d0 (disk t) n) \<and>
      (r = None \<longrightarrow> acc' x = None \<and> (\<forall>n\<in>set ms. at_source d0 (disk t) n)) \<and> untouched ms (disk u) (disk t)"
    using Cons.IH [OF ind(3) _ x(2)] by blast
  have un: "untouched (m # ms) (disk s) (disk t)"
    using first untouched_mono [of ms "m # ms" "disk u" "disk t"] rest untouched_trans by fastforce
  have keep: "at_source d0 (disk t) m = at_source d0 (disk u) m" "at_destination d0 (disk t) m = at_destination d0 (disk u) m"
    using untouched_place [of ms "disk u" "disk t" m d0] rest ind(2) by simp_all
  show ?case
  proof (cases x)
    case (Inl e)
    then show ?thesis using first rest un keep by (auto simp add: acc'_def)
  next
    case (Inr v)
    then show ?thesis using first rest un keep by (simp add: acc'_def)
  qed
qed

text \<open>
  The sequence as a whole: on success everything is at its destination; without an error of the
  rollback everything is at its source; nothing is ever lost.
\<close>

lemma independent_rev: "independent (rev ms @ ns) \<Longrightarrow> independent ms"
proof -
  assume "independent (rev ms @ ns)"
  then have "\<forall>m\<in>set ms. apart (path_parts (fst m)) (path_parts (snd m))"
    "sorted_wrt (\<lambda>m n. \<forall>p\<in>places n. \<forall>q\<in>places m. apart p q) ms"
    by (auto simp: independent_def sorted_wrt_append sorted_wrt_rev)
  moreover have "(\<forall>p\<in>places n. \<forall>q\<in>places m. apart p q) = (\<forall>p\<in>places m. \<forall>q\<in>places n. apart p q)" for m n
    using apart_sym by blast
  ultimately show ?thesis by (simp add: independent_def)
qed

definition restore_failed :: "goerror \<Rightarrow> bool" where
  "restore_failed e \<longleftrightarrow> (\<exists>e1 e2. e = JoinErr e1 (Wrap ''restore repository after failed delete'' e2))"

lemma run_moves_places:
  assumes "independent (rev finished @ ms)" "\<forall>m\<in>set finished. at_destination d0 (disk s) m"
    "\<forall>m\<in>set ms. at_source d0 (disk s) m" "run_state (run_moves finished ms) s = (r, t)"
  shows "(\<forall>m\<in>set finished \<union> set ms. at_source d0 (disk t) m \<or> at_destination d0 (disk t) m) \<and>
    (r = Inr () \<longrightarrow> (\<forall>m\<in>set finished \<union> set ms. at_destination d0 (disk t) m)) \<and>
    (\<forall>e. r = Inl e \<and> \<not> restore_failed e \<longrightarrow> (\<forall>m\<in>set finished \<union> set ms. at_source d0 (disk t) m)) \<and>
    untouched (finished @ ms) (disk s) (disk t)"
  using assms
proof (induction ms arbitrary: finished s)
  case Nil
  then show ?case by auto
next
  case (Cons m ms)
  obtain x u where x: "run_state (Rename_at (fst m) (snd m)) s = (x, u)"
    "run_state (case x of Inr _ \<Rightarrow> run_moves (m # finished) ms | Inl err \<Rightarrow>
       restore_moves finished None \<bind> (\<lambda>rollbackErr. State_Monad.return (Inl (case rollbackErr of
           None \<Rightarrow> err | Some e \<Rightarrow> JoinErr err (Wrap ''restore repository after failed delete'' e))))) u = (r, t)"
    using Cons.prems(4) unfolding run_moves.simps by (rule run_bindE)
  have ind: "apart (path_parts (fst m)) (path_parts (snd m))" "independent (rev (m # finished) @ ms)"
    using Cons.prems(1) by (simp_all add: independent_def)
  have others: "\<forall>n\<in>set finished \<union> set ms. \<forall>p\<in>places m. \<forall>q\<in>places n. apart p q"
    using Cons.prems(1) apart_sym by (auto simp: independent_def sorted_wrt_append)
  from x(1) ind(1) show ?case
  proof (cases rule: Rename_places)
    case moved
    have pl: "{path_parts (fst m), path_parts (snd m)} = places m" by (simp add: places_def)
    have "at_destination d0 (disk u) m"
      using rename_places(1-3) [OF moved(2) ind(1)] Cons.prems(3) by (simp add: at_source_def at_destination_def)
    moreover have "at_destination d0 (disk u) n" if "n \<in> set finished" for n
      using other_place(2) [OF _ moved(2) pl ind(1), of n d0] others that Cons.prems(2) by blast
    moreover have "at_source d0 (disk u) n" if "n \<in> set ms" for n
      using other_place(1) [OF _ moved(2) pl ind(1), of n d0] others that Cons.prems(3) by auto
    moreover have "run_state (run_moves (m # finished) ms) u = (r, t)" using x(2) moved(1) by simp
    ultimately have IH: "(\<forall>n\<in>set (m # finished) \<union> set ms. at_source d0 (disk t) n \<or> at_destination d0 (disk t) n) \<and>
        (r = Inr () \<longrightarrow> (\<forall>n\<in>set (m # finished) \<union> set ms. at_destination d0 (disk t) n)) \<and>
        (\<forall>e. r = Inl e \<and> \<not> restore_failed e \<longrightarrow> (\<forall>n\<in>set (m # finished) \<union> set ms. at_source d0 (disk t) n)) \<and>
        untouched ((m # finished) @ ms) (disk u) (disk t)"
      by (intro Cons.IH [OF ind(2)]) auto
    have "untouched (finished @ m # ms) (disk s) (disk u)" by (rule untouched_rename [OF moved(2) ind(1) pl]) simp
    moreover have "untouched (finished @ m # ms) (disk u) (disk t)"
      using IH untouched_mono [of "(m # finished) @ ms" "finished @ m # ms"] by auto
    ultimately have "untouched (finished @ m # ms) (disk s) (disk t)" by (rule untouched_trans)
    moreover have "set (m # finished) \<union> set ms = set finished \<union> set (m # ms)" by auto
    ultimately show ?thesis using IH by simp
  next
    case (failed err)
    obtain y where y: "run_state (restore_moves finished None) u = (y, t)"
      "r = Inl (case y of None \<Rightarrow> err | Some e \<Rightarrow> JoinErr err (Wrap ''restore repository after failed delete'' e))"
      using x(2) failed(1) by (cases "run_state (restore_moves finished None) u") simp
    have "\<forall>n\<in>set finished. at_destination d0 (disk u) n" using Cons.prems(2) failed(2) by simp
    note undone = restore_moves_places [OF independent_rev [OF Cons.prems(1)] this y(1)]
    have "at_source d0 (disk t) n" if "n \<in> set (m # ms)" for n
    proof -
      have "\<forall>k\<in>set finished. \<forall>p\<in>places n. \<forall>q\<in>places k. apart p q"
        using Cons.prems(1) that apart_sym by (auto simp: independent_def sorted_wrt_append)
      then show ?thesis using untouched_place(1) [of finished "disk u" "disk t" n d0] undone Cons.prems(3) failed(2) that by auto
    qed
    moreover have "untouched (finished @ m # ms) (disk s) (disk t)"
      using undone failed(2) untouched_mono [of finished "finished @ m # ms"] by auto
    ultimately show ?thesis using undone y(2) by (cases y) (auto simp: restore_failed_def)
  qed
qed

section \<open>Moving to the trash\<close>

lemma pathEntryExists_result:
  assumes "run_state (pathEntryExists p) s = (Inr ok, t)" "p \<noteq> []"
  shows "disk t = disk s \<and> ok = (\<exists>x. find_at (disk s) (path_parts p) = Inr x)"
  using assms fs_read_result [of "\<lambda>d. if p = [] then Inl ErrNotExist else find_at d (path_parts p)" s]
  by (auto simp: pathEntryExists_def Stat_at_def fs_read_def fs_call_def split: sum.splits if_splits prod.splits)

lemma reading_pathEntryExists [simp, intro]: "reading (pathEntryExists p)"
  by (auto simp: pathEntryExists_def)

lemma reading_sidecar_moves [simp, intro]: "reading (sidecar_moves ms)"
  by (induction ms) (auto intro!: reading_bind split: sum.split)

lemma reading_destinations_free [simp, intro]: "reading (destinations_free ms)"
  by (induction ms) (auto intro!: reading_bind split: sum.split)

lemma reading_disk: "reading m \<Longrightarrow> run_state m s = (r, t) \<Longrightarrow> disk t = disk s"
  using readingD by fastforce

definition present :: "tree \<Rightarrow> move \<Rightarrow> bool" where
  "present d m \<longleftrightarrow> (case find_at d (path_parts (fst m)) of Inr _ \<Rightarrow> True | Inl _ \<Rightarrow> False)"

lemma present_iff: "present d m \<longleftrightarrow> (\<exists>x. find_at d (path_parts (fst m)) = Inr x)"
  by (auto simp: present_def split: sum.split)

lemma sidecar_moves_result:
  "run_state (sidecar_moves ms) s = (Inr ns, t) \<Longrightarrow> \<forall>m\<in>set ms. fst m \<noteq> [] \<Longrightarrow> ns = filter (present (disk s)) ms"
proof (induction ms arbitrary: s ns t)
  case (Cons m ms)
  obtain x u where x: "run_state (pathEntryExists (fst m)) s = (x, u)"
    "run_state (case x of Inl statErr \<Rightarrow> State_Monad.return (Inl statErr) | Inr ok \<Rightarrow> sidecar_moves ms \<bind> (\<lambda>moves.
       State_Monad.return (bindr moves (\<lambda>ms. Inr (if ok then m # ms else ms))))) u = (Inr ns, t)"
    using Cons.prems(1) unfolding sidecar_moves.simps by (rule run_bindE)
  obtain ok where ok: "x = Inr ok" using x(2) by (cases x) auto
  obtain y where y: "run_state (sidecar_moves ms) u = (y, t)" "bindr y (\<lambda>ms. Inr (if ok then m # ms else ms)) = Inr ns"
    using x(2) ok by (cases "run_state (sidecar_moves ms) u") simp
  obtain ks where ks: "y = Inr ks" "ns = (if ok then m # ks else ks)" using y(2) by (auto simp: bindr_Inr_iff)
  have "disk u = disk s" "ok = present (disk s) m"
    using pathEntryExists_result [of "fst m" s ok u] x(1) ok Cons.prems(2) by (simp_all add: present_iff)
  moreover have "ks = filter (present (disk u)) ms" using Cons.IH [of u ks t] y(1) ks(1) Cons.prems(2) by simp
  ultimately show ?case using ks(2) by simp
qed simp

lemma independent_filter: "independent ms \<Longrightarrow> independent (filter P ms)"
  by (simp add: independent_def sorted_wrt_filter)

text \<open>Everything that can happen: nothing but the trash directory was made, or the moves were run.\<close>

lemma move_to_trash_cases:
  assumes "run_state (move_to_trash trash git sidecars) s = (r, t)" "\<forall>m\<in>set sidecars. fst m \<noteq> []"
  obtains (refused) e where "r = Inl e" "disk t = disk s \<or> mkdirs (path_parts trash) (disk s) = Inr (disk t)" 
    | (run) u where "mkdirs (path_parts trash) (disk s) = Inr (disk u)"
      "run_state (run_moves [] (git # filter (present (disk u)) sidecars)) u = (r, t)"
proof -
  obtain x u where x: "run_state (MkdirAll_at trash) s = (x, u)"
    "run_state (case x of Inl err \<Rightarrow> State_Monad.return (Inl err) | Inr _ \<Rightarrow> sidecar_moves sidecars \<bind> (\<lambda>present.
       case present of Inl err \<Rightarrow> State_Monad.return (Inl err) | Inr ms \<Rightarrow> destinations_free (git # ms) \<bind> (\<lambda>free.
         case free of Inl err \<Rightarrow> State_Monad.return (Inl err) | Inr _ \<Rightarrow> run_moves [] (git # ms)))) u = (r, t)"
    using assms(1) unfolding move_to_trash_def by (rule run_bindE)
  show ?thesis
    using x(1) unfolding MkdirAll_at_def
  proof (cases rule: fs_write_cases)
    case (failed e sc)
    then show ?thesis using x(2) refused [of e] by auto
  next
    case (written d sc)
    have made: "mkdirs (path_parts trash) (disk s) = Inr (disk u)" using written by simp
    obtain y v where y: "run_state (sidecar_moves sidecars) u = (y, v)"
      "run_state (case y of Inl err \<Rightarrow> State_Monad.return (Inl err) | Inr ms \<Rightarrow> destinations_free (git # ms) \<bind> (\<lambda>free.
         case free of Inl err \<Rightarrow> State_Monad.return (Inl err) | Inr _ \<Rightarrow> run_moves [] (git # ms))) v = (r, t)"
      using x(2) unfolding written(1) sum.case by (rule run_bindE)
    have v: "disk v = disk u" using reading_disk [OF reading_sidecar_moves y(1)] .
    show ?thesis
    proof (cases y)
      case (Inl e)
      then show ?thesis using y(2) refused [of e] made v by auto
    next
      case (Inr ms)
      obtain z w where z: "run_state (destinations_free (git # ms)) v = (z, w)"
        "run_state (case z of Inl err \<Rightarrow> State_Monad.return (Inl err) | Inr _ \<Rightarrow> run_moves [] (git # ms)) w = (r, t)"
        using y(2) unfolding Inr sum.case by (rule run_bindE)
      have w: "disk w = disk u" using reading_disk [OF reading_destinations_free z(1)] v by simp
      have "ms = filter (present (disk u)) sidecars" using sidecar_moves_result [of sidecars u ms v] y(1) Inr assms(2) by simp
      then show ?thesis using z(2) refused run [of w] made w by (cases z) auto
    qed
  qed
qed

text \<open>The outcome for every directory that was there.\<close>

lemma move_to_trash_places:
  assumes "run_state (move_to_trash trash git sidecars) s = (r, t)" "independent (git # sidecars)"
    "\<forall>m\<in>set (git # sidecars). fst m \<noteq> [] \<and> apart (path_parts trash) (path_parts (fst m))"
    "m \<in> set (git # sidecars)" "find_at (disk s) (path_parts (fst m)) = Inr x"
  shows "at_source (disk s) (disk t) m \<or> at_destination (disk s) (disk t) m"
    "r = Inr () \<Longrightarrow> at_destination (disk s) (disk t) m"
    "\<And>e. r = Inl e \<Longrightarrow> \<not> restore_failed e \<Longrightarrow> at_source (disk s) (disk t) m"
proof -
  have made: "at_source (disk s) d n" if "mkdirs (path_parts trash) (disk s) = Inr d" "n \<in> set (git # sidecars)" for d n
    using mkdirs_beside [OF that(1)] assms(3) that(2) unfolding at_source_def apart_def by blast
  have "(at_source (disk s) (disk t) m \<or> at_destination (disk s) (disk t) m) \<and>
    (r = Inr () \<longrightarrow> at_destination (disk s) (disk t) m) \<and>
    (\<forall>e. r = Inl e \<and> \<not> restore_failed e \<longrightarrow> at_source (disk s) (disk t) m)"
  proof -
    have "\<forall>m\<in>set sidecars. fst m \<noteq> []" using assms(3) by simp
    with assms(1) show ?thesis
    proof (cases rule: move_to_trash_cases)
      case (refused e)
      have "at_source (disk s) (disk t) m" if "disk t = disk s" using that by (simp add: at_source_def)
      then have "at_source (disk s) (disk t) m" using made [OF _ assms(4)] refused(2) by blast
      then show ?thesis using refused(1) by simp
    next
      case (run u)
      define ms where "ms = git # filter (present (disk u)) sidecars"
      have sub: "set ms \<subseteq> set (git # sidecars)" by (auto simp: ms_def)
      have src: "\<forall>n\<in>set ms. at_source (disk s) (disk u) n" using made [OF run(1)] sub by blast
      have "find_at (disk u) (path_parts (fst m)) = Inr x" using made [OF run(1) assms(4)] assms(5) by (simp add: at_source_def)
      then have m: "m \<in> set ms" using assms(4) by (auto simp: ms_def present_iff)
      have ind: "independent (rev [] @ ms)" using assms(2) independent_filter by (auto simp: ms_def independent_Cons)
      have "run_state (run_moves [] ms) u = (r, t)" using run(2) by (simp add: ms_def)
      from run_moves_places [OF ind _ src this] show ?thesis using m by simp
    qed
  qed
  then show "at_source (disk s) (disk t) m \<or> at_destination (disk s) (disk t) m"
    "r = Inr () \<Longrightarrow> at_destination (disk s) (disk t) m"
    "\<And>e. r = Inl e \<Longrightarrow> \<not> restore_failed e \<Longrightarrow> at_source (disk s) (disk t) m" by blast+
qed

text \<open>Places apart from the moves and from the trash are as before.\<close>

lemma move_to_trash_elsewhere:
  assumes "run_state (move_to_trash trash git sidecars) s = (r, t)" "independent (git # sidecars)"
    "\<forall>m\<in>set (git # sidecars). fst m \<noteq> [] \<and> apart (path_parts trash) (path_parts (fst m))"
    "apart (path_parts trash) q" "\<forall>m\<in>set (git # sidecars). \<forall>p\<in>places m. apart p q"
  shows "find_at (disk t) q = find_at (disk s) q"
proof -
  have made: "find_at d q = find_at (disk s) q" if "mkdirs (path_parts trash) (disk s) = Inr d" for d
    using mkdirs_beside [OF that] assms(4) by (simp add: apart_def)
  have "\<forall>m\<in>set sidecars. fst m \<noteq> []" using assms(3) by simp
  with assms(1) show ?thesis
  proof (cases rule: move_to_trash_cases)
    case (refused e)
    then show ?thesis using made by auto
  next
    case (run u)
    define ms where "ms = git # filter (present (disk u)) sidecars"
    have ind: "independent (rev [] @ ms)" using assms(2) independent_filter by (auto simp: ms_def independent_Cons)
    have run_ms: "run_state (run_moves [] ms) u = (r, t)" using run(2) by (simp add: ms_def)
    have "untouched ([] @ ms) (disk u) (disk t)"
      using run_moves_places [OF ind, of "disk u" u r t] run_ms by (simp add: at_source_def)
    moreover have "\<forall>m\<in>set ms. \<forall>p\<in>places m. apart p q" using assms(5) by (auto simp: ms_def)
    ultimately show ?thesis using made [OF run(1)] by (simp add: untouched_def)
  qed
qed

section \<open>Walking the groups\<close>

text \<open>What a directory tree promises: names are not empty, have no slash and are different.\<close>

fun wf_tree :: "tree \<Rightarrow> bool" and wf_entries :: "(string \<times> tree) list \<Rightarrow> bool" where
  "wf_tree (File c) = True"
| "wf_tree (Dir es) = (distinct (map fst es) \<and> wf_entries es)"
| "wf_entries [] = True"
| "wf_entries ((n, t) # es) = (n \<noteq> [] \<and> CHR ''/'' \<notin> set n \<and> wf_tree t \<and> wf_entries es)"

lemma wf_entries_iff: "wf_entries es \<longleftrightarrow> (\<forall>(n, t)\<in>set es. n \<noteq> [] \<and> CHR ''/'' \<notin> set n \<and> wf_tree t)"
  by (induction es) auto

lemma wf_tree_find: "wf_tree t \<Longrightarrow> find_at t ns = Inr u \<Longrightarrow> wf_tree u"
proof (induction t ns rule: find_at.induct)
  case (3 es n ns)
  then show ?case using map_of_SomeD by (fastforce simp: wf_entries_iff split: option.splits)
qed auto

text \<open>The walks without faults.\<close>

fun groups_of :: "string list \<Rightarrow> tree \<Rightarrow> group_info list"
and subgroups_of :: "string list \<Rightarrow> (string \<times> tree) list \<Rightarrow> group_info list" where
  "groups_of parts (File c) = []"
| "groups_of parts (Dir es) =
     \<lparr>GroupInfo_Path = Join parts ''/'', Repositories = listed_repositories es\<rparr> # subgroups_of parts es"
| "subgroups_of parts [] = []"
| "subgroups_of parts ((n, t) # es) =
     (if \<not> is_directory t \<or> reservedGroupDirectory n \<or> \<not> ParseGroup_ok (Join (parts @ [n]) ''/'')
      then subgroups_of parts es else groups_of (parts @ [n]) t @ subgroups_of parts es)"

lemma Touch_quiet: "script s = [] \<Longrightarrow> run_state Touch_at s = (Inr (), s)"
  by (simp add: Touch_at_def fs_read_ok)

lemma walk_quiet:
  fixes s :: "'z tree_fs_scheme"
  assumes "script s = []"
  shows "is_directory t \<Longrightarrow> run_state (walkGroup parts t) s = (Inr (groups_of parts t), s)"
    and "run_state (walk_subgroups parts es) s = (Inr (subgroups_of parts es), s)"
  by (induction parts t and parts es rule: groups_of_subgroups_of.induct)
    (simp_all add: Touch_quiet [OF assms] is_directory_def)

lemma ParseGroup_ok_extend:
  assumes "list_all valid parts" "n \<noteq> []" "CHR ''/'' \<notin> set n"
  shows "ParseGroup_ok (Join (parts @ [n]) ''/'') \<longleftrightarrow> valid n"
proof
  assume "ParseGroup_ok (Join (parts @ [n]) ''/'')"
  then obtain ps where ps: "ParseGroup (Join (parts @ [n]) ''/'') = Inr ps" by (auto simp: ParseGroup_ok_def split: sum.splits)
  have seg: "\<forall>p\<in>set (parts @ [n]). CHR ''/'' \<notin> set p \<and> p \<noteq> []"
    using assms by (auto simp: list_all_iff valid_no_slash dest: valid_nonempty)
  have "TrimChar (Join (parts @ [n]) ''/'') (CHR ''/'') = Join (parts @ [n]) ''/''"
    using Join_ends [OF _ seg] Join_eq_Nil [of "parts @ [n]" "''/''"] seg by (intro TrimChar_id) auto
  then have j: "Join (parts @ [n]) ''/'' = Join ps ''/''" "ps \<noteq> []" "list_all valid ps" using ps by (simp_all add: ParseGroup_iff)
  have "Split (CHR ''/'') (Join ps ''/'') = ps"
    using j(2,3) by (intro Split_Join) (auto simp: list_all_iff valid_no_slash)
  moreover have "Split (CHR ''/'') (Join (parts @ [n]) ''/'') = parts @ [n]" using seg by (intro Split_Join) auto
  ultimately have "ps = parts @ [n]" using j(1) by simp
  then show "valid n" using j(3) by simp
next
  assume "valid n"
  then have "ParseGroup (Join (parts @ [n]) ''/'') = Inr (parts @ [n])" using assms(1) by (intro ParseGroup_Join) simp_all
  then show "ParseGroup_ok (Join (parts @ [n]) ''/'')" by (simp add: ParseGroup_ok_def)
qed

text \<open>The names a walk descends into, and the groups it finds: one for each path of such names to a directory.\<close>

definition group_name :: "string \<Rightarrow> bool" where
  "group_name n \<longleftrightarrow> valid n \<and> \<not> reservedGroupDirectory n"

definition found_group :: "string list \<Rightarrow> tree \<Rightarrow> string list \<Rightarrow> group_info \<Rightarrow> bool" where
  "found_group parts t ns g \<longleftrightarrow> list_all group_name ns \<and>
     (\<exists>es. find_at t ns = Inr (Dir es) \<and> g = \<lparr>GroupInfo_Path = Join (parts @ ns) ''/'', Repositories = listed_repositories es\<rparr>)"

lemma found_group_Cons:
  "found_group parts (Dir es) (n # ns) g \<longleftrightarrow> group_name n \<and> (\<exists>t. map_of es n = Some t \<and> found_group (parts @ [n]) t ns g)"
  by (auto simp: found_group_def split: option.splits)

lemma groups_of_exact:
  shows "wf_tree t \<Longrightarrow> list_all valid parts \<Longrightarrow> g \<in> set (groups_of parts t) \<longleftrightarrow> (\<exists>ns. found_group parts t ns g)"
    and "wf_entries es \<Longrightarrow> list_all valid parts \<Longrightarrow>
      g \<in> set (subgroups_of parts es) \<longleftrightarrow> (\<exists>(n, t) \<in> set es. group_name n \<and> (\<exists>ns. found_group (parts @ [n]) t ns g))"
proof (induction parts t and parts es rule: groups_of_subgroups_of.induct)
  case (1 parts c)
  have "\<not> found_group parts (File c) ns g" for ns by (cases ns) (simp_all add: found_group_def)
  then show ?case by simp
next
  case (2 parts es)
  have dist: "distinct (map fst es)" and sub: "g \<in> set (subgroups_of parts es) \<longleftrightarrow>
      (\<exists>(n, t) \<in> set es. group_name n \<and> (\<exists>ns. found_group (parts @ [n]) t ns g))" using 2 by simp_all
  have "(\<exists>ns. found_group parts (Dir es) ns g) \<longleftrightarrow>
      found_group parts (Dir es) [] g \<or> (\<exists>n ns. found_group parts (Dir es) (n # ns) g)"
    by (metis list.exhaust)
  also have "\<dots> \<longleftrightarrow> found_group parts (Dir es) [] g \<or> g \<in> set (subgroups_of parts es)"
    unfolding sub found_group_Cons using dist by fastforce
  finally show ?case by (simp add: found_group_def)
next
  case (3 parts)
  then show ?case by simp
next
  case (4 parts n t es)
  have n: "n \<noteq> []" "CHR ''/'' \<notin> set n" "wf_tree t" "wf_entries es" using 4(4) by simp_all
  have ok: "ParseGroup_ok (Join (parts @ [n]) ''/'') \<longleftrightarrow> valid n" by (rule ParseGroup_ok_extend [OF 4(5) n(1,2)])
  have plain: "\<not> found_group (parts @ [n]) t ns g" if "\<not> is_directory t" for ns
    using that by (cases t; cases ns) (simp_all add: is_directory_def found_group_def)
  show ?case
  proof (cases "is_directory t \<and> group_name n")
    case True
    then have c: "\<not> (\<not> is_directory t \<or> reservedGroupDirectory n \<or> \<not> ParseGroup_ok (Join (parts @ [n]) ''/''))"
      using ok by (simp add: group_name_def)
    have "g \<in> set (groups_of (parts @ [n]) t) \<longleftrightarrow> (\<exists>ns. found_group (parts @ [n]) t ns g)"
      using 4(2) [OF c n(3)] 4(5) True by (simp add: group_name_def)
    moreover have "g \<in> set (subgroups_of parts es) \<longleftrightarrow> (\<exists>(n, t) \<in> set es. group_name n \<and> (\<exists>ns. found_group (parts @ [n]) t ns g))"
      by (rule 4(3) [OF c n(4) 4(5)])
    ultimately show ?thesis using c True by simp
  next
    case False
    then have c: "\<not> is_directory t \<or> reservedGroupDirectory n \<or> \<not> ParseGroup_ok (Join (parts @ [n]) ''/'')"
      using ok by (auto simp: group_name_def)
    have "g \<in> set (subgroups_of parts es) \<longleftrightarrow> (\<exists>(n, t) \<in> set es. group_name n \<and> (\<exists>ns. found_group (parts @ [n]) t ns g))"
      by (rule 4(1) [OF c n(4) 4(5)])
    moreover have "\<not> (group_name n \<and> (\<exists>ns. found_group (parts @ [n]) t ns g))" using False plain by blast
    ultimately show ?thesis using c by (simp only: subgroups_of.simps if_True list.set bex_simps prod.case simp_thms)
  qed
qed

text \<open>The storage root: only names with a control repository.\<close>

definition has_control :: "tree \<Rightarrow> bool" where
  "has_control t \<longleftrightarrow> (case find_at t [''control.git''] of Inl _ \<Rightarrow> False | Inr c \<Rightarrow> is_directory c)"

fun root_groups :: "(string \<times> tree) list \<Rightarrow> group_info list" where
  "root_groups [] = []"
| "root_groups ((n, t) # es) =
     (if is_directory t \<and> \<not> reservedGroupDirectory n \<and> ParseGroup_ok n \<and> has_control t then groups_of [n] t else [])
     @ root_groups es"

lemma walk_root_quiet:
  fixes s :: "'z tree_fs_scheme"
  assumes "script s = []"
  shows "run_state (walk_root es) s = (Inr (root_groups es), s)"
proof (induction es)
  case (Cons e es)
  obtain n t where e: "e = (n, t)" by fastforce
  show ?case
  proof (cases "is_directory t \<and> \<not> reservedGroupDirectory n \<and> ParseGroup_ok n")
    case True
    then obtain fs where t: "t = Dir fs" by (cases t) (auto simp: is_directory_def)
    show ?thesis
    proof (cases "map_of fs ''control.git''")
      case None
      then have "find_at t [''control.git''] = Inl ErrNotExist" by (simp add: t)
      then show ?thesis using True Cons.IH by (simp add: e fs_read_ok [OF assms] has_control_def)
    next
      case (Some c)
      then have "find_at t [''control.git''] = Inr c" by (simp add: t)
      then show ?thesis using True Cons.IH walk_quiet(1) [OF assms, of t "[n]"]
        by (simp add: e fs_read_ok [OF assms] has_control_def)
    qed
  qed (use Cons.IH in \<open>auto simp: e\<close>)
qed simp

lemma root_groups_member:
  "wf_entries es \<Longrightarrow> g \<in> set (root_groups es) \<longleftrightarrow>
     (\<exists>n t. (n, t) \<in> set es \<and> group_name n \<and> has_control t \<and> (\<exists>ns. found_group [n] t ns g))"
proof (induction es)
  case (Cons e es)
  obtain n t where e: "e = (n, t)" by fastforce
  have wf: "n \<noteq> []" "CHR ''/'' \<notin> set n" "wf_tree t" "wf_entries es" using Cons.prems by (simp_all add: e)
  have ok: "ParseGroup_ok n \<longleftrightarrow> valid n" using ParseGroup_ok_extend [of "[]" n] wf by simp
  have dir: "is_directory t" if "has_control t" using that by (cases t) (auto simp: has_control_def is_directory_def)
  have ex: "g \<in> set (groups_of [n] t) \<longleftrightarrow> (\<exists>ns. found_group [n] t ns g)" if "group_name n"
    using groups_of_exact(1) [OF wf(3), of "[n]" g] that by (simp add: group_name_def)
  have "g \<in> set (root_groups (e # es)) \<longleftrightarrow>
      (group_name n \<and> has_control t \<and> (\<exists>ns. found_group [n] t ns g)) \<or> g \<in> set (root_groups es)"
    using ok dir ex by (auto simp: e group_name_def)
  then show ?case using Cons.IH [OF wf(4)] by (auto simp: e)
qed simp

lemma SafeJoin_root: "absolute_store s \<Longrightarrow> SafeJoin (working_dir s) (Root s) [] = Inr (rooted_path (store_parts s))"
proof -
  assume "absolute_store s"
  then obtain wd where wd: "working_dir s = Inr wd" "HasPrefix wd ''/''" by (auto simp: absolute_store_def split: sum.splits)
  have "abs_parts wd (path_join [Root s]) = abs_parts wd (Root s)"
    using abs_parts_Clean [of "Root s" wd] by (cases "Root s = []") (simp_all add: path_join_def)
  then show ?thesis using SafeJoin_parts [OF wd(2), of "Root s" "[]"] by (simp add: wd(1) store_parts_def)
qed

lemma Stat_quiet:
  "script s = [] \<Longrightarrow> list_all normal ps \<Longrightarrow> run_state (Stat_at (rooted_path ps)) s = (find_at (disk s) ps, s)"
  by (simp add: Stat_at_def fs_read_ok path_parts_rooted) (simp add: rooted_path_def)

lemma ListGroups_quiet:
  assumes "absolute_store s" "script st = []" "find_at (disk st) (store_parts s) = Inr (Dir es)"
  shows "run_state (ListGroups s) st = (Inr (root_groups es), st)"
proof -
  have n: "list_all normal (store_parts s)" by (rule git_parts_normal [OF assms(1)])
  have "run_state (ReadDir_at (rooted_path (store_parts s))) st = (Inr es, st)"
    using assms(2,3) by (simp add: ReadDir_at_def fs_read_ok path_parts_rooted [OF n])
  then show ?thesis
    using assms(3) walk_root_quiet [OF assms(2)] by (simp add: ListGroups_def SafeJoin_root [OF assms(1)] Stat_quiet [OF assms(2) n])
qed

text \<open>The test for one group, without faults.\<close>

lemma directory_exists_quiet:
  assumes "script st = []" "list_all normal ps"
  shows "run_state (directory_exists (Inr (rooted_path ps))) st = (Inr True, st) \<longleftrightarrow> (\<exists>es. find_at (disk st) ps = Inr (Dir es))"
    "snd (run_state (directory_exists (Inr (rooted_path ps))) st) = st"
  by (auto simp: directory_exists_def Stat_quiet [OF assms] is_directory_def split: sum.splits tree.splits)

lemma groupExists_quiet:
  fixes st :: "'z tree_fs_scheme"
  assumes "absolute_store s" "script st = []" "ParseGroup grp = Inr parts"
  shows "run_state (groupExists s grp) st = (Inr True, st) \<longleftrightarrow>
    list_all group_name parts \<and> (\<exists>es. find_at (disk st) (store_parts s @ parts) = Inr (Dir es)) \<and>
    (\<exists>es. find_at (disk st) (store_parts s @ [parts ! 0, ''control.git'']) = Inr (Dir es))"
proof -
  have p: "parts \<noteq> []" "list_all valid parts" using assms(3) by (simp_all add: ParseGroup_iff)
  have names: "list_all group_name parts \<longleftrightarrow> \<not> list_ex reservedGroupDirectory parts"
    using p(2) by (auto simp: list_all_iff list_ex_iff group_name_def)
  have "valid (parts ! 0)" using p by (cases parts) simp_all
  then have n: "list_all normal parts" "list_all normal [parts ! 0, ''control.git'']"
    using p(2) valid_normal by (auto simp: list_all_iff normal_def)
  note join = store_join [OF assms(1) p(1) n(1)] store_join [OF assms(1) list.distinct(2) n(2)]
  have root: "list_all normal (store_parts s)" by (rule git_parts_normal [OF assms(1)])
  define a :: "('z, bool result) tree_io" where "a = directory_exists (Inr (rooted_path (store_parts s @ parts)))"
  define b :: "('z, bool result) tree_io" where "b = directory_exists (Inr (rooted_path (store_parts s @ [parts ! 0, ''control.git''])))"
  have A: "run_state a st = (Inr True, st) \<longleftrightarrow> (\<exists>es. find_at (disk st) (store_parts s @ parts) = Inr (Dir es))"
    "snd (run_state a st) = st"
    using directory_exists_quiet [OF assms(2), of "store_parts s @ parts"] root n(1) by (simp_all add: a_def)
  have B: "run_state b st = (Inr True, st) \<longleftrightarrow>
      (\<exists>es. find_at (disk st) (store_parts s @ [parts ! 0, ''control.git'']) = Inr (Dir es))"
    using directory_exists_quiet(1) [OF assms(2), of "store_parts s @ [parts ! 0, ''control.git'']"] root n(2) by (simp add: b_def)
  have run: "groupExists s grp = (if list_ex reservedGroupDirectory parts then State_Monad.return (Inr False)
      else a \<bind> (\<lambda>present. case present of Inl err \<Rightarrow> State_Monad.return (Inl err)
        | Inr ok \<Rightarrow> if \<not> ok then State_Monad.return (Inr False) else b))"
    unfolding groupExists_def assms(3) sum.case join a_def b_def ..
  obtain x where x: "run_state a st = (x, st)" using A(2) by (cases "run_state a st") simp
  show ?thesis
  proof (cases x)
    case (Inl e)
    then show ?thesis using A(1) x by (simp add: run)
  next
    case (Inr ok)
    then show ?thesis using A(1) B x names by (cases ok) (auto simp: run)
  qed
qed

section \<open>Deleting without faults\<close>

lemma mkdirs_new: "\<exists>t. mkdirs ns (Dir []) = Inr t"
  by (induction ns) auto

lemma mkdirs_total: "find_at t ns = Inl ErrNotExist \<or> (\<exists>es. find_at t ns = Inr (Dir es)) \<Longrightarrow> \<exists>t'. mkdirs ns t = Inr t'"
proof (induction t ns rule: find_at.induct)
  case (3 es n ns)
  then show ?case using mkdirs_new [of ns] by (auto split: option.splits)
qed auto

lemma pathEntryExists_quiet:
  assumes "script s = []" "p \<noteq> []" "find_at (disk s) (path_parts p) = Inl ErrNotExist \<or> (\<exists>x. find_at (disk s) (path_parts p) = Inr x)"
  shows "run_state (pathEntryExists p) s = (Inr (\<exists>x. find_at (disk s) (path_parts p) = Inr x), s)"
  using assms by (auto simp: pathEntryExists_def Stat_at_def fs_read_ok)

definition found_or_missing :: "tree \<Rightarrow> string list \<Rightarrow> bool" where
  "found_or_missing d p \<longleftrightarrow> find_at d p = Inl ErrNotExist \<or> (\<exists>x. find_at d p = Inr x)"

lemma found_or_missing_child: "find_at d ps = Inr (Dir es) \<Longrightarrow> found_or_missing d (ps @ [n])"
  by (auto simp: found_or_missing_def find_at_append split: option.splits)

lemma sidecar_moves_quiet:
  "script s = [] \<Longrightarrow> \<forall>m\<in>set ms. fst m \<noteq> [] \<and> found_or_missing (disk s) (path_parts (fst m)) \<Longrightarrow>
   run_state (sidecar_moves ms) s = (Inr (filter (present (disk s)) ms), s)"
proof (induction ms)
  case (Cons m ms)
  have "run_state (pathEntryExists (fst m)) s = (Inr (present (disk s) m), s)"
    using pathEntryExists_quiet [of s "fst m"] Cons.prems by (simp add: found_or_missing_def present_iff)
  then show ?case using Cons by (cases "present (disk s) m") simp_all
qed simp

lemma destinations_free_quiet:
  "script s = [] \<Longrightarrow> \<forall>m\<in>set ms. snd m \<noteq> [] \<and> find_at (disk s) (path_parts (snd m)) = Inl ErrNotExist \<Longrightarrow>
   run_state (destinations_free ms) s = (Inr (), s)"
proof (induction ms)
  case (Cons m ms)
  have "run_state (pathEntryExists (snd m)) s = (Inr False, s)"
    using pathEntryExists_quiet [of s "snd m"] Cons.prems by simp
  then show ?case using Cons by simp
qed simp

lemma rename_tree_ok:
  assumes "find_at d a = Inr x" "apart a b" "find_at d (butlast b) = Inr (Dir es)" "find_at d b = Inl e"
  shows "\<exists>d'. rename_tree a b d = Inr d'"
  using assms by (auto simp: rename_tree_def apart_def)

lemma run_moves_quiet:
  assumes "independent ms" "script s = []"
    "\<forall>m\<in>set ms. present (disk s) m \<and> butlast (path_parts (snd m)) = parent \<and> (\<exists>e. find_at (disk s) (path_parts (snd m)) = Inl e)"
    "\<exists>es. find_at (disk s) parent = Inr (Dir es)"
  shows "fst (run_state (run_moves finished ms) s) = Inr ()"
  using assms
proof (induction ms arbitrary: s finished)
  case (Cons m ms)
  define a b where "a = path_parts (fst m)" and "b = path_parts (snd m)"
  have ap: "apart a b" and ind: "independent ms" "\<forall>n\<in>set ms. \<forall>p\<in>places m. \<forall>q\<in>places n. apart p q"
    using Cons.prems(1) by (auto simp: independent_Cons a_def b_def)
  have m: "\<exists>x. find_at (disk s) a = Inr x" "butlast b = parent" "\<exists>e. find_at (disk s) b = Inl e"
    using Cons.prems(3) by (auto simp: present_iff a_def b_def)
  obtain x es e where h: "find_at (disk s) a = Inr x" "find_at (disk s) (butlast b) = Inr (Dir es)" "find_at (disk s) b = Inl e"
    using m Cons.prems(4) by auto
  obtain d where d: "rename_tree a b (disk s) = Inr d" using rename_tree_ok [OF h(1) ap h(2,3)] by blast
  have run: "run_state (Rename_at (fst m) (snd m)) s = (Inr (), s\<lparr>disk := d\<rparr>)"
    using d Cons.prems(2) by (simp add: Rename_at_def fs_write_def fs_call_def a_def b_def)
  note pl = rename_places [OF d ap]
  have keep: "find_at d (path_parts (fst n)) = find_at (disk s) (path_parts (fst n))"
    "find_at d (path_parts (snd n)) = find_at (disk s) (path_parts (snd n))" if "n \<in> set ms" for n
    using pl(4) ind(2) that unfolding places_def a_def b_def by blast+
  have "b = butlast b @ [last b]" using ap by (cases b rule: rev_cases) (auto simp: apart_def)
  then have dir: "\<exists>es. find_at d parent = Inr (Dir es)"
    using find_at_parent [of d "butlast b" "last b"] pl(1) h(1) m(2) by simp
  have "fst (run_state (run_moves (m # finished) ms) (s\<lparr>disk := d\<rparr>)) = Inr ()"
    by (rule Cons.IH [OF ind(1)]) (use Cons.prems(2,3) keep dir in \<open>simp_all add: present_def\<close>)
  then show ?case using run by simp
qed simp

lemma move_to_trash_quiet:
  assumes "independent (git # sidecars)" "script s = []"
    "\<forall>m\<in>set (git # sidecars). fst m \<noteq> [] \<and> snd m \<noteq> [] \<and> apart (path_parts trash) (path_parts (fst m)) \<and>
       found_or_missing (disk s) (path_parts (fst m)) \<and> butlast (path_parts (snd m)) = path_parts trash \<and> path_parts (snd m) \<noteq> []"
    "present (disk s) git" "find_at (disk s) (path_parts trash) = Inl ErrNotExist"
  shows "fst (run_state (move_to_trash trash git sidecars) s) = Inr ()"
proof -
  obtain d where d: "mkdirs (path_parts trash) (disk s) = Inr d" using mkdirs_total assms(5) by blast
  define u where "u = s\<lparr>disk := d\<rparr>"
  have made: "run_state (MkdirAll_at trash) s = (Inr (), u)"
    using d assms(2) by (simp add: MkdirAll_at_def fs_write_def fs_call_def u_def)
  have u: "script u = []" "disk u = d" using assms(2) by (simp_all add: u_def)
  have src: "find_at d (path_parts (fst m)) = find_at (disk s) (path_parts (fst m))" if "m \<in> set (git # sidecars)" for m
    using mkdirs_beside [OF d] assms(3) that unfolding apart_def by blast
  obtain es where dir: "find_at d (path_parts trash) = Inr (Dir es)" using mkdirs_dir [OF d] by blast
  have dst: "find_at d (path_parts (snd m)) = Inl ErrNotExist" if "m \<in> set (git # sidecars)" for m
  proof -
    have "butlast (path_parts (snd m)) = path_parts trash" "path_parts (snd m) \<noteq> []" using assms(3) that by blast+
    then have b: "path_parts (snd m) = path_parts trash @ [last (path_parts (snd m))]"
      using append_butlast_last_id [of "path_parts (snd m)"] by simp
    have "found_or_missing d (path_parts trash @ [n])" for n by (rule found_or_missing_child [OF dir])
    moreover have "\<nexists>x. find_at d (path_parts trash @ [n]) = Inr x" for n
      using mkdirs_child [OF d] assms(5) by (auto simp: find_at_append)
    ultimately show ?thesis using b unfolding found_or_missing_def by metis
  qed
  have listed: "run_state (sidecar_moves sidecars) u = (Inr (filter (present d) sidecars), u)"
    using sidecar_moves_quiet [OF u(1), of sidecars] assms(3) src by (simp add: u(2) found_or_missing_def)
  define ms where "ms = git # filter (present d) sidecars"
  have sub: "set ms \<subseteq> set (git # sidecars)" by (auto simp: ms_def)
  have free: "run_state (destinations_free ms) u = (Inr (), u)"
    using destinations_free_quiet [OF u(1), of ms] dst sub assms(3) unfolding u(2) by blast
  have "fst (run_state (run_moves [] ms) u) = Inr ()"
  proof (rule run_moves_quiet [OF _ u(1)])
    show "independent ms" using assms(1) independent_filter by (auto simp: ms_def independent_Cons)
    have "present d git" using assms(4) src [of git] by (simp add: present_def)
    then show "\<forall>m\<in>set ms. present (disk u) m \<and> butlast (path_parts (snd m)) = path_parts trash \<and>
        (\<exists>e. find_at (disk u) (path_parts (snd m)) = Inl e)"
      using sub assms(3) dst unfolding u(2) by (auto simp: ms_def)
    show "\<exists>es. find_at (disk u) (path_parts trash) = Inr (Dir es)" using dir u(2) by simp
  qed
  then show ?thesis using made listed free unfolding move_to_trash_def ms_def
    by (simp del: destinations_free.simps run_moves.simps)
qed

end
