(* ===== verification/StorageClaims.thy ===== *)
theory StorageClaims
  imports StorageLaws
begin

text \<open>
  Properties of the storage operations: deleting a repository loses nothing whatever call fails, the
  list of groups agrees with the test for one group, and only empty groups are deleted.
\<close>

section \<open>The places of a deletion\<close>

definition endings :: "string list" where
  "endings = [''.git'', ''.lfs'', ''.build'', ''.reviews'', ''.issues'']"

definition trash_parts :: "git_store \<Rightarrow> string \<Rightarrow> repository \<Rightarrow> string list" where
  "trash_parts s stamp r = store_parts s @ ''.trash'' # stamp # Groups r"

definition trash_move :: "git_store \<Rightarrow> string \<Rightarrow> repository \<Rightarrow> string \<Rightarrow> move" where
  "trash_move s stamp r e =
     (rooted_path (repository_parts s r e), rooted_path (trash_parts s stamp r @ [Name r @ e]))"

lemma endings_ok: "e \<in> set endings \<Longrightarrow> CHR ''/'' \<notin> set e \<and> 2 \<le> length e"
  by (auto simp: endings_def)

lemma Join_flatten: "ys \<noteq> [] \<Longrightarrow> Join (xs @ [Join ys sep]) sep = Join (xs @ ys) sep"
  by (cases "xs = []") (simp_all add: Join_append)

lemma SafeJoin_flatten:
  assumes "ys \<noteq> []" "a \<noteq> []"
  shows "SafeJoin wd root (a # b # [Join ys ''/'']) = SafeJoin wd root (a # b # ys)"
proof -
  have "path_join (root # a # b # [Join ys ''/'']) = path_join (root # a # b # ys)"
    using assms Join_flatten [OF assms(1), of "[a, b]" "''/''"] Join_flatten [OF assms(1), of "[root, a, b]" "''/''"]
    by (simp add: path_join_def)
  then show ?thesis by (simp add: SafeJoin_def)
qed

lemma path_join_child:
  assumes "list_all normal (ps @ [n])" "ps \<noteq> []"
  shows "path_join [rooted_path ps, n] = rooted_path (ps @ [n])"
proof -
  have "Join [rooted_path ps, n] ''/'' = rooted_path (ps @ [n])" using assms(2) by (simp add: rooted_path_def Join_append)
  then show ?thesis using Clean_rooted_path [OF assms(1)] by (simp add: path_join_def rooted_path_def)
qed

text \<open>A deletion that the properties speak of: a storage root, a repository and a name for the trash.\<close>

definition deletion :: "git_store \<Rightarrow> string \<Rightarrow> repository \<Rightarrow> bool" where
  "deletion s stamp r \<longleftrightarrow> absolute_store s \<and> wf_repository r \<and> normal stamp"

lemma deletionD:
  assumes "deletion s stamp r"
  shows "absolute_store s" "wf_repository r" "normal stamp"
  using assms by (simp_all add: deletion_def)

lemma trash_normal: "deletion s stamp r \<Longrightarrow> list_all normal (trash_parts s stamp r)"
proof -
  assume d: "deletion s stamp r"
  have "normal ''.trash''" by (simp add: normal_def)
  then show ?thesis using git_parts_normal wf_groups_normal deletionD [OF d] by (simp add: trash_parts_def)
qed

lemma destination_normal:
  "deletion s stamp r \<Longrightarrow> e \<in> set endings \<Longrightarrow> list_all normal (trash_parts s stamp r @ [Name r @ e])"
  using trash_normal endings_ok [of e] normal_append [of "Name r" e] deletionD [of s stamp r] by (simp add: wf_repository_def)

lemma source_normal: "deletion s stamp r \<Longrightarrow> e \<in> set endings \<Longrightarrow> list_all normal (repository_parts s r e)"
  using repository_parts_normal deletionD endings_ok by blast

lemma move_parts [simp]:
  assumes "deletion s stamp r" "e \<in> set endings"
  shows "path_parts (fst (trash_move s stamp r e)) = repository_parts s r e"
    "path_parts (snd (trash_move s stamp r e)) = trash_parts s stamp r @ [Name r @ e]"
  using source_normal [OF assms] destination_normal [OF assms] by (simp_all add: trash_move_def path_parts_rooted)

lemma source_path: "deletion s stamp r \<Longrightarrow> e \<in> set endings \<Longrightarrow>
    SafeJoin (working_dir s) (Root s) (Groups r @ [Name r @ e]) = Inr (fst (trash_move s stamp r e))"
  using repository_path deletionD endings_ok by (simp add: trash_move_def)

lemma trash_path:
  assumes "deletion s stamp r"
  shows "SafeJoin (working_dir s) (Root s) [''.trash'', stamp, Group r] = Inr (rooted_path (trash_parts s stamp r))"
proof -
  have "Groups r \<noteq> []" using deletionD(2) [OF assms] by (simp add: wf_repository_def)
  then have "SafeJoin (working_dir s) (Root s) [''.trash'', stamp, Group r] =
      SafeJoin (working_dir s) (Root s) (''.trash'' # stamp # Groups r)"
    using SafeJoin_flatten [of "Groups r" "''.trash''"] by (simp add: Group_def)
  also have "\<dots> = Inr (rooted_path (trash_parts s stamp r))"
    using store_join [OF deletionD(1) [OF assms], of "''.trash'' # stamp # Groups r"] trash_normal [OF assms]
    by (simp add: trash_parts_def)
  finally show ?thesis .
qed

lemma destination_path: "deletion s stamp r \<Longrightarrow> e \<in> set endings \<Longrightarrow>
    path_join [rooted_path (trash_parts s stamp r), Name r @ e] = snd (trash_move s stamp r e)"
  using path_join_child [OF destination_normal] by (simp add: trash_move_def trash_parts_def)

text \<open>The operation in terms of these places.\<close>

lemma delete_as_moves:
  assumes "deletion s stamp r"
  shows "DeleteRepositoryLocked env s stamp r =
     withSidecarRepositoryLocks env s [r]
       (move_to_trash (rooted_path (trash_parts s stamp r)) (trash_move s stamp r ''.git'')
         (map (trash_move s stamp r) [''.lfs'', ''.build'', ''.reviews'', ''.issues'']))"
proof -
  have e: "''.git'' \<in> set endings" "''.lfs'' \<in> set endings" "''.build'' \<in> set endings"
    "''.reviews'' \<in> set endings" "''.issues'' \<in> set endings" by (simp_all add: endings_def)
  note src = e [THEN source_path [OF assms]] and dst = e [THEN destination_path [OF assms]]
  show ?thesis
    unfolding DeleteRepositoryLocked_def GitPath_def LFSPath_def BuildPath_def ReviewPath_def IssuePath_def
      src trash_path [OF assms] bindr_simps dst sum.case prod.case prod.collapse list.map ..
qed

text \<open>The places do not interfere: the trash is beside every group, names differ in their ending.\<close>

lemma trash_apart:
  assumes "wf_repository r"
  shows "apart (store_parts s @ ''.trash'' # rest) (repository_parts s r e)"
proof -
  obtain g gs where g: "Groups r = g # gs" "valid g" using assms by (cases "Groups r") (auto simp: wf_repository_def)
  then have "''.trash'' \<noteq> g" using valid_no_dot_first [of g] by auto
  then show ?thesis using apart_siblings [of "''.trash''" g "store_parts s" rest] g(1) by (simp add: repository_parts_def)
qed

lemma moves_independent:
  "deletion s stamp r \<Longrightarrow> set es \<subseteq> set endings \<Longrightarrow> distinct es \<Longrightarrow> independent (map (trash_move s stamp r) es)"
proof (induction es)
  case (Cons e es)
  have cross: "apart (repository_parts s r e') (trash_parts s stamp r @ [Name r @ e''])" for e' e''
    using trash_apart [OF deletionD(2) [OF Cons.prems(1)], of s "stamp # Groups r @ [Name r @ e'']" e'] apart_sym
    by (simp add: trash_parts_def)
  have same: "apart (repository_parts s r e) (repository_parts s r e')"
    "apart (trash_parts s stamp r @ [Name r @ e]) (trash_parts s stamp r @ [Name r @ e'])" if "e' \<in> set es" for e'
    using that Cons.prems(3) apart_siblings [of "Name r @ e" "Name r @ e'" _ "[]" "[]"]
      apart_siblings [of "Name r @ e" "Name r @ e'" "store_parts s @ Groups r" "[]" "[]"]
    by (auto simp: repository_parts_def)
  have "\<forall>p\<in>places (trash_move s stamp r e). \<forall>q\<in>places (trash_move s stamp r e'). apart p q" if "e' \<in> set es" for e'
    using same [OF that] cross [THEN apart_sym] cross that Cons.prems(1,2) by (auto simp: places_def)
  then show ?case using Cons cross by (simp add: independent_Cons)
qed (simp add: independent_def)

text \<open>The requests of the sidecar stores are well formed, so their locks are always granted.\<close>

lemma lock_around_granted: "\<forall>r\<in>set rs. wf_request r \<Longrightarrow> lock_around rs action = action"
  using normalize_total [of rs] by (auto simp: lock_around_def)

lemma sidecar_requests_wf:
  "\<forall>q\<in>set (ReviewRepositoryRequests env root rs). wf_request q" "\<forall>q\<in>set (IssueRepositoryRequests env root rs). wf_request q"
  "\<forall>q\<in>set (ReviewGroupRequests env root gs). wf_request q" "\<forall>q\<in>set (IssueGroupRequests env root gs). wf_request q"
  by (auto simp: ReviewRepositoryRequests_def IssueRepositoryRequests_def ReviewGroupRequests_def IssueGroupRequests_def
      ReviewCatalogRequest_def IssueCatalogRequest_def reviewGroupAncestryRequests_def issueGroupAncestryRequests_def
      wf_request_def Let_def resourceKey_nonempty)

lemma sidecar_locks:
  "withSidecarRepositoryLocks env s rs action = action" "withSidecarGroupLocks env s gs action = action"
  by (simp_all add: withSidecarRepositoryLocks_def withSidecarGroupLocks_def lock_around_granted sidecar_requests_wf)

lemma delete_repository_quiet:
  assumes "deletion s stamp r" "script st = []" "find_at (disk st) (repository_parts s r ''.git'') = Inr t"
    "find_at (disk st) (trash_parts s stamp r) = Inl ErrNotExist"
  shows "fst (run_state (DeleteRepositoryLocked env s stamp r) st) = Inr ()"
proof -
  define T where "T = rooted_path (trash_parts s stamp r)"
  define mv where "mv = trash_move s stamp r"
  define es where "es = [''.lfs'', ''.build'', ''.reviews'', ''.issues'']"
  have ms: "mv ''.git'' # map mv es = map mv endings" by (simp add: endings_def es_def)
  have "independent (map mv endings)" unfolding mv_def by (rule moves_independent [OF assms(1)]) (simp_all add: endings_def)
  then have ind: "independent (mv ''.git'' # map mv es)" unfolding ms .
  have T: "path_parts T = trash_parts s stamp r" unfolding T_def by (rule path_parts_rooted [OF trash_normal [OF assms(1)]])
  have parts: "path_parts (fst (mv e)) = repository_parts s r e" "path_parts (snd (mv e)) = trash_parts s stamp r @ [Name r @ e]"
    "fst (mv e) \<noteq> []" "snd (mv e) \<noteq> []" if "e \<in> set endings" for e
    using move_parts [OF assms(1) that] by (simp_all add: mv_def trash_move_def rooted_path_def)
  obtain fs where dir: "find_at (disk st) (store_parts s @ Groups r) = Inr (Dir fs)"
    using find_at_parent [of "disk st" "store_parts s @ Groups r" "Name r @ ''.git''"] assms(3)
    by (auto simp: repository_parts_def)
  have beside: "apart (trash_parts s stamp r) (repository_parts s r e)" for e
    using trash_apart [OF deletionD(2) [OF assms(1)], of s "stamp # Groups r" e] by (simp add: trash_parts_def)
  have "found_or_missing (disk st) (repository_parts s r e)" for e
    using found_or_missing_child [OF dir] by (simp add: repository_parts_def)
  then have sep: "\<forall>m\<in>set (mv ''.git'' # map mv es). fst m \<noteq> [] \<and> snd m \<noteq> [] \<and> apart (path_parts T) (path_parts (fst m)) \<and>
      found_or_missing (disk st) (path_parts (fst m)) \<and> butlast (path_parts (snd m)) = path_parts T \<and> path_parts (snd m) \<noteq> []"
    unfolding ms T using parts beside by auto
  have "present (disk st) (mv ''.git'')" using parts(1) [of "''.git''"] assms(3) by (simp add: present_def endings_def)
  then have "fst (run_state (move_to_trash T (mv ''.git'') (map mv es)) st) = Inr ()"
    using move_to_trash_quiet [OF ind assms(2) sep] assms(4) T by simp
  then show ?thesis unfolding delete_as_moves [OF assms(1)] sidecar_locks T_def mv_def es_def .
qed

section \<open>Properties\<close>

text \<open>
  Property C14. Deleting a repository loses nothing, whichever calls fail. Each of the directories of
  the repository (its Git data, LFS objects, builds, merge requests and issues) is afterwards, with
  everything in it, where it was or in the trash; after success all of them are in the trash and no
  longer at the old place; after an error that does not report a failed restoration all of them are
  where they were. What lies apart from the repository and from the trash is as before. Without
  faults the deletion of a repository that is there succeeds, if its place in the trash is new.
\<close>

theorem delete_repository_keeps_data:
  assumes "absolute_store s" "wf_repository r" "normal stamp"
    "run_state (DeleteRepositoryLocked env s stamp r) st = (res, st')"
    "ending \<in> {''.git'', ''.lfs'', ''.build'', ''.reviews'', ''.issues''}"
    "find_at (disk st) (repository_parts s r ending) = Inr t"
  shows "(find_at (disk st') (repository_parts s r ending) = Inr t \<or>
       find_at (disk st') (trash_parts s stamp r @ [Name r @ ending]) = Inr t) \<and>
     (res = Inr () \<longrightarrow>
       find_at (disk st') (trash_parts s stamp r @ [Name r @ ending]) = Inr t \<and>
       (\<exists>e. find_at (disk st') (repository_parts s r ending) = Inl e)) \<and>
     (\<forall>e. res = Inl e \<and> \<not> (\<exists>e1 e2. e = JoinErr e1 (Wrap ''restore repository after failed delete'' e2)) \<longrightarrow>
       find_at (disk st') (repository_parts s r ending) = Inr t) \<and>
     (\<forall>q. apart (store_parts s @ [''.trash'']) q \<and>
        (\<forall>e \<in> {''.git'', ''.lfs'', ''.build'', ''.reviews'', ''.issues''}. apart (repository_parts s r e) q) \<longrightarrow>
       find_at (disk st') q = find_at (disk st) q) \<and>
     (script st = [] \<and> (\<exists>x. find_at (disk st) (repository_parts s r ''.git'') = Inr x) \<and>
        find_at (disk st) (trash_parts s stamp r) = Inl ErrNotExist \<longrightarrow> res = Inr ())"
proof -
  have d: "deletion s stamp r" using assms(1-3) by (simp add: deletion_def)
  define T where "T = rooted_path (trash_parts s stamp r)"
  define mv where "mv = trash_move s stamp r"
  define es where "es = [''.lfs'', ''.build'', ''.reviews'', ''.issues'']"
  have es: "endings = ''.git'' # es" by (simp add: endings_def es_def)
  have run: "run_state (move_to_trash T (mv ''.git'') (map mv es)) st = (res, st')"
    using assms(4) unfolding delete_as_moves [OF d] sidecar_locks T_def mv_def es_def .
  have ms: "mv ''.git'' # map mv es = map mv endings" by (simp add: es)
  have "independent (map mv endings)" unfolding mv_def by (rule moves_independent [OF d]) (simp_all add: endings_def)
  then have ind: "independent (mv ''.git'' # map mv es)" unfolding ms .
  have T: "path_parts T = trash_parts s stamp r" unfolding T_def by (rule path_parts_rooted [OF trash_normal [OF d]])
  have parts: "path_parts (fst (mv e)) = repository_parts s r e" "path_parts (snd (mv e)) = trash_parts s stamp r @ [Name r @ e]"
    "fst (mv e) \<noteq> []" if "e \<in> set endings" for e
    using move_parts [OF d that] by (simp_all add: mv_def trash_move_def rooted_path_def)
  have sep: "\<forall>m\<in>set (mv ''.git'' # map mv es). fst m \<noteq> [] \<and> apart (path_parts T) (path_parts (fst m))"
    unfolding ms T using parts trash_apart [OF assms(2), of s "stamp # Groups r"] by (auto simp: trash_parts_def)
  have e: "ending \<in> set endings" using assms(5) by (simp add: endings_def)
  then have m: "mv ending \<in> set (mv ''.git'' # map mv es)" unfolding ms by simp
  have "find_at (disk st) (path_parts (fst (mv ending))) = Inr t" using assms(6) parts [OF e] by simp
  note moved = move_to_trash_places [OF run ind sep m this]
  have frame: "find_at (disk st') q = find_at (disk st) q"
    if q: "apart (store_parts s @ [''.trash'']) q" "\<forall>e\<in>set endings. apart (repository_parts s r e) q" for q
  proof -
    have t: "apart (store_parts s @ [''.trash''] @ rest) q" for rest
      using apart_append [OF apart_sym [OF q(1)], of rest] apart_sym by simp
    have "apart p q" if "p \<in> places (mv e)" "e \<in> set endings" for p e
      using that q(2) parts [OF that(2)] t [of "stamp # Groups r @ [Name r @ e]"] by (auto simp: places_def trash_parts_def)
    then have "\<forall>m\<in>set (mv ''.git'' # map mv es). \<forall>p\<in>places m. apart p q" unfolding ms by auto
    moreover have "apart (path_parts T) q" using t [of "stamp # Groups r"] by (simp add: T trash_parts_def)
    ultimately show ?thesis using move_to_trash_elsewhere [OF run ind sep] by blast
  qed
  have endings: "set endings = {''.git'', ''.lfs'', ''.build'', ''.reviews'', ''.issues''}" by (simp add: endings_def)
  have quiet: "res = Inr ()" if "script st = []" "find_at (disk st) (repository_parts s r ''.git'') = Inr x"
    "find_at (disk st) (trash_parts s stamp r) = Inl ErrNotExist" for x
    using delete_repository_quiet [OF d that, of env] assms(4) by simp
  show ?thesis unfolding endings [symmetric]
    using moved frame quiet assms(6) parts [OF e] by (auto simp: at_source_def at_destination_def restore_failed_def)
qed

definition sample_disk :: tree where
  "sample_disk = Dir [(''srv'', Dir [(''g'', Dir [(''control.git'', Dir []), (''p.git'', Dir [(''HEAD'', File ''main'')]),
     (''p.issues'', Dir [(''1.json'', File ''x'')]), (''q.git'', Dir [])])])]"

definition sample_store :: git_store where
  "sample_store = \<lparr>working_dir = Inr ''/'', Root = ''/srv''\<rparr>"

definition sample_state :: "bool list \<Rightarrow> tree_fs" where
  "sample_state failing = \<lparr>disk = sample_disk, script = failing, numbers = id, drawn = 0\<rparr>"

definition sample_locks :: lock_env where
  "sample_locks = \<lparr>getwd = Inr ''/'', eval_symlinks = (\<lambda>p. Inr p), sha256_hex = (\<lambda>_. ''00'')\<rparr>"

text \<open>A deletion without faults, and one whose second rename fails: the first one is undone.\<close>

theorem delete_repository_keeps_data_witness:
  "fst (run_state (DeleteRepositoryLocked sample_locks sample_store ''1'' \<lparr>Groups = [''g''], Name = ''p''\<rparr>) (sample_state [])) = Inr () \<and>
   find_at (disk (snd (run_state (DeleteRepositoryLocked sample_locks sample_store ''1'' \<lparr>Groups = [''g''], Name = ''p''\<rparr>)
     (sample_state [])))) [''srv'', ''.trash'', ''1'', ''g'', ''p.issues''] = Inr (Dir [(''1.json'', File ''x'')])"
proof -
  let ?r = "\<lparr>Groups = [''g''], Name = ''p''\<rparr>"
  let ?run = "run_state (DeleteRepositoryLocked sample_locks sample_store ''1'' ?r) (sample_state [])"
  have ok: "fst ?run = Inr ()" by code_simp
  have places: "repository_parts sample_store ?r ''.issues'' = [''srv'', ''g'', ''p.issues'']"
    "trash_parts sample_store ''1'' ?r = [''srv'', ''.trash'', ''1'', ''g'']" by code_simp+
  have h: "absolute_store sample_store" "wf_repository ?r" "normal ''1''" by code_simp+
  have found: "find_at (disk (sample_state [])) (repository_parts sample_store ?r ''.issues'') = Inr (Dir [(''1.json'', File ''x'')])"
    unfolding places by code_simp
  have run: "?run = (fst ?run, snd ?run)" and e: "''.issues'' \<in> {''.git'', ''.lfs'', ''.build'', ''.reviews'', ''.issues''}"
    by simp_all
  note trashed = delete_repository_keeps_data [OF h run e found, THEN conjunct2, THEN conjunct1, THEN mp, OF ok, THEN conjunct1]
  show ?thesis using ok trashed unfolding places by simp
qed

lemma sample_delete_undone:
  "fst (run_state (DeleteRepositoryLocked sample_locks sample_store ''1'' \<lparr>Groups = [''g''], Name = ''p''\<rparr>)
     (sample_state [False, False, False, False, False, False, False, False, True])) = Inl ErrIO"
  "disk (snd (run_state (DeleteRepositoryLocked sample_locks sample_store ''1'' \<lparr>Groups = [''g''], Name = ''p''\<rparr>)
     (sample_state [False, False, False, False, False, False, False, False, True]))) =
     update_at [''srv'', ''.trash''] (Some (Dir [(''1'', Dir [(''g'', Dir [])])])) sample_disk"
  by code_simp+

text \<open>The repositories of a listing.\<close>

lemma listed_repositories_iff:
  "name \<in> set (listed_repositories es) \<longleftrightarrow> name \<noteq> ''control'' \<and> (\<exists>fs. (name @ ''.git'', Dir fs) \<in> set es)"
proof
  assume "name \<in> set (listed_repositories es)"
  then obtain n t where e: "(n, t) \<in> set es" "is_directory t" "HasSuffix n ''.git''" "n \<noteq> ''control.git''" "name = TrimSuffix n ''.git''"
    by (auto simp: listed_repositories_def)
  obtain p where p: "n = p @ ''.git''" using e(3) by (auto simp: HasSuffix_def suffix_def)
  obtain fs where "t = Dir fs" using e(2) by (cases t) (auto simp: is_directory_def)
  then show "name \<noteq> ''control'' \<and> (\<exists>fs. (name @ ''.git'', Dir fs) \<in> set es)" using e p by auto
next
  assume "name \<noteq> ''control'' \<and> (\<exists>fs. (name @ ''.git'', Dir fs) \<in> set es)"
  then obtain fs where fs: "name \<noteq> ''control''" "(name @ ''.git'', Dir fs) \<in> set es" by blast
  have "name @ ''.git'' \<noteq> ''control'' @ ''.git''" using fs(1) by (simp only: append_same_eq not_False_eq_True)
  then have "name @ ''.git'' \<noteq> ''control.git''" by simp
  then show "name \<in> set (listed_repositories es)"
    unfolding listed_repositories_def using fs(2)
    by (intro image_eqI [of _ _ "(name @ ''.git'', Dir fs)"] list.set_map [THEN equalityD2, THEN subsetD])
      (auto simp: is_directory_def HasSuffix_def suffix_def)
qed

lemma Join_valid_inj:
  "ps \<noteq> [] \<Longrightarrow> qs \<noteq> [] \<Longrightarrow> list_all valid ps \<Longrightarrow> list_all valid qs \<Longrightarrow> Join ps ''/'' = Join qs ''/'' \<Longrightarrow> ps = qs"
  using ParseGroup_Join by (metis sum.inject(2))

text \<open>
  Property C39. The list of groups is exact: without faults it is computed, it has a group just when
  the test for that one group says that it exists, and it names for each group the directories
  ending in \<^verbatim>\<open>.git\<close> other than the control repository.
\<close>

theorem list_groups_exact:
  assumes "absolute_store s" "script st = []" "wf_tree (disk st)" "find_at (disk st) (store_parts s) = Inr (Dir es)"
  shows "\<exists>gs. run_state (ListGroups s) st = (Inr gs, st) \<and>
    (\<forall>grp parts. ParseGroup grp = Inr parts \<longrightarrow>
       (\<exists>g\<in>set gs. GroupInfo_Path g = Join parts ''/'') = (run_state (groupExists s grp) st = (Inr True, st))) \<and>
    (\<forall>g\<in>set gs. \<exists>parts entries. ParseGroup (GroupInfo_Path g) = Inr parts \<and>
       find_at (disk st) (store_parts s @ parts) = Inr (Dir entries) \<and>
       (\<forall>name. name \<in> set (Repositories g) \<longleftrightarrow> name \<noteq> ''control'' \<and> (\<exists>fs. (name @ ''.git'', Dir fs) \<in> set entries)))"
proof -
  have wf: "wf_entries es" "distinct (map fst es)" using wf_tree_find [OF assms(3,4)] by simp_all
  have member: "g \<in> set (root_groups es) \<longleftrightarrow> (\<exists>n ns t. map_of es n = Some t \<and> group_name n \<and> has_control t \<and> found_group [n] t ns g)" for g
    using root_groups_member [OF wf(1), of g] wf(2) by auto
  have below: "find_at (disk st) (store_parts s @ n # ns) = (case map_of es n of None \<Rightarrow> Inl ErrNotExist | Some t \<Rightarrow> find_at t ns)" for n ns
    using assms(4) by (simp add: find_at_append)
  have control: "(\<exists>fs. find_at (disk st) (store_parts s @ [n, ''control.git'']) = Inr (Dir fs)) \<longleftrightarrow>
      (\<exists>t. map_of es n = Some t \<and> has_control t)" for n
    unfolding below by (auto simp: has_control_def is_directory_def split: option.splits sum.splits tree.splits)
  have names: "list_all valid ns" if "list_all group_name ns" for ns using that by (auto simp: list_all_iff group_name_def)
  have exact: "(\<exists>g\<in>set (root_groups es). GroupInfo_Path g = Join parts ''/'') = (run_state (groupExists s grp) st = (Inr True, st))"
    if p: "ParseGroup grp = Inr parts" for grp parts
  proof -
    obtain n ns where parts: "parts = n # ns" "list_all valid (n # ns)" using p by (cases parts) (auto simp: ParseGroup_iff)
    have "(\<exists>g\<in>set (root_groups es). GroupInfo_Path g = Join parts ''/'') \<longleftrightarrow>
        (\<exists>t. map_of es n = Some t \<and> group_name n \<and> has_control t \<and> list_all group_name ns \<and> (\<exists>fs. find_at t ns = Inr (Dir fs)))"
      (is "?L \<longleftrightarrow> ?R")
    proof
      assume ?L
      then obtain g where g: "g \<in> set (root_groups es)" "GroupInfo_Path g = Join parts ''/''" by blast
      obtain m ms t fs where m: "map_of es m = Some t" "group_name m" "has_control t" "list_all group_name ms"
        "find_at t ms = Inr (Dir fs)" "Join (m # ms) ''/'' = Join (n # ns) ''/''"
        using g(1) [unfolded member found_group_def] g(2) parts(1) by auto
      have "m # ms = n # ns" using Join_valid_inj [OF _ _ _ parts(2) m(6)] names [of "m # ms"] m(2,4) by simp
      then show ?R using m by auto
    next
      assume ?R
      then obtain t fs where t: "map_of es n = Some t" "group_name n" "has_control t" "list_all group_name ns"
        "find_at t ns = Inr (Dir fs)" by blast
      then have "found_group [n] t ns \<lparr>GroupInfo_Path = Join (n # ns) ''/'', Repositories = listed_repositories fs\<rparr>"
        by (simp add: found_group_def)
      then have "\<lparr>GroupInfo_Path = Join (n # ns) ''/'', Repositories = listed_repositories fs\<rparr> \<in> set (root_groups es)"
        unfolding member using t(1-3) by blast
      then show ?L unfolding parts(1) by (intro bexI) simp_all
    qed
    also have "\<dots> \<longleftrightarrow> run_state (groupExists s grp) st = (Inr True, st)"
      unfolding groupExists_quiet [OF assms(1,2) p] parts(1) nth_Cons_0 control
      unfolding below by (auto split: option.splits)
    finally show ?thesis .
  qed
  have "\<exists>parts entries. ParseGroup (GroupInfo_Path g) = Inr parts \<and>
       find_at (disk st) (store_parts s @ parts) = Inr (Dir entries) \<and>
       (\<forall>name. name \<in> set (Repositories g) \<longleftrightarrow> name \<noteq> ''control'' \<and> (\<exists>fs. (name @ ''.git'', Dir fs) \<in> set entries))"
    if mem: "g \<in> set (root_groups es)" for g
  proof -
    obtain n ns t fs where g: "map_of es n = Some t" "group_name n" "list_all group_name ns" "find_at t ns = Inr (Dir fs)"
      "g = \<lparr>GroupInfo_Path = Join (n # ns) ''/'', Repositories = listed_repositories fs\<rparr>"
      using mem unfolding member found_group_def by auto
    have "ParseGroup (GroupInfo_Path g) = Inr (n # ns)" using ParseGroup_Join [of "n # ns"] names [of "n # ns"] g by simp
    moreover have "find_at (disk st) (store_parts s @ n # ns) = Inr (Dir fs)" using below g by simp
    ultimately show ?thesis using listed_repositories_iff [of _ fs] g(5) by auto
  qed
  then show ?thesis using ListGroups_quiet [OF assms(1,2,4)] exact by (intro exI [of _ "root_groups es"]) simp
qed

theorem list_groups_exact_witness:
  "fst (run_state (ListGroups sample_store) (sample_state [])) =
     Inr [\<lparr>GroupInfo_Path = ''g'', Repositories = [''p'', ''q'']\<rparr>] \<and>
   run_state (groupExists sample_store ''/g'') (sample_state []) = (Inr True, sample_state [])"
proof -
  have h: "absolute_store sample_store" "script (sample_state []) = []" "wf_tree (disk (sample_state []))" by code_simp+
  have parts: "store_parts sample_store = [''srv'']" by code_simp
  have root: "find_at (disk (sample_state [])) (store_parts sample_store) =
      Inr (Dir [(''g'', Dir [(''control.git'', Dir []), (''p.git'', Dir [(''HEAD'', File ''main'')]),
        (''p.issues'', Dir [(''1.json'', File ''x'')]), (''q.git'', Dir [])])])"
    unfolding parts by code_simp
  have run: "fst (run_state (ListGroups sample_store) (sample_state [])) = Inr [\<lparr>GroupInfo_Path = ''g'', Repositories = [''p'', ''q'']\<rparr>]"
    by code_simp
  have parse: "ParseGroup ''/g'' = Inr [''g'']" by code_simp
  obtain gs where gs: "run_state (ListGroups sample_store) (sample_state []) = (Inr gs, sample_state [])"
    "\<forall>grp parts. ParseGroup grp = Inr parts \<longrightarrow>
       (\<exists>g\<in>set gs. GroupInfo_Path g = Join parts ''/'') = (run_state (groupExists sample_store grp) (sample_state []) = (Inr True, sample_state []))"
    using list_groups_exact [OF h root] by (elim exE conjE) (rule that)
  then have "gs = [\<lparr>GroupInfo_Path = ''g'', Repositories = [''p'', ''q'']\<rparr>]" using run by simp
  then have "\<exists>g\<in>set gs. GroupInfo_Path g = Join [''g''] ''/''" by simp
  then show ?thesis using gs(2) [rule_format, OF parse] run by simp
qed

text \<open>The directory a deleted group gets in the trash.\<close>

definition trash_name :: "string \<Rightarrow> string" where
  "trash_name grp = concat (map (\<lambda>c. if c = CHR ''/'' then ''__'' else [c]) grp)"

lemma trash_name_normal:
  assumes "parts \<noteq> []" "list_all valid parts"
  shows "normal (trash_name (Join parts ''/''))"
proof -
  obtain c p ps where parts: "parts = (c # p) # ps" "valid (c # p)"
    using assms by (cases parts; cases "hd parts") (auto dest: valid_nonempty)
  have c: "c \<noteq> CHR ''.''" "c \<noteq> CHR ''/''" using valid_no_dot_first [OF parts(2)] valid_no_slash [OF parts(2)] by auto
  have "\<exists>rest. Join parts ''/'' = c # rest" by (cases ps) (simp_all add: parts(1))
  then obtain rest where "Join parts ''/'' = c # rest" by blast
  then obtain tail where tail: "trash_name (Join parts ''/'') = c # tail" using c by (simp add: trash_name_def)
  have "CHR ''/'' \<notin> set (trash_name (Join parts ''/''))" by (auto simp: trash_name_def)
  then show ?thesis using c unfolding tail by (intro normalI) auto
qed

lemma reading_groupExists [simp, intro]: "reading (groupExists s grp)"
  by (auto simp: groupExists_def directory_exists_def intro!: reading_bind split: sum.split)

lemma reading_ReadDir [simp, intro]: "reading (ReadDir_at p)"
  by (simp add: ReadDir_at_def)

lemma ReadDir_result:
  "run_state (ReadDir_at p) s = (Inr es, t) \<Longrightarrow> find_at (disk s) (path_parts p) = Inr (Dir es)"
  using fs_read_result [of "\<lambda>d. bindr (find_at d (path_parts p)) (\<lambda>t. case t of File _ \<Rightarrow> Inl ErrIO | Dir es \<Rightarrow> Inr es)" s]
  by (cases "find_at (disk s) (path_parts p)") (auto simp: ReadDir_at_def split: tree.splits)

text \<open>The branches of the deletion: nothing but the trash directory was made, or the rename was tried.\<close>

lemma deleteGroup_cases:
  fixes st st' :: "'z tree_fs_scheme"
  assumes "run_state (deleteGroup s stamp grp) st = (res, st')" "GroupPath s grp = Inr gp"
    "SafeJoin (working_dir s) (Root s) [''.trash'', stamp] = Inr trash"
  obtains (refused) e where "res = Inl e" "disk st' = disk st \<or> mkdirs (path_parts trash) (disk st) = Inr (disk st')"
    | (tried) es u where "find_at (disk st) (path_parts gp) = Inr (Dir es)" "\<forall>e\<in>set es. fst e = ''control.git''"
      "mkdirs (path_parts trash) (disk st) = Inr (disk u)"
      "run_state (Rename_at gp (path_join [trash, trash_name grp])) u = (res, st')"
proof -
  define k3 :: "unit result \<Rightarrow> ('z, unit result) tree_io" where "k3 made = (case made of Inl err \<Rightarrow> State_Monad.return (Inl err)
    | Inr _ \<Rightarrow> Rename_at gp (path_join [trash, trash_name grp]))" for made
  define k2 :: "(string \<times> tree) list result \<Rightarrow> ('z, unit result) tree_io" where "k2 entries = (case entries of Inl err \<Rightarrow> State_Monad.return (Inl err) | Inr es \<Rightarrow>
    if list_ex (\<lambda>e. fst e \<noteq> ''control.git'') es then State_Monad.return (Inl (Errorf ''group is not empty''))
    else MkdirAll_at trash \<bind> k3)" for entries
  obtain x u where x: "run_state (groupExists s grp) st = (x, u)"
    "run_state (case x of Inl err \<Rightarrow> State_Monad.return (Inl err) | Inr ok \<Rightarrow>
      if \<not> ok then State_Monad.return (Inl (Errorf ''group does not exist'')) else ReadDir_at gp \<bind> k2) u = (res, st')"
    using assms(1) unfolding deleteGroup_def assms(2,3) sum.case k2_def k3_def trash_name_def by (rule run_bindE)
  have u: "disk u = disk st" by (rule reading_disk [OF reading_groupExists x(1)])
  show ?thesis
  proof (cases "x = Inr True")
    case False
    then show ?thesis using x(2) u refused by (cases x) auto
  next
    case True
    have "run_state (ReadDir_at gp \<bind> k2) u = (res, st')" using x(2) unfolding True by simp
    then obtain y v where y: "run_state (ReadDir_at gp) u = (y, v)" "run_state (k2 y) v = (res, st')" by (rule run_bindE)
    have v: "disk v = disk st" using reading_disk [OF reading_ReadDir y(1)] u by simp
    show ?thesis
    proof (cases "\<exists>es. y = Inr es \<and> \<not> list_ex (\<lambda>e. fst e \<noteq> ''control.git'') es")
      case False
      then show ?thesis using y(2) v refused by (cases y) (auto simp: k2_def)
    next
      case True
      then obtain es where es: "y = Inr es" "\<not> list_ex (\<lambda>e. fst e \<noteq> ''control.git'') es" by blast
      have "run_state (MkdirAll_at trash \<bind> k3) v = (res, st')" using y(2) es by (simp add: k2_def)
      then obtain z w where z: "run_state (MkdirAll_at trash) v = (z, w)" "run_state (k3 z) w = (res, st')" by (rule run_bindE)
      have dir: "find_at (disk st) (path_parts gp) = Inr (Dir es)" using ReadDir_result [of gp u es v] y(1) es(1) u by simp
      have only: "\<forall>e\<in>set es. fst e = ''control.git''" using es(2) by (auto simp: list_ex_iff)
      show ?thesis
        using z(1) unfolding MkdirAll_at_def
      proof (cases rule: fs_write_cases)
        case (failed e sc)
        then have "res = Inl e" "disk st' = disk st" using z(2) v by (auto simp: k3_def)
        then show ?thesis using refused by blast
      next
        case (written d sc)
        then have "run_state (Rename_at gp (path_join [trash, trash_name grp])) w = (res, st')" using z(2) by (simp add: k3_def)
        moreover have "mkdirs (path_parts trash) (disk st) = Inr (disk w)" using written v by simp
        ultimately show ?thesis using tried [OF dir only] by blast
      qed
    qed
  qed
qed

text \<open>
  Property C40. Only an empty group is deleted: after success the group had nothing but a control
  repository in it, is in the trash as it was and no longer at its place; after an error it is where
  and as it was. What lies apart from the group and the trash is as before in either case.
\<close>

theorem delete_group_only_empty:
  assumes "absolute_store s" "normal stamp" "parts \<noteq> []" "list_all valid parts"
    "run_state (DeleteGroupLocked env s stamp (Join parts ''/'')) st = (res, st')"
  shows "(res = Inr () \<longrightarrow> (\<exists>es. find_at (disk st) (store_parts s @ parts) = Inr (Dir es) \<and> (\<forall>e\<in>set es. fst e = ''control.git'') \<and>
       find_at (disk st') (store_parts s @ [''.trash'', stamp, trash_name (Join parts ''/'')]) = Inr (Dir es) \<and>
       (\<exists>e. find_at (disk st') (store_parts s @ parts) = Inl e))) \<and>
    (\<forall>e. res = Inl e \<longrightarrow> find_at (disk st') (store_parts s @ parts) = find_at (disk st) (store_parts s @ parts)) \<and>
    (\<forall>q. apart (store_parts s @ [''.trash'']) q \<and> apart (store_parts s @ parts) q \<longrightarrow> find_at (disk st') q = find_at (disk st) q)"
proof -
  define gp where "gp = rooted_path (store_parts s @ parts)"
  define trash where "trash = rooted_path (store_parts s @ [''.trash'', stamp])"
  define place where "place = store_parts s @ [''.trash'', stamp, trash_name (Join parts ''/'')]"
  have root: "list_all normal (store_parts s)" by (rule git_parts_normal [OF assms(1)])
  have n: "list_all normal parts" "list_all normal [''.trash'', stamp]" "list_all normal place"
    using assms(2,4) valid_normal trash_name_normal [OF assms(3,4)] root by (auto simp: list_all_iff place_def normal_def)
  have gp: "GroupPath s (Join parts ''/'') = Inr gp"
    using store_join [OF assms(1,3) n(1)] ParseGroup_Join [OF assms(3,4)] by (simp add: GroupPath_def gp_def)
  have tr: "SafeJoin (working_dir s) (Root s) [''.trash'', stamp] = Inr trash"
    using store_join [OF assms(1) list.distinct(2) n(2)] by (simp add: trash_def)
  have join: "path_join [trash, trash_name (Join parts ''/'')] = rooted_path place"
    using path_join_child [of "store_parts s @ [''.trash'', stamp]"] n(3) by (simp add: trash_def place_def)
  have pp: "path_parts gp = store_parts s @ parts" "path_parts trash = store_parts s @ [''.trash'', stamp]"
    "path_parts (rooted_path place) = place"
    using root n by (simp_all add: gp_def trash_def path_parts_rooted)
  obtain g gs where g: "parts = g # gs" "g \<noteq> ''.trash''"
    using assms(3,4) valid_no_dot_first by (cases parts) fastforce+
  have ap: "apart (store_parts s @ parts) place" "apart (store_parts s @ [''.trash'', stamp]) (store_parts s @ parts)"
    using apart_siblings g by (auto simp: place_def)
  have below: "apart (store_parts s @ ''.trash'' # rest) q" if "apart (store_parts s @ [''.trash'']) q" for rest q
    using apart_append [OF apart_sym [OF that], of rest] apart_sym by simp
  have made: "find_at d q = find_at (disk st) q" if "mkdirs (store_parts s @ [''.trash'', stamp]) (disk st) = Inr d"
    "apart (store_parts s @ [''.trash'', stamp]) q" for d q
    using mkdirs_beside [OF that(1)] that(2) by (simp add: apart_def)
  have run: "run_state (deleteGroup s stamp (Join parts ''/'')) st = (res, st')"
    using assms(5) unfolding DeleteGroupLocked_def sidecar_locks .
  from run gp tr show ?thesis
  proof (cases rule: deleteGroup_cases)
    case (refused e)
    then have "find_at (disk st') q = find_at (disk st) q" if "apart (store_parts s @ [''.trash'', stamp]) q" for q
      using made that unfolding pp by auto
    then show ?thesis using refused(1) ap(2) below by simp
  next
    case (tried es u)
    note mk = tried(3) [unfolded pp]
    have ren: "run_state (Rename_at gp (rooted_path place)) u = (res, st')" using tried(4) unfolding join .
    have "apart (path_parts gp) (path_parts (rooted_path place))" unfolding pp by (rule ap(1))
    with ren show ?thesis
    proof (cases rule: Rename_places)
      case (failed e)
      then show ?thesis using made [OF mk] ap(2) below by simp
    next
      case moved
      note r = moved(2) [unfolded pp]
      show ?thesis
        using rename_places [OF r ap(1)] made [OF mk] ap below tried(1,2) moved(1) unfolding pp place_def by auto
    qed
  qed
qed

theorem delete_group_only_empty_witness:
  "fst (run_state (DeleteGroupLocked sample_locks sample_store ''1'' ''h'') (sample_state []\<lparr>disk :=
     Dir [(''srv'', Dir [(''h'', Dir [(''control.git'', Dir [])])])]\<rparr>)) = Inr () \<and>
   find_at (disk (snd (run_state (DeleteGroupLocked sample_locks sample_store ''1'' ''h'') (sample_state []\<lparr>disk :=
     Dir [(''srv'', Dir [(''h'', Dir [(''control.git'', Dir [])])])]\<rparr>)))) [''srv'', ''.trash'', ''1'', ''h''] = Inr (Dir [(''control.git'', Dir [])])"
proof -
  let ?st = "sample_state []\<lparr>disk := Dir [(''srv'', Dir [(''h'', Dir [(''control.git'', Dir [])])])]\<rparr>"
  let ?run = "run_state (DeleteGroupLocked sample_locks sample_store ''1'' (Join [''h''] ''/'')) ?st"
  have ok: "fst ?run = Inr ()" by code_simp
  have h: "absolute_store sample_store" "normal ''1''" "[''h''] \<noteq> []" "list_all valid [''h'']" by code_simp+
  have name: "store_parts sample_store @ [''.trash'', ''1'', trash_name (Join [''h''] ''/'')] = [''srv'', ''.trash'', ''1'', ''h'']"
    "store_parts sample_store @ [''h''] = [''srv'', ''h'']" by code_simp+
  have found: "find_at (disk ?st) [''srv'', ''h''] = Inr (Dir [(''control.git'', Dir [])])" by code_simp
  have run: "?run = (fst ?run, snd ?run)" by simp
  note gone = delete_group_only_empty [OF h run, THEN conjunct1, THEN mp, OF ok, unfolded name]
  obtain es where "find_at (disk ?st) [''srv'', ''h''] = Inr (Dir es)" "find_at (disk (snd ?run)) [''srv'', ''.trash'', ''1'', ''h''] = Inr (Dir es)"
    using gone by (elim exE conjE) (rule that)
  then show ?thesis using ok found by simp
qed

end
