(* ===== verification/Spec2Isabelle.thy ===== *)
theory Spec2Isabelle
  imports SafePath Control LockSystem Auth LfsPointer RepoConfig Issue ReviewOpen BuildRest LfsClaims ImportClaims StorageClaims
begin

text \<open>
  Verification of GitOne, a Git server with groups, merge requests, issues, Git LFS and builds.

  \<^bold>\<open>Parts of the program.\<close> A request path names a repository below a group (repopath). Who may do
  what is in a settings document of the root group (control), read from a Git repository and cached;
  passwords and tokens are resolved to a principal under an attempt limit (auth). Operations take
  locks on groups, repositories, LFS storage and builds in one order (lockmgr). Issues and merge
  requests are numbered JSON files in sidecar directories (issue, review). A repository may describe
  builds (repoconfig); a coordinator queues them, hands them to runners under leases and settles
  their dependencies (runner). LFS objects are uploaded, verified and downloaded (lfs, lfspointer).
  Repositories are imported from other servers, under a policy that keeps imports out of the local
  network (storage).

  \<^bold>\<open>Theories.\<close> Source files are given below \<^verbatim>\<open>src/internal\<close>.

  \<^item> Prelude, Encoding, GoTime: Go's error values and results, string functions, 64-bit integers with
    explicit wrap-around, decimal numbers, base64, RFC 3339 times.
  \<^item> RepoPath, SafePath: \<^verbatim>\<open>repopath/repopath.go\<close>. The parser accepts exactly the printed paths of
    well-formed repositories; \<^verbatim>\<open>SafeJoin\<close>, over a model of \<^verbatim>\<open>path/filepath\<close>, never leaves its root.
  \<^item> Control: \<^verbatim>\<open>control/model.go\<close>, \<^verbatim>\<open>control/store.go\<close>. What a valid document is, and that the cache
    is transparent.
  \<^item> LockMgr, LockSystem: \<^verbatim>\<open>lockmgr/lockmgr.go\<close>. Request normalisation and key order; acquisition and
    release as a step relation over \<^verbatim>\<open>sync.RWMutex\<close>: exclusion, exact lock table, no deadlock.
  \<^item> Limiter, Auth: \<^verbatim>\<open>auth/limit.go\<close>, \<^verbatim>\<open>auth/auth.go\<close>. Attempt limits with backoff, key-derivation slots,
    the resolver and stored token secrets.
  \<^item> FileSystem, FileLaws: directories and files with the calls of Go's \<^verbatim>\<open>os\<close> package as state passing.
    Every call first consults a script of faults, so any call may fail at any point.
  \<^item> RecordStore, StoreLaws, StoreMoves, StoreLive, Issue, Review, ReviewOpen: \<^verbatim>\<open>issue/\<close>, \<^verbatim>\<open>review/\<close>. The code the
    two stores share stands once; validators, creation, update, listing, relocation with rollback, move
    transactions and locks. Effects are stated under arbitrary faults, liveness without faults. ReviewOpen
    shows that open merge requests stay unique across everything that writes or moves them, and has a
    codec for all requests that satisfies what is assumed of \<^verbatim>\<open>encoding/json\<close>.
  \<^item> JobStore, Dependencies, Coordinator, BuildCycle, BuildClaim, BuildRest: \<^verbatim>\<open>runner/store.go\<close>,
    \<^verbatim>\<open>dependencies.go\<close>, \<^verbatim>\<open>coordinator.go\<close>, \<^verbatim>\<open>operations.go\<close>. Build records and logs, the settling of
    dependencies, every operation of the coordinator; builds follow their life cycle along every
    sequence of operations, with the steps of others in every place where a lock is waited for.
  \<^item> TreeFS, StoragePaths: a file system with whole directory trees, in the state monad, and the paths
    of \<^verbatim>\<open>storage/storage.go\<close>.
  \<^item> StorageOps, StorageLaws, StorageClaims: \<^verbatim>\<open>storage/storage.go\<close>. The test for a group and the list of
    groups, which agree; moving a repository with its sidecar directories to the trash, which loses
    nothing whichever call fails; deleting a group, which must be empty.
  \<^item> Lfs, LfsLaws, LfsUpload, LfsPublish, LfsSystem, LfsQuota, LfsClaims: \<^verbatim>\<open>lfs/lfs.go\<close>. The handler, and
    uploads that run concurrently as steps of their sections: the quota of a group, the digests of
    stored objects, permissions, the round trip of an upload and a download.
  \<^item> ImportNetwork, ImportClaims: \<^verbatim>\<open>storage/import_network.go\<close>. The allow list, the address filter over
    the predicates of \<^verbatim>\<open>net/netip\<close>, resolution, dialling and redirects: the filter in numeric ranges,
    which addresses are dialled, with the special-purpose IPv6 addresses that a zone carries past the
    filter named as an exception, and where credentials are sent.
  \<^item> LfsPointer: \<^verbatim>\<open>lfspointer/pointer.go\<close>. RepoConfig: \<^verbatim>\<open>repoconfig/config.go\<close>, with the cycle search.

  \<^bold>\<open>State and operations.\<close> A struct is a record, an enumeration of strings is a string as in the
  source, a Go map is an association list or a map, an error is a value of \<^typ>\<open>goerror\<close> and a fallible
  function returns \<^typ>\<open>'a result\<close>. Functions keep their names. Concurrency is a step relation whose
  steps are the sections of code that hold a lock or touch nothing shared.

  \<^bold>\<open>Fuel and bounds.\<close> The cycle search of RepoConfig has its depth as fuel, and running out of it is a
  value of its own; its property shows that one level more than there are jobs is enough and that more
  fuel does not change the answer. The reconciliation loop of the coordinator has a
  number of rounds as fuel; one round more than there are unsettled builds is enough. The search for
  a free record number ends by a measure. \<^verbatim>\<open>int64\<close> sums are wrapped where they can leave the range;
  the LFS properties state the quota below which no sum overflows.

  \<^bold>\<open>Parameters.\<close> Code that is not in the repository, or is not executable here, is an argument: JSON and
  YAML decoding, go-git, the LDAP directory, PBKDF2 and SHA-256, \<^verbatim>\<open>path.Match\<close>, Unicode lower case, the
  parsers of addresses and URLs, the name resolver and the dialer,
  clock readings and random identifiers. What a property needs of them is a hypothesis, and its
  witness instantiates it. Of \<^verbatim>\<open>encoding/json\<close> the merge request property assumes the documented behaviour,
  with invalid UTF-8 replaced; the properties of issues and builds name the records they need reproduced.
  The dialer answers by address and port. The random numbers of temporary upload names do not repeat: the deferred
  removal in the upload handler relies on it.

  \<^bold>\<open>Not modelled.\<close> Creating repositories and writing group settings, the transfer of imports, the
  Git protocol handlers and most of \<^verbatim>\<open>httpapi\<close> are input and output around go-git; renaming a
  repository or a group joins moves of trees with the modelled transactions of the record stores and
  is left out; the runner process and its virtual machines are clients of external programs; sessions,
  server start, TLS and the browser application are glue. Symbolic links exist in the flat file
  system only. Downloads of LFS objects send the whole file, without ranges or conditions; the attempts of
  a build are counted without a bound; values are not shared, so the copies the settings cache makes of its
  documents are not visible.
\<close>

end
